(* ===== verification/Honas_Base.thy ===== *)
theory Honas_Base
  imports Main "HOL-Library.Word" "HOL-Library.Monad_Syntax"
begin

unbundle bit_operations_syntax

text \<open>
  Shared vocabulary of the development: the machine integer types of the C code, byte
  sequences, the abort monad that models \<open>assert()\<close>, and generic lemmas on lists, words and
  bits that the component theories use.

  The C code runs on a 64-bit little endian machine (\<open>src/src/honas_state.c\<close> refuses any
  other byte order). \<open>uint8_t\<close>, \<open>uint32_t\<close> and \<open>uint64_t\<close> values are words of that width
  wherever they can wrap around. A \<open>size_t\<close> that only counts or indexes bytes of an object in
  memory cannot wrap and is a \<open>nat\<close>.
\<close>

section \<open>Types\<close>

type_synonym u8 = "8 word"
type_synonym u16 = "16 word"
type_synonym u32 = "32 word"
type_synonym u64 = "64 word"
type_synonym u128 = "128 word"

text \<open>A \<open>byte_slice_t\<close> seen as the sequence of bytes it refers to.\<close>

type_synonym bytes = "u8 list"

named_theorems honas_simps \<open>equations of the model that unfold without looping\<close>
named_theorems abort_simps \<open>evaluation of the abort monad\<close>
named_theorems byte_bits \<open>what an operation does to the bits of a byte sequence\<close>

section \<open>The abort monad\<close>

text \<open>
  A function that can end the process, by a failed \<open>assert()\<close> or by an access outside of an
  object, returns an option; \<open>None\<close> is the abort. A failed assertion is \<open>c_assert False\<close>.
\<close>

definition c_assert :: "bool \<Rightarrow> unit option" where
  "c_assert P = (if P then Some () else None)"

lemma c_assert_bind [simp, abort_simps]:
  "(c_assert P \<bind> f) = (if P then f () else None)"
  by (simp add: c_assert_def)

lemma c_assert_eq_Some [simp, abort_simps]: "c_assert P = Some u \<longleftrightarrow> P"
  by (simp add: c_assert_def)

lemma bind_eq_SomeE:
  assumes "m \<bind> f = Some y"
  obtains x where "m = Some x" "f x = Some y"
  using assms by (cases m) auto

section \<open>Lists\<close>

lemma nth_take_drop_split:
  "i < length xs \<Longrightarrow> xs = take i xs @ xs ! i # drop (Suc i) xs"
  by (rule id_take_nth_drop)

lemma set_update_subset: "set (xs[i := x]) \<subseteq> insert x (set xs)"
  by (rule set_update_subset_insert)

text \<open>Replacing the part of a list that starts at an offset, as \<open>memcpy\<close> does.\<close>

definition splice :: "nat \<Rightarrow> 'a list \<Rightarrow> 'a list \<Rightarrow> 'a list" where
  "splice off ys xs = take off xs @ ys @ drop (off + length ys) xs"

lemma length_splice [simp]:
  "off + length ys \<le> length xs \<Longrightarrow> length (splice off ys xs) = length xs"
  by (simp add: splice_def)

lemma nth_splice:
  assumes "off + length ys \<le> length xs"
  shows "splice off ys xs ! i =
    (if off \<le> i \<and> i < off + length ys then ys ! (i - off) else xs ! i)"
proof (cases "i < off + length ys")
  case True
  with assms show ?thesis by (auto simp: splice_def nth_append)
next
  case False
  then obtain j where "i = off + length ys + j" by (metis le_Suc_ex not_less)
  with assms show ?thesis by (simp add: splice_def nth_append)
qed

lemma take_drop_splice [simp]:
  "off + length ys \<le> length xs \<Longrightarrow> take (length ys) (drop off (splice off ys xs)) = ys"
  by (simp add: splice_def)

lemma take_drop_splice_disjoint:
  assumes "off + length ys \<le> length xs" and "a + n \<le> off \<or> off + length ys \<le> a"
  shows "take n (drop a (splice off ys xs)) = take n (drop a xs)"
proof (rule nth_equalityI)
  show "length (take n (drop a (splice off ys xs))) = length (take n (drop a xs))"
    using assms(1) by simp
next
  fix i assume "i < length (take n (drop a (splice off ys xs)))"
  then have "i < n" and "a + i < length xs" using assms(1) by auto
  with assms show "take n (drop a (splice off ys xs)) ! i = take n (drop a xs) ! i"
    by (auto simp: nth_splice)
qed

section \<open>Bits of a byte sequence\<close>

text \<open>
  Bit \<open>i\<close> of a byte sequence is bit \<open>i mod 8\<close> of byte \<open>i div 8\<close>. \<open>bits_of\<close> is the abstract
  value of a bitset or a Bloom filter: the set of its one bits.
\<close>

definition bit_at :: "bytes \<Rightarrow> nat \<Rightarrow> bool" where
  "bit_at s i \<longleftrightarrow> i div 8 < length s \<and> bit (s ! (i div 8)) (i mod 8)"

definition bits_of :: "bytes \<Rightarrow> nat set" where
  "bits_of s = {i. bit_at s i}"

lemma mem_bits_of [simp]: "i \<in> bits_of s \<longleftrightarrow> bit_at s i"
  by (simp add: bits_of_def)

lemma bit_at_bound: "bit_at s i \<Longrightarrow> i < 8 * length s"
  by (simp add: bit_at_def) linarith

lemma finite_bits_of [simp]: "finite (bits_of s)"
  by (rule finite_subset [of _ "{..<8 * length s}"]) (auto dest: bit_at_bound)

lemma bits_of_Nil [simp]: "bits_of [] = {}"
  by (auto simp: bits_of_def bit_at_def)

lemma bit_at_append:
  "bit_at (s @ t) i = (if i < 8 * length s then bit_at s i else bit_at t (i - 8 * length s))"
proof (cases "i < 8 * length s")
  case True
  then have "i div 8 < length s" by (simp add: less_mult_imp_div_less mult.commute)
  with True show ?thesis by (simp add: bit_at_def nth_append)
next
  case False
  then obtain j where j: "i = 8 * length s + j" by (metis le_Suc_ex not_less)
  have "i div 8 = length s + j div 8" and "i mod 8 = j mod 8"
    by (simp_all add: j)
  then show ?thesis using j by (simp add: bit_at_def nth_append)
qed

lemma byte_eqI: "(\<And>n. n < 8 \<Longrightarrow> bit (a :: u8) n = bit b n) \<Longrightarrow> a = b"
  by (rule bit_word_eqI) simp

lemma bytes_eqI:
  assumes "length s = length t" and "\<And>i. i < 8 * length s \<Longrightarrow> bit_at s i = bit_at t i"
  shows "s = t"
proof (rule nth_equalityI [OF assms(1)])
  fix k assume k: "k < length s"
  show "s ! k = t ! k"
  proof (rule byte_eqI)
    fix n :: nat assume n: "n < 8"
    then have "(8 * k + n) div 8 = k" and "(8 * k + n) mod 8 = n" by simp_all
    moreover have "8 * k + n < 8 * length s" using k n by simp
    ultimately show "bit (s ! k) n = bit (t ! k) n"
      using assms k by (fastforce simp: bit_at_def)
  qed
qed

section \<open>Little endian values\<close>

fun bytes_val :: "bytes \<Rightarrow> nat" where
  "bytes_val [] = 0"
| "bytes_val (b # bs) = unat b + 256 * bytes_val bs"

fun val_bytes :: "nat \<Rightarrow> nat \<Rightarrow> bytes" where
  "val_bytes 0 v = []"
| "val_bytes (Suc n) v = of_nat (v mod 256) # val_bytes n (v div 256)"

lemma length_val_bytes [simp]: "length (val_bytes n v) = n"
  by (induction n arbitrary: v) auto

lemma unat_u8_less [simp]: "unat (b :: u8) < 256"
  using unsigned_less [of b, where ?'a = nat] by simp

lemma unat_u64_less [simp]: "unat (w :: u64) < 18446744073709551616"
  using unsigned_less [of w, where ?'a = nat] by simp

lemma unat_u32_less [simp]: "unat (w :: u32) < 4294967296"
  using unsigned_less [of w, where ?'a = nat] by simp

lemma unat_u64_le: "unat (w :: u64) \<le> 18446744073709551615"
  using unat_u64_less [of w] by linarith

lemma unat_u32_le: "unat (w :: u32) \<le> 4294967295"
  using unat_u32_less [of w] by linarith

lemma unat_ucast: "unat (ucast w :: 'b::len word) = unat w mod 2 ^ LENGTH('b)"
  by (simp add: unsigned_ucast_eq take_bit_eq_mod)

lemma unat_eqI: "unat v = unat w \<Longrightarrow> v = w"
  by (simp add: word_unat_eq_iff)

lemma unat_ucast_up:
  fixes w :: "'a::len word"
  assumes "LENGTH('a) \<le> LENGTH('b::len)"
  shows "unat (ucast w :: 'b word) = unat w"
proof -
  have "unat w < 2 ^ LENGTH('a)" by (rule unsigned_less)
  also have "\<dots> \<le> 2 ^ LENGTH('b)" using assms by (simp add: power_increasing)
  finally show ?thesis by (simp add: unat_ucast)
qed

lemma bytes_val_less: "bytes_val s < 256 ^ length s"
proof (induction s)
  case Nil
  show ?case by simp
next
  case (Cons b s)
  have "unat b \<le> 255" using unat_u8_less [of b] by linarith
  with Cons show ?case by simp
qed

lemma unat_of_nat_u8: "unat (of_nat n :: u8) = n mod 256"
  by (simp add: unat_of_nat)

lemma bytes_val_val_bytes: "bytes_val (val_bytes n v) = v mod 256 ^ n"
proof (induction n arbitrary: v)
  case 0
  show ?case by simp
next
  case (Suc n)
  have "v mod 256 ^ Suc n = v mod 256 + 256 * (v div 256 mod 256 ^ n)"
    by (simp add: mod_mult2_eq)
  with Suc show ?case by (simp add: unat_of_nat_u8)
qed

lemma val_bytes_bytes_val: "val_bytes (length s) (bytes_val s) = s"
  by (induction s) (simp_all add: unat_u8_less)

lemma bytes_val_append: "bytes_val (s @ t) = bytes_val s + 256 ^ length s * bytes_val t"
  by (induction s) (simp_all add: algebra_simps)

lemma bytes_val_replicate_0 [simp]: "bytes_val (replicate n 0) = 0"
  by (induction n) auto

text \<open>The bits of the little endian value are the bits of the bytes.\<close>

lemma bit_add_high:
  assumes "a < 2 ^ k"
  shows "bit (a + 2 ^ k * b :: nat) i = (if i < k then bit a i else bit b (i - k))"
proof (cases "i < k")
  case True
  then obtain d where d: "k = i + Suc d" by (metis less_imp_Suc_add add_Suc_right)
  have "a + 2 ^ k * b = a + (2 * (2 ^ d * b)) * 2 ^ i"
    by (simp add: d power_add algebra_simps)
  then have "(a + 2 ^ k * b) div 2 ^ i = 2 * (2 ^ d * b) + a div 2 ^ i"
    by (simp only: div_mult_self1 power_not_zero zero_neq_numeral not_False_eq_True)
  with True show ?thesis by (simp add: bit_iff_odd)
next
  case False
  then obtain d where d: "i = k + d" by (metis le_Suc_ex not_less)
  have "(a + 2 ^ k * b) div 2 ^ i = b div 2 ^ d"
    using assms by (simp add: d power_add div_mult2_eq)
  with False d show ?thesis by (simp add: bit_iff_odd)
qed

lemma bit_bytes_val: "bit (bytes_val s) i \<longleftrightarrow> bit_at s i"
proof (induction s arbitrary: i)
  case Nil
  show ?case by (simp add: bit_at_def)
next
  case (Cons b s)
  have "bit (bytes_val (b # s)) i = (if i < 8 then bit (unat b) i else bit (bytes_val s) (i - 8))"
    using bit_add_high [of "unat b" 8 "bytes_val s" i] by simp
  moreover have "bit_at (b # s) i = (if i < 8 then bit b i else bit_at s (i - 8))"
    using bit_at_append [of "[b]" s i] by (simp add: bit_at_def)
  ultimately show ?case using Cons by (simp add: bit_unsigned_iff)
qed

lemma bit_at_val_bytes: "bit_at (val_bytes n v) i \<longleftrightarrow> i < 8 * n \<and> bit v i"
proof -
  have "(256 :: nat) ^ n = 2 ^ (8 * n)" by (simp add: power_mult)
  then have "v mod 256 ^ n = take_bit (8 * n) v" by (simp add: take_bit_eq_mod)
  then show ?thesis
    by (simp add: bit_bytes_val [symmetric] bytes_val_val_bytes bit_take_bit_iff)
qed

text \<open>Reading and writing a 64-bit little endian word in memory.\<close>

definition load64 :: "bytes \<Rightarrow> nat \<Rightarrow> u64" where
  "load64 s off = of_nat (bytes_val (take 8 (drop off s)))"

definition store64 :: "bytes \<Rightarrow> nat \<Rightarrow> u64 \<Rightarrow> bytes" where
  "store64 s off w = splice off (val_bytes 8 (unat w)) s"

lemma length_store64 [simp]: "off + 8 \<le> length s \<Longrightarrow> length (store64 s off w) = length s"
  by (simp add: store64_def)

lemma bit_load64: "off + 8 \<le> length s \<Longrightarrow> bit (load64 s off) i \<longleftrightarrow> bit_at (take 8 (drop off s)) i"
  using bit_at_bound [of "take 8 (drop off s)" i]
  by (auto simp: load64_def bit_of_nat_iff bit_bytes_val)

end
