(* ===== verification/Byte_Arith.thy ===== *)
theory Byte_Arith
  imports Honas_Base
begin

text \<open>
  Arithmetic on byte slices (\<open>src/include/byte_slice.h\<close>): the slice as a little endian big
  integer that is multiplied in place by one word, in the portable and in the inline assembly
  version, and the 64-bit MurmurHash64A of a slice.
\<close>

section \<open>The slice as an array of words\<close>

fun words64 :: "bytes \<Rightarrow> u64 list" where
  "words64 [] = []"
| "words64 (b # s) = of_nat (bytes_val (take 8 (b # s))) # words64 (drop 7 s)"

fun words32 :: "bytes \<Rightarrow> u32 list" where
  "words32 [] = []"
| "words32 (b # s) = of_nat (bytes_val (take 4 (b # s))) # words32 (drop 3 s)"

fun unwords64 :: "u64 list \<Rightarrow> bytes" where
  "unwords64 [] = []"
| "unwords64 (w # ws) = val_bytes 8 (unat w) @ unwords64 ws"

fun unwords32 :: "u32 list \<Rightarrow> bytes" where
  "unwords32 [] = []"
| "unwords32 (w # ws) = val_bytes 4 (unat w) @ unwords32 ws"

fun words_val :: "'a::len word list \<Rightarrow> nat" where
  "words_val [] = 0"
| "words_val (w # ws) = unat w + 2 ^ LENGTH('a) * words_val ws"

lemma words_val_u64: "words_val ((w :: u64) # ws) = unat w + 2 ^ 64 * words_val ws"
  by simp

lemma words_val_u32: "words_val ((w :: u32) # ws) = unat w + 2 ^ 32 * words_val ws"
  by simp

lemma unat_of_nat_less: "n < 2 ^ LENGTH('a) \<Longrightarrow> unat (of_nat n :: 'a::len word) = n"
  by (simp add: unat_of_nat)

lemma unwords64_words64: "8 dvd length s \<Longrightarrow> unwords64 (words64 s) = s"
proof (induction s rule: words64.induct)
  case (2 b s)
  let ?l = "b # s"
  have len: "length ?l \<ge> 8" using "2.prems" dvd_imp_le [of 8 "length ?l"] by simp
  have "8 dvd length (drop 7 s)"
    using "2.prems" len dvd_diff_nat [of 8 "length ?l" 8] by simp
  then have IH: "unwords64 (words64 (drop 7 s)) = drop 8 ?l" using "2.IH" by simp
  have "length (take 8 ?l) = 8" using len by (simp del: take_Cons_numeral)
  then have "unat (of_nat (bytes_val (take 8 ?l)) :: u64) = bytes_val (take 8 ?l)"
    and "val_bytes 8 (bytes_val (take 8 ?l)) = take 8 ?l"
    using bytes_val_less [of "take 8 ?l"] val_bytes_bytes_val [of "take 8 ?l"]
    by (simp_all add: unat_of_nat_less del: take_Cons_numeral bytes_val.simps val_bytes.simps)
  then show ?case
    using IH append_take_drop_id [of 8 ?l]
    by (simp only: words64.simps unwords64.simps)
qed simp

lemma unwords32_words32: "4 dvd length s \<Longrightarrow> unwords32 (words32 s) = s"
proof (induction s rule: words32.induct)
  case (2 b s)
  let ?l = "b # s"
  have len: "length ?l \<ge> 4" using "2.prems" dvd_imp_le [of 4 "length ?l"] by simp
  have "4 dvd length (drop 3 s)"
    using "2.prems" len dvd_diff_nat [of 4 "length ?l" 4] by simp
  then have IH: "unwords32 (words32 (drop 3 s)) = drop 4 ?l" using "2.IH" by simp
  have "length (take 4 ?l) = 4" using len by (simp del: take_Cons_numeral)
  then have "unat (of_nat (bytes_val (take 4 ?l)) :: u32) = bytes_val (take 4 ?l)"
    and "val_bytes 4 (bytes_val (take 4 ?l)) = take 4 ?l"
    using bytes_val_less [of "take 4 ?l"] val_bytes_bytes_val [of "take 4 ?l"]
    by (simp_all add: unat_of_nat_less del: take_Cons_numeral bytes_val.simps val_bytes.simps)
  then show ?case
    using IH append_take_drop_id [of 4 ?l]
    by (simp only: words32.simps unwords32.simps)
qed simp

lemma bytes_val_unwords64: "bytes_val (unwords64 ws) = words_val ws"
proof (induction ws)
  case (Cons w ws)
  have "unat w mod 256 ^ 8 = unat w" by simp
  with Cons show ?case by (simp add: bytes_val_append bytes_val_val_bytes)
qed simp

lemma bytes_val_unwords32: "bytes_val (unwords32 ws) = words_val ws"
proof (induction ws)
  case (Cons w ws)
  have "unat w mod 256 ^ 4 = unat w" by simp
  with Cons show ?case by (simp add: bytes_val_append bytes_val_val_bytes)
qed simp

lemma length_unwords64 [simp]: "length (unwords64 ws) = 8 * length ws"
  by (induction ws) auto

lemma length_unwords32 [simp]: "length (unwords32 ws) = 4 * length ws"
  by (induction ws) auto

lemma words_val_words64: "8 dvd length s \<Longrightarrow> words_val (words64 s) = bytes_val s"
  by (metis bytes_val_unwords64 unwords64_words64)

lemma words_val_words32: "4 dvd length s \<Longrightarrow> words_val (words32 s) = bytes_val s"
  by (metis bytes_val_unwords32 unwords32_words32)

lemma length_words64: "8 dvd length s \<Longrightarrow> 8 * length (words64 s) = length s"
  by (metis length_unwords64 unwords64_words64)

lemma length_words32: "4 dvd length s \<Longrightarrow> 4 * length (words32 s) = length s"
  by (metis length_unwords32 unwords32_words32)

section \<open>Multiplication in place\<close>

text \<open>
  One step multiplies a word of the number by the multiplier and adds the overflow of the
  previous step. The portable version detects the carry by comparing a wider sum with the
  largest word; the assembly version uses the carry flag (\<open>mul\<close>, \<open>add\<close>, \<open>adc\<close>).
\<close>

fun mul64_noasm_loop :: "u64 \<Rightarrow> u64 list \<Rightarrow> u64 \<Rightarrow> u64 list \<times> u64" where
  "mul64_noasm_loop multiplier [] overflow = ([], overflow)"
| "mul64_noasm_loop multiplier (data # rest) overflow =
     (let tmp = (ucast data :: u128) * ucast multiplier;
          mul_lo = (ucast tmp :: u64);
          mul_hi = (ucast (drop_bit 64 tmp) :: u64);
          tmp = (ucast mul_lo :: u128) + ucast overflow;
          mul_hi = (if tmp > 0xFFFFFFFFFFFFFFFF then mul_hi + 1 else mul_hi);
          (rest', overflow') = mul64_noasm_loop multiplier rest mul_hi
      in (ucast tmp # rest', overflow'))"

fun mul64_asm_loop :: "u64 \<Rightarrow> u64 list \<Rightarrow> u64 \<Rightarrow> u64 list \<times> u64" where
  "mul64_asm_loop multiplier [] overflow = ([], overflow)"
| "mul64_asm_loop multiplier (data # rest) overflow =
     (let product = (ucast multiplier :: u128) * ucast data;
          mul_lo = (ucast product :: u64);
          mul_hi = (ucast (drop_bit 64 product) :: u64);
          carry = (if unat mul_lo + unat overflow \<ge> 2 ^ 64 then 1 else 0);
          mul_lo = mul_lo + overflow;
          mul_hi = mul_hi + 0 + carry;
          (rest', overflow') = mul64_asm_loop multiplier rest mul_hi
      in (mul_lo # rest', overflow'))"

fun mul32_noasm_loop :: "u32 \<Rightarrow> u32 list \<Rightarrow> u32 \<Rightarrow> u32 list \<times> u32" where
  "mul32_noasm_loop multiplier [] overflow = ([], overflow)"
| "mul32_noasm_loop multiplier (data # rest) overflow =
     (let tmp = (ucast data :: u64) * ucast multiplier;
          mul_lo = (ucast tmp :: u32);
          mul_hi = (ucast (drop_bit 32 tmp) :: u32);
          tmp = (ucast mul_lo :: u64) + ucast overflow;
          mul_hi = (if tmp > 0xFFFFFFFF then mul_hi + 1 else mul_hi);
          (rest', overflow') = mul32_noasm_loop multiplier rest mul_hi
      in (ucast tmp # rest', overflow'))"

fun mul32_asm_loop :: "u32 \<Rightarrow> u32 list \<Rightarrow> u32 \<Rightarrow> u32 list \<times> u32" where
  "mul32_asm_loop multiplier [] overflow = ([], overflow)"
| "mul32_asm_loop multiplier (data # rest) overflow =
     (let product = (ucast multiplier :: u64) * ucast data;
          mul_lo = (ucast product :: u32);
          mul_hi = (ucast (drop_bit 32 product) :: u32);
          carry = (if unat mul_lo + unat overflow \<ge> 2 ^ 32 then 1 else 0);
          mul_lo = mul_lo + overflow;
          mul_hi = mul_hi + 0 + carry;
          (rest', overflow') = mul32_asm_loop multiplier rest mul_hi
      in (mul_lo # rest', overflow'))"

definition byte_slice_mul64_noasm :: "bytes \<Rightarrow> u64 \<Rightarrow> (bytes \<times> u64) option" where
  "byte_slice_mul64_noasm s multiplier = do {
     c_assert (length s mod 8 = 0);
     let (ws, overflow) = mul64_noasm_loop multiplier (words64 s) 0;
     Some (unwords64 ws, overflow)
   }"

definition byte_slice_mul64_asm :: "bytes \<Rightarrow> u64 \<Rightarrow> (bytes \<times> u64) option" where
  "byte_slice_mul64_asm s multiplier = do {
     c_assert (length s mod 8 = 0);
     let (ws, overflow) = mul64_asm_loop multiplier (words64 s) 0;
     Some (unwords64 ws, overflow)
   }"

definition byte_slice_mul32_noasm :: "bytes \<Rightarrow> u32 \<Rightarrow> (bytes \<times> u32) option" where
  "byte_slice_mul32_noasm s multiplier = do {
     c_assert (length s mod 4 = 0);
     let (ws, overflow) = mul32_noasm_loop multiplier (words32 s) 0;
     Some (unwords32 ws, overflow)
   }"

definition byte_slice_mul32_asm :: "bytes \<Rightarrow> u32 \<Rightarrow> (bytes \<times> u32) option" where
  "byte_slice_mul32_asm s multiplier = do {
     c_assert (length s mod 4 = 0);
     let (ws, overflow) = mul32_asm_loop multiplier (words32 s) 0;
     Some (unwords32 ws, overflow)
   }"

text \<open>The arithmetic of one step, with the base \<open>B\<close> of the words.\<close>

lemma mul_step_nat:
  assumes "D < B" "M < B" "V < B" "(0 :: nat) < B"
  defines "P \<equiv> D * M"
  defines "hi \<equiv> (if P mod B + V > B - 1 then (P div B + 1) mod B else P div B)"
  shows "(P mod B + V) mod B + B * hi = D * M + V"
    and "V < M \<Longrightarrow> hi < M"
proof -
  obtain b where b: "B = Suc b" using assms(4) by (cases B) auto
  have "D * M \<le> b * b" using assms(1,2) b by (intro mult_mono) auto
  then have "D * M + V < B * B" using assms(3) b by simp
  then have hi_lt: "(D * M + V) div B < B" by (rule less_mult_imp_div_less)
  have split: "P mod B + B * (P div B) = P" by simp
  have hi: "hi = (D * M + V) div B"
  proof (cases "P mod B + V > B - 1")
    case True
    have "P mod B < B" using assms(4) by simp
    then have "P mod B + V < 2 * B" using assms(3) by linarith
    then have q: "(P mod B + V) div B = 1" using True assms(4)
      by (intro div_nat_eqI) auto
    have "D * M + V = (P mod B + V) + B * (P div B)" using split by (simp add: P_def)
    then have "(D * M + V) div B = (P mod B + V) div B + P div B"
      using assms(4) by (simp only: div_mult_self2)
    with q have "(D * M + V) div B = P div B + 1" by simp
    with True hi_lt show ?thesis by (simp add: hi_def)
  next
    case False
    then have "(P mod B + V) div B = 0" using assms(4) by simp
    moreover have "D * M + V = (P mod B + V) + B * (P div B)" using split by (simp add: P_def)
    ultimately have "(D * M + V) div B = P div B" using assms(4)
      by (simp only: div_mult_self2)
    with False show ?thesis by (simp add: hi_def)
  qed
  have "(P mod B + V) mod B = (D * M + V) mod B" by (simp add: P_def mod_simps)
  then show "(P mod B + V) mod B + B * hi = D * M + V" by (simp add: hi)
  assume "V < M"
  then have "D * M + V < (D + 1) * M" by simp
  also have "\<dots> \<le> B * M" using assms(1) by (intro mult_right_mono) auto
  also have "\<dots> = M * B" by (rule mult.commute)
  finally show "hi < M" unfolding hi by (simp add: less_mult_imp_div_less)
qed

lemma noasm64_step:
  fixes data multiplier overflow :: u64
  defines "tmp \<equiv> (ucast data :: u128) * ucast multiplier"
  defines "tmp' \<equiv> (ucast (ucast tmp :: u64) :: u128) + ucast overflow"
  defines "hi \<equiv> (if tmp' > 0xFFFFFFFFFFFFFFFF then ucast (drop_bit 64 tmp) + 1
    else (ucast (drop_bit 64 tmp) :: u64))"
  shows "unat (ucast tmp' :: u64) + 2 ^ 64 * unat hi = unat data * unat multiplier + unat overflow"
    and "unat overflow < unat multiplier \<Longrightarrow> unat hi < unat multiplier"
proof -
  let ?P = "unat data * unat multiplier" and ?B = "(2 :: nat) ^ 64"
  have "?P \<le> (2 ^ 64 - 1) * (2 ^ 64 - 1)"
    using unat_u64_le [of data] unat_u64_le [of multiplier] by (intro mult_mono) simp_all
  then have tmp: "unat tmp = ?P"
    by (simp add: tmp_def unat_word_ariths unat_ucast_up)
  have lo: "unat (ucast tmp :: u64) = ?P mod ?B"
    by (simp add: unat_ucast tmp)
  have hi0: "unat (ucast (drop_bit 64 tmp) :: u64) = ?P div ?B mod ?B"
    by (simp only: unat_ucast unat_drop_bit_eq tmp) (simp add: drop_bit_eq_div)
  have "?P div ?B < ?B"
    using \<open>?P \<le> (2 ^ 64 - 1) * (2 ^ 64 - 1)\<close> by (intro less_mult_imp_div_less) simp
  with hi0 have hi0: "unat (ucast (drop_bit 64 tmp) :: u64) = ?P div ?B" by simp
  have "?P mod ?B + unat overflow < 2 ^ 64 + 2 ^ 64"
    using unat_u64_less [of overflow] mod_less_divisor [of ?B ?P] by (intro add_strict_mono) simp_all
  then have sum_lt: "?P mod ?B + unat overflow < 2 ^ 128" by simp
  have tmp': "unat tmp' = ?P mod ?B + unat overflow"
    using sum_lt
    by (simp add: tmp'_def unat_word_ariths unat_ucast_up lo)
  have "tmp' > 0xFFFFFFFFFFFFFFFF \<longleftrightarrow> ?P mod ?B + unat overflow > ?B - 1"
    by (simp add: word_less_nat_alt tmp' unat_ucast_up)
  then have hi: "unat hi = (if ?P mod ?B + unat overflow > ?B - 1 then (?P div ?B + 1) mod ?B
      else ?P div ?B)"
    using hi0 by (simp add: hi_def unat_word_ariths)
  have lo': "unat (ucast tmp' :: u64) = (?P mod ?B + unat overflow) mod ?B"
    by (simp add: unat_ucast tmp')
  show "unat (ucast tmp' :: u64) + 2 ^ 64 * unat hi = ?P + unat overflow"
    unfolding lo' hi by (rule mul_step_nat(1)) simp_all
  assume "unat overflow < unat multiplier"
  then show "unat hi < unat multiplier"
    unfolding hi by (intro mul_step_nat(2)) simp_all
qed

lemma noasm32_step:
  fixes data multiplier overflow :: u32
  defines "tmp \<equiv> (ucast data :: u64) * ucast multiplier"
  defines "tmp' \<equiv> (ucast (ucast tmp :: u32) :: u64) + ucast overflow"
  defines "hi \<equiv> (if tmp' > 0xFFFFFFFF then ucast (drop_bit 32 tmp) + 1
    else (ucast (drop_bit 32 tmp) :: u32))"
  shows "unat (ucast tmp' :: u32) + 2 ^ 32 * unat hi = unat data * unat multiplier + unat overflow"
    and "unat overflow < unat multiplier \<Longrightarrow> unat hi < unat multiplier"
proof -
  let ?P = "unat data * unat multiplier" and ?B = "(2 :: nat) ^ 32"
  have "?P \<le> (2 ^ 32 - 1) * (2 ^ 32 - 1)"
    using unat_u32_le [of data] unat_u32_le [of multiplier] by (intro mult_mono) simp_all
  then have tmp: "unat tmp = ?P"
    by (simp add: tmp_def unat_word_ariths unat_ucast_up)
  have lo: "unat (ucast tmp :: u32) = ?P mod ?B"
    by (simp add: unat_ucast tmp)
  have hi0: "unat (ucast (drop_bit 32 tmp) :: u32) = ?P div ?B mod ?B"
    by (simp only: unat_ucast unat_drop_bit_eq tmp) (simp add: drop_bit_eq_div)
  have "?P div ?B < ?B"
    using \<open>?P \<le> (2 ^ 32 - 1) * (2 ^ 32 - 1)\<close> by (intro less_mult_imp_div_less) simp
  with hi0 have hi0: "unat (ucast (drop_bit 32 tmp) :: u32) = ?P div ?B" by simp
  have "?P mod ?B + unat overflow < 2 ^ 32 + 2 ^ 32"
    using unat_u32_less [of overflow] mod_less_divisor [of ?B ?P] by (intro add_strict_mono) simp_all
  then have sum_lt: "?P mod ?B + unat overflow < 2 ^ 64" by simp
  have tmp': "unat tmp' = ?P mod ?B + unat overflow"
    using sum_lt
    by (simp add: tmp'_def unat_word_ariths unat_ucast_up lo)
  have "tmp' > 0xFFFFFFFF \<longleftrightarrow> ?P mod ?B + unat overflow > ?B - 1"
    by (simp add: word_less_nat_alt tmp' unat_ucast_up)
  then have hi: "unat hi = (if ?P mod ?B + unat overflow > ?B - 1 then (?P div ?B + 1) mod ?B
      else ?P div ?B)"
    using hi0 by (simp add: hi_def unat_word_ariths)
  have lo': "unat (ucast tmp' :: u32) = (?P mod ?B + unat overflow) mod ?B"
    by (simp add: unat_ucast tmp')
  show "unat (ucast tmp' :: u32) + 2 ^ 32 * unat hi = ?P + unat overflow"
    unfolding lo' hi by (rule mul_step_nat(1)) simp_all
  assume "unat overflow < unat multiplier"
  then show "unat hi < unat multiplier"
    unfolding hi by (intro mul_step_nat(2)) simp_all
qed

lemma asm64_step:
  fixes data multiplier overflow :: u64
  defines "product \<equiv> (ucast multiplier :: u128) * ucast data"
  defines "carry \<equiv> (if unat (ucast product :: u64) + unat overflow \<ge> 2 ^ 64 then 1 else 0 :: u64)"
  defines "tmp' \<equiv> (ucast (ucast product :: u64) :: u128) + ucast overflow"
  shows "(ucast product :: u64) + overflow = ucast tmp'"
    and "ucast (drop_bit 64 product) + 0 + carry =
      (if tmp' > 0xFFFFFFFFFFFFFFFF then ucast (drop_bit 64 product) + 1
       else (ucast (drop_bit 64 product) :: u64))"
proof -
  have "unat (ucast product :: u64) + unat overflow < 2 ^ 64 + 2 ^ 64"
    by (intro add_strict_mono) simp_all
  then have sum: "unat tmp' = unat (ucast product :: u64) + unat overflow"
    by (simp add: tmp'_def unat_word_ariths unat_ucast_up)
  show "(ucast product :: u64) + overflow = ucast tmp'"
    by (rule unat_eqI) (simp add: unat_word_ariths unat_ucast sum)
  have "tmp' > 0xFFFFFFFFFFFFFFFF \<longleftrightarrow> unat (ucast product :: u64) + unat overflow \<ge> 2 ^ 64"
    by (simp add: word_less_nat_alt sum) linarith
  then show "ucast (drop_bit 64 product) + 0 + carry =
      (if tmp' > 0xFFFFFFFFFFFFFFFF then ucast (drop_bit 64 product) + 1
       else (ucast (drop_bit 64 product) :: u64))"
    by (simp add: carry_def)
qed

lemma asm32_step:
  fixes data multiplier overflow :: u32
  defines "product \<equiv> (ucast multiplier :: u64) * ucast data"
  defines "carry \<equiv> (if unat (ucast product :: u32) + unat overflow \<ge> 2 ^ 32 then 1 else 0 :: u32)"
  defines "tmp' \<equiv> (ucast (ucast product :: u32) :: u64) + ucast overflow"
  shows "(ucast product :: u32) + overflow = ucast tmp'"
    and "ucast (drop_bit 32 product) + 0 + carry =
      (if tmp' > 0xFFFFFFFF then ucast (drop_bit 32 product) + 1
       else (ucast (drop_bit 32 product) :: u32))"
proof -
  have "unat (ucast product :: u32) + unat overflow < 2 ^ 32 + 2 ^ 32"
    by (intro add_strict_mono) simp_all
  then have sum: "unat tmp' = unat (ucast product :: u32) + unat overflow"
    by (simp add: tmp'_def unat_word_ariths unat_ucast_up)
  show "(ucast product :: u32) + overflow = ucast tmp'"
    by (rule unat_eqI) (simp add: unat_word_ariths unat_ucast sum)
  have "tmp' > 0xFFFFFFFF \<longleftrightarrow> unat (ucast product :: u32) + unat overflow \<ge> 2 ^ 32"
    by (simp add: word_less_nat_alt sum) linarith
  then show "ucast (drop_bit 32 product) + 0 + carry =
      (if tmp' > 0xFFFFFFFF then ucast (drop_bit 32 product) + 1
       else (ucast (drop_bit 32 product) :: u32))"
    by (simp add: carry_def)
qed

lemma mul64_asm_loop_eq: "mul64_asm_loop m ws ov = mul64_noasm_loop m ws ov"
proof (induction m ws ov rule: mul64_asm_loop.induct)
  case (2 multiplier data rest overflow)
  have c: "(ucast data :: u128) * ucast multiplier = ucast multiplier * ucast data"
    by (rule mult.commute)
  show ?case
    using "2.IH"
    by (simp only: mul64_asm_loop.simps mul64_noasm_loop.simps Let_def c asm64_step)
qed simp

lemma mul32_asm_loop_eq: "mul32_asm_loop m ws ov = mul32_noasm_loop m ws ov"
proof (induction m ws ov rule: mul32_asm_loop.induct)
  case (2 multiplier data rest overflow)
  have c: "(ucast data :: u64) * ucast multiplier = ucast multiplier * ucast data"
    by (rule mult.commute)
  show ?case
    using "2.IH"
    by (simp only: mul32_asm_loop.simps mul32_noasm_loop.simps Let_def c asm32_step)
qed simp

text \<open>
  A step on one word, seen on the natural numbers: the low word it stores and the overflow it
  hands on.
\<close>

lemma mul64_noasm_Cons:
  "\<exists>lo hi. mul64_noasm_loop m (d # ds) ov = (case mul64_noasm_loop m ds hi of (r, o') \<Rightarrow> (lo # r, o')) \<and>
    unat lo + 2 ^ 64 * unat hi = unat d * unat m + unat ov \<and>
    (unat ov < unat m \<longrightarrow> unat hi < unat m)"
  by (intro exI conjI impI, simp only: mul64_noasm_loop.simps Let_def)
    (rule noasm64_step(1), erule noasm64_step(2))

lemma mul32_noasm_Cons:
  "\<exists>lo hi. mul32_noasm_loop m (d # ds) ov = (case mul32_noasm_loop m ds hi of (r, o') \<Rightarrow> (lo # r, o')) \<and>
    unat lo + 2 ^ 32 * unat hi = unat d * unat m + unat ov \<and>
    (unat ov < unat m \<longrightarrow> unat hi < unat m)"
  by (intro exI conjI impI, simp only: mul32_noasm_loop.simps Let_def)
    (rule noasm32_step(1), erule noasm32_step(2))

lemma mul_digit_step:
  fixes m :: nat
  assumes "lo + B * hi = d * m + ov" and "r + C * o' = ws * m + hi"
  shows "lo + B * r + (B * C) * o' = (d + B * ws) * m + ov"
proof -
  have "lo + B * r + (B * C) * o' = lo + B * (r + C * o')" by (simp add: algebra_simps)
  also have "\<dots> = (lo + B * hi) + B * (ws * m)" unfolding assms(2) by (simp add: algebra_simps)
  finally show ?thesis unfolding assms(1) by (simp add: algebra_simps)
qed

lemma mul64_loop_val:
  "mul64_noasm_loop m ws ov = (ws', ov') \<Longrightarrow>
    length ws' = length ws \<and>
    words_val ws' + 2 ^ (64 * length ws) * unat ov' = words_val ws * unat m + unat ov \<and>
    (unat ov < unat m \<longrightarrow> unat ov' < unat m)"
proof (induction ws arbitrary: ov ws' ov')
  case (Cons d ds)
  obtain lo hi where step:
    "mul64_noasm_loop m (d # ds) ov = (case mul64_noasm_loop m ds hi of (r, o') \<Rightarrow> (lo # r, o'))"
    "unat lo + 2 ^ 64 * unat hi = unat d * unat m + unat ov"
    "unat ov < unat m \<longrightarrow> unat hi < unat m"
    using mul64_noasm_Cons by blast
  obtain r o' where r: "mul64_noasm_loop m ds hi = (r, o')" by fastforce
  with step(1) Cons.prems have res: "ws' = lo # r" "ov' = o'" by simp_all
  from Cons.IH [OF r] have IH: "length r = length ds"
    "words_val r + 2 ^ (64 * length ds) * unat o' = words_val ds * unat m + unat hi"
    "unat hi < unat m \<longrightarrow> unat o' < unat m" by blast+
  have p: "(2 :: nat) ^ (64 * length (d # ds)) = 2 ^ 64 * 2 ^ (64 * length ds)"
    by (simp only: length_Cons mult_Suc_right power_add)
  have "words_val ws' + 2 ^ (64 * length (d # ds)) * unat ov' = words_val (d # ds) * unat m + unat ov"
    using mul_digit_step [OF step(2) IH(2)] by (simp only: p res words_val_u64)
  with res IH(1,3) step(3) show ?case by (simp only: length_Cons) blast
qed simp

lemma mul32_loop_val:
  "mul32_noasm_loop m ws ov = (ws', ov') \<Longrightarrow>
    length ws' = length ws \<and>
    words_val ws' + 2 ^ (32 * length ws) * unat ov' = words_val ws * unat m + unat ov \<and>
    (unat ov < unat m \<longrightarrow> unat ov' < unat m)"
proof (induction ws arbitrary: ov ws' ov')
  case (Cons d ds)
  obtain lo hi where step:
    "mul32_noasm_loop m (d # ds) ov = (case mul32_noasm_loop m ds hi of (r, o') \<Rightarrow> (lo # r, o'))"
    "unat lo + 2 ^ 32 * unat hi = unat d * unat m + unat ov"
    "unat ov < unat m \<longrightarrow> unat hi < unat m"
    using mul32_noasm_Cons by blast
  obtain r o' where r: "mul32_noasm_loop m ds hi = (r, o')" by fastforce
  with step(1) Cons.prems have res: "ws' = lo # r" "ov' = o'" by simp_all
  from Cons.IH [OF r] have IH: "length r = length ds"
    "words_val r + 2 ^ (32 * length ds) * unat o' = words_val ds * unat m + unat hi"
    "unat hi < unat m \<longrightarrow> unat o' < unat m" by blast+
  have p: "(2 :: nat) ^ (32 * length (d # ds)) = 2 ^ 32 * 2 ^ (32 * length ds)"
    by (simp only: length_Cons mult_Suc_right power_add)
  have "words_val ws' + 2 ^ (32 * length (d # ds)) * unat ov' = words_val (d # ds) * unat m + unat ov"
    using mul_digit_step [OF step(2) IH(2)] by (simp only: p res words_val_u32)
  with res IH(1,3) step(3) show ?case by (simp only: length_Cons) blast
qed simp

section \<open>The multiplication of a slice\<close>

lemma byte_slice_mul64_asm_eq: "byte_slice_mul64_asm s m = byte_slice_mul64_noasm s m"
  by (simp only: byte_slice_mul64_asm_def byte_slice_mul64_noasm_def mul64_asm_loop_eq)

lemma byte_slice_mul32_asm_eq: "byte_slice_mul32_asm s m = byte_slice_mul32_noasm s m"
  by (simp only: byte_slice_mul32_asm_def byte_slice_mul32_noasm_def mul32_asm_loop_eq)

lemma byte_slice_mul64_eq:
  assumes "length s mod 8 = 0"
  shows "\<exists>s' ov. byte_slice_mul64_noasm s m = Some (s', ov) \<and> length s' = length s \<and>
    bytes_val s' + 256 ^ length s * unat ov = bytes_val s * unat m \<and> (m \<noteq> 0 \<longrightarrow> unat ov < unat m)"
proof -
  obtain ws ov where l: "mul64_noasm_loop m (words64 s) 0 = (ws, ov)" by fastforce
  have d: "8 dvd length s" using assms by (simp add: mod_eq_0_iff_dvd)
  have "(2 :: nat) ^ (64 * length (words64 s)) = 256 ^ length s"
    by (simp add: length_words64 [OF d, symmetric] power_mult)
  with mul64_loop_val [OF l] show ?thesis
    using d length_words64 [OF d]
    by (auto simp: byte_slice_mul64_noasm_def l words_val_words64 bytes_val_unwords64 unat_gt_0)
qed

lemma byte_slice_mul32_eq:
  assumes "length s mod 4 = 0"
  shows "\<exists>s' ov. byte_slice_mul32_noasm s m = Some (s', ov) \<and> length s' = length s \<and>
    bytes_val s' + 256 ^ length s * unat ov = bytes_val s * unat m \<and> (m \<noteq> 0 \<longrightarrow> unat ov < unat m)"
proof -
  obtain ws ov where l: "mul32_noasm_loop m (words32 s) 0 = (ws, ov)" by fastforce
  have d: "4 dvd length s" using assms by (simp add: mod_eq_0_iff_dvd)
  have "(2 :: nat) ^ (32 * length (words32 s)) = 256 ^ length s"
    by (simp add: length_words32 [OF d, symmetric] power_mult)
  with mul32_loop_val [OF l] show ?thesis
    using d length_words32 [OF d]
    by (auto simp: byte_slice_mul32_noasm_def l words_val_words32 bytes_val_unwords32 unat_gt_0)
qed

end
