(* ===== verification/Bloom_Offsets.thy ===== *)
theory Bloom_Offsets
  imports Byte_Arith
begin

text \<open>
  The bit offsets of a hash in a Bloom filter (\<open>bloom_determine_offsets\<close> in
  \<open>src/src/bloom.c\<close>). The hash is a big integer that is multiplied by the number of free bit
  positions; what overflows selects a position among the free ones, and the selected positions
  are kept sorted so that the position can be found by an insertion.
\<close>

section \<open>The code\<close>

text \<open>\<open>ffs\<close> and \<open>ffsl\<close> of the C library: one more than the index of the lowest one bit.\<close>

fun ffs :: "nat \<Rightarrow> nat" where
  "ffs n = (if n = 0 then 0 else if odd n then 1 else ffs (n div 2) + 1)"

declare ffs.simps [simp del]

text \<open>The \<open>USE_ASM\<close> build on \<open>x86_64\<close>; \<open>byte_slice_mul64_asm_eq\<close> makes the portable build equal.\<close>

definition byte_slice_mul64 :: "bytes \<Rightarrow> u64 \<Rightarrow> (bytes \<times> u64) option" where
  "byte_slice_mul64 s m = byte_slice_mul64_asm s m"

definition byte_slice_mul32 :: "bytes \<Rightarrow> u32 \<Rightarrow> (bytes \<times> u32) option" where
  "byte_slice_mul32 s m = byte_slice_mul32_asm s m"

definition load32 :: "bytes \<Rightarrow> nat \<Rightarrow> u32" where
  "load32 s off = of_nat (bytes_val (take 4 (drop off s)))"

definition store32 :: "bytes \<Rightarrow> nat \<Rightarrow> u32 \<Rightarrow> bytes" where
  "store32 s off w = splice off (val_bytes 4 (unat w)) s"

text \<open>
  The mask is computed in \<open>int\<close> and then converted. For \<open>lost_bits = 32\<close>, which needs a filter of
  exactly \<open>2 ^ 28\<close> bytes, the \<open>int\<close> arithmetic overflows; the model wraps, as the compiler does.
\<close>

definition lost_mask :: "nat \<Rightarrow> u32" where
  "lost_mask lost_bits = push_bit (lost_bits - 1) 1 - 1"

definition mix64 :: "bytes \<Rightarrow> nat \<Rightarrow> (bytes \<times> u64) option" where
  "mix64 hash bs = do {
     (hash, overflow) \<leftarrow> byte_slice_mul64 hash (of_nat bs);
     let lost_bits = ffs bs;
     let hash = (if lost_bits > 1
       then store64 hash 0 (load64 hash 0 + (overflow AND ucast (lost_mask lost_bits)))
       else hash);
     Some (hash, overflow)
   }"

definition mix32 :: "bytes \<Rightarrow> nat \<Rightarrow> (bytes \<times> u32) option" where
  "mix32 hash bs = do {
     (hash, overflow) \<leftarrow> byte_slice_mul32 hash (of_nat bs);
     let lost_bits = ffs bs;
     let hash = (if lost_bits > 1
       then store32 hash 0 (load32 hash 0 + (overflow AND lost_mask lost_bits))
       else hash);
     Some (hash, overflow)
   }"

text \<open>Inserting the selected position into the sorted end of the array.\<close>

function insert_offset :: "nat list \<Rightarrow> nat \<Rightarrow> nat \<Rightarrow> u32 \<Rightarrow> nat list" where
  "insert_offset bit_offsets num_bits i new =
     (if i + 1 < num_bits \<and> unat new \<ge> bit_offsets ! (i + 1)
      then insert_offset (bit_offsets[i := bit_offsets ! (i + 1)]) num_bits (i + 1) (new + 1)
      else bit_offsets[i := unat new])"
  by pat_completeness auto
termination
  by (relation "measure (\<lambda>(bit_offsets, num_bits, i, new). num_bits - i)") auto

declare insert_offset.simps [simp del]

fun offsets64 :: "nat list \<Rightarrow> nat \<Rightarrow> bytes \<Rightarrow> nat \<Rightarrow> nat \<Rightarrow> nat list option" where
  "offsets64 bit_offsets num_bits hash bs 0 = Some bit_offsets"
| "offsets64 bit_offsets num_bits hash bs (Suc i) = do {
     (hash, overflow) \<leftarrow> mix64 hash bs;
     offsets64 (insert_offset bit_offsets num_bits i (ucast overflow)) num_bits hash (bs - 1) i
   }"

fun offsets32 :: "nat list \<Rightarrow> nat \<Rightarrow> bytes \<Rightarrow> nat \<Rightarrow> nat \<Rightarrow> nat list option" where
  "offsets32 bit_offsets num_bits hash bs 0 = Some bit_offsets"
| "offsets32 bit_offsets num_bits hash bs (Suc i) = do {
     (hash, overflow) \<leftarrow> mix32 hash bs;
     offsets32 (insert_offset bit_offsets num_bits i overflow) num_bits hash (bs - 1) i
   }"

definition bloom_determine_offsets :: "nat \<Rightarrow> nat \<Rightarrow> bytes \<Rightarrow> nat list option" where
  "bloom_determine_offsets bit_offsets_len filtersize input_hash = do {
     c_assert (filtersize \<ge> 1 \<and> filtersize < 2 ^ 29);
     c_assert (bit_offsets_len \<ge> 1);
     c_assert (length input_hash > 0);
     let bs = filtersize * 8;
     let num_bits = (if bit_offsets_len > bs then bs else bit_offsets_len);
     if length input_hash mod 8 = 0
     then offsets64 (replicate bit_offsets_len 0) num_bits input_hash bs num_bits
     else do {
       c_assert (length input_hash mod 4 = 0);
       offsets32 (replicate bit_offsets_len 0) num_bits input_hash bs num_bits
     }
   }"

section \<open>Multiplying loses no entropy\<close>

lemma ffs_pos: "0 < n \<Longrightarrow> \<exists>l q. ffs n = Suc l \<and> n = 2 ^ l * q \<and> odd q"
proof (induction n rule: ffs.induct)
  case (1 n)
  show ?case
  proof (cases "odd n")
    case True
    with 1 show ?thesis by (subst ffs.simps) (auto intro!: exI [of _ 0])
  next
    case False
    then have "0 < n div 2" using "1.prems" by (auto elim!: evenE)
    with 1 False obtain l q where "ffs (n div 2) = Suc l" "n div 2 = 2 ^ l * q" "odd q" by auto
    moreover have "ffs n = ffs (n div 2) + 1"
      using False "1.prems" by (subst ffs.simps) simp
    moreover have "n = 2 * (n div 2)" using False by simp
    ultimately have "ffs n = Suc (Suc l) \<and> n = 2 ^ Suc l * q \<and> odd q" by simp
    then show ?thesis by blast
  qed
qed

text \<open>
  The step on natural numbers: \<open>M\<close> is the modulus of the big integer, \<open>2 ^ l\<close> the largest power
  of two that divides the multiplier. The low \<open>l\<close> bits of the product are zero, and the low bits
  of the overflow take their place.
\<close>

lemma mix_nat_inj:
  fixes h1 h2 q :: nat
  assumes h: "h1 < M" "h2 < M" and q: "odd q" and M: "M = 2 ^ k" "l \<le> k"
    and eq: "(h1 * (2 ^ l * q)) mod M + (h1 * (2 ^ l * q)) div M mod 2 ^ l =
      (h2 * (2 ^ l * q)) mod M + (h2 * (2 ^ l * q)) div M mod 2 ^ l"
  shows "h1 = h2"
proof -
  let ?p1 = "h1 * (2 ^ l * q)" and ?p2 = "h2 * (2 ^ l * q)"
  have dM: "(2 :: nat) ^ l dvd M" using M by (simp add: le_imp_power_dvd)
  then have d: "2 ^ l dvd ?p1 mod M" "2 ^ l dvd ?p2 mod M" by (simp_all add: dvd_mod)
  have "(?p1 mod M + ?p1 div M mod 2 ^ l) mod 2 ^ l = (?p2 mod M + ?p2 div M mod 2 ^ l) mod 2 ^ l"
    using eq by simp
  with d have ov: "?p1 div M mod 2 ^ l = ?p2 div M mod 2 ^ l"
    by (metis add.left_neutral dvd_imp_mod_0 mod_add_left_eq mod_mod_trivial)
  with eq have low: "?p1 mod M = ?p2 mod M" by simp
  have "?p1 mod (M * 2 ^ l) = ?p2 mod (M * 2 ^ l)"
    using ov low by (simp add: mod_mult2_eq)
  then have "(2 ^ l * (h1 * q)) mod (2 ^ l * M) = (2 ^ l * (h2 * q)) mod (2 ^ l * M)"
    by (simp add: ac_simps)
  then have "(h1 * q) mod M = (h2 * q) mod M" by (simp flip: mult_mod_right)
  then have "int h1 * int q mod int M = int h2 * int q mod int M"
    by (metis of_nat_mod of_nat_mult)
  then have "int M dvd (int h1 - int h2) * int q"
    by (simp add: mod_eq_dvd_iff left_diff_distrib)
  moreover have "coprime (int M) (int q)" using q M by simp
  ultimately have "int M dvd int h1 - int h2" by (simp add: coprime_dvd_mult_left_iff)
  then have "int h1 mod int M = int h2 mod int M" by (simp add: mod_eq_dvd_iff)
  with h show ?thesis by simp
qed

lemma mix_low_nat:
  fixes h q :: nat
  assumes "M = 2 ^ k" "l \<le> k"
  shows "2 ^ l dvd (h * (2 ^ l * q)) mod M"
  using assms by (simp add: le_imp_power_dvd dvd_mod)

text \<open>Adding fewer than \<open>2 ^ l\<close> to a word whose low \<open>l\<close> bits are zero does not carry.\<close>

lemma add_no_carry:
  fixes w a B :: nat
  assumes "2 ^ l dvd w" "w < 2 ^ k" "a < 2 ^ l" "l \<le> k"
  shows "w + a < 2 ^ k"
proof -
  obtain c where c: "w = 2 ^ l * c" using assms(1) by (elim dvdE)
  obtain e where e: "k = l + e" using assms(4) by (metis le_Suc_ex)
  have "c < 2 ^ e" using assms(2) c e by (simp add: power_add)
  then have "2 ^ l * (c + 1) \<le> 2 ^ l * 2 ^ e" by (intro mult_left_mono) auto
  with assms(3) c e show ?thesis by (simp add: power_add distrib_left)
qed

lemma and_lost_mask:
  assumes "Suc l \<le> 32"
  shows "unat (x AND ucast (lost_mask (Suc l)) :: u64) = unat x mod 2 ^ l"
    and "unat (y AND lost_mask (Suc l) :: u32) = unat y mod 2 ^ l"
proof -
  have m: "lost_mask (Suc l) = mask l" by (simp add: lost_mask_def mask_eq_exp_minus_1)
  have "ucast (mask l :: u32) = (mask l :: u64)"
    using assms by (intro bit_word_eqI) (auto simp: bit_ucast_iff bit_mask_iff)
  then have "x AND ucast (lost_mask (Suc l)) = take_bit l x" by (simp only: m take_bit_eq_mask)
  then show "unat (x AND ucast (lost_mask (Suc l)) :: u64) = unat x mod 2 ^ l"
    using assms by (simp only: unsigned_take_bit_eq) (simp only: take_bit_eq_mod)
  have "y AND lost_mask (Suc l) = take_bit l y" by (simp only: m take_bit_eq_mask)
  then show "unat (y AND lost_mask (Suc l) :: u32) = unat y mod 2 ^ l"
    using assms by (simp only: unsigned_take_bit_eq) (simp only: take_bit_eq_mod)
qed

lemma bytes_val_take_drop: "bytes_val s = bytes_val (take n s) + 256 ^ min n (length s) * bytes_val (drop n s)"
  using bytes_val_append [of "take n s" "drop n s"] by (simp add: min.commute)

lemma load64_store64_val:
  assumes "8 \<le> length s" "unat (load64 s 0) + unat a < 2 ^ 64"
  shows "bytes_val (store64 s 0 (load64 s 0 + a)) = bytes_val s + unat a"
proof -
  have "bytes_val (take 8 s) < 256 ^ 8" using bytes_val_less [of "take 8 s"] assms(1) by simp
  then have l: "unat (load64 s 0) = bytes_val (take 8 s)" by (simp add: load64_def unat_of_nat)
  have "unat (load64 s 0 + a) = bytes_val (take 8 s) + unat a"
    using assms(2) l by (simp add: unat_word_ariths)
  moreover have "unat (load64 s 0 + a) mod 256 ^ 8 = unat (load64 s 0 + a)" by simp
  ultimately have "bytes_val (val_bytes 8 (unat (load64 s 0 + a))) = bytes_val (take 8 s) + unat a"
    by (simp only: bytes_val_val_bytes)
  then show ?thesis
    using assms(1) bytes_val_take_drop [of s 8]
    by (simp add: store64_def splice_def bytes_val_append)
qed

lemma load32_store32_val:
  assumes "4 \<le> length s" "unat (load32 s 0) + unat a < 2 ^ 32"
  shows "bytes_val (store32 s 0 (load32 s 0 + a)) = bytes_val s + unat a"
proof -
  have "bytes_val (take 4 s) < 256 ^ 4" using bytes_val_less [of "take 4 s"] assms(1) by simp
  then have l: "unat (load32 s 0) = bytes_val (take 4 s)" by (simp add: load32_def unat_of_nat)
  have "unat (load32 s 0 + a) = bytes_val (take 4 s) + unat a"
    using assms(2) l by (simp add: unat_word_ariths)
  moreover have "unat (load32 s 0 + a) mod 256 ^ 4 = unat (load32 s 0 + a)" by simp
  ultimately have "bytes_val (val_bytes 4 (unat (load32 s 0 + a))) = bytes_val (take 4 s) + unat a"
    by (simp only: bytes_val_val_bytes)
  then show ?thesis
    using assms(1) bytes_val_take_drop [of s 4]
    by (simp add: store32_def splice_def bytes_val_append)
qed

lemma load64_val: "8 \<le> length s \<Longrightarrow> unat (load64 s 0) = bytes_val s mod 2 ^ 64"
proof -
  assume "8 \<le> length s"
  then have "bytes_val s = bytes_val (take 8 s) + 2 ^ 64 * bytes_val (drop 8 s)"
    using bytes_val_take_drop [of s 8] by simp
  then show ?thesis by (simp add: load64_def unat_of_nat)
qed

lemma load32_val: "4 \<le> length s \<Longrightarrow> unat (load32 s 0) = bytes_val s mod 2 ^ 32"
proof -
  assume "4 \<le> length s"
  then have "bytes_val s = bytes_val (take 4 s) + 2 ^ 32 * bytes_val (drop 4 s)"
    using bytes_val_take_drop [of s 4] by simp
  then show ?thesis by (simp add: load32_def unat_of_nat)
qed

section \<open>One step of the hash\<close>

text \<open>
  What both step functions do to the hash, seen as a number \<open>h\<close> below \<open>M\<close>: the overflow is the
  selected position, and the hash keeps the product with the low bits of the overflow added.
\<close>

definition mixed :: "nat \<Rightarrow> nat \<Rightarrow> nat \<Rightarrow> nat" where
  "mixed M bs h = (h * bs) mod M + (h * bs) div M mod 2 ^ (ffs bs - 1)"

lemma ffs_le:
  assumes "0 < n" "n < 2 ^ k"
  shows "ffs n \<le> k"
proof -
  obtain l q where lq: "ffs n = Suc l" "n = 2 ^ l * q" "odd q" using ffs_pos [OF assms(1)] by blast
  then have "0 < q" by (auto intro: Nat.gr0I)
  then have "2 ^ l \<le> n" using lq by simp
  with assms(2) have "(2 :: nat) ^ l < 2 ^ k" by linarith
  then show ?thesis using lq by simp
qed

lemma mixed_inj:
  assumes "h1 < M" "h2 < M" "M = 2 ^ k" "32 \<le> k" "0 < bs" "bs < 2 ^ 32" "mixed M bs h1 = mixed M bs h2"
  shows "h1 = h2"
proof -
  obtain l q where lq: "ffs bs = Suc l" "bs = 2 ^ l * q" "odd q" using ffs_pos [OF assms(5)] by blast
  have "l \<le> k" using ffs_le [OF assms(5,6)] lq assms(4) by simp
  then show ?thesis
    using assms(7) lq by (intro mix_nat_inj [OF assms(1,2) lq(3) assms(3)]) (simp_all add: mixed_def)
qed

lemma euclid_unique:
  fixes a b M :: nat
  assumes "r + M * ov = p" "r < M"
  shows "p mod M = r" "p div M = ov"
  using assms by auto

lemma mix64_eq:
  assumes len: "length hash mod 8 = 0" "hash \<noteq> []" and bs: "0 < bs" "bs < 2 ^ 32"
  shows "\<exists>hash' ov. mix64 hash bs = Some (hash', ov) \<and> length hash' = length hash \<and>
    unat ov = (bytes_val hash * bs) div 256 ^ length hash \<and> unat ov < bs \<and>
    bytes_val hash' = mixed (256 ^ length hash) bs (bytes_val hash)"
proof -
  have len8: "8 \<le> length hash" using len by (cases "length hash < 8") auto
  have m: "unat (of_nat bs :: u64) = bs" using bs by (simp add: unat_of_nat)
  obtain h1 ov where mul: "byte_slice_mul64 hash (of_nat bs) = Some (h1, ov)" "length h1 = length hash"
    "bytes_val h1 + 256 ^ length hash * unat ov = bytes_val hash * bs"
    "unat ov < bs"
    using byte_slice_mul64_eq [OF len(1), of "of_nat bs"] bs m
    by (fastforce simp: byte_slice_mul64_def byte_slice_mul64_asm_eq word_unat_eq_iff)
  have "bytes_val h1 < 256 ^ length hash" using bytes_val_less [of h1] mul(2) by simp
  note dm = euclid_unique [OF mul(3) this]
  obtain l q where lq: "ffs bs = Suc l" "bs = 2 ^ l * q" "odd q" using ffs_pos [OF bs(1)] by blast
  have l: "Suc l \<le> 32" using ffs_le [OF bs] lq by simp
  show ?thesis
  proof (cases l)
    case 0
    then have "mix64 hash bs = Some (h1, ov)" using mul(1) lq by (simp add: mix64_def)
    with mul dm lq 0 show ?thesis by (simp add: mixed_def)
  next
    case (Suc l')
    let ?a = "ov AND ucast (lost_mask (Suc l)) :: u64"
    have a: "unat ?a = unat ov mod 2 ^ l" by (rule and_lost_mask [OF l])
    have M: "(256 :: nat) ^ length hash = 2 ^ (8 * length hash)" by (simp add: power_mult)
    have d: "2 ^ l dvd bytes_val h1"
      using mix_low_nat [OF M, of l "bytes_val hash" q] l len8 dm(1) lq(2) by simp
    have "2 ^ l dvd (2 :: nat) ^ 64" using l by (intro le_imp_power_dvd) simp
    with d have "2 ^ l dvd bytes_val h1 mod 2 ^ 64" by (rule dvd_mod)
    then have "unat (load64 h1 0) + unat ?a < 2 ^ 64"
      using load64_val [of h1] mul(2) len8 l a by (intro add_no_carry [of l]) simp_all
    then have "bytes_val (store64 h1 0 (load64 h1 0 + ?a)) = bytes_val h1 + unat ov mod 2 ^ l"
      using load64_store64_val [of h1 ?a] mul(2) len8 a by simp
    moreover have "mix64 hash bs = Some (store64 h1 0 (load64 h1 0 + ?a), ov)"
      using mul(1) lq Suc by (simp add: mix64_def)
    moreover have "length (store64 h1 0 (load64 h1 0 + ?a)) = length hash"
      using mul(2) len8 by simp
    ultimately show ?thesis using mul(4) dm lq by (simp add: mixed_def)
  qed
qed

lemma mix32_eq:
  assumes len: "length hash mod 4 = 0" "hash \<noteq> []" and bs: "0 < bs" "bs < 2 ^ 32"
  shows "\<exists>hash' ov. mix32 hash bs = Some (hash', ov) \<and> length hash' = length hash \<and>
    unat ov = (bytes_val hash * bs) div 256 ^ length hash \<and> unat ov < bs \<and>
    bytes_val hash' = mixed (256 ^ length hash) bs (bytes_val hash)"
proof -
  have len4: "4 \<le> length hash" using len by (cases "length hash < 4") auto
  have m: "unat (of_nat bs :: u32) = bs" using bs by (simp add: unat_of_nat)
  obtain h1 ov where mul: "byte_slice_mul32 hash (of_nat bs) = Some (h1, ov)" "length h1 = length hash"
    "bytes_val h1 + 256 ^ length hash * unat ov = bytes_val hash * bs"
    "unat ov < bs"
    using byte_slice_mul32_eq [OF len(1), of "of_nat bs"] bs m
    by (fastforce simp: byte_slice_mul32_def byte_slice_mul32_asm_eq word_unat_eq_iff)
  have "bytes_val h1 < 256 ^ length hash" using bytes_val_less [of h1] mul(2) by simp
  note dm = euclid_unique [OF mul(3) this]
  obtain l q where lq: "ffs bs = Suc l" "bs = 2 ^ l * q" "odd q" using ffs_pos [OF bs(1)] by blast
  have l: "Suc l \<le> 32" using ffs_le [OF bs] lq by simp
  show ?thesis
  proof (cases l)
    case 0
    then have "mix32 hash bs = Some (h1, ov)" using mul(1) lq by (simp add: mix32_def)
    with mul dm lq 0 show ?thesis by (simp add: mixed_def)
  next
    case (Suc l')
    let ?a = "ov AND lost_mask (Suc l) :: u32"
    have a: "unat ?a = unat ov mod 2 ^ l" by (rule and_lost_mask [OF l])
    have M: "(256 :: nat) ^ length hash = 2 ^ (8 * length hash)" by (simp add: power_mult)
    have d: "2 ^ l dvd bytes_val h1"
      using mix_low_nat [OF M, of l "bytes_val hash" q] l len4 dm(1) lq(2) by simp
    have "2 ^ l dvd (2 :: nat) ^ 32" using l by (intro le_imp_power_dvd) simp
    with d have "2 ^ l dvd bytes_val h1 mod 2 ^ 32" by (rule dvd_mod)
    then have "unat (load32 h1 0) + unat ?a < 2 ^ 32"
      using load32_val [of h1] mul(2) len4 l a by (intro add_no_carry [of l]) simp_all
    then have "bytes_val (store32 h1 0 (load32 h1 0 + ?a)) = bytes_val h1 + unat ov mod 2 ^ l"
      using load32_store32_val [of h1 ?a] mul(2) len4 a by simp
    moreover have "mix32 hash bs = Some (store32 h1 0 (load32 h1 0 + ?a), ov)"
      using mul(1) lq Suc by (simp add: mix32_def)
    moreover have "length (store32 h1 0 (load32 h1 0 + ?a)) = length hash"
      using mul(2) len4 by (simp add: store32_def)
    ultimately show ?thesis using mul(4) dm lq by (simp add: mixed_def)
  qed
qed

section \<open>The insertion\<close>

fun ins :: "nat \<Rightarrow> nat list \<Rightarrow> nat list" where
  "ins v [] = [v]"
| "ins v (x # xs) = (if x \<le> v then x # ins (v + 1) xs else v # x # xs)"

lemma length_ins [simp]: "length (ins v xs) = Suc (length xs)"
  by (induction v xs rule: ins.induct) auto

text \<open>
  \<open>nth_free xs v w\<close>: \<open>w\<close> is the position number \<open>v\<close> among the positions that are not in \<open>xs\<close>.
\<close>

definition nth_free :: "nat list \<Rightarrow> nat \<Rightarrow> nat \<Rightarrow> bool" where
  "nth_free xs v w \<longleftrightarrow> w \<notin> set xs \<and> card ({..<w} - set xs) = v"

lemma nth_free_unique: "nth_free xs v w \<Longrightarrow> nth_free xs v w' \<Longrightarrow> w = w'"
proof -
  have less: False if "nth_free xs v a" "nth_free xs v b" "a < b" for a b
  proof -
    have "{..<a} - set xs \<subset> {..<b} - set xs" using that by (auto simp: nth_free_def)
    then have "card ({..<a} - set xs) < card ({..<b} - set xs)" by (intro psubset_card_mono) auto
    with that show False by (simp add: nth_free_def)
  qed
  assume "nth_free xs v w" "nth_free xs v w'"
  with less show ?thesis by (metis linorder_neqE_nat)
qed

lemma nth_free_unique_index: "nth_free xs v w \<Longrightarrow> nth_free xs v' w \<Longrightarrow> v = v'"
  by (simp add: nth_free_def)

lemma ins_spec:
  "sorted_wrt (<) xs \<Longrightarrow>
    \<exists>w. nth_free xs v w \<and> v \<le> w \<and> w \<le> v + length xs \<and> set (ins v xs) = insert w (set xs) \<and>
      sorted_wrt (<) (ins v xs)"
proof (induction v xs rule: ins.induct)
  case (1 v)
  then show ?case by (auto simp: nth_free_def)
next
  case (2 v x xs)
  show ?case
  proof (cases "x \<le> v")
    case True
    with 2 obtain w where w: "nth_free xs (v + 1) w" "v + 1 \<le> w" "w \<le> v + 1 + length xs"
      "set (ins (v + 1) xs) = insert w (set xs)" "sorted_wrt (<) (ins (v + 1) xs)" by auto
    have xw: "x < w" using True w(2) by simp
    have "x \<notin> set xs" using "2.prems" by auto
    define A where "A = {..<w} - set (x # xs)"
    have "finite A" "x \<notin> A" by (simp_all add: A_def)
    moreover from \<open>x \<notin> set xs\<close> have "{..<w} - set xs = insert x A" using xw by (auto simp: A_def)
    ultimately have "card ({..<w} - set xs) = Suc (card A)" by simp
    then have "nth_free (x # xs) v w" using w(1) xw by (simp add: nth_free_def A_def)
    moreover have "sorted_wrt (<) (ins v (x # xs))"
      using True w(4,5) xw "2.prems" by simp
    moreover have "set (ins v (x # xs)) = insert w (set (x # xs))"
      using True w(4) by (simp add: insert_commute)
    moreover have "v \<le> w" "w \<le> v + length (x # xs)" using w(2,3) by simp_all
    ultimately show ?thesis by blast
  next
    case False
    then have "{..<v} - set (x # xs) = {..<v}" using "2.prems" by auto
    then have "nth_free (x # xs) v v" using False "2.prems" by (auto simp: nth_free_def)
    with False "2.prems" show ?thesis by (intro exI [of _ v]) force
  qed
qed

lemma insert_offset_eq:
  assumes "i < num" "num \<le> length offs" "unat new + (num - Suc i) < 2 ^ 32"
  shows "take i (insert_offset offs num i new) = take i offs \<and>
    drop i (take num (insert_offset offs num i new)) = ins (unat new) (drop (Suc i) (take num offs)) \<and>
    drop num (insert_offset offs num i new) = drop num offs \<and>
    length (insert_offset offs num i new) = length offs"
  using assms
proof (induction offs num i new rule: insert_offset.induct)
  case (1 offs num i new)
  show ?case
  proof (cases "i + 1 < num \<and> unat new \<ge> offs ! (i + 1)")
    case True
    let ?offs = "offs[i := offs ! (i + 1)]" and ?x = "offs ! (i + 1)"
    let ?r = "insert_offset ?offs num (i + 1) (new + 1)"
    have r: "insert_offset offs num i new = ?r" using True by (subst insert_offset.simps) simp
    have new: "unat (new + 1) = unat new + 1"
    proof -
      have "unat new + 1 < 2 ^ 32" using "1.prems" True by linarith
      then show ?thesis by (simp add: unat_word_ariths)
    qed
    have IH: "take (i + 1) ?r = take (i + 1) ?offs"
      "drop (i + 1) (take num ?r) = ins (unat new + 1) (drop (Suc (i + 1)) (take num offs))"
      "drop num ?r = drop num offs" "length ?r = length offs"
      using "1.IH" [OF True] True "1.prems" new by (auto simp: take_update_swap)
    have "take i ?r = take i offs"
      using arg_cong [OF IH(1), of "take i"] by simp
    moreover have "drop i (take num ?r) = ?x # drop (i + 1) (take num ?r)"
    proof -
      have "?r ! i = take (i + 1) ?r ! i" by simp
      also have "\<dots> = ?x" using IH(1) "1.prems" by simp
      finally show ?thesis
        using "1.prems" IH(4) Cons_nth_drop_Suc [of i "take num ?r"] by simp
    qed
    moreover have "drop (Suc i) (take num offs) = ?x # drop (Suc (i + 1)) (take num offs)"
      using True "1.prems" Cons_nth_drop_Suc [of "Suc i" "take num offs"] by simp
    ultimately show ?thesis using r IH True by simp
  next
    case False
    then have r: "insert_offset offs num i new = offs[i := unat new]"
      by (subst insert_offset.simps) auto
    have d: "drop i (take num (offs[i := unat new])) = unat new # drop (Suc i) (take num offs)"
      using "1.prems" Cons_nth_drop_Suc [of i "take num (offs[i := unat new])"]
      by (simp add: take_update_swap)
    have "ins (unat new) (drop (Suc i) (take num offs)) = unat new # drop (Suc i) (take num offs)"
    proof (cases "i + 1 < num")
      case True
      then have "drop (Suc i) (take num offs) = offs ! Suc i # drop (Suc (Suc i)) (take num offs)"
        using "1.prems" Cons_nth_drop_Suc [of "Suc i" "take num offs"] by simp
      with False True show ?thesis by simp
    next
      case False
      with "1.prems" show ?thesis by simp
    qed
    with r d "1.prems" show ?thesis by simp
  qed
qed

section \<open>The offsets\<close>

fun ref_offsets :: "nat \<Rightarrow> nat \<Rightarrow> nat \<Rightarrow> nat \<Rightarrow> nat list \<Rightarrow> nat list" where
  "ref_offsets M h bs 0 xs = xs"
| "ref_offsets M h bs (Suc i) xs =
     ref_offsets M (mixed M bs h) (bs - 1) i (ins ((h * bs) div M) xs)"

lemma offsets64_eq:
  assumes "length hash mod 8 = 0" "hash \<noteq> []" "i \<le> num" "num \<le> length offs" "i \<le> bs" "bs + (num - i) < 2 ^ 32"
  shows "\<exists>r. offsets64 offs num hash bs i = Some r \<and>
    take num r = ref_offsets (256 ^ length hash) (bytes_val hash) bs i (drop i (take num offs)) \<and>
    drop num r = drop num offs"
  using assms
proof (induction i arbitrary: offs hash bs)
  case (Suc i)
  have bs: "0 < bs" "bs < 2 ^ 32" using Suc.prems(5,6) by linarith+
  have le: "i \<le> num" "i \<le> bs - 1" "bs - 1 + (num - i) < 2 ^ 32"
    using Suc.prems(3,5,6) by linarith+
  obtain hash' ov where m: "mix64 hash bs = Some (hash', ov)" "length hash' = length hash"
    "unat ov = (bytes_val hash * bs) div 256 ^ length hash" "unat ov < bs"
    "bytes_val hash' = mixed (256 ^ length hash) bs (bytes_val hash)"
    using mix64_eq [OF Suc.prems(1,2) bs] by blast
  have ov: "unat (ucast ov :: u32) = unat ov" using m(4) bs(2) by (simp add: unat_ucast)
  let ?o = "insert_offset offs num i (ucast ov)"
  have o: "drop i (take num ?o) = ins (unat ov) (drop (Suc i) (take num offs))"
    "drop num ?o = drop num offs" "length ?o = length offs"
    using insert_offset_eq [of i num offs "ucast ov"] Suc.prems m(4) by (simp_all add: ov)
  have "hash' \<noteq> []" using m(2) Suc.prems(2) by auto
  then obtain r where r: "offsets64 ?o num hash' (bs - 1) i = Some r"
    "take num r = ref_offsets (256 ^ length hash') (bytes_val hash') (bs - 1) i (drop i (take num ?o))"
    "drop num r = drop num ?o"
    using Suc.IH [OF _ _ le(1) _ le(2,3)] Suc.prems(1,2,4) o(3) m(2) by metis
  then show ?case using m o by (simp add: drop_Suc)
qed simp

lemma offsets32_eq:
  assumes "length hash mod 4 = 0" "hash \<noteq> []" "i \<le> num" "num \<le> length offs" "i \<le> bs" "bs + (num - i) < 2 ^ 32"
  shows "\<exists>r. offsets32 offs num hash bs i = Some r \<and>
    take num r = ref_offsets (256 ^ length hash) (bytes_val hash) bs i (drop i (take num offs)) \<and>
    drop num r = drop num offs"
  using assms
proof (induction i arbitrary: offs hash bs)
  case (Suc i)
  have bs: "0 < bs" "bs < 2 ^ 32" using Suc.prems(5,6) by linarith+
  have le: "i \<le> num" "i \<le> bs - 1" "bs - 1 + (num - i) < 2 ^ 32"
    using Suc.prems(3,5,6) by linarith+
  obtain hash' ov where m: "mix32 hash bs = Some (hash', ov)" "length hash' = length hash"
    "unat ov = (bytes_val hash * bs) div 256 ^ length hash" "unat ov < bs"
    "bytes_val hash' = mixed (256 ^ length hash) bs (bytes_val hash)"
    using mix32_eq [OF Suc.prems(1,2) bs] by blast
  let ?o = "insert_offset offs num i ov"
  have o: "drop i (take num ?o) = ins (unat ov) (drop (Suc i) (take num offs))"
    "drop num ?o = drop num offs" "length ?o = length offs"
    using insert_offset_eq [of i num offs ov] Suc.prems m(4) by simp_all
  have "hash' \<noteq> []" using m(2) Suc.prems(2) by auto
  then obtain r where r: "offsets32 ?o num hash' (bs - 1) i = Some r"
    "take num r = ref_offsets (256 ^ length hash') (bytes_val hash') (bs - 1) i (drop i (take num ?o))"
    "drop num r = drop num ?o"
    using Suc.IH [OF _ _ le(1) _ le(2,3)] Suc.prems(1,2,4) o(3) m(2) by metis
  then show ?case using m o by (simp add: drop_Suc)
qed simp

lemma bloom_determine_offsets_eq:
  assumes "1 \<le> fs" "fs < 2 ^ 29" "1 \<le> k" "hash \<noteq> []" "length hash mod 4 = 0"
  shows "bloom_determine_offsets k fs hash =
    Some (ref_offsets (256 ^ length hash) (bytes_val hash) (8 * fs) (min k (8 * fs)) [] @
      replicate (k - 8 * fs) 0)"
proof -
  let ?num = "min k (8 * fs)" and ?z = "replicate k 0 :: nat list"
  have num: "(if 8 * fs < k then 8 * fs else k) = ?num" by (simp add: min_def)
  have fin: "r = take ?num r @ drop ?num r" for r :: "nat list" by simp
  have d: "drop ?num ?z = replicate (k - 8 * fs) 0" by (simp add: min_def)
  have b: "8 * fs + (?num - ?num) < 2 ^ 32" using assms(2) by simp
  show ?thesis
  proof (cases "length hash mod 8 = 0")
    case True
    obtain r where r: "offsets64 ?z ?num hash (8 * fs) ?num = Some r"
      "take ?num r = ref_offsets (256 ^ length hash) (bytes_val hash) (8 * fs) ?num []"
      "drop ?num r = drop ?num ?z"
      using offsets64_eq [OF True assms(4), of ?num ?num ?z "8 * fs"] b by auto
    then have "r = ref_offsets (256 ^ length hash) (bytes_val hash) (8 * fs) ?num [] @
        replicate (k - 8 * fs) 0"
      using fin [of r] d by simp
    with r(1) True assms show ?thesis
      by (simp only: bloom_determine_offsets_def mult.commute [of fs 8] Let_def c_assert_bind
          length_greater_0_conv simp_thms if_True if_False num)
  next
    case False
    obtain r where r: "offsets32 ?z ?num hash (8 * fs) ?num = Some r"
      "take ?num r = ref_offsets (256 ^ length hash) (bytes_val hash) (8 * fs) ?num []"
      "drop ?num r = drop ?num ?z"
      using offsets32_eq [OF assms(5,4), of ?num ?num ?z "8 * fs"] b by auto
    then have "r = ref_offsets (256 ^ length hash) (bytes_val hash) (8 * fs) ?num [] @
        replicate (k - 8 * fs) 0"
      using fin [of r] d by simp
    with r(1) False assms show ?thesis
      by (simp only: bloom_determine_offsets_def mult.commute [of fs 8] Let_def c_assert_bind
          length_greater_0_conv simp_thms if_True if_False num)
  qed
qed

lemma mixed_less:
  assumes "M = 2 ^ k" "32 \<le> k" "0 < bs" "bs < 2 ^ 32"
  shows "mixed M bs h < M"
proof -
  obtain l q where lq: "ffs bs = Suc l" "bs = 2 ^ l * q" "odd q" using ffs_pos [OF assms(3)] by blast
  have l: "l \<le> k" using ffs_le [OF assms(3,4)] lq assms(2) by simp
  have "(h * bs) mod M + (h * bs) div M mod 2 ^ l < 2 ^ k"
    using mix_low_nat [OF assms(1) l, of h q] lq(2) l assms(1)
    by (intro add_no_carry [of l]) simp_all
  then show ?thesis by (simp add: mixed_def lq(1) assms(1))
qed

lemma ref_offsets_spec:
  assumes "h < M" "sorted_wrt (<) xs" "\<forall>x \<in> set xs. x < N" "bs + length xs = N" "i \<le> bs"
    "M = 2 ^ k" "32 \<le> k" "N < 2 ^ 32"
  shows "sorted_wrt (<) (ref_offsets M h bs i xs) \<and> length (ref_offsets M h bs i xs) = length xs + i \<and>
    set xs \<subseteq> set (ref_offsets M h bs i xs) \<and> (\<forall>x \<in> set (ref_offsets M h bs i xs). x < N)"
  using assms(1-5)
proof (induction i arbitrary: h bs xs)
  case (Suc i)
  let ?ov = "(h * bs) div M"
  have bs: "0 < bs" "bs < 2 ^ 32" using Suc.prems assms(8) by simp_all
  have "h * bs < M * bs" using Suc.prems(1) bs by simp
  then have ov: "?ov < bs" by (metis less_mult_imp_div_less mult.commute)
  obtain w where w: "w \<le> ?ov + length xs" "set (ins ?ov xs) = insert w (set xs)"
    "sorted_wrt (<) (ins ?ov xs)" using ins_spec [OF Suc.prems(2), of ?ov] by blast
  have "\<forall>x \<in> set (ins ?ov xs). x < N" using w ov Suc.prems(3,4) by auto
  moreover have "bs - 1 + length (ins ?ov xs) = N" "i \<le> bs - 1"
    using Suc.prems(4,5) by simp_all
  ultimately have "sorted_wrt (<) (ref_offsets M h bs (Suc i) xs)"
    "length (ref_offsets M h bs (Suc i) xs) = Suc (length xs) + i"
    "insert w (set xs) \<subseteq> set (ref_offsets M h bs (Suc i) xs)"
    "\<forall>x \<in> set (ref_offsets M h bs (Suc i) xs). x < N"
    using Suc.IH [OF mixed_less [OF assms(6,7) bs, of h] w(3)] w(2)
    unfolding ref_offsets.simps(2) length_ins by metis+
  then show ?case by simp
qed simp

text \<open>
  The summary: for every hash whose length is a multiple of four there are as many distinct
  offsets as the filter can hold, in increasing order and inside the filter, and the rest of the
  array is zero.
\<close>

lemma bloom_determine_offsets_spec:
  assumes "1 \<le> fs" "fs < 2 ^ 29" "1 \<le> k" "hash \<noteq> []" "length hash mod 4 = 0"
  shows "\<exists>offs. bloom_determine_offsets k fs hash = Some (offs @ replicate (k - 8 * fs) 0) \<and>
    length offs = min k (8 * fs) \<and> sorted_wrt (<) offs \<and> (\<forall>x \<in> set offs. x < 8 * fs)"
proof -
  have "4 \<le> length hash" using assms(4,5) by (cases "length hash < 4") auto
  then have "(32 :: nat) \<le> 8 * length hash" by simp
  moreover have M: "(256 :: nat) ^ length hash = 2 ^ (8 * length hash)" by (simp add: power_mult)
  moreover have "8 * fs < 2 ^ 32" using assms(2) by simp
  ultimately have "sorted_wrt (<) (ref_offsets (256 ^ length hash) (bytes_val hash) (8 * fs) (min k (8 * fs)) []) \<and>
    length (ref_offsets (256 ^ length hash) (bytes_val hash) (8 * fs) (min k (8 * fs)) []) = length ([] :: nat list) + min k (8 * fs) \<and>
    set [] \<subseteq> set (ref_offsets (256 ^ length hash) (bytes_val hash) (8 * fs) (min k (8 * fs)) []) \<and>
    (\<forall>x \<in> set (ref_offsets (256 ^ length hash) (bytes_val hash) (8 * fs) (min k (8 * fs)) []). x < 8 * fs)"
    by (intro ref_offsets_spec [OF bytes_val_less [of hash] _ _ _ _ M]) simp_all
  then show ?thesis
    unfolding bloom_determine_offsets_eq [OF assms] by auto
qed

lemma bloom_determine_offsets_None:
  "\<not> (1 \<le> fs \<and> fs < 2 ^ 29 \<and> 1 \<le> k \<and> hash \<noteq> [] \<and> length hash mod 4 = 0) \<Longrightarrow>
    bloom_determine_offsets k fs hash = None"
proof -
  have "length hash mod 4 = 0" if "length hash mod 8 = 0"
    using that by presburger
  then show "\<not> (1 \<le> fs \<and> fs < 2 ^ 29 \<and> 1 \<le> k \<and> hash \<noteq> [] \<and> length hash mod 4 = 0) \<Longrightarrow>
    bloom_determine_offsets k fs hash = None"
    by (auto simp: bloom_determine_offsets_def Let_def)
qed

end
