(* ===== verification/Byte_Slice.thy ===== *)
theory Byte_Slice
  imports Honas_Base
begin

text \<open>
  Byte slices (\<open>src/include/byte_slice.h\<close>, \<open>src/src/byte_slice.c\<close>): setting, clearing and
  testing bits, counting the one bits, and the bitwise operations on two slices. The
  operations return \<open>None\<close> where the code's \<open>assert()\<close> fails. What each does is stated on
  \<^const>\<open>bits_of\<close>, the set of one bits of the slice.
\<close>

section \<open>Single bits\<close>

definition byte_slice_set_bit :: "bytes \<Rightarrow> nat \<Rightarrow> bytes option" where
  "byte_slice_set_bit s i = do {
     c_assert (length s > i div 8);
     Some (s[i div 8 := s ! (i div 8) OR push_bit (i mod 8) 1])
   }"

definition byte_slice_unset_bit :: "bytes \<Rightarrow> nat \<Rightarrow> bytes option" where
  "byte_slice_unset_bit s i = do {
     c_assert (length s > i div 8);
     Some (s[i div 8 := s ! (i div 8) AND NOT (push_bit (i mod 8) 1)])
   }"

definition byte_slice_bit_is_set :: "bytes \<Rightarrow> nat \<Rightarrow> bool option" where
  "byte_slice_bit_is_set s i = do {
     c_assert (length s > i div 8);
     Some (s ! (i div 8) AND push_bit (i mod 8) 1 \<noteq> 0)
   }"

fun byte_slice_set_bits :: "bytes \<Rightarrow> nat list \<Rightarrow> bytes option" where
  "byte_slice_set_bits s [] = Some s"
| "byte_slice_set_bits s (b # bits) = do {
     s' \<leftarrow> byte_slice_set_bit s b;
     byte_slice_set_bits s' bits
   }"

fun byte_slice_unset_bits :: "bytes \<Rightarrow> nat list \<Rightarrow> bytes option" where
  "byte_slice_unset_bits s [] = Some s"
| "byte_slice_unset_bits s (b # bits) = do {
     s' \<leftarrow> byte_slice_unset_bit s b;
     byte_slice_unset_bits s' bits
   }"

fun byte_slice_all_bits_set :: "bytes \<Rightarrow> nat list \<Rightarrow> bool option" where
  "byte_slice_all_bits_set s [] = Some True"
| "byte_slice_all_bits_set s (b # bits) = do {
     r \<leftarrow> byte_slice_bit_is_set s b;
     if \<not> r then Some False else byte_slice_all_bits_set s bits
   }"

fun byte_slice_any_bit_set :: "bytes \<Rightarrow> nat list \<Rightarrow> bool option" where
  "byte_slice_any_bit_set s [] = Some False"
| "byte_slice_any_bit_set s (b # bits) = do {
     r \<leftarrow> byte_slice_bit_is_set s b;
     if r then Some True else byte_slice_any_bit_set s bits
   }"

definition byte_slice_clear :: "bytes \<Rightarrow> bytes" where
  "byte_slice_clear s = replicate (length s) 0"

lemma div8_less [simp]: "i div 8 < n \<longleftrightarrow> i < 8 * (n :: nat)"
  by linarith

lemma bit_at_update:
  assumes "k < length s"
  shows "bit_at (s[k := b]) i = (if i div 8 = k then bit b (i mod 8) else bit_at s i)"
  using assms by (auto simp: bit_at_def)

lemma mod_8_eq: "i div 8 = j div 8 \<Longrightarrow> i mod 8 = j mod 8 \<Longrightarrow> i = (j :: nat)"
  by (metis div_mult_mod_eq)

lemma bit_one_hot [simp]: "bit (2 ^ k :: u8) n \<longleftrightarrow> n = k \<and> k < 8"
  by (auto simp: bit_exp_iff)

lemma byte_slice_set_bit_eq:
  assumes "i < 8 * length s"
  shows "\<exists>s'. byte_slice_set_bit s i = Some s' \<and> length s' = length s \<and>
    bits_of s' = insert i (bits_of s)"
proof -
  have k: "i div 8 < length s" using assms by simp
  have "bits_of (s[i div 8 := s ! (i div 8) OR push_bit (i mod 8) 1]) = insert i (bits_of s)"
    using assms by (auto simp: bits_of_def bit_at_update [OF k] bit_or_iff dest: mod_8_eq)
      (auto simp: bit_at_def)
  with assms show ?thesis by (simp add: byte_slice_set_bit_def)
qed

lemma byte_slice_unset_bit_eq:
  assumes "i < 8 * length s"
  shows "\<exists>s'. byte_slice_unset_bit s i = Some s' \<and> length s' = length s \<and>
    bits_of s' = bits_of s - {i}"
proof -
  have k: "i div 8 < length s" using assms by simp
  have "bits_of (s[i div 8 := s ! (i div 8) AND NOT (push_bit (i mod 8) 1)]) = bits_of s - {i}"
    using assms
    by (auto simp: bits_of_def bit_at_update [OF k] bit_and_iff bit_not_iff dest: mod_8_eq)
      (auto simp: bit_at_def)
  with assms show ?thesis by (simp add: byte_slice_unset_bit_def)
qed

lemma and_one_hot_zero: "k < 8 \<Longrightarrow> (b AND 2 ^ k :: u8) = 0 \<longleftrightarrow> \<not> bit b k"
proof
  assume k: "k < 8" and z: "b AND 2 ^ k = 0"
  have "bit (b AND 2 ^ k) k = bit b k" using k by (simp add: bit_and_iff)
  with z show "\<not> bit b k" by simp
next
  assume "\<not> bit b k"
  then show "b AND 2 ^ k = 0" by (auto intro!: byte_eqI simp: bit_and_iff)
qed

lemma byte_slice_bit_is_set_eq:
  "i < 8 * length s \<Longrightarrow> byte_slice_bit_is_set s i = Some (bit_at s i)"
  by (simp add: byte_slice_bit_is_set_def bit_at_def and_one_hot_zero)

lemma byte_slice_bit_None:
  assumes "\<not> i < 8 * length s"
  shows "byte_slice_set_bit s i = None" "byte_slice_unset_bit s i = None"
    "byte_slice_bit_is_set s i = None"
  using assms
  by (simp_all add: byte_slice_set_bit_def byte_slice_unset_bit_def byte_slice_bit_is_set_def)

lemma byte_slice_set_bits_eq:
  "\<forall>b \<in> set bits. b < 8 * length s \<Longrightarrow>
    \<exists>s'. byte_slice_set_bits s bits = Some s' \<and> length s' = length s \<and>
      bits_of s' = bits_of s \<union> set bits"
proof (induction bits arbitrary: s)
  case Nil
  show ?case by simp
next
  case (Cons b bits)
  from Cons.prems obtain s1 where s1: "byte_slice_set_bit s b = Some s1" "length s1 = length s"
    "bits_of s1 = insert b (bits_of s)"
    using byte_slice_set_bit_eq [of b s] by auto
  with Cons.prems Cons.IH [of s1] show ?case by auto
qed

lemma byte_slice_unset_bits_eq:
  "\<forall>b \<in> set bits. b < 8 * length s \<Longrightarrow>
    \<exists>s'. byte_slice_unset_bits s bits = Some s' \<and> length s' = length s \<and>
      bits_of s' = bits_of s - set bits"
proof (induction bits arbitrary: s)
  case Nil
  show ?case by simp
next
  case (Cons b bits)
  from Cons.prems obtain s1 where s1: "byte_slice_unset_bit s b = Some s1" "length s1 = length s"
    "bits_of s1 = bits_of s - {b}"
    using byte_slice_unset_bit_eq [of b s] by auto
  with Cons.prems Cons.IH [of s1] show ?case by auto
qed

lemma byte_slice_all_bits_set_eq:
  "\<forall>b \<in> set bits. b < 8 * length s \<Longrightarrow>
    byte_slice_all_bits_set s bits = Some (set bits \<subseteq> bits_of s)"
  by (induction bits) (auto simp: byte_slice_bit_is_set_eq)

lemma byte_slice_any_bit_set_eq:
  "\<forall>b \<in> set bits. b < 8 * length s \<Longrightarrow>
    byte_slice_any_bit_set s bits = Some (set bits \<inter> bits_of s \<noteq> {})"
  by (induction bits) (auto simp: byte_slice_bit_is_set_eq)

lemma byte_slice_clear_bits [simp]: "bits_of (byte_slice_clear s) = {}"
  by (auto simp: bits_of_def bit_at_def byte_slice_clear_def)

lemma length_byte_slice_clear [simp]: "length (byte_slice_clear s) = length s"
  by (simp add: byte_slice_clear_def)

section \<open>Counting bits\<close>

text \<open>
  \<open>byte_slice_popcount\<close> counts byte by byte up to the first address that is a multiple of
  \<open>sizeof(popcount_t)\<close>, then a \<open>popcount_t\<close> at a time, then byte by byte again. The model is
  parametric in the address \<open>addr\<close> of the slice, in the size \<open>n\<close> of \<open>popcount_t\<close> and in the
  \<open>popcount\<close> function \<open>pc\<close> on its values. A pointer into the slice is its offset \<open>cur\<close>.
\<close>

function popcount_loop ::
  "nat \<Rightarrow> (nat \<Rightarrow> nat) \<Rightarrow> bytes \<Rightarrow> nat \<Rightarrow> nat \<Rightarrow> nat \<Rightarrow> nat \<times> nat" where
  "popcount_loop n pc s cur stop bits =
     (if cur < stop \<and> 0 < n
      then popcount_loop n pc s (cur + n) stop (bits + pc (bytes_val (take n (drop cur s))))
      else (cur, bits))"
  by pat_completeness auto
termination
  by (relation "measure (\<lambda>(n, pc, s, cur, stop, bits). stop - cur)") auto

declare popcount_loop.simps [simp del]

definition opt_align_begin :: "nat \<Rightarrow> nat \<Rightarrow> nat" where
  "opt_align_begin a n = (a + n - 1) div n * n"

definition opt_align_end :: "nat \<Rightarrow> nat \<Rightarrow> nat" where
  "opt_align_end a n = a div n * n"

definition byte_slice_popcount :: "nat \<Rightarrow> (nat \<Rightarrow> nat) \<Rightarrow> nat \<Rightarrow> bytes \<Rightarrow> nat option" where
  "byte_slice_popcount n pc addr s = do {
     c_assert (length s \<le> (2 ^ 64 - 1) div 8);
     let (cur, bits) =
       (if length s > n * 2 then
          let opt_begin = opt_align_begin addr n - addr;
              opt_end = opt_align_end (addr + length s) n - addr;
              (cur, bits) = popcount_loop 1 pc s 0 opt_begin 0
          in popcount_loop n pc s cur opt_end bits
        else (0, 0));
     Some (snd (popcount_loop 1 pc s cur (length s) bits))
   }"

lemma card_bits_of_append: "card (bits_of (s @ t)) = card (bits_of s) + card (bits_of t)"
proof -
  have "bits_of (s @ t) = bits_of s \<union> (\<lambda>i. 8 * length s + i) ` bits_of t" (is "_ = _ \<union> ?f ` _")
  proof (rule set_eqI)
    fix i
    show "i \<in> bits_of (s @ t) \<longleftrightarrow> i \<in> bits_of s \<union> ?f ` bits_of t"
      by (auto simp: bit_at_append image_iff dest: bit_at_bound)
        (metis add_diff_inverse_nat mem_bits_of)
  qed
  moreover have "bits_of s \<inter> ?f ` bits_of t = {}"
    by (auto dest: bit_at_bound)
  moreover have "card (?f ` bits_of t) = card (bits_of t)"
    by (rule card_image) (simp add: inj_on_def)
  ultimately show ?thesis by (simp add: card_Un_disjoint)
qed

definition popcount_correct :: "nat \<Rightarrow> (nat \<Rightarrow> nat) \<Rightarrow> bool" where
  "popcount_correct n pc \<longleftrightarrow> (\<forall>v < 256 ^ n. pc v = card {k. bit v k})"

lemma popcount_correctD:
  "popcount_correct n pc \<Longrightarrow> length s \<le> n \<Longrightarrow> pc (bytes_val s) = card (bits_of s)"
proof -
  assume pc: "popcount_correct n pc" and len: "length s \<le> n"
  have "bytes_val s < 256 ^ length s" by (rule bytes_val_less)
  also have "\<dots> \<le> 256 ^ n" using len by (simp add: power_increasing)
  finally have "bytes_val s < 256 ^ n" .
  with pc show ?thesis by (simp add: popcount_correct_def bit_bytes_val bits_of_def)
qed

lemma popcount_loop_eq:
  assumes "0 < n" "n \<le> m" "popcount_correct m pc" "stop \<le> length s" "cur \<le> stop" "n dvd stop - cur"
  shows "popcount_loop n pc s cur stop bits =
    (stop, bits + card (bits_of (take (stop - cur) (drop cur s))))"
  using assms
proof (induction n pc s cur stop bits rule: popcount_loop.induct)
  case (1 n pc s cur stop bits)
  show ?case
  proof (cases "cur < stop")
    case False
    with "1.prems" show ?thesis by (subst popcount_loop.simps) simp
  next
    case True
    with "1.prems" have le: "cur + n \<le> stop" using dvd_imp_le [of n "stop - cur"] by simp
    have dvd: "n dvd stop - (cur + n)"
      using dvd_diff_nat [OF "1.prems"(6) dvd_refl] by (simp only: diff_diff_left)
    have "take (stop - cur) (drop cur s) =
        take n (drop cur s) @ take (stop - (cur + n)) (drop (cur + n) s)"
      using le take_add [of n "stop - (cur + n)" "drop cur s"] by (simp add: add.commute)
    moreover have "pc (bytes_val (take n (drop cur s))) = card (bits_of (take n (drop cur s)))"
      using "1.prems"(2,3) by (intro popcount_correctD) auto
    ultimately show ?thesis
      using "1.IH" [OF _ "1.prems"(1-4) le dvd] True "1.prems"(1)
      by (simp add: popcount_loop.simps [of n pc s cur] card_bits_of_append)
  qed
qed

lemma opt_align_begin_bounds:
  assumes "0 < n"
  shows "addr \<le> opt_align_begin addr n" "opt_align_begin addr n < addr + n"
    "n dvd opt_align_begin addr n"
proof -
  have "(addr + n - 1) div n * n + (addr + n - 1) mod n = addr + n - 1" by simp
  moreover have "(addr + n - 1) mod n < n" using assms by simp
  ultimately show "addr \<le> opt_align_begin addr n" "opt_align_begin addr n < addr + n"
    using assms unfolding opt_align_begin_def by linarith+
qed (simp add: opt_align_begin_def)

lemma opt_align_end_bounds:
  assumes "0 < n"
  shows "opt_align_end addr n \<le> addr" "addr < opt_align_end addr n + n" "n dvd opt_align_end addr n"
proof -
  have "addr div n * n + addr mod n = addr" by simp
  moreover have "addr mod n < n" using assms by simp
  ultimately show "opt_align_end addr n \<le> addr" "addr < opt_align_end addr n + n"
    unfolding opt_align_end_def by linarith+
qed (simp add: opt_align_end_def)

lemma byte_slice_popcount_eq:
  assumes "0 < n" and pc: "popcount_correct n pc" and len: "length s \<le> (2 ^ 64 - 1) div 8"
  shows "byte_slice_popcount n pc addr s = Some (card (bits_of s))"
proof -
  note loop = popcount_loop_eq [OF _ _ pc]
  show ?thesis
  proof (cases "length s > n * 2")
    case False
    with len show ?thesis
      using loop [of 1 "length s" s 0 0] assms(1)
      by (simp add: byte_slice_popcount_def)
  next
    case True
    define ob where "ob = opt_align_begin addr n - addr"
    define oe where "oe = opt_align_end (addr + length s) n - addr"
    have *: "ob < n" "oe \<le> length s" "length s < oe + n"
      using opt_align_begin_bounds [OF assms(1), of addr] True
        opt_align_end_bounds [OF assms(1), of "addr + length s"]
      by (auto simp: ob_def oe_def)
    then have le: "ob \<le> oe" using True by simp
    have "oe - ob = opt_align_end (addr + length s) n - opt_align_begin addr n"
      using le * opt_align_begin_bounds [OF assms(1), of addr] by (auto simp: ob_def oe_def)
    then have "n dvd oe - ob"
      using opt_align_begin_bounds(3) [OF assms(1)] opt_align_end_bounds(3) [OF assms(1)]
      by (simp add: dvd_diff_nat)
    then have "snd (popcount_loop 1 pc s oe (length s)
          (card (bits_of (take ob s)) + card (bits_of (take (oe - ob) (drop ob s))))) =
        card (bits_of (take ob s)) + card (bits_of (take (oe - ob) (drop ob s))) +
        card (bits_of (drop oe s))"
      using loop [of 1 "length s" s oe] assms(1) * by simp
    also have "\<dots> = card (bits_of s)"
      using le card_bits_of_append [of "take ob s" "take (oe - ob) (drop ob s)"]
        card_bits_of_append [of "take oe s" "drop oe s"] take_add [of ob "oe - ob" s]
      by simp
    finally show ?thesis
      using True len loop [of 1 ob s 0 0] loop [of n oe s ob "card (bits_of (take ob s))"]
        \<open>n dvd oe - ob\<close> le * assms(1)
      by (simp add: byte_slice_popcount_def ob_def [symmetric] oe_def [symmetric])
  qed
qed

section \<open>Bitwise operations on two slices\<close>

text \<open>
  \<open>byte_slice_bitwise_or\<close> and \<open>byte_slice_bitwise_and\<close> have the same shape: bytes up to an
  aligned address of the target, \<open>size_t\<close> words up to the last aligned address, and the
  remaining bytes. The assertion makes both pointers aligned at the same time. A pointer is an
  offset into its slice, and the target is written in place.
\<close>

function bitwise_bytes :: "(u8 \<Rightarrow> u8 \<Rightarrow> u8) \<Rightarrow> bytes \<Rightarrow> bytes \<Rightarrow> nat \<Rightarrow> nat \<Rightarrow> nat \<times> bytes" where
  "bitwise_bytes f other target cur stop =
     (if cur < stop
      then bitwise_bytes f other (target[cur := f (target ! cur) (other ! cur)]) (cur + 1) stop
      else (cur, target))"
  by pat_completeness auto
termination
  by (relation "measure (\<lambda>(f, other, target, cur, stop). stop - cur)") auto

function bitwise_words :: "(u64 \<Rightarrow> u64 \<Rightarrow> u64) \<Rightarrow> bytes \<Rightarrow> bytes \<Rightarrow> nat \<Rightarrow> nat \<Rightarrow> nat \<times> bytes" where
  "bitwise_words f other target cur stop =
     (if cur < stop
      then bitwise_words f other
        (store64 target cur (f (load64 target cur) (load64 other cur))) (cur + 8) stop
      else (cur, target))"
  by pat_completeness auto
termination
  by (relation "measure (\<lambda>(f, other, target, cur, stop). stop - cur)") auto

declare bitwise_bytes.simps [simp del] bitwise_words.simps [simp del]

definition byte_slice_bitwise ::
  "(u8 \<Rightarrow> u8 \<Rightarrow> u8) \<Rightarrow> (u64 \<Rightarrow> u64 \<Rightarrow> u64) \<Rightarrow> nat \<Rightarrow> bytes \<Rightarrow> nat \<Rightarrow> bytes \<Rightarrow> bytes option" where
  "byte_slice_bitwise f8 f64 taddr target oaddr other = do {
     c_assert (taddr mod 8 = oaddr mod 8);
     let len = min (length target) (length other);
     let (cur, target1) =
       (if len > 8 * 2 then
          let opt_begin = opt_align_begin taddr 8 - taddr;
              opt_end = opt_align_end (taddr + len) 8 - taddr;
              (cur, target1) = bitwise_bytes f8 other target 0 opt_begin
          in bitwise_words f64 other target1 cur opt_end
        else (0, target));
     Some (snd (bitwise_bytes f8 other target1 cur len))
   }"

definition byte_slice_bitwise_or :: "nat \<Rightarrow> bytes \<Rightarrow> nat \<Rightarrow> bytes \<Rightarrow> bytes option" where
  "byte_slice_bitwise_or = byte_slice_bitwise (OR) (OR)"

definition byte_slice_bitwise_and :: "nat \<Rightarrow> bytes \<Rightarrow> nat \<Rightarrow> bytes \<Rightarrow> bytes option" where
  "byte_slice_bitwise_and = byte_slice_bitwise (AND) (AND)"

text \<open>Both operations work on each bit by itself.\<close>

definition bitwise_op ::
  "(u8 \<Rightarrow> u8 \<Rightarrow> u8) \<Rightarrow> (u64 \<Rightarrow> u64 \<Rightarrow> u64) \<Rightarrow> (bool \<Rightarrow> bool \<Rightarrow> bool) \<Rightarrow> bool" where
  "bitwise_op f8 f64 g \<longleftrightarrow>
     (\<forall>a b n. n < 8 \<longrightarrow> bit (f8 a b) n = g (bit a n) (bit b n)) \<and>
     (\<forall>a b n. n < 64 \<longrightarrow> bit (f64 a b) n = g (bit a n) (bit b n))"

lemma bitwise_op_or: "bitwise_op (OR) (OR) (\<or>)"
  by (simp add: bitwise_op_def bit_or_iff)

lemma bitwise_op_and: "bitwise_op (AND) (AND) (\<and>)"
  by (simp add: bitwise_op_def bit_and_iff)

lemma bitwise_bytes_eq:
  assumes "bitwise_op f8 f64 g" "stop \<le> length target" "stop \<le> length other" "cur \<le> stop"
  shows "\<exists>t'. bitwise_bytes f8 other target cur stop = (stop, t') \<and> length t' = length target \<and>
    (\<forall>i. bit_at t' i = (if 8 * cur \<le> i \<and> i < 8 * stop then g (bit_at target i) (bit_at other i)
                       else bit_at target i))"
  using assms
proof (induction f8 other target cur stop rule: bitwise_bytes.induct)
  case (1 f8 other target cur stop)
  show ?case
  proof (cases "cur < stop")
    case False
    with "1.prems" show ?thesis by (subst bitwise_bytes.simps) auto
  next
    case True
    let ?t1 = "target[cur := f8 (target ! cur) (other ! cur)]"
    from True "1.prems" obtain t' where t': "bitwise_bytes f8 other ?t1 (cur + 1) stop = (stop, t')"
      "length t' = length target"
      "\<forall>i. bit_at t' i = (if 8 * (cur + 1) \<le> i \<and> i < 8 * stop then g (bit_at ?t1 i) (bit_at other i)
                       else bit_at ?t1 i)"
      using "1.IH" by force
    have t1: "bit_at ?t1 i = (if 8 * cur \<le> i \<and> i < 8 * (cur + 1)
        then g (bit_at target i) (bit_at other i) else bit_at target i)" for i
    proof -
      have *: "8 * cur \<le> i \<and> i < 8 * (cur + 1) \<longleftrightarrow> i div 8 = cur" by auto
      have "i mod 8 < 8" by simp
      then show ?thesis
        unfolding * using True "1.prems"
        by (auto simp: bit_at_update) (auto simp: bit_at_def bitwise_op_def)
    qed
    have "bitwise_bytes f8 other target cur stop = (stop, t')"
      using True t'(1) by (subst bitwise_bytes.simps) simp
    moreover have "\<forall>i. bit_at t' i = (if 8 * cur \<le> i \<and> i < 8 * stop
        then g (bit_at target i) (bit_at other i) else bit_at target i)"
      using t'(3) t1 True by (auto simp: not_less not_le)
    ultimately show ?thesis using t'(2) by blast
  qed
qed

lemma bit_at_take_drop:
  assumes "c + n \<le> length s"
  shows "bit_at (take n (drop c s)) i = (i < 8 * n \<and> bit_at s (8 * c + i))"
  using assms by (auto simp: bit_at_def)

lemma bit_at_store64:
  assumes "cur + 8 \<le> length s"
  shows "bit_at (store64 s cur w) i =
    (if 8 * cur \<le> i \<and> i < 8 * (cur + 8) then bit w (i - 8 * cur) else bit_at s i)"
proof -
  have b: "bit_at (val_bytes 8 (unat w)) (i - 8 * cur) \<longleftrightarrow> i - 8 * cur < 64 \<and> bit w (i - 8 * cur)"
    by (simp add: bit_at_val_bytes bit_unsigned_iff)
  show ?thesis
  proof (cases "8 * cur \<le> i \<and> i < 8 * (cur + 8)")
    case True
    define j where "j = i - 8 * cur"
    have j: "i = 8 * cur + j" "j < 64" using True by (auto simp: j_def)
    then have "i div 8 = cur + j div 8" "i mod 8 = j mod 8" by simp_all
    moreover have "j div 8 < 8" using j by simp
    then have "cur + j div 8 < length s" using assms by linarith
    ultimately show ?thesis
      using b j assms by (simp add: store64_def bit_at_def nth_splice)
  next
    case False
    then have "\<not> (cur \<le> i div 8 \<and> i div 8 < cur + 8)" by auto
    with False show ?thesis
      using assms by (auto simp: store64_def bit_at_def nth_splice)
  qed
qed

lemma bitwise_words_eq:
  assumes "bitwise_op f8 f64 g" "stop \<le> length target" "stop \<le> length other" "cur \<le> stop"
    "8 dvd stop - cur"
  shows "\<exists>t'. bitwise_words f64 other target cur stop = (stop, t') \<and> length t' = length target \<and>
    (\<forall>i. bit_at t' i = (if 8 * cur \<le> i \<and> i < 8 * stop then g (bit_at target i) (bit_at other i)
                       else bit_at target i))"
  using assms
proof (induction f64 other target cur stop rule: bitwise_words.induct)
  case (1 f64 other target cur stop)
  show ?case
  proof (cases "cur < stop")
    case False
    with "1.prems" show ?thesis by (subst bitwise_words.simps) auto
  next
    case True
    have le: "cur + 8 \<le> stop" using True "1.prems"(5) dvd_imp_le [of 8 "stop - cur"] by simp
    let ?w = "f64 (load64 target cur) (load64 other cur)"
    let ?t1 = "store64 target cur ?w"
    have dvd: "8 dvd stop - (cur + 8)"
      using dvd_diff_nat [OF "1.prems"(5) dvd_refl] by (simp only: diff_diff_left)
    have len: "length ?t1 = length target" using le "1.prems"(2) by simp
    have prems: "stop \<le> length ?t1" "stop \<le> length other" "cur + 8 \<le> stop"
      using le "1.prems" len by simp_all
    obtain t' where t': "bitwise_words f64 other ?t1 (cur + 8) stop = (stop, t')"
      "length t' = length ?t1"
      "\<forall>i. bit_at t' i = (if 8 * (cur + 8) \<le> i \<and> i < 8 * stop then g (bit_at ?t1 i) (bit_at other i)
                       else bit_at ?t1 i)"
      using "1.IH" [OF True "1.prems"(1) prems dvd] by blast
    have t1: "bit_at ?t1 i = (if 8 * cur \<le> i \<and> i < 8 * (cur + 8)
        then g (bit_at target i) (bit_at other i) else bit_at target i)" for i
    proof (cases "8 * cur \<le> i \<and> i < 8 * (cur + 8)")
      case False
      then show ?thesis using le "1.prems"(2) by (subst bit_at_store64) auto
    next
      case True
      have j: "i - 8 * cur < 64" "8 * cur + (i - 8 * cur) = i"
        using True by (auto simp: algebra_simps)
      have "bit ?w (i - 8 * cur) = g (bit_at target i) (bit_at other i)"
        using j le "1.prems"(1-3)
        by (simp add: bitwise_op_def bit_load64 bit_at_take_drop)
      with True show ?thesis using le "1.prems"(2) by (simp add: bit_at_store64)
    qed
    have "bitwise_words f64 other target cur stop = (stop, t')"
      using True t'(1) by (subst bitwise_words.simps) simp
    moreover have "\<forall>i. bit_at t' i = (if 8 * cur \<le> i \<and> i < 8 * stop
        then g (bit_at target i) (bit_at other i) else bit_at target i)"
      using t'(3) t1 True le by (auto simp: not_less not_le)
    ultimately show ?thesis using t'(2) len by auto
  qed
qed

lemma byte_slice_bitwise_eq:
  assumes op: "bitwise_op f8 f64 g" and al: "taddr mod 8 = oaddr mod 8"
  shows "\<exists>t'. byte_slice_bitwise f8 f64 taddr target oaddr other = Some t' \<and>
    length t' = length target \<and>
    (\<forall>i. bit_at t' i = (if i < 8 * min (length target) (length other)
                       then g (bit_at target i) (bit_at other i) else bit_at target i))"
proof -
  define len where "len = min (length target) (length other)"
  have len: "len \<le> length target" "len \<le> length other" by (simp_all add: len_def)
  show ?thesis
  proof (cases "len > 8 * 2")
    case False
    obtain t' where "bitwise_bytes f8 other target 0 len = (len, t')" "length t' = length target"
      "\<forall>i. bit_at t' i = (if i < 8 * len then g (bit_at target i) (bit_at other i)
         else bit_at target i)"
      using bitwise_bytes_eq [OF op len, of 0] by auto
    moreover from this have "byte_slice_bitwise f8 f64 taddr target oaddr other = Some t'"
      using False al by (simp add: byte_slice_bitwise_def len_def [symmetric])
    ultimately show ?thesis by (auto simp: len_def)
  next
    case True
    define ob where "ob = opt_align_begin taddr 8 - taddr"
    define oe where "oe = opt_align_end (taddr + len) 8 - taddr"
    have *: "ob < 8" "oe \<le> len" "len < oe + 8"
      using opt_align_begin_bounds [of 8 taddr] opt_align_end_bounds [of 8 "taddr + len"] True
      by (auto simp: ob_def oe_def)
    then have le: "ob \<le> oe" using True by simp
    have "oe - ob = opt_align_end (taddr + len) 8 - opt_align_begin taddr 8"
      using le * opt_align_begin_bounds [of 8 taddr] by (auto simp: ob_def oe_def)
    then have dvd: "8 dvd oe - ob"
      using opt_align_begin_bounds(3) [of 8 taddr] opt_align_end_bounds(3) [of 8 "taddr + len"]
      by (simp add: dvd_diff_nat)
    obtain t1 where t1: "bitwise_bytes f8 other target 0 ob = (ob, t1)" "length t1 = length target"
      "\<forall>i. bit_at t1 i = (if i < 8 * ob then g (bit_at target i) (bit_at other i)
         else bit_at target i)"
      using bitwise_bytes_eq [OF op, of ob target other 0] le * len by auto
    obtain t2 where t2: "bitwise_words f64 other t1 ob oe = (oe, t2)" "length t2 = length target"
      "\<forall>i. bit_at t2 i = (if 8 * ob \<le> i \<and> i < 8 * oe then g (bit_at t1 i) (bit_at other i)
         else bit_at t1 i)"
      using bitwise_words_eq [OF op, of oe t1 other ob] le * len t1(2) dvd by auto
    obtain t3 where t3: "bitwise_bytes f8 other t2 oe len = (len, t3)" "length t3 = length target"
      "\<forall>i. bit_at t3 i = (if 8 * oe \<le> i \<and> i < 8 * len then g (bit_at t2 i) (bit_at other i)
         else bit_at t2 i)"
      using bitwise_bytes_eq [OF op, of len t2 other oe] * len t2(2) by auto
    have "bit_at t3 i = (if i < 8 * len then g (bit_at target i) (bit_at other i)
        else bit_at target i)" for i
      using t1(3) t2(3) t3(3) le * by (auto simp: not_less not_le)
    moreover have "byte_slice_bitwise f8 f64 taddr target oaddr other = Some t3"
      using True al t1(1) t2(1) t3(1)
      by (simp add: byte_slice_bitwise_def len_def [symmetric] ob_def [symmetric] oe_def [symmetric])
    ultimately show ?thesis using t3(2) by (auto simp: len_def)
  qed
qed

lemma byte_slice_bitwise_unaligned:
  "taddr mod 8 \<noteq> oaddr mod 8 \<Longrightarrow> byte_slice_bitwise f8 f64 taddr target oaddr other = None"
  by (simp add: byte_slice_bitwise_def)

lemma byte_slice_bitwise_or_eq:
  assumes "taddr mod 8 = oaddr mod 8"
  shows "\<exists>t'. byte_slice_bitwise_or taddr target oaddr other = Some t' \<and>
    length t' = length target \<and>
    bits_of t' = bits_of target \<union> {i \<in> bits_of other. i < 8 * length target}"
proof -
  obtain t' where t': "byte_slice_bitwise_or taddr target oaddr other = Some t'"
    "length t' = length target"
    "\<forall>i. bit_at t' i = (if i < 8 * min (length target) (length other)
       then bit_at target i \<or> bit_at other i else bit_at target i)"
    using byte_slice_bitwise_eq [OF bitwise_op_or assms, of target other]
    unfolding byte_slice_bitwise_or_def by blast
  have "bits_of t' = bits_of target \<union> {i \<in> bits_of other. i < 8 * length target}"
  proof (rule set_eqI)
    fix i
    show "i \<in> bits_of t' \<longleftrightarrow> i \<in> bits_of target \<union> {i \<in> bits_of other. i < 8 * length target}"
      using t'(3) [rule_format, of i] bit_at_bound [of other i] bit_at_bound [of target i] by auto
  qed
  with t'(1,2) show ?thesis by blast
qed

lemma byte_slice_bitwise_and_eq:
  assumes "taddr mod 8 = oaddr mod 8" "length other = length target"
  shows "\<exists>t'. byte_slice_bitwise_and taddr target oaddr other = Some t' \<and>
    length t' = length target \<and> bits_of t' = bits_of target \<inter> bits_of other"
proof -
  obtain t' where t': "byte_slice_bitwise_and taddr target oaddr other = Some t'"
    "length t' = length target"
    "\<forall>i. bit_at t' i = (if i < 8 * min (length target) (length other)
       then bit_at target i \<and> bit_at other i else bit_at target i)"
    using byte_slice_bitwise_eq [OF bitwise_op_and assms(1), of target other]
    unfolding byte_slice_bitwise_and_def by blast
  have "bits_of t' = bits_of target \<inter> bits_of other"
  proof (rule set_eqI)
    fix i
    show "i \<in> bits_of t' \<longleftrightarrow> i \<in> bits_of target \<inter> bits_of other"
      using t'(3) [rule_format, of i] bit_at_bound [of other i] bit_at_bound [of target i] assms(2)
      by auto
  qed
  with t'(1,2) show ?thesis by blast
qed

end
