(* ===== verification/Popcount.thy ===== *)
theory Popcount
  imports Byte_Slice
begin

text \<open>
  The fallback \<open>popcount\<close> of \<open>src/src/byte_slice.c\<close>: the one bits of a 32-bit word, counted in
  parallel in fields of 2, 4 and 8 bits. It is proved to count the bits, so that
  \<^const>\<open>byte_slice_popcount\<close> is correct with it. The compiler's \<open>__builtin_popcountll\<close> is modelled
  by the number of bits its documentation promises.
\<close>

definition popcount :: "u32 \<Rightarrow> u32" where
  "popcount i =
     (let i = i - (drop_bit 1 i AND 0x55555555);
          i = (i AND 0x33333333) + (drop_bit 2 i AND 0x33333333)
      in drop_bit 24 (((i + drop_bit 4 i) AND 0x0F0F0F0F) * 0x01010101))"

definition popcount32_nat :: "nat \<Rightarrow> nat" where
  "popcount32_nat v = unat (popcount (of_nat v))"

definition builtin_popcountll :: "nat \<Rightarrow> nat" where
  "builtin_popcountll v = length (filter (bit v) [0 ..< 64])"

section \<open>Numbers as sequences of fields\<close>

text \<open>\<open>fields k xs\<close> is the number whose \<open>k\<close>-bit fields are \<open>xs\<close>, the lowest first.\<close>

fun fields :: "nat \<Rightarrow> nat list \<Rightarrow> nat" where
  "fields k [] = 0"
| "fields k (x # xs) = x + 2 ^ k * fields k xs"

fun evens :: "nat list \<Rightarrow> nat list" where
  "evens (a # b # xs) = a # evens xs"
| "evens xs = []"

fun odds :: "nat list \<Rightarrow> nat list" where
  "odds (a # b # xs) = b # odds xs"
| "odds xs = []"

fun psum :: "nat list \<Rightarrow> nat list" where
  "psum (a # b # xs) = (a + b) # psum xs"
| "psum xs = []"

lemma and_split:
  assumes "a < 2 ^ k" "b < 2 ^ k"
  shows "(a + 2 ^ k * u) AND (b + 2 ^ k * v) = (a AND b) + 2 ^ k * (u AND v :: nat)"
proof -
  have "take_bit k (a AND b) = a AND b"
    using assms by (simp add: take_bit_nat_eq_self)
  then have "a AND b < 2 ^ k" by (metis take_bit_nat_less_exp)
  with assms show ?thesis
    by (intro bit_eqI) (simp add: bit_and_iff bit_add_high)
qed

lemma and_mask_self: "a < 2 ^ k \<Longrightarrow> a AND (2 ^ k - 1) = (a :: nat)"
  by (metis take_bit_eq_mask mask_eq_exp_minus_1 take_bit_nat_eq_self)

lemma two_power_double: "(2 :: nat) ^ (2 * k) = 2 ^ k * 2 ^ k"
  by (simp add: mult_2 power_add)

lemma fields_and_evens:
  "even (length xs) \<Longrightarrow> \<forall>x \<in> set xs. x < 2 ^ k \<Longrightarrow>
    fields k xs AND fields (2 * k) (replicate (length xs div 2) (2 ^ k - 1)) = fields (2 * k) (evens xs)"
proof (induction xs rule: evens.induct)
  case (1 a b xs)
  define m :: nat where "m = 2 ^ k - 1"
  have m: "m < 2 ^ k" "2 ^ k - 1 = m" by (simp_all add: m_def)
  let ?F = "fields k xs" and ?M = "fields (2 * k) (replicate (length xs div 2) m)"
  have IH: "?F AND ?M = fields (2 * k) (evens xs)" using 1 m by simp
  have "fields k (a # b # xs) AND fields (2 * k) (replicate (length (a # b # xs) div 2) m) =
      (a + 2 ^ k * (b + 2 ^ k * ?F)) AND (m + 2 ^ k * (0 + 2 ^ k * ?M))"
    by (simp add: two_power_double distrib_left mult.assoc)
  also have "\<dots> = (a AND m) + 2 ^ k * ((b AND 0) + 2 ^ k * (?F AND ?M))"
    using "1.prems" m and_split [of b k 0 ?F ?M] by (simp add: and_split)
  also have "a AND m = a" using "1.prems" m and_mask_self [of a k] by simp
  finally show ?case using IH m by (simp add: two_power_double mult.assoc)
qed auto

lemma fields_snoc_0: "fields k (xs @ [0]) = fields k xs"
  by (induction xs) auto

lemma fields_drop: "x < 2 ^ k \<Longrightarrow> fields k (x # xs) div 2 ^ k = fields k xs"
  by simp

lemma evens_tl: "even (length xs) \<Longrightarrow> evens (tl xs @ [0]) = odds xs"
proof (induction xs rule: odds.induct)
  case (1 a b xs)
  then show ?case by (cases xs) auto
qed auto

lemma fields_and_odds:
  assumes "even (length xs)" "\<forall>x \<in> set xs. x < 2 ^ k" "xs \<noteq> []"
  shows "fields k xs div 2 ^ k AND fields (2 * k) (replicate (length xs div 2) (2 ^ k - 1)) =
    fields (2 * k) (odds xs)"
proof -
  obtain y ys where xs: "xs = y # ys" using assms(3) by (cases xs) auto
  have "fields k xs div 2 ^ k = fields k (tl xs @ [0])"
    using assms(2) xs by (simp add: fields_snoc_0)
  moreover have "length (tl xs @ [0 :: nat]) = length xs" using xs by simp
  moreover have "\<forall>x \<in> set (tl xs @ [0]). x < 2 ^ k" using assms(2) xs by auto
  ultimately show ?thesis
    using fields_and_evens [of "tl xs @ [0]" k] assms(1) by (simp add: evens_tl)
qed

lemma fields_psum:
  "even (length xs) \<Longrightarrow> fields k (evens xs) + fields k (odds xs) = fields k (psum xs)"
proof (induction xs rule: psum.induct)
  case (1 a b xs)
  then show ?case by (simp flip: distrib_left)
qed auto

lemma fields_evens_odds:
  "even (length xs) \<Longrightarrow> fields k xs = fields (2 * k) (evens xs) + 2 ^ k * fields (2 * k) (odds xs)"
  by (induction xs rule: psum.induct) (auto simp: two_power_double distrib_left mult.assoc mult.left_commute)

lemma sum_list_psum: "even (length xs) \<Longrightarrow> sum_list (psum xs) = sum_list xs"
  by (induction xs rule: psum.induct) auto

lemma length_psum: "length (psum xs) = length xs div 2"
  by (induction xs rule: psum.induct) auto

lemma psum_bound: "\<forall>x \<in> set xs. x \<le> m \<Longrightarrow> \<forall>x \<in> set (psum xs). x \<le> 2 * m"
  by (induction xs rule: psum.induct) force+

section \<open>The fallback counts the bits\<close>

lemma fields_bits: "fields 1 (map (\<lambda>i. of_bool (bit v i)) [0 ..< n]) = take_bit n v"
proof (induction n arbitrary: v)
  case (Suc n)
  have "[0 ..< Suc n] = 0 # map Suc [0 ..< n]" by (simp add: map_Suc_upt upt_conv_Cons)
  then have "fields 1 (map (\<lambda>i. of_bool (bit v i)) [0 ..< Suc n]) =
      of_bool (odd v) + 2 * fields 1 (map (\<lambda>i. of_bool (bit (v div 2) i)) [0 ..< n])"
    by (simp add: bit_0 bit_Suc comp_def del: upt_Suc)
  also have "\<dots> = of_bool (odd v) + 2 * take_bit n (v div 2)" by (simp only: Suc)
  also have "\<dots> = take_bit (Suc n) v" by (simp add: take_bit_Suc odd_iff_mod_2_eq_one)
  finally show ?case .
qed simp

lemma psum_step:
  assumes "length xs = 2 * n" "0 < n" "\<forall>x \<in> set xs. x < 2 ^ k" "mk = fields (2 * k) (replicate n (2 ^ k - 1))"
  shows "(fields k xs AND mk) + (fields k xs div 2 ^ k AND mk) = fields (2 * k) (psum xs)"
    and "fields k xs = (fields k xs AND mk) + 2 ^ k * (fields k xs div 2 ^ k AND mk)"
proof -
  have ev: "even (length xs)" "xs \<noteq> []" "length xs div 2 = n" using assms(1,2) by auto
  have "fields k xs AND mk = fields (2 * k) (evens xs)"
    "fields k xs div 2 ^ k AND mk = fields (2 * k) (odds xs)"
    using fields_and_evens [OF ev(1) assms(3)] fields_and_odds [OF ev(1) assms(3) ev(2)] ev(3) assms(4)
    by simp_all
  then show "(fields k xs AND mk) + (fields k xs div 2 ^ k AND mk) = fields (2 * k) (psum xs)"
    and "fields k xs = (fields k xs AND mk) + 2 ^ k * (fields k xs div 2 ^ k AND mk)"
    using fields_psum [OF ev(1)] fields_evens_odds [OF ev(1)] by simp_all
qed

text \<open>The third step adds before it masks, and the fields do not overflow.\<close>

lemma fields_add: "length xs = length ys \<Longrightarrow> fields k xs + fields k ys = fields k (map2 (+) xs ys)"
  by (induction xs ys rule: list_induct2) (simp_all flip: distrib_left)

lemma evens_map2_tl: "even (length xs) \<Longrightarrow> evens (map2 (+) xs (tl xs @ [0])) = psum xs"
proof (induction xs rule: psum.induct)
  case (1 a b xs)
  then show ?case by (cases xs) auto
qed auto

lemma psum_late_mask:
  assumes "length xs = 2 * n" "0 < n" "\<forall>x \<in> set xs. 2 * x < 2 ^ k"
    "mk = fields (2 * k) (replicate n (2 ^ k - 1))"
  shows "(fields k xs + fields k xs div 2 ^ k) AND mk = fields (2 * k) (psum xs)"
proof -
  let ?ys = "map2 (+) xs (tl xs @ [0])"
  obtain y ys where xs: "xs = y # ys" using assms(1,2) by (cases xs) auto
  have "y < 2 ^ k" using assms(3) xs by auto
  then have "fields k xs div 2 ^ k = fields k (tl xs @ [0])"
    using xs by (simp add: fields_snoc_0)
  then have "fields k xs + fields k xs div 2 ^ k = fields k ?ys"
    using fields_add [of xs "tl xs @ [0]"] xs by simp
  moreover have "x < 2 ^ k" if "x \<in> set ?ys" for x
  proof -
    from that obtain a b where ab: "(a, b) \<in> set (zip xs (tl xs @ [0]))" "x = a + b" by auto
    from ab(1) have "a \<in> set xs" "b \<in> set (tl xs @ [0])"
      by (rule set_zip_leftD, rule set_zip_rightD)
    then have "2 * a < 2 ^ k" "2 * b < 2 ^ k"
      using assms(3) xs by (auto split: if_splits)
    then show ?thesis using ab(2) by simp
  qed
  moreover have "length ?ys = 2 * n" using assms(1) xs by simp
  ultimately show ?thesis
    using fields_and_evens [of ?ys k] assms(1,4) by (simp add: evens_map2_tl)
qed

lemma mul_fields_8:
  assumes "length xs = 4" "sum_list xs < 256" "\<forall>x \<in> set xs. x < 256"
  shows "fields 8 xs * 0x01010101 mod 2 ^ 32 div 2 ^ 24 = sum_list xs"
proof -
  obtain a b c d where xs: "xs = [a, b, c, d]"
    using assms(1) by (auto simp: length_Suc_conv numeral_eq_Suc)
  let ?low = "a + 256 * (a + b) + 65536 * (a + b + c)"
  let ?high = "b + c + d + 256 * (c + d) + 65536 * d"
  have eq: "fields 8 xs * 0x01010101 = (?low + 2 ^ 24 * (a + b + c + d)) + 2 ^ 32 * ?high"
    by (simp add: xs)
  have s: "a + b + c + d < 256" using assms(2) xs by simp
  then have low: "?low < 2 ^ 24" by simp
  with s have "?low + 2 ^ 24 * (a + b + c + d) < 2 ^ 32" by simp
  then have "fields 8 xs * 0x01010101 mod 2 ^ 32 = ?low + 2 ^ 24 * (a + b + c + d)"
    unfolding eq by (simp only: mod_mult_self2 mod_less)
  moreover have "(?low + 2 ^ 24 * (a + b + c + d)) div 2 ^ 24 = a + b + c + d"
    using low div_mult_self2 [of "2 ^ 24" ?low "a + b + c + d"] by (simp del: mult_2)
  ultimately show ?thesis by (simp add: xs)
qed

section \<open>The fallback counts the bits\<close>

lemma repunit_step:
  fixes x :: nat
  assumes "F * (P - 1) + x = x * Q" "0 < P"
  shows "(x + P * F) * (P - 1) + x = x * (P * Q)"
proof -
  obtain B where P: "P = Suc B" using assms(2) by (cases P) auto
  have "(x + P * F) * (P - 1) + x = P * (F * B + x)" by (simp add: P algebra_simps)
  also have "\<dots> = P * (x * Q)" using assms(1) P by simp
  finally show ?thesis by (simp add: mult.left_commute)
qed

lemma fields_replicate: "fields k (replicate n x) * (2 ^ k - 1) + x = x * 2 ^ (k * n)"
proof (induction n)
  case (Suc n)
  have "fields k (replicate (Suc n) x) = x + 2 ^ k * fields k (replicate n x)" by simp
  then show ?case using repunit_step [OF Suc] by (simp only: power_add mult_Suc_right) simp
qed simp

lemma mask_55: "0x55555555 = fields (2 * 1) (replicate 16 (2 ^ 1 - 1))"
  using fields_replicate [of 2 16 1] by simp

lemma mask_33: "0x33333333 = fields (2 * 2) (replicate 8 (2 ^ 2 - 1))"
  using fields_replicate [of 4 8 3] by simp

lemma mask_0F: "0x0F0F0F0F = fields (2 * 4) (replicate 4 (2 ^ 4 - 1))"
  using fields_replicate [of 8 4 15] by simp

lemma fields_less: "\<forall>x \<in> set xs. x < 2 ^ k \<Longrightarrow> fields k xs < 2 ^ (k * length xs)"
proof (induction xs)
  case (Cons x xs)
  then have "fields k xs + 1 \<le> 2 ^ (k * length xs)" by simp
  then have "2 ^ k * (fields k xs + 1) \<le> 2 ^ k * 2 ^ (k * length xs)" by (intro mult_left_mono) auto
  with Cons.prems show ?case by (simp add: power_add distrib_left)
qed simp

lemma popcount_sum:
  assumes len: "length bs = 32" and bnd: "\<forall>b \<in> set bs. b \<le> 1" and w: "unat w = fields 1 bs"
  shows "unat (popcount w) = sum_list bs"
proof -
  define w1 where "w1 = w - (drop_bit 1 w AND 0x55555555)"
  define w2 where "w2 = (w1 AND 0x33333333) + (drop_bit 2 w1 AND 0x33333333)"
  define p1 where "p1 = psum bs"
  define p2 where "p2 = psum p1"
  define p3 where "p3 = psum p2"
  have lens: "length p1 = 16" "length p2 = 8" "length p3 = 4"
    using len by (simp_all add: p1_def p2_def p3_def length_psum)
  have bnds: "\<forall>x \<in> set p1. x \<le> 2" "\<forall>x \<in> set p2. x \<le> 4" "\<forall>x \<in> set p3. x \<le> 8"
    using bnd psum_bound [of bs 1] psum_bound [of p1 2] psum_bound [of p2 4]
    by (simp_all add: p1_def p2_def p3_def)
  have sum: "sum_list p3 = sum_list bs"
    using len lens by (simp add: p1_def p2_def p3_def sum_list_psum length_psum)
  have b1: "\<forall>x \<in> set bs. x < 2 ^ 1" using bnd by fastforce
  have b2: "\<forall>x \<in> set p1. x < 2 ^ 2" using bnds(1) by fastforce
  have b4: "\<forall>x \<in> set p2. 2 * x < 2 ^ 4" using bnds(2) by fastforce
  have b8: "\<forall>x \<in> set p3. x < 256" using bnds(3) by fastforce
  note s1 = psum_step [of bs 16 1, OF _ _ b1 mask_55, folded p1_def]
  note s2 = psum_step [of p1 8 2, OF _ _ b2 mask_33, folded p2_def]
  have d1: "unat (drop_bit 1 w AND 0x55555555) = fields 1 bs div 2 ^ 1 AND 0x55555555"
    by (simp only: unsigned_and_eq unat_drop_bit_eq w) (simp add: drop_bit_eq_div)
  have "unat w1 = fields 1 bs - (fields 1 bs div 2 ^ 1 AND 0x55555555)"
    using s1(2) len d1 w by (simp add: w1_def unat_sub word_le_nat_alt)
  then have u1: "unat w1 = fields 2 p1"
    using s1 len by simp
  have "unat (w1 AND 0x33333333) + unat (drop_bit 2 w1 AND 0x33333333) = fields 4 p2"
    using s2(1) lens by (simp only: unsigned_and_eq unat_drop_bit_eq u1) (simp add: drop_bit_eq_div)
  moreover have "\<forall>x \<in> set p2. x < 2 ^ 4" using bnds(2) by fastforce
  then have "fields 4 p2 < 2 ^ 32" using fields_less [of p2 4] lens by simp
  ultimately have u2: "unat w2 = fields 4 p2" by (simp add: w2_def unat_word_ariths)
  have "p2 \<noteq> []" using lens by auto
  have e: "even (length p2)" using lens by simp
  have v: "(fields 4 p2 + fields 4 p2 div 2 ^ 4) AND 0x0F0F0F0F = fields 8 p3"
    using psum_late_mask [of p2 4 4, OF _ _ b4 mask_0F] lens by (simp add: p3_def)
  have "fields 4 p2 div 2 ^ 4 < 2 ^ 28"
    using \<open>fields 4 p2 < 2 ^ 32\<close> by (intro less_mult_imp_div_less) simp
  moreover have "fields 4 p2 < 2 ^ 31"
  proof -
    obtain a b c d e f g h where p2: "p2 = [a, b, c, d, e, f, g, h]"
      using lens(2) by (auto simp: length_Suc_conv numeral_eq_Suc)
    with bnds(2) show ?thesis by simp
  qed
  ultimately have "fields 4 p2 + fields 4 p2 div 2 ^ 4 < 2 ^ 32" by simp
  then have "unat (w2 + drop_bit 4 w2) = fields 4 p2 + fields 4 p2 div 2 ^ 4"
    by (simp only: unat_word_ariths unat_drop_bit_eq u2) (simp add: drop_bit_eq_div)
  then have u3: "unat ((w2 + drop_bit 4 w2) AND 0x0F0F0F0F) = fields 8 p3"
    using v by (simp only: unsigned_and_eq) simp
  have "sum_list p3 \<le> 32"
  proof -
    obtain a b c d where p3: "p3 = [a, b, c, d]"
      using lens(3) by (auto simp: length_Suc_conv numeral_eq_Suc)
    with bnds(3) show ?thesis by simp
  qed
  then have "fields 8 p3 * 0x01010101 mod 2 ^ 32 div 2 ^ 24 = sum_list p3"
    by (intro mul_fields_8 lens b8) simp
  moreover have "unat (popcount w) = fields 8 p3 * 0x01010101 mod 2 ^ 32 div 2 ^ 24"
    unfolding popcount_def Let_def w1_def [symmetric] w2_def [symmetric]
    by (simp only: unat_drop_bit_eq unat_word_ariths u3) (simp add: drop_bit_eq_div)
  ultimately show ?thesis using sum by simp
qed

lemma sum_list_bits: "sum_list (map (\<lambda>i. of_bool (bit v i)) [0 ..< n]) = card {k. k < n \<and> bit v k}"
proof -
  have "sum_list (map (\<lambda>i. of_bool (bit v i)) [0 ..< n]) = (\<Sum>i \<in> {0 ..< n}. of_bool (bit v i) :: nat)"
    by (simp add: interv_sum_list_conv_sum_set_nat)
  also have "\<dots> = card {k. k < n \<and> bit v k}"
    by (simp add: sum.If_cases of_bool_def Int_def conj_commute)
  finally show ?thesis .
qed

lemma popcount32_correct: "popcount_correct 4 popcount32_nat"
  unfolding popcount_correct_def
proof (intro allI impI)
  fix v :: nat assume v: "v < 256 ^ 4"
  let ?bs = "map (\<lambda>i. of_bool (bit v i)) [0 ..< 32] :: nat list"
  have tb: "take_bit 32 v = v" using v by (simp add: take_bit_nat_eq_self)
  have "unat (of_nat v :: u32) = fields 1 ?bs"
    using v by (simp only: fields_bits tb) (simp add: unat_of_nat)
  then have "popcount32_nat v = sum_list ?bs"
    unfolding popcount32_nat_def by (intro popcount_sum) auto
  also have "\<dots> = card {k. k < 32 \<and> bit v k}" by (rule sum_list_bits)
  also have "{k. k < 32 \<and> bit v k} = {k. bit v k}"
    using tb bit_take_bit_iff [of 32 v] by auto
  finally show "popcount32_nat v = card {k. bit v k}" .
qed

lemma popcountll_correct: "popcount_correct 8 builtin_popcountll"
  unfolding popcount_correct_def
proof (intro allI impI)
  fix v :: nat assume v: "v < 256 ^ 8"
  have "take_bit 64 v = v" using v by (simp add: take_bit_nat_eq_self)
  then have "{k. bit v k} = set (filter (bit v) [0 ..< 64])"
    using bit_take_bit_iff [of 64 v] by auto
  then show "builtin_popcountll v = card {k. bit v k}"
    unfolding builtin_popcountll_def by (metis distinct_card distinct_filter distinct_upt)
qed

end
