(* ===== verification/Bitset.thy ===== *)
theory Bitset
  imports Popcount
begin

text \<open>
  Bit sets (\<open>src/include/bitset.h\<close>): a fixed number of bits, kept in two machine words inside
  the structure when they fit and in an allocated byte slice otherwise. Byte slices and bit sets
  offer the same operations on single bits; the locale \<open>bit_store\<close> states that contract once
  and is interpreted on both.
\<close>

section \<open>The contract of a store of bits\<close>

locale bit_store =
  fixes wf :: "'s \<Rightarrow> bool"
    and nbits :: "'s \<Rightarrow> nat"
    and ones :: "'s \<Rightarrow> nat set"
    and set_bit :: "'s \<Rightarrow> nat \<Rightarrow> 's option"
    and unset_bit :: "'s \<Rightarrow> nat \<Rightarrow> 's option"
    and is_set :: "'s \<Rightarrow> nat \<Rightarrow> bool option"
  assumes set_bit: "wf s \<Longrightarrow> i < nbits s \<Longrightarrow>
      \<exists>s'. set_bit s i = Some s' \<and> wf s' \<and> nbits s' = nbits s \<and> ones s' = insert i (ones s)"
    and unset_bit: "wf s \<Longrightarrow> i < nbits s \<Longrightarrow>
      \<exists>s'. unset_bit s i = Some s' \<and> wf s' \<and> nbits s' = nbits s \<and> ones s' = ones s - {i}"
    and is_set: "wf s \<Longrightarrow> i < nbits s \<Longrightarrow> is_set s i = Some (i \<in> ones s)"
    and out_of_range: "wf s \<Longrightarrow> nbits s \<le> i \<Longrightarrow>
      set_bit s i = None \<and> unset_bit s i = None \<and> is_set s i = None"
begin

lemma is_set_set_bit:
  assumes "wf s" "i < nbits s" "set_bit s i = Some s'" "j < nbits s"
  shows "is_set s' j = Some (i = j \<or> j \<in> ones s)"
  using assms set_bit [of s i] is_set [of s' j] by auto

lemma is_set_unset_bit:
  assumes "wf s" "i < nbits s" "unset_bit s i = Some s'" "j < nbits s"
  shows "is_set s' j = Some (i \<noteq> j \<and> j \<in> ones s)"
  using assms unset_bit [of s i] is_set [of s' j] by auto

lemma defined_iff: "wf s \<Longrightarrow> (\<exists>s'. set_bit s i = Some s') \<longleftrightarrow> i < nbits s"
  using set_bit [of s i] out_of_range [of s i] by (cases "i < nbits s") auto

end

interpretation slice_bits: bit_store "\<lambda>s. True" "\<lambda>s. 8 * length s" bits_of byte_slice_set_bit
    byte_slice_unset_bit byte_slice_bit_is_set
  by unfold_locales
    (auto dest: byte_slice_set_bit_eq byte_slice_unset_bit_eq
      simp: byte_slice_bit_is_set_eq byte_slice_bit_None)

section \<open>Bit sets\<close>

text \<open>
  The field \<open>repr\<close> is a union. \<open>Ints\<close> holds the two \<open>size_t\<close> words as the 16 bytes they
  occupy, \<open>Heap\<close> the allocated byte slice; reading the member that is not the stored one is
  undefined (\<open>None\<close>).
\<close>

datatype bitset_repr = Ints bytes | Heap bytes

record bitset =
  bs_num_bits :: nat
  bs_repr :: bitset_repr

definition bitset_using_byte_slice :: "bitset \<Rightarrow> bool" where
  "bitset_using_byte_slice bset \<longleftrightarrow> bs_num_bits bset > 128"

definition bitset_as_byte_slice :: "bitset \<Rightarrow> bytes option" where
  "bitset_as_byte_slice bset =
     (if bitset_using_byte_slice bset
      then (case bs_repr bset of Heap s \<Rightarrow> Some s | Ints _ \<Rightarrow> None)
      else (case bs_repr bset of Ints s \<Rightarrow> Some s | Heap _ \<Rightarrow> None))"

text \<open>What a write through the slice of a bit set does to the bit set.\<close>

definition bitset_write :: "bitset \<Rightarrow> bytes \<Rightarrow> bitset" where
  "bitset_write bset s =
     bset\<lparr>bs_repr := (if bitset_using_byte_slice bset then Heap s else Ints s)\<rparr>"

text \<open>A failed allocation ends the process through \<open>log_passert\<close>.\<close>

definition bitset_create :: "bool \<Rightarrow> nat \<Rightarrow> bitset option" where
  "bitset_create alloc_ok num_bits =
     (if num_bits > 128 then do {
        c_assert alloc_ok;
        Some \<lparr>bs_num_bits = num_bits, bs_repr = Heap (replicate ((num_bits + 7) mod 2 ^ 64 div 8) 0)\<rparr>
      }
      else Some \<lparr>bs_num_bits = num_bits, bs_repr = Ints (replicate 16 0)\<rparr>)"

definition bitset_destroy :: "bitset \<Rightarrow> bitset" where
  "bitset_destroy bset =
     (if bitset_using_byte_slice bset then bset\<lparr>bs_repr := Heap []\<rparr>
      else bset\<lparr>bs_repr := Ints (replicate 16 0)\<rparr>)\<lparr>bs_num_bits := 0\<rparr>"

definition bitset_clear :: "bitset \<Rightarrow> bitset option" where
  "bitset_clear bset = do {
     s \<leftarrow> bitset_as_byte_slice bset;
     Some (bitset_write bset (byte_slice_clear s))
   }"

definition bitset_set_bit :: "bitset \<Rightarrow> nat \<Rightarrow> bitset option" where
  "bitset_set_bit bset idx = do {
     c_assert (idx < bs_num_bits bset);
     s \<leftarrow> bitset_as_byte_slice bset;
     s' \<leftarrow> byte_slice_set_bit s idx;
     Some (bitset_write bset s')
   }"

definition bitset_unset_bit :: "bitset \<Rightarrow> nat \<Rightarrow> bitset option" where
  "bitset_unset_bit bset idx = do {
     c_assert (idx < bs_num_bits bset);
     s \<leftarrow> bitset_as_byte_slice bset;
     s' \<leftarrow> byte_slice_unset_bit s idx;
     Some (bitset_write bset s')
   }"

definition bitset_bit_is_set :: "bitset \<Rightarrow> nat \<Rightarrow> bool option" where
  "bitset_bit_is_set bset idx = do {
     c_assert (idx < bs_num_bits bset);
     s \<leftarrow> bitset_as_byte_slice bset;
     byte_slice_bit_is_set s idx
   }"

text \<open>The address of each bset's bytes decides how the bitwise operations align.\<close>

definition bitset_bitwise_or :: "nat \<Rightarrow> bitset \<Rightarrow> nat \<Rightarrow> bitset \<Rightarrow> bitset option" where
  "bitset_bitwise_or taddr target oaddr other = do {
     c_assert (bs_num_bits target = bs_num_bits other);
     t \<leftarrow> bitset_as_byte_slice target;
     p \<leftarrow> bitset_as_byte_slice other;
     t' \<leftarrow> byte_slice_bitwise_or taddr t oaddr p;
     Some (bitset_write target t')
   }"

definition bitset_bitwise_and :: "nat \<Rightarrow> bitset \<Rightarrow> nat \<Rightarrow> bitset \<Rightarrow> bitset option" where
  "bitset_bitwise_and taddr target oaddr other = do {
     c_assert (bs_num_bits target = bs_num_bits other);
     t \<leftarrow> bitset_as_byte_slice target;
     p \<leftarrow> bitset_as_byte_slice other;
     t' \<leftarrow> byte_slice_bitwise_and taddr t oaddr p;
     Some (bitset_write target t')
   }"

definition bitset_popcount :: "nat \<Rightarrow> (nat \<Rightarrow> nat) \<Rightarrow> nat \<Rightarrow> bitset \<Rightarrow> nat option" where
  "bitset_popcount n pc addr bset = do {
     s \<leftarrow> bitset_as_byte_slice bset;
     byte_slice_popcount n pc addr s
   }"

section \<open>Bit sets keep sets of numbers\<close>

definition bitset_bytes :: "bitset \<Rightarrow> bytes" where
  "bitset_bytes bset = (case bs_repr bset of Ints s \<Rightarrow> s | Heap s \<Rightarrow> s)"

definition bitset_ones :: "bitset \<Rightarrow> nat set" where
  "bitset_ones bset = bits_of (bitset_bytes bset)"

definition bitset_wf :: "bitset \<Rightarrow> bool" where
  "bitset_wf bset \<longleftrightarrow> bs_num_bits bset < 2 ^ 64 - 7 \<and>
     bs_repr bset = (if bs_num_bits bset > 128 then Heap (bitset_bytes bset) else Ints (bitset_bytes bset)) \<and>
     length (bitset_bytes bset) = (if bs_num_bits bset > 128 then (bs_num_bits bset + 7) div 8 else 16) \<and>
     bitset_ones bset \<subseteq> {..<bs_num_bits bset}"

lemma bitset_as_byte_slice_wf:
  assumes "bitset_wf bset"
  shows "bitset_as_byte_slice bset = Some (bitset_bytes bset)"
proof -
  have "bs_repr bset = (if bs_num_bits bset > 128 then Heap (bitset_bytes bset) else Ints (bitset_bytes bset))"
    using assms by (simp add: bitset_wf_def)
  then show ?thesis by (auto simp: bitset_as_byte_slice_def bitset_using_byte_slice_def split: if_splits)
qed

lemma bitset_write_bytes [simp]: "bitset_bytes (bitset_write bset s) = s"
  by (simp add: bitset_write_def bitset_bytes_def)

lemma bitset_write_num_bits [simp]: "bs_num_bits (bitset_write bset s) = bs_num_bits bset"
  by (simp add: bitset_write_def)

lemma bitset_write_wf:
  "bitset_wf bset \<Longrightarrow> length s = length (bitset_bytes bset) \<Longrightarrow> bits_of s \<subseteq> {..<bs_num_bits bset} \<Longrightarrow>
    bitset_wf (bitset_write bset s)"
  by (simp add: bitset_wf_def bitset_ones_def) (simp add: bitset_write_def bitset_using_byte_slice_def)

lemma bitset_room: "bitset_wf bset \<Longrightarrow> i < bs_num_bits bset \<Longrightarrow> i < 8 * length (bitset_bytes bset)"
  by (auto simp: bitset_wf_def split: if_splits)

lemma bitset_create_wf:
  assumes "num_bits < 2 ^ 64 - 7" "alloc_ok"
  shows "\<exists>bset. bitset_create alloc_ok num_bits = Some bset \<and> bitset_wf bset \<and>
    bs_num_bits bset = num_bits \<and> bitset_ones bset = {}"
proof -
  have z: "bits_of (replicate n 0) = {}" for n
    by (auto simp: bits_of_def bit_at_def)
  show ?thesis
    using assms
    by (simp add: bitset_create_def bitset_wf_def bitset_ones_def bitset_bytes_def z)
qed

interpretation bitset_bits: bit_store bitset_wf bs_num_bits bitset_ones bitset_set_bit bitset_unset_bit
    bitset_bit_is_set
proof unfold_locales
  fix s i assume wf: "bitset_wf s" and i: "i < bs_num_bits s"
  note room = bitset_room [OF wf i]
  have sub: "bits_of (bitset_bytes s) \<subseteq> {..<bs_num_bits s}"
    using wf by (simp add: bitset_wf_def bitset_ones_def)
  from byte_slice_set_bit_eq [OF room] obtain t where t: "byte_slice_set_bit (bitset_bytes s) i = Some t"
    "length t = length (bitset_bytes s)" "bits_of t = insert i (bits_of (bitset_bytes s))" by blast
  have "bitset_wf (bitset_write s t)" using wf t sub i by (intro bitset_write_wf) auto
  with t show "\<exists>s'. bitset_set_bit s i = Some s' \<and> bitset_wf s' \<and> bs_num_bits s' = bs_num_bits s \<and>
      bitset_ones s' = insert i (bitset_ones s)"
    using wf i by (simp add: bitset_set_bit_def bitset_as_byte_slice_wf bitset_ones_def)
  from byte_slice_unset_bit_eq [OF room] obtain t where t: "byte_slice_unset_bit (bitset_bytes s) i = Some t"
    "length t = length (bitset_bytes s)" "bits_of t = bits_of (bitset_bytes s) - {i}" by blast
  have "bitset_wf (bitset_write s t)" using wf t sub i by (intro bitset_write_wf) auto
  with t show "\<exists>s'. bitset_unset_bit s i = Some s' \<and> bitset_wf s' \<and> bs_num_bits s' = bs_num_bits s \<and>
      bitset_ones s' = bitset_ones s - {i}"
    using wf i by (simp add: bitset_unset_bit_def bitset_as_byte_slice_wf bitset_ones_def)
  show "bitset_bit_is_set s i = Some (i \<in> bitset_ones s)"
    using wf i room
    by (simp add: bitset_bit_is_set_def bitset_as_byte_slice_wf bitset_ones_def byte_slice_bit_is_set_eq)
next
  fix s i assume "bitset_wf s" "bs_num_bits s \<le> i"
  then show "bitset_set_bit s i = None \<and> bitset_unset_bit s i = None \<and> bitset_bit_is_set s i = None"
    by (simp add: bitset_set_bit_def bitset_unset_bit_def bitset_bit_is_set_def)
qed

lemma bitset_clear_eq:
  assumes "bitset_wf bset"
  shows "\<exists>bset'. bitset_clear bset = Some bset' \<and> bitset_wf bset' \<and> bs_num_bits bset' = bs_num_bits bset \<and>
    bitset_ones bset' = {}"
proof -
  have "bitset_wf (bitset_write bset (byte_slice_clear (bitset_bytes bset)))"
    using assms by (intro bitset_write_wf) auto
  with assms show ?thesis
    by (simp add: bitset_clear_def bitset_as_byte_slice_wf bitset_ones_def)
qed

lemma bitset_bitwise_or_eq:
  assumes "bitset_wf target" "bitset_wf other" "bs_num_bits target = bs_num_bits other"
    "taddr mod 8 = oaddr mod 8"
  shows "\<exists>t. bitset_bitwise_or taddr target oaddr other = Some t \<and> bitset_wf t \<and>
    bs_num_bits t = bs_num_bits target \<and> bitset_ones t = bitset_ones target \<union> bitset_ones other"
proof -
  from byte_slice_bitwise_or_eq [OF assms(4), of "bitset_bytes target" "bitset_bytes other"]
  obtain s where s: "byte_slice_bitwise_or taddr (bitset_bytes target) oaddr (bitset_bytes other) = Some s"
    "length s = length (bitset_bytes target)"
    "bits_of s = bits_of (bitset_bytes target) \<union>
      {i \<in> bits_of (bitset_bytes other). i < 8 * length (bitset_bytes target)}" by blast
  have sub: "bits_of (bitset_bytes target) \<subseteq> {..<bs_num_bits target}"
    "bits_of (bitset_bytes other) \<subseteq> {..<bs_num_bits target}"
    using assms by (simp_all add: bitset_wf_def bitset_ones_def)
  then have u: "bits_of s = bits_of (bitset_bytes target) \<union> bits_of (bitset_bytes other)"
    using s(3) bitset_room [OF assms(1)] by auto
  with s sub have "bitset_wf (bitset_write target s)"
    using assms(1) by (intro bitset_write_wf) auto
  with s u assms show ?thesis
    by (simp add: bitset_bitwise_or_def bitset_as_byte_slice_wf bitset_ones_def)
qed

lemma bitset_bitwise_and_eq:
  assumes "bitset_wf target" "bitset_wf other" "bs_num_bits target = bs_num_bits other"
    "taddr mod 8 = oaddr mod 8"
  shows "\<exists>t. bitset_bitwise_and taddr target oaddr other = Some t \<and> bitset_wf t \<and>
    bs_num_bits t = bs_num_bits target \<and> bitset_ones t = bitset_ones target \<inter> bitset_ones other"
proof -
  have "length (bitset_bytes other) = length (bitset_bytes target)"
    using assms by (simp add: bitset_wf_def split: if_splits)
  from byte_slice_bitwise_and_eq [OF assms(4) this]
  obtain s where s: "byte_slice_bitwise_and taddr (bitset_bytes target) oaddr (bitset_bytes other) = Some s"
    "length s = length (bitset_bytes target)"
    "bits_of s = bits_of (bitset_bytes target) \<inter> bits_of (bitset_bytes other)" by blast
  have "bits_of (bitset_bytes target) \<subseteq> {..<bs_num_bits target}"
    using assms by (simp add: bitset_wf_def bitset_ones_def)
  with s have "bitset_wf (bitset_write target s)"
    using assms(1) by (intro bitset_write_wf) auto
  with s assms show ?thesis
    by (simp add: bitset_bitwise_and_def bitset_as_byte_slice_wf bitset_ones_def)
qed

lemma bitset_popcount_eq:
  assumes "bitset_wf bset" "0 < n" "popcount_correct n pc"
    "length (bitset_bytes bset) \<le> (2 ^ 64 - 1) div 8"
  shows "bitset_popcount n pc addr bset = Some (card (bitset_ones bset))"
  using assms byte_slice_popcount_eq [of n pc "bitset_bytes bset" addr]
  by (simp add: bitset_popcount_def bitset_as_byte_slice_wf bitset_ones_def)

end
