(* ===== verification/Bloom.thy ===== *)
theory Bloom
  imports Bloom_Offsets Bitset Complex_Main
begin

text \<open>
  Bloom filters (\<open>src/src/bloom.c\<close>): adding a hash, asking for a hash, the number of bits set
  and the approximate number of hashes. What a user of a filter may rely on is the locale
  \<open>membership_filter\<close>: a hash that was added is found, whatever else was added before or after,
  and the union of two filters finds what either finds.
\<close>

section \<open>The code\<close>

definition bloom_set :: "bytes \<Rightarrow> bytes \<Rightarrow> nat \<Rightarrow> bytes option" where
  "bloom_set flt hash num_bits = do {
     bit_offsets \<leftarrow> bloom_determine_offsets num_bits (length flt) hash;
     byte_slice_set_bits flt bit_offsets
   }"

definition bloom_is_set :: "bytes \<Rightarrow> bytes \<Rightarrow> nat \<Rightarrow> bool option" where
  "bloom_is_set flt hash num_bits = do {
     bit_offsets \<leftarrow> bloom_determine_offsets num_bits (length flt) hash;
     byte_slice_all_bits_set flt bit_offsets
   }"

definition bloom_nr_bits_set :: "nat \<Rightarrow> (nat \<Rightarrow> nat) \<Rightarrow> nat \<Rightarrow> bytes \<Rightarrow> nat option" where
  "bloom_nr_bits_set n pc addr flt = byte_slice_popcount n pc addr flt"

text \<open>
  The estimate is computed in floating point; the model uses real numbers, and truncates a
  negative or too large value to the range of \<open>uint32_t\<close> with the wrap-around of the conversion.
\<close>

definition bloom_approx_count :: "nat \<Rightarrow> nat \<Rightarrow> nat \<Rightarrow> u32" where
  "bloom_approx_count filtersize num_bits bits_set =
     (let m = real (filtersize * 8);
          k = real num_bits;
          X = real bits_set
      in if m = X then 0xFFFFFFFF
         else of_int (round (- (m / k) * ln (1 - X / m))))"

section \<open>The contract of a membership filter\<close>

locale membership_filter =
  fixes wf :: "'f \<Rightarrow> bool"
    and valid :: "'f \<Rightarrow> 'h \<Rightarrow> bool"
    and ones :: "'f \<Rightarrow> nat set"
    and size :: "'f \<Rightarrow> nat"
    and offs :: "nat \<Rightarrow> 'h \<Rightarrow> nat set"
    and add :: "'f \<Rightarrow> 'h \<Rightarrow> 'f option"
    and query :: "'f \<Rightarrow> 'h \<Rightarrow> bool option"
  assumes add: "wf f \<Longrightarrow> valid f h \<Longrightarrow>
      \<exists>f'. add f h = Some f' \<and> wf f' \<and> size f' = size f \<and> ones f' = ones f \<union> offs (size f) h"
    and query: "wf f \<Longrightarrow> valid f h \<Longrightarrow> query f h = Some (offs (size f) h \<subseteq> ones f)"
    and valid_size: "size f' = size f \<Longrightarrow> valid f' h = valid f h"
begin

lemma no_false_negative:
  "wf f \<Longrightarrow> valid f h \<Longrightarrow> add f h = Some f' \<Longrightarrow> query f' h = Some True"
  using add [of f h] query [of f' h] valid_size [of f' f h] by auto

lemma query_stable:
  "wf f \<Longrightarrow> valid f h \<Longrightarrow> valid f h' \<Longrightarrow> query f h = Some True \<Longrightarrow> add f h' = Some f' \<Longrightarrow>
    query f' h = Some True"
  using add [of f h'] query [of f h] query [of f' h] valid_size [of f' f h] by auto

fun add_all :: "'f \<Rightarrow> 'h list \<Rightarrow> 'f option" where
  "add_all f [] = Some f"
| "add_all f (h # hs) = add f h \<bind> (\<lambda>f'. add_all f' hs)"

lemma add_all_spec:
  "wf f \<Longrightarrow> \<forall>h \<in> set hs. valid f h \<Longrightarrow>
    \<exists>f'. add_all f hs = Some f' \<and> wf f' \<and> size f' = size f \<and>
      ones f' = ones f \<union> (\<Union>h \<in> set hs. offs (size f) h)"
proof (induction hs arbitrary: f)
  case (Cons h hs)
  obtain g where g: "add f h = Some g" "wf g" "size g = size f" "ones g = ones f \<union> offs (size f) h"
    using Cons.prems add [of f h] by auto
  have "\<forall>k \<in> set hs. valid g k" using Cons.prems g(3) valid_size [of g f] by auto
  with Cons.IH [OF g(2)] g show ?case by auto
qed auto

lemma add_all_query:
  assumes "wf f" "\<forall>h \<in> set hs. valid f h" "add_all f hs = Some f'" "h \<in> set hs"
  shows "query f' h = Some True"
  using add_all_spec [OF assms(1,2)] assms(2-4) query [of f' h] valid_size [of f' f h] by auto

lemma add_all_query_iff:
  assumes "wf f" "ones f = {}" "\<forall>h \<in> set hs. valid f h" "add_all f hs = Some f'" "valid f h"
  shows "query f' h = Some (offs (size f) h \<subseteq> (\<Union>k \<in> set hs. offs (size f) k))"
  using add_all_spec [OF assms(1,3)] assms query [of f' h] valid_size [of f' f h] by auto

lemma union_query:
  assumes "wf f" "wf g" "wf u" "size f = size u" "size g = size u" "ones u = ones f \<union> ones g"
    "valid u h" "query f h = Some True \<or> query g h = Some True"
  shows "query u h = Some True"
  using assms query [of f h] query [of g h] query [of u h] valid_size [of f u h] valid_size [of g u h]
  by auto

end

section \<open>Bloom filters are membership filters\<close>

text \<open>
  \<open>bloom_bits k n hash\<close> is the set of the bits that a hash sets in a filter of \<open>n\<close> bytes. When
  more bits are asked for than the filter has, the unused entries of the array of offsets are
  zero; all bits are then set already.
\<close>

definition bloom_bits :: "nat \<Rightarrow> nat \<Rightarrow> bytes \<Rightarrow> nat set" where
  "bloom_bits k n hash =
     (case bloom_determine_offsets k n hash of Some offs \<Rightarrow> set offs | None \<Rightarrow> {})"

definition hash_ok :: "bytes \<Rightarrow> bool" where
  "hash_ok hash \<longleftrightarrow> hash \<noteq> [] \<and> length hash mod 4 = 0"

lemma distinct_below_card:
  assumes "distinct xs" "length xs = n" "\<forall>x \<in> set xs. x < n"
  shows "set xs = {..<n}"
proof (rule card_subset_eq)
  show "set xs \<subseteq> {..<n}" using assms(3) by auto
  show "card (set xs) = card {..<n}" using assms(1,2) by (simp add: distinct_card)
qed simp

lemma bloom_offsets:
  assumes "1 \<le> n" "n < 2 ^ 29" "1 \<le> k" "hash_ok hash"
  shows "\<exists>offs. bloom_determine_offsets k n hash = Some offs \<and> (\<forall>b \<in> set offs. b < 8 * n) \<and>
    card (set offs) = min k (8 * n)"
proof -
  have h: "hash \<noteq> []" "length hash mod 4 = 0" using assms(4) by (simp_all add: hash_ok_def)
  obtain offs where o: "bloom_determine_offsets k n hash = Some (offs @ replicate (k - 8 * n) 0)"
    "length offs = min k (8 * n)" "sorted_wrt (<) offs" "\<forall>x \<in> set offs. x < 8 * n"
    using bloom_determine_offsets_spec [OF assms(1-3) h] by (elim exE conjE)
  have d: "distinct offs" using o(3) by (simp add: strict_sorted_iff)
  have u: "set (offs @ replicate (k - 8 * n) 0) = set offs"
  proof (cases "8 * n < k")
    case True
    then have "length offs = 8 * n" using o(2) by simp
    then have "set offs = {..<8 * n}" using d o(4) by (intro distinct_below_card)
    moreover have "set (replicate (k - 8 * n) 0) \<subseteq> {..<8 * n}" using assms(1) by auto
    ultimately show ?thesis by auto
  next
    case False
    then show ?thesis by simp
  qed
  have "card (set offs) = min k (8 * n)" using distinct_card [OF d] o(2) by simp
  then show ?thesis
    using o(4) unfolding o(1) option.inject u [symmetric] by blast
qed

definition bloom_wf :: "nat \<Rightarrow> bytes \<Rightarrow> bool" where
  "bloom_wf k flt \<longleftrightarrow> 1 \<le> length flt \<and> length flt < 2 ^ 29 \<and> 1 \<le> k"

lemma bloom_set_eq:
  assumes "bloom_wf k flt" "hash_ok hash"
  shows "\<exists>f'. bloom_set flt hash k = Some f' \<and> length f' = length flt \<and>
    bits_of f' = bits_of flt \<union> bloom_bits k (length flt) hash"
proof -
  obtain offs where "bloom_determine_offsets k (length flt) hash = Some offs"
    "\<forall>b \<in> set offs. b < 8 * length flt"
    using bloom_offsets [of "length flt" k hash] assms unfolding bloom_wf_def by blast
  then show ?thesis
    using byte_slice_set_bits_eq [of offs flt] by (auto simp: bloom_set_def bloom_bits_def)
qed

lemma bloom_is_set_eq:
  assumes "bloom_wf k flt" "hash_ok hash"
  shows "bloom_is_set flt hash k = Some (bloom_bits k (length flt) hash \<subseteq> bits_of flt)"
proof -
  obtain offs where "bloom_determine_offsets k (length flt) hash = Some offs"
    "\<forall>b \<in> set offs. b < 8 * length flt"
    using bloom_offsets [of "length flt" k hash] assms unfolding bloom_wf_def by blast
  then show ?thesis
    using byte_slice_all_bits_set_eq [of offs flt]
    by (simp add: bloom_is_set_def bloom_bits_def)
qed

interpretation bloom: membership_filter "bloom_wf k" "\<lambda>f. hash_ok" bits_of length "bloom_bits k"
    "\<lambda>f h. bloom_set f h k" "\<lambda>f h. bloom_is_set f h k" for k
proof unfold_locales
  fix f h assume wf: "bloom_wf k f" and h: "hash_ok h"
  show "\<exists>f'. bloom_set f h k = Some f' \<and> bloom_wf k f' \<and> length f' = length f \<and>
      bits_of f' = bits_of f \<union> bloom_bits k (length f) h"
    using bloom_set_eq [OF wf h] wf by (auto simp: bloom_wf_def)
  show "bloom_is_set f h k = Some (bloom_bits k (length f) h \<subseteq> bits_of f)"
    by (rule bloom_is_set_eq [OF wf h])
qed simp

lemma card_bloom_bits:
  "bloom_wf k flt \<Longrightarrow> hash_ok hash \<Longrightarrow>
    card (bloom_bits k (length flt) hash) = min k (8 * length flt)"
  using bloom_offsets [of "length flt" k hash] by (auto simp: bloom_wf_def bloom_bits_def)

lemma bloom_nr_bits_set_eq:
  assumes "0 < n" "popcount_correct n pc" "bloom_wf k flt"
  shows "bloom_nr_bits_set n pc addr flt = Some (card (bits_of flt))"
  using assms by (simp add: bloom_nr_bits_set_def byte_slice_popcount_eq bloom_wf_def)

text \<open>The estimate of an empty filter is zero, that of a full one the largest value.\<close>

lemma bloom_approx_count_empty: "0 < filtersize \<Longrightarrow> bloom_approx_count filtersize k 0 = 0"
  by (simp add: bloom_approx_count_def Let_def)

lemma bloom_approx_count_full: "bloom_approx_count filtersize k (8 * filtersize) = 0xFFFFFFFF"
  by (simp add: bloom_approx_count_def Let_def)

text \<open>The estimate before rounding grows with the number of bits.\<close>

lemma bloom_estimate_mono:
  fixes m k X Y :: real
  assumes "0 < m" "0 < k" "X \<le> Y" "Y < m"
  shows "- (m / k) * ln (1 - X / m) \<le> - (m / k) * ln (1 - Y / m)"
proof -
  have "1 - Y / m \<le> 1 - X / m" "0 < 1 - Y / m"
    using assms by (simp_all add: divide_right_mono)
  then have "ln (1 - Y / m) \<le> ln (1 - X / m)" by simp
  then have "(m / k) * ln (1 - Y / m) \<le> (m / k) * ln (1 - X / m)"
    using assms by (intro mult_left_mono) auto
  then show ?thesis by simp
qed

text \<open>A filter after any number of calls of \<open>bloom_set\<close>.\<close>

fun bloom_set_all :: "nat \<Rightarrow> bytes \<Rightarrow> bytes list \<Rightarrow> bytes option" where
  "bloom_set_all k flt [] = Some flt"
| "bloom_set_all k flt (h # hs) = (case bloom_set flt h k of None \<Rightarrow> None | Some f \<Rightarrow> bloom_set_all k f hs)"

lemma bloom_set_all_add_all: "bloom_set_all k flt hs = bloom.add_all k flt hs"
  by (induction hs arbitrary: flt) (auto split: option.splits)

lemma bloom_set_all_eq:
  assumes "bloom_wf k flt" "\<forall>h \<in> set hs. hash_ok h"
  shows "\<exists>f'. bloom_set_all k flt hs = Some f' \<and> bloom_wf k f' \<and> length f' = length flt \<and>
    bits_of f' = bits_of flt \<union> (\<Union>h \<in> set hs. bloom_bits k (length flt) h)"
  using bloom.add_all_spec [OF assms] unfolding bloom_set_all_add_all by blast

end
