(* ===== verification/Combinations.thy ===== *)
theory Combinations
  imports Honas_Base
begin

text \<open>
  Combinations (\<open>src/src/combinations.c\<close>): the number of subsets of a given size, computed in
  32-bit arithmetic, and the n-th subset in lexicographic order, found by stepping from one
  subset to the next. A host name is registered in the filters that the combination selected by
  the client names, so the map from numbers to combinations has to be a bijection.
\<close>

section \<open>The number of combinations\<close>

text \<open>
  The recursion ends for all arguments: a set smaller than the subset shrinks until its size
  wraps around to the largest value.
\<close>

lemma unat_minus_1: "x \<noteq> 0 \<Longrightarrow> unat (x - 1 :: u32) = unat x - 1"
  by (simp add: unat_minus_one)

lemma u32_minus_1_wrap: "unat (0 - 1 :: u32) = 4294967295"
  by (simp add: unsigned_minus_1_eq_mask mask_eq_exp_minus_1)

function number_of_combinations :: "u32 \<Rightarrow> u32 \<Rightarrow> u32" where
  "number_of_combinations set_size subset_size =
     (if subset_size = 0 \<or> subset_size = set_size then 1
      else if subset_size = 1 then set_size
      else number_of_combinations (set_size - 1) subset_size
         + number_of_combinations (set_size - 1) (subset_size - 1))"
  by pat_completeness auto

termination
proof (relation "measures [\<lambda>(n, k). if unat n < unat k then 1 else 0, \<lambda>(n, k). unat n]",
    goal_cases)
  case (2 n k)
  then have k: "k \<noteq> 0" "k \<noteq> n" by simp_all
  then have ne: "unat k \<noteq> unat n" by (simp add: word_unat_eq_iff)
  show ?case
  proof (cases "n = 0")
    case True
    have "unat k \<le> 4294967295" using unat_u32_le .
    with True k show ?thesis using u32_minus_1_wrap by (simp add: unat_gt_0)
  next
    case False
    then show ?thesis using ne unat_gt_0 [of n] by (auto simp: unat_minus_1)
  qed
next
  case (3 n k)
  then have k: "k \<noteq> 0" "k \<noteq> n" by simp_all
  then have ne: "unat k \<noteq> unat n" by (simp add: word_unat_eq_iff)
  show ?case
  proof (cases "n = 0")
    case True
    have "unat (k - 1) \<le> 4294967295" using unat_u32_le .
    with True k show ?thesis using u32_minus_1_wrap by (simp add: unat_gt_0)
  next
    case False
    then show ?thesis using ne k unat_gt_0 [of n] unat_gt_0 [of k] by (auto simp: unat_minus_1)
  qed
qed simp

declare number_of_combinations.simps [simp del]

lemma number_of_combinations_eq:
  "unat k \<le> unat n \<Longrightarrow> number_of_combinations n k = of_nat (unat n choose unat k)"
proof (induction n k rule: number_of_combinations.induct)
  case (1 n k)
  show ?case
  proof (cases "k = 0 \<or> k = n \<or> k = 1")
    case True
    then show ?thesis by (subst number_of_combinations.simps) auto
  next
    case False
    then have k: "k \<noteq> 0" "k \<noteq> n" "k \<noteq> 1" by simp_all
    then have ne: "unat k \<noteq> unat n" by (simp add: word_unat_eq_iff)
    with "1.prems" k have n: "n \<noteq> 0" using unat_gt_0 [of k] by (metis le_zero_eq unat_0 neq0_conv)
    from ne "1.prems" obtain a b where ab: "unat n = Suc a" "unat k = Suc b" "Suc b \<le> a"
      using unat_gt_0 [of k] k by (cases "unat n"; cases "unat k") auto
    have "unat (n - 1) = a" "unat (k - 1) = b"
      using ab n k by (simp_all add: unat_minus_1)
    then show ?thesis
      using "1.IH" k ab by (subst number_of_combinations.simps) (simp add: add.commute)
  qed
qed

section \<open>The next combination\<close>

text \<open>
  \<open>find_incr\<close> is the loop that walks down from the last index to the one that is not at its
  largest value; running off the start of the array is an access outside of it.
\<close>

fun find_incr :: "nat \<Rightarrow> nat \<Rightarrow> nat list \<Rightarrow> nat \<Rightarrow> nat option" where
  "find_incr set_size subset_size idx 0 =
     (if idx ! 0 \<noteq> 0 + set_size - subset_size then Some 0 else None)"
| "find_incr set_size subset_size idx (Suc i) =
     (if idx ! Suc i \<noteq> Suc i + set_size - subset_size then Some (Suc i)
      else find_incr set_size subset_size idx i)"

function fill_after :: "nat \<Rightarrow> nat list \<Rightarrow> nat \<Rightarrow> nat list" where
  "fill_after subset_size idx i =
     (if i < subset_size
      then fill_after subset_size (idx[i := idx ! (i - 1) + 1]) (i + 1)
      else idx)"
  by pat_completeness auto
termination
  by (relation "measure (\<lambda>(k, idx, i). k - i)") auto

declare fill_after.simps [simp del]

definition next_combination :: "nat \<Rightarrow> nat \<Rightarrow> nat list \<Rightarrow> nat list option" where
  "next_combination set_size subset_size idx = do {
     i \<leftarrow> find_incr set_size subset_size idx (subset_size - 1);
     Some (fill_after subset_size (idx[i := idx ! i + 1]) (i + 1))
   }"

fun iterate_combination :: "nat \<Rightarrow> nat \<Rightarrow> nat list \<Rightarrow> nat \<Rightarrow> nat list option" where
  "iterate_combination set_size subset_size idx 0 = Some idx"
| "iterate_combination set_size subset_size idx (Suc c) = do {
     idx' \<leftarrow> next_combination set_size subset_size idx;
     iterate_combination set_size subset_size idx' c
   }"

definition lookup_combination :: "u32 \<Rightarrow> u32 \<Rightarrow> u32 \<Rightarrow> nat list option" where
  "lookup_combination set_size subset_size combination = do {
     c_assert (subset_size > 0 \<and> subset_size \<le> set_size);
     c_assert (combination < number_of_combinations set_size subset_size);
     iterate_combination (unat set_size) (unat subset_size) [0 ..< unat subset_size] (unat combination)
   }"

section \<open>The combinations in lexicographic order\<close>

text \<open>
  \<open>combs n d k\<close> lists the strictly increasing lists of length \<open>k\<close> over \<open>{n - d ..< n}\<close> in
  lexicographic order.
\<close>

fun combs :: "nat \<Rightarrow> nat \<Rightarrow> nat \<Rightarrow> nat list list" where
  "combs n d 0 = [[]]"
| "combs n 0 (Suc k) = []"
| "combs n (Suc d) (Suc k) = map ((#) (n - Suc d)) (combs n d k) @ combs n d (Suc k)"

lemma length_combs: "length (combs n d k) = d choose k"
  by (induction n d k rule: combs.induct) auto

lemma set_combs:
  "d \<le> n \<Longrightarrow> set (combs n d k) = {xs. length xs = k \<and> sorted_wrt (<) xs \<and> set xs \<subseteq> {n - d ..< n}}"
proof (induction n d k rule: combs.induct)
  case (3 n d k)
  show ?case (is "?L = ?R")
  proof (rule set_eqI)
    fix xs
    have IH: "set (combs n d k) = {xs. length xs = k \<and> sorted_wrt (<) xs \<and> set xs \<subseteq> {n - d ..< n}}"
      "set (combs n d (Suc k)) =
        {xs. length xs = Suc k \<and> sorted_wrt (<) xs \<and> set xs \<subseteq> {n - d ..< n}}"
      using 3 by simp_all
    show "xs \<in> ?L \<longleftrightarrow> xs \<in> ?R"
    proof (cases xs)
      case Nil
      then show ?thesis using IH by auto
    next
      case (Cons y ys)
      have "xs \<in> ?L \<longleftrightarrow> length ys = k \<and> sorted_wrt (<) ys \<and>
          ((y = n - Suc d \<and> set ys \<subseteq> {n - d ..< n}) \<or>
           ((\<forall>z \<in> set ys. y < z) \<and> y \<in> {n - d ..< n} \<and> set ys \<subseteq> {n - d ..< n}))"
        using IH Cons by auto
      also have "\<dots> \<longleftrightarrow> length ys = k \<and> sorted_wrt (<) ys \<and> (\<forall>z \<in> set ys. y < z) \<and>
          y \<in> {n - Suc d ..< n} \<and> set ys \<subseteq> {n - Suc d ..< n}"
        using "3.prems" by (force simp: subset_iff)
      finally show ?thesis using Cons by auto
    qed
  qed
qed auto

lemma distinct_combs: "d \<le> n \<Longrightarrow> distinct (combs n d k)"
proof (induction n d k rule: combs.induct)
  case (3 n d k)
  have "set (map ((#) (n - Suc d)) (combs n d k)) \<inter> set (combs n d (Suc k)) = {}"
    using "3.prems" by (auto simp: set_combs)
  with 3 show ?case by (simp add: distinct_map)
qed auto

lemma combs_Nil_iff: "combs n d k = [] \<longleftrightarrow> d < k"
  by (simp add: length_combs length_0_conv [symmetric] del: length_0_conv)

lemma combs_hd: "k \<le> d \<Longrightarrow> d \<le> n \<Longrightarrow> hd (combs n d k) = [n - d ..< n - d + k]"
proof (induction n d k rule: combs.induct)
  case (3 n d k)
  then have "hd (combs n d k) = [n - d ..< n - d + k]" by simp
  moreover have "combs n d k \<noteq> []" using 3 by (simp add: combs_Nil_iff)
  moreover have "n - d = Suc (n - Suc d)" using "3.prems" by simp
  ultimately show ?case by (simp add: hd_map upt_rec)
qed auto

lemma combs_last: "k \<le> d \<Longrightarrow> d \<le> n \<Longrightarrow> last (combs n d k) = [n - k ..< n]"
proof (induction n d k rule: combs.induct)
  case (3 n d k)
  show ?case
  proof (cases "Suc k \<le> d")
    case True
    then show ?thesis using 3 by (simp add: combs_Nil_iff)
  next
    case False
    with "3.prems" have "d = k" by simp
    moreover from this have "combs n d (Suc k) = []" "combs n d k \<noteq> []" by (simp_all add: combs_Nil_iff)
    moreover have "[n - Suc k ..< n] = (n - Suc k) # [n - k ..< n]"
      using "3.prems" \<open>d = k\<close> by (simp add: upt_rec [of "n - Suc k"] Suc_diff_Suc)
    ultimately show ?thesis using 3 by (simp add: last_map)
  qed
qed auto

section \<open>The step is the lexicographic successor\<close>

fun next_rec :: "nat \<Rightarrow> nat list \<Rightarrow> nat list option" where
  "next_rec n [] = None"
| "next_rec n (x # xs) =
     (case next_rec n xs of Some ys \<Rightarrow> Some (x # ys)
      | None \<Rightarrow> if x \<noteq> n - Suc (length xs) then Some [x + 1 ..< x + 2 + length xs] else None)"

lemma find_incr_Cons:
  "find_incr n (Suc k) (x # xs) (Suc j) =
    (case find_incr n k xs j of Some i \<Rightarrow> Some (Suc i)
     | None \<Rightarrow> if x \<noteq> n - Suc k then Some 0 else None)"
  by (induction j) auto

lemma length_fill_after [simp]: "length (fill_after k idx i) = length idx"
  by (induction k idx i rule: fill_after.induct) (subst fill_after.simps, simp)

lemma fill_after_eq:
  assumes "0 < i" "i \<le> k" "k = length idx"
  shows "fill_after k idx i = take i idx @ [idx ! (i - 1) + 1 ..< idx ! (i - 1) + 1 + (k - i)]"
  using assms
proof (induction k idx i rule: fill_after.induct)
  case (1 k idx i)
  show ?case
  proof (cases "i < k")
    case False
    with "1.prems" show ?thesis by (subst fill_after.simps) simp
  next
    case True
    define v where "v = idx ! (i - 1) + 1"
    have "fill_after k idx i = fill_after k (idx[i := v]) (i + 1)"
      using True by (subst fill_after.simps) (simp add: v_def)
    also have "\<dots> = take (i + 1) (idx[i := v]) @ [v + 1 ..< v + 1 + (k - (i + 1))]"
      using "1.IH" [OF True] True "1.prems" by (simp add: v_def)
    also have "take (i + 1) (idx[i := v]) = take i idx @ [v]"
      using True "1.prems" by (simp add: take_Suc_conv_app_nth)
    also have "(take i idx @ [v]) @ [v + 1 ..< v + 1 + (k - (i + 1))] = take i idx @ [v ..< v + (k - i)]"
      using True upt_conv_Cons [of v "v + (k - i)"] by (simp add: Suc_diff_Suc)
    finally show ?thesis by (simp add: v_def)
  qed
qed

lemma fill_after_Cons:
  assumes "0 < i"
  shows "fill_after (Suc k) (x # xs) (Suc i) = x # fill_after k xs i"
  using assms
proof (induction k xs i rule: fill_after.induct)
  case (1 k xs i)
  then obtain j where j: "i = Suc j" by (cases i) auto
  show ?case
  proof (cases "i < k")
    case True
    have "fill_after (Suc k) (x # xs) (Suc i) = fill_after (Suc k) (x # xs[i := xs ! (i - 1) + 1]) (Suc (i + 1))"
      using True j by (subst fill_after.simps) simp
    also have "\<dots> = x # fill_after k (xs[i := xs ! (i - 1) + 1]) (i + 1)"
      using "1.IH" [OF True] by simp
    also have "\<dots> = x # fill_after k xs i"
      using True fill_after.simps [of k xs i] by simp
    finally show ?thesis .
  next
    case False
    then show ?thesis using fill_after.simps [of k xs i] by (subst fill_after.simps) simp
  qed
qed

lemma find_incr_less: "find_incr n k xs j = Some i \<Longrightarrow> i \<le> j"
  by (induction j) (auto split: if_splits)

lemma next_combination_eq:
  assumes "length xs = Suc k"
  shows "next_combination n (Suc k) xs = next_rec n xs"
  using assms
proof (induction k arbitrary: xs)
  case 0
  then obtain x where "xs = [x]" by (auto simp: length_Suc_conv)
  then show ?case by (simp add: next_combination_def fill_after_eq)
next
  case (Suc k)
  then obtain x ys where xs: "xs = x # ys" "length ys = Suc k" by (auto simp: length_Suc_conv)
  note IH = Suc.IH [OF xs(2), symmetric]
  show ?case
  proof (cases "find_incr n (Suc k) ys k")
    case None
    have "fill_after (Suc (Suc k)) (y # ys) 1 = [y ..< y + 2 + k]" for y
    proof -
      have "fill_after (Suc (Suc k)) (y # ys) 1 =
          take 1 (y # ys) @ [(y # ys) ! (1 - 1) + 1 ..< (y # ys) ! (1 - 1) + 1 + (Suc (Suc k) - 1)]"
        using xs(2) by (intro fill_after_eq) simp_all
      also have "\<dots> = y # [Suc y ..< y + 2 + k]" by simp
      also have "\<dots> = [y ..< y + 2 + k]" by (rule upt_conv_Cons [symmetric]) simp
      finally show ?thesis .
    qed
    with None xs show ?thesis
      by (simp add: next_combination_def find_incr_Cons IH del: find_incr.simps upt_Suc)
  next
    case (Some i)
    then have "next_combination n (Suc (Suc k)) xs =
        Some (fill_after (Suc (Suc k)) (x # ys[i := ys ! i + 1]) (Suc (Suc i)))"
      using xs by (simp add: next_combination_def find_incr_Cons del: find_incr.simps)
    also have "\<dots> = next_rec n xs"
      using Some xs by (simp add: fill_after_Cons IH next_combination_def del: find_incr.simps)
    finally show ?thesis .
  qed
qed

lemma next_rec_last: "k \<le> n \<Longrightarrow> next_rec n [n - k ..< n] = None"
proof (induction k)
  case (Suc k)
  then have "[n - Suc k ..< n] = (n - Suc k) # [n - k ..< n]"
    by (simp add: upt_rec [of "n - Suc k"] Suc_diff_Suc)
  with Suc show ?case by simp
qed simp

definition successive :: "('a \<Rightarrow> 'a option) \<Rightarrow> 'a list \<Rightarrow> bool" where
  "successive f xs \<longleftrightarrow> (\<forall>i. Suc i < length xs \<longrightarrow> f (xs ! i) = Some (xs ! Suc i))"

lemma successive_append:
  assumes "successive f xs" "successive f ys"
    and "xs \<noteq> [] \<Longrightarrow> ys \<noteq> [] \<Longrightarrow> f (last xs) = Some (hd ys)"
  shows "successive f (xs @ ys)"
  unfolding successive_def
proof (intro allI impI)
  fix i assume i: "Suc i < length (xs @ ys)"
  consider "Suc i < length xs" | "Suc i = length xs" | "length xs \<le> i" by linarith
  then show "f ((xs @ ys) ! i) = Some ((xs @ ys) ! Suc i)"
  proof cases
    case 1
    with assms(1) show ?thesis by (simp add: successive_def nth_append)
  next
    case 2
    with i have ne: "xs \<noteq> []" "ys \<noteq> []" by auto
    have "(xs @ ys) ! i = last xs" using 2 ne by (simp add: nth_append last_conv_nth flip: 2)
    moreover have "(xs @ ys) ! Suc i = hd ys" using 2 ne by (simp add: nth_append hd_conv_nth)
    ultimately show ?thesis using assms(3) ne by simp
  next
    case 3
    with assms(2) i show ?thesis by (simp add: successive_def nth_append Suc_diff_le)
  qed
qed

lemma successive_combs: "d \<le> n \<Longrightarrow> successive (next_rec n) (combs n d k)"
proof (induction n d k rule: combs.induct)
  case (3 n d k)
  let ?x = "n - Suc d"
  have k: "length c = k" if "c \<in> set (combs n d k)" for c
    using that "3.prems" by (simp add: set_combs)
  have "successive (next_rec n) (map ((#) ?x) (combs n d k))"
    using 3 by (auto simp: successive_def)
  moreover have "successive (next_rec n) (combs n d (Suc k))" using 3 by simp
  moreover have "next_rec n (last (map ((#) ?x) (combs n d k))) = Some (hd (combs n d (Suc k)))"
    if "combs n d k \<noteq> []" "combs n d (Suc k) \<noteq> []"
  proof -
    from that have le: "Suc k \<le> d" by (simp add: combs_Nil_iff)
    have "?x \<noteq> n - Suc k" using le "3.prems" by linarith
    moreover have "n - d = Suc ?x" using "3.prems" by simp
    ultimately show ?thesis
      using le "3.prems" that next_rec_last [of k n]
      by (simp add: last_map combs_last combs_hd)
  qed
  ultimately show ?case unfolding combs.simps by (intro successive_append) auto
qed (auto simp: successive_def)

lemma combs_nth_length: "c < length (combs n d k) \<Longrightarrow> d \<le> n \<Longrightarrow> length (combs n d k ! c) = k"
  using nth_mem [of c "combs n d k"] by (simp add: set_combs)

lemma iterate_combination_eq:
  assumes "0 < k" "c + j < n choose k"
  shows "iterate_combination n k (combs n n k ! j) c = Some (combs n n k ! (j + c))"
  using assms(2)
proof (induction c arbitrary: j)
  case (Suc c)
  obtain k' where k: "k = Suc k'" using assms(1) by (cases k) auto
  have "next_rec n (combs n n k ! j) = Some (combs n n k ! Suc j)"
    using successive_combs [of n n k] Suc.prems by (simp add: successive_def length_combs)
  moreover have "length (combs n n k ! j) = k"
    using Suc.prems by (intro combs_nth_length) (auto simp: length_combs)
  ultimately have "next_combination n k (combs n n k ! j) = Some (combs n n k ! Suc j)"
    using k next_combination_eq by simp
  with Suc show ?case by simp
qed simp

lemma lookup_combination_eq:
  assumes "0 < k" "k \<le> n" "unat n choose unat k < 2 ^ 32" "unat c < unat n choose unat k"
  shows "lookup_combination n k c = Some (combs (unat n) (unat n) (unat k) ! unat c)"
proof -
  have le: "unat k \<le> unat n" using assms(2) by (simp add: word_le_nat_alt)
  then have num: "unat (number_of_combinations n k) = unat n choose unat k"
    using assms(3) by (simp add: number_of_combinations_eq unat_of_nat)
  have "combs (unat n) (unat n) (unat k) \<noteq> []" using le by (simp add: combs_Nil_iff)
  then have "combs (unat n) (unat n) (unat k) ! 0 = [0 ..< unat k]"
    using combs_hd [of "unat k" "unat n" "unat n"] le by (simp add: hd_conv_nth)
  then show ?thesis
    using assms num iterate_combination_eq [of "unat k" "unat c" 0 "unat n"]
    by (simp add: lookup_combination_def word_less_nat_alt)
qed

end
