(* ===== verification/Hll_Dense.thy ===== *)
theory Hll_Dense
  imports Byte_Slice Complex_Main
begin

text \<open>
  The dense representation of a HyperLogLog (\<open>src/src/hyperloglog.c\<close>): 16384 registers of 6 bits
  packed into 12289 bytes, the pattern length of a hash, adding a hash, and the sum over the
  registers. Register \<open>i\<close> is the number made of the bits \<open>6 i\<close> to \<open>6 i + 5\<close>.
\<close>

section \<open>Registers\<close>

abbreviation (input) HLL_REGISTERS :: nat where "HLL_REGISTERS \<equiv> 16384"
abbreviation (input) HLL_DENSE_SIZE :: nat where "HLL_DENSE_SIZE \<equiv> 12289"

text \<open>The macros read and write the byte after the register's first byte; outside of the array is \<open>None\<close>.\<close>

definition hll_dense_get_register :: "bytes \<Rightarrow> nat \<Rightarrow> u8 option" where
  "hll_dense_get_register p regnum =
     (let byte = regnum * 6 div 8;
          fb = regnum * 6 mod 8;
          fb8 = 8 - fb
      in do {
        c_assert (byte + 1 < length p);
        let b0 = (ucast (p ! byte) :: u64);
        let b1 = (ucast (p ! (byte + 1)) :: u64);
        Some (ucast ((drop_bit fb b0 OR push_bit fb8 b1) AND 63))
      })"

definition hll_dense_set_register :: "bytes \<Rightarrow> nat \<Rightarrow> u8 \<Rightarrow> bytes option" where
  "hll_dense_set_register p regnum val =
     (let byte = regnum * 6 div 8;
          fb = regnum * 6 mod 8;
          fb8 = 8 - fb
      in do {
        c_assert (byte + 1 < length p);
        let p = p[byte := p ! byte AND NOT (push_bit fb 63)];
        let p = p[byte := p ! byte OR push_bit fb val];
        let p = p[byte + 1 := p ! (byte + 1) AND NOT (drop_bit fb8 63)];
        Some (p[byte + 1 := p ! (byte + 1) OR drop_bit fb8 val])
      })"

text \<open>The register as a number.\<close>

definition dense_reg :: "bytes \<Rightarrow> nat \<Rightarrow> u8" where
  "dense_reg p i = of_nat (bytes_val p div 2 ^ (6 * i) mod 64)"

lemma bit_dense_reg: "bit (dense_reg p i) j \<longleftrightarrow> j < 6 \<and> bit_at p (6 * i + j)"
proof -
  have "bytes_val p div 2 ^ (6 * i) mod 64 = take_bit 6 (drop_bit (6 * i) (bytes_val p))"
    by (simp add: take_bit_eq_mod drop_bit_eq_div)
  then have "bit (dense_reg p i) j \<longleftrightarrow> j < 8 \<and> bit (take_bit 6 (drop_bit (6 * i) (bytes_val p))) j"
    by (simp add: dense_reg_def bit_of_nat_iff)
  also have "\<dots> \<longleftrightarrow> j < 6 \<and> bit_at p (6 * i + j)"
    by (auto simp: bit_take_bit_iff bit_drop_bit_eq bit_bytes_val)
  finally show ?thesis .
qed

lemma dense_reg_less: "unat (dense_reg p i) < 64"
proof -
  have "bytes_val p div 2 ^ (6 * i) mod 64 < 64" by simp
  then show ?thesis by (simp add: dense_reg_def unat_of_nat)
qed

lemma bit_63 [simp]: "bit (63 :: u64) j \<longleftrightarrow> j < 6"
proof -
  have "(63 :: u64) = mask 6" by (simp add: mask_eq_exp_minus_1)
  then show ?thesis by (simp only: bit_mask_iff) auto
qed

lemma bit_63_u8 [simp]: "bit (63 :: u8) j \<longleftrightarrow> j < 6"
proof -
  have "(63 :: u8) = mask 6" by (simp add: mask_eq_exp_minus_1)
  then show ?thesis by (simp only: bit_mask_iff) auto
qed

lemma bit_63_nat [simp]: "bit (63 :: nat) j \<longleftrightarrow> j < 6"
proof -
  have "(63 :: nat) = mask 6" by (simp add: mask_eq_exp_minus_1)
  then show ?thesis by (simp only: bit_mask_iff) auto
qed

lemma bit_63_int [simp]: "bit (63 :: int) j \<longleftrightarrow> j < 6"
proof -
  have "(63 :: int) = mask 6" by (simp add: mask_eq_exp_minus_1)
  then show ?thesis by (simp only: bit_mask_iff) auto
qed

lemma reg_split:
  fixes i :: nat
  defines "byte \<equiv> i * 6 div 8" and "fb \<equiv> i * 6 mod 8"
  shows "6 * i = 8 * byte + fb" "fb \<le> 6" "even fb"
proof -
  show e: "6 * i = 8 * byte + fb"
    unfolding byte_def fb_def by (metis mult.commute mult_div_mod_eq)
  then have "even (8 * byte + fb)" by (metis even_mult_iff even_numeral)
  then show ev: "even fb" by simp
  have "fb < 8" by (simp add: fb_def)
  with ev show "fb \<le> 6" by (cases "fb = 7") auto
qed

lemma dense_get_eq:
  assumes "i * 6 div 8 + 1 < length p"
  shows "hll_dense_get_register p i = Some (dense_reg p i)"
proof -
  define byte fb where "byte = i * 6 div 8" and "fb = i * 6 mod 8"
  have s: "6 * i = 8 * byte + fb" "fb \<le> 6" using reg_split [of i] by (simp_all add: byte_def fb_def)
  have b: "byte + 1 < length p" using assms by (simp add: byte_def)
  have "(ucast ((drop_bit fb (ucast (p ! byte) :: u64) OR push_bit (8 - fb) (ucast (p ! (byte + 1)))) AND 63) :: u8)
      = dense_reg p i"
  proof (rule byte_eqI)
    fix j :: nat assume j: "j < 8"
    have l: "bit (ucast ((drop_bit fb (ucast (p ! byte) :: u64) OR push_bit (8 - fb) (ucast (p ! (byte + 1)))) AND 63) :: u8) j
        \<longleftrightarrow> j < 6 \<and> (fb + j < 8 \<and> bit (p ! byte) (fb + j) \<or> 8 - fb \<le> j \<and> bit (p ! (byte + 1)) (j - (8 - fb)))"
      using j s(2) by (auto simp: bit_ucast_iff bit_and_iff bit_or_iff bit_drop_bit_eq bit_push_bit_iff
          add.commute dest: bit_imp_le_length)
    have "bit_at p (6 * i + j) \<longleftrightarrow>
        (fb + j < 8 \<and> bit (p ! byte) (fb + j) \<or> 8 - fb \<le> j \<and> bit (p ! (byte + 1)) (j - (8 - fb)))" if "j < 6"
    proof (cases "fb + j < 8")
      case True
      have "6 * i + j = (fb + j) + 8 * byte" using s(1) by simp
      with True have "(6 * i + j) div 8 = byte" "(6 * i + j) mod 8 = fb + j"
        by (simp_all only: div_mult_self2 mod_mult_self2) simp_all
      moreover have "\<not> 8 - fb \<le> j" using True s(2) by simp
      ultimately show ?thesis using True b by (simp add: bit_at_def)
    next
      case False
      then obtain k where k: "fb + j = 8 + k" by (metis le_Suc_ex not_less)
      then have "k < 8" using j s(2) by simp
      moreover have "6 * i + j = k + 8 * (byte + 1)" using s(1) k by simp
      ultimately have "(6 * i + j) div 8 = byte + 1" "(6 * i + j) mod 8 = k"
        by (simp_all only: div_mult_self2 mod_mult_self2) simp_all
      moreover have "j - (8 - fb) = k" "8 - fb \<le> j" using s k by simp_all
      ultimately
      show ?thesis using False b by (simp add: bit_at_def)
    qed
    with l show "bit (ucast ((drop_bit fb (ucast (p ! byte) :: u64) OR push_bit (8 - fb) (ucast (p ! (byte + 1)))) AND 63) :: u8) j
        = bit (dense_reg p i) j"
      by (auto simp: bit_dense_reg)
  qed
  with b show ?thesis
    by (simp add: hll_dense_get_register_def byte_def [symmetric] fb_def [symmetric])
qed

lemma dense_set_bits:
  assumes "i * 6 div 8 + 1 < length p" "unat v < 64"
  shows "\<exists>p'. hll_dense_set_register p i v = Some p' \<and> length p' = length p \<and>
    (\<forall>k. bit_at p' k = (if 6 * i \<le> k \<and> k < 6 * i + 6 then bit v (k - 6 * i) else bit_at p k))"
proof -
  define byte fb where "byte = i * 6 div 8" and "fb = i * 6 mod 8"
  have s: "6 * i = 8 * byte + fb" "fb \<le> 6" using reg_split [of i] by (simp_all add: byte_def fb_def)
  have b: "byte + 1 < length p" using assms by (simp add: byte_def)
  have v6: "bit v j \<Longrightarrow> j < 6" for j
  proof -
    assume "bit v j"
    then have "bit (take_bit 6 (unat v)) j"
      using assms(2) by (simp add: take_bit_nat_eq_self bit_unsigned_iff)
    then show "j < 6" by (simp add: bit_take_bit_iff)
  qed
  define p1 where "p1 = p[byte := p ! byte AND NOT (push_bit fb 63) OR push_bit fb v]"
  define p2 where "p2 = p1[byte + 1 := p ! (byte + 1) AND NOT (drop_bit (8 - fb) 63) OR drop_bit (8 - fb) v]"
  have m: "(63 :: u8) = mask 6" by (simp add: mask_eq_exp_minus_1)
  have set: "hll_dense_set_register p i v = Some p2"
    using b by (simp add: hll_dense_set_register_def byte_def [symmetric] fb_def [symmetric] Let_def
        p1_def p2_def)
  have "bit_at p2 k = (if 6 * i \<le> k \<and> k < 6 * i + 6 then bit v (k - 6 * i) else bit_at p k)" for k
  proof -
    define d r where "d = k div 8" and "r = k mod 8"
    have k: "k = 8 * d + r" "r < 8" by (simp_all add: d_def r_def)
    consider "d = byte" | "d = byte + 1" | "d \<noteq> byte" "d \<noteq> byte + 1" by blast
    then show ?thesis
    proof cases
      case 1
      then have "bit_at p2 k = bit (p ! byte AND NOT (push_bit fb 63) OR push_bit fb v) r"
        using b by (simp add: bit_at_def d_def [symmetric] r_def [symmetric] p2_def p1_def)
      also have "\<dots> = (if fb \<le> r \<and> r < fb + 6 then bit v (r - fb) else bit (p ! byte) r)"
        using k(2) v6 [of "r - fb"] by (auto simp: m bit_or_iff bit_and_iff bit_not_iff bit_push_bit_iff bit_mask_iff)
      also have "bit (p ! byte) r = bit_at p k"
        using 1 b by (simp add: bit_at_def d_def [symmetric] r_def [symmetric])
      finally show ?thesis using s k 1 by auto
    next
      case 2
      then have "bit_at p2 k = bit (p ! (byte + 1) AND NOT (drop_bit (8 - fb) 63) OR drop_bit (8 - fb) v) r"
        using b by (simp add: bit_at_def d_def [symmetric] r_def [symmetric] p2_def p1_def)
      also have "\<dots> = (if 8 - fb + r < 6 then bit v (8 - fb + r) else bit (p ! (byte + 1)) r)"
        using k(2) v6 [of "8 - fb + r"]
        by (auto simp: m bit_or_iff bit_and_iff bit_not_iff bit_drop_bit_eq bit_mask_iff)
      also have "bit (p ! (byte + 1)) r = bit_at p k"
        using 2 b by (simp add: bit_at_def d_def [symmetric] r_def [symmetric])
      finally show ?thesis using s k 2 by auto
    next
      case 3
      then have "bit_at p2 k = bit_at p k"
        by (simp add: bit_at_def d_def [symmetric] p2_def p1_def)
      moreover have "\<not> (6 * i \<le> k \<and> k < 6 * i + 6)" using 3 s k by auto
      ultimately show ?thesis by auto
    qed
  qed
  moreover have "length p2 = length p" by (simp add: p2_def p1_def)
  ultimately show ?thesis using set by blast
qed

lemma dense_set_eq:
  assumes "i * 6 div 8 + 1 < length p" "unat v < 64"
  shows "\<exists>p'. hll_dense_set_register p i v = Some p' \<and> length p' = length p \<and>
    (\<forall>k. dense_reg p' k = (if k = i then v else dense_reg p k))"
proof -
  obtain p' where p': "hll_dense_set_register p i v = Some p'" "length p' = length p"
    "\<And>k. bit_at p' k = (if 6 * i \<le> k \<and> k < 6 * i + 6 then bit v (k - 6 * i) else bit_at p k)"
    using dense_set_bits [OF assms] by blast
  have v6: "bit v j \<Longrightarrow> j < 6" for j
  proof -
    assume "bit v j"
    then have "bit (take_bit 6 (unat v)) j"
      using assms(2) by (simp add: take_bit_nat_eq_self bit_unsigned_iff)
    then show "j < 6" by (simp add: bit_take_bit_iff)
  qed
  have "dense_reg p' k = (if k = i then v else dense_reg p k)" for k
  proof (rule byte_eqI)
    fix j :: nat
    show "bit (dense_reg p' k) j = bit (if k = i then v else dense_reg p k) j"
      using v6 [of j] by (auto simp: bit_dense_reg p'(3))
  qed
  with p' show ?thesis by blast
qed

lemma dense_index:
  "i < HLL_REGISTERS \<Longrightarrow> length p = HLL_DENSE_SIZE \<Longrightarrow> i * 6 div 8 + 1 < length p"
  by linarith

section \<open>The pattern length of a hash\<close>

text \<open>
  \<open>hllPatLen\<close> shifts a one bit up from bit 14 until it meets a one bit of the hash, whose bit 63
  has been set; \<open>k\<close> is the position of the shifted bit. The bound on \<open>k\<close> is never what ends the
  loop.
\<close>

function patlen_loop :: "u64 \<Rightarrow> nat \<Rightarrow> nat \<Rightarrow> nat" where
  "patlen_loop hash k count =
     (if hash AND push_bit k 1 = 0 \<and> k < 64 then patlen_loop hash (k + 1) (count + 1) else count)"
  by pat_completeness auto
termination
  by (relation "measure (\<lambda>(hash, k, count). 64 - k)") auto

declare patlen_loop.simps [simp del]

definition hllPatLen :: "u64 \<Rightarrow> nat \<times> nat" where
  "hllPatLen hash =
     (let index = hash AND 0x3FFF;
          hash = hash OR push_bit 63 1
      in (patlen_loop hash 14 1, unat index))"

lemma and_one_hot64: "(w AND push_bit k 1 :: u64) = 0 \<longleftrightarrow> \<not> (k < 64 \<and> bit w k)"
proof
  assume "w AND push_bit k 1 = 0"
  then have "\<not> bit (w AND push_bit k 1) k" by simp
  then show "\<not> (k < 64 \<and> bit w k)" by (auto simp: bit_and_iff bit_exp_iff)
next
  assume "\<not> (k < 64 \<and> bit w k)"
  then show "w AND push_bit k 1 = 0"
    by (intro bit_word_eqI) (auto simp: bit_and_iff bit_exp_iff)
qed

lemma patlen_loop_eq:
  assumes "bit w m" "m < 64" "k \<le> m" "\<And>j. k \<le> j \<Longrightarrow> j < m \<Longrightarrow> \<not> bit w j"
  shows "patlen_loop w k c = c + (m - k)"
  using assms
proof (induction w k c rule: patlen_loop.induct)
  case (1 w k c)
  show ?case
  proof (cases "k = m")
    case True
    with "1.prems"(1,2) show ?thesis
      by (subst patlen_loop.simps) (simp add: and_one_hot64 del: push_bit_of_1)
  next
    case False
    then have k: "k < m" "\<not> bit w k" using "1.prems" by auto
    then have c: "w AND push_bit k 1 = 0 \<and> k < 64"
      using "1.prems"(2) and_one_hot64 [of w k] by simp
    have "patlen_loop w (k + 1) (c + 1) = c + 1 + (m - (k + 1))"
      using "1.prems" k by (intro "1.IH" [OF c]) auto
    then show ?thesis using k c by (subst patlen_loop.simps) simp
  qed
qed

text \<open>The position of the first one bit from bit 14 on, bit 63 counting as one.\<close>

definition first_one :: "u64 \<Rightarrow> nat" where
  "first_one hash = (LEAST m. 14 \<le> m \<and> (m = 63 \<or> bit hash m))"

lemma first_one_props:
  "14 \<le> first_one hash" "first_one hash \<le> 63" "first_one hash = 63 \<or> bit hash (first_one hash)"
  "14 \<le> j \<Longrightarrow> j < first_one hash \<Longrightarrow> \<not> bit hash j"
proof -
  have "14 \<le> (63 :: nat) \<and> ((63 :: nat) = 63 \<or> bit hash 63)" by simp
  note l = LeastI [of "\<lambda>m. 14 \<le> m \<and> (m = 63 \<or> bit hash m)", OF this, folded first_one_def]
  from l show "14 \<le> first_one hash" "first_one hash = 63 \<or> bit hash (first_one hash)" by auto
  show "first_one hash \<le> 63" unfolding first_one_def by (rule Least_le) simp
  show "14 \<le> j \<Longrightarrow> j < first_one hash \<Longrightarrow> \<not> bit hash j"
    unfolding first_one_def using not_less_Least by blast
qed

lemma hllPatLen_eq: "hllPatLen hash = (first_one hash - 13, unat hash mod 16384)"
proof -
  define w where "w = hash OR push_bit 63 1"
  have bit_w: "bit w j \<longleftrightarrow> bit hash j \<or> j = 63" for j
    unfolding w_def by (simp only: bit_or_iff bit_push_bit_iff bit_1_iff) auto
  have "patlen_loop w 14 1 = 1 + (first_one hash - 14)"
    using first_one_props [where hash = hash] by (intro patlen_loop_eq) (auto simp: bit_w)
  then have "patlen_loop w 14 1 = first_one hash - 13"
    using first_one_props(1) [where hash = hash] by simp
  moreover have "hash AND 0x3FFF = take_bit 14 hash"
    by (simp add: take_bit_eq_mask mask_eq_exp_minus_1)
  then have "unat (hash AND 0x3FFF) = unat hash mod 16384"
    by (simp only: unsigned_take_bit_eq) (simp add: take_bit_eq_mod)
  ultimately show ?thesis unfolding hllPatLen_def Let_def w_def [symmetric] by simp
qed

lemma hllPatLen_bounds:
  assumes "hllPatLen hash = (count, index)"
  shows "1 \<le> count" "count \<le> 50" "index < HLL_REGISTERS"
  using assms first_one_props [where hash = hash] by (auto simp: hllPatLen_eq)

section \<open>Adding to the dense representation\<close>

definition hllDenseAdd :: "bytes \<Rightarrow> u64 \<Rightarrow> (bytes \<times> int) option" where
  "hllDenseAdd registers hash =
     (let (count, index) = hllPatLen hash in do {
        oldcount \<leftarrow> hll_dense_get_register registers index;
        if (of_nat count :: u8) > oldcount
        then do {
          registers \<leftarrow> hll_dense_set_register registers index (of_nat count);
          Some (registers, 1)
        }
        else Some (registers, 0)
      })"

text \<open>The registers as a function, and what adding a hash does to it.\<close>

definition dense_regs :: "bytes \<Rightarrow> nat \<Rightarrow> nat" where
  "dense_regs p i = unat (dense_reg p i)"

definition regs_add :: "(nat \<Rightarrow> nat) \<Rightarrow> u64 \<Rightarrow> nat \<Rightarrow> nat" where
  "regs_add regs hash = (let (c, i) = hllPatLen hash in regs(i := max (regs i) c))"

definition regs_changed :: "(nat \<Rightarrow> nat) \<Rightarrow> u64 \<Rightarrow> bool" where
  "regs_changed regs hash \<longleftrightarrow> (let (c, i) = hllPatLen hash in regs i < c)"

lemma hllDenseAdd_eq:
  assumes "length p = HLL_DENSE_SIZE"
  shows "\<exists>p'. hllDenseAdd p hash = Some (p', if regs_changed (dense_regs p) hash then 1 else 0) \<and>
    length p' = HLL_DENSE_SIZE \<and> dense_regs p' = regs_add (dense_regs p) hash"
proof -
  obtain c i where pl: "hllPatLen hash = (c, i)" by fastforce
  note b = hllPatLen_bounds [OF pl]
  have idx: "i * 6 div 8 + 1 < length p" by (rule dense_index [OF b(3) assms])
  have c: "unat (of_nat c :: u8) = c" using b by (simp add: unat_of_nat)
  have gt: "(of_nat c :: u8) > dense_reg p i \<longleftrightarrow> dense_regs p i < c"
    by (simp add: word_less_nat_alt c dense_regs_def)
  show ?thesis
  proof (cases "dense_regs p i < c")
    case True
    obtain p' where p': "hll_dense_set_register p i (of_nat c) = Some p'" "length p' = length p"
      "\<forall>k. dense_reg p' k = (if k = i then of_nat c else dense_reg p k)"
      using dense_set_eq [OF idx, of "of_nat c"] b c by auto
    have "hllDenseAdd p hash = Some (p', 1)"
      using True gt p'(1) by (simp add: hllDenseAdd_def pl dense_get_eq [OF idx])
    moreover have "dense_regs p' = regs_add (dense_regs p) hash"
      using p'(3) True c by (auto simp: dense_regs_def regs_add_def pl fun_eq_iff max_def)
    ultimately show ?thesis using True p'(2) assms by (simp add: regs_changed_def pl)
  next
    case False
    then have "hllDenseAdd p hash = Some (p, 0)"
      using gt by (simp add: hllDenseAdd_def pl dense_get_eq [OF idx])
    moreover have "regs_add (dense_regs p) hash = dense_regs p"
      using False by (auto simp: regs_add_def pl fun_eq_iff max_def)
    ultimately show ?thesis using False assms by (simp add: regs_changed_def pl)
  qed
qed

section \<open>The sum over the registers\<close>

text \<open>
  \<open>PE\<close> is the table of the powers \<open>2 ^ - reg\<close>. The loop reads 16 registers from 12 bytes; a
  byte is promoted to \<open>int\<close> before it is shifted. Floating point numbers are modelled by reals.
\<close>

definition PE :: "real list" where
  "PE = 1 # map (\<lambda>j. 1 / 2 ^ j) [1 ..< 64]"

lemma PE_nth: "i < 64 \<Longrightarrow> PE ! i = 1 / 2 ^ i"
  by (cases i) (simp_all add: PE_def nth_append del: upt_Suc)

definition lane0 :: "u8 \<Rightarrow> u32" where
  "lane0 b = ucast b AND 63"

definition lane1 :: "u8 \<Rightarrow> u8 \<Rightarrow> u32" where
  "lane1 b c = (drop_bit 6 (ucast b) OR push_bit 2 (ucast c)) AND 63"

definition lane2 :: "u8 \<Rightarrow> u8 \<Rightarrow> u32" where
  "lane2 b c = (drop_bit 4 (ucast b) OR push_bit 4 (ucast c)) AND 63"

definition lane3 :: "u8 \<Rightarrow> u32" where
  "lane3 b = drop_bit 2 (ucast b) AND 63"

definition regs16 :: "bytes \<Rightarrow> nat list" where
  "regs16 r = map unat
     [lane0 (r ! 0), lane1 (r ! 0) (r ! 1), lane2 (r ! 1) (r ! 2), lane3 (r ! 2),
      lane0 (r ! 3), lane1 (r ! 3) (r ! 4), lane2 (r ! 4) (r ! 5), lane3 (r ! 5),
      lane0 (r ! 6), lane1 (r ! 6) (r ! 7), lane2 (r ! 7) (r ! 8), lane3 (r ! 8),
      lane0 (r ! 9), lane1 (r ! 9) (r ! 10), lane2 (r ! 10) (r ! 11), lane3 (r ! 11)]"

definition pair_sum :: "nat list \<Rightarrow> real" where
  "pair_sum r =
     (PE ! (r ! 0) + PE ! (r ! 1)) + (PE ! (r ! 2) + PE ! (r ! 3)) +
     (PE ! (r ! 4) + PE ! (r ! 5)) + (PE ! (r ! 6) + PE ! (r ! 7)) +
     (PE ! (r ! 8) + PE ! (r ! 9)) + (PE ! (r ! 10) + PE ! (r ! 11)) +
     (PE ! (r ! 12) + PE ! (r ! 13)) + (PE ! (r ! 14) + PE ! (r ! 15))"

fun dense_sum_loop :: "nat \<Rightarrow> bytes \<Rightarrow> real \<Rightarrow> nat \<Rightarrow> real \<times> nat" where
  "dense_sum_loop 0 r E ez = (E, ez)"
| "dense_sum_loop (Suc n) r E ez =
     (let rs = regs16 r
      in dense_sum_loop n (drop 12 r) (E + pair_sum rs) (ez + length (filter (\<lambda>v. v = 0) rs)))"

definition hllDenseSum :: "bytes \<Rightarrow> real \<times> nat" where
  "hllDenseSum registers = dense_sum_loop 1024 registers 0 0"

text \<open>The branch of the same function for other register sizes, which reads register by register.\<close>

fun dense_sum_generic :: "nat \<Rightarrow> nat \<Rightarrow> bytes \<Rightarrow> real \<Rightarrow> nat \<Rightarrow> (real \<times> nat) option" where
  "dense_sum_generic 0 j registers E ez = Some (E + real ez, ez)"
| "dense_sum_generic (Suc n) j registers E ez = do {
     reg \<leftarrow> hll_dense_get_register registers j;
     if reg = 0 then dense_sum_generic n (j + 1) registers E (ez + 1)
     else dense_sum_generic n (j + 1) registers (E + PE ! unat reg) ez
   }"

text \<open>The four positions of a register in its bytes.\<close>

lemma dense_get_lane:
  assumes "6 * i = 8 * byte + fb" "fb < 8" "byte + 1 < length p"
  shows "dense_regs p i = unat ((drop_bit fb (ucast (p ! byte) :: u64) OR push_bit (8 - fb) (ucast (p ! (byte + 1)))) AND 63)"
proof -
  have idx: "i * 6 div 8 = byte" "i * 6 mod 8 = fb"
    using assms(1,2) by (simp_all add: mult.commute)
  let ?x = "(drop_bit fb (ucast (p ! byte) :: u64) OR push_bit (8 - fb) (ucast (p ! (byte + 1)))) AND 63"
  have "dense_reg p i = ucast ?x"
    using dense_get_eq [of i p] assms(3) by (simp add: hll_dense_get_register_def idx)
  moreover have "unat ?x < 64"
  proof -
    have "?x = take_bit 6 (drop_bit fb (ucast (p ! byte) :: u64) OR push_bit (8 - fb) (ucast (p ! (byte + 1))))"
      by (simp add: take_bit_eq_mask mask_eq_exp_minus_1)
    then have "unat ?x = take_bit 6 (unat (drop_bit fb (ucast (p ! byte) :: u64) OR push_bit (8 - fb) (ucast (p ! (byte + 1)))))"
      by (simp only: unsigned_take_bit_eq)
    then show ?thesis using take_bit_nat_less_exp [of 6] by simp
  qed
  ultimately show ?thesis by (simp add: dense_regs_def unat_ucast)
qed

lemma lane_u32_u64:
  fixes x :: u32 and y :: u64
  assumes "\<And>j. j < 6 \<Longrightarrow> bit x j = bit y j" "\<And>j. 6 \<le> j \<Longrightarrow> \<not> bit x j" "\<And>j. 6 \<le> j \<Longrightarrow> \<not> bit y j"
  shows "unat x = unat y"
  by (rule bit_eqI) (metis assms bit_unsigned_iff bit_imp_le_length not_less possible_bit_nat)

lemma bit_63_u32 [simp]: "bit (63 :: u32) j \<longleftrightarrow> j < 6"
proof -
  have "(63 :: u32) = mask 6" by (simp add: mask_eq_exp_minus_1)
  then show ?thesis by (simp only: bit_mask_iff) auto
qed

lemma lane_fb: "(0 :: nat) < 8" "(2 :: nat) < 8" "(4 :: nat) < 8" "(6 :: nat) < 8"
  by simp_all

lemma regs16_eq:
  assumes "12 * j + 12 < length p"
  shows "regs16 (drop (12 * j) p) = map (dense_regs p) [16 * j ..< 16 * j + 16]"
proof -
  let ?r = "drop (12 * j) p"
  have nth: "?r ! t = p ! (12 * j + t)" if "t \<le> 12" for t
    using assms that by simp
  have l0: "dense_regs p (16 * j + 4 * t) = unat (lane0 (p ! (12 * j + 3 * t)))" if "t < 4" for t
  proof -
    have *: "6 * (16 * j + 4 * t) = 8 * (12 * j + 3 * t) + 0" "12 * j + 3 * t + 1 < length p"
      using that assms by simp_all
    show ?thesis
      unfolding dense_get_lane [OF *(1) lane_fb(1) *(2)] lane0_def
      by (rule sym, rule lane_u32_u64)
        (auto simp: bit_and_iff bit_or_iff bit_push_bit_iff bit_drop_bit_eq bit_ucast_iff)
  qed
  have l1: "dense_regs p (16 * j + 4 * t + 1) = unat (lane1 (p ! (12 * j + 3 * t)) (p ! (12 * j + 3 * t + 1)))" if "t < 4" for t
  proof -
    have *: "6 * (16 * j + 4 * t + 1) = 8 * (12 * j + 3 * t) + 6" "12 * j + 3 * t + 1 < length p"
      using that assms by simp_all
    show ?thesis
      unfolding dense_get_lane [OF *(1) lane_fb(4) *(2)] lane1_def
      by (rule sym, rule lane_u32_u64)
        (auto simp: bit_and_iff bit_or_iff bit_push_bit_iff bit_drop_bit_eq bit_ucast_iff
          dest: bit_imp_le_length)
  qed
  have l2: "dense_regs p (16 * j + 4 * t + 2) = unat (lane2 (p ! (12 * j + 3 * t + 1)) (p ! (12 * j + 3 * t + 2)))" if "t < 4" for t
  proof -
    have *: "6 * (16 * j + 4 * t + 2) = 8 * (12 * j + 3 * t + 1) + 4" "12 * j + 3 * t + 1 + 1 < length p"
      using that assms by simp_all
    show ?thesis
      unfolding dense_get_lane [OF *(1) lane_fb(3) *(2)] lane2_def
      by (rule sym, rule lane_u32_u64)
        (auto simp: bit_and_iff bit_or_iff bit_push_bit_iff bit_drop_bit_eq bit_ucast_iff
          dest: bit_imp_le_length)
  qed
  have l3: "dense_regs p (16 * j + 4 * t + 3) = unat (lane3 (p ! (12 * j + 3 * t + 2)))" if "t < 4" for t
  proof -
    have *: "6 * (16 * j + 4 * t + 3) = 8 * (12 * j + 3 * t + 2) + 2" "12 * j + 3 * t + 2 + 1 < length p"
      using that assms by simp_all
    show ?thesis
      unfolding dense_get_lane [OF *(1) lane_fb(2) *(2)] lane3_def
      by (rule sym, rule lane_u32_u64)
        (auto simp: bit_and_iff bit_or_iff bit_push_bit_iff bit_drop_bit_eq bit_ucast_iff
          dest: bit_imp_le_length)
  qed
  note lanes = l0 [of 0] l1 [of 0] l2 [of 0] l3 [of 0] l0 [of 1] l1 [of 1] l2 [of 1] l3 [of 1]
    l0 [of 2] l1 [of 2] l2 [of 2] l3 [of 2] l0 [of 3] l1 [of 3] l2 [of 3] l3 [of 3]
  have "[16 * j ..< 16 * j + 16] = map (\<lambda>k. 16 * j + k) [0 ..< 16]"
    by (simp add: map_add_upt add.commute)
  also have "[0 ..< 16] = [0, 1, 2, 3, 4, 5, 6, 7, 8, 9, 10, 11, 12, 13, 14, 15 :: nat]"
    by (simp add: upt_rec)
  finally have u: "[16 * j ..< 16 * j + 16] = map (\<lambda>k. 16 * j + k)
      [0, 1, 2, 3, 4, 5, 6, 7, 8, 9, 10, 11, 12, 13, 14, 15]" .
  show ?thesis
    unfolding u regs16_def using lanes by (simp add: nth add.commute)
qed

lemma pair_sum_eq:
  assumes "length rs = 16"
  shows "pair_sum rs = sum_list (map ((!) PE) rs)"
proof -
  have "map ((!) PE) rs = map (\<lambda>k. PE ! (rs ! k)) [0 ..< 16]"
    by (rule nth_equalityI) (simp_all add: assms)
  also have "[0 ..< 16] = [0, 1, 2, 3, 4, 5, 6, 7, 8, 9, 10, 11, 12, 13, 14, 15 :: nat]"
    by (simp add: upt_rec)
  finally show ?thesis by (simp add: pair_sum_def)
qed

definition reg_power :: "bytes \<Rightarrow> nat \<Rightarrow> real" where
  "reg_power p i = 1 / 2 ^ dense_regs p i"

lemma PE_dense_regs: "PE ! dense_regs p i = reg_power p i"
  using dense_reg_less [of p i] by (simp add: PE_nth dense_regs_def reg_power_def)

lemma dense_sum_loop_eq:
  "12 * (j + n) < length p \<Longrightarrow> dense_sum_loop n (drop (12 * j) p) E ez =
    (E + sum_list (map (reg_power p) [16 * j ..< 16 * (j + n)]),
     ez + length (filter (\<lambda>i. dense_regs p i = 0) [16 * j ..< 16 * (j + n)]))"
proof (induction n arbitrary: j E ez)
  case (Suc n)
  let ?l = "[16 * j ..< 16 * j + 16]" and ?m = "[16 * (j + 1) ..< 16 * (j + 1 + n)]"
  have r: "regs16 (drop (12 * j) p) = map (dense_regs p) ?l"
    using Suc.prems by (intro regs16_eq) simp
  have ps: "pair_sum (map (dense_regs p) ?l) = sum_list (map (reg_power p) ?l)"
    by (simp add: pair_sum_eq comp_def PE_dense_regs)
  have "?l @ ?m = [16 * j ..< 16 * (j + Suc n)]"
    using upt_add_eq_append [of "16 * j" "16 * j + 16" "16 * n"] by (simp add: algebra_simps)
  moreover have "drop 12 (drop (12 * j) p) = drop (12 * (j + 1)) p"
    by (simp add: algebra_simps)
  moreover have "12 * (j + 1 + n) < length p" using Suc.prems by simp
  ultimately show ?case
    using Suc.IH [of "j + 1" "E + sum_list (map (reg_power p) ?l)"
        "ez + length (filter (\<lambda>i. dense_regs p i = 0) ?l)"]
    by (simp only: dense_sum_loop.simps Let_def r ps)
      (simp only: filter_map length_map comp_def map_append [symmetric] sum_list_append [symmetric]
        filter_append [symmetric] length_append [symmetric] add.assoc)
qed simp

lemma sum_reg_power:
  "sum_list (map (reg_power p) [0 ..< n]) = (\<Sum>i < n. 1 / 2 ^ dense_regs p i)"
  by (simp add: interv_sum_list_conv_sum_set_nat reg_power_def atLeast0LessThan)

lemma hllDenseSum_eq:
  assumes "length p = HLL_DENSE_SIZE"
  shows "hllDenseSum p =
    ((\<Sum>i < HLL_REGISTERS. 1 / 2 ^ dense_regs p i), card {i. i < HLL_REGISTERS \<and> dense_regs p i = 0})"
proof -
  have "length (filter (\<lambda>i. dense_regs p i = 0) [0 ..< HLL_REGISTERS]) =
      card (set (filter (\<lambda>i. dense_regs p i = 0) [0 ..< HLL_REGISTERS]))"
    by (intro distinct_card [symmetric]) simp
  also have "set (filter (\<lambda>i. dense_regs p i = 0) [0 ..< HLL_REGISTERS]) =
      {i. i < HLL_REGISTERS \<and> dense_regs p i = 0}" by auto
  finally show ?thesis
    using dense_sum_loop_eq [of 0 1024 p 0 0] assms
    by (simp add: hllDenseSum_def sum_reg_power)
qed

lemma dense_sum_generic_eq:
  assumes "length p = HLL_DENSE_SIZE"
  shows "j + n \<le> HLL_REGISTERS \<Longrightarrow> dense_sum_generic n j p E ez =
    Some (E + real ez + sum_list (map (reg_power p) [j ..< j + n]),
      ez + length (filter (\<lambda>i. dense_regs p i = 0) [j ..< j + n]))"
proof (induction n arbitrary: j E ez)
  case (Suc n)
  have get: "hll_dense_get_register p j = Some (dense_reg p j)"
    using Suc.prems assms by (intro dense_get_eq dense_index) simp_all
  have l: "[j ..< j + Suc n] = j # [j + 1 ..< j + 1 + n]" by (simp add: upt_rec)
  have z: "dense_reg p j = 0 \<longleftrightarrow> dense_regs p j = 0"
    by (simp add: dense_regs_def unat_eq_0)
  have "PE ! unat (dense_reg p j) = reg_power p j"
    using PE_dense_regs [of p j] by (simp add: dense_regs_def)
  moreover have "dense_regs p j = 0 \<Longrightarrow> reg_power p j = 1" by (simp add: reg_power_def)
  ultimately show ?case
    using Suc.IH [of "j + 1"] Suc.prems
    by (simp only: l dense_sum_generic.simps get z bind.bind_lunit) (simp del: upt_Suc)
qed simp

text \<open>The unrolled loop computes what the register by register loop computes.\<close>

lemma hllDenseSum_unrolled:
  assumes "length p = HLL_DENSE_SIZE"
  shows "dense_sum_generic HLL_REGISTERS 0 p 0 0 = Some (hllDenseSum p)"
  using dense_sum_generic_eq [OF assms, of 0 HLL_REGISTERS 0 0] dense_sum_loop_eq [of 0 1024 p 0 0] assms
  by (simp add: hllDenseSum_def)

end
