(* ===== verification/Hll_Opcodes.thy ===== *)
theory Hll_Opcodes
  imports Hll_Dense
begin

text \<open>
  The opcodes of the sparse representation of a HyperLogLog (the \<open>HLL_SPARSE\<close> macros of
  \<open>src/src/hyperloglog.c\<close>): runs of zero registers in one or two bytes and short runs of one
  value in one byte. \<open>expand\<close> is what a sequence of opcodes means: the list of the registers.
\<close>

section \<open>The macros\<close>

definition hll_sparse_is_zero :: "u8 \<Rightarrow> bool" where
  "hll_sparse_is_zero b \<longleftrightarrow> b AND 0xC0 = 0"

definition hll_sparse_is_xzero :: "u8 \<Rightarrow> bool" where
  "hll_sparse_is_xzero b \<longleftrightarrow> b AND 0xC0 = 0x40"

definition hll_sparse_is_val :: "u8 \<Rightarrow> bool" where
  "hll_sparse_is_val b \<longleftrightarrow> b AND 0x80 \<noteq> 0"

definition hll_sparse_zero_len :: "u8 \<Rightarrow> nat" where
  "hll_sparse_zero_len b = unat (b AND 0x3F) + 1"

definition hll_sparse_xzero_len :: "u8 \<Rightarrow> u8 \<Rightarrow> nat" where
  "hll_sparse_xzero_len b c = unat (push_bit 8 (ucast (b AND 0x3F)) OR ucast c :: u32) + 1"

definition hll_sparse_val_value :: "u8 \<Rightarrow> nat" where
  "hll_sparse_val_value b = unat (drop_bit 2 b AND 0x1F) + 1"

definition hll_sparse_val_len :: "u8 \<Rightarrow> nat" where
  "hll_sparse_val_len b = unat (b AND 0x3) + 1"

definition hll_sparse_val_set :: "nat \<Rightarrow> nat \<Rightarrow> bytes" where
  "hll_sparse_val_set val len = [push_bit 2 (of_nat (val - 1)) OR of_nat (len - 1) OR 0x80]"

definition hll_sparse_zero_set :: "nat \<Rightarrow> bytes" where
  "hll_sparse_zero_set len = [of_nat (len - 1)]"

definition hll_sparse_xzero_set :: "nat \<Rightarrow> bytes" where
  "hll_sparse_xzero_set len =
     (let l = len - 1 in [of_nat (drop_bit 8 l) OR 0x40, of_nat (l AND 0xFF)])"

section \<open>The macros in arithmetic\<close>

lemma bit_of_nat_u8_less: "l < 2 ^ k \<Longrightarrow> bit (of_nat l :: u8) n \<Longrightarrow> n < k"
proof -
  assume l: "l < 2 ^ k" and b: "bit (of_nat l :: u8) n"
  from b have "bit l n" by (simp add: bit_of_nat_iff)
  then have "bit (take_bit k l) n" using l by (simp add: take_bit_nat_eq_self)
  then show "n < k" by (simp add: bit_take_bit_iff)
qed

lemma low_bits_u8: "k \<le> 8 \<Longrightarrow> unat (b AND (2 ^ k - 1) :: u8) = unat b mod 2 ^ k"
proof -
  have "b AND (2 ^ k - 1) = take_bit k b" by (simp add: take_bit_eq_mask mask_eq_exp_minus_1)
  then show ?thesis by (simp only: unsigned_take_bit_eq) (simp add: take_bit_eq_mod)
qed

lemma high_two_bits: "b AND 0xC0 = (push_bit 6 (drop_bit 6 b) :: u8)"
proof (rule byte_eqI)
  fix n :: nat assume "n < 8"
  then have "n \<in> {0, 1, 2, 3, 4, 5, 6, 7}" by auto
  then show "bit (b AND 0xC0) n = bit (push_bit 6 (drop_bit 6 b)) n"
    by (auto simp: bit_and_iff bit_push_bit_iff bit_drop_bit_eq)
qed

lemma push_bit_6_u8: "unat (push_bit 6 (drop_bit 6 b) :: u8) = 64 * (unat b div 64)"
proof -
  have "unat (drop_bit 6 b) = unat b div 64" by (simp only: unat_drop_bit_eq) (simp add: drop_bit_eq_div)
  moreover have "unat b div 64 < 4" using unat_u8_less [of b] by linarith
  moreover have "push_bit 6 (drop_bit 6 b) = drop_bit 6 b * 64" by (simp add: push_bit_eq_mult)
  ultimately show ?thesis by (simp add: unat_word_ariths)
qed

lemma is_zero_iff: "hll_sparse_is_zero b \<longleftrightarrow> unat b < 64"
proof -
  have "hll_sparse_is_zero b \<longleftrightarrow> unat (push_bit 6 (drop_bit 6 b) :: u8) = 0"
    by (simp add: hll_sparse_is_zero_def high_two_bits unat_eq_0)
  also have "\<dots> \<longleftrightarrow> unat b < 64" by (simp only: push_bit_6_u8) (simp add: div_eq_0_iff)
  finally show ?thesis .
qed

lemma is_xzero_iff: "hll_sparse_is_xzero b \<longleftrightarrow> 64 \<le> unat b \<and> unat b < 128"
proof -
  have "hll_sparse_is_xzero b \<longleftrightarrow> unat (push_bit 6 (drop_bit 6 b) :: u8) = 64"
    by (simp add: hll_sparse_is_xzero_def high_two_bits word_unat_eq_iff)
  also have "\<dots> \<longleftrightarrow> 64 \<le> unat b \<and> unat b < 128" by (simp only: push_bit_6_u8) auto
  finally show ?thesis .
qed

lemma is_val_iff: "hll_sparse_is_val b \<longleftrightarrow> 128 \<le> unat b"
proof -
  have "hll_sparse_is_val b \<longleftrightarrow> bit b 7"
    using and_one_hot_zero [of 7 b] by (simp add: hll_sparse_is_val_def)
  also have "bit b 7 = bit (unat b) 7" by (simp add: bit_unsigned_iff)
  also have "\<dots> = odd (unat b div 128)" by (simp add: bit_iff_odd)
  also have "unat b div 128 = (if 128 \<le> unat b then 1 else 0)"
    using unat_u8_less [of b] by (auto intro: div_nat_eqI)
  finally show ?thesis by simp
qed

lemma zero_len_eq: "hll_sparse_zero_len b = unat b mod 64 + 1"
  using low_bits_u8 [of 6 b] by (simp add: hll_sparse_zero_len_def)

lemma val_len_eq: "hll_sparse_val_len b = unat b mod 4 + 1"
  using low_bits_u8 [of 2 b] by (simp add: hll_sparse_val_len_def)

lemma val_value_eq: "hll_sparse_val_value b = unat b div 4 mod 32 + 1"
proof -
  have "unat (drop_bit 2 b) = unat b div 4" by (simp only: unat_drop_bit_eq) (simp add: drop_bit_eq_div)
  then show ?thesis using low_bits_u8 [of 5 "drop_bit 2 b"] by (simp add: hll_sparse_val_value_def)
qed

lemma xzero_len_eq: "hll_sparse_xzero_len b c = unat b mod 64 * 256 + unat c + 1"
proof -
  have low: "unat (b AND 0x3F) = unat b mod 64" using low_bits_u8 [of 6 b] by simp
  have "(push_bit 8 (ucast (b AND 0x3F)) OR ucast c :: u32) = push_bit 8 (ucast (b AND 0x3F)) + ucast c"
    by (rule disjunctive_add [symmetric]) (auto simp: bit_push_bit_iff bit_ucast_iff dest: bit_imp_le_length)
  moreover have "push_bit 8 (ucast (b AND 0x3F)) = (ucast (b AND 0x3F) * 256 :: u32)"
    by (simp add: push_bit_eq_mult)
  moreover have "unat b mod 64 * 256 + unat c < 4294967296"
  proof -
    have "unat b mod 64 < 64" by simp
    then show ?thesis using unat_u8_less [of c] by linarith
  qed
  ultimately show ?thesis
    by (simp only: hll_sparse_xzero_len_def unat_word_ariths unat_ucast_up low) (simp add: unat_ucast_up low)
qed

lemma or_plus_u8:
  assumes "\<And>n. bit x n \<Longrightarrow> n \<in> A" "\<And>n. bit y n \<Longrightarrow> n \<notin> A"
  shows "x OR y = x + (y :: u8)"
  by (rule disjunctive_add [symmetric]) (use assms in blast)

lemma val_byte_eq:
  assumes "v < 32" "l < 4"
  shows "push_bit 2 (of_nat v) OR of_nat l OR 0x80 = (of_nat (128 + 4 * v + l) :: u8)"
proof -
  have bv: "bit (of_nat v :: u8) n \<Longrightarrow> n < 5" for n using assms(1) bit_of_nat_u8_less [of v 5] by simp
  have bl: "bit (of_nat l :: u8) n \<Longrightarrow> n < 2" for n using assms(2) bit_of_nat_u8_less [of l 2] by simp
  have b80: "bit (0x80 :: u8) n \<Longrightarrow> n = 7" for n using bit_one_hot [of 7 n] by simp
  have 1: "push_bit 2 (of_nat v) OR (of_nat l OR 0x80) = push_bit 2 (of_nat v) + (of_nat l OR 0x80 :: u8)"
  proof (rule or_plus_u8 [of _ "{2 ..< 7}"])
    fix n assume "bit (push_bit 2 (of_nat v) :: u8) n"
    then have "2 \<le> n" "bit (of_nat v :: u8) (n - 2)" by (auto simp: bit_push_bit_iff)
    with bv show "n \<in> {2 ..< 7}" by fastforce
  next
    fix n assume "bit (of_nat l OR 0x80 :: u8) n"
    then have "bit (of_nat l :: u8) n \<or> bit (0x80 :: u8) n" by (simp only: bit_or_iff)
    with bl b80 show "n \<notin> {2 ..< 7}" by fastforce
  qed
  have 2: "(of_nat l OR 0x80 :: u8) = of_nat l + 0x80"
    by (rule or_plus_u8 [of _ "{..<2}"]) (use bl b80 in fastforce)+
  have 3: "push_bit 2 (of_nat v) = (4 * of_nat v :: u8)" by (simp add: push_bit_eq_mult mult.commute)
  show ?thesis by (subst 1, subst 2, subst 3) simp
qed

lemma xzero_byte_eq:
  assumes "h < 64"
  shows "of_nat h OR 0x40 = (of_nat (64 + h) :: u8)"
proof -
  have b: "bit (of_nat h :: u8) n \<Longrightarrow> n < 6" for n using assms bit_of_nat_u8_less [of h 6] by simp
  have b40: "bit (0x40 :: u8) n \<Longrightarrow> n = 6" for n using bit_one_hot [of 6 n] by simp
  have "of_nat h OR 0x40 = of_nat h + (0x40 :: u8)"
    by (rule or_plus_u8 [of _ "{..<6}"]) (use b b40 in fastforce)+
  then show ?thesis by (simp add: add.commute)
qed

section \<open>The registers that opcodes stand for\<close>

fun expand :: "bytes \<Rightarrow> nat list" where
  "expand [] = []"
| "expand (b # s) =
     (if hll_sparse_is_zero b then replicate (hll_sparse_zero_len b) 0 @ expand s
      else if hll_sparse_is_xzero b then
        (case s of [] \<Rightarrow> []
         | c # s' \<Rightarrow> replicate (hll_sparse_xzero_len b c) 0 @ expand s')
      else replicate (hll_sparse_val_len b) (hll_sparse_val_value b) @ expand s)"

text \<open>\<open>parses s\<close>: no two-byte opcode is cut off at the end.\<close>

fun parses :: "bytes \<Rightarrow> bool" where
  "parses [] = True"
| "parses (b # s) =
     (if hll_sparse_is_xzero b then (case s of [] \<Rightarrow> False | c # s' \<Rightarrow> parses s') else parses s)"

definition is_op :: "bytes \<Rightarrow> bool" where
  "is_op x \<longleftrightarrow> (\<exists>b. x = [b] \<and> \<not> hll_sparse_is_xzero b) \<or> (\<exists>b c. x = [b, c] \<and> hll_sparse_is_xzero b)"

lemma not_zero_xzero: "hll_sparse_is_zero b \<Longrightarrow> \<not> hll_sparse_is_xzero b"
  by (simp add: is_zero_iff is_xzero_iff)

lemma val_cases: "hll_sparse_is_val b \<longleftrightarrow> \<not> hll_sparse_is_zero b \<and> \<not> hll_sparse_is_xzero b"
  by (auto simp: is_zero_iff is_xzero_iff is_val_iff)

lemma parses_append: "parses s \<Longrightarrow> parses (s @ t) = parses t"
proof (induction s rule: parses.induct)
  case (2 b s)
  then show ?case by (cases s) (auto split: if_splits)
qed simp

lemma expand_append: "parses s \<Longrightarrow> expand (s @ t) = expand s @ expand t"
proof (induction s rule: expand.induct)
  case (2 b s)
  consider "hll_sparse_is_zero b" | "hll_sparse_is_xzero b" | "\<not> hll_sparse_is_zero b" "\<not> hll_sparse_is_xzero b"
    by blast
  then show ?case
  proof cases
    case 1
    with 2 not_zero_xzero [OF 1] show ?thesis by simp
  next
    case 2
    with "2.prems" "2.IH" not_zero_xzero [of b] show ?thesis by (cases s) auto
  next
    case 3
    with 2 show ?thesis by simp
  qed
qed simp

lemma is_op_parses: "is_op x \<Longrightarrow> parses x"
  by (auto simp: is_op_def)

lemma is_op_expand: "is_op x \<Longrightarrow> expand x \<noteq> []"
  by (auto simp: is_op_def hll_sparse_zero_len_def hll_sparse_xzero_len_def hll_sparse_val_len_def
      is_zero_iff is_xzero_iff)

lemma parses_split:
  assumes "parses s" "s \<noteq> []"
  obtains x t where "s = x @ t" "is_op x" "parses t"
proof -
  obtain b r where s: "s = b # r" using assms(2) by (cases s) auto
  show ?thesis
  proof (cases "hll_sparse_is_xzero b")
    case True
    then obtain c t where "r = c # t" "parses t" using assms(1) s by (cases r) auto
    with True s that [of "[b, c]" t] show ?thesis by (simp add: is_op_def)
  next
    case False
    with assms(1) s that [of "[b]" r] show ?thesis by (simp add: is_op_def)
  qed
qed

lemma val_value_bounds: "1 \<le> hll_sparse_val_value b" "hll_sparse_val_value b \<le> 32"
proof -
  have "unat b div 4 mod 32 < 32" by simp
  then show "1 \<le> hll_sparse_val_value b" "hll_sparse_val_value b \<le> 32" by (simp_all add: val_value_eq)
qed

lemma val_len_bounds: "1 \<le> hll_sparse_val_len b" "hll_sparse_val_len b \<le> 4"
proof -
  have "unat b mod 4 < 4" by simp
  then show "1 \<le> hll_sparse_val_len b" "hll_sparse_val_len b \<le> 4" by (simp_all add: val_len_eq)
qed

lemma expand_values: "v \<in> set (expand s) \<Longrightarrow> v \<le> 32"
proof (induction s rule: expand.induct)
  case (2 b s)
  then show ?case using val_value_bounds [of b] by (auto split: if_splits list.splits)
qed simp

lemma zero_byte: "unat b < 64 \<Longrightarrow> is_op [b] \<and> expand [b] = replicate (unat b + 1) 0"
  by (simp add: is_op_def is_zero_iff is_xzero_iff zero_len_eq)

lemma xzero_bytes:
  "unat b = 64 + h \<Longrightarrow> h < 64 \<Longrightarrow> is_op [b, c] \<and> expand [b, c] = replicate (h * 256 + unat c + 1) 0"
  by (simp add: is_op_def is_zero_iff is_xzero_iff xzero_len_eq)

lemma val_byte:
  assumes "unat b = 128 + 4 * v + l" "v < 32" "l < 4"
  shows "is_op [b] \<and> expand [b] = replicate (l + 1) (v + 1)"
proof -
  have u: "unat b = l + 4 * (32 + v)" using assms(1) by simp
  have "unat b mod 4 = l" using assms(3) unfolding u by (simp only: mod_mult_self2) simp
  moreover have "unat b div 4 = 32 + v"
    using assms(3) unfolding u by (subst div_mult_self2) simp_all
  ultimately have "hll_sparse_val_len b = l + 1" "hll_sparse_val_value b = v + 1"
    using assms(2) by (simp_all add: val_len_eq val_value_eq)
  moreover have "\<not> unat b < 64" "\<not> (64 \<le> unat b \<and> unat b < 128)" using assms(1) by simp_all
  ultimately show ?thesis by (simp add: is_op_def is_zero_iff is_xzero_iff)
qed

lemma unat_of_nat_u8_id: "n < 256 \<Longrightarrow> unat (of_nat n :: u8) = n"
  by (simp add: unat_of_nat)

lemma val_set_op:
  assumes "1 \<le> v" "v \<le> 32" "1 \<le> l" "l \<le> 4"
  shows "is_op (hll_sparse_val_set v l) \<and> expand (hll_sparse_val_set v l) = replicate l v"
proof -
  obtain v' l' where vl: "v = Suc v'" "l = Suc l'" "v' < 32" "l' < 4"
    using assms by (cases v; cases l) auto
  have "hll_sparse_val_set v l = [of_nat (128 + 4 * v' + l')]"
    using val_byte_eq [OF vl(3,4)] by (simp add: hll_sparse_val_set_def vl)
  moreover have "unat (of_nat (128 + 4 * v' + l') :: u8) = 128 + 4 * v' + l'"
    using vl by (intro unat_of_nat_u8_id) simp
  ultimately show ?thesis using val_byte [OF _ vl(3,4)] vl(1,2) by simp
qed

lemma zero_set_op:
  assumes "1 \<le> l" "l \<le> 64"
  shows "is_op (hll_sparse_zero_set l) \<and> expand (hll_sparse_zero_set l) = replicate l 0"
proof -
  obtain l' where l: "l = Suc l'" "l' < 64" using assms by (cases l) auto
  then have "unat (of_nat l' :: u8) = l'" by (intro unat_of_nat_u8_id) simp
  then show ?thesis using zero_byte [of "of_nat l'"] l by (simp add: hll_sparse_zero_set_def)
qed

lemma xzero_set_op:
  assumes "1 \<le> l" "l \<le> 16384"
  shows "is_op (hll_sparse_xzero_set l) \<and> expand (hll_sparse_xzero_set l) = replicate l 0"
proof -
  obtain l' where l: "l = Suc l'" "l' < 16384" using assms by (cases l) auto
  define h c where "h = l' div 256" and "c = l' mod 256"
  have h: "h < 64" using l(2) unfolding h_def by (intro less_mult_imp_div_less) simp
  have c: "c < 256" by (simp add: c_def)
  have "l' AND 0xFF = c"
    using take_bit_eq_mask [of 8 l'] by (simp add: c_def take_bit_eq_mod mask_eq_exp_minus_1)
  then have "hll_sparse_xzero_set l = [of_nat h OR 0x40, of_nat c]"
    by (simp add: hll_sparse_xzero_set_def l(1) Let_def drop_bit_eq_div h_def)
  then have e: "hll_sparse_xzero_set l = [of_nat (64 + h), of_nat c]"
    using xzero_byte_eq [OF h] by simp
  have "unat (of_nat (64 + h) :: u8) = 64 + h" using h by (intro unat_of_nat_u8_id) simp
  from xzero_bytes [OF this h, of "of_nat c"]
  have "is_op [of_nat (64 + h), of_nat c] \<and> expand [of_nat (64 + h), of_nat c] = replicate (h * 256 + c + 1) 0"
    by (simp only: unat_of_nat_u8_id [OF c])
  moreover have "h * 256 + c + 1 = l" by (simp add: h_def c_def l(1))
  ultimately show ?thesis unfolding e by (simp only:)
qed

end
