(* ===== verification/Hll_Sparse.thy ===== *)
theory Hll_Sparse
  imports Hll_Opcodes
begin

text \<open>
  The sparse representation of a HyperLogLog (\<open>src/src/hyperloglog.c\<close>): adding a hash by
  replacing one opcode, merging runs of equal values, promoting the whole to the dense
  representation, and the sum over the registers. A pointer into the registers is an offset. The
  operations return \<open>None\<close> when they would read or write outside of the slice.
\<close>

section \<open>The object\<close>

definition HLL_DENSE :: nat where "HLL_DENSE = 0"
definition HLL_SPARSE :: nat where "HLL_SPARSE = 1"
definition HLL_RAW :: nat where "HLL_RAW = 255"
lemmas hll_encodings = HLL_DENSE_def HLL_SPARSE_def HLL_RAW_def

abbreviation (input) HLL_SPARSE_MAX_BYTES :: nat where "HLL_SPARSE_MAX_BYTES \<equiv> 256"

record hll =
  hll_card :: u64
  hll_encoding :: nat
  hll_registers :: bytes
  hll_registers_owned :: bool

definition hll_invalidate_cache :: "hll \<Rightarrow> hll" where
  "hll_invalidate_cache h = h\<lparr>hll_card := hll_card h OR push_bit 63 1\<rparr>"

definition hll_valid_cache :: "hll \<Rightarrow> bool" where
  "hll_valid_cache h \<longleftrightarrow> drop_bit 63 (hll_card h) = 0"

datatype hll_status = C_OK | C_ERR

section \<open>From sparse to dense\<close>

fun dense_fill :: "bytes \<Rightarrow> nat \<Rightarrow> u8 \<Rightarrow> nat \<Rightarrow> bytes option" where
  "dense_fill dense idx regval 0 = Some dense"
| "dense_fill dense idx regval (Suc runlen) = do {
     dense \<leftarrow> hll_dense_set_register dense idx regval;
     dense_fill dense (idx + 1) regval runlen
   }"

fun to_dense_loop :: "bytes \<Rightarrow> nat \<Rightarrow> bytes \<Rightarrow> (bytes \<times> nat) option" where
  "to_dense_loop [] idx dense = Some (dense, idx)"
| "to_dense_loop (b # s) idx dense =
     (if hll_sparse_is_zero b then to_dense_loop s (idx + hll_sparse_zero_len b) dense
      else if hll_sparse_is_xzero b then
        (case s of [] \<Rightarrow> None
         | c # s' \<Rightarrow> to_dense_loop s' (idx + hll_sparse_xzero_len b c) dense)
      else
        (case dense_fill dense idx (of_nat (hll_sparse_val_value b)) (hll_sparse_val_len b) of
           None \<Rightarrow> None
         | Some dense \<Rightarrow> to_dense_loop s (idx + hll_sparse_val_len b) dense))"

definition hllSparseToDense :: "hll \<Rightarrow> (hll \<times> hll_status) option" where
  "hllSparseToDense h =
     (if hll_encoding h = HLL_DENSE then Some (h, C_OK)
      else do {
        (dense, idx) \<leftarrow> to_dense_loop (hll_registers h) 0 (replicate HLL_DENSE_SIZE 0);
        if idx \<noteq> HLL_REGISTERS then Some (h, C_ERR)
        else Some (h\<lparr>hll_registers := dense, hll_encoding := HLL_DENSE\<rparr>, C_OK)
      })"

section \<open>Adding to the sparse representation\<close>

text \<open>Step 1: the opcode that covers the register. The result is \<open>p\<close>, \<open>prev\<close>, \<open>first\<close> and \<open>span\<close>.\<close>

definition op_len :: "bytes \<Rightarrow> nat \<Rightarrow> nat" where
  "op_len s p = (if hll_sparse_is_zero (s ! p) \<or> hll_sparse_is_val (s ! p) then 1 else 2)"

definition op_span :: "bytes \<Rightarrow> nat \<Rightarrow> nat option" where
  "op_span s p =
     (if hll_sparse_is_zero (s ! p) then Some (hll_sparse_zero_len (s ! p))
      else if hll_sparse_is_val (s ! p) then Some (hll_sparse_val_len (s ! p))
      else if p + 1 < length s then Some (hll_sparse_xzero_len (s ! p) (s ! (p + 1)))
      else None)"

function sparse_locate ::
  "bytes \<Rightarrow> nat \<Rightarrow> nat \<Rightarrow> nat option \<Rightarrow> nat \<Rightarrow> nat \<Rightarrow> (nat \<times> nat option \<times> nat \<times> nat) option" where
  "sparse_locate s index p prev first spn =
     (if p < length s then
        (case op_span s p of None \<Rightarrow> None
         | Some spn \<Rightarrow>
             if index \<le> first + spn - 1 then Some (p, prev, first, spn)
             else sparse_locate s index (p + op_len s p) (Some p) (first + spn) spn)
      else Some (p, prev, first, spn))"
  by pat_completeness auto
termination
  by (relation "measure (\<lambda>(s, index, p, prev, first, spn). length s - p)") (auto simp: op_len_def)

declare sparse_locate.simps [simp del]

text \<open>Step 2: the opcodes that replace it.\<close>

definition zero_run :: "nat \<Rightarrow> bytes" where
  "zero_run len = (if len > 64 then hll_sparse_xzero_set len else hll_sparse_zero_set len)"

definition split_zero :: "nat \<Rightarrow> nat \<Rightarrow> nat \<Rightarrow> nat \<Rightarrow> bytes" where
  "split_zero index first last_reg count =
     (if index \<noteq> first then zero_run (index - first) else []) @
     hll_sparse_val_set count 1 @
     (if index \<noteq> last_reg then zero_run (last_reg - index) else [])"

definition split_val :: "nat \<Rightarrow> nat \<Rightarrow> nat \<Rightarrow> nat \<Rightarrow> nat \<Rightarrow> bytes" where
  "split_val index first last_reg count curval =
     (if index \<noteq> first then hll_sparse_val_set curval (index - first) else []) @
     hll_sparse_val_set count 1 @
     (if index \<noteq> last_reg then hll_sparse_val_set curval (last_reg - index) else [])"

text \<open>
  Step 4: merging adjacent runs of the same value. The \<open>memmove\<close> of the code moves the byte after
  the end as well, which is not part of the slice.
\<close>

fun merge_vals :: "bytes \<Rightarrow> nat \<Rightarrow> nat \<Rightarrow> bytes" where
  "merge_vals s p 0 = s"
| "merge_vals s p (Suc scanlen) =
     (if p < length s then
        if hll_sparse_is_xzero (s ! p) then merge_vals s (p + 2) scanlen
        else if hll_sparse_is_zero (s ! p) then merge_vals s (p + 1) scanlen
        else if p + 1 < length s \<and> hll_sparse_is_val (s ! (p + 1)) \<and>
            hll_sparse_val_value (s ! p) = hll_sparse_val_value (s ! (p + 1)) \<and>
            hll_sparse_val_len (s ! p) + hll_sparse_val_len (s ! (p + 1)) \<le> 4
          then merge_vals
            (take p s @ hll_sparse_val_set (hll_sparse_val_value (s ! p))
                (hll_sparse_val_len (s ! p) + hll_sparse_val_len (s ! (p + 1))) @ drop (p + 2) s)
            p scanlen
        else merge_vals s (p + 1) scanlen
      else s)"

definition sparse_updated :: "hll \<Rightarrow> bytes \<Rightarrow> nat option \<Rightarrow> hll" where
  "sparse_updated h s prev =
     (let p = (case prev of Some q \<Rightarrow> q | None \<Rightarrow> 0)
      in hll_invalidate_cache (h\<lparr>hll_registers := merge_vals s p 5\<rparr>))"

definition sparse_promote :: "hll \<Rightarrow> u64 \<Rightarrow> (hll \<times> int) option" where
  "sparse_promote h hash = do {
     (h, st) \<leftarrow> hllSparseToDense h;
     if st = C_ERR then Some (h, -1)
     else do {
       (regs, dense_retval) \<leftarrow> hllDenseAdd (hll_registers h) hash;
       c_assert (dense_retval = 1);
       Some (h\<lparr>hll_registers := regs\<rparr>, dense_retval)
     }
   }"

definition hllSparseAdd :: "hll \<Rightarrow> u64 \<Rightarrow> (hll \<times> int) option" where
  "hllSparseAdd h hash =
     (let (count, index) = hllPatLen hash; s = hll_registers h in
      if count > 32 then sparse_promote h hash
      else do {
        (p, prev, first, spn) \<leftarrow> sparse_locate s index 0 None 0 0;
        if spn = 0 then Some (h, -1)
        else do {
          c_assert (p < length s);
          let is_zero = hll_sparse_is_zero (s ! p);
          let is_xzero = hll_sparse_is_xzero (s ! p);
          let is_val = (\<not> is_zero \<and> \<not> is_xzero);
          let oldcount = hll_sparse_val_value (s ! p);
          if is_val \<and> oldcount \<ge> count then Some (h, 0)
          else if (is_val \<or> is_zero) \<and> spn = 1
          then Some (sparse_updated h (splice p (hll_sparse_val_set count 1) s) prev, 1)
          else do {
            let last_reg = first + spn - 1;
            let seq = (if is_zero \<or> is_xzero then split_zero index first last_reg count
                       else split_val index first last_reg count oldcount);
            let oldlen = (if is_xzero then 2 else 1);
            if length seq > oldlen \<and> length s > HLL_SPARSE_MAX_BYTES then sparse_promote h hash
            else Some (sparse_updated h (take p s @ seq @ drop (p + oldlen) s) prev, 1)
          }
        }
      })"

section \<open>Locating the opcode\<close>

lemma op_at:
  assumes "is_op x"
  shows "op_len (pre @ x @ t) (length pre) = length x"
    and "op_span (pre @ x @ t) (length pre) = Some (length (expand x))"
proof -
  consider b where "x = [b]" "\<not> hll_sparse_is_xzero b" | b c where "x = [b, c]" "hll_sparse_is_xzero b"
    using assms by (auto simp: is_op_def)
  then have "op_len (pre @ x @ t) (length pre) = length x \<and>
      op_span (pre @ x @ t) (length pre) = Some (length (expand x))"
  proof cases
    case 1
    then show ?thesis by (auto simp: op_len_def op_span_def nth_append val_cases)
  next
    case 2
    then have "\<not> hll_sparse_is_zero b" "\<not> hll_sparse_is_val b"
      using not_zero_xzero val_cases by blast+
    with 2 show ?thesis by (simp add: op_len_def op_span_def nth_append)
  qed
  then show "op_len (pre @ x @ t) (length pre) = length x"
    "op_span (pre @ x @ t) (length pre) = Some (length (expand x))" by blast+
qed

text \<open>\<open>at_op s pre x post\<close>: \<open>x\<close> is an opcode of \<open>s\<close>.\<close>

definition at_op :: "bytes \<Rightarrow> bytes \<Rightarrow> bytes \<Rightarrow> bytes \<Rightarrow> bool" where
  "at_op s pre x post \<longleftrightarrow> s = pre @ x @ post \<and> parses pre \<and> is_op x \<and> parses post"

definition prev_ok :: "nat option \<Rightarrow> bytes \<Rightarrow> bool" where
  "prev_ok prev pre \<longleftrightarrow>
     (case prev of None \<Rightarrow> pre = []
      | Some q \<Rightarrow> \<exists>a x. pre = a @ x \<and> parses a \<and> is_op x \<and> q = length a)"

lemma sparse_locate_eq:
  assumes "s = pre @ rest" "parses pre" "parses rest" "length (expand pre) \<le> index"
    "index < length (expand s)" "prev_ok prev pre"
  shows "\<exists>pre x post prev'. at_op s pre x post \<and> prev_ok prev' pre \<and>
    sparse_locate s index (length (s) - length rest) prev (length (expand s) - length (expand rest)) spn =
      Some (length pre, prev', length (expand pre), length (expand x)) \<and>
    length (expand pre) \<le> index \<and> index < length (expand pre) + length (expand x)"
  using assms
proof (induction "length rest" arbitrary: pre rest prev spn rule: less_induct)
  case less
  have e: "expand s = expand pre @ expand rest" using less.prems(1,2) by (simp add: expand_append)
  then have "rest \<noteq> []" using less.prems(4,5) by auto
  then obtain x t where x: "rest = x @ t" "is_op x" "parses t"
    using parses_split less.prems(3) by metis
  have ex: "expand rest = expand x @ expand t" using x is_op_parses by (simp add: expand_append)
  have ne: "x \<noteq> []" "expand x \<noteq> []" using x(2) is_op_expand by (auto simp: is_op_def)
  have s: "s = pre @ x @ t" using less.prems(1) x(1) by simp
  have p: "length s - length rest = length pre" "length (expand s) - length (expand rest) = length (expand pre)"
    using less.prems(1) e by simp_all
  have pl: "length pre < length s" using s ne by simp
  note op = op_at [OF x(2), of pre t, folded s]
  have pos: "0 < length (expand x)" using ne by simp
  show ?case
  proof (cases "index < length (expand pre) + length (expand x)")
    case True
    then have "index \<le> length (expand pre) + length (expand x) - 1" by simp
    then have "sparse_locate s index (length pre) prev (length (expand pre)) spn =
        Some (length pre, prev, length (expand pre), length (expand x))"
      using pl op(2) by (subst sparse_locate.simps) simp
    then show ?thesis unfolding p
      using s x less.prems(2,4,6) True unfolding at_op_def by blast
  next
    case False
    have "sparse_locate s index (length pre) prev (length (expand pre)) spn =
        sparse_locate s index (length pre + length x) (Some (length pre))
          (length (expand pre) + length (expand x)) (length (expand x))"
    proof -
      have "\<not> index \<le> length (expand pre) + length (expand x) - 1" using False pos by linarith
      then show ?thesis using pl op by (subst sparse_locate.simps) simp
    qed
    moreover have "parses (pre @ x)" using less.prems(2) x(2) by (simp add: parses_append is_op_parses)
    moreover have "expand (pre @ x) = expand pre @ expand x" using less.prems(2) by (simp add: expand_append)
    moreover have "prev_ok (Some (length pre)) (pre @ x)"
      using less.prems(2) x(2) by (auto simp: prev_ok_def)
    moreover have "length t < length rest" using x(1) ne by simp
    moreover have "length s - length t = length pre + length x" using s by simp
    moreover have "length (expand s) - length (expand t) = length (expand pre) + length (expand x)"
      using e ex by simp
    ultimately show ?thesis unfolding p
      using less.hyps [of t "pre @ x" "Some (length pre)" "length (expand x)"] s x(3) less.prems(5) False
      by simp
  qed
qed

section \<open>Replacing opcodes\<close>

lemma length_val_set [simp]: "length (hll_sparse_val_set v l) = 1"
  by (simp add: hll_sparse_val_set_def)

lemma merge_vals_spec:
  "s = pre @ rest \<Longrightarrow> parses pre \<Longrightarrow> parses rest \<Longrightarrow>
    parses (merge_vals s (length pre) n) \<and> expand (merge_vals s (length pre) n) = expand s \<and>
    length (merge_vals s (length pre) n) \<le> length s"
proof (induction n arbitrary: s pre rest)
  case 0
  then show ?case by (simp add: parses_append)
next
  case (Suc n)
  show ?case
  proof (cases "rest = []")
    case True
    with Suc.prems show ?thesis by simp
  next
    case False
    obtain x t where x: "rest = x @ t" "is_op x" "parses t"
      using parses_split [OF Suc.prems(3) False] .
    have pl: "length pre < length s" using Suc.prems(1) False by simp
    have next_op: "parses (merge_vals s (length (pre @ x)) n) \<and>
        expand (merge_vals s (length (pre @ x)) n) = expand s \<and>
        length (merge_vals s (length (pre @ x)) n) \<le> length s"
      using Suc.IH [of s "pre @ x" t] Suc.prems x by (simp add: parses_append is_op_parses)
    from x(2) consider (one) b where "x = [b]" "\<not> hll_sparse_is_xzero b"
      | (two) b c where "x = [b, c]" "hll_sparse_is_xzero b"
      by (auto simp: is_op_def)
    then show ?thesis
    proof cases
      case two
      then show ?thesis using pl next_op Suc.prems(1) x(1) by (simp add: nth_append)
    next
      case one
      have sp: "s ! length pre = b" using Suc.prems(1) x(1) one by (simp add: nth_append)
      show ?thesis
      proof (cases "hll_sparse_is_zero b")
        case True
        then show ?thesis using pl next_op one sp by simp
      next
        case val: False
        let ?v = "hll_sparse_val_value b"
        show ?thesis
        proof (cases "length pre + 1 < length s \<and> hll_sparse_is_val (s ! (length pre + 1)) \<and>
            hll_sparse_val_value b = hll_sparse_val_value (s ! (length pre + 1)) \<and>
            hll_sparse_val_len b + hll_sparse_val_len (s ! (length pre + 1)) \<le> 4")
          case False
          then have "merge_vals s (length pre) (Suc n) = merge_vals s (length (pre @ x)) n"
            using pl one sp val by auto
          then show ?thesis using next_op by simp
        next
          case True
          then obtain c t' where t: "t = c # t'" using Suc.prems(1) x(1) one by (cases t) auto
          have sc: "s ! (length pre + 1) = c" using Suc.prems(1) x(1) one t by (simp add: nth_append)
          let ?l = "hll_sparse_val_len b + hll_sparse_val_len c"
          let ?s = "pre @ hll_sparse_val_set ?v ?l @ t'"
          note c = True [unfolded sc]
          have cv: "\<not> hll_sparse_is_zero c" "\<not> hll_sparse_is_xzero c" using c val_cases by blast+
          have vs: "is_op (hll_sparse_val_set ?v ?l)" "expand (hll_sparse_val_set ?v ?l) = replicate ?l ?v"
            using val_set_op [of ?v ?l] val_value_bounds [of b] val_len_bounds [of b] c by auto
          have t': "parses t'" using x(3) t cv by simp
          have m: "merge_vals s (length pre) (Suc n) = merge_vals ?s (length pre) n"
            using pl one sp sc val True Suc.prems(1) x(1) t by simp
          have "parses (hll_sparse_val_set ?v ?l @ t')"
            using vs(1) t' by (simp add: parses_append is_op_parses)
          from Suc.IH [OF refl Suc.prems(2) this]
          have IH: "parses (merge_vals ?s (length pre) n)" "expand (merge_vals ?s (length pre) n) = expand ?s"
            "length (merge_vals ?s (length pre) n) \<le> length ?s" by simp_all
          have "expand ?s = expand pre @ replicate ?l ?v @ expand t'"
            using Suc.prems(2) vs by (simp only: expand_append is_op_parses)
          also have "\<dots> = expand s"
            using Suc.prems(1,2) x(1) one t val cv c by (simp add: expand_append replicate_add)
          finally show ?thesis
            using IH m Suc.prems(1) x(1) one t by simp
        qed
      qed
    qed
  qed
qed

lemma zero_run_op:
  "1 \<le> len \<Longrightarrow> len \<le> 16384 \<Longrightarrow> is_op (zero_run len) \<and> expand (zero_run len) = replicate len 0 \<and>
    length (zero_run len) = (if len > 64 then 2 else 1)"
  using zero_set_op [of len] xzero_set_op [of len]
  by (auto simp: zero_run_def hll_sparse_zero_set_def hll_sparse_xzero_set_def Let_def)

lemma list_update_replicate:
  "i < n \<Longrightarrow> (replicate n v)[i := w] = replicate i v @ [w] @ replicate (n - Suc i) v"
  by (rule nth_equalityI) (auto simp: nth_append nth_list_update nth_Cons')

lemma split_zero_spec:
  assumes "first \<le> index" "index < first + n" "n \<le> 16384" "1 \<le> count" "count \<le> 32"
  shows "parses (split_zero index first (first + n - 1) count)"
    and "expand (split_zero index first (first + n - 1) count) = (replicate n 0)[index - first := count]"
    and "length (split_zero index first (first + n - 1) count) \<le> 5"
    and "n \<le> 64 \<Longrightarrow> length (split_zero index first (first + n - 1) count) \<le> 3"
proof -
  obtain i where i: "index = first + i" "i < n" using assms(1,2) by (metis le_Suc_ex nat_add_left_cancel_less)
  then obtain m where n: "n = i + Suc m" by (metis add_Suc_right less_imp_Suc_add)
  have d: "first + n - 1 = first + i + m" using n by simp
  have u: "(replicate n w)[index - first := count] = replicate i w @ [count] @ replicate m w" for w
    using list_update_replicate [OF i(2), of w count] i(1) n by (simp only: add_diff_cancel_left') simp
  have v: "is_op (hll_sparse_val_set count 1)" "expand (hll_sparse_val_set count 1) = [count]"
    using val_set_op [of count 1] assms(4,5) by simp_all
  note defs = split_zero_def d i(1)
  show "parses (split_zero index first (first + n - 1) count)"
    using zero_run_op [of i] zero_run_op [of m] n assms(3) v
    by (auto simp: defs parses_append is_op_parses)
  show "expand (split_zero index first (first + n - 1) count) = (replicate n 0)[index - first := count]"
    using zero_run_op [of i] zero_run_op [of m] n assms(3) v
    unfolding u by (auto simp: defs expand_append is_op_parses)
  show "length (split_zero index first (first + n - 1) count) \<le> 5"
    using zero_run_op [of i] zero_run_op [of m] n assms(3)
    by (auto simp: defs)
  show "n \<le> 64 \<Longrightarrow> length (split_zero index first (first + n - 1) count) \<le> 3"
    using zero_run_op [of i] zero_run_op [of m] n assms(3)
    by (auto simp: defs)
qed

lemma split_val_spec:
  assumes "first \<le> index" "index < first + n" "n \<le> 4" "1 \<le> count" "count \<le> 32" "1 \<le> v" "v \<le> 32"
  shows "parses (split_val index first (first + n - 1) count v)"
    and "expand (split_val index first (first + n - 1) count v) = (replicate n v)[index - first := count]"
    and "length (split_val index first (first + n - 1) count v) \<le> 3"
proof -
  obtain i where i: "index = first + i" "i < n" using assms(1,2) by (metis le_Suc_ex nat_add_left_cancel_less)
  then obtain m where n: "n = i + Suc m" by (metis add_Suc_right less_imp_Suc_add)
  have d: "first + n - 1 = first + i + m" using n by simp
  have u: "(replicate n w)[index - first := count] = replicate i w @ [count] @ replicate m w" for w
    using list_update_replicate [OF i(2), of w count] i(1) n by (simp only: add_diff_cancel_left') simp
  have c: "is_op (hll_sparse_val_set count 1)" "expand (hll_sparse_val_set count 1) = [count]"
    using val_set_op [of count 1] assms(4,5) by simp_all
  have vs: "1 \<le> l \<Longrightarrow> l \<le> 4 \<Longrightarrow> is_op (hll_sparse_val_set v l) \<and> expand (hll_sparse_val_set v l) = replicate l v" for l
    using val_set_op assms(6,7) by blast
  note defs = split_val_def d i(1)
  show "parses (split_val index first (first + n - 1) count v)"
    using vs [of i] vs [of m] n assms(3) c
    by (auto simp: defs parses_append is_op_parses)
  show "expand (split_val index first (first + n - 1) count v) = (replicate n v)[index - first := count]"
    using vs [of i] vs [of m] n assms(3) c
    unfolding u by (auto simp: defs expand_append is_op_parses)
  show "length (split_val index first (first + n - 1) count v) \<le> 3"
    by (simp add: defs)
qed

section \<open>The promotion keeps the registers\<close>

lemma dense_fill_spec:
  "idx + n \<le> HLL_REGISTERS \<Longrightarrow> length d = HLL_DENSE_SIZE \<Longrightarrow> unat v < 64 \<Longrightarrow>
    \<exists>d'. dense_fill d idx v n = Some d' \<and> length d' = HLL_DENSE_SIZE \<and>
      (\<forall>k. dense_regs d' k = (if idx \<le> k \<and> k < idx + n then unat v else dense_regs d k))"
proof (induction n arbitrary: idx d)
  case (Suc n)
  have "idx * 6 div 8 + 1 < length d" using Suc.prems by (intro dense_index) simp_all
  then obtain d1 where d1: "hll_dense_set_register d idx v = Some d1" "length d1 = length d"
    "\<forall>k. dense_reg d1 k = (if k = idx then v else dense_reg d k)"
    using dense_set_eq Suc.prems(3) by blast
  have "\<exists>d'. dense_fill d1 (idx + 1) v n = Some d' \<and> length d' = HLL_DENSE_SIZE \<and>
      (\<forall>k. dense_regs d' k = (if idx + 1 \<le> k \<and> k < idx + 1 + n then unat v else dense_regs d1 k))"
    using Suc.prems d1(2) by (intro Suc.IH) simp_all
  then obtain d' where d': "dense_fill d1 (idx + 1) v n = Some d'" "length d' = HLL_DENSE_SIZE"
    "\<forall>k. dense_regs d' k = (if idx + 1 \<le> k \<and> k < idx + 1 + n then unat v else dense_regs d1 k)"
    by blast
  have "dense_regs d' k = (if idx \<le> k \<and> k < idx + Suc n then unat v else dense_regs d k)" for k
    using d'(3) d1(3) by (auto simp: dense_regs_def)
  with d1(1) d'(1,2) show ?case by simp
qed auto

lemma nth_replicate_append:
  "(replicate n v @ xs) ! k = (if k < n then v else xs ! (k - n))"
  by (simp add: nth_append)

lemma to_dense_loop_spec:
  "parses s \<Longrightarrow> idx + length (expand s) \<le> HLL_REGISTERS \<Longrightarrow> length d = HLL_DENSE_SIZE \<Longrightarrow>
    \<forall>k \<ge> idx. k < HLL_REGISTERS \<longrightarrow> dense_regs d k = 0 \<Longrightarrow>
    \<exists>d'. to_dense_loop s idx d = Some (d', idx + length (expand s)) \<and> length d' = HLL_DENSE_SIZE \<and>
      (\<forall>k. dense_regs d' k =
        (if idx \<le> k \<and> k < idx + length (expand s) then expand s ! (k - idx) else dense_regs d k))"
proof (induction s arbitrary: idx d rule: length_induct)
  case (1 s)
  show ?case
  proof (cases "s = []")
    case True
    then show ?thesis using "1.prems" by auto
  next
    case False
    obtain x t where x: "s = x @ t" "is_op x" "parses t" using parses_split [OF "1.prems"(1) False] .
    have e: "expand s = expand x @ expand t" using x by (simp add: expand_append is_op_parses)
    have lt: "length t < length s" using x by (auto simp: is_op_def)
    let ?n = "length (expand x)"
    obtain d1 where d1: "to_dense_loop s idx d = to_dense_loop t (idx + ?n) d1" "length d1 = HLL_DENSE_SIZE"
      "\<forall>k. dense_regs d1 k = (if idx \<le> k \<and> k < idx + ?n then expand x ! (k - idx) else dense_regs d k)"
    proof -
      from x(2) consider (one) b where "x = [b]" "\<not> hll_sparse_is_xzero b"
        | (two) b c where "x = [b, c]" "hll_sparse_is_xzero b"
        by (auto simp: is_op_def)
      then show ?thesis
      proof cases
        case two
        have nz: "\<not> hll_sparse_is_zero b" using two not_zero_xzero by blast
        have "to_dense_loop s idx d = to_dense_loop t (idx + ?n) d" using two x(1) nz by simp
        moreover have "dense_regs d k = (if idx \<le> k \<and> k < idx + ?n then expand x ! (k - idx) else dense_regs d k)" for k
          using two nz "1.prems"(2,4) e by auto
        ultimately show ?thesis using that "1.prems"(3) by blast
      next
        case one
        show ?thesis
        proof (cases "hll_sparse_is_zero b")
          case True
          have "to_dense_loop s idx d = to_dense_loop t (idx + ?n) d" using one x(1) True by simp
          moreover have "dense_regs d k = (if idx \<le> k \<and> k < idx + ?n then expand x ! (k - idx) else dense_regs d k)" for k
            using one True "1.prems"(2,4) e by auto
          ultimately show ?thesis using that "1.prems"(3) by blast
        next
          case False
          let ?v = "hll_sparse_val_value b" and ?l = "hll_sparse_val_len b"
          have v: "unat (of_nat ?v :: u8) = ?v" using val_value_bounds [of b] by (simp add: unat_of_nat)
          have ex: "expand x = replicate ?l ?v" using one False by simp
          have "idx + ?l \<le> HLL_REGISTERS" using "1.prems"(2) e ex by simp
          then obtain d1 where "dense_fill d idx (of_nat ?v) ?l = Some d1" "length d1 = HLL_DENSE_SIZE"
            "\<forall>k. dense_regs d1 k = (if idx \<le> k \<and> k < idx + ?l then ?v else dense_regs d k)"
            using dense_fill_spec [of idx ?l d "of_nat ?v"] "1.prems"(3) v val_value_bounds [of b] by auto
          moreover have "(if idx \<le> k \<and> k < idx + ?l then ?v else dense_regs d k) =
              (if idx \<le> k \<and> k < idx + ?n then expand x ! (k - idx) else dense_regs d k)" for k
            unfolding ex by auto
          moreover have "?n = ?l" by (simp add: ex)
          ultimately show ?thesis using that [of d1] one False x(1) by simp
        qed
      qed
    qed
    have "\<forall>k \<ge> idx + ?n. k < HLL_REGISTERS \<longrightarrow> dense_regs d1 k = 0" using d1(3) "1.prems"(4) by auto
    moreover have "idx + ?n + length (expand t) \<le> HLL_REGISTERS" using "1.prems"(2) e by simp
    ultimately obtain d' where d': "to_dense_loop t (idx + ?n) d1 = Some (d', idx + ?n + length (expand t))"
      "length d' = HLL_DENSE_SIZE"
      "\<forall>k. dense_regs d' k = (if idx + ?n \<le> k \<and> k < idx + ?n + length (expand t)
         then expand t ! (k - (idx + ?n)) else dense_regs d1 k)"
      using "1.IH" lt x(3) d1(2) by blast
    have "dense_regs d' k =
        (if idx \<le> k \<and> k < idx + length (expand s) then expand s ! (k - idx) else dense_regs d k)" for k
      using d'(3) d1(3) by (auto simp: e nth_append)
    with d1(1) d'(1,2) e show ?thesis by auto
  qed
qed

section \<open>Adding a hash to a HyperLogLog in the sparse representation\<close>

definition sparse_wf :: "bytes \<Rightarrow> bool" where
  "sparse_wf s \<longleftrightarrow> parses s \<and> length (expand s) = HLL_REGISTERS \<and> length s \<le> HLL_SPARSE_MAX_BYTES + 3"

definition hll_wf :: "hll \<Rightarrow> bool" where
  "hll_wf h \<longleftrightarrow>
     (hll_encoding h = HLL_DENSE \<and> length (hll_registers h) = HLL_DENSE_SIZE) \<or>
     (hll_encoding h = HLL_SPARSE \<and> sparse_wf (hll_registers h))"

text \<open>The abstract value of a HyperLogLog: its registers.\<close>

definition hll_regs :: "hll \<Rightarrow> nat \<Rightarrow> nat" where
  "hll_regs h i =
     (if i < HLL_REGISTERS then
        if hll_encoding h = HLL_DENSE then dense_regs (hll_registers h) i
        else expand (hll_registers h) ! i
      else 0)"

lemma bits_of_zeros: "dense_reg (replicate n 0) i = 0"
  by (simp add: dense_reg_def)

lemma hllSparseToDense_eq:
  assumes "hll_wf h"
  shows "\<exists>h'. hllSparseToDense h = Some (h', C_OK) \<and> hll_encoding h' = HLL_DENSE \<and> hll_wf h' \<and>
    hll_regs h' = hll_regs h \<and> hll_card h' = hll_card h \<and> hll_registers_owned h' = hll_registers_owned h"
proof (cases "hll_encoding h = HLL_DENSE")
  case True
  then show ?thesis using assms by (simp add: hllSparseToDense_def)
next
  case False
  then have wf: "sparse_wf (hll_registers h)" using assms by (simp add: hll_wf_def)
  let ?z = "replicate HLL_DENSE_SIZE (0 :: u8)"
  have "\<forall>k \<ge> 0. k < HLL_REGISTERS \<longrightarrow> dense_regs ?z k = 0"
    by (simp add: dense_regs_def bits_of_zeros)
  then obtain d where d: "to_dense_loop (hll_registers h) 0 ?z = Some (d, HLL_REGISTERS)"
    "length d = HLL_DENSE_SIZE"
    "\<forall>k. k < HLL_REGISTERS \<longrightarrow> dense_regs d k = expand (hll_registers h) ! k"
    using to_dense_loop_spec [of "hll_registers h" 0 ?z] wf
    by (auto simp: sparse_wf_def)
  let ?h = "h\<lparr>hll_registers := d, hll_encoding := HLL_DENSE\<rparr>"
  have "hllSparseToDense h = Some (?h, C_OK)"
    using False d(1) by (simp add: hllSparseToDense_def)
  moreover have "hll_regs ?h = hll_regs h"
    using d(3) False by (auto simp: hll_regs_def fun_eq_iff)
  moreover have "hll_wf ?h" using d(2) by (simp add: hll_wf_def)
  ultimately show ?thesis by simp
qed

lemma regs_changed_cong: "(\<And>i. i < HLL_REGISTERS \<Longrightarrow> f i = g i) \<Longrightarrow> regs_changed f hash = regs_changed g hash"
  using hllPatLen_bounds(3) [of hash] by (auto simp: regs_changed_def split: prod.splits)

lemma hll_dense_add:
  assumes "hll_wf h" "hll_encoding h = HLL_DENSE"
  shows "\<exists>r. hllDenseAdd (hll_registers h) hash =
      Some (r, if regs_changed (hll_regs h) hash then 1 else 0) \<and> length r = HLL_DENSE_SIZE \<and>
    hll_regs (h\<lparr>hll_registers := r\<rparr>) = regs_add (hll_regs h) hash"
proof -
  have len: "length (hll_registers h) = HLL_DENSE_SIZE"
    using assms by (simp add: hll_wf_def hll_encodings)
  have "hll_regs h i = dense_regs (hll_registers h) i" if "i < HLL_REGISTERS" for i
    using that assms(2) by (simp add: hll_regs_def)
  note ch = regs_changed_cong [OF this]
  obtain r where r: "hllDenseAdd (hll_registers h) hash =
      Some (r, if regs_changed (dense_regs (hll_registers h)) hash then 1 else 0)"
    "length r = HLL_DENSE_SIZE" "dense_regs r = regs_add (dense_regs (hll_registers h)) hash"
    using hllDenseAdd_eq [OF len] by blast
  have "hll_regs (h\<lparr>hll_registers := r\<rparr>) = regs_add (hll_regs h) hash"
    using r(3) assms(2) hllPatLen_bounds(3) [of hash]
    by (auto simp: hll_regs_def regs_add_def fun_eq_iff split: prod.splits)
  with r ch show ?thesis by auto
qed

lemma sparse_promote_eq:
  assumes "hll_wf h" "regs_changed (hll_regs h) hash"
  shows "\<exists>h'. sparse_promote h hash = Some (h', 1) \<and> hll_wf h' \<and>
    hll_regs h' = regs_add (hll_regs h) hash \<and> hll_registers_owned h' = hll_registers_owned h"
proof -
  obtain h1 where h1: "hllSparseToDense h = Some (h1, C_OK)" "hll_encoding h1 = HLL_DENSE" "hll_wf h1"
    "hll_regs h1 = hll_regs h" "hll_registers_owned h1 = hll_registers_owned h"
    using hllSparseToDense_eq [OF assms(1)] by blast
  obtain r where r: "hllDenseAdd (hll_registers h1) hash = Some (r, 1)" "length r = HLL_DENSE_SIZE"
    "hll_regs (h1\<lparr>hll_registers := r\<rparr>) = regs_add (hll_regs h1) hash"
    using hll_dense_add [OF h1(3,2), of hash] assms(2) h1(4) by auto
  have "hll_wf (h1\<lparr>hll_registers := r\<rparr>)" using r(2) h1(2) by (simp add: hll_wf_def)
  with h1 r show ?thesis by (simp add: sparse_promote_def)
qed

lemma not_valid_invalidated: "\<not> hll_valid_cache (hll_invalidate_cache h)"
proof
  assume "hll_valid_cache (hll_invalidate_cache h)"
  then have "drop_bit 63 (hll_card h OR push_bit 63 1) = 0"
    by (simp only: hll_valid_cache_def hll_invalidate_cache_def) simp
  then have "bit (drop_bit 63 (hll_card h OR push_bit 63 1)) 0 = bit (0 :: u64) 0" by (simp only:)
  then show False by (simp only: bit_drop_bit_eq comp_apply bit_or_iff bit_push_bit_iff) simp
qed

lemma sparse_updated_eq:
  assumes "hll_encoding h = HLL_SPARSE" "s = pre @ rest" "parses pre" "parses rest" "prev_ok prev pre"
    "length (expand s) = HLL_REGISTERS" "length s \<le> HLL_SPARSE_MAX_BYTES + 3"
  shows "hll_wf (sparse_updated h s prev) \<and> \<not> hll_valid_cache (sparse_updated h s prev) \<and>
    (\<forall>i. hll_regs (sparse_updated h s prev) i = (if i < HLL_REGISTERS then expand s ! i else 0))"
proof -
  let ?p = "case prev of Some q \<Rightarrow> q | None \<Rightarrow> 0"
  obtain a b where ab: "s = a @ b" "parses a" "parses b" "?p = length a"
  proof (cases prev)
    case None
    with assms that [of "[]" s] show ?thesis by (simp add: prev_ok_def parses_append)
  next
    case (Some q)
    then obtain a x where x: "pre = a @ x" "parses a" "is_op x" "q = length a"
      using assms(5) by (auto simp: prev_ok_def)
    have "parses (x @ rest)" using x(3) assms(4) by (simp add: parses_append is_op_parses)
    then show ?thesis using that [of a "x @ rest"] assms(2) Some x by simp
  qed
  let ?m = "merge_vals s ?p 5"
  have m: "parses ?m" "expand ?m = expand s" "length ?m \<le> length s"
    using merge_vals_spec [OF ab(1-3), of 5] ab(4) by simp_all
  have wf: "sparse_wf ?m" using m assms(6,7) by (simp add: sparse_wf_def)
  show ?thesis
    using wf m(2) assms(1) not_valid_invalidated
    by (auto simp: sparse_updated_def hll_wf_def hll_regs_def hll_encodings Let_def)
      (auto simp: hll_invalidate_cache_def)
qed

lemma replace_expand:
  assumes "at_op s pre x post" "parses y" "expand y = (expand x)[i := c]" "i < length (expand x)"
  shows "expand (pre @ y @ post) = (expand s)[length (expand pre) + i := c]"
proof -
  have "expand (pre @ y @ post) = expand pre @ (expand x)[i := c] @ expand post"
    using assms(1-3) by (simp add: at_op_def expand_append)
  also have "\<dots> = (expand pre @ expand x @ expand post)[length (expand pre) + i := c]"
    using assms(4) by (simp add: list_update_append)
  finally show ?thesis using assms(1) by (simp add: at_op_def expand_append is_op_parses)
qed

lemma expand_single:
  "is_op [b] \<Longrightarrow> expand [b] = (if hll_sparse_is_zero b then replicate (hll_sparse_zero_len b) 0
     else replicate (hll_sparse_val_len b) (hll_sparse_val_value b))"
  by (simp add: is_op_def)

text \<open>
  The replacement of the opcode at hand: what the step writes stands for the same registers, with
  the one register set, and needs at most three bytes more.
\<close>

lemma split_op_spec:
  assumes "is_op x" "first \<le> index" "index < first + length (expand x)" "1 \<le> count" "count \<le> 32"
    "length (expand x) \<le> 16384"
  defines "b \<equiv> hd x"
  defines "seq \<equiv> (if hll_sparse_is_zero b \<or> hll_sparse_is_xzero b
     then split_zero index first (first + length (expand x) - 1) count
     else split_val index first (first + length (expand x) - 1) count (hll_sparse_val_value b))"
  shows "parses seq \<and> expand seq = (expand x)[index - first := count] \<and> length seq \<le> length x + 3"
proof -
  from assms(1) consider (one) "x = [b]" "\<not> hll_sparse_is_xzero b"
    | (two) c where "x = [b, c]" "hll_sparse_is_xzero b"
    by (auto simp: is_op_def b_def)
  then show ?thesis
  proof cases
    case two
    then have e: "expand x = replicate (length (expand x)) 0" using not_zero_xzero [of b] by auto
    have "seq = split_zero index first (first + length (expand x) - 1) count" using two by (simp add: seq_def)
    then show ?thesis
      using split_zero_spec [OF assms(2,3,6,4,5)] two(1) e by simp
  next
    case one
    show ?thesis
    proof (cases "hll_sparse_is_zero b")
      case True
      then have e: "expand x = replicate (length (expand x)) 0" using one by simp
      have "length (expand x) \<le> 64" using one True by (simp add: zero_len_eq is_zero_iff)
      moreover have "seq = split_zero index first (first + length (expand x) - 1) count"
        using True by (simp add: seq_def)
      ultimately show ?thesis
        using split_zero_spec [OF assms(2,3,6,4,5)] one(1) e by simp
    next
      case False
      have e: "expand x = replicate (length (expand x)) (hll_sparse_val_value b)" using one False by simp
      have l: "length (expand x) \<le> 4" using one False val_len_bounds [of b] by simp
      have "seq = split_val index first (first + length (expand x) - 1) count (hll_sparse_val_value b)"
        using False one by (simp add: seq_def)
      then show ?thesis
        using split_val_spec [OF assms(2,3) l assms(4,5) val_value_bounds [of b]] one(1) e by simp
    qed
  qed
qed

lemma regs_add_list:
  assumes "index < HLL_REGISTERS" "length e = HLL_REGISTERS" "hllPatLen hash = (count, index)"
    "e ! index < count" "\<And>i. f i = (if i < HLL_REGISTERS then e ! i else 0)"
    "\<And>i. g i = (if i < HLL_REGISTERS then e[index := count] ! i else 0)"
  shows "g = regs_add f hash" "regs_changed f hash"
  using assms by (auto simp: regs_add_def regs_changed_def fun_eq_iff nth_list_update)

lemma hllSparseAdd_eq:
  assumes "hll_wf h" "hll_encoding h = HLL_SPARSE"
  shows "\<exists>h'. hllSparseAdd h hash = Some (h', if regs_changed (hll_regs h) hash then 1 else 0) \<and> hll_wf h' \<and>
    hll_regs h' = regs_add (hll_regs h) hash \<and> (\<not> regs_changed (hll_regs h) hash \<longrightarrow> h' = h) \<and>
    hll_registers_owned h' = hll_registers_owned h"
proof -
  let ?s = "hll_registers h"
  obtain count index where pl: "hllPatLen hash = (count, index)" by fastforce
  note b = hllPatLen_bounds [OF pl]
  have wf: "parses ?s" "length (expand ?s) = HLL_REGISTERS" "length ?s \<le> HLL_SPARSE_MAX_BYTES + 3"
    using assms by (simp_all add: hll_wf_def sparse_wf_def hll_encodings)
  have regs: "hll_regs h i = (if i < HLL_REGISTERS then expand ?s ! i else 0)" for i
    using assms(2) by (simp add: hll_regs_def hll_encodings)
  have le32: "expand ?s ! i \<le> 32" if "i < HLL_REGISTERS" for i
    using expand_values nth_mem wf(2) that by metis
  have ch: "regs_changed (hll_regs h) hash \<longleftrightarrow> expand ?s ! index < count"
    using b(3) by (simp add: regs_changed_def pl regs)
  show ?thesis
  proof (cases "count > 32")
    case True
    then have c: "regs_changed (hll_regs h) hash" using ch le32 [OF b(3)] by simp
    with sparse_promote_eq [OF assms(1) c] True show ?thesis by (auto simp: hllSparseAdd_def pl)
  next
    case small: False
    have "\<exists>pre x post prev'. at_op ?s pre x post \<and> prev_ok prev' pre \<and>
      sparse_locate ?s index 0 None 0 0 = Some (length pre, prev', length (expand pre), length (expand x)) \<and>
      length (expand pre) \<le> index \<and> index < length (expand pre) + length (expand x)"
      using sparse_locate_eq [of ?s "[]" ?s index None 0] wf b(3) by (simp add: prev_ok_def)
    then obtain pre x post prev where loc: "at_op ?s pre x post" "prev_ok prev pre"
      "sparse_locate ?s index 0 None 0 0 = Some (length pre, prev, length (expand pre), length (expand x))"
      "length (expand pre) \<le> index" "index < length (expand pre) + length (expand x)" by blast
    define B where "B = hd x"
    have s: "?s = pre @ x @ post" "parses pre" "is_op x" "parses post" using loc(1) by (simp_all add: at_op_def)
    have x: "x = [B] \<and> \<not> hll_sparse_is_xzero B \<or> (\<exists>c. x = [B, c]) \<and> hll_sparse_is_xzero B"
      using s(3) by (auto simp: is_op_def B_def)
    have sp: "?s ! length pre = B" "length pre < length ?s" using s(1) x by (auto simp: nth_append)
    have pos: "length (expand x) \<noteq> 0" using loc(4,5) by linarith
    have ex: "expand ?s = expand pre @ expand x @ expand post"
      using s by (simp add: expand_append is_op_parses)
    have at: "expand ?s ! index = expand x ! (index - length (expand pre))"
      using ex loc(4,5) by (auto simp: nth_append)
    let ?val = "\<not> hll_sparse_is_zero B \<and> \<not> hll_sparse_is_xzero B"
    have val: "expand ?s ! index = hll_sparse_val_value B" if ?val
    proof -
      have "expand x = replicate (hll_sparse_val_len B) (hll_sparse_val_value B)" using x that by auto
      then show ?thesis using at loc(4,5) by simp
    qed
    have zero: "expand ?s ! index = 0" if "\<not> ?val"
    proof -
      have "expand x = replicate (length (expand x)) 0" using x that not_zero_xzero by auto
      then show ?thesis using at loc(4,5) by (metis nth_replicate add_less_imp_less_left le_add_diff_inverse)
    qed
    note unfold = hllSparseAdd_def pl loc(3) sp Let_def
    show ?thesis
    proof (cases "expand ?s ! index < count")
      case False
      then have "?val" using zero b(1) by fastforce
      then have "hllSparseAdd h hash = Some (h, 0)"
        using False val small pos by (simp add: unfold)
      moreover have "regs_add (hll_regs h) hash = hll_regs h"
        using False b(3) by (auto simp: regs_add_def pl regs fun_eq_iff)
      ultimately show ?thesis using False ch assms(1) by simp
    next
      case True
      then have notA: "\<not> (?val \<and> hll_sparse_val_value B \<ge> count)" using val by auto
      have i: "index - length (expand pre) < length (expand x)" "length (expand pre) + (index - length (expand pre)) = index"
        using loc(4,5) by simp_all
      have upd: "\<exists>h'. hllSparseAdd h hash = Some (h', 1) \<and> hll_wf h' \<and> hll_regs h' = regs_add (hll_regs h) hash \<and>
          hll_registers_owned h' = hll_registers_owned h"
        if "hllSparseAdd h hash = Some (sparse_updated h (pre @ y @ post) prev, 1)" "parses y"
          "expand y = (expand x)[index - length (expand pre) := count]"
          "length (pre @ y @ post) \<le> HLL_SPARSE_MAX_BYTES + 3" for y
      proof -
        have e: "expand (pre @ y @ post) = (expand ?s)[index := count]"
          using replace_expand [OF loc(1) that(2,3) i(1)] i(2) by simp
        have "parses (y @ post)" using that(2) s(4) by (simp add: parses_append)
        from sparse_updated_eq [OF assms(2) refl s(2) this loc(2)] e wf(2) that(4)
        have u: "hll_wf (sparse_updated h (pre @ y @ post) prev)"
          "\<And>i. hll_regs (sparse_updated h (pre @ y @ post) prev) i =
            (if i < HLL_REGISTERS then (expand ?s)[index := count] ! i else 0)" by simp_all
        have "hll_regs (sparse_updated h (pre @ y @ post) prev) = regs_add (hll_regs h) hash"
          by (rule regs_add_list(1) [OF b(3) wf(2) pl True regs u(2)])
        moreover have "hll_registers_owned (sparse_updated h (pre @ y @ post) prev) = hll_registers_owned h"
          by (simp add: sparse_updated_def hll_invalidate_cache_def Let_def)
        ultimately show ?thesis using that(1) u(1) by blast
      qed
      have "\<exists>h'. hllSparseAdd h hash = Some (h', 1) \<and> hll_wf h' \<and> hll_regs h' = regs_add (hll_regs h) hash \<and>
          hll_registers_owned h' = hll_registers_owned h"
      proof (cases "\<not> hll_sparse_is_xzero B \<and> length (expand x) = 1")
        case one: True
        then have xB: "x = [B]" using x by blast
        have v: "is_op (hll_sparse_val_set count 1)" "expand (hll_sparse_val_set count 1) = [count]"
          using val_set_op [of count 1] b(1) small by simp_all
        have "splice (length pre) (hll_sparse_val_set count 1) ?s = pre @ hll_sparse_val_set count 1 @ post"
          using s(1) xB by (simp add: splice_def)
        then have "hllSparseAdd h hash = Some (sparse_updated h (pre @ hll_sparse_val_set count 1 @ post) prev, 1)"
          using one notA small by (simp add: unfold)
        moreover have "expand (hll_sparse_val_set count 1) = (expand x)[index - length (expand pre) := count]"
        proof -
          obtain w where "expand x = [w]" using one by (auto simp: length_Suc_conv)
          then show ?thesis using v(2) i(1) by simp
        qed
        moreover have "length (pre @ hll_sparse_val_set count 1 @ post) \<le> HLL_SPARSE_MAX_BYTES + 3"
          using wf(3) s(1) xB by simp
        ultimately show ?thesis using upd [of "hll_sparse_val_set count 1"] v(1) is_op_parses by blast
      next
        case gen: False
        define seq where "seq = (if hll_sparse_is_zero B \<or> hll_sparse_is_xzero B
          then split_zero index (length (expand pre)) (length (expand pre) + length (expand x) - 1) count
          else split_val index (length (expand pre)) (length (expand pre) + length (expand x) - 1) count
            (hll_sparse_val_value B))"
        have "length (expand x) \<le> 16384" using ex wf(2) by simp
        note seq = split_op_spec [OF s(3) loc(4,5) b(1) _ this, folded B_def, folded seq_def]
        have oldlen: "(if hll_sparse_is_xzero B then 2 else 1) = length x" using x by auto
        have d: "drop (length pre + length x) ?s = post" using s(1) by simp
        have step: "hllSparseAdd h hash =
            (if length seq > length x \<and> length ?s > HLL_SPARSE_MAX_BYTES then sparse_promote h hash
             else Some (sparse_updated h (pre @ seq @ post) prev, 1))"
        proof -
          have t: "take (length pre) ?s = pre" using s(1) by simp
          have nB: "\<not> ((?val \<or> hll_sparse_is_zero B) \<and> length (expand x) = 1)"
            using gen not_zero_xzero by blast
          show ?thesis
            unfolding unfold prod.case bind.bind_lunit
            using pos notA nB small sp(2)
            by (simp only: if_False oldlen d t seq_def [symmetric] c_assert_bind if_True not_False_eq_True)
        qed
        show ?thesis
        proof (cases "length seq > length x \<and> length ?s > HLL_SPARSE_MAX_BYTES")
          case p: True
          have "regs_changed (hll_regs h) hash" using ch True by simp
          from sparse_promote_eq [OF assms(1) this] step p show ?thesis by auto
        next
          case np: False
          then have "length (pre @ seq @ post) \<le> HLL_SPARSE_MAX_BYTES + 3"
            using seq small s(1) wf(3) by auto
          then show ?thesis using upd [of seq] step np seq small by simp
        qed
      qed
      then show ?thesis using True ch by auto
    qed
  qed
qed

end
