(* ===== verification/Hyperloglog.thy ===== *)
theory Hyperloglog
  imports Hll_Sparse
begin

text \<open>
  HyperLogLog objects (\<open>src/src/hyperloglog.c\<close>): creation, adding a hash in either representation,
  the estimate of the number of distinct hashes with its cache, and merging. A HyperLogLog is a
  cardinality sketch: what it holds after a sequence of hashes does not depend on their order nor
  on repetitions, which the locale \<open>cardinality_sketch\<close> states for the dense representation and
  for the whole object.
\<close>

section \<open>The code\<close>

fun sparse_sum_loop :: "bytes \<Rightarrow> real \<Rightarrow> nat \<Rightarrow> nat \<Rightarrow> (real \<times> nat \<times> nat) option" where
  "sparse_sum_loop [] E ez idx = Some (E, ez, idx)"
| "sparse_sum_loop (b # s) E ez idx =
     (if hll_sparse_is_zero b
      then sparse_sum_loop s E (ez + hll_sparse_zero_len b) (idx + hll_sparse_zero_len b)
      else if hll_sparse_is_xzero b then
        (case s of [] \<Rightarrow> None
         | c # s' \<Rightarrow>
             sparse_sum_loop s' E (ez + hll_sparse_xzero_len b c) (idx + hll_sparse_xzero_len b c))
      else sparse_sum_loop s (E + PE ! hll_sparse_val_value b * real (hll_sparse_val_len b)) ez
             (idx + hll_sparse_val_len b))"

text \<open>The result is the sum, the number of zero registers and whether the encoding is invalid.\<close>

definition hllSparseSum :: "bytes \<Rightarrow> (real \<times> nat \<times> bool) option" where
  "hllSparseSum sparse = do {
     (E, ez, idx) \<leftarrow> sparse_sum_loop sparse 0 0 0;
     Some (E + real ez, ez, idx \<noteq> HLL_REGISTERS)
   }"

fun raw_bytes_sum :: "bytes \<Rightarrow> real \<Rightarrow> nat \<Rightarrow> (real \<times> nat) option" where
  "raw_bytes_sum [] E ez = Some (E, ez)"
| "raw_bytes_sum (b # s) E ez =
     (if b \<noteq> 0 then if unat b < 64 then raw_bytes_sum s (E + PE ! unat b) ez else None
      else raw_bytes_sum s E (ez + 1))"

fun raw_sum_loop :: "nat \<Rightarrow> bytes \<Rightarrow> real \<Rightarrow> nat \<Rightarrow> (real \<times> nat) option" where
  "raw_sum_loop 0 bs E ez = Some (E, ez)"
| "raw_sum_loop (Suc n) bs E ez = do {
     c_assert (8 \<le> length bs);
     (E, ez) \<leftarrow> (if load64 bs 0 = 0 then Some (E, ez + 8) else raw_bytes_sum (take 8 bs) E ez);
     raw_sum_loop n (drop 8 bs) E ez
   }"

definition hllRawSum :: "bytes \<Rightarrow> (real \<times> nat) option" where
  "hllRawSum registers = do {
     c_assert (length registers mod 8 = 0);
     (E, ez) \<leftarrow> raw_sum_loop 2048 registers 0 0;
     Some (E + real ez, ez)
   }"

text \<open>The estimate from the sum over the registers and the number of zero registers.\<close>

definition hll_estimate :: "real \<Rightarrow> nat \<Rightarrow> real" where
  "hll_estimate S ez =
     (let m = 16384;
          alpha = 7213 / 10000 / (1 + 1079 / 1000 / m);
          E = (1 / S) * alpha * m * m
      in if E < m * 5 / 2 \<and> ez \<noteq> 0 then m * ln (m / real ez)
         else if E < 72000 then
           (let bias = 59119 / 10000 / 10 ^ 18 * (E * E * E * E)
                  - 14253 / 10000 / 10 ^ 12 * (E * E * E)
                  + 12940 / 10000 / 10 ^ 7 * (E * E)
                  - 52921 / 10000 / 10 ^ 3 * E
                  + 833216 / 10000
            in E - E * (bias / 100))
         else E)"

definition hllCount :: "hll \<Rightarrow> (hll \<times> u64 \<times> bool) option" where
  "hllCount h =
     (if hll_valid_cache h then Some (h, hll_card h, False)
      else do {
        (S, ez, invalid) \<leftarrow>
          (if hll_encoding h = HLL_DENSE
             then (let (S, ez) = hllDenseSum (hll_registers h) in Some (S, ez, False))
           else if hll_encoding h = HLL_SPARSE then hllSparseSum (hll_registers h)
           else if hll_encoding h = HLL_RAW
             then (do { (S, ez) \<leftarrow> hllRawSum (hll_registers h); Some (S, ez, False) })
           else None);
        let card = (of_int \<lfloor>hll_estimate S ez\<rfloor> :: u64);
        Some (h\<lparr>hll_card := card\<rparr>, card, invalid)
      })"

definition hllAdd :: "hll \<Rightarrow> u64 \<Rightarrow> (hll \<times> int) option" where
  "hllAdd h hash =
     (if hll_encoding h = HLL_DENSE then do {
        (regs, updated) \<leftarrow> hllDenseAdd (hll_registers h) hash;
        let h = h\<lparr>hll_registers := regs\<rparr>;
        Some (if updated \<noteq> 0 then hll_invalidate_cache h else h, updated)
      }
      else if hll_encoding h = HLL_SPARSE then do {
        (h, updated) \<leftarrow> hllSparseAdd h hash;
        Some (if updated \<noteq> 0 then hll_invalidate_cache h else h, updated)
      }
      else Some (h, -1))"

function init_xzeros :: "nat \<Rightarrow> bytes" where
  "init_xzeros aux =
     (if aux \<noteq> 0 then
        (let xzero = (if 16384 > aux then aux else 16384)
         in hll_sparse_xzero_set xzero @ init_xzeros (aux - xzero))
      else [])"
  by pat_completeness auto
termination
  by (relation "measure id") auto

declare init_xzeros.simps [simp del]

definition hllInit :: "bool \<Rightarrow> hll option" where
  "hllInit alloc_ok = do {
     c_assert alloc_ok;
     let sparselen = (HLL_REGISTERS + (16384 - 1)) div 16384 * 2;
     let s = init_xzeros HLL_REGISTERS;
     c_assert (length s = sparselen);
     Some \<lparr>hll_card = 0, hll_encoding = HLL_SPARSE, hll_registers = s, hll_registers_owned = True\<rparr>
   }"

definition hllInitFromBuffer :: "bytes \<Rightarrow> hll option" where
  "hllInitFromBuffer registers = do {
     c_assert (length registers = HLL_DENSE_SIZE);
     Some (hll_invalidate_cache \<lparr>hll_card = 0, hll_encoding = HLL_DENSE,
       hll_registers = registers, hll_registers_owned = False\<rparr>)
   }"

definition hllDestroy :: "hll \<Rightarrow> hll" where
  "hllDestroy h = h\<lparr>hll_registers := []\<rparr>"

text \<open>The addresses of the two buffers decide how the bitwise operation is aligned.\<close>

definition hllMerge :: "nat \<Rightarrow> hll \<Rightarrow> nat \<Rightarrow> hll \<Rightarrow> (hll \<times> hll) option" where
  "hllMerge daddr dst saddr src = do {
     (src, _) \<leftarrow> (if hll_encoding src = HLL_SPARSE then hllSparseToDense src else Some (src, C_OK));
     (dst, _) \<leftarrow> (if hll_encoding dst = HLL_SPARSE then hllSparseToDense dst else Some (dst, C_OK));
     c_assert (hll_encoding src = HLL_DENSE);
     c_assert (hll_encoding dst = HLL_DENSE);
     regs \<leftarrow> byte_slice_bitwise_or daddr (hll_registers dst) saddr (hll_registers src);
     Some (dst\<lparr>hll_registers := regs, hll_card := - 1\<rparr>, src)
   }"

section \<open>Cardinality sketches\<close>

lemma regs_add_commute: "regs_add (regs_add f a) b = regs_add (regs_add f b) a"
  by (auto simp: regs_add_def fun_eq_iff split: prod.splits)

lemma regs_add_idem: "regs_add (regs_add f a) a = regs_add f a"
  by (auto simp: regs_add_def fun_eq_iff split: prod.splits)

lemma regs_changed_iff: "regs_changed f h \<longleftrightarrow> regs_add f h \<noteq> f"
  by (auto simp: regs_changed_def regs_add_def fun_eq_iff max_def split: prod.splits)

locale cardinality_sketch =
  fixes wf :: "'s \<Rightarrow> bool"
    and regs :: "'s \<Rightarrow> nat \<Rightarrow> nat"
    and add :: "'s \<Rightarrow> u64 \<Rightarrow> ('s \<times> int) option"
  assumes add: "wf s \<Longrightarrow> \<exists>s'. add s h = Some (s', if regs_changed (regs s) h then 1 else 0) \<and>
      wf s' \<and> regs s' = regs_add (regs s) h"
begin

fun add_all :: "'s \<Rightarrow> u64 list \<Rightarrow> 's option" where
  "add_all s [] = Some s"
| "add_all s (h # hs) = (case add s h of None \<Rightarrow> None | Some (s', _) \<Rightarrow> add_all s' hs)"

lemma add_all: "wf s \<Longrightarrow> \<exists>s'. add_all s hs = Some s' \<and> wf s' \<and> regs s' = fold (\<lambda>h f. regs_add f h) hs (regs s)"
proof (induction hs arbitrary: s)
  case (Cons h hs)
  obtain s' r where "add s h = Some (s', r)" "wf s'" "regs s' = regs_add (regs s) h"
    using add [OF Cons.prems, of h] by blast
  with Cons.IH [of s'] show ?case by simp
qed simp

lemma fold_regs_in:
  "h \<in> set hs \<Longrightarrow> regs_add (fold (\<lambda>h f. regs_add f h) hs f) h = fold (\<lambda>h f. regs_add f h) hs f"
proof (induction hs arbitrary: f)
  case (Cons a hs)
  have comm: "fold (\<lambda>h f. regs_add f h) hs (regs_add f b) = regs_add (fold (\<lambda>h f. regs_add f h) hs f) b" for b f
    by (induction hs arbitrary: f) (simp_all add: regs_add_commute)
  show ?case
  proof (cases "h = a")
    case True
    then show ?thesis by (simp add: comm regs_add_idem)
  next
    case False
    with Cons have "regs_add (fold (\<lambda>h f. regs_add f h) hs f) h = fold (\<lambda>h f. regs_add f h) hs f" by simp
    then show ?thesis
      using regs_add_commute [of "fold (\<lambda>h f. regs_add f h) hs f" a h] by (simp add: comm)
  qed
qed simp

text \<open>A hash that is in the sketch already changes nothing and is reported as not new.\<close>

lemma add_again:
  assumes "wf s" "add_all s hs = Some s'" "h \<in> set hs"
  shows "\<exists>s2. add s' h = Some (s2, 0) \<and> regs s2 = regs s'"
proof -
  have s': "wf s'" "regs s' = fold (\<lambda>h f. regs_add f h) hs (regs s)"
    using add_all [OF assms(1), of hs] assms(2) by auto
  have same: "regs_add (regs s') h = regs s'" using fold_regs_in [OF assms(3)] s'(2) by simp
  then have "\<not> regs_changed (regs s') h" by (simp add: regs_changed_iff)
  with add [OF s'(1), of h] same show ?thesis by auto
qed

text \<open>Only the set of the hashes matters.\<close>

lemma order_irrelevant:
  assumes "wf s" "set hs = set hs'" "add_all s hs = Some a" "add_all s hs' = Some b"
  shows "regs a = regs b"
proof -
  let ?F = "fold (\<lambda>h f. regs_add f h)"
  have absorb: "?F ks (?F hs f) = ?F hs f" if "set ks \<subseteq> set hs" for ks hs f
    using that by (induction ks) (simp_all add: fold_regs_in)
  have comm: "?F xs (regs_add f b) = regs_add (?F xs f) b" for xs b f
    by (induction xs arbitrary: f) (simp_all add: regs_add_commute)
  have swap: "?F xs (?F ys f) = ?F ys (?F xs f)" for xs ys f
    by (induction ys arbitrary: f) (simp_all add: comm)
  have "?F hs (regs s) = ?F hs' (?F hs (regs s))" using absorb [of hs' hs] assms(2) by simp
  also have "\<dots> = ?F hs (?F hs' (regs s))" by (rule swap)
  also have "\<dots> = ?F hs' (regs s)" using absorb [of hs hs'] assms(2) by simp
  finally have "?F hs (regs s) = ?F hs' (regs s)" .
  moreover have "regs a = ?F hs (regs s)" "regs b = ?F hs' (regs s)"
    using add_all [OF assms(1), of hs] add_all [OF assms(1), of hs'] assms(3,4) by auto
  ultimately show ?thesis by simp
qed

end

lemma hllAdd_eq:
  assumes "hll_wf h"
  shows "\<exists>h'. hllAdd h hash = Some (h', if regs_changed (hll_regs h) hash then 1 else 0) \<and> hll_wf h' \<and>
    hll_regs h' = regs_add (hll_regs h) hash \<and>
    (if regs_changed (hll_regs h) hash then \<not> hll_valid_cache h' else h' = h)"
proof -
  have inv: "hll_wf (hll_invalidate_cache k) = hll_wf k" "hll_regs (hll_invalidate_cache k) = hll_regs k" for k
    by (simp_all add: hll_wf_def hll_regs_def hll_invalidate_cache_def fun_eq_iff)
  show ?thesis
  proof (cases "hll_encoding h = HLL_DENSE")
    case True
    obtain r where r: "hllDenseAdd (hll_registers h) hash =
        Some (r, if regs_changed (hll_regs h) hash then 1 else 0)" "length r = HLL_DENSE_SIZE"
      "hll_regs (h\<lparr>hll_registers := r\<rparr>) = regs_add (hll_regs h) hash"
      using hll_dense_add [OF assms True] by blast
    have wf: "hll_wf (h\<lparr>hll_registers := r\<rparr>)" using True r(2) by (simp add: hll_wf_def)
    show ?thesis
    proof (cases "regs_changed (hll_regs h) hash")
      case ch: True
      with True r wf inv not_valid_invalidated show ?thesis by (simp add: hllAdd_def)
    next
      case False
      have "r = hll_registers h"
        using r(1) False by (auto simp: hllDenseAdd_def Let_def split: prod.splits if_splits Option.bind_splits)
      with True r wf False show ?thesis by (simp add: hllAdd_def)
    qed
  next
    case False
    then have enc: "hll_encoding h = HLL_SPARSE" using assms by (auto simp: hll_wf_def)
    obtain h' where h': "hllSparseAdd h hash = Some (h', if regs_changed (hll_regs h) hash then 1 else 0)"
      "hll_wf h'" "hll_regs h' = regs_add (hll_regs h) hash" "\<not> regs_changed (hll_regs h) hash \<longrightarrow> h' = h"
      using hllSparseAdd_eq [OF assms enc] by blast
    show ?thesis
    proof (cases "regs_changed (hll_regs h) hash")
      case True
      with False enc h' inv not_valid_invalidated show ?thesis by (simp add: hllAdd_def)
    next
      case same: False
      with h' have "h' = h" by simp
      with False enc h' same show ?thesis by (simp add: hllAdd_def)
    qed
  qed
qed

interpretation hll: cardinality_sketch hll_wf hll_regs hllAdd
  by unfold_locales (use hllAdd_eq in blast)

interpretation hll_dense: cardinality_sketch "\<lambda>p. length p = HLL_DENSE_SIZE" dense_regs hllDenseAdd
  by unfold_locales (use hllDenseAdd_eq in blast)

text \<open>A HyperLogLog after any number of calls of \<open>hllAdd\<close>.\<close>

fun hll_add_all :: "hll \<Rightarrow> u64 list \<Rightarrow> hll option" where
  "hll_add_all h [] = Some h"
| "hll_add_all h (x # xs) = (case hllAdd h x of None \<Rightarrow> None | Some (h', _) \<Rightarrow> hll_add_all h' xs)"

lemma hll_add_all_eq: "hll_add_all h xs = hll.add_all h xs"
  by (induction xs arbitrary: h) (auto split: option.splits)

section \<open>Creation\<close>

lemma init_xzeros_eq: "init_xzeros HLL_REGISTERS = hll_sparse_xzero_set 16384"
  by (simp add: init_xzeros.simps)

lemma hllInit_eq:
  "\<exists>h. hllInit True = Some h \<and> hll_wf h \<and> hll_regs h = (\<lambda>i. 0) \<and> hll_valid_cache h \<and> hll_card h = 0"
proof -
  let ?h = "\<lparr>hll_card = 0, hll_encoding = HLL_SPARSE, hll_registers = hll_sparse_xzero_set 16384,
    hll_registers_owned = True\<rparr>"
  have x: "is_op (hll_sparse_xzero_set 16384)" "expand (hll_sparse_xzero_set 16384) = replicate 16384 0"
    using xzero_set_op [of 16384] by simp_all
  have l: "length (hll_sparse_xzero_set 16384) = 2" by (simp add: hll_sparse_xzero_set_def Let_def)
  have "hllInit True = Some ?h" by (simp add: hllInit_def init_xzeros_eq l)
  moreover have "hll_wf ?h" using x l is_op_parses by (simp add: hll_wf_def sparse_wf_def)
  moreover have "hll_regs ?h = (\<lambda>i. 0)" using x(2) by (auto simp: hll_regs_def hll_encodings)
  moreover have "hll_valid_cache ?h" by (simp add: hll_valid_cache_def)
  ultimately show ?thesis by (intro exI [of _ ?h]) simp
qed

lemma hllInitFromBuffer_eq:
  "length r = HLL_DENSE_SIZE \<Longrightarrow>
    \<exists>h. hllInitFromBuffer r = Some h \<and> hll_wf h \<and> hll_encoding h = HLL_DENSE \<and> hll_registers h = r \<and>
      \<not> hll_valid_cache h \<and> (\<forall>i < HLL_REGISTERS. hll_regs h i = dense_regs r i)"
  using not_valid_invalidated
  by (simp add: hllInitFromBuffer_def hll_wf_def hll_regs_def) (simp add: hll_invalidate_cache_def)

section \<open>The estimate\<close>

lemma sparse_sum_loop_eq:
  "parses s \<Longrightarrow> sparse_sum_loop s E ez idx =
    Some (E + sum_list (map (\<lambda>v. 1 / 2 ^ v) (filter (\<lambda>v. v \<noteq> 0) (expand s))),
      ez + length (filter (\<lambda>v. v = 0) (expand s)), idx + length (expand s))"
proof (induction s arbitrary: E ez idx rule: length_induct)
  case (1 s)
  show ?case
  proof (cases "s = []")
    case False
    obtain x t where x: "s = x @ t" "is_op x" "parses t" using parses_split [OF "1.prems" False] .
    have e: "expand s = expand x @ expand t" using x by (simp add: expand_append is_op_parses)
    have lt: "length t < length s" using x by (auto simp: is_op_def)
    from x(2) consider (one) b where "x = [b]" "\<not> hll_sparse_is_xzero b"
      | (two) b c where "x = [b, c]" "hll_sparse_is_xzero b" by (auto simp: is_op_def)
    then show ?thesis
    proof cases
      case two
      have "\<not> hll_sparse_is_zero b" using two not_zero_xzero by blast
      then show ?thesis using two x(1,3) lt "1.IH" e by simp
    next
      case one
      show ?thesis
      proof (cases "hll_sparse_is_zero b")
        case True
        then show ?thesis using one x(1,3) lt "1.IH" e by simp
      next
        case False
        have "PE ! hll_sparse_val_value b = 1 / 2 ^ hll_sparse_val_value b"
          using val_value_bounds [of b] by (intro PE_nth) simp
        then show ?thesis
          using False one x(1,3) lt "1.IH" e val_value_bounds [of b]
          by (simp add: sum_list_replicate)
      qed
    qed
  qed simp
qed

lemma sum_list_power_split:
  "sum_list (map (\<lambda>v. 1 / 2 ^ v) (filter (\<lambda>v. v \<noteq> 0) xs)) + real (length (filter (\<lambda>v. v = 0) xs)) =
    (sum_list (map (\<lambda>v. 1 / 2 ^ v) xs) :: real)"
  by (induction xs) auto

definition regs_sum :: "(nat \<Rightarrow> nat) \<Rightarrow> real" where
  "regs_sum f = (\<Sum>i < HLL_REGISTERS. 1 / 2 ^ f i)"

definition regs_zeros :: "(nat \<Rightarrow> nat) \<Rightarrow> nat" where
  "regs_zeros f = card {i. i < HLL_REGISTERS \<and> f i = 0}"

lemma hllSparseSum_eq:
  assumes "hll_wf h" "hll_encoding h = HLL_SPARSE"
  shows "hllSparseSum (hll_registers h) = Some (regs_sum (hll_regs h), regs_zeros (hll_regs h), False)"
proof -
  let ?e = "expand (hll_registers h)"
  have wf: "parses (hll_registers h)" "length ?e = HLL_REGISTERS"
    using assms by (simp_all add: hll_wf_def sparse_wf_def hll_encodings)
  have r: "hll_regs h i = ?e ! i" if "i < HLL_REGISTERS" for i
    using that assms(2) by (simp add: hll_regs_def hll_encodings)
  have "sum_list (map (\<lambda>v. 1 / 2 ^ v) ?e) = (\<Sum>i < HLL_REGISTERS. 1 / 2 ^ (?e ! i) :: real)"
    using wf(2) by (simp add: sum_list_sum_nth atLeast0LessThan)
  also have "\<dots> = regs_sum (hll_regs h)" unfolding regs_sum_def by (intro sum.cong) (simp_all add: r)
  finally have s: "sum_list (map (\<lambda>v. 1 / 2 ^ v) ?e) = regs_sum (hll_regs h)" .
  have "length (filter (\<lambda>v. v = 0) ?e) = card {i. i < length ?e \<and> ?e ! i = 0}"
    by (rule length_filter_conv_card)
  also have "{i. i < length ?e \<and> ?e ! i = 0} = {i. i < HLL_REGISTERS \<and> hll_regs h i = 0}"
    using wf(2) r by auto
  finally have z: "length (filter (\<lambda>v. v = 0) ?e) = regs_zeros (hll_regs h)" by (simp add: regs_zeros_def)
  show ?thesis
    using sparse_sum_loop_eq [OF wf(1), of 0 0 0] sum_list_power_split [of ?e] wf(2) s z
    by (simp add: hllSparseSum_def)
qed

lemma hllDenseSum_regs:
  assumes "hll_wf h" "hll_encoding h = HLL_DENSE"
  shows "hllDenseSum (hll_registers h) = (regs_sum (hll_regs h), regs_zeros (hll_regs h))"
proof -
  have "length (hll_registers h) = HLL_DENSE_SIZE" using assms by (simp add: hll_wf_def hll_encodings)
  moreover have "hll_regs h i = dense_regs (hll_registers h) i" if "i < HLL_REGISTERS" for i
    using that assms(2) by (simp add: hll_regs_def)
  ultimately show ?thesis
    by (auto simp: hllDenseSum_eq regs_sum_def regs_zeros_def intro!: sum.cong arg_cong [of _ _ card])
qed

text \<open>The estimate depends on the registers only, not on their representation.\<close>

lemma hllCount_eq:
  assumes "hll_wf h" "\<not> hll_valid_cache h"
  shows "hllCount h =
    (let card = of_int \<lfloor>hll_estimate (regs_sum (hll_regs h)) (regs_zeros (hll_regs h))\<rfloor>
     in Some (h\<lparr>hll_card := card\<rparr>, card, False))"
proof (cases "hll_encoding h = HLL_DENSE")
  case True
  then show ?thesis using assms by (simp add: hllCount_def hllDenseSum_regs)
next
  case False
  then have "hll_encoding h = HLL_SPARSE" using assms(1) by (auto simp: hll_wf_def)
  then show ?thesis using assms False by (simp add: hllCount_def hllSparseSum_eq)
qed

lemma hllCount_cached: "hll_valid_cache h \<Longrightarrow> hllCount h = Some (h, hll_card h, False)"
  by (simp add: hllCount_def)

lemma hll_estimate_empty: "hll_estimate 16384 16384 = 0"
  by (simp add: hll_estimate_def Let_def)

lemma hllCount_empty:
  assumes "hll_wf h" "\<not> hll_valid_cache h" "\<forall>i < HLL_REGISTERS. hll_regs h i = 0"
  shows "hllCount h = Some (h\<lparr>hll_card := 0\<rparr>, 0, False)"
proof -
  have "regs_sum (hll_regs h) = 16384" using assms(3) by (simp add: regs_sum_def)
  moreover have "{i. i < HLL_REGISTERS \<and> hll_regs h i = 0} = {..<HLL_REGISTERS}" using assms(3) by auto
  then have "regs_zeros (hll_regs h) = 16384" by (simp add: regs_zeros_def)
  ultimately show ?thesis using hllCount_eq [OF assms(1,2)] by (simp add: hll_estimate_empty)
qed

section \<open>Merging\<close>

lemma dense_reg_or:
  assumes "bits_of c = bits_of a \<union> bits_of b"
  shows "dense_reg c i = dense_reg a i OR dense_reg b i"
proof (rule byte_eqI)
  fix j
  have "bit_at c k \<longleftrightarrow> bit_at a k \<or> bit_at b k" for k
    using assms by (metis Un_iff mem_bits_of)
  then show "bit (dense_reg c i) j = bit (dense_reg a i OR dense_reg b i) j"
    by (auto simp: bit_dense_reg bit_or_iff)
qed

text \<open>
  Merging takes the bitwise OR of each register. That is at least the maximum of the two, but it
  is not the maximum.
\<close>

lemma hllMerge_eq:
  assumes "hll_wf dst" "hll_wf src" "daddr mod 8 = saddr mod 8"
  shows "\<exists>dst' src'. hllMerge daddr dst saddr src = Some (dst', src') \<and> hll_wf dst' \<and> hll_wf src' \<and>
    hll_regs src' = hll_regs src \<and> \<not> hll_valid_cache dst' \<and>
    (\<forall>i < HLL_REGISTERS. hll_regs dst' i = hll_regs dst i OR hll_regs src i)"
proof -
  have dense: "\<exists>h' st. (if hll_encoding h = HLL_SPARSE then hllSparseToDense h else Some (h, C_OK)) = Some (h', st) \<and>
      hll_encoding h' = HLL_DENSE \<and> hll_wf h' \<and> hll_regs h' = hll_regs h" if "hll_wf h" for h
    using that hllSparseToDense_eq [OF that] by (auto simp: hll_wf_def)
  obtain s st where s: "(if hll_encoding src = HLL_SPARSE then hllSparseToDense src else Some (src, C_OK)) = Some (s, st)"
    "hll_encoding s = HLL_DENSE" "hll_wf s" "hll_regs s = hll_regs src" using dense [OF assms(2)] by blast
  obtain d dt where d: "(if hll_encoding dst = HLL_SPARSE then hllSparseToDense dst else Some (dst, C_OK)) = Some (d, dt)"
    "hll_encoding d = HLL_DENSE" "hll_wf d" "hll_regs d = hll_regs dst" using dense [OF assms(1)] by blast
  have len: "length (hll_registers d) = HLL_DENSE_SIZE" "length (hll_registers s) = HLL_DENSE_SIZE"
    using s d by (simp_all add: hll_wf_def hll_encodings)
  obtain r where r: "byte_slice_bitwise_or daddr (hll_registers d) saddr (hll_registers s) = Some r"
    "length r = length (hll_registers d)"
    "bits_of r = bits_of (hll_registers d) \<union> {i \<in> bits_of (hll_registers s). i < 8 * length (hll_registers d)}"
    using byte_slice_bitwise_or_eq [OF assms(3)] by blast
  have "bits_of r = bits_of (hll_registers d) \<union> bits_of (hll_registers s)"
    using r(3) len bit_at_bound [of "hll_registers s"] by auto
  note or = dense_reg_or [OF this]
  let ?d = "d\<lparr>hll_registers := r, hll_card := - 1\<rparr>"
  have "hll_regs ?d i = hll_regs dst i OR hll_regs src i" if i: "i < HLL_REGISTERS" for i
    using i s(2) d(2) fun_cong [OF s(4), of i] fun_cong [OF d(4), of i]
    by (simp add: hll_regs_def dense_regs_def or unsigned_or_eq)
  moreover have "\<not> hll_valid_cache ?d" by (simp add: hll_valid_cache_def)
  moreover have "hll_wf ?d" using d(2) len r(2) by (simp add: hll_wf_def)
  moreover have "hllMerge daddr dst saddr src = Some (?d, s)"
    unfolding hllMerge_def s(1) d(1) using s(2) d(2) r(1) by simp
  ultimately show ?thesis using s by blast
qed

lemma or_ge_max: "max a b \<le> (a OR b :: nat)"
proof -
  have le: "x \<le> x OR y" for x y :: nat
  proof -
    have "int x \<le> int y OR int x" using or_greater_eq [of "int y" "int x"] by (simp add: or.commute)
    then have "int x \<le> int (x OR y)" by (simp add: of_nat_or_eq or.commute)
    then show ?thesis by simp
  qed
  show ?thesis using le [of a b] le [of b a] by (simp add: or.commute)
qed

end
