(* ===== verification/Murmur_Hash.thy ===== *)
theory Murmur_Hash
  imports Byte_Arith
begin

text \<open>
  The 64-bit MurmurHash64A of a byte slice (\<open>byte_slice_MurmurHash64A\<close> in
  \<open>src/include/byte_slice.h\<close>): the mixing of 64-bit blocks, the switch on the remaining bytes and
  the final mixing. Every mixing step is a bijection of the state for a fixed block and of the
  block for a fixed state, so changing one block of the input always changes the hash.
\<close>

abbreviation murmur_m :: u64 where "murmur_m \<equiv> 0xc6a4a7935bd1e995"

definition murmur_block :: "u64 \<Rightarrow> u64 \<Rightarrow> u64" where
  "murmur_block h k =
     (let k = k * murmur_m;
          k = k XOR drop_bit 47 k;
          k = k * murmur_m
      in (h XOR k) * murmur_m)"

definition murmur_tail :: "u64 \<Rightarrow> bytes \<Rightarrow> nat \<Rightarrow> u64" where
  "murmur_tail h data n =
     (let h = (if 7 \<le> n then h XOR push_bit 48 (ucast (data ! 6)) else h);
          h = (if 6 \<le> n then h XOR push_bit 40 (ucast (data ! 5)) else h);
          h = (if 5 \<le> n then h XOR push_bit 32 (ucast (data ! 4)) else h);
          h = (if 4 \<le> n then h XOR push_bit 24 (ucast (data ! 3)) else h);
          h = (if 3 \<le> n then h XOR push_bit 16 (ucast (data ! 2)) else h);
          h = (if 2 \<le> n then h XOR push_bit 8 (ucast (data ! 1)) else h)
      in if 1 \<le> n then (h XOR ucast (data ! 0)) * murmur_m else h)"

definition murmur_final :: "u64 \<Rightarrow> u64" where
  "murmur_final h =
     (let h = h XOR drop_bit 47 h;
          h = h * murmur_m
      in h XOR drop_bit 47 h)"

definition byte_slice_MurmurHash64A :: "bytes \<Rightarrow> u32 \<Rightarrow> u64" where
  "byte_slice_MurmurHash64A s seed =
     (let h = ucast seed XOR (of_nat (length s) * murmur_m);
          n = length s mod 8;
          stop = length s - n;
          h = foldl murmur_block h (words64 (take stop s));
          h = murmur_tail h (drop stop s) n
      in murmur_final h)"

section \<open>The steps are injective\<close>

lemma mult_murmur_m_inj: "x * murmur_m = y * murmur_m \<Longrightarrow> x = y"
proof -
  assume "x * murmur_m = y * murmur_m"
  then have "x * murmur_m * 0x5f7a0ea7e59b19bd = y * murmur_m * 0x5f7a0ea7e59b19bd" by simp
  moreover have "murmur_m * 0x5f7a0ea7e59b19bd = 1" by simp
  ultimately show "x = y" by (simp only: mult.assoc mult_1_right)
qed

lemma xor_shift_47_inj: "x XOR drop_bit 47 x = y XOR drop_bit 47 (y :: u64) \<Longrightarrow> x = y"
proof -
  assume eq: "x XOR drop_bit 47 x = y XOR drop_bit 47 y"
  have b: "bit (z XOR drop_bit 47 z) i \<longleftrightarrow> bit z i \<noteq> bit z (47 + i)" for z :: u64 and i
    by (simp add: bit_xor_iff bit_drop_bit_eq add.commute)
  have bits: "bit x i \<noteq> bit x (47 + i) \<longleftrightarrow> bit y i \<noteq> bit y (47 + i)" for i
    using arg_cong [OF eq, of "\<lambda>z. bit z i"] by (simp only: b)
  have high: "bit x i = bit y i" if "17 \<le> i" for i
    using bits [of i] that bit_imp_le_length [of x "47 + i"] bit_imp_le_length [of y "47 + i"] by auto
  show "x = y"
  proof (rule bit_word_eqI)
    fix i
    show "bit x i = bit y i" using bits [of i] high [of "47 + i"] by auto
  qed
qed

lemma xor_left_inj: "h XOR x = h XOR y \<Longrightarrow> x = (y :: u64)"
  by (auto simp: bit_eq_iff bit_xor_iff)

lemma murmur_block_inj_word: "murmur_block h x = murmur_block h y \<Longrightarrow> x = y"
  unfolding murmur_block_def Let_def
  by (drule mult_murmur_m_inj, drule xor_left_inj, drule mult_murmur_m_inj,
      drule xor_shift_47_inj, erule mult_murmur_m_inj)

lemma murmur_block_inj_state: "murmur_block h k = murmur_block h' k \<Longrightarrow> h = h'"
  unfolding murmur_block_def Let_def
  by (drule mult_murmur_m_inj) (metis xor.commute xor_left_inj)

lemma murmur_final_inj: "murmur_final x = murmur_final y \<Longrightarrow> x = y"
  unfolding murmur_final_def Let_def
  by (drule xor_shift_47_inj, drule mult_murmur_m_inj, erule xor_shift_47_inj)

lemma foldl_murmur_inj_state:
  "foldl murmur_block h ws = foldl murmur_block h' ws \<Longrightarrow> h = h'"
  by (induction ws arbitrary: h h') (auto dest: murmur_block_inj_state)

section \<open>The tail is a short block\<close>

lemma of_nat_unat_u8: "of_nat (unat (b :: u8)) = (ucast b :: u64)"
  by (rule unat_eqI) (simp add: unat_ucast unat_of_nat)

lemma bytes_val_word_Cons: "(of_nat (bytes_val (b # s)) :: u64) = ucast b XOR push_bit 8 (of_nat (bytes_val s))"
proof -
  have "(of_nat (bytes_val (b # s)) :: u64) = ucast b + 256 * of_nat (bytes_val s)"
    by (simp add: of_nat_unat_u8)
  also have "256 * of_nat (bytes_val s) = push_bit 8 (of_nat (bytes_val s) :: u64)"
    by (simp add: push_bit_eq_mult mult.commute)
  also have "ucast b + \<dots> = ucast b OR \<dots>"
    by (rule disjunctive_add) (auto simp: bit_ucast_iff bit_push_bit_iff dest: bit_imp_le_length)
  also have "\<dots> = ucast b XOR push_bit 8 (of_nat (bytes_val s))"
    by (rule bit_eqI) (auto simp: bit_or_iff bit_xor_iff bit_ucast_iff bit_push_bit_iff dest: bit_imp_le_length)
  finally show ?thesis .
qed

lemma length_less_8_cases:
  assumes "length s < 8"
  obtains "s = []" | a where "s = [a]" | a b where "s = [a, b]" | a b c where "s = [a, b, c]"
  | a b c d where "s = [a, b, c, d]" | a b c d e where "s = [a, b, c, d, e]"
  | a b c d e f where "s = [a, b, c, d, e, f]" | a b c d e f g where "s = [a, b, c, d, e, f, g]"
  using assms by (auto simp: less_Suc_eq length_Suc_conv numeral_eq_Suc)

lemma murmur_tail_eq:
  assumes "length s < 8"
  shows "murmur_tail h s (length s) =
    (if s = [] then h else (h XOR of_nat (bytes_val s)) * murmur_m)"
  using assms
proof -
  have nil: "push_bit n (of_nat (bytes_val []) :: u64) = 0" for n by simp
  note shift = bytes_val_word_Cons push_bit_xor push_bit_push_bit nil xor.right_neutral
  from assms show ?thesis
    by (cases s rule: length_less_8_cases)
      (simp_all only: shift, simp_all add: murmur_tail_def,
       simp_all only: xor.assoc xor.commute xor.left_commute)
qed

lemma murmur_tail_inj:
  assumes "length s < 8" "length t = length s"
    and "murmur_tail h s (length s) = murmur_tail h t (length s)"
  shows "s = t"
proof (cases "s = []")
  case True
  with assms(2) show ?thesis by simp
next
  case False
  then have "t \<noteq> []" using assms(2) by auto
  with False assms have "(h XOR of_nat (bytes_val s)) * murmur_m = (h XOR of_nat (bytes_val t)) * murmur_m"
    using murmur_tail_eq [of s h] murmur_tail_eq [of t h] by simp
  then have eq: "(of_nat (bytes_val s) :: u64) = of_nat (bytes_val t)"
    by (rule xor_left_inj [OF mult_murmur_m_inj])
  have small: "bytes_val u < 2 ^ 64" if "length u < 8" for u
  proof -
    have "bytes_val u < 256 ^ length u" by (rule bytes_val_less)
    also have "\<dots> \<le> (256 :: nat) ^ 8" using that by (intro power_increasing) auto
    finally show ?thesis by simp
  qed
  have "bytes_val s = bytes_val t"
    using arg_cong [OF eq, of unat] small [of s] small [of t] assms(1,2)
    by (simp add: unat_of_nat_less)
  then show ?thesis
    using val_bytes_bytes_val [of s] val_bytes_bytes_val [of t] assms(2) by simp
qed

lemma words64_append: "8 dvd length a \<Longrightarrow> words64 (a @ b) = words64 a @ words64 b"
proof (induction a rule: words64.induct)
  case (2 x a)
  let ?l = "x # a"
  have len: "8 \<le> length ?l" using "2.prems" dvd_imp_le [of 8 "length ?l"] by simp
  have "8 dvd length (drop 7 a)"
    using "2.prems" len dvd_diff_nat [of 8 "length ?l" 8] by simp
  then have IH: "words64 (drop 7 a @ b) = words64 (drop 7 a) @ words64 b" using "2.IH" by simp
  have "take 8 (?l @ b) = take 8 ?l" using len by (subst take_append) simp
  moreover have "drop 7 (a @ b) = drop 7 a @ b" using len by simp
  ultimately show ?case using IH by (simp only: append_Cons words64.simps)
qed simp

lemma words64_one:
  assumes "length s = 8"
  shows "words64 s = [of_nat (bytes_val s)]"
proof (cases s)
  case (Cons b r)
  have "take 8 (b # r) = b # r" by (rule take_all) (use assms Cons in simp)
  moreover have "drop 7 r = []" using assms Cons by simp
  ultimately show ?thesis unfolding Cons by (simp only: words64.simps)
qed (use assms in simp)

lemma words64_one_inj:
  assumes "length s = 8" "length t = 8" "words64 s = words64 t"
  shows "s = t"
  using assms unwords64_words64 by (metis dvd_refl)

lemma foldl_murmur_one_block:
  assumes "length a = 8 * k" "length x = 8" "length y = 8" "8 dvd length b"
    and "foldl murmur_block h (words64 (a @ x @ b)) = foldl murmur_block h (words64 (a @ y @ b))"
  shows "x = y"
proof -
  have "words64 (a @ u @ b) = words64 a @ words64 u @ words64 b" if "length u = 8" for u
    using that assms(1) by (simp add: words64_append)
  with assms(2,3,5)
  have "foldl murmur_block (foldl murmur_block h (words64 a)) (words64 x) =
      foldl murmur_block (foldl murmur_block h (words64 a)) (words64 y)"
    by (auto dest: foldl_murmur_inj_state)
  then have "words64 x = words64 y"
    using assms(2,3) by (auto simp: words64_one dest: murmur_block_inj_word)
  then show ?thesis using assms(2,3) by (rule words64_one_inj [rotated 2])
qed

section \<open>Changing one block changes the hash\<close>

lemma split_block:
  assumes "8 * k + 8 \<le> stop" "stop \<le> length s"
  shows "take stop s = take (8 * k) s @ take 8 (drop (8 * k) s) @ drop (8 * k + 8) (take stop s)"
proof -
  have "take (8 * k + 8) s = take (8 * k) s @ take 8 (drop (8 * k) s)" by (rule take_add)
  moreover have "take stop s = take (8 * k + 8) s @ drop (8 * k + 8) (take stop s)"
    using assms append_take_drop_id [of "8 * k + 8" "take stop s"] by (simp add: min_def)
  ultimately show ?thesis by simp
qed

lemma MurmurHash64A_one_block:
  assumes len: "length t = length s"
    and pre: "take (8 * k) s = take (8 * k) t" and post: "drop (8 * k + 8) s = drop (8 * k + 8) t"
    and eq: "byte_slice_MurmurHash64A s seed = byte_slice_MurmurHash64A t seed"
  shows "s = t"
proof -
  define n where "n = length s mod 8"
  define stop where "stop = length s - n"
  define h where "h = ucast seed XOR (of_nat (length s) * murmur_m)"
  have n: "n < 8" "stop + n = length s" by (simp_all add: n_def stop_def)
  have dvd: "8 dvd stop" by (simp add: n_def stop_def minus_mod_eq_mult_div)
  have lens: "length (drop stop s) = n" "length (drop stop t) = n" using n len by simp_all
  have eq': "murmur_tail (foldl murmur_block h (words64 (take stop s))) (drop stop s) n =
      murmur_tail (foldl murmur_block h (words64 (take stop t))) (drop stop t) n"
    using eq murmur_final_inj
    by (simp only: byte_slice_MurmurHash64A_def Let_def len n_def [symmetric] h_def [symmetric]
        stop_def [symmetric])
  show ?thesis
  proof (cases "8 * k + 8 \<le> stop")
    case True
    then have tails: "drop stop s = drop stop t"
      using arg_cong [OF post, of "drop (stop - (8 * k + 8))"] by simp
    have inj: "murmur_tail g u (length u) = murmur_tail g' u (length u) \<Longrightarrow> length u < 8 \<Longrightarrow> g = g'"
      for g g' u
      using murmur_tail_eq [of u g] murmur_tail_eq [of u g']
      by (auto split: if_splits dest!: mult_murmur_m_inj) (metis xor.commute xor_left_inj)
    have "foldl murmur_block h (words64 (take stop s)) = foldl murmur_block h (words64 (take stop t))"
      using eq' inj [of _ "drop stop s"] tails lens n by metis
    moreover have "drop (8 * k + 8) (take stop s) = drop (8 * k + 8) (take stop t)"
      using post by (simp add: drop_take)
    moreover have "8 dvd length (drop (8 * k + 8) (take stop t))"
      using True n len dvd dvd_diff_nat [of 8 stop "8 * k + 8"] by simp
    ultimately have "take 8 (drop (8 * k) s) = take 8 (drop (8 * k) t)"
      using foldl_murmur_one_block [of "take (8 * k) t" k "take 8 (drop (8 * k) s)"
          "take 8 (drop (8 * k) t)" "drop (8 * k + 8) (take stop t)" h]
        split_block [OF True, of s] split_block [OF True, of t] pre True n len
      by simp
    then have "take stop s = take stop t"
      using split_block [OF True, of s] split_block [OF True, of t] pre post n len
      by (simp add: drop_take)
    with tails show ?thesis by (metis append_take_drop_id)
  next
    case False
    then have le: "stop \<le> 8 * k" using dvd by (auto elim!: dvdE)
    then have "take stop s = take stop t"
      using arg_cong [OF pre, of "take stop"] by (simp add: min_def)
    moreover from this have "drop stop s = drop stop t"
      using murmur_tail_inj [of "drop stop s" "drop stop t"] eq' lens n by simp
    ultimately show ?thesis by (metis append_take_drop_id)
  qed
qed

end
