(* ===== verification/State_File.thy ===== *)
theory State_File
  imports Bloom Combinations Hyperloglog Murmur_Hash
begin

text \<open>
  The state file (\<open>src/include/honas_state.h\<close>, \<open>src/src/honas_state.c\<close>): the header and its bytes
  on disk, the size and the layout of the file, creating a state and loading one. The memory
  mapped file is a byte list; the header at its beginning is kept as a record, and filters and
  HyperLogLog registers are views, pairs of an offset and a length. \<open>int\<close> results are the return
  codes; \<open>None\<close> is a failed assertion or an access outside of the mapping.
\<close>

section \<open>The header\<close>

record honas_state_file_header =
  file_magic :: bytes
  major_version :: u32
  minor_version :: u32
  first_filter_offset :: u32
  padding_after_filters :: u32
  number_of_filters :: u32
  number_of_bits_per_filter :: u32
  number_of_hashes :: u32
  number_of_filters_per_user :: u32
  flatten_threshold :: u32
  client_hll_size :: u32
  padding_after_client_hll :: u32
  host_name_hll_size :: u32
  padding_after_host_name_hll :: u32
  period_begin :: u64
  period_end :: u64
  first_request :: u64
  last_request :: u64
  number_of_requests :: u64
  estimated_number_of_clients :: u32
  estimated_number_of_host_names :: u32

abbreviation (input) HEADER_SIZE :: nat where "HEADER_SIZE \<equiv> 108"

definition HONAS_STATE_FILE_MAGIC :: bytes where
  "HONAS_STATE_FILE_MAGIC = [68, 78, 83, 66, 76, 79, 79, 77]"

definition bytes32 :: "u32 \<Rightarrow> bytes" where "bytes32 w = val_bytes 4 (unat w)"
definition bytes64 :: "u64 \<Rightarrow> bytes" where "bytes64 w = val_bytes 8 (unat w)"

text \<open>The packed structure in memory and on disk.\<close>

definition header_bytes :: "honas_state_file_header \<Rightarrow> bytes" where
  "header_bytes h =
     file_magic h @ concat (map bytes32
       [major_version h, minor_version h, first_filter_offset h, padding_after_filters h,
        number_of_filters h, number_of_bits_per_filter h, number_of_hashes h,
        number_of_filters_per_user h, flatten_threshold h, client_hll_size h,
        padding_after_client_hll h, host_name_hll_size h, padding_after_host_name_hll h]) @
     concat (map bytes64
       [period_begin h, period_end h, first_request h, last_request h, number_of_requests h]) @
     bytes32 (estimated_number_of_clients h) @ bytes32 (estimated_number_of_host_names h)"

definition header_of_bytes :: "bytes \<Rightarrow> honas_state_file_header" where
  "header_of_bytes s =
     \<lparr>file_magic = take 8 s, major_version = load32 s 8, minor_version = load32 s 12,
      first_filter_offset = load32 s 16, padding_after_filters = load32 s 20,
      number_of_filters = load32 s 24, number_of_bits_per_filter = load32 s 28,
      number_of_hashes = load32 s 32, number_of_filters_per_user = load32 s 36,
      flatten_threshold = load32 s 40, client_hll_size = load32 s 44,
      padding_after_client_hll = load32 s 48, host_name_hll_size = load32 s 52,
      padding_after_host_name_hll = load32 s 56, period_begin = load64 s 60,
      period_end = load64 s 68, first_request = load64 s 76, last_request = load64 s 84,
      number_of_requests = load64 s 92, estimated_number_of_clients = load32 s 100,
      estimated_number_of_host_names = load32 s 104\<rparr>"

lemma length_bytes32 [simp]: "length (bytes32 w) = 4"
  by (simp add: bytes32_def)

lemma length_bytes64 [simp]: "length (bytes64 w) = 8"
  by (simp add: bytes64_def)

lemma of_nat_bytes_val_bytes32 [simp]: "of_nat (bytes_val (bytes32 w)) = w"
proof -
  have "unat w mod 256 ^ 4 = unat w" by simp
  then show ?thesis by (simp only: bytes32_def bytes_val_val_bytes) simp
qed

lemma of_nat_bytes_val_bytes64 [simp]: "of_nat (bytes_val (bytes64 w)) = w"
proof -
  have "unat w mod 256 ^ 8 = unat w" by simp
  then show ?thesis by (simp only: bytes64_def bytes_val_val_bytes) simp
qed

lemma length_header_bytes: "length (file_magic h) = 8 \<Longrightarrow> length (header_bytes h) = HEADER_SIZE"
  by (simp add: header_bytes_def)

lemma header_roundtrip:
  assumes "length (file_magic h) = 8"
  shows "header_of_bytes (header_bytes h @ rest) = h"
proof -
  let ?b = "header_bytes h @ rest"
  have m: "take 8 ?b = file_magic h" using assms by (simp add: header_bytes_def)
  have l: "load32 ?b 8 = major_version h" "load32 ?b 12 = minor_version h"
    "load32 ?b 16 = first_filter_offset h" "load32 ?b 20 = padding_after_filters h"
    "load32 ?b 24 = number_of_filters h" "load32 ?b 28 = number_of_bits_per_filter h"
    "load32 ?b 32 = number_of_hashes h" "load32 ?b 36 = number_of_filters_per_user h"
    "load32 ?b 40 = flatten_threshold h" "load32 ?b 44 = client_hll_size h"
    "load32 ?b 48 = padding_after_client_hll h" "load32 ?b 52 = host_name_hll_size h"
    "load32 ?b 56 = padding_after_host_name_hll h" "load64 ?b 60 = period_begin h"
    "load64 ?b 68 = period_end h" "load64 ?b 76 = first_request h" "load64 ?b 84 = last_request h"
    "load64 ?b 92 = number_of_requests h" "load32 ?b 100 = estimated_number_of_clients h"
    "load32 ?b 104 = estimated_number_of_host_names h"
    using assms
    by (simp_all add: header_bytes_def load32_def load64_def)
  show ?thesis unfolding header_of_bytes_def m l by simp
qed

section \<open>The layout\<close>

text \<open>
  Sizes and offsets are computed in \<open>uint32_t\<close> arithmetic and wrap around; what is assigned to a
  \<open>size_t\<close> is converted after that.
\<close>

definition round_up_to_factor_of_two :: "nat \<Rightarrow> nat \<Rightarrow> nat" where
  "round_up_to_factor_of_two v f =
     unat ((of_nat v + push_bit f 1 - 1 :: u64) AND NOT (push_bit f 1 - 1))"

definition honas_state_file_size :: "honas_state_file_header \<Rightarrow> nat option" where
  "honas_state_file_size h = do {
     c_assert (number_of_filters h > 0);
     c_assert (number_of_bits_per_filter h > 0);
     c_assert (number_of_bits_per_filter h AND 7 = 0);
     c_assert (unat (first_filter_offset h) \<ge> HEADER_SIZE);
     Some (unat (first_filter_offset h
       + number_of_filters h * drop_bit 3 (number_of_bits_per_filter h)
       + number_of_filters h * padding_after_filters h
       + client_hll_size h + padding_after_client_hll h
       + host_name_hll_size h + padding_after_host_name_hll h))
   }"

definition filter_begin :: "honas_state_file_header \<Rightarrow> u32 \<Rightarrow> nat" where
  "filter_begin h i =
     unat (first_filter_offset h + i * padding_after_filters h
       + i * drop_bit 3 (number_of_bits_per_filter h))"

type_synonym view = "nat \<times> nat"

record honas_state =
  header :: honas_state_file_header
  filters :: "view list"
  nr_filters_per_user_combinations :: u32
  client_count_registers :: view
  host_name_count_registers :: view
  client_count :: hll
  host_name_count :: hll
  mmap :: bytes
  st_size :: nat

fun init_filters :: "honas_state_file_header \<Rightarrow> nat \<Rightarrow> nat \<Rightarrow> nat \<Rightarrow> view list option" where
  "init_filters h sz i 0 = Some []"
| "init_filters h sz i (Suc n) = do {
     let begin = filter_begin h (of_nat i);
     let len = unat (drop_bit 3 (number_of_bits_per_filter h));
     c_assert (begin + len \<le> sz);
     vs \<leftarrow> init_filters h sz (i + 1) n;
     Some ((begin, len) # vs)
   }"

definition honas_state_init_common :: "honas_state \<Rightarrow> honas_state option" where
  "honas_state_init_common st = (let h = header st in do {
     c_assert (st_size st \<ge> HEADER_SIZE);
     file_size \<leftarrow> honas_state_file_size h;
     c_assert (st_size st \<ge> file_size);
     views \<leftarrow> init_filters h (st_size st) 0 (unat (number_of_filters h));
     let client = unat ((drop_bit 3 (number_of_bits_per_filter h) + padding_after_filters h)
           * number_of_filters h);
     let host = client + unat (client_hll_size h) + unat (padding_after_client_hll h);
     Some (st\<lparr>filters := views,
       client_count_registers := (client, unat (client_hll_size h)),
       host_name_count_registers := (host, unat (host_name_hll_size h)),
       nr_filters_per_user_combinations :=
         number_of_combinations (number_of_filters h) (number_of_filters_per_user h)\<rparr>)
   })"

definition empty_hll :: hll where
  "empty_hll = \<lparr>hll_card = 0, hll_encoding = HLL_DENSE, hll_registers = [], hll_registers_owned = False\<rparr>"

definition honas_state_destroy :: "honas_state \<Rightarrow> honas_state" where
  "honas_state_destroy st =
     st\<lparr>client_count := hllDestroy (client_count st), host_name_count := hllDestroy (host_name_count st),
       filters := [], mmap := [], st_size := 0\<rparr>"

section \<open>Creating a state\<close>

text \<open>
  \<open>mmap_ok\<close> and \<open>alloc_ok\<close> say whether the mapping and the allocations succeed. The mapping is
  anonymous, so it starts out with zeros.
\<close>

definition new_header :: "u32 \<Rightarrow> u32 \<Rightarrow> u32 \<Rightarrow> u32 \<Rightarrow> u32 \<Rightarrow> honas_state_file_header" where
  "new_header n bits hashes per_user flatten =
     (let fsize = unat (drop_bit 3 bits);
          hll_pad = of_nat (round_up_to_factor_of_two HLL_DENSE_SIZE 12 - HLL_DENSE_SIZE)
      in \<lparr>file_magic = HONAS_STATE_FILE_MAGIC, major_version = 1, minor_version = 0,
          first_filter_offset = of_nat (round_up_to_factor_of_two (HEADER_SIZE + 4 * unat n) 12),
          padding_after_filters = of_nat (round_up_to_factor_of_two fsize 12 - fsize),
          number_of_filters = n, number_of_bits_per_filter = bits, number_of_hashes = hashes,
          number_of_filters_per_user = per_user, flatten_threshold = flatten,
          client_hll_size = of_nat HLL_DENSE_SIZE, padding_after_client_hll = hll_pad,
          host_name_hll_size = of_nat HLL_DENSE_SIZE, padding_after_host_name_hll = hll_pad,
          period_begin = 0, period_end = 0, first_request = 0, last_request = 0,
          number_of_requests = 0, estimated_number_of_clients = 0, estimated_number_of_host_names = 0\<rparr>)"

definition honas_state_create ::
  "bool \<Rightarrow> bool \<Rightarrow> u32 \<Rightarrow> u32 \<Rightarrow> u32 \<Rightarrow> u32 \<Rightarrow> u32 \<Rightarrow> (int \<times> honas_state option) option" where
  "honas_state_create mmap_ok alloc_ok n bits hashes per_user flatten = do {
     c_assert (n > 0);
     c_assert (bits > 0);
     c_assert (bits AND 7 = 0);
     c_assert (hashes > 0);
     c_assert (per_user > 0);
     let h = new_header n bits hashes per_user flatten;
     size \<leftarrow> honas_state_file_size h;
     if \<not> (mmap_ok \<and> size > 0) then Some (-1, None)
     else do {
       clients \<leftarrow> hllInit alloc_ok;
       hosts \<leftarrow> hllInit alloc_ok;
       c_assert alloc_ok;
       st \<leftarrow> honas_state_init_common
         \<lparr>header = h, filters = [], nr_filters_per_user_combinations = 0,
          client_count_registers = (0, 0), host_name_count_registers = (0, 0),
          client_count = clients, host_name_count = hosts, mmap = replicate size 0, st_size = size\<rparr>;
       Some (0, Some st)
     }
   }"

section \<open>Loading a state\<close>

text \<open>
  \<open>file\<close> is the content of the file, \<open>None\<close> if it cannot be opened or mapped; a file without a
  byte cannot be mapped. The part of a page behind the end of the file reads as zeros.
\<close>

text \<open>
  The views of a loaded state point into the mapping. A view that is not inside of it is refused
  here; the code would fail at its first use.
\<close>

definition hllInitFromView :: "bytes \<Rightarrow> view \<Rightarrow> hll option" where
  "hllInitFromView mem v = do {
     c_assert (fst v + snd v \<le> length mem);
     hllInitFromBuffer (take (snd v) (drop (fst v) mem))
   }"

definition honas_state_load :: "bool \<Rightarrow> bytes option \<Rightarrow> (int \<times> honas_state option) option" where
  "honas_state_load alloc_ok file =
     (case file of None \<Rightarrow> Some (-1, None)
      | Some content \<Rightarrow>
        if content = [] then Some (-1, None)
        else
          (let size = length content; h = header_of_bytes (content @ replicate HEADER_SIZE 0) in
           if size < 44 \<or> file_magic h \<noteq> HONAS_STATE_FILE_MAGIC \<or> major_version h \<noteq> 1
           then Some (1, None)
           else if unat (first_filter_offset h) < HEADER_SIZE
             \<or> number_of_filters h = 0
             \<or> number_of_bits_per_filter h = 0
             \<or> number_of_bits_per_filter h AND 7 \<noteq> 0
             \<or> number_of_hashes h = 0
             \<or> client_hll_size h \<noteq> of_nat HLL_DENSE_SIZE
             \<or> host_name_hll_size h \<noteq> of_nat HLL_DENSE_SIZE
             \<or> (case honas_state_file_size h of None \<Rightarrow> True | Some needed \<Rightarrow> size < needed)
           then Some (2, None)
           else do {
             c_assert alloc_ok;
             st \<leftarrow> honas_state_init_common
               \<lparr>header = h, filters = [], nr_filters_per_user_combinations = 0,
                client_count_registers = (0, 0), host_name_count_registers = (0, 0),
                client_count = empty_hll, host_name_count = empty_hll, mmap = content,
                st_size = size\<rparr>;
             clients \<leftarrow> hllInitFromView content (client_count_registers st);
             hosts \<leftarrow> hllInitFromView content (host_name_count_registers st);
             Some (0, Some (st\<lparr>client_count := clients, host_name_count := hosts\<rparr>))
           }))"

section \<open>The layout of a created file\<close>

lemma round_up_eq:
  assumes "v + 4095 < 2 ^ 64"
  shows "round_up_to_factor_of_two v 12 = (v + 4095) div 4096 * 4096"
proof -
  let ?x = "of_nat v + push_bit 12 1 - 1 :: u64"
  have x: "?x = of_nat (v + 4095)" by simp
  have m: "push_bit 12 1 - 1 = (mask 12 :: u64)" by (simp add: mask_eq_exp_minus_1)
  have "?x AND NOT (mask 12) = push_bit 12 (drop_bit 12 ?x)"
    by (rule bit_word_eqI) (auto simp: bit_and_iff bit_not_iff bit_mask_iff bit_push_bit_iff bit_drop_bit_eq)
  moreover have "unat (push_bit 12 (drop_bit 12 ?x)) = (v + 4095) div 4096 * 4096"
  proof -
    have u: "unat ?x = v + 4095" using assms unfolding x by (intro unat_of_nat_less) simp
    have "unat (drop_bit 12 ?x) = (v + 4095) div 4096"
      by (simp only: unat_drop_bit_eq u) (simp add: drop_bit_eq_div)
    moreover have "push_bit 12 (drop_bit 12 ?x) = drop_bit 12 ?x * 4096" by (simp add: push_bit_eq_mult)
    moreover have "(v + 4095) div 4096 * 4096 < 2 ^ 64"
      using assms div_times_less_eq_dividend [of "v + 4095" 4096] by linarith
    ultimately show ?thesis by (simp add: unat_word_ariths)
  qed
  ultimately show ?thesis unfolding round_up_to_factor_of_two_def m by simp
qed

text \<open>
  \<open>pages v\<close> is \<open>v\<close> rounded up to whole pages. A state with \<open>n\<close> filters of \<open>m\<close> bytes fits when the
  sizes do not wrap around in 32 bits.
\<close>

definition pages :: "nat \<Rightarrow> nat" where
  "pages v = (v + 4095) div 4096 * 4096"

lemma pages_props: "v \<le> pages v" "pages v < v + 4096" "4096 dvd pages v"
proof -
  have "(v + 4095) div 4096 * 4096 + (v + 4095) mod 4096 = v + 4095" by simp
  moreover have "(v + 4095) mod 4096 < 4096" by simp
  ultimately show "v \<le> pages v" "pages v < v + 4096" unfolding pages_def by linarith+
qed (simp add: pages_def)

definition created_size :: "nat \<Rightarrow> nat \<Rightarrow> nat" where
  "created_size n m = pages (HEADER_SIZE + 4 * n) + n * pages m + 2 * 16384"

definition layout_fits :: "u32 \<Rightarrow> u32 \<Rightarrow> bool" where
  "layout_fits n bits \<longleftrightarrow> n > 0 \<and> bits > 0 \<and> bits AND 7 = 0 \<and>
     created_size (unat n) (unat bits div 8) < 2 ^ 32"

lemma unat_drop_bit_3: "unat (drop_bit 3 (bits :: u32)) = unat bits div 8"
  by (simp only: unat_drop_bit_eq) (simp add: drop_bit_eq_div)

lemma new_header_sizes:
  fixes n bits hashes per_user flatten :: u32
  assumes "layout_fits n bits"
  defines "h \<equiv> new_header n bits hashes per_user flatten" and "m \<equiv> unat bits div 8"
  shows "unat (first_filter_offset h) = pages (HEADER_SIZE + 4 * unat n)"
    "unat (padding_after_filters h) = pages m - m"
    "unat (client_hll_size h) = 12289" "unat (host_name_hll_size h) = 12289"
    "unat (padding_after_client_hll h) = 4095" "unat (padding_after_host_name_hll h) = 4095"
    "number_of_filters h = n" "number_of_bits_per_filter h = bits"
proof -
  have fit: "created_size (unat n) m < 2 ^ 32" using assms(1) by (simp add: layout_fits_def m_def)
  have n0: "0 < unat n" using assms(1) by (simp add: layout_fits_def word_less_nat_alt)
  then have "pages m \<le> unat n * pages m" by simp
  with fit have pm: "pages m < 2 ^ 32" unfolding created_size_def by linarith
  have p1: "pages (HEADER_SIZE + 4 * unat n) < 2 ^ 32" using fit unfolding created_size_def by linarith
  have r: "round_up_to_factor_of_two v 12 = pages v" if "v < 2 ^ 35" for v
    unfolding pages_def using that by (intro round_up_eq) simp
  have v1: "HEADER_SIZE + 4 * unat n < 2 ^ 35"
  proof -
    have "HEADER_SIZE + 4 * unat n < 34359738368" using unat_u32_less [of n] by linarith
    also have "\<dots> = 2 ^ 35" by simp
    finally show ?thesis .
  qed
  have v2: "m < 2 ^ 35"
  proof -
    have "m \<le> unat bits" by (simp add: m_def)
    also have "\<dots> < 4294967296" by (rule unat_u32_less)
    also have "\<dots> < 2 ^ 35" by simp
    finally show ?thesis .
  qed
  have hll: "pages HLL_DENSE_SIZE = 16384" by (simp add: pages_def)
  have r3: "round_up_to_factor_of_two HLL_DENSE_SIZE 12 = 16384" using r [of HLL_DENSE_SIZE] hll by simp
  show "unat (first_filter_offset h) = pages (HEADER_SIZE + 4 * unat n)"
    using p1 r [OF v1] by (simp add: h_def new_header_def Let_def unat_of_nat)
  show "unat (padding_after_filters h) = pages m - m"
    using pm r [OF v2] by (simp add: h_def new_header_def Let_def unat_of_nat unat_drop_bit_3 m_def [symmetric])
  show "unat (client_hll_size h) = 12289" "unat (host_name_hll_size h) = 12289"
    "unat (padding_after_client_hll h) = 4095" "unat (padding_after_host_name_hll h) = 4095"
    "number_of_filters h = n" "number_of_bits_per_filter h = bits"
    using r3 by (simp_all add: h_def new_header_def Let_def)
qed

text \<open>Sums and products of words that do not wrap.\<close>

lemma unat_plus_simple: "unat (a :: u32) + unat b < 2 ^ 32 \<Longrightarrow> unat (a + b) = unat a + unat b"
  by (simp add: unat_word_ariths)

lemma unat_mult_simple: "unat (a :: u32) * unat b < 2 ^ 32 \<Longrightarrow> unat (a * b) = unat a * unat b"
  by (simp add: unat_word_ariths)

lemma new_header_file_size:
  fixes n bits :: u32
  assumes "layout_fits n bits"
  shows "honas_state_file_size (new_header n bits hashes per_user flatten) =
    Some (created_size (unat n) (unat bits div 8))"
proof -
  define h where "h = new_header n bits hashes per_user flatten"
  define m where "m = unat bits div 8"
  note sz = new_header_sizes [OF assms, of hashes per_user flatten, folded h_def m_def]
  have fit: "created_size (unat n) m < 2 ^ 32" using assms by (simp add: layout_fits_def m_def)
  have mp: "m + (pages m - m) = pages m" using pages_props(1) [of m] by simp
  then have s: "unat n * m + unat n * (pages m - m) = unat n * pages m"
    by (simp only: distrib_left [symmetric])
  let ?F = "pages (HEADER_SIZE + 4 * unat n)"
  have b: "?F + (unat n * m + unat n * (pages m - m)) + 32768 < 2 ^ 32"
    using fit unfolding created_size_def s by simp
  have m1: "unat (n * drop_bit 3 bits) = unat n * m"
    using b by (subst unat_mult_simple) (simp_all add: unat_drop_bit_3 m_def)
  have m2: "unat (n * padding_after_filters h) = unat n * (pages m - m)"
    using b sz(2) by (subst unat_mult_simple) simp_all
  have a1: "unat (first_filter_offset h + n * drop_bit 3 bits) = ?F + unat n * m"
    using b sz(1) m1 by (subst unat_plus_simple) simp_all
  have a2: "unat (first_filter_offset h + n * drop_bit 3 bits + n * padding_after_filters h) =
      ?F + unat n * m + unat n * (pages m - m)"
    using b a1 m2 by (subst unat_plus_simple) simp_all
  have a3: "unat (first_filter_offset h + n * drop_bit 3 bits + n * padding_after_filters h + client_hll_size h) =
      ?F + unat n * m + unat n * (pages m - m) + 12289"
    using b a2 sz(3) by (subst unat_plus_simple) simp_all
  have a4: "unat (first_filter_offset h + n * drop_bit 3 bits + n * padding_after_filters h + client_hll_size h
      + padding_after_client_hll h) = ?F + unat n * m + unat n * (pages m - m) + 16384"
    using b a3 sz(5) by (subst unat_plus_simple) simp_all
  have a5: "unat (first_filter_offset h + n * drop_bit 3 bits + n * padding_after_filters h + client_hll_size h
      + padding_after_client_hll h + host_name_hll_size h) = ?F + unat n * m + unat n * (pages m - m) + 28673"
    using b a4 sz(4) by (subst unat_plus_simple) simp_all
  have a6: "unat (first_filter_offset h + n * drop_bit 3 bits + n * padding_after_filters h + client_hll_size h
      + padding_after_client_hll h + host_name_hll_size h + padding_after_host_name_hll h) =
      ?F + unat n * m + unat n * (pages m - m) + 32768"
    using b a5 sz(6) by (subst unat_plus_simple) simp_all
  have "?F + unat n * m + unat n * (pages m - m) + 32768 = created_size (unat n) m"
    unfolding created_size_def using s by simp
  moreover have "HEADER_SIZE \<le> ?F" using pages_props(1) [of "HEADER_SIZE + 4 * unat n"] by simp
  ultimately show ?thesis
    using assms sz a6 unfolding h_def [symmetric] m_def [symmetric] honas_state_file_size_def layout_fits_def
    by simp
qed

lemma filter_begin_eq:
  fixes n bits :: u32
  assumes "layout_fits n bits" "i < unat n"
  shows "filter_begin (new_header n bits hashes per_user flatten) (of_nat i) =
    pages (HEADER_SIZE + 4 * unat n) + i * pages (unat bits div 8)"
proof -
  define h where "h = new_header n bits hashes per_user flatten"
  define m where "m = unat bits div 8"
  note sz = new_header_sizes [OF assms(1), of hashes per_user flatten, folded h_def m_def]
  have fit: "created_size (unat n) m < 2 ^ 32" using assms by (simp add: layout_fits_def m_def)
  have mp: "m + (pages m - m) = pages m" using pages_props(1) [of m] by simp
  let ?F = "pages (HEADER_SIZE + 4 * unat n)"
  have "i < 2 ^ 32" using order.strict_trans [OF assms(2) unat_u32_less] by simp
  then have i: "unat (of_nat i :: u32) = i" by (intro unat_of_nat_less) simp
  have "i * pages m \<le> unat n * pages m" using assms(2) by (intro mult_right_mono) simp_all
  then have b: "?F + i * pages m < 2 ^ 32" using fit unfolding created_size_def by linarith
  have s: "i * (pages m - m) + i * m = i * pages m" by (simp only: distrib_left [symmetric] mp add.commute)
  have m1: "unat (of_nat i * padding_after_filters h) = i * (pages m - m)"
    using b s sz(2) i by (subst unat_mult_simple) simp_all
  have m2: "unat (of_nat i * drop_bit 3 bits) = i * m"
    using b s i by (subst unat_mult_simple) (simp_all add: unat_drop_bit_3 m_def)
  have a1: "unat (first_filter_offset h + of_nat i * padding_after_filters h) = ?F + i * (pages m - m)"
    using b s sz(1) m1 by (subst unat_plus_simple) simp_all
  have "unat (first_filter_offset h + of_nat i * padding_after_filters h + of_nat i * drop_bit 3 bits) =
      ?F + i * (pages m - m) + i * m"
    using b s a1 m2 by (subst unat_plus_simple) simp_all
  then show ?thesis
    using s sz(8) unfolding filter_begin_def h_def [symmetric] m_def [symmetric] by simp
qed

lemma init_filters_eq:
  "\<forall>j < n. filter_begin h (of_nat (i + j)) + unat (drop_bit 3 (number_of_bits_per_filter h)) \<le> sz \<Longrightarrow>
    init_filters h sz i n =
      Some (map (\<lambda>j. (filter_begin h (of_nat j), unat (drop_bit 3 (number_of_bits_per_filter h)))) [i ..< i + n])"
proof (induction n arbitrary: i)
  case (Suc n)
  have "\<forall>j < n. filter_begin h (of_nat (i + 1 + j)) + unat (drop_bit 3 (number_of_bits_per_filter h)) \<le> sz"
  proof (intro allI impI)
    fix j assume "j < n"
    then show "filter_begin h (of_nat (i + 1 + j)) + unat (drop_bit 3 (number_of_bits_per_filter h)) \<le> sz"
      using Suc.prems [rule_format, of "Suc j"] by simp
  qed
  from Suc.IH [OF this] Suc.prems [rule_format, of 0] show ?case
    by (simp add: Let_def upt_conv_Cons del: upt_Suc)
qed simp

definition created_filters :: "nat \<Rightarrow> nat \<Rightarrow> view list" where
  "created_filters n m = map (\<lambda>i. (pages (HEADER_SIZE + 4 * n) + i * pages m, m)) [0 ..< n]"

lemma filter_end_bound:
  assumes "i < n"
  shows "pages (HEADER_SIZE + 4 * n) + i * pages m + m \<le> created_size n m"
proof -
  have "(i + 1) * pages m \<le> n * pages m" using assms by (intro mult_right_mono) simp_all
  with pages_props(1) [of m] show ?thesis unfolding created_size_def by simp
qed

lemma init_common_created:
  fixes n bits hashes per_user flatten :: u32
  assumes "layout_fits n bits"
  defines "h \<equiv> new_header n bits hashes per_user flatten" and "m \<equiv> unat bits div 8"
  assumes st: "header st = h" "st_size st = created_size (unat n) m"
  shows "honas_state_init_common st =
    Some (st\<lparr>filters := created_filters (unat n) m,
      client_count_registers := (unat n * pages m, 12289),
      host_name_count_registers := (unat n * pages m + 16384, 12289),
      nr_filters_per_user_combinations := number_of_combinations n per_user\<rparr>)"
proof -
  note sz = new_header_sizes [OF assms(1), of hashes per_user flatten, folded h_def m_def]
  have fit: "created_size (unat n) m < 2 ^ 32" using assms(1) by (simp add: layout_fits_def m_def)
  have fs: "honas_state_file_size h = Some (created_size (unat n) m)"
    using new_header_file_size [OF assms(1)] unfolding h_def m_def .
  have bits: "unat (drop_bit 3 (number_of_bits_per_filter h)) = m" using sz(8) by (simp add: unat_drop_bit_3 m_def)
  have fb: "filter_begin h (of_nat i) = pages (HEADER_SIZE + 4 * unat n) + i * pages m" if "i < unat n" for i
    using filter_begin_eq [OF assms(1) that] unfolding h_def m_def .
  have "init_filters h (created_size (unat n) m) 0 (unat n) =
      Some (map (\<lambda>j. (filter_begin h (of_nat j), m)) [0 ..< unat n])"
    using init_filters_eq [of "unat n" h 0 "created_size (unat n) m"] fb filter_end_bound [of _ "unat n" m]
    by (simp add: bits)
  also have "map (\<lambda>j. (filter_begin h (of_nat j), m)) [0 ..< unat n] = created_filters (unat n) m"
    unfolding created_filters_def using fb by auto
  finally have views: "init_filters h (created_size (unat n) m) 0 (unat n) = Some (created_filters (unat n) m)" .
  have mp: "m + (pages m - m) = pages m" using pages_props(1) [of m] by simp
  have np: "unat n * pages m < 2 ^ 32" using fit unfolding created_size_def by linarith
  have "0 < unat n" using assms(1) by (simp add: layout_fits_def word_less_nat_alt)
  then have "pages m \<le> unat n * pages m" by simp
  with np have pm: "pages m < 2 ^ 32" by linarith
  have c: "unat ((drop_bit 3 bits + padding_after_filters h) * n) = unat n * pages m"
  proof -
    have "unat (drop_bit 3 bits + padding_after_filters h) = pages m"
      using pm mp sz(2) by (subst unat_plus_simple) (simp_all add: unat_drop_bit_3 m_def)
    then show ?thesis using np by (subst unat_mult_simple) (simp_all add: mult.commute)
  qed
  have hs: "HEADER_SIZE \<le> created_size (unat n) m"
    using pages_props(1) [of "HEADER_SIZE + 4 * unat n"] unfolding created_size_def by simp
  have nc: "number_of_filters_per_user h = per_user" by (simp add: h_def new_header_def Let_def)
  show ?thesis
    unfolding honas_state_init_common_def Let_def st fs views sz(7,8) bits
    using hs c sz(3-6) by (simp add: views bits nc)
qed

lemma honas_state_create_eq:
  assumes "layout_fits n bits" "hashes > 0" "per_user > 0"
  shows "\<exists>clients hosts. honas_state_create True True n bits hashes per_user flatten = Some (0, Some
      \<lparr>header = new_header n bits hashes per_user flatten,
       filters = created_filters (unat n) (unat bits div 8),
       nr_filters_per_user_combinations = number_of_combinations n per_user,
       client_count_registers = (unat n * pages (unat bits div 8), 12289),
       host_name_count_registers = (unat n * pages (unat bits div 8) + 16384, 12289),
       client_count = clients, host_name_count = hosts,
       mmap = replicate (created_size (unat n) (unat bits div 8)) 0,
       st_size = created_size (unat n) (unat bits div 8)\<rparr>) \<and>
    hllInit True = Some clients \<and> hllInit True = Some hosts"
proof -
  obtain c where c: "hllInit True = Some c" using hllInit_eq by blast
  have "created_size (unat n) (unat bits div 8) > 0" by (simp add: created_size_def)
  then show ?thesis
    using assms new_header_file_size [OF assms(1)] init_common_created [OF assms(1)] c
    unfolding layout_fits_def
    by (simp add: honas_state_create_def)
qed

text \<open>The filters of a created state start on pages, do not overlap and lie inside the file.\<close>

lemma created_filters_page: "(off, len) \<in> set (created_filters n m) \<Longrightarrow> 4096 dvd off"
  using pages_props(3) by (auto simp: created_filters_def)

lemma created_filters_disjoint:
  assumes "i < j" "j < n"
  shows "fst (created_filters n m ! i) + snd (created_filters n m ! i) \<le> fst (created_filters n m ! j)"
proof -
  have "(i + 1) * pages m \<le> j * pages m" using assms by (intro mult_right_mono) simp_all
  with pages_props(1) [of m] assms show ?thesis by (simp add: created_filters_def)
qed

lemma created_filters_bounds:
  "(off, len) \<in> set (created_filters n m) \<Longrightarrow> len = m \<and> HEADER_SIZE + 4 * n \<le> off \<and> off + len \<le> created_size n m"
  using filter_end_bound [of _ n m] pages_props(1) [of "HEADER_SIZE + 4 * n"]
  by (fastforce simp: created_filters_def)

text \<open>
  The registers of the clients' HyperLogLog begin before the end of the last filter: the offset of
  the first filter is missing in their address.
\<close>

lemma client_registers_overlap:
  assumes "0 < n"
  shows "n * pages m < fst (last (created_filters n m)) + snd (last (created_filters n m))"
    and "pages (HEADER_SIZE + 4 * n) < pages m + 12289 \<Longrightarrow>
      fst (last (created_filters n m)) < n * pages m + 12289"
proof -
  obtain k where n: "n = Suc k" using assms by (cases n) auto
  have l: "last (created_filters n m) = (pages (HEADER_SIZE + 4 * n) + k * pages m, m)"
    by (simp add: created_filters_def last_map n)
  have F: "4096 \<le> pages (HEADER_SIZE + 4 * n)"
  proof -
    have "4096 dvd pages (HEADER_SIZE + 4 * n)" "0 < pages (HEADER_SIZE + 4 * n)"
      using pages_props(1,3) [of "HEADER_SIZE + 4 * n"] by simp_all
    then show ?thesis by (rule dvd_imp_le)
  qed
  show "n * pages m < fst (last (created_filters n m)) + snd (last (created_filters n m))"
    using F pages_props(2) [of m] unfolding l by (simp add: n)
  show "pages (HEADER_SIZE + 4 * n) < pages m + 12289 \<Longrightarrow>
      fst (last (created_filters n m)) < n * pages m + 12289"
    unfolding l by (simp add: n)
qed

end
