(* ===== verification/Honas_State.thy ===== *)
theory Honas_State
  imports State_File
begin

text \<open>
  The operations on a Honas state (\<open>src/src/honas_state.c\<close>): registering a host name lookup,
  asking which filters hold a host name, the data written to disk, combining two states and the
  entropy a hash must have. \<open>sha\<close> stands for OpenSSL's \<open>SHA256\<close>. The HyperLogLog of a loaded
  state keeps its registers inside the mapping, so it is read from there and written back there;
  the mapping starts on a page and heap memory on a multiple of 16, so that an address is an
  offset as far as alignment is concerned.
\<close>

section \<open>Views into the mapping\<close>

definition view_bytes :: "bytes \<Rightarrow> view \<Rightarrow> bytes" where
  "view_bytes mem v = take (snd v) (drop (fst v) mem)"

definition view_write :: "view \<Rightarrow> bytes \<Rightarrow> honas_state \<Rightarrow> honas_state" where
  "view_write v s st = st\<lparr>mmap := splice (fst v) s (mmap st)\<rparr>"

definition view_ok :: "honas_state \<Rightarrow> view \<Rightarrow> bool" where
  "view_ok st v \<longleftrightarrow> fst v + snd v \<le> length (mmap st)"

text \<open>The array of bit counts behind the header.\<close>

definition filter_bits_set :: "honas_state \<Rightarrow> nat \<Rightarrow> u32" where
  "filter_bits_set st i = load32 (mmap st) (HEADER_SIZE + 4 * i)"

definition load_hll :: "honas_state \<Rightarrow> hll \<Rightarrow> view \<Rightarrow> hll option" where
  "load_hll st h v =
     (if hll_registers_owned h then Some h
      else do {
        c_assert (view_ok st v);
        Some (h\<lparr>hll_registers := view_bytes (mmap st) v\<rparr>)
      })"

definition get_client_count :: "honas_state \<Rightarrow> hll option" where
  "get_client_count st = load_hll st (client_count st) (client_count_registers st)"

definition get_host_name_count :: "honas_state \<Rightarrow> hll option" where
  "get_host_name_count st = load_hll st (host_name_count st) (host_name_count_registers st)"

definition put_client_count :: "hll \<Rightarrow> honas_state \<Rightarrow> honas_state" where
  "put_client_count h st =
     (if hll_registers_owned h then st\<lparr>client_count := h\<rparr>
      else view_write (client_count_registers st) (hll_registers h) (st\<lparr>client_count := h\<rparr>))"

definition put_host_name_count :: "hll \<Rightarrow> honas_state \<Rightarrow> honas_state" where
  "put_host_name_count h st =
     (if hll_registers_owned h then st\<lparr>host_name_count := h\<rparr>
      else view_write (host_name_count_registers st) (hll_registers h) (st\<lparr>host_name_count := h\<rparr>))"

definition count_client :: "u64 \<Rightarrow> honas_state \<Rightarrow> honas_state option" where
  "count_client hash st = do {
     h \<leftarrow> get_client_count st;
     (h, _) \<leftarrow> hllAdd h hash;
     Some (put_client_count h st)
   }"

definition count_host_name :: "u64 \<Rightarrow> honas_state \<Rightarrow> honas_state option" where
  "count_host_name hash st = do {
     h \<leftarrow> get_host_name_count st;
     (h, _) \<leftarrow> hllAdd h hash;
     Some (put_host_name_count h st)
   }"

section \<open>Hashing and the filters of a client\<close>

definition uint64_hash :: "bytes \<Rightarrow> u64" where
  "uint64_hash d = byte_slice_MurmurHash64A d 0xadc83b19"

datatype in_addr46 = Addr4 bytes | Addr6 bytes | Other_Family nat

definition client_hash :: "in_addr46 \<Rightarrow> u64 option" where
  "client_hash client =
     (case client of Addr4 a \<Rightarrow> Some (uint64_hash a) | Addr6 a \<Rightarrow> Some (uint64_hash a)
      | Other_Family _ \<Rightarrow> None)"

definition filter_index_host_name_hash_transform :: "nat \<Rightarrow> bytes \<Rightarrow> bytes option" where
  "filter_index_host_name_hash_transform filter_index src =
     (if filter_index = 0 then Some src
      else do {
        c_assert (length src mod 8 = 0);
        let multiplier = (ucast (of_nat filter_index * 2 + 1 :: u32) :: u64);
        Some (unwords64 (map (\<lambda>w. w * multiplier) (words64 src)))
      })"

definition client_filter_indexes :: "honas_state \<Rightarrow> u64 \<Rightarrow> nat list option" where
  "client_filter_indexes st hash = do {
     let combinations = (ucast (nr_filters_per_user_combinations st) :: u64);
     c_assert (combinations \<noteq> 0);
     let combination = (ucast (hash mod combinations) :: u32);
     lookup_combination (number_of_filters (header st)) (number_of_filters_per_user (header st)) combination
   }"

definition set_in_filter :: "nat \<Rightarrow> bytes \<Rightarrow> honas_state \<Rightarrow> honas_state option" where
  "set_in_filter i hash st = do {
     c_assert (i < length (filters st));
     let v = filters st ! i;
     c_assert (view_ok st v);
     transformed \<leftarrow> filter_index_host_name_hash_transform i hash;
     f \<leftarrow> bloom_set (view_bytes (mmap st) v) transformed (unat (number_of_hashes (header st)));
     Some (view_write v f st)
   }"

fun register_in_filters :: "nat list \<Rightarrow> bytes \<Rightarrow> honas_state \<Rightarrow> honas_state option" where
  "register_in_filters [] hash st = Some st"
| "register_in_filters (i # is) hash st = do {
     st \<leftarrow> set_in_filter i hash st;
     register_in_filters is hash st
   }"

section \<open>Registering a host name lookup\<close>

record dry_run_counters =
  hourly_global :: hll
  daily_global :: hll
  hourly_total_queries :: u64
  daily_total_queries :: u64
  hourly_maximum :: u64
  daily_maximum :: u64

definition dry_add :: "u64 \<Rightarrow> dry_run_counters option \<Rightarrow> dry_run_counters option option" where
  "dry_add hash dry =
     (case dry of None \<Rightarrow> Some None
      | Some d \<Rightarrow> do {
          (h, _) \<leftarrow> hllAdd (hourly_global d) hash;
          (g, _) \<leftarrow> hllAdd (daily_global d) hash;
          Some (Some (d\<lparr>hourly_global := h, daily_global := g\<rparr>))
        })"

definition dry_query :: "dry_run_counters option \<Rightarrow> dry_run_counters option" where
  "dry_query dry = map_option (\<lambda>d. d\<lparr>hourly_total_queries := hourly_total_queries d + 1,
     daily_total_queries := daily_total_queries d + 1\<rparr>) dry"

text \<open>Hash a name, count it, update the dry run counters and register it.\<close>

definition register_name ::
  "(bytes \<Rightarrow> bytes) \<Rightarrow> nat list \<Rightarrow> bytes \<Rightarrow> honas_state \<times> dry_run_counters option \<Rightarrow>
    (honas_state \<times> dry_run_counters option) option" where
  "register_name sha fidx name = (\<lambda>(st, dry). do {
     let hash = sha name;
     c_assert (length hash \<ge> 8);
     st \<leftarrow> count_host_name (load64 hash 0) st;
     dry \<leftarrow> dry_add (load64 hash 0) dry;
     st \<leftarrow> register_in_filters fidx hash st;
     Some (st, dry)
   })"

text \<open>The string that \<open>strncat\<close> appends when it reads at most \<open>n\<close> bytes of a buffer.\<close>

definition strncat_src :: "nat \<Rightarrow> bytes \<Rightarrow> bytes option" where
  "strncat_src n buf =
     (if 0 \<in> set (take n buf) \<or> n \<le> length buf then Some (takeWhile (\<lambda>b. b \<noteq> 0) (take n buf)) else None)"

text \<open>The entity name, a separator and a part of the host name in a buffer of 512 bytes.\<close>

definition entity_label :: "bytes \<Rightarrow> nat \<Rightarrow> bytes \<Rightarrow> bytes option" where
  "entity_label entity n part = do {
     c_assert (length entity < 511);
     s \<leftarrow> strncat_src n part;
     c_assert (length entity + 1 + length s < 512);
     Some (entity @ [64] @ s)
   }"

text \<open>
  The loop over the labels. \<open>rest\<close> is the host name from \<open>part_start\<close> to \<open>part_end\<close> and \<open>sld\<close>
  the string in \<open>sld_buf\<close>, whose last byte must be free for the terminator.
\<close>

function process_labels ::
  "(bytes \<Rightarrow> bytes) \<Rightarrow> nat list \<Rightarrow> bytes option \<Rightarrow> bytes \<Rightarrow> bytes \<Rightarrow>
    honas_state \<times> dry_run_counters option \<Rightarrow> (bytes \<times> honas_state \<times> dry_run_counters option) option" where
  "process_labels sha fidx entity rest sld sd =
     (if 46 \<notin> set rest then Some (sld, sd)
      else
        (let label = takeWhile (\<lambda>b. b \<noteq> 46) rest in
         case (case entity of None \<Rightarrow> Some sd
               | Some e \<Rightarrow> do {
                   l \<leftarrow> entity_label e (length label) rest;
                   register_name sha fidx l sd
                 }) of None \<Rightarrow> None
         | Some sd \<Rightarrow>
           (case register_name sha fidx label sd of None \<Rightarrow> None
            | Some sd \<Rightarrow>
                if length rest < 256
                then process_labels sha fidx entity (drop (length label + 1) rest)
                       (takeWhile (\<lambda>b. b \<noteq> 0) rest) sd
                else None)))"
  by pat_completeness auto
termination
  by (relation "measure (\<lambda>(sha, fidx, entity, rest, sld, sd). length rest)") (auto dest: length_pos_if_in_set intro: diff_less)

declare process_labels.simps [simp del]

definition tolower :: "u8 \<Rightarrow> u8" where
  "tolower b = (if 65 \<le> b \<and> b \<le> 90 then b + 32 else b)"

abbreviation (input) LDNS_RR_TYPE_PTR :: nat where "LDNS_RR_TYPE_PTR \<equiv> 12"

definition update_request_times :: "u64 \<Rightarrow> honas_state_file_header \<Rightarrow> honas_state_file_header" where
  "update_request_times timestamp h =
     (let h = (if last_request h < timestamp
               then (let h = h\<lparr>last_request := timestamp\<rparr>
                     in if first_request h = 0 then h\<lparr>first_request := timestamp\<rparr> else h)
               else h)
      in h\<lparr>number_of_requests := number_of_requests h + 1\<rparr>)"

definition canonical_host_name :: "bytes \<Rightarrow> bytes option" where
  "canonical_host_name host_name = do {
     c_assert (host_name \<noteq> []);
     let host_name = (if last host_name = 46 then butlast host_name else host_name);
     c_assert (length host_name \<le> 256);
     Some (map tolower host_name)
   }"

definition honas_state_register_host_name_lookup ::
  "(bytes \<Rightarrow> bytes) \<Rightarrow> honas_state \<Rightarrow> u64 \<Rightarrow> in_addr46 \<Rightarrow> bytes \<Rightarrow> bytes option \<Rightarrow>
    dry_run_counters option \<Rightarrow> nat \<Rightarrow> (honas_state \<times> dry_run_counters option) option" where
  "honas_state_register_host_name_lookup sha st timestamp client host_name entity_prefix p_dryrun qtype = do {
     let st = st\<lparr>header := update_request_times timestamp (header st)\<rparr>;
     chash \<leftarrow> client_hash client;
     st \<leftarrow> count_client chash st;
     filter_indexes \<leftarrow> client_filter_indexes st chash;
     local_host_name \<leftarrow> canonical_host_name host_name;
     let hash = sha local_host_name;
     c_assert (length hash \<ge> 8);
     st \<leftarrow> count_host_name (load64 hash 0) st;
     st \<leftarrow> register_in_filters filter_indexes hash st;
     dry \<leftarrow> dry_add (uint64_hash local_host_name) p_dryrun;
     (st, dry) \<leftarrow> (case entity_prefix of None \<Rightarrow> Some (st, dry)
       | Some e \<Rightarrow> do {
           l \<leftarrow> entity_label e (512 - (length e + 1) - 1)
                 (local_host_name @ replicate (256 - length local_host_name) 0);
           register_name sha filter_indexes l (st, dry)
         });
     if qtype \<noteq> LDNS_RR_TYPE_PTR then do {
       (sld, sd) \<leftarrow> process_labels sha filter_indexes entity_prefix local_host_name [] (st, dry);
       (st, dry) \<leftarrow> register_name sha filter_indexes sld sd;
       Some (st, dry_query dry)
     }
     else Some (st, dry)
   }"

section \<open>Checking for a host name\<close>

fun check_filters ::
  "honas_state \<Rightarrow> bytes \<Rightarrow> nat \<Rightarrow> nat \<Rightarrow> nat \<Rightarrow> bitset option \<Rightarrow> (nat \<times> bitset option) option" where
  "check_filters st hash i 0 cnt hit = Some (cnt, hit)"
| "check_filters st hash i (Suc n) cnt hit = do {
     c_assert (i < length (filters st));
     let v = filters st ! i;
     c_assert (view_ok st v);
     transformed \<leftarrow> filter_index_host_name_hash_transform i hash;
     r \<leftarrow> bloom_is_set (view_bytes (mmap st) v) transformed (unat (number_of_hashes (header st)));
     if r then do {
       hit \<leftarrow> (case hit of None \<Rightarrow> Some None
         | Some b \<Rightarrow> do { b \<leftarrow> bitset_set_bit b i; Some (Some b) });
       check_filters st hash (i + 1) n (cnt + 1) hit
     }
     else check_filters st hash (i + 1) n cnt hit
   }"

definition honas_state_check_host_name_lookups ::
  "honas_state \<Rightarrow> bytes \<Rightarrow> bitset option \<Rightarrow> (nat \<times> bitset option) option" where
  "honas_state_check_host_name_lookups st hash filters_hit =
     check_filters st hash 0 (unat (number_of_filters (header st))) 0 filters_hit"

section \<open>The data written to disk\<close>

definition persist_clients :: "honas_state \<Rightarrow> honas_state option" where
  "persist_clients st = do {
     st \<leftarrow>
       (if hll_registers_owned (client_count st) then do {
          (h, _) \<leftarrow> hllSparseToDense (client_count st);
          let v = client_count_registers st;
          c_assert (view_ok st v);
          r \<leftarrow> byte_slice_bitwise_or (fst v) (view_bytes (mmap st) v) 0 (hll_registers h);
          h \<leftarrow> hllInitFromBuffer r;
          Some (view_write v r (st\<lparr>client_count := h\<rparr>))
        }
        else Some st);
     h \<leftarrow> get_client_count st;
     (h, n, _) \<leftarrow> hllCount h;
     Some (st\<lparr>client_count := h, header := (header st)\<lparr>estimated_number_of_clients := ucast n\<rparr>\<rparr>)
   }"

definition persist_host_names :: "honas_state \<Rightarrow> honas_state option" where
  "persist_host_names st = do {
     st \<leftarrow>
       (if hll_registers_owned (host_name_count st) then do {
          (h, _) \<leftarrow> hllSparseToDense (host_name_count st);
          let v = host_name_count_registers st;
          c_assert (view_ok st v);
          r \<leftarrow> byte_slice_bitwise_or (fst v) (view_bytes (mmap st) v) 0 (hll_registers h);
          h \<leftarrow> hllInitFromBuffer r;
          Some (view_write v r (st\<lparr>host_name_count := h\<rparr>))
        }
        else Some st);
     h \<leftarrow> get_host_name_count st;
     (h, n, _) \<leftarrow> hllCount h;
     Some (st\<lparr>host_name_count := h, header := (header st)\<lparr>estimated_number_of_host_names := ucast n\<rparr>\<rparr>)
   }"

text \<open>The number of bits set in each filter, stored behind the header.\<close>

fun count_filter_bits :: "nat \<Rightarrow> (nat \<Rightarrow> nat) \<Rightarrow> nat \<Rightarrow> nat \<Rightarrow> honas_state \<Rightarrow> honas_state option" where
  "count_filter_bits pn pc i 0 st = Some st"
| "count_filter_bits pn pc i (Suc n) st = do {
     c_assert (i < length (filters st));
     let v = filters st ! i;
     c_assert (view_ok st v);
     c \<leftarrow> bloom_nr_bits_set pn pc (fst v) (view_bytes (mmap st) v);
     c_assert (view_ok st (HEADER_SIZE + 4 * i, 4));
     count_filter_bits pn pc (i + 1) n (view_write (HEADER_SIZE + 4 * i, 4) (bytes32 (of_nat c)) st)
   }"

text \<open>
  \<open>honas_state_persist\<close> up to the system calls: the state it leaves and the bytes it writes. A
  short \<open>write()\<close> is repeated until everything is written.
\<close>

definition honas_state_persist :: "nat \<Rightarrow> (nat \<Rightarrow> nat) \<Rightarrow> honas_state \<Rightarrow> (honas_state \<times> bytes) option" where
  "honas_state_persist pn pc st = do {
     st \<leftarrow> persist_clients st;
     st \<leftarrow> persist_host_names st;
     st \<leftarrow> count_filter_bits pn pc 0 (unat (number_of_filters (header st))) st;
     Some (st, splice 0 (header_bytes (header st)) (mmap st))
   }"

section \<open>Combining two states\<close>

fun or_filters :: "nat \<Rightarrow> nat \<Rightarrow> honas_state \<Rightarrow> honas_state \<Rightarrow> honas_state option" where
  "or_filters i 0 source target = Some target"
| "or_filters i (Suc n) source target = do {
     c_assert (i < length (filters target) \<and> i < length (filters source));
     let t = filters target ! i;
     let s = filters source ! i;
     c_assert (view_ok target t \<and> view_ok source s);
     f \<leftarrow> byte_slice_bitwise_or (fst t) (view_bytes (mmap target) t) (fst s) (view_bytes (mmap source) s);
     or_filters (i + 1) n source (view_write t f target)
   }"

definition hll_address :: "hll \<Rightarrow> view \<Rightarrow> nat" where
  "hll_address h v = (if hll_registers_owned h then 0 else fst v)"

definition merge_clients :: "honas_state \<Rightarrow> honas_state \<Rightarrow> (honas_state \<times> honas_state) option" where
  "merge_clients target source = do {
     d \<leftarrow> get_client_count target;
     s \<leftarrow> get_client_count source;
     (d, s) \<leftarrow> hllMerge (hll_address d (client_count_registers target)) d
       (hll_address s (client_count_registers source)) s;
     Some (put_client_count d target, put_client_count s source)
   }"

definition merge_host_names :: "honas_state \<Rightarrow> honas_state \<Rightarrow> (honas_state \<times> honas_state) option" where
  "merge_host_names target source = do {
     d \<leftarrow> get_host_name_count target;
     s \<leftarrow> get_host_name_count source;
     (d, s) \<leftarrow> hllMerge (hll_address d (host_name_count_registers target)) d
       (hll_address s (host_name_count_registers source)) s;
     Some (put_host_name_count d target, put_host_name_count s source)
   }"

definition combine_headers ::
  "honas_state_file_header \<Rightarrow> honas_state_file_header \<Rightarrow> honas_state_file_header" where
  "combine_headers t s =
     t\<lparr>number_of_requests := number_of_requests t + number_of_requests s,
       period_begin := min (period_begin t) (period_begin s),
       period_end := max (period_end t) (period_end s),
       first_request := min (first_request t) (first_request s),
       last_request := max (last_request t) (last_request s)\<rparr>"

definition honas_state_aggregate_combine ::
  "honas_state option \<Rightarrow> honas_state option \<Rightarrow> (bool \<times> honas_state option \<times> honas_state option) option" where
  "honas_state_aggregate_combine target source =
     (case (target, source) of
        (Some t, Some s) \<Rightarrow>
          (if number_of_bits_per_filter (header t) = number_of_bits_per_filter (header s)
              \<and> number_of_hashes (header t) = number_of_hashes (header s)
              \<and> number_of_filters (header t) = number_of_filters (header s)
           then do {
             t \<leftarrow> or_filters 0 (unat (number_of_filters (header t))) s t;
             (t, s) \<leftarrow> merge_clients t s;
             (t, s) \<leftarrow> merge_host_names t s;
             Some (True, Some (t\<lparr>header := combine_headers (header t) (header s)\<rparr>), Some s)
           }
           else Some (False, target, source))
      | _ \<Rightarrow> Some (False, target, source))"

section \<open>The entropy a host name hash must have\<close>

definition honas_state_calculate_required_entropy :: "honas_state option \<Rightarrow> u32" where
  "honas_state_calculate_required_entropy state =
     (case state of None \<Rightarrow> 0
      | Some st \<Rightarrow> of_int \<lfloor>real (unat (number_of_hashes (header st))) *
          of_int \<lceil>log 2 (real (unat (number_of_bits_per_filter (header st))))\<rceil>\<rfloor>)"

end
