(* ===== verification/State_Register.thy ===== *)
theory State_Register
  imports Honas_State
begin

text \<open>
  Registering and checking host names: the operations on a well-formed state succeed, only add
  bits to the mapping, and leave the registered names in all filters of the client. The filters
  of a state, seen through the hash of a host name, are a family of membership filters.
\<close>

section \<open>Well-formed states\<close>

text \<open>
  \<open>state_ok\<close>: the filters lie in the mapping and can be used, and both HyperLogLogs own their
  registers, as in a state that was created and not loaded.
\<close>

definition filters_ok :: "honas_state \<Rightarrow> bool" where
  "filters_ok st \<longleftrightarrow> (\<forall>v \<in> set (filters st). view_ok st v \<and> 1 \<le> snd v \<and> snd v < 2 ^ 29) \<and>
     length (filters st) = unat (number_of_filters (header st)) \<and>
     1 \<le> unat (number_of_hashes (header st))"

definition hlls_ok :: "honas_state \<Rightarrow> bool" where
  "hlls_ok st \<longleftrightarrow> hll_wf (client_count st) \<and> hll_registers_owned (client_count st) \<and>
     hll_wf (host_name_count st) \<and> hll_registers_owned (host_name_count st)"

definition state_ok :: "honas_state \<Rightarrow> bool" where
  "state_ok st \<longleftrightarrow> filters_ok st \<and> hlls_ok st"

text \<open>The part of the header that is fixed when a state is created.\<close>

definition layout_of :: "honas_state_file_header \<Rightarrow> honas_state_file_header" where
  "layout_of h = h\<lparr>period_begin := 0, period_end := 0, first_request := 0, last_request := 0,
     number_of_requests := 0, estimated_number_of_clients := 0, estimated_number_of_host_names := 0\<rparr>"

text \<open>\<open>grows st st'\<close>: the layout is the same and no bit of the mapping is lost.\<close>

definition grows :: "honas_state \<Rightarrow> honas_state \<Rightarrow> bool" where
  "grows st st' \<longleftrightarrow> filters st' = filters st \<and> length (mmap st') = length (mmap st) \<and>
     number_of_filters (header st') = number_of_filters (header st) \<and>
     number_of_hashes (header st') = number_of_hashes (header st) \<and>
     number_of_filters_per_user (header st') = number_of_filters_per_user (header st) \<and>
     nr_filters_per_user_combinations st' = nr_filters_per_user_combinations st \<and>
     layout_of (header st') = layout_of (header st) \<and>
     client_count_registers st' = client_count_registers st \<and>
     host_name_count_registers st' = host_name_count_registers st \<and> st_size st' = st_size st \<and>
     bits_of (mmap st) \<subseteq> bits_of (mmap st')"

lemma grows_refl [simp]: "grows st st"
  by (simp add: grows_def)

lemma grows_trans [trans]: "grows a b \<Longrightarrow> grows b c \<Longrightarrow> grows a c"
  by (auto simp: grows_def)

lemma grows_filters_ok: "grows st st' \<Longrightarrow> filters_ok st \<Longrightarrow> filters_ok st'"
  by (auto simp: grows_def filters_ok_def view_ok_def)

lemma bits_view: "view_ok st v \<Longrightarrow> bits_of (view_bytes (mmap st) v) = {i. i < 8 * snd v \<and> bit_at (mmap st) (8 * fst v + i)}"
  by (auto simp: bits_of_def view_bytes_def view_ok_def bit_at_take_drop)

lemma view_grows:
  assumes "grows st st'" "view_ok st v"
  shows "bits_of (view_bytes (mmap st) v) \<subseteq> bits_of (view_bytes (mmap st') v)"
proof -
  have "view_ok st' v" using assms by (simp add: grows_def view_ok_def)
  then show ?thesis using assms bits_view [of st v] bits_view [of st' v]
    by (auto simp: grows_def bits_of_def)
qed

lemma length_view_bytes: "view_ok st v \<Longrightarrow> length (view_bytes (mmap st) v) = snd v"
  by (simp add: view_bytes_def view_ok_def)

lemma bit_at_splice:
  assumes "off + length f \<le> length mem"
  shows "bit_at (splice off f mem) i =
    (if 8 * off \<le> i \<and> i < 8 * (off + length f) then bit_at f (i - 8 * off) else bit_at mem i)"
proof (cases "8 * off \<le> i \<and> i < 8 * (off + length f)")
  case True
  define j where "j = i - 8 * off"
  have j: "i = j + 8 * off" "j < 8 * length f" using True by (auto simp: j_def)
  have "i div 8 = off + j div 8" "i mod 8 = j mod 8" using j(1) by simp_all
  moreover have "j div 8 < length f" using j(2) by simp
  moreover from this have "off + j div 8 < length mem" using assms by linarith
  ultimately show ?thesis using True j assms by (simp add: bit_at_def nth_splice)
next
  case False
  then have n: "\<not> (off \<le> i div 8 \<and> i div 8 < off + length f)" by auto
  have "splice off f mem ! (i div 8) = mem ! (i div 8)" unfolding nth_splice [OF assms] using n by argo
  then show ?thesis unfolding bit_at_def length_splice [OF assms] using False by argo
qed

lemma view_write_grows:
  assumes "view_ok st v" "length f = snd v" "bits_of (view_bytes (mmap st) v) \<subseteq> bits_of f"
  shows "grows st (view_write v f st)" and "view_bytes (mmap (view_write v f st)) v = f"
proof -
  have le: "fst v + length f \<le> length (mmap st)" using assms by (simp add: view_ok_def)
  have "bits_of (mmap st) \<subseteq> bits_of (splice (fst v) f (mmap st))"
  proof
    fix i assume i: "i \<in> bits_of (mmap st)"
    show "i \<in> bits_of (splice (fst v) f (mmap st))"
    proof (cases "8 * fst v \<le> i \<and> i < 8 * (fst v + length f)")
      case True
      then have "i - 8 * fst v < 8 * snd v" "8 * fst v + (i - 8 * fst v) = i" using assms(2) by auto
      then have "i - 8 * fst v \<in> bits_of (view_bytes (mmap st) v)"
        using i unfolding bits_view [OF assms(1)] by simp
      then have "bit_at f (i - 8 * fst v)" using assms(3) by auto
      with True show ?thesis unfolding mem_bits_of bit_at_splice [OF le] by simp
    next
      case False
      then show ?thesis using i unfolding mem_bits_of bit_at_splice [OF le] by argo
    qed
  qed
  then show "grows st (view_write v f st)" using le by (simp add: grows_def view_write_def)
  show "view_bytes (mmap (view_write v f st)) v = f"
    unfolding view_bytes_def view_write_def using take_drop_splice [OF le] assms(2) by simp
qed

lemma view_write_simps [simp]:
  "header (view_write v f st) = header st" "client_count (view_write v f st) = client_count st"
  "host_name_count (view_write v f st) = host_name_count st"
  "filters (view_write v f st) = filters st"
  by (simp_all add: view_write_def)

section \<open>Counting\<close>

lemma hllAdd_owned:
  assumes "hll_wf h" "hll_registers_owned h"
  shows "\<exists>h' r. hllAdd h x = Some (h', r) \<and> hll_wf h' \<and> hll_registers_owned h' \<and>
    hll_regs h' = regs_add (hll_regs h) x"
proof -
  obtain h' r where h': "hllAdd h x = Some (h', r)" "hll_wf h'" "hll_regs h' = regs_add (hll_regs h) x"
    using hllAdd_eq [OF assms(1)] by blast
  have inv: "hll_registers_owned (hll_invalidate_cache k) = hll_registers_owned k" for k
    by (simp add: hll_invalidate_cache_def)
  have "hll_registers_owned h'"
  proof (cases "hll_encoding h = HLL_DENSE")
    case True
    obtain regs u where ru: "hllDenseAdd (hll_registers h) x = Some (regs, u)"
      using h'(1) True by (cases "hllDenseAdd (hll_registers h) x") (auto simp: hllAdd_def)
    have "h' = (if u \<noteq> 0 then hll_invalidate_cache (h\<lparr>hll_registers := regs\<rparr>) else h\<lparr>hll_registers := regs\<rparr>)"
      using h'(1) True ru by (auto simp: hllAdd_def Let_def)
    then show ?thesis using assms(2) inv by simp
  next
    case False
    then have enc: "hll_encoding h = HLL_SPARSE" using assms(1) by (auto simp: hll_wf_def)
    obtain g where g: "hllSparseAdd h x = Some (g, if regs_changed (hll_regs h) x then 1 else 0)"
      "hll_registers_owned g = hll_registers_owned h"
      using hllSparseAdd_eq [OF assms(1) enc] by blast
    then have "h' = (if regs_changed (hll_regs h) x then hll_invalidate_cache g else g)"
      using h'(1) False enc by (simp add: hllAdd_def split: if_splits)
    then show ?thesis using g(2) assms(2) inv by simp
  qed
  with h' show ?thesis by blast
qed

lemma count_client_ok:
  assumes "state_ok st"
  shows "\<exists>st'. count_client x st = Some st' \<and> state_ok st' \<and> grows st st' \<and> mmap st' = mmap st \<and>
    header st' = header st \<and> hll_regs (client_count st') = regs_add (hll_regs (client_count st)) x \<and>
    host_name_count st' = host_name_count st"
proof -
  have o: "hll_wf (client_count st)" "hll_registers_owned (client_count st)"
    using assms by (simp_all add: state_ok_def hlls_ok_def)
  obtain h r where h: "hllAdd (client_count st) x = Some (h, r)" "hll_wf h" "hll_registers_owned h"
    "hll_regs h = regs_add (hll_regs (client_count st)) x"
    using hllAdd_owned [OF o] by blast
  have "count_client x st = Some (st\<lparr>client_count := h\<rparr>)"
    using h o by (simp add: count_client_def get_client_count_def load_hll_def put_client_count_def)
  moreover have "grows st (st\<lparr>client_count := h\<rparr>)" by (simp add: grows_def)
  moreover have "state_ok (st\<lparr>client_count := h\<rparr>)"
    using assms h by (auto simp: state_ok_def hlls_ok_def filters_ok_def view_ok_def)
  ultimately show ?thesis using h(4) by simp
qed

lemma count_host_name_ok:
  assumes "state_ok st"
  shows "\<exists>st'. count_host_name x st = Some st' \<and> state_ok st' \<and> grows st st' \<and> mmap st' = mmap st \<and>
    header st' = header st \<and> client_count st' = client_count st \<and>
    hll_regs (host_name_count st') = regs_add (hll_regs (host_name_count st)) x"
proof -
  have o: "hll_wf (host_name_count st)" "hll_registers_owned (host_name_count st)"
    using assms by (simp_all add: state_ok_def hlls_ok_def)
  obtain h r where h: "hllAdd (host_name_count st) x = Some (h, r)" "hll_wf h" "hll_registers_owned h"
    "hll_regs h = regs_add (hll_regs (host_name_count st)) x"
    using hllAdd_owned [OF o] by blast
  have "count_host_name x st = Some (st\<lparr>host_name_count := h\<rparr>)"
    using h o by (simp add: count_host_name_def get_host_name_count_def load_hll_def put_host_name_count_def)
  moreover have "grows st (st\<lparr>host_name_count := h\<rparr>)" by (simp add: grows_def)
  moreover have "state_ok (st\<lparr>host_name_count := h\<rparr>)"
    using assms h by (auto simp: state_ok_def hlls_ok_def filters_ok_def view_ok_def)
  ultimately show ?thesis using h(4) by simp
qed

section \<open>The transformed hash\<close>

definition transformed :: "nat \<Rightarrow> bytes \<Rightarrow> bytes" where
  "transformed i hash =
     (if i = 0 then hash
      else unwords64 (map (\<lambda>w. w * ucast (of_nat i * 2 + 1 :: u32)) (words64 hash)))"

lemma transform_eq:
  assumes "length hash mod 8 = 0"
  shows "filter_index_host_name_hash_transform i hash = Some (transformed i hash)"
    and "length (transformed i hash) = length hash"
proof -
  have d: "8 dvd length hash" using assms by (simp add: mod_eq_0_iff_dvd)
  show "filter_index_host_name_hash_transform i hash = Some (transformed i hash)"
    using assms by (simp add: filter_index_host_name_hash_transform_def transformed_def)
  show "length (transformed i hash) = length hash"
    using length_words64 [OF d] by (simp add: transformed_def)
qed

lemma odd_mult_inj:
  fixes a b m :: u64
  assumes "odd (unat m)" "a * m = b * m"
  shows "a = b"
proof -
  have "(unat a * unat m) mod 2 ^ 64 = (unat b * unat m) mod 2 ^ 64"
    using arg_cong [OF assms(2), of unat] by (simp add: unat_word_ariths)
  then have "int (unat a) * int (unat m) mod int (2 ^ 64) = int (unat b) * int (unat m) mod int (2 ^ 64)"
    by (metis of_nat_mod of_nat_mult)
  then have "int (unat a) * int (unat m) mod 2 ^ 64 = int (unat b) * int (unat m) mod 2 ^ 64" by simp
  then have "(2 :: int) ^ 64 dvd (int (unat a) - int (unat b)) * int (unat m)"
    by (simp only: mod_eq_dvd_iff left_diff_distrib)
  moreover have "coprime ((2 :: int) ^ 64) (int (unat m))"
    using assms(1) by (simp only: coprime_power_left_iff coprime_left_2_iff_odd even_of_nat_iff) simp
  ultimately have "(2 :: int) ^ 64 dvd int (unat a) - int (unat b)"
    by (simp only: coprime_dvd_mult_left_iff)
  then have "int (unat a) mod 2 ^ 64 = int (unat b) mod 2 ^ 64" by (simp only: mod_eq_dvd_iff)
  moreover have "int (unat a) < 2 ^ 64" "int (unat b) < 2 ^ 64"
    by (simp_all add: uint_lt2p [where x = a, simplified] uint_lt2p [where x = b, simplified])
  ultimately have "uint a = uint b" by simp
  then show ?thesis by (simp add: word_uint_eq_iff)
qed

text \<open>Within one filter different hashes stay different.\<close>

lemma transformed_inj:
  assumes "length a mod 8 = 0" "length b = length a" "transformed i a = transformed i b"
  shows "a = b"
proof (cases "i = 0")
  case True
  with assms(3) show ?thesis by (simp add: transformed_def)
next
  case False
  let ?m = "ucast (of_nat i * 2 + 1 :: u32) :: u64"
  have odd_m: "odd (unat ?m)"
  proof -
    have "of_nat i * 2 + 1 = (of_nat (2 * i + 1) :: u32)" by (simp add: mult.commute)
    then have "unat (of_nat i * 2 + 1 :: u32) = (2 * i + 1) mod 2 ^ 32"
      by (simp only: unat_of_nat len_num1 len_bit0) simp
    then have "unat ?m = (2 * i + 1) mod 2 ^ 32"
      using unat_ucast_up [of "of_nat i * 2 + 1 :: u32", where ?'b = 64] by simp
    moreover have "((2 * i + 1) mod 2 ^ 32) mod 2 = (2 * i + 1) mod 2"
      by (rule mod_mod_cancel) simp
    ultimately have "unat ?m mod 2 = 1" by simp
    then show ?thesis by presburger
  qed
  have d: "8 dvd length a" "8 dvd length b" using assms(1,2) by (simp_all add: mod_eq_0_iff_dvd)
  have inj: "unwords64 xs = unwords64 ys \<Longrightarrow> length xs = length ys \<Longrightarrow> xs = ys" for xs ys
  proof (induction xs ys rule: list_induct2')
    case (4 x xs y ys)
    have "val_bytes 8 (unat x) = val_bytes 8 (unat y)" "unwords64 xs = unwords64 ys"
      using "4.prems"(1) append_eq_append_conv [of "val_bytes 8 (unat x)" "val_bytes 8 (unat y)"]
      unfolding unwords64.simps by auto
    moreover from this(1) have "unat x mod 256 ^ 8 = unat y mod 256 ^ 8"
      by (metis bytes_val_val_bytes)
    then have "x = y" by (intro unat_eqI) simp
    ultimately show ?case using 4 by simp
  qed simp_all
  have "map (\<lambda>w. w * ?m) (words64 a) = map (\<lambda>w. w * ?m) (words64 b)"
    using assms(3) False length_words64 [OF d(1)] length_words64 [OF d(2)] assms(2)
    by (intro inj) (simp_all add: transformed_def)
  then have "words64 a = words64 b"
    by (rule map_injective) (auto simp: inj_def dest: odd_mult_inj [OF odd_m])
  then show ?thesis using unwords64_words64 d by metis
qed

section \<open>Names in filters\<close>

text \<open>
  \<open>in_filter st hash i\<close>: filter \<open>i\<close> has all the bits of the hash as it is transformed for that
  filter.
\<close>

definition in_filter :: "honas_state \<Rightarrow> bytes \<Rightarrow> nat \<Rightarrow> bool" where
  "in_filter st hash i \<longleftrightarrow>
     bloom_bits (unat (number_of_hashes (header st))) (snd (filters st ! i)) (transformed i hash)
       \<subseteq> bits_of (view_bytes (mmap st) (filters st ! i))"

lemma in_filter_grows:
  assumes "grows st st'" "filters_ok st" "i < length (filters st)" "in_filter st hash i"
  shows "in_filter st' hash i"
proof -
  have "view_ok st (filters st ! i)" using assms(2,3) by (simp add: filters_ok_def)
  from view_grows [OF assms(1) this] show ?thesis
    using assms(1,4) unfolding in_filter_def grows_def by auto
qed

definition sha_hash :: "bytes \<Rightarrow> bool" where
  "sha_hash hash \<longleftrightarrow> length hash = 32"

lemma transformed_hash_ok: "sha_hash hash \<Longrightarrow> hash_ok (transformed i hash)"
  using transform_eq(2) [of hash i] by (auto simp: sha_hash_def hash_ok_def)

lemma filter_wf:
  assumes "filters_ok st" "i < length (filters st)"
  shows "view_ok st (filters st ! i)"
    and "bloom_wf (unat (number_of_hashes (header st))) (view_bytes (mmap st) (filters st ! i))"
    and "length (view_bytes (mmap st) (filters st ! i)) = snd (filters st ! i)"
proof -
  show v: "view_ok st (filters st ! i)" using assms by (simp add: filters_ok_def)
  show "length (view_bytes (mmap st) (filters st ! i)) = snd (filters st ! i)"
    by (rule length_view_bytes [OF v])
  with assms show "bloom_wf (unat (number_of_hashes (header st))) (view_bytes (mmap st) (filters st ! i))"
    by (simp add: filters_ok_def bloom_wf_def)
qed

text \<open>What registering leaves alone.\<close>

definition same_rest :: "honas_state \<Rightarrow> honas_state \<Rightarrow> bool" where
  "same_rest st st' \<longleftrightarrow> header st' = header st \<and> client_count st' = client_count st"

lemma same_rest_refl [simp]: "same_rest st st"
  by (simp add: same_rest_def)

lemma same_rest_trans [trans]: "same_rest a b \<Longrightarrow> same_rest b c \<Longrightarrow> same_rest a c"
  by (simp add: same_rest_def)

lemma set_in_filter_ok:
  assumes "state_ok st" "i < length (filters st)" "sha_hash hash"
  shows "\<exists>st'. set_in_filter i hash st = Some st' \<and> state_ok st' \<and> grows st st' \<and> same_rest st st' \<and>
    host_name_count st' = host_name_count st \<and> in_filter st' hash i"
proof -
  let ?v = "filters st ! i" and ?k = "unat (number_of_hashes (header st))"
  have fok: "filters_ok st" and hok: "hlls_ok st" using assms(1) by (simp_all add: state_ok_def)
  note w = filter_wf [OF fok assms(2)]
  have len: "length hash mod 8 = 0" using assms(3) by (simp add: sha_hash_def)
  obtain f where f: "bloom_set (view_bytes (mmap st) ?v) (transformed i hash) ?k = Some f"
    "length f = snd ?v"
    "bits_of f = bits_of (view_bytes (mmap st) ?v) \<union> bloom_bits ?k (snd ?v) (transformed i hash)"
    using bloom_set_eq [OF w(2) transformed_hash_ok [OF assms(3)], of i] unfolding w(3) by blast
  let ?st = "view_write ?v f st"
  have g: "grows st ?st" "view_bytes (mmap ?st) ?v = f"
    using view_write_grows [OF w(1) f(2)] f(3) by auto
  have "set_in_filter i hash st = Some ?st"
    using assms(2) w(1) f(1) transform_eq(1) [OF len] by (simp add: set_in_filter_def)
  moreover have "hlls_ok ?st" using hok by (simp add: hlls_ok_def)
  moreover have "in_filter ?st hash i" unfolding in_filter_def view_write_simps g(2) f(3) by simp
  ultimately show ?thesis
    using g(1) grows_filters_ok [OF g(1) fok] by (simp add: state_ok_def same_rest_def)
qed

lemma register_in_filters_ok:
  "state_ok st \<Longrightarrow> \<forall>i \<in> set is. i < length (filters st) \<Longrightarrow> sha_hash hash \<Longrightarrow>
    \<exists>st'. register_in_filters is hash st = Some st' \<and> state_ok st' \<and> grows st st' \<and> same_rest st st' \<and>
      host_name_count st' = host_name_count st \<and> (\<forall>i \<in> set is. in_filter st' hash i)"
proof (induction "is" arbitrary: st)
  case (Cons i "is")
  obtain a where a: "set_in_filter i hash st = Some a" "state_ok a" "grows st a" "same_rest st a"
    "host_name_count a = host_name_count st" "in_filter a hash i"
    using set_in_filter_ok [of st i hash] Cons.prems by auto
  have fl: "filters a = filters st" using a(3) by (simp add: grows_def)
  obtain b where b: "register_in_filters is hash a = Some b" "state_ok b" "grows a b" "same_rest a b"
    "host_name_count b = host_name_count a" "\<forall>i \<in> set is. in_filter b hash i"
    using Cons.IH [OF a(2) _ Cons.prems(3)] Cons.prems(2) fl by auto
  have "in_filter b hash i"
    using in_filter_grows [OF b(3) _ _ a(6)] a(2) fl Cons.prems(2) by (simp add: state_ok_def)
  then show ?case
    using a b grows_trans [OF a(3) b(3)] same_rest_trans [OF a(4) b(4)] by simp
qed simp

section \<open>Registering one name\<close>

definition dry_ok :: "dry_run_counters option \<Rightarrow> bool" where
  "dry_ok dry \<longleftrightarrow> (\<forall>d. dry = Some d \<longrightarrow> hll_wf (hourly_global d) \<and> hll_wf (daily_global d))"

lemma dry_add_ok:
  assumes "dry_ok dry"
  shows "\<exists>dry'. dry_add x dry = Some dry' \<and> dry_ok dry'"
proof (cases dry)
  case None
  then show ?thesis by (simp add: dry_add_def dry_ok_def)
next
  case (Some d)
  then have w: "hll_wf (hourly_global d)" "hll_wf (daily_global d)" using assms by (simp_all add: dry_ok_def)
  obtain h r where h: "hllAdd (hourly_global d) x = Some (h, r)" "hll_wf h"
    using hllAdd_eq [OF w(1)] by blast
  obtain g q where g: "hllAdd (daily_global d) x = Some (g, q)" "hll_wf g"
    using hllAdd_eq [OF w(2)] by blast
  show ?thesis using Some h g by (simp add: dry_add_def dry_ok_def)
qed

text \<open>A state and the dry run counters after some registrations for the filters \<open>fidx\<close>.\<close>

definition progress :: "honas_state \<Rightarrow> honas_state \<Rightarrow> bool" where
  "progress st st' \<longleftrightarrow> state_ok st' \<and> grows st st' \<and> same_rest st st'"

lemma progress_refl: "state_ok st \<Longrightarrow> progress st st"
  by (simp add: progress_def)

lemma progress_trans: "progress a b \<Longrightarrow> progress b c \<Longrightarrow> progress a c"
  using grows_trans same_rest_trans by (fastforce simp: progress_def)

lemma register_name_ok:
  assumes "state_ok st" "dry_ok dry" "\<forall>i \<in> set fidx. i < length (filters st)" "sha_hash (sha name)"
  shows "\<exists>st' dry'. register_name sha fidx name (st, dry) = Some (st', dry') \<and> progress st st' \<and> dry_ok dry' \<and>
    (\<forall>i \<in> set fidx. in_filter st' (sha name) i) \<and>
    hll_regs (host_name_count st') = regs_add (hll_regs (host_name_count st)) (load64 (sha name) 0)"
proof -
  obtain a where a: "count_host_name (load64 (sha name) 0) st = Some a" "state_ok a" "grows st a"
    "header a = header st" "client_count a = client_count st"
    "hll_regs (host_name_count a) = regs_add (hll_regs (host_name_count st)) (load64 (sha name) 0)"
    using count_host_name_ok [OF assms(1)] by blast
  have fl: "\<forall>i \<in> set fidx. i < length (filters a)" using assms(3) a(3) by (simp add: grows_def)
  obtain d where d: "dry_add (load64 (sha name) 0) dry = Some d" "dry_ok d"
    using dry_add_ok [OF assms(2)] by blast
  obtain b where b: "register_in_filters fidx (sha name) a = Some b" "state_ok b" "grows a b"
    "same_rest a b" "host_name_count b = host_name_count a" "\<forall>i \<in> set fidx. in_filter b (sha name) i"
    using register_in_filters_ok [OF a(2) fl assms(4)] by blast
  have "register_name sha fidx name (st, dry) = Some (b, d)"
    using a(1) d(1) b(1) assms(4) by (simp add: register_name_def sha_hash_def Let_def)
  moreover have "progress st b"
    using a b grows_trans [OF a(3) b(3)] by (simp add: progress_def same_rest_def)
  ultimately show ?thesis using d(2) b a(6) by simp
qed

section \<open>The labels of a host name\<close>

text \<open>
  The suffixes of a host name that still have a dot; the loop registers the first label of each.
  The last of them is the second level domain.
\<close>

function dotted_suffixes :: "bytes \<Rightarrow> bytes list" where
  "dotted_suffixes rest =
     (if 46 \<notin> set rest then []
      else rest # dotted_suffixes (drop (length (takeWhile (\<lambda>b. b \<noteq> 46) rest) + 1) rest))"
  by pat_completeness auto
termination
  by (relation "measure length") (auto dest: length_pos_if_in_set intro: diff_less)

declare dotted_suffixes.simps [simp del]

definition c_str :: "bytes \<Rightarrow> bytes" where
  "c_str = takeWhile (\<lambda>b. b \<noteq> 0)"

definition first_label :: "bytes \<Rightarrow> bytes" where
  "first_label = takeWhile (\<lambda>b. b \<noteq> 46)"

text \<open>What is registered for one suffix.\<close>

definition label_names :: "bytes option \<Rightarrow> bytes \<Rightarrow> bytes list" where
  "label_names entity rest =
     (case entity of None \<Rightarrow> [] | Some e \<Rightarrow> [e @ [64] @ c_str (first_label rest)]) @ [first_label rest]"

lemma length_c_str: "length (c_str s) \<le> length s"
  by (simp add: c_str_def length_takeWhile_le)

lemma length_first_label: "length (first_label s) \<le> length s"
  by (simp add: first_label_def length_takeWhile_le)

lemma entity_label_first:
  assumes "length e \<le> 254" "length rest < 256"
  shows "entity_label e (length (first_label rest)) rest = Some (e @ [64] @ c_str (first_label rest))"
proof -
  have "take (length (first_label rest)) rest = first_label rest"
    by (simp add: first_label_def takeWhile_eq_take [symmetric])
  then show ?thesis
    using assms length_first_label [of rest] length_c_str [of "first_label rest"]
    by (simp add: entity_label_def strncat_src_def c_str_def)
qed

text \<open>The hashes of all names in a list are in the given filters.\<close>

definition names_in :: "(bytes \<Rightarrow> bytes) \<Rightarrow> nat list \<Rightarrow> honas_state \<Rightarrow> bytes list \<Rightarrow> bool" where
  "names_in sha fidx st names \<longleftrightarrow> (\<forall>n \<in> set names. \<forall>i \<in> set fidx. in_filter st (sha n) i)"

lemma names_in_append [simp]: "names_in sha fidx st (xs @ ys) \<longleftrightarrow> names_in sha fidx st xs \<and> names_in sha fidx st ys"
  by (auto simp: names_in_def)

lemma names_in_simps [simp]: "names_in sha fidx st []"
  "names_in sha fidx st (x # xs) \<longleftrightarrow> (\<forall>i \<in> set fidx. in_filter st (sha x) i) \<and> names_in sha fidx st xs"
  by (auto simp: names_in_def)

lemma names_in_progress:
  assumes "progress st st'" "state_ok st" "\<forall>i \<in> set fidx. i < length (filters st)" "names_in sha fidx st names"
  shows "names_in sha fidx st' names"
  using assms in_filter_grows [of st st'] by (auto simp: names_in_def progress_def state_ok_def)

lemma progress_ok: "progress st st' \<Longrightarrow> state_ok st'"
  "progress st st' \<Longrightarrow> filters st' = filters st" "progress st st' \<Longrightarrow> header st' = header st"
  by (simp_all add: progress_def grows_def same_rest_def)

lemma register_names_chain:
  assumes "state_ok st" "dry_ok dry" "\<forall>i \<in> set fidx. i < length (filters st)" "\<forall>n. sha_hash (sha n)"
    "names_in sha fidx st done_names"
  obtains st' dry' where "register_name sha fidx name (st, dry) = Some (st', dry')" "progress st st'"
    "dry_ok dry'" "names_in sha fidx st' (name # done_names)"
proof -
  have sh: "sha_hash (sha name)" using assms(4) by simp
  obtain a d where a: "register_name sha fidx name (st, dry) = Some (a, d)" "progress st a" "dry_ok d"
    "\<forall>i \<in> set fidx. in_filter a (sha name) i"
    using register_name_ok [where sha = sha and name = name, OF assms(1-3) sh] by blast
  show thesis using that [OF a(1-3)] a(4) names_in_progress [OF a(2) assms(1,3,5)] by simp
qed

definition sld_of :: "bytes \<Rightarrow> bytes \<Rightarrow> bytes" where
  "sld_of rest sld = (if dotted_suffixes rest = [] then sld else c_str (last (dotted_suffixes rest)))"

lemma process_labels_ok:
  assumes "state_ok st" "dry_ok dry" "\<forall>i \<in> set fidx. i < length (filters st)" "\<forall>n. sha_hash (sha n)"
    "length rest < 256" "\<forall>e. entity = Some e \<longrightarrow> length e \<le> 254"
  shows "\<exists>st' dry'. process_labels sha fidx entity rest sld (st, dry) = Some (sld_of rest sld, st', dry') \<and>
    progress st st' \<and> dry_ok dry' \<and>
    names_in sha fidx st' (concat (map (label_names entity) (dotted_suffixes rest)))"
  using assms(1,2,3,5)
proof (induction "length rest" arbitrary: rest sld st dry rule: less_induct)
  case less
  show ?case
  proof (cases "46 \<in> set rest")
    case False
    then have "process_labels sha fidx entity rest sld (st, dry) = Some (sld, st, dry)"
      "dotted_suffixes rest = []"
      by (simp_all add: process_labels.simps [of sha fidx entity rest] dotted_suffixes.simps [of rest])
    then show ?thesis using less.prems progress_refl by (auto simp: sld_of_def)
  next
    case True
    let ?r = "drop (length (first_label rest) + 1) rest"
    have shorter: "length ?r < length rest" using True by (cases rest) auto
    obtain a d where a: "(case entity of None \<Rightarrow> Some (st, dry)
        | Some e \<Rightarrow> do { l \<leftarrow> entity_label e (length (first_label rest)) rest;
            register_name sha fidx l (st, dry) }) = Some (a, d)"
      "progress st a" "dry_ok d"
      "names_in sha fidx a (case entity of None \<Rightarrow> [] | Some e \<Rightarrow> [e @ [64] @ c_str (first_label rest)])"
    proof (cases entity)
      case None
      then show thesis using that less.prems progress_refl by simp
    next
      case (Some e)
      have el: "entity_label e (length (first_label rest)) rest = Some (e @ [64] @ c_str (first_label rest))"
        using entity_label_first less.prems(4) assms(6) Some by simp
      obtain a d where "register_name sha fidx (e @ [64] @ c_str (first_label rest)) (st, dry) = Some (a, d)"
        "progress st a" "dry_ok d" "names_in sha fidx a [e @ [64] @ c_str (first_label rest)]"
        by (rule register_names_chain [OF less.prems(1-3) assms(4) names_in_simps(1)])
      with that Some el show thesis by simp
    qed
    have fa: "\<forall>i \<in> set fidx. i < length (filters a)" using less.prems(3) progress_ok(2) [OF a(2)] by simp
    obtain b f where b0: "register_name sha fidx (first_label rest) (a, d) = Some (b, f)" "progress a b"
      "dry_ok f" "names_in sha fidx b (first_label rest #
        (case entity of None \<Rightarrow> [] | Some e \<Rightarrow> [e @ [64] @ c_str (first_label rest)]))"
      by (rule register_names_chain [OF progress_ok(1) [OF a(2)] a(3) fa assms(4) a(4)])
    then have b: "register_name sha fidx (first_label rest) (a, d) = Some (b, f)" "progress a b"
      "dry_ok f" "names_in sha fidx b (label_names entity rest)"
      by (simp_all add: label_names_def)
    have fb: "\<forall>i \<in> set fidx. i < length (filters b)" using fa progress_ok(2) [OF b(2)] by simp
    have ub: "length ?r < 256" using shorter less.prems(4) by simp
    obtain c g where c: "process_labels sha fidx entity ?r (c_str rest) (b, f) = Some (sld_of ?r (c_str rest), c, g)"
      "progress b c" "dry_ok g" "names_in sha fidx c (concat (map (label_names entity) (dotted_suffixes ?r)))"
      using less.hyps [OF shorter progress_ok(1) [OF b(2)] b(3) fb ub] by blast
    have suf: "dotted_suffixes rest = rest # dotted_suffixes ?r"
      using True by (subst dotted_suffixes.simps) (simp add: first_label_def)
    have "process_labels sha fidx entity rest sld (st, dry) =
        process_labels sha fidx entity ?r (c_str rest) (b, f)"
      using True less.prems(4) a(1) b(1)
      unfolding process_labels.simps [of sha fidx entity rest sld] first_label_def c_str_def by (simp add: Let_def)
    with c(1) have "process_labels sha fidx entity rest sld (st, dry) = Some (sld_of ?r (c_str rest), c, g)"
      by simp
    moreover have "sld_of ?r (c_str rest) = sld_of rest sld" by (simp add: sld_of_def suf)
    moreover have "progress st c"
      using progress_trans [OF a(2) progress_trans [OF b(2) c(2)]] .
    moreover have "names_in sha fidx c (label_names entity rest)"
      by (rule names_in_progress [OF c(2) progress_ok(1) [OF b(2)] fb b(4)])
    ultimately show ?thesis using c(3,4) suf by simp
  qed
qed

section \<open>The filters of a client\<close>

definition combinations_ok :: "honas_state \<Rightarrow> bool" where
  "combinations_ok st \<longleftrightarrow>
     (let n = number_of_filters (header st); k = number_of_filters_per_user (header st) in
       0 < k \<and> k \<le> n \<and> unat n choose unat k < 2 ^ 32 \<and>
       nr_filters_per_user_combinations st = number_of_combinations n k)"

definition client_filters :: "honas_state \<Rightarrow> u64 \<Rightarrow> nat list" where
  "client_filters st hash =
     (let n = unat (number_of_filters (header st)); k = unat (number_of_filters_per_user (header st))
      in combs n n k ! (unat hash mod (n choose k)))"

lemma client_filters_props:
  assumes "combinations_ok st"
  shows "client_filter_indexes st hash = Some (client_filters st hash)"
    and "length (client_filters st hash) = unat (number_of_filters_per_user (header st))"
    and "sorted_wrt (<) (client_filters st hash)"
    and "set (client_filters st hash) \<subseteq> {..<unat (number_of_filters (header st))}"
proof -
  let ?n = "number_of_filters (header st)" and ?k = "number_of_filters_per_user (header st)"
  let ?c = "unat ?n choose unat ?k"
  have ok: "0 < ?k" "?k \<le> ?n" "?c < 2 ^ 32"
    "nr_filters_per_user_combinations st = number_of_combinations ?n ?k"
    using assms by (simp_all add: combinations_ok_def Let_def)
  have le: "unat ?k \<le> unat ?n" using ok(2) by (simp add: word_le_nat_alt)
  then have pos: "0 < ?c" by (simp add: zero_less_binomial)
  have nr: "unat (nr_filters_per_user_combinations st) = ?c"
    using ok(3,4) le by (simp add: number_of_combinations_eq unat_of_nat)
  let ?m = "ucast (nr_filters_per_user_combinations st) :: u64"
  have um: "unat ?m = ?c" using nr by (simp add: unat_ucast_up)
  have "unat (hash mod ?m) = unat hash mod ?c" by (simp add: unat_mod_distrib um)
  moreover have "unat hash mod ?c < 2 ^ 32"
    using ok(3) mod_less_divisor [OF pos, of "unat hash"] by linarith
  ultimately have uc: "unat (ucast (hash mod ?m) :: u32) = unat hash mod ?c"
    by (simp add: unat_ucast)
  have "?m \<noteq> 0" using um pos by (auto simp: word_unat_eq_iff)
  then have "client_filter_indexes st hash = lookup_combination ?n ?k (ucast (hash mod ?m))"
    by (simp add: client_filter_indexes_def Let_def)
  also have "\<dots> = Some (client_filters st hash)"
    using lookup_combination_eq [OF ok(1-3), of "ucast (hash mod ?m)"] uc pos
    by (simp add: client_filters_def Let_def)
  finally show "client_filter_indexes st hash = Some (client_filters st hash)" .
  have "client_filters st hash \<in> set (combs (unat ?n) (unat ?n) (unat ?k))"
    using pos by (simp add: client_filters_def Let_def length_combs)
  then show "length (client_filters st hash) = unat ?k" "sorted_wrt (<) (client_filters st hash)"
    "set (client_filters st hash) \<subseteq> {..<unat ?n}"
    by (auto simp: set_combs)
qed

section \<open>Registering a lookup\<close>

text \<open>
  All the names that one lookup registers: the host name; except for PTR each label that a dot follows and
  the second level domain; with an entity, \<open>@\<close> and the entity stand in front of the host name and of each
  label, but not of the second level domain.
\<close>

definition registered_names :: "bytes option \<Rightarrow> nat \<Rightarrow> bytes \<Rightarrow> bytes list" where
  "registered_names entity qtype name =
     [name] @ (case entity of None \<Rightarrow> [] | Some e \<Rightarrow> [e @ [64] @ c_str name]) @
     (if qtype = LDNS_RR_TYPE_PTR then []
      else concat (map (label_names entity) (dotted_suffixes name)) @ [sld_of name []])"

lemma count_first_label:
  "46 \<in> set rest \<Longrightarrow>
    count_list rest 46 = Suc (count_list (drop (length (takeWhile (\<lambda>b. b \<noteq> 46) rest) + 1) rest) 46)"
  by (induction rest) auto

lemma last_dotted:
  assumes "46 \<in> set rest"
  shows "dotted_suffixes rest \<noteq> [] \<and> count_list (last (dotted_suffixes rest)) 46 = 1"
  using assms
proof (induction rest rule: dotted_suffixes.induct)
  case (1 rest)
  let ?r = "drop (length (takeWhile (\<lambda>b. b \<noteq> 46) rest) + 1) rest"
  have d: "dotted_suffixes rest = rest # dotted_suffixes ?r" using 1(2) by (subst dotted_suffixes.simps) simp
  show ?case
  proof (cases "46 \<in> set ?r")
    case True
    then show ?thesis using 1 d by simp
  next
    case False
    then have "dotted_suffixes ?r = []" "count_list ?r 46 = 0"
      using dotted_suffixes.simps [of ?r] by (simp_all add: count_list_0_iff)
    then show ?thesis using count_first_label [OF 1(2)] d by simp
  qed
qed

lemma dotted_suffixes_subset: "s \<in> set (dotted_suffixes rest) \<Longrightarrow> set s \<subseteq> set rest"
proof (induction rest rule: dotted_suffixes.induct)
  case (1 rest)
  then show ?case
    by (subst (asm) (2) dotted_suffixes.simps) (auto split: if_splits dest: in_set_dropD)
qed

lemma c_str_id: "0 \<notin> set s \<Longrightarrow> c_str s = s"
  by (auto simp: c_str_def takeWhile_eq_all_conv)

lemma first_label_subset: "set (first_label s) \<subseteq> set s" "46 \<notin> set (first_label s)"
  by (auto simp: first_label_def dest: set_takeWhileD)

text \<open>The second level domain of a longer name is registered without the entity only.\<close>

lemma entity_sld_not_registered:
  assumes "2 \<le> count_list name 46" "64 \<notin> set name" "0 \<notin> set name"
  shows "e @ [64] @ sld_of name [] \<notin> set (registered_names (Some e) qtype name)"
proof
  assume in_names: "e @ [64] @ sld_of name [] \<in> set (registered_names (Some e) qtype name)"
  have "46 \<in> set name" using assms(1) by (metis count_list_0_iff not_numeral_le_zero)
  from last_dotted [OF this] have l: "dotted_suffixes name \<noteq> []" "count_list (last (dotted_suffixes name)) 46 = 1" by blast+
  have sub: "set s \<subseteq> set name" if "s \<in> set (dotted_suffixes name)" for s by (rule dotted_suffixes_subset [OF that])
  have "0 \<notin> set (last (dotted_suffixes name))" using sub [OF last_in_set [OF l(1)]] assms(3) by blast
  then have sld: "sld_of name [] = last (dotted_suffixes name)" using l(1) by (simp add: sld_of_def c_str_id)
  have s64: "64 \<notin> set (sld_of name [])" using sub [OF last_in_set [OF l(1)]] assms(2) by (auto simp: sld)
  have dot: "46 \<in> set (sld_of name [])" using l(2) by (metis sld count_notin zero_neq_one)
  consider "e @ [64] @ sld_of name [] \<in> {name, sld_of name []}" | "sld_of name [] = c_str name"
    | s where "s \<in> set (dotted_suffixes name)" "e @ [64] @ sld_of name [] = first_label s \<or> sld_of name [] = c_str (first_label s)"
    using in_names by (auto simp: registered_names_def label_names_def split: if_splits)
  then show False
  proof cases
    case 1
    then show False using assms(2) s64 by (metis UnCI empty_iff insert_iff list.set_intros(1) set_append)
  next
    case 2
    then show False using assms(1,3) l(2) by (simp add: c_str_id sld)
  next
    case (3 s)
    have "64 \<notin> set (first_label s)" using first_label_subset [of s] sub [OF 3(1)] assms(2) by blast
    moreover have "46 \<notin> set (c_str (first_label s))"
      using first_label_subset [of s] by (auto simp: c_str_def dest: set_takeWhileD)
    ultimately show False using 3(2) dot by (metis UnCI list.set_intros(1) set_append)
  qed
qed

lemma takeWhile_append_zeros: "takeWhile (\<lambda>b. b \<noteq> 0) (s @ replicate n 0) = takeWhile (\<lambda>b :: u8. b \<noteq> 0) s"
  by (induction s) (cases n, auto)

lemma entity_label_whole:
  assumes "length e \<le> 254" "length name < 256"
  shows "entity_label e (512 - (length e + 1) - 1) (name @ replicate (256 - length name) 0) =
    Some (e @ [64] @ c_str name)"
proof -
  let ?n = "512 - (length e + 1) - 1" and ?b = "name @ replicate (256 - length name) 0 :: bytes"
  have t: "take ?n ?b = ?b" using assms by simp
  have "0 \<in> set ?b" using assms(2) by simp
  then have "strncat_src ?n ?b = Some (c_str name)"
    unfolding strncat_src_def t takeWhile_append_zeros c_str_def by simp
  then show ?thesis using assms length_c_str [of name] by (simp add: entity_label_def)
qed

definition name_ok :: "bytes \<Rightarrow> bytes \<Rightarrow> bool" where
  "name_ok host name \<longleftrightarrow> canonical_host_name host = Some name \<and> length name < 256"

definition entity_ok :: "bytes option \<Rightarrow> bool" where
  "entity_ok entity \<longleftrightarrow> (\<forall>e. entity = Some e \<longrightarrow> length e \<le> 254)"

lemma grows_request_times: "grows st (st\<lparr>header := update_request_times t (header st)\<rparr>)"
  by (simp add: grows_def update_request_times_def layout_of_def Let_def)

lemma update_request_times_layout [simp]:
  "number_of_filters (update_request_times t h) = number_of_filters h"
  "number_of_hashes (update_request_times t h) = number_of_hashes h"
  "number_of_filters_per_user (update_request_times t h) = number_of_filters_per_user h"
  by (simp_all add: update_request_times_def Let_def)

lemma register_ok:
  assumes ok: "state_ok st" "combinations_ok st" "dry_ok dry" and sha: "\<forall>n. sha_hash (sha n)"
    and args: "client_hash client = Some ch" "name_ok host name" "entity_ok entity"
  shows "\<exists>st' dry'. honas_state_register_host_name_lookup sha st ts client host entity dry qtype = Some (st', dry') \<and>
    state_ok st' \<and> grows st st' \<and> dry_ok dry' \<and>
    header st' = update_request_times ts (header st) \<and>
    hll_regs (client_count st') = regs_add (hll_regs (client_count st)) ch \<and>
    names_in sha (client_filters st ch) st' (registered_names entity qtype name)"
proof -
  let ?f = "client_filters st ch"
  note cf = client_filters_props [OF ok(2), of ch]
  have inb: "\<forall>i \<in> set ?f. i < length (filters st)"
    using cf(4) ok(1) by (auto simp: state_ok_def filters_ok_def)
  define a where "a = st\<lparr>header := update_request_times ts (header st)\<rparr>"
  have a: "grows st a" "hlls_ok a" using grows_request_times ok(1)
    by (auto simp: a_def state_ok_def hlls_ok_def)
  then have aok: "state_ok a" using grows_filters_ok [OF a(1)] ok(1) by (simp add: state_ok_def)
  obtain b where b: "count_client ch a = Some b" "state_ok b" "grows a b" "header b = header a"
    "hll_regs (client_count b) = regs_add (hll_regs (client_count a)) ch"
    using count_client_ok [OF aok] by blast
  have stb: "grows st b" by (rule grows_trans [OF a(1) b(3)])
  have "client_filter_indexes b ch = client_filter_indexes st ch"
    using stb by (simp add: client_filter_indexes_def grows_def)
  then have idx: "client_filter_indexes b ch = Some ?f" using cf(1) by simp
  have inb: "\<forall>i \<in> set ?f. i < length (filters b)" using inb stb by (simp add: grows_def)
  obtain c where c: "count_host_name (load64 (sha name) 0) b = Some c" "state_ok c" "grows b c"
    "header c = header b" "client_count c = client_count b"
    using count_host_name_ok [OF b(2)] by blast
  have inc: "\<forall>i \<in> set ?f. i < length (filters c)" using inb c(3) by (simp add: grows_def)
  have shn: "sha_hash (sha name)" using sha by simp
  obtain d where d: "register_in_filters ?f (sha name) c = Some d" "state_ok d" "grows c d" "same_rest c d"
    "\<forall>i \<in> set ?f. in_filter d (sha name) i"
    using register_in_filters_ok [OF c(2) inc shn] by blast
  have ind: "\<forall>i \<in> set ?f. i < length (filters d)" using inc d(3) by (simp add: grows_def)
  obtain dry1 where dry1: "dry_add (uint64_hash name) dry = Some dry1" "dry_ok dry1"
    using dry_add_ok [OF ok(3)] by blast
  have nd: "names_in sha ?f d [name]" using d(5) by simp
  obtain e dry2 where e: "(case entity of None \<Rightarrow> Some (d, dry1)
       | Some e \<Rightarrow> do {
           l \<leftarrow> entity_label e (512 - (length e + 1) - 1) (name @ replicate (256 - length name) 0);
           register_name sha ?f l (d, dry1)
         }) = Some (e, dry2)" "progress d e" "dry_ok dry2"
    "names_in sha ?f e ([name] @ (case entity of None \<Rightarrow> [] | Some e \<Rightarrow> [e @ [64] @ c_str name]))"
  proof (cases entity)
    case None
    then show thesis using that [of d dry1] progress_refl [OF d(2)] dry1(2) nd by simp
  next
    case (Some ent)
    have l: "entity_label ent (512 - (length ent + 1) - 1) (name @ replicate (256 - length name) 0) =
        Some (ent @ [64] @ c_str name)"
      using args(2,3) Some by (intro entity_label_whole) (simp_all add: name_ok_def entity_ok_def)
    obtain e dry2 where "register_name sha ?f (ent @ [64] @ c_str name) (d, dry1) = Some (e, dry2)"
      "progress d e" "dry_ok dry2" "names_in sha ?f e ((ent @ [64] @ c_str name) # [name])"
      by (rule register_names_chain [OF d(2) dry1(2) ind sha nd])
    then show thesis using that [of e dry2] Some l by simp
  qed
  have ine: "\<forall>i \<in> set ?f. i < length (filters e)" using ind progress_ok(2) [OF e(2)] by simp
  have "grows d e" using e(2) by (simp add: progress_def)
  then have "grows st e" using grows_trans [OF stb grows_trans [OF c(3) d(3)]] grows_trans by blast
  moreover have "header e = header a" "client_count e = client_count b"
    using b(4) c(4,5) d(4) e(2) by (simp_all add: progress_def same_rest_def)
  ultimately have ste: "grows st e" "header e = header a" "client_count e = client_count b" by blast+
  note unf = honas_state_register_host_name_lookup_def Let_def
  have part: "honas_state_register_host_name_lookup sha st ts client host entity dry qtype =
      (if qtype \<noteq> LDNS_RR_TYPE_PTR then do {
         (sld, sd) \<leftarrow> process_labels sha ?f entity name [] (e, dry2);
         (st, dry) \<leftarrow> register_name sha ?f sld sd;
         Some (st, dry_query dry)
       } else Some (e, dry2))"
    using args(1,2) b(1) idx c(1) d(1) dry1(1) e(1) shn
    by (simp add: unf a_def [symmetric] name_ok_def sha_hash_def)
  show ?thesis
  proof (cases "qtype = LDNS_RR_TYPE_PTR")
    case True
    then show ?thesis
      using part e progress_ok(1) [OF e(2)] ste b(5) by (simp add: registered_names_def a_def)
  next
    case False
    obtain f dry3 where f: "process_labels sha ?f entity name [] (e, dry2) = Some (sld_of name [], f, dry3)"
      "progress e f" "dry_ok dry3" "names_in sha ?f f (concat (map (label_names entity) (dotted_suffixes name)))"
      using process_labels_ok [OF progress_ok(1) [OF e(2)] e(3) ine sha] args(2,3)
      unfolding name_ok_def entity_ok_def by blast
    have inf: "\<forall>i \<in> set ?f. i < length (filters f)" using ine progress_ok(2) [OF f(2)] by simp
    have nf: "names_in sha ?f f (([name] @ (case entity of None \<Rightarrow> [] | Some e \<Rightarrow> [e @ [64] @ c_str name])) @
        concat (map (label_names entity) (dotted_suffixes name)))"
      unfolding names_in_append
      using names_in_progress [OF f(2) progress_ok(1) [OF e(2)] ine e(4)] f(4) by simp
    obtain g dry4 where g: "register_name sha ?f (sld_of name []) (f, dry3) = Some (g, dry4)" "progress f g"
      "dry_ok dry4" "names_in sha ?f g (sld_of name [] # ([name] @ (case entity of None \<Rightarrow> []
        | Some e \<Rightarrow> [e @ [64] @ c_str name])) @ concat (map (label_names entity) (dotted_suffixes name)))"
      by (rule register_names_chain [OF progress_ok(1) [OF f(2)] f(3) inf sha nf])
    have "dry_ok (dry_query dry4)" using g(3) by (cases dry4) (auto simp: dry_ok_def dry_query_def)
    moreover have "progress e g" by (rule progress_trans [OF f(2) g(2)])
    moreover from this have "grows st g" "header g = header a" "client_count g = client_count b"
      using ste grows_trans [OF ste(1)] by (auto simp: progress_def same_rest_def)
    moreover have "names_in sha ?f g (registered_names entity qtype name)"
      using g(4) False by (simp add: registered_names_def)
    ultimately show ?thesis
      using part False f(1) g(1) progress_ok(1) [OF g(2)] b(5) by (simp add: a_def)
  qed
qed

end
