(* ===== verification/State_Check.thy ===== *)
theory State_Check
  imports State_Register
begin

text \<open>
  Looking up host names in a state: the number of filters that hold a name, which filters these
  are, and that a name that was registered is found in all filters of its client, now and after
  any further registrations.
\<close>

section \<open>Which filters hold a name\<close>

definition hit_filters :: "honas_state \<Rightarrow> bytes \<Rightarrow> nat set" where
  "hit_filters st hash = {i. i < length (filters st) \<and> in_filter st hash i}"

lemma finite_hit_filters [simp]: "finite (hit_filters st hash)"
  by (simp add: hit_filters_def)

definition hit_ok :: "nat \<Rightarrow> bitset option \<Rightarrow> bool" where
  "hit_ok n hit \<longleftrightarrow> (\<forall>b. hit = Some b \<longrightarrow> bitset_wf b \<and> n \<le> bs_num_bits b)"

text \<open>\<open>adds s hit hit'\<close>: the caller's bit set, if there is one, got the elements of \<open>s\<close>.\<close>

definition adds :: "nat set \<Rightarrow> bitset option \<Rightarrow> bitset option \<Rightarrow> bool" where
  "adds s hit hit' \<longleftrightarrow>
     (case hit of None \<Rightarrow> hit' = None
      | Some b \<Rightarrow> \<exists>b'. hit' = Some b' \<and> bitset_wf b' \<and> bs_num_bits b' = bs_num_bits b \<and>
          bitset_ones b' = bitset_ones b \<union> s)"

lemma adds_empty: "hit_ok n hit \<Longrightarrow> adds {} hit hit"
  by (auto simp: adds_def hit_ok_def split: option.splits)

lemma adds_trans: "adds s a b \<Longrightarrow> adds t b c \<Longrightarrow> adds (s \<union> t) a c"
  by (auto simp: adds_def split: option.splits)

lemma adds_ok: "adds s a b \<Longrightarrow> hit_ok n a \<Longrightarrow> hit_ok n b"
  by (auto simp: adds_def hit_ok_def split: option.splits)

lemma record_hit:
  assumes "hit_ok n hit" "i < n"
  shows "\<exists>hit'. (case hit of None \<Rightarrow> Some None
         | Some b \<Rightarrow> do { b \<leftarrow> bitset_set_bit b i; Some (Some b) }) = Some hit' \<and> adds {i} hit hit'"
proof (cases hit)
  case None
  then show ?thesis by (simp add: adds_def)
next
  case (Some b)
  with assms have b: "bitset_wf b" "i < bs_num_bits b" by (auto simp: hit_ok_def)
  from bitset_bits.set_bit [OF b] obtain b' where "bitset_set_bit b i = Some b'" "bitset_wf b'"
    "bs_num_bits b' = bs_num_bits b" "bitset_ones b' = insert i (bitset_ones b)" by blast
  with Some show ?thesis by (simp add: adds_def)
qed

lemma query_filter:
  assumes "filters_ok st" "i < length (filters st)" "sha_hash hash"
  shows "bloom_is_set (view_bytes (mmap st) (filters st ! i)) (transformed i hash)
      (unat (number_of_hashes (header st))) = Some (in_filter st hash i)"
  using bloom_is_set_eq [OF filter_wf(2) [OF assms(1,2)] transformed_hash_ok [OF assms(3), of i]]
    filter_wf(3) [OF assms(1,2)]
  by (simp add: in_filter_def)

lemma card_insert_interval:
  "card {j. i \<le> j \<and> j < i + Suc n \<and> P j} = (if P i then 1 else 0) + card {j. Suc i \<le> j \<and> j < Suc i + n \<and> P j}"
proof -
  have "{j. i \<le> j \<and> j < i + Suc n \<and> P j} =
      (if P i then {i} else {}) \<union> {j. Suc i \<le> j \<and> j < Suc i + n \<and> P j}"
    by (auto simp: Suc_le_eq le_less)
  then show ?thesis by (simp add: card_insert_if)
qed

lemma check_filters_eq:
  "filters_ok st \<Longrightarrow> sha_hash hash \<Longrightarrow> i + n \<le> length (filters st) \<Longrightarrow> hit_ok (length (filters st)) hit \<Longrightarrow>
    \<exists>hit'. check_filters st hash i n cnt hit =
        Some (cnt + card {j. i \<le> j \<and> j < i + n \<and> in_filter st hash j}, hit') \<and>
      adds {j. i \<le> j \<and> j < i + n \<and> in_filter st hash j} hit hit'"
proof (induction n arbitrary: i cnt hit)
  case 0
  have e: "{j. i \<le> j \<and> j < i + 0 \<and> in_filter st hash j} = {}" by auto
  show ?case unfolding e using adds_empty [OF 0(4)] by simp
next
  case (Suc n)
  have i: "i < length (filters st)" using Suc.prems(3) by simp
  have len: "length hash mod 8 = 0" using Suc.prems(2) by (simp add: sha_hash_def)
  note q = query_filter [OF Suc.prems(1) i Suc.prems(2)] filter_wf(1) [OF Suc.prems(1) i]
    transform_eq(1) [OF len, of i]
  let ?s = "{j. Suc i \<le> j \<and> j < Suc i + n \<and> in_filter st hash j}"
  have le: "Suc i + n \<le> length (filters st)" using Suc.prems(3) by simp
  have set: "{j. i \<le> j \<and> j < i + Suc n \<and> in_filter st hash j} = (if in_filter st hash i then {i} else {}) \<union> ?s"
    by (auto simp: Suc_le_eq le_less)
  show ?case
  proof (cases "in_filter st hash i")
    case True
    obtain h1 where h1: "(case hit of None \<Rightarrow> Some None
         | Some b \<Rightarrow> do { b \<leftarrow> bitset_set_bit b i; Some (Some b) }) = Some h1" "adds {i} hit h1"
      using record_hit [OF Suc.prems(4) i] by blast
    obtain h2 where h2: "check_filters st hash (Suc i) n (cnt + 1) h1 = Some (cnt + 1 + card ?s, h2)" "adds ?s h1 h2"
      using Suc.IH [OF Suc.prems(1,2) le adds_ok [OF h1(2) Suc.prems(4)]] by blast
    have "check_filters st hash i (Suc n) cnt hit = Some (cnt + 1 + card ?s, h2)"
      using i q True h1(1) h2(1) by simp
    then show ?thesis
      using adds_trans [OF h1(2) h2(2)] True unfolding card_insert_interval set by simp
  next
    case False
    obtain h2 where h2: "check_filters st hash (Suc i) n cnt hit = Some (cnt + card ?s, h2)" "adds ?s hit h2"
      using Suc.IH [OF Suc.prems(1,2) le Suc.prems(4)] by blast
    have "check_filters st hash i (Suc n) cnt hit = Some (cnt + card ?s, h2)"
      using i q False h2(1) by simp
    then show ?thesis using h2(2) False unfolding card_insert_interval set by simp
  qed
qed

text \<open>The result of a lookup is the number of filters that hold the hash.\<close>

lemma check_eq:
  assumes "filters_ok st" "sha_hash hash" "hit_ok (length (filters st)) hit"
  shows "\<exists>hit'. honas_state_check_host_name_lookups st hash hit = Some (card (hit_filters st hash), hit') \<and>
    adds (hit_filters st hash) hit hit'"
proof -
  have n: "unat (number_of_filters (header st)) = length (filters st)"
    using assms(1) by (simp add: filters_ok_def)
  have "{j. 0 \<le> j \<and> j < 0 + length (filters st) \<and> in_filter st hash j} = hit_filters st hash"
    by (auto simp: hit_filters_def)
  then show ?thesis
    using check_filters_eq [OF assms(1,2) _ assms(3), of 0 "length (filters st)" 0]
    by (simp add: honas_state_check_host_name_lookups_def n)
qed

section \<open>What is registered is found\<close>

lemma hit_filters_grows:
  assumes "grows st st'" "filters_ok st"
  shows "hit_filters st hash \<subseteq> hit_filters st' hash"
  using assms in_filter_grows [OF assms] by (auto simp: hit_filters_def grows_def)

lemma names_in_hits:
  assumes "names_in sha fidx st names" "name \<in> set names" "\<forall>i \<in> set fidx. i < length (filters st)"
  shows "set fidx \<subseteq> hit_filters st (sha name)"
  using assms by (auto simp: names_in_def hit_filters_def)

lemma check_at_least:
  assumes "filters_ok st" "sha_hash hash" "set fidx \<subseteq> hit_filters st hash" "sorted_wrt (<) fidx" "length fidx = k"
  shows "\<exists>cnt. honas_state_check_host_name_lookups st hash None = Some (cnt, None) \<and> k \<le> cnt"
proof -
  have "card (set fidx) = k" using assms(4,5) by (simp add: distinct_card strict_sorted_iff)
  then have le: "k \<le> card (hit_filters st hash)" using card_mono [OF finite_hit_filters assms(3)] by simp
  have "hit_ok (length (filters st)) None" by (simp add: hit_ok_def)
  from check_eq [OF assms(1,2) this] le show ?thesis by (auto simp: adds_def)
qed

lemma check_mono:
  assumes "filters_ok st" "filters_ok st'" "sha_hash hash" "hit_filters st hash \<subseteq> hit_filters st' hash"
    "honas_state_check_host_name_lookups st hash None = Some (cnt, None)"
  shows "\<exists>cnt' \<ge> cnt. honas_state_check_host_name_lookups st' hash None = Some (cnt', None)"
proof -
  have n: "hit_ok k None" for k by (simp add: hit_ok_def)
  have "cnt = card (hit_filters st hash)" using check_eq [OF assms(1,3) n] assms(5) by auto
  then have "cnt \<le> card (hit_filters st' hash)" using card_mono [OF finite_hit_filters assms(4)] by simp
  with check_eq [OF assms(2,3) n] show ?thesis by (auto simp: adds_def)
qed

lemma register_check:
  assumes ok: "state_ok st" "combinations_ok st" "dry_ok dry" and sha: "\<forall>n. sha_hash (sha n)"
    and args: "client_hash client = Some ch" "name_ok host name" "entity_ok entity"
    and reg: "honas_state_register_host_name_lookup sha st ts client host entity dry qtype = Some (st', dry')"
    and later: "grows st' st''" and n: "n \<in> set (registered_names entity qtype name)"
  shows "set (client_filters st ch) \<subseteq> hit_filters st'' (sha n)"
    and "\<exists>cnt. honas_state_check_host_name_lookups st'' (sha n) None = Some (cnt, None) \<and>
      unat (number_of_filters_per_user (header st)) \<le> cnt"
proof -
  have st': "state_ok st'" "grows st st'" "names_in sha (client_filters st ch) st' (registered_names entity qtype name)"
    using register_ok [OF ok sha args, of ts qtype] reg by auto
  note cf = client_filters_props [OF ok(2), of ch]
  have "length (filters st') = unat (number_of_filters (header st))"
    using st'(1,2) by (simp add: state_ok_def filters_ok_def grows_def)
  then have sub: "set (client_filters st ch) \<subseteq> hit_filters st' (sha n)"
    using names_in_hits [OF st'(3) n] cf(4) by auto
  have f': "filters_ok st'" using st'(1) by (simp add: state_ok_def)
  show s2: "set (client_filters st ch) \<subseteq> hit_filters st'' (sha n)"
    using sub hit_filters_grows [OF later f'] by blast
  have "filters_ok st''" by (rule grows_filters_ok [OF later f'])
  then show "\<exists>cnt. honas_state_check_host_name_lookups st'' (sha n) None = Some (cnt, None) \<and>
      unat (number_of_filters_per_user (header st)) \<le> cnt"
    using s2 sha cf(2,3) by (intro check_at_least [of _ _ "client_filters st ch"]) simp_all
qed

section \<open>Sequences of registrations\<close>

record registration =
  reg_time :: u64
  reg_client :: in_addr46
  reg_host :: bytes
  reg_entity :: "bytes option"
  reg_qtype :: nat

definition registration_ok :: "registration \<Rightarrow> bool" where
  "registration_ok r \<longleftrightarrow> client_hash (reg_client r) \<noteq> None \<and> entity_ok (reg_entity r) \<and>
     (\<exists>name. name_ok (reg_host r) name)"

fun register_all ::
  "(bytes \<Rightarrow> bytes) \<Rightarrow> registration list \<Rightarrow> honas_state \<times> dry_run_counters option \<Rightarrow>
    (honas_state \<times> dry_run_counters option) option" where
  "register_all sha [] sd = Some sd"
| "register_all sha (r # rs) (st, dry) = do {
     sd \<leftarrow> honas_state_register_host_name_lookup sha st (reg_time r) (reg_client r) (reg_host r)
       (reg_entity r) dry (reg_qtype r);
     register_all sha rs sd
   }"

lemma register_keeps:
  assumes "grows st st'" "combinations_ok st"
  shows "combinations_ok st'" "client_filters st' ch = client_filters st ch"
  using assms by (auto simp: combinations_ok_def client_filters_def grows_def Let_def)

text \<open>
  Whatever lookups are registered, in any order, every name of each of them is found in all
  filters of its client at the end.
\<close>

lemma register_all_ok:
  assumes "\<forall>n. sha_hash (sha n)"
  shows "state_ok st \<Longrightarrow> combinations_ok st \<Longrightarrow> dry_ok dry \<Longrightarrow> \<forall>r \<in> set rs. registration_ok r \<Longrightarrow>
    \<exists>st' dry'. register_all sha rs (st, dry) = Some (st', dry') \<and> state_ok st' \<and> dry_ok dry' \<and> grows st st' \<and>
      number_of_requests (header st') = number_of_requests (header st) + of_nat (length rs) \<and>
      (\<forall>r \<in> set rs. \<forall>ch name n. client_hash (reg_client r) = Some ch \<longrightarrow> name_ok (reg_host r) name \<longrightarrow>
        n \<in> set (registered_names (reg_entity r) (reg_qtype r) name) \<longrightarrow>
        set (client_filters st ch) \<subseteq> hit_filters st' (sha n))"
proof (induction rs arbitrary: st dry)
  case (Cons r rs)
  obtain ch name where a: "client_hash (reg_client r) = Some ch" "name_ok (reg_host r) name" "entity_ok (reg_entity r)"
    using Cons.prems(4) by (auto simp: registration_ok_def)
  obtain a d where ad: "honas_state_register_host_name_lookup sha st (reg_time r) (reg_client r) (reg_host r)
       (reg_entity r) dry (reg_qtype r) = Some (a, d)" "state_ok a" "grows st a" "dry_ok d"
    "header a = update_request_times (reg_time r) (header st)"
    using register_ok [OF Cons.prems(1-3) assms a] by blast
  note k = register_keeps [OF ad(3) Cons.prems(2)]
  have rs: "\<forall>r \<in> set rs. registration_ok r" using Cons.prems(4) by simp
  obtain b e where b: "register_all sha rs (a, d) = Some (b, e)" "state_ok b" "dry_ok e" "grows a b"
    "number_of_requests (header b) = number_of_requests (header a) + of_nat (length rs)"
    "\<forall>r \<in> set rs. \<forall>ch name n. client_hash (reg_client r) = Some ch \<longrightarrow> name_ok (reg_host r) name \<longrightarrow>
        n \<in> set (registered_names (reg_entity r) (reg_qtype r) name) \<longrightarrow>
        set (client_filters a ch) \<subseteq> hit_filters b (sha n)"
    using Cons.IH [OF ad(2) k(1) ad(4) rs] by blast
  have one: "set (client_filters st c) \<subseteq> hit_filters b (sha n)"
    if "client_hash (reg_client r) = Some c" "name_ok (reg_host r) nm"
      "n \<in> set (registered_names (reg_entity r) (reg_qtype r) nm)" for c nm n
    by (rule register_check(1) [OF Cons.prems(1-3) assms that(1,2) a(3) ad(1) b(4) that(3)])
  have "number_of_requests (header a) = number_of_requests (header st) + 1"
    by (simp add: ad(5) update_request_times_def Let_def)
  then have "number_of_requests (header b) = number_of_requests (header st) + of_nat (length (r # rs))"
    using b(5) by simp
  then show ?case
    using ad(1) b(1-4,6) one k(2) grows_trans [OF ad(3) b(4)] by simp
qed (simp add: state_ok_def)

end
