(* ===== verification/State_Persist.thy ===== *)
theory State_Persist
  imports State_Check
begin

text \<open>
  States that were created, and what persisting and loading keep: every name that a state holds is
  held by the state that is loaded from the file written for it. The HyperLogLog registers overlap
  the last filter, so that persisting may add bits to that filter but never removes one.
\<close>

section \<open>Created states\<close>

definition created_state :: "u32 \<Rightarrow> u32 \<Rightarrow> honas_state \<Rightarrow> bool" where
  "created_state n bits st \<longleftrightarrow>
     layout_fits n bits \<and>
     (\<exists>hashes per_user flatten. 0 < hashes \<and> layout_of (header st) = new_header n bits hashes per_user flatten \<and>
       nr_filters_per_user_combinations st = number_of_combinations n per_user) \<and>
     filters st = created_filters (unat n) (unat bits div 8) \<and>
     client_count_registers st = (unat n * pages (unat bits div 8), 12289) \<and>
     host_name_count_registers st = (unat n * pages (unat bits div 8) + 16384, 12289) \<and>
     length (mmap st) = created_size (unat n) (unat bits div 8) \<and>
     st_size st = created_size (unat n) (unat bits div 8)"

lemma created_state_grows: "grows st st' \<Longrightarrow> created_state n bits st \<Longrightarrow> created_state n bits st'"
  by (auto simp: created_state_def grows_def)

lemma layout_new_header [simp]: "layout_of (new_header n bits hashes per_user flatten) = new_header n bits hashes per_user flatten"
  by (simp add: layout_of_def new_header_def Let_def)

lemma layout_of_simps [simp]:
  "number_of_filters (layout_of h) = number_of_filters h"
  "number_of_bits_per_filter (layout_of h) = number_of_bits_per_filter h"
  "number_of_hashes (layout_of h) = number_of_hashes h"
  "number_of_filters_per_user (layout_of h) = number_of_filters_per_user h"
  "first_filter_offset (layout_of h) = first_filter_offset h"
  "padding_after_filters (layout_of h) = padding_after_filters h"
  "client_hll_size (layout_of h) = client_hll_size h"
  "host_name_hll_size (layout_of h) = host_name_hll_size h"
  "padding_after_client_hll (layout_of h) = padding_after_client_hll h"
  "padding_after_host_name_hll (layout_of h) = padding_after_host_name_hll h"
  "file_magic (layout_of h) = file_magic h" "major_version (layout_of h) = major_version h"
  by (simp_all add: layout_of_def)

lemma new_header_simps [simp]:
  "number_of_filters (new_header n bits hashes per_user flatten) = n"
  "number_of_bits_per_filter (new_header n bits hashes per_user flatten) = bits"
  "number_of_hashes (new_header n bits hashes per_user flatten) = hashes"
  "number_of_filters_per_user (new_header n bits hashes per_user flatten) = per_user"
  "file_magic (new_header n bits hashes per_user flatten) = HONAS_STATE_FILE_MAGIC"
  "major_version (new_header n bits hashes per_user flatten) = 1"
  by (simp_all add: new_header_def Let_def)

lemma created_header:
  assumes "created_state n bits st"
  obtains hashes per_user flatten where "0 < hashes"
    "layout_of (header st) = new_header n bits hashes per_user flatten"
    "nr_filters_per_user_combinations st = number_of_combinations n per_user"
    "number_of_filters (header st) = n" "number_of_bits_per_filter (header st) = bits"
    "number_of_hashes (header st) = hashes" "number_of_filters_per_user (header st) = per_user"
proof -
  obtain hashes per_user flatten where h: "0 < hashes"
    "layout_of (header st) = new_header n bits hashes per_user flatten"
    "nr_filters_per_user_combinations st = number_of_combinations n per_user"
    using assms unfolding created_state_def by blast
  show thesis
    using that [OF h] arg_cong [OF h(2), of number_of_filters] arg_cong [OF h(2), of number_of_bits_per_filter]
      arg_cong [OF h(2), of number_of_hashes] arg_cong [OF h(2), of number_of_filters_per_user]
    by simp
qed

lemma layout_fits_bytes:
  assumes "layout_fits n bits"
  shows "1 \<le> unat bits div 8" "unat bits div 8 < 2 ^ 29" "0 < unat n"
proof -
  have "take_bit 3 bits = 0"
    using assms by (simp add: layout_fits_def take_bit_eq_mask mask_eq_exp_minus_1)
  then have "take_bit 3 (unat bits) = 0" by (metis unsigned_0 unsigned_take_bit_eq)
  then have "unat bits mod 8 = 0" by (simp add: take_bit_eq_mod)
  moreover have "0 < unat bits" using assms by (simp add: layout_fits_def word_less_nat_alt)
  ultimately show "1 \<le> unat bits div 8" by (cases "unat bits div 8 = 0") auto
  show "unat bits div 8 < 2 ^ 29" using unat_u32_less [of bits] by simp
  show "0 < unat n" using assms by (simp add: layout_fits_def word_less_nat_alt)
qed

lemma created_filters_ok:
  assumes "created_state n bits st"
  shows "filters_ok st"
proof -
  obtain hashes per_user flatten where h: "0 < hashes" "number_of_filters (header st) = n"
    "number_of_hashes (header st) = hashes"
    using created_header [OF assms] by blast
  have l: "layout_fits n bits" using assms by (simp add: created_state_def)
  have "1 \<le> unat hashes" using h(1) by (simp add: word_less_nat_alt)
  moreover have "view_ok st v \<and> 1 \<le> snd v \<and> snd v < 2 ^ 29"
    if "v \<in> set (created_filters (unat n) (unat bits div 8))" for v
  proof -
    have "snd v = unat bits div 8" "fst v + snd v \<le> created_size (unat n) (unat bits div 8)"
      using created_filters_bounds [of "fst v" "snd v" "unat n" "unat bits div 8"] that by auto
    moreover have "length (mmap st) = created_size (unat n) (unat bits div 8)"
      using assms by (simp add: created_state_def)
    ultimately show ?thesis using layout_fits_bytes [OF l] by (simp add: view_ok_def)
  qed
  ultimately show ?thesis
    using h assms unfolding filters_ok_def created_state_def by (simp add: created_filters_def)
qed

lemma create_ok:
  assumes "layout_fits n bits" "hashes > 0" "per_user > 0"
  shows "\<exists>st. honas_state_create True True n bits hashes per_user flatten = Some (0, Some st) \<and>
    created_state n bits st \<and> state_ok st \<and> (\<forall>hash i. i < unat n \<longrightarrow> \<not> (sha_hash hash \<and> in_filter st hash i)) \<and>
    header st = new_header n bits hashes per_user flatten"
proof -
  obtain st clients hosts where st: "honas_state_create True True n bits hashes per_user flatten = Some (0, Some st)"
    "st = \<lparr>header = new_header n bits hashes per_user flatten,
       filters = created_filters (unat n) (unat bits div 8),
       nr_filters_per_user_combinations = number_of_combinations n per_user,
       client_count_registers = (unat n * pages (unat bits div 8), 12289),
       host_name_count_registers = (unat n * pages (unat bits div 8) + 16384, 12289),
       client_count = clients, host_name_count = hosts,
       mmap = replicate (created_size (unat n) (unat bits div 8)) 0,
       st_size = created_size (unat n) (unat bits div 8)\<rparr>"
    "hllInit True = Some clients" "hllInit True = Some hosts"
    using honas_state_create_eq [OF assms] by blast
  have cs: "created_state n bits st" using assms st(2) by (auto simp: created_state_def)
  have f: "filters_ok st" by (rule created_filters_ok [OF cs])
  have own: "hll_registers_owned h" if "hllInit True = Some h" for h
    using that by (auto simp: hllInit_def Let_def split: if_splits)
  have "hlls_ok st"
    using hllInit_eq st(2-4) own by (auto simp: hlls_ok_def)
  moreover have "\<not> in_filter st hash i" if "sha_hash hash" "i < unat n" for hash i
  proof -
    have i: "i < length (filters st)" using that(2) st(2) by (simp add: created_filters_def)
    note w = filter_wf [OF f i]
    have "card (bloom_bits (unat (number_of_hashes (header st))) (snd (filters st ! i)) (transformed i hash)) =
        min (unat (number_of_hashes (header st))) (8 * snd (filters st ! i))"
      using card_bloom_bits [OF w(2) transformed_hash_ok [OF that(1), of i]] w(3) by simp
    moreover have "0 < min (unat (number_of_hashes (header st))) (8 * snd (filters st ! i))"
      using f i by (simp add: filters_ok_def Suc_le_eq [symmetric])
    moreover have "bits_of (view_bytes (mmap st) (filters st ! i)) = {}"
      using st(2) by (auto simp: view_bytes_def bits_of_def bit_at_def)
    ultimately show ?thesis unfolding in_filter_def by fastforce
  qed
  ultimately show ?thesis using st(1,2) cs f by (auto simp: state_ok_def)
qed

lemma created_combinations:
  assumes "created_state n bits st" "0 < number_of_filters_per_user (header st)"
    "number_of_filters_per_user (header st) \<le> n"
    "unat n choose unat (number_of_filters_per_user (header st)) < 2 ^ 32"
  shows "combinations_ok st"
proof -
  obtain per_user where "nr_filters_per_user_combinations st = number_of_combinations n per_user"
    "number_of_filters (header st) = n" "number_of_filters_per_user (header st) = per_user"
    using created_header [OF assms(1)] by blast
  with assms show ?thesis by (simp add: combinations_ok_def)
qed

section \<open>Persisting the HyperLogLogs\<close>

text \<open>
  \<open>hll_usable\<close>: a HyperLogLog that owns its registers is well formed, and one that does not is
  dense with its registers in the mapping.
\<close>

definition hll_usable :: "honas_state \<Rightarrow> hll \<Rightarrow> view \<Rightarrow> bool" where
  "hll_usable st h v \<longleftrightarrow> view_ok st v \<and> snd v = HLL_DENSE_SIZE \<and> fst v mod 8 = 0 \<and>
     (if hll_registers_owned h then hll_wf h else hll_encoding h = HLL_DENSE)"

definition hlls_usable :: "honas_state \<Rightarrow> bool" where
  "hlls_usable st \<longleftrightarrow> hll_usable st (client_count st) (client_count_registers st) \<and>
     hll_usable st (host_name_count st) (host_name_count_registers st)"

lemma load_hll_ok:
  assumes "hll_usable st h v"
  shows "\<exists>g. load_hll st h v = Some g \<and> hll_wf g \<and> hll_registers_owned g = hll_registers_owned h \<and>
    (hll_registers_owned h \<longrightarrow> g = h) \<and>
    (\<not> hll_registers_owned h \<longrightarrow> hll_encoding g = HLL_DENSE \<and> hll_registers g = view_bytes (mmap st) v)"
  using assms length_view_bytes [of st v] by (auto simp: load_hll_def hll_usable_def hll_wf_def)

lemma hllCount_ok: "hll_wf h \<Longrightarrow> \<exists>n. hllCount h = Some (h\<lparr>hll_card := n\<rparr>, n, False)"
  using hllCount_eq [of h] hllCount_cached [of h] by (cases "hll_valid_cache h") (auto simp: Let_def)

lemma hllInitFromBuffer_unowned: "hllInitFromBuffer r = Some h \<Longrightarrow> \<not> hll_registers_owned h"
  by (auto simp: hllInitFromBuffer_def hll_invalidate_cache_def Let_def split: if_splits)

text \<open>The registers are or-ed into the mapping.\<close>

lemma or_into_view:
  assumes "view_ok st v" "snd v = HLL_DENSE_SIZE" "fst v mod 8 = 0" "length regs = HLL_DENSE_SIZE"
  shows "\<exists>r h. byte_slice_bitwise_or (fst v) (view_bytes (mmap st) v) 0 regs = Some r \<and>
    hllInitFromBuffer r = Some h \<and> hll_wf h \<and> hll_encoding h = HLL_DENSE \<and> \<not> hll_registers_owned h \<and>
    hll_registers h = r \<and> bits_of r = bits_of (view_bytes (mmap st) v) \<union> bits_of regs \<and>
    grows st (view_write v r st) \<and> view_bytes (mmap (view_write v r st)) v = r \<and> length r = snd v"
proof -
  have l: "length (view_bytes (mmap st) v) = HLL_DENSE_SIZE" using length_view_bytes [OF assms(1)] assms(2) by simp
  obtain r where r: "byte_slice_bitwise_or (fst v) (view_bytes (mmap st) v) 0 regs = Some r"
    "length r = length (view_bytes (mmap st) v)"
    "bits_of r = bits_of (view_bytes (mmap st) v) \<union> {i \<in> bits_of regs. i < 8 * length (view_bytes (mmap st) v)}"
    using byte_slice_bitwise_or_eq [of "fst v" 0 "view_bytes (mmap st) v" regs] assms(3) by auto
  have "{i \<in> bits_of regs. i < 8 * length (view_bytes (mmap st) v)} = bits_of regs"
    using bit_at_bound [of regs] assms(4) l by auto
  then have u: "bits_of r = bits_of (view_bytes (mmap st) v) \<union> bits_of regs" using r(3) by simp
  have lr: "length r = HLL_DENSE_SIZE" "length r = snd v" using r(2) l assms(2) by simp_all
  obtain h where h: "hllInitFromBuffer r = Some h" "hll_wf h" "hll_encoding h = HLL_DENSE" "hll_registers h = r"
    using hllInitFromBuffer_eq [OF lr(1)] by blast
  have sub: "bits_of (view_bytes (mmap st) v) \<subseteq> bits_of r" using u by auto
  show ?thesis
    using r(1) h hllInitFromBuffer_unowned [OF h(1)] u view_write_grows [OF assms(1) lr(2) sub] lr(2) by blast
qed

lemma hll_dense_length: "hll_wf h \<Longrightarrow> hll_encoding h = HLL_DENSE \<Longrightarrow> length (hll_registers h) = HLL_DENSE_SIZE"
  by (auto simp: hll_wf_def hll_encodings)

lemma grows_fields:
  "grows st st' \<Longrightarrow> grows st (st'\<lparr>client_count := h\<rparr>)" "grows st st' \<Longrightarrow> grows st (st'\<lparr>host_name_count := h\<rparr>)"
  "grows st st' \<Longrightarrow> grows st (st'\<lparr>header := (header st')\<lparr>estimated_number_of_clients := c\<rparr>\<rparr>)"
  "grows st st' \<Longrightarrow> grows st (st'\<lparr>header := (header st')\<lparr>estimated_number_of_host_names := c\<rparr>\<rparr>)"
  by (simp_all add: grows_def layout_of_def)

text \<open>What persisting one of the two HyperLogLogs does to the state.\<close>

lemma persist_clients_ok:
  assumes "hlls_usable st"
  shows "\<exists>st'. persist_clients st = Some st' \<and> grows st st' \<and> hlls_usable st' \<and>
    \<not> hll_registers_owned (client_count st') \<and> file_magic (header st') = file_magic (header st)"
proof -
  let ?v = "client_count_registers st"
  have u: "hll_usable st (client_count st) ?v" "hll_usable st (host_name_count st) (host_name_count_registers st)"
    using assms by (simp_all add: hlls_usable_def)
  have v: "view_ok st ?v" "snd ?v = HLL_DENSE_SIZE" "fst ?v mod 8 = 0" using u(1) by (simp_all add: hll_usable_def)
  obtain a where a: "(if hll_registers_owned (client_count st) then do {
          (h, _) \<leftarrow> hllSparseToDense (client_count st);
          let v = client_count_registers st;
          c_assert (view_ok st v);
          r \<leftarrow> byte_slice_bitwise_or (fst v) (view_bytes (mmap st) v) 0 (hll_registers h);
          h \<leftarrow> hllInitFromBuffer r;
          Some (view_write v r (st\<lparr>client_count := h\<rparr>))
        }
        else Some st) = Some a" "grows st a" "\<not> hll_registers_owned (client_count a)"
      "hll_encoding (client_count a) = HLL_DENSE" "host_name_count a = host_name_count st" "header a = header st"
  proof (cases "hll_registers_owned (client_count st)")
    case True
    then have "hll_wf (client_count st)" using u(1) by (simp add: hll_usable_def)
    from hllSparseToDense_eq [OF this] obtain g where g: "hllSparseToDense (client_count st) = Some (g, C_OK)"
      "hll_encoding g = HLL_DENSE" "hll_wf g" by blast
    obtain r h where r: "byte_slice_bitwise_or (fst ?v) (view_bytes (mmap st) ?v) 0 (hll_registers g) = Some r"
      "hllInitFromBuffer r = Some h" "hll_encoding h = HLL_DENSE" "\<not> hll_registers_owned h"
      "grows st (view_write ?v r st)"
      using or_into_view [OF v hll_dense_length [OF g(3,2)]] by blast
    have "view_write ?v r (st\<lparr>client_count := h\<rparr>) = (view_write ?v r st)\<lparr>client_count := h\<rparr>"
      by (simp add: view_write_def)
    then have "grows st (view_write ?v r (st\<lparr>client_count := h\<rparr>))" using grows_fields(1) [OF r(5)] by simp
    with that show thesis using True g(1) r v(1) by simp
  next
    case False
    with that show thesis using u(1) by (simp add: hll_usable_def)
  qed
  have av: "client_count_registers a = ?v" "host_name_count_registers a = host_name_count_registers st"
    "length (mmap a) = length (mmap st)" using a(2) by (simp_all add: grows_def)
  have ua: "hll_usable a (client_count a) (client_count_registers a)"
    using v a(3,4) av by (simp add: hll_usable_def view_ok_def)
  obtain g where g: "get_client_count a = Some g" "hll_wf g" "\<not> hll_registers_owned g" "hll_encoding g = HLL_DENSE"
    using load_hll_ok [OF ua] a(3) by (auto simp: get_client_count_def)
  obtain c where c: "hllCount g = Some (g\<lparr>hll_card := c\<rparr>, c, False)" using hllCount_ok [OF g(2)] by blast
  let ?st = "(a\<lparr>client_count := g\<lparr>hll_card := c\<rparr>\<rparr>)\<lparr>header := (header a)\<lparr>estimated_number_of_clients := ucast c\<rparr>\<rparr>"
  have "persist_clients st = Some ?st" unfolding persist_clients_def a(1) using g(1) c by simp
  moreover have "grows st ?st" using grows_fields(3) [OF grows_fields(1) [OF a(2)]] by simp
  moreover have "hlls_usable ?st"
    using v u(2) g(3,4) av a(5) by (simp add: hlls_usable_def hll_usable_def view_ok_def)
  ultimately show ?thesis using g(3) a(6) by simp
qed

lemma persist_host_names_ok:
  assumes "hlls_usable st"
  shows "\<exists>st'. persist_host_names st = Some st' \<and> grows st st' \<and> hlls_usable st' \<and>
    \<not> hll_registers_owned (host_name_count st') \<and> client_count st' = client_count st \<and>
    file_magic (header st') = file_magic (header st)"
proof -
  let ?v = "host_name_count_registers st"
  have u: "hll_usable st (host_name_count st) ?v" "hll_usable st (client_count st) (client_count_registers st)"
    using assms by (simp_all add: hlls_usable_def)
  have v: "view_ok st ?v" "snd ?v = HLL_DENSE_SIZE" "fst ?v mod 8 = 0" using u(1) by (simp_all add: hll_usable_def)
  obtain a where a: "(if hll_registers_owned (host_name_count st) then do {
          (h, _) \<leftarrow> hllSparseToDense (host_name_count st);
          let v = host_name_count_registers st;
          c_assert (view_ok st v);
          r \<leftarrow> byte_slice_bitwise_or (fst v) (view_bytes (mmap st) v) 0 (hll_registers h);
          h \<leftarrow> hllInitFromBuffer r;
          Some (view_write v r (st\<lparr>host_name_count := h\<rparr>))
        }
        else Some st) = Some a" "grows st a" "\<not> hll_registers_owned (host_name_count a)"
      "hll_encoding (host_name_count a) = HLL_DENSE" "client_count a = client_count st" "header a = header st"
  proof (cases "hll_registers_owned (host_name_count st)")
    case True
    then have "hll_wf (host_name_count st)" using u(1) by (simp add: hll_usable_def)
    from hllSparseToDense_eq [OF this] obtain g where g: "hllSparseToDense (host_name_count st) = Some (g, C_OK)"
      "hll_encoding g = HLL_DENSE" "hll_wf g" by blast
    obtain r h where r: "byte_slice_bitwise_or (fst ?v) (view_bytes (mmap st) ?v) 0 (hll_registers g) = Some r"
      "hllInitFromBuffer r = Some h" "hll_encoding h = HLL_DENSE" "\<not> hll_registers_owned h"
      "grows st (view_write ?v r st)"
      using or_into_view [OF v hll_dense_length [OF g(3,2)]] by blast
    have "view_write ?v r (st\<lparr>host_name_count := h\<rparr>) = (view_write ?v r st)\<lparr>host_name_count := h\<rparr>"
      by (simp add: view_write_def)
    then have "grows st (view_write ?v r (st\<lparr>host_name_count := h\<rparr>))" using grows_fields(2) [OF r(5)] by simp
    with that show thesis using True g(1) r v(1) by simp
  next
    case False
    with that show thesis using u(1) by (simp add: hll_usable_def)
  qed
  have av: "host_name_count_registers a = ?v" "client_count_registers a = client_count_registers st"
    "length (mmap a) = length (mmap st)" using a(2) by (simp_all add: grows_def)
  have ua: "hll_usable a (host_name_count a) (host_name_count_registers a)"
    using v a(3,4) av by (simp add: hll_usable_def view_ok_def)
  obtain g where g: "get_host_name_count a = Some g" "hll_wf g" "\<not> hll_registers_owned g" "hll_encoding g = HLL_DENSE"
    using load_hll_ok [OF ua] a(3) by (auto simp: get_host_name_count_def)
  obtain c where c: "hllCount g = Some (g\<lparr>hll_card := c\<rparr>, c, False)" using hllCount_ok [OF g(2)] by blast
  let ?st = "(a\<lparr>host_name_count := g\<lparr>hll_card := c\<rparr>\<rparr>)\<lparr>header := (header a)\<lparr>estimated_number_of_host_names := ucast c\<rparr>\<rparr>"
  have "persist_host_names st = Some ?st" unfolding persist_host_names_def a(1) using g(1) c by simp
  moreover have "grows st ?st" using grows_fields(4) [OF grows_fields(2) [OF a(2)]] by simp
  moreover have "hlls_usable ?st"
    using v u(2) g(3,4) av a(5) by (simp add: hlls_usable_def hll_usable_def view_ok_def)
  ultimately show ?thesis using g(3) a(5,6) by simp
qed

section \<open>Counting the bits of the filters\<close>

lemma view_after_write:
  assumes "off + length s \<le> length mem" "off + length s \<le> fst v"
  shows "view_bytes (splice off s mem) v = view_bytes mem v"
  using take_drop_splice_disjoint [OF assms(1), of "fst v" "snd v"] assms(2) by (simp add: view_bytes_def)

lemma view_write_load32:
  assumes "off + 4 \<le> length mem"
  shows "load32 (splice off (bytes32 w) mem) off = w"
    and "a + 4 \<le> off \<or> off + 4 \<le> a \<Longrightarrow> load32 (splice off (bytes32 w) mem) a = load32 mem a"
  using take_drop_splice [of off "bytes32 w" mem] take_drop_splice_disjoint [of off "bytes32 w" mem a 4] assms
  by (simp_all add: load32_def)

lemma count_filter_bits_ok:
  assumes pc: "0 < pn" "popcount_correct pn pc"
  shows "filters_ok st \<Longrightarrow> \<forall>v \<in> set (filters st). HEADER_SIZE + 4 * length (filters st) \<le> fst v \<Longrightarrow>
    i + n \<le> length (filters st) \<Longrightarrow>
    \<exists>mem. count_filter_bits pn pc i n st = Some (st\<lparr>mmap := mem\<rparr>) \<and> length mem = length (mmap st) \<and>
      (\<forall>v. HEADER_SIZE + 4 * length (filters st) \<le> fst v \<longrightarrow> view_bytes mem v = view_bytes (mmap st) v) \<and>
      (\<forall>j < i. load32 mem (HEADER_SIZE + 4 * j) = load32 (mmap st) (HEADER_SIZE + 4 * j)) \<and>
      (\<forall>j. i \<le> j \<and> j < i + n \<longrightarrow> load32 mem (HEADER_SIZE + 4 * j) =
        of_nat (card (bits_of (view_bytes (mmap st) (filters st ! j)))))"
proof (induction n arbitrary: i st)
  case 0
  have "st = st\<lparr>mmap := mmap st\<rparr>" by simp
  then show ?case by (intro exI [of _ "mmap st"]) auto
next
  case (Suc n)
  have i: "i < length (filters st)" using Suc.prems(3) by simp
  note w = filter_wf [OF Suc.prems(1) i]
  let ?v = "filters st ! i" and ?c = "card (bits_of (view_bytes (mmap st) (filters st ! i)))"
  have c: "bloom_nr_bits_set pn pc (fst ?v) (view_bytes (mmap st) ?v) = Some ?c"
    by (rule bloom_nr_bits_set_eq [OF pc w(2)])
  have "HEADER_SIZE + 4 * length (filters st) \<le> fst ?v" using Suc.prems(2) i by simp
  then have room: "HEADER_SIZE + 4 * i + 4 \<le> length (mmap st)" using w(1) i by (simp add: view_ok_def)
  let ?m = "splice (HEADER_SIZE + 4 * i) (bytes32 (of_nat ?c)) (mmap st)"
  let ?st = "st\<lparr>mmap := ?m\<rparr>"
  have lm: "length ?m = length (mmap st)" using room by simp
  have vm: "view_bytes ?m v = view_bytes (mmap st) v" if "HEADER_SIZE + 4 * length (filters st) \<le> fst v" for v
    using view_after_write [of "HEADER_SIZE + 4 * i" "bytes32 (of_nat ?c)" "mmap st" v] room i that by simp
  have f: "filters_ok ?st" using Suc.prems(1) lm by (simp add: filters_ok_def view_ok_def)
  obtain mem where mem: "count_filter_bits pn pc (Suc i) n ?st = Some (?st\<lparr>mmap := mem\<rparr>)" "length mem = length ?m"
    "\<forall>v. HEADER_SIZE + 4 * length (filters st) \<le> fst v \<longrightarrow> view_bytes mem v = view_bytes ?m v"
    "\<forall>j < Suc i. load32 mem (HEADER_SIZE + 4 * j) = load32 ?m (HEADER_SIZE + 4 * j)"
    "\<forall>j. Suc i \<le> j \<and> j < Suc i + n \<longrightarrow> load32 mem (HEADER_SIZE + 4 * j) =
        of_nat (card (bits_of (view_bytes ?m (filters st ! j))))"
    using Suc.IH [OF f, of "Suc i"] Suc.prems(2,3) by auto
  have step: "count_filter_bits pn pc i (Suc n) st = count_filter_bits pn pc (Suc i) n ?st"
    using i w(1) c room by (simp add: view_write_def view_ok_def)
  have now: "load32 mem (HEADER_SIZE + 4 * i) = of_nat ?c"
    using mem(4) view_write_load32(1) [OF room] by simp
  have before: "load32 mem (HEADER_SIZE + 4 * j) = load32 (mmap st) (HEADER_SIZE + 4 * j)" if "j < i" for j
    using mem(4) view_write_load32(2) [OF room, of "HEADER_SIZE + 4 * j"] that by simp
  have after: "load32 mem (HEADER_SIZE + 4 * j) = of_nat (card (bits_of (view_bytes (mmap st) (filters st ! j))))"
    if "i \<le> j" "j < i + Suc n" for j
  proof (cases "j = i")
    case False
    have "HEADER_SIZE + 4 * length (filters st) \<le> fst (filters st ! j)"
      using Suc.prems(2,3) that by simp
    with mem(5) vm False that show ?thesis by simp
  qed (use now in simp)
  show ?case
    using step mem(1,2) lm mem(3) vm before after by (intro exI [of _ mem]) simp
qed

section \<open>Persisting\<close>

lemma state_ok_usable:
  assumes "created_state n bits st" "hlls_ok st"
  shows "hlls_usable st"
proof -
  have "8 dvd pages m" for m using pages_props(3) [of m] dvd_trans [of 8 4096 "pages m"] by simp
  then have d: "unat n * pages (unat bits div 8) mod 8 = 0"
    "(unat n * pages (unat bits div 8) + 16384) mod 8 = 0"
    by (simp_all add: mod_eq_0_iff_dvd)
  show ?thesis
    using assms d by (auto simp: hlls_usable_def hll_usable_def hlls_ok_def created_state_def view_ok_def created_size_def)
qed

lemma header_room:
  assumes "created_state n bits st"
  shows "length (filters st) = unat n"
    and "\<forall>v \<in> set (filters st). HEADER_SIZE + 4 * length (filters st) \<le> fst v"
    and "HEADER_SIZE \<le> length (mmap st)"
proof -
  have f: "filters st = created_filters (unat n) (unat bits div 8)"
    "length (mmap st) = created_size (unat n) (unat bits div 8)"
    using assms by (simp_all add: created_state_def)
  show l: "length (filters st) = unat n" using f(1) by (simp add: created_filters_def)
  show "\<forall>v \<in> set (filters st). HEADER_SIZE + 4 * length (filters st) \<le> fst v"
    unfolding l unfolding f using created_filters_bounds [of _ _ "unat n" "unat bits div 8"] by auto
  show "HEADER_SIZE \<le> length (mmap st)"
    using pages_props(1) [of "HEADER_SIZE + 4 * unat n"] unfolding f created_size_def by simp
qed

lemma created_magic: "created_state n bits st \<Longrightarrow> file_magic (header st) = HONAS_STATE_FILE_MAGIC"
proof -
  assume "created_state n bits st"
  then obtain hashes per_user flatten where "layout_of (header st) = new_header n bits hashes per_user flatten"
    unfolding created_state_def by blast
  from arg_cong [OF this, of file_magic] show ?thesis by simp
qed

text \<open>
  The file is the mapping behind the header of the state that is left; it holds at least the bits
  that the filters had, and the number of bits of each filter.
\<close>

lemma persist_ok:
  assumes pc: "0 < pn" "popcount_correct pn pc" and st: "created_state n bits st" "hlls_usable st"
  shows "\<exists>st' file rest. honas_state_persist pn pc st = Some (st', file) \<and> created_state n bits st' \<and>
    file = header_bytes (header st') @ rest \<and> length file = length (mmap st) \<and>
    (\<forall>v \<in> set (filters st). view_bytes file v = view_bytes (mmap st') v) \<and>
    (\<forall>v \<in> set (filters st). bits_of (view_bytes (mmap st) v) \<subseteq> bits_of (view_bytes (mmap st') v)) \<and>
    (\<forall>j < unat n. load32 file (HEADER_SIZE + 4 * j) = of_nat (card (bits_of (view_bytes file (filters st ! j))))) \<and>
    layout_of (header st') = layout_of (header st)"
proof -
  obtain a where a: "persist_clients st = Some a" "grows st a" "hlls_usable a"
    using persist_clients_ok [OF st(2)] by blast
  obtain b where b: "persist_host_names a = Some b" "grows a b"
    using persist_host_names_ok [OF a(3)] by blast
  have g: "grows st b" by (rule grows_trans [OF a(2) b(2)])
  have cb: "created_state n bits b" by (rule created_state_grows [OF g st(1)])
  have fb: "filters_ok b" "filters b = filters st" using created_filters_ok [OF cb] g by (simp_all add: grows_def)
  note room = header_room [OF cb]
  have nf: "unat (number_of_filters (header b)) = length (filters b)" using fb(1) by (simp add: filters_ok_def)
  obtain mem where mem: "count_filter_bits pn pc 0 (length (filters b)) b = Some (b\<lparr>mmap := mem\<rparr>)"
    "length mem = length (mmap b)"
    "\<forall>v. HEADER_SIZE + 4 * length (filters b) \<le> fst v \<longrightarrow> view_bytes mem v = view_bytes (mmap b) v"
    "\<forall>j < length (filters b). load32 mem (HEADER_SIZE + 4 * j) =
        of_nat (card (bits_of (view_bytes (mmap b) (filters b ! j))))"
    using count_filter_bits_ok [OF pc fb(1) room(2), of 0 "length (filters b)"] by auto
  let ?st = "b\<lparr>mmap := mem\<rparr>"
  let ?hb = "header_bytes (header b)"
  let ?file = "splice 0 ?hb mem"
  have p: "honas_state_persist pn pc st = Some (?st, ?file)"
    using a(1) b(1) mem(1) nf by (simp add: honas_state_persist_def)
  have cs: "created_state n bits ?st" using cb mem(2) by (simp add: created_state_def)
  have lh: "length ?hb = HEADER_SIZE"
    using created_magic [OF cb] by (intro length_header_bytes) (simp add: HONAS_STATE_FILE_MAGIC_def)
  have fits: "0 + length ?hb \<le> length mem" using lh mem(2) room(3) by simp
  have fl: "?file = ?hb @ drop HEADER_SIZE mem" using lh by (simp add: splice_def)
  have vf: "view_bytes ?file v = view_bytes mem v" if "HEADER_SIZE \<le> fst v" for v
    using view_after_write [OF fits, of v] that lh by simp
  have far: "HEADER_SIZE + 4 * length (filters b) \<le> fst v" if "v \<in> set (filters st)" for v
    using room(2) fb(2) that by simp
  have views: "view_bytes ?file v = view_bytes mem v" "view_bytes mem v = view_bytes (mmap b) v"
    if "v \<in> set (filters st)" for v
  proof -
    have h: "HEADER_SIZE \<le> fst v" using far [OF that] by linarith
    show "view_bytes ?file v = view_bytes mem v" by (rule vf [OF h])
    show "view_bytes mem v = view_bytes (mmap b) v" using mem(3) far [OF that] by blast
  qed
  have "bits_of (view_bytes (mmap st) v) \<subseteq> bits_of (view_bytes mem v)" if v: "v \<in> set (filters st)" for v
  proof -
    have "view_ok st v" using created_filters_ok [OF st(1)] v by (simp add: filters_ok_def)
    from view_grows [OF g this] show ?thesis using views(2) [OF v] by simp
  qed
  moreover have "load32 ?file (HEADER_SIZE + 4 * j) = of_nat (card (bits_of (view_bytes ?file (filters st ! j))))"
    if j: "j < unat n" for j
  proof -
    have "load32 ?file (HEADER_SIZE + 4 * j) = load32 mem (HEADER_SIZE + 4 * j)"
      using take_drop_splice_disjoint [OF fits, of "HEADER_SIZE + 4 * j" 4] lh by (simp add: load32_def)
    moreover have "filters st ! j \<in> set (filters st)" "j < length (filters b)" using j room(1) fb(2) by simp_all
    ultimately show ?thesis using mem(4) views fb(2) by simp
  qed
  moreover have "layout_of (header ?st) = layout_of (header st)" using g by (simp add: grows_def)
  moreover have "length ?file = length (mmap st)" using fits mem(2) g by (simp add: grows_def)
  ultimately show ?thesis
    using p cs fl views(1) by (intro exI [of _ ?st] exI [of _ ?file] exI [of _ "drop HEADER_SIZE mem"]) simp
qed

section \<open>Loading\<close>

lemma layout_file_size:
  assumes "layout_of h = layout_of g"
  shows "honas_state_file_size h = honas_state_file_size g" "filter_begin h i = filter_begin g i"
    "init_filters h sz k m = init_filters g sz k m"
proof -
  have e: "first_filter_offset h = first_filter_offset g" "padding_after_filters h = padding_after_filters g"
    "number_of_filters h = number_of_filters g" "number_of_bits_per_filter h = number_of_bits_per_filter g"
    "client_hll_size h = client_hll_size g" "padding_after_client_hll h = padding_after_client_hll g"
    "host_name_hll_size h = host_name_hll_size g"
    "padding_after_host_name_hll h = padding_after_host_name_hll g"
    using assms layout_of_simps by metis+
  show "honas_state_file_size h = honas_state_file_size g" "filter_begin h i = filter_begin g i"
    by (simp_all add: honas_state_file_size_def filter_begin_def e)
  then have fb: "filter_begin h j = filter_begin g j" for j by (simp add: filter_begin_def e)
  show "init_filters h sz k m = init_filters g sz k m"
    by (induction m arbitrary: k) (simp_all add: fb e)
qed

lemma init_common_layout:
  assumes l: "layout_of (header st) = new_header n bits hashes per_user flatten"
    and fits: "layout_fits n bits" and sz: "st_size st = created_size (unat n) (unat bits div 8)"
  shows "honas_state_init_common st =
    Some (st\<lparr>filters := created_filters (unat n) (unat bits div 8),
      client_count_registers := (unat n * pages (unat bits div 8), 12289),
      host_name_count_registers := (unat n * pages (unat bits div 8) + 16384, 12289),
      nr_filters_per_user_combinations := number_of_combinations n per_user\<rparr>)"
proof -
  let ?h = "new_header n bits hashes per_user flatten"
  have "layout_of (header st) = layout_of ?h" using l by simp
  note lf = layout_file_size [OF this]
  have e: "number_of_filters (header st) = n" "number_of_bits_per_filter (header st) = bits"
    "number_of_filters_per_user (header st) = per_user"
    "padding_after_filters (header st) = padding_after_filters ?h"
    "client_hll_size (header st) = client_hll_size ?h" "host_name_hll_size (header st) = host_name_hll_size ?h"
    "padding_after_client_hll (header st) = padding_after_client_hll ?h"
    "padding_after_host_name_hll (header st) = padding_after_host_name_hll ?h"
    using l layout_of_simps new_header_simps by metis+
  have c: "honas_state_init_common (st\<lparr>header := ?h\<rparr>) =
      Some (st\<lparr>header := ?h, filters := created_filters (unat n) (unat bits div 8),
      client_count_registers := (unat n * pages (unat bits div 8), 12289),
      host_name_count_registers := (unat n * pages (unat bits div 8) + 16384, 12289),
      nr_filters_per_user_combinations := number_of_combinations n per_user\<rparr>)"
    using init_common_created [OF fits, of "st\<lparr>header := ?h\<rparr>"] sz by simp
  have "honas_state_init_common st = map_option (\<lambda>s. s\<lparr>header := header st\<rparr>) (honas_state_init_common (st\<lparr>header := ?h\<rparr>))"
    unfolding honas_state_init_common_def Let_def
    by (cases "honas_state_file_size ?h"; cases "init_filters ?h (st_size st) 0 (unat n)")
      (simp_all add: lf e)
  then show ?thesis unfolding c by simp
qed

lemma load_ok:
  assumes st: "created_state n bits st" and fl: "fl = header_bytes (header st) @ rest"
    and len: "length fl = length (mmap st)"
  shows "\<exists>st'. honas_state_load True (Some fl) = Some (0, Some st') \<and> header st' = header st \<and>
    mmap st' = fl \<and> created_state n bits st' \<and> hlls_usable st' \<and>
    \<not> hll_registers_owned (client_count st') \<and> \<not> hll_registers_owned (host_name_count st')"
proof -
  obtain hashes per_user flatten where h: "0 < hashes"
    "layout_of (header st) = new_header n bits hashes per_user flatten"
    "nr_filters_per_user_combinations st = number_of_combinations n per_user"
    using st unfolding created_state_def by blast
  have fits: "layout_fits n bits" using st by (simp add: created_state_def)
  let ?h = "new_header n bits hashes per_user flatten" and ?sz = "created_size (unat n) (unat bits div 8)"
  have lf: "length fl = ?sz" using len st by (simp add: created_state_def)
  have hs: "HEADER_SIZE \<le> ?sz"
    using header_room(3) [OF st] st by (simp add: created_state_def)
  have m8: "length (file_magic (header st)) = 8"
    using created_magic [OF st] by (simp add: HONAS_STATE_FILE_MAGIC_def)
  have hd: "header_of_bytes (fl @ replicate HEADER_SIZE 0) = header st"
    using header_roundtrip [OF m8, of "rest @ replicate HEADER_SIZE 0"] by (simp add: fl)
  have e: "major_version (header st) = 1" "number_of_filters (header st) = n"
    "number_of_bits_per_filter (header st) = bits" "number_of_hashes (header st) = hashes"
    "first_filter_offset (header st) = first_filter_offset ?h"
    "client_hll_size (header st) = client_hll_size ?h" "host_name_hll_size (header st) = host_name_hll_size ?h"
    using h(2) layout_of_simps new_header_simps by metis+
  note sz = new_header_sizes [OF fits, of hashes per_user flatten]
  have "layout_of (header st) = layout_of ?h" using h(2) by simp
  from layout_file_size(1) [OF this] new_header_file_size [OF fits, of hashes per_user flatten]
  have fsz: "honas_state_file_size (header st) = Some ?sz" by simp
  have c12: "client_hll_size ?h = 12289" "host_name_hll_size ?h = 12289"
    by (simp_all add: new_header_def Let_def)
  have off: "\<not> unat (first_filter_offset ?h) < HEADER_SIZE"
    using sz(1) pages_props(1) [of "HEADER_SIZE + 4 * unat n"] by simp
  have nz: "n \<noteq> 0" "bits \<noteq> 0" "bits AND 7 = 0" "hashes \<noteq> 0"
    using fits h(1) by (auto simp: layout_fits_def)
  let ?st0 = "\<lparr>header = header st, filters = [], nr_filters_per_user_combinations = 0,
      client_count_registers = (0, 0), host_name_count_registers = (0, 0),
      client_count = empty_hll, host_name_count = empty_hll, mmap = fl, st_size = length fl\<rparr>"
  let ?c = "(unat n * pages (unat bits div 8), 12289)" and ?d = "(unat n * pages (unat bits div 8) + 16384, 12289)"
  have init: "honas_state_init_common ?st0 = Some (?st0\<lparr>filters := created_filters (unat n) (unat bits div 8),
      client_count_registers := ?c, host_name_count_registers := ?d,
      nr_filters_per_user_combinations := number_of_combinations n per_user\<rparr>)"
    by (rule init_common_layout) (simp_all add: h(2) fits lf)
  have view: "\<exists>g. hllInitFromView fl v = Some g \<and> hll_encoding g = HLL_DENSE \<and> \<not> hll_registers_owned g"
    if "fst v + snd v \<le> length fl" "snd v = 12289" for v
  proof -
    have "length (take (snd v) (drop (fst v) fl)) = HLL_DENSE_SIZE" using that by simp
    from hllInitFromBuffer_eq [OF this] that(1) show ?thesis
      using hllInitFromBuffer_unowned by (auto simp: hllInitFromView_def)
  qed
  have vb: "fst ?c + snd ?c \<le> length fl" "fst ?d + snd ?d \<le> length fl"
    unfolding lf by (simp_all add: created_size_def)
  obtain g where g: "hllInitFromView fl ?c = Some g" "hll_encoding g = HLL_DENSE" "\<not> hll_registers_owned g"
    using view [OF vb(1)] by auto
  obtain k where k: "hllInitFromView fl ?d = Some k" "hll_encoding k = HLL_DENSE" "\<not> hll_registers_owned k"
    using view [OF vb(2)] by auto
  let ?st = "?st0\<lparr>filters := created_filters (unat n) (unat bits div 8),
      client_count_registers := ?c, host_name_count_registers := ?d,
      nr_filters_per_user_combinations := number_of_combinations n per_user,
      client_count := g, host_name_count := k\<rparr>"
  have "\<not> length fl < 44" "fl \<noteq> []" using hs lf by auto
  then have "honas_state_load True (Some fl) = Some (0, Some ?st)"
    using created_magic [OF st] nz off lf
    by (simp add: honas_state_load_def Let_def hd e c12 fsz init [unfolded lf] g(1) k(1))
  moreover have cs: "created_state n bits ?st"
    using fits h lf by (auto simp: created_state_def)
  moreover have "hlls_usable ?st"
  proof -
    have "8 dvd pages m" for m using pages_props(3) [of m] dvd_trans [of 8 4096 "pages m"] by simp
    then have "fst ?c mod 8 = 0" "fst ?d mod 8 = 0" by (simp_all add: mod_eq_0_iff_dvd)
    then show ?thesis using g k vb by (simp add: hlls_usable_def hll_usable_def view_ok_def)
  qed
  ultimately show ?thesis using g(3) k(3) by simp
qed

lemma hit_filters_mono:
  assumes "filters st' = filters st" "number_of_hashes (header st') = number_of_hashes (header st)"
    "\<And>v. v \<in> set (filters st) \<Longrightarrow> bits_of (view_bytes (mmap st) v) \<subseteq> bits_of (view_bytes (mmap st') v)"
  shows "hit_filters st hash \<subseteq> hit_filters st' hash"
proof
  fix i assume i: "i \<in> hit_filters st hash"
  then have "i < length (filters st)" and "in_filter st hash i" by (simp_all add: hit_filters_def)
  moreover from this(1) have "bits_of (view_bytes (mmap st) (filters st ! i)) \<subseteq> bits_of (view_bytes (mmap st') (filters st ! i))"
    by (intro assms(3)) simp
  ultimately show "i \<in> hit_filters st' hash"
    unfolding hit_filters_def in_filter_def assms(1,2) by (blast intro: subset_trans)
qed

text \<open>Persisting a state and loading the file loses no name.\<close>

lemma persist_load:
  assumes pc: "0 < pn" "popcount_correct pn pc" and st: "created_state n bits st" "hlls_usable st"
  shows "\<exists>st' fl st''. honas_state_persist pn pc st = Some (st', fl) \<and>
    honas_state_load True (Some fl) = Some (0, Some st'') \<and> header st'' = header st' \<and>
    layout_of (header st'') = layout_of (header st) \<and> created_state n bits st'' \<and> hlls_usable st'' \<and>
    (\<forall>hash. hit_filters st hash \<subseteq> hit_filters st'' hash)"
proof -
  obtain st' fl rest where p: "honas_state_persist pn pc st = Some (st', fl)" "created_state n bits st'"
    "fl = header_bytes (header st') @ rest" "length fl = length (mmap st)"
    "\<forall>v \<in> set (filters st). view_bytes fl v = view_bytes (mmap st') v"
    "\<forall>v \<in> set (filters st). bits_of (view_bytes (mmap st) v) \<subseteq> bits_of (view_bytes (mmap st') v)"
    "layout_of (header st') = layout_of (header st)"
    using persist_ok [OF pc st] by (elim exE conjE)
  have ll: "length fl = length (mmap st')" using p(2,4) st(1) by (simp add: created_state_def)
  obtain st'' where l: "honas_state_load True (Some fl) = Some (0, Some st'')" "header st'' = header st'"
    "mmap st'' = fl" "created_state n bits st''" "hlls_usable st''"
    using load_ok [OF p(2,3) ll] by blast
  have f: "filters st'' = filters st" using l(4) st(1) by (simp add: created_state_def)
  have "number_of_hashes (header st'') = number_of_hashes (header st)"
    using p(7) l(2) layout_of_simps(3) by metis
  moreover have "bits_of (view_bytes (mmap st) v) \<subseteq> bits_of (view_bytes (mmap st'') v)" if "v \<in> set (filters st)" for v
    using p(5,6) that l(3) by simp
  ultimately have "hit_filters st hash \<subseteq> hit_filters st'' hash" for hash
    using f by (intro hit_filters_mono) simp_all
  then show ?thesis using p(1,7) l by auto
qed

end
