(* ===== verification/State_Combine.thy ===== *)
theory State_Combine
  imports State_Persist
begin

text \<open>
  Combining two states of the same shape: each filter of the target becomes the union of the two
  filters, the HyperLogLogs are merged and the counters added, so that every name that one of the
  two held is held by the result. States of different shape are left alone.
\<close>

section \<open>Filters\<close>

definition filters_apart :: "view list \<Rightarrow> bool" where
  "filters_apart vs \<longleftrightarrow> (\<forall>i j. i < j \<longrightarrow> j < length vs \<longrightarrow> fst (vs ! i) + snd (vs ! i) \<le> fst (vs ! j))"

lemma view_write_apart:
  assumes "fst v + length f \<le> length mem" "length f = snd v" "fst v + snd v \<le> fst w \<or> fst w + snd w \<le> fst v"
  shows "view_bytes (splice (fst v) f mem) w = view_bytes mem w"
  using take_drop_splice_disjoint [OF assms(1), of "fst w" "snd w"] assms(2,3) by (auto simp: view_bytes_def)

lemma or_filters_ok:
  assumes s: "filters source = vs" "\<forall>v \<in> set vs. view_ok source v" and vs: "filters_apart vs"
  shows "filters target = vs \<Longrightarrow> \<forall>v \<in> set vs. view_ok target v \<Longrightarrow> i + n \<le> length vs \<Longrightarrow>
    \<exists>mem. or_filters i n source target = Some (target\<lparr>mmap := mem\<rparr>) \<and> grows target (target\<lparr>mmap := mem\<rparr>) \<and>
      (\<forall>j < length vs. bits_of (view_bytes mem (vs ! j)) = bits_of (view_bytes (mmap target) (vs ! j)) \<union>
        (if i \<le> j \<and> j < i + n then bits_of (view_bytes (mmap source) (vs ! j)) else {}))"
proof (induction n arbitrary: i target)
  case 0
  have "target = target\<lparr>mmap := mmap target\<rparr>" by simp
  then show ?case by (intro exI [of _ "mmap target"]) auto
next
  case (Suc n)
  have i: "i < length vs" using Suc.prems(3) by simp
  let ?v = "vs ! i"
  have ok: "view_ok target ?v" "view_ok source ?v" using Suc.prems(2) s(2) i by simp_all
  have l: "length (view_bytes (mmap target) ?v) = snd ?v" "length (view_bytes (mmap source) ?v) = snd ?v"
    using length_view_bytes ok by blast+
  obtain f where f: "byte_slice_bitwise_or (fst ?v) (view_bytes (mmap target) ?v) (fst ?v) (view_bytes (mmap source) ?v) = Some f"
    "length f = snd ?v" "bits_of f = bits_of (view_bytes (mmap target) ?v) \<union> bits_of (view_bytes (mmap source) ?v)"
  proof -
    obtain f where "byte_slice_bitwise_or (fst ?v) (view_bytes (mmap target) ?v) (fst ?v) (view_bytes (mmap source) ?v) = Some f"
      "length f = snd ?v" "bits_of f = bits_of (view_bytes (mmap target) ?v) \<union>
        {i \<in> bits_of (view_bytes (mmap source) ?v). i < 8 * snd ?v}"
      using byte_slice_bitwise_or_eq [of "fst ?v" "fst ?v" "view_bytes (mmap target) ?v"] unfolding l(1) by blast
    moreover have "{i \<in> bits_of (view_bytes (mmap source) ?v). i < 8 * snd ?v} = bits_of (view_bytes (mmap source) ?v)"
      using bit_at_bound [of "view_bytes (mmap source) ?v"] l(2) by auto
    ultimately show thesis using that by simp
  qed
  let ?t = "view_write ?v f target"
  have sub: "bits_of (view_bytes (mmap target) ?v) \<subseteq> bits_of f" using f(3) by simp
  note g = view_write_grows [OF ok(1) f(2) sub]
  have le: "fst ?v + length f \<le> length (mmap target)" using ok(1) f(2) by (simp add: view_ok_def)
  have other: "view_bytes (mmap ?t) (vs ! j) = view_bytes (mmap target) (vs ! j)" if "j < length vs" "j \<noteq> i" for j
    using view_write_apart [OF le f(2), of "vs ! j"] vs i that unfolding filters_apart_def
    by (cases "j < i") (simp_all add: view_write_def)
  have ft: "filters ?t = vs" "\<forall>v \<in> set vs. view_ok ?t v"
    using Suc.prems(1,2) g(1) by (simp_all add: grows_def view_ok_def)
  obtain mem where mem: "or_filters (Suc i) n source ?t = Some (?t\<lparr>mmap := mem\<rparr>)" "grows ?t (?t\<lparr>mmap := mem\<rparr>)"
    "\<forall>j < length vs. bits_of (view_bytes mem (vs ! j)) = bits_of (view_bytes (mmap ?t) (vs ! j)) \<union>
        (if Suc i \<le> j \<and> j < Suc i + n then bits_of (view_bytes (mmap source) (vs ! j)) else {})"
    using Suc.IH [OF ft, of "Suc i"] Suc.prems(3) by auto
  have e: "?t\<lparr>mmap := mem\<rparr> = target\<lparr>mmap := mem\<rparr>" by (simp add: view_write_def)
  have "or_filters i (Suc n) source target = Some (target\<lparr>mmap := mem\<rparr>)"
    using mem(1) i ok f(1) s(1) Suc.prems(1) unfolding e by simp
  moreover have "grows target (target\<lparr>mmap := mem\<rparr>)" using grows_trans [OF g(1) mem(2)] unfolding e .
  moreover have "bits_of (view_bytes mem (vs ! j)) = bits_of (view_bytes (mmap target) (vs ! j)) \<union>
        (if i \<le> j \<and> j < i + Suc n then bits_of (view_bytes (mmap source) (vs ! j)) else {})" if j: "j < length vs" for j
  proof (cases "j = i")
    case True
    then show ?thesis using mem(3) i g(2) f(3) by auto
  next
    case False
    then show ?thesis using mem(3) j other [OF j False] by auto
  qed
  ultimately show ?case by blast
qed

section \<open>HyperLogLogs\<close>

lemma hllMerge_more:
  assumes "hll_wf dst" "hll_wf src" "daddr mod 8 = saddr mod 8" "hllMerge daddr dst saddr src = Some (d, s)"
  shows "hll_registers_owned d = hll_registers_owned dst" "hll_registers_owned s = hll_registers_owned src"
    "hll_encoding d = HLL_DENSE" "hll_encoding s = HLL_DENSE" "hll_encoding src = HLL_DENSE \<Longrightarrow> s = src"
    "hll_encoding dst = HLL_DENSE \<Longrightarrow> bits_of (hll_registers dst) \<subseteq> bits_of (hll_registers d)"
proof -
  have dense: "\<exists>h'. (if hll_encoding h = HLL_SPARSE then hllSparseToDense h else Some (h, C_OK)) = Some (h', C_OK) \<and>
      hll_encoding h' = HLL_DENSE \<and> hll_registers_owned h' = hll_registers_owned h \<and>
      (hll_encoding h = HLL_DENSE \<longrightarrow> h' = h)" if "hll_wf h" for h
    using that hllSparseToDense_eq [OF that] by (auto simp: hll_wf_def hll_encodings)
  obtain a where a: "(if hll_encoding src = HLL_SPARSE then hllSparseToDense src else Some (src, C_OK)) = Some (a, C_OK)"
    "hll_encoding a = HLL_DENSE" "hll_registers_owned a = hll_registers_owned src"
    "hll_encoding src = HLL_DENSE \<longrightarrow> a = src" using dense [OF assms(2)] by blast
  obtain b where b: "(if hll_encoding dst = HLL_SPARSE then hllSparseToDense dst else Some (dst, C_OK)) = Some (b, C_OK)"
    "hll_encoding b = HLL_DENSE" "hll_registers_owned b = hll_registers_owned dst"
    "hll_encoding dst = HLL_DENSE \<longrightarrow> b = dst" using dense [OF assms(1)] by blast
  obtain r where r: "byte_slice_bitwise_or daddr (hll_registers b) saddr (hll_registers a) = Some r"
    "bits_of (hll_registers b) \<subseteq> bits_of r"
    using byte_slice_bitwise_or_eq [OF assms(3), of "hll_registers b" "hll_registers a"] by auto
  have "d = b\<lparr>hll_registers := r, hll_card := - 1\<rparr>" "s = a"
    using assms(4) a(1,2) b(1,2) r(1) by (simp_all add: hllMerge_def)
  then show "hll_registers_owned d = hll_registers_owned dst" "hll_registers_owned s = hll_registers_owned src"
    "hll_encoding d = HLL_DENSE" "hll_encoding s = HLL_DENSE" "hll_encoding src = HLL_DENSE \<Longrightarrow> s = src"
    "hll_encoding dst = HLL_DENSE \<Longrightarrow> bits_of (hll_registers dst) \<subseteq> bits_of (hll_registers d)"
    using a b r(2) by simp_all
qed

text \<open>The merge of two HyperLogLogs with their registers wherever they are.\<close>

lemma merge_usable:
  assumes t: "hll_usable t h v" and s: "hll_usable s k w"
  shows "\<exists>d e d' e'. load_hll t h v = Some d \<and> load_hll s k w = Some e \<and>
    hllMerge (hll_address d v) d (hll_address e w) e = Some (d', e') \<and> hll_wf d' \<and> hll_wf e' \<and>
    hll_registers_owned d' = hll_registers_owned h \<and> hll_registers_owned e' = hll_registers_owned k \<and>
    hll_encoding d' = HLL_DENSE \<and> hll_encoding e' = HLL_DENSE \<and>
    (\<not> hll_registers_owned h \<longrightarrow> bits_of (view_bytes (mmap t) v) \<subseteq> bits_of (hll_registers d')) \<and>
    (\<not> hll_registers_owned k \<longrightarrow> hll_registers e' = view_bytes (mmap s) w) \<and>
    (\<forall>i < HLL_REGISTERS. hll_regs d' i = hll_regs d i OR hll_regs e i)"
proof -
  obtain d where d: "load_hll t h v = Some d" "hll_wf d" "hll_registers_owned d = hll_registers_owned h"
    "\<not> hll_registers_owned h \<longrightarrow> hll_encoding d = HLL_DENSE \<and> hll_registers d = view_bytes (mmap t) v"
    using load_hll_ok [OF t] by blast
  obtain e where e: "load_hll s k w = Some e" "hll_wf e" "hll_registers_owned e = hll_registers_owned k"
    "\<not> hll_registers_owned k \<longrightarrow> hll_encoding e = HLL_DENSE \<and> hll_registers e = view_bytes (mmap s) w"
    using load_hll_ok [OF s] by blast
  have al: "hll_address d v mod 8 = hll_address e w mod 8"
    using t s by (simp add: hll_address_def hll_usable_def)
  obtain d' e' where m: "hllMerge (hll_address d v) d (hll_address e w) e = Some (d', e')" "hll_wf d'" "hll_wf e'"
    "\<forall>i < HLL_REGISTERS. hll_regs d' i = hll_regs d i OR hll_regs e i"
    using hllMerge_eq [OF d(2) e(2) al] by blast
  note mm = hllMerge_more [OF d(2) e(2) al m(1)]
  have "\<not> hll_registers_owned h \<longrightarrow> bits_of (view_bytes (mmap t) v) \<subseteq> bits_of (hll_registers d')"
    using mm(6) d(4) by argo
  moreover have "\<not> hll_registers_owned k \<longrightarrow> hll_registers e' = view_bytes (mmap s) w" using mm(5) e(4) by simp
  ultimately show ?thesis using d(1,3) e(1,3) m mm(1-4) by blast
qed

lemma put_hll_grows:
  assumes "view_ok t v" "snd v = HLL_DENSE_SIZE" "hll_wf d" "hll_encoding d = HLL_DENSE"
    "\<not> hll_registers_owned d \<longrightarrow> bits_of (view_bytes (mmap t) v) \<subseteq> bits_of (hll_registers d)"
  shows "v = client_count_registers t \<Longrightarrow> grows t (put_client_count d t)"
    and "v = host_name_count_registers t \<Longrightarrow> grows t (put_host_name_count d t)"
proof -
  have l: "length (hll_registers d) = snd v" using hll_dense_length assms(2-4) by simp
  have ww: "grows t (view_write v (hll_registers d) t)" if "\<not> hll_registers_owned d"
    using view_write_grows(1) [OF assms(1) l] assms(5) that by simp
  have e: "view_write v (hll_registers d) (t\<lparr>client_count := d\<rparr>) = (view_write v (hll_registers d) t)\<lparr>client_count := d\<rparr>"
    "view_write v (hll_registers d) (t\<lparr>host_name_count := d\<rparr>) = (view_write v (hll_registers d) t)\<lparr>host_name_count := d\<rparr>"
    by (simp_all add: view_write_def)
  show "v = client_count_registers t \<Longrightarrow> grows t (put_client_count d t)"
    using ww e(1) grows_fields(1) by (auto simp: put_client_count_def)
  show "v = host_name_count_registers t \<Longrightarrow> grows t (put_host_name_count d t)"
    using ww e(2) grows_fields(2) by (auto simp: put_host_name_count_def)
qed

lemma put_hll_same:
  assumes "view_ok t v" "\<not> hll_registers_owned d \<longrightarrow> hll_registers d = view_bytes (mmap t) v"
  shows "v = client_count_registers t \<Longrightarrow> put_client_count d t = t\<lparr>client_count := d\<rparr>"
    and "v = host_name_count_registers t \<Longrightarrow> put_host_name_count d t = t\<lparr>host_name_count := d\<rparr>"
proof -
  have "splice (fst v) (view_bytes (mmap t) v) (mmap t) = mmap t"
  proof (rule nth_equalityI)
    have le: "fst v + length (view_bytes (mmap t) v) \<le> length (mmap t)"
      using assms(1) length_view_bytes [OF assms(1)] by (simp add: view_ok_def)
    show "length (splice (fst v) (view_bytes (mmap t) v) (mmap t)) = length (mmap t)" using le by simp
    fix i assume "i < length (splice (fst v) (view_bytes (mmap t) v) (mmap t))"
    show "splice (fst v) (view_bytes (mmap t) v) (mmap t) ! i = mmap t ! i"
      unfolding nth_splice [OF le] using length_view_bytes [OF assms(1)] assms(1)
      by (auto simp: view_bytes_def view_ok_def)
  qed
  then show "v = client_count_registers t \<Longrightarrow> put_client_count d t = t\<lparr>client_count := d\<rparr>"
    "v = host_name_count_registers t \<Longrightarrow> put_host_name_count d t = t\<lparr>host_name_count := d\<rparr>"
    using assms(2) by (auto simp: put_client_count_def put_host_name_count_def view_write_def)
qed

section \<open>States\<close>

lemma merge_clients_ok:
  assumes "hlls_usable t" "hlls_usable s"
  shows "\<exists>t' s' d e. merge_clients t s = Some (t', s') \<and> grows t t' \<and> hlls_usable t' \<and> hlls_usable s' \<and>
    s' = s\<lparr>client_count := e\<rparr> \<and> header t' = header t \<and> host_name_count t' = host_name_count t \<and>
    get_client_count t = Some d \<and>
    (\<forall>c k. get_client_count t = Some c \<longrightarrow> get_client_count s = Some k \<longrightarrow>
      (\<forall>i < HLL_REGISTERS. hll_regs (client_count t') i = hll_regs c i OR hll_regs k i))"
proof -
  let ?v = "client_count_registers t" and ?w = "client_count_registers s"
  have u: "hll_usable t (client_count t) ?v" "hll_usable s (client_count s) ?w"
    "hll_usable t (host_name_count t) (host_name_count_registers t)"
    "hll_usable s (host_name_count s) (host_name_count_registers s)"
    using assms by (simp_all add: hlls_usable_def)
  obtain d e d' e' where m: "load_hll t (client_count t) ?v = Some d" "load_hll s (client_count s) ?w = Some e"
    "hllMerge (hll_address d ?v) d (hll_address e ?w) e = Some (d', e')" "hll_wf d'" "hll_wf e'"
    "hll_registers_owned d' = hll_registers_owned (client_count t)"
    "hll_registers_owned e' = hll_registers_owned (client_count s)"
    "hll_encoding d' = HLL_DENSE" "hll_encoding e' = HLL_DENSE"
    "\<not> hll_registers_owned (client_count t) \<longrightarrow> bits_of (view_bytes (mmap t) ?v) \<subseteq> bits_of (hll_registers d')"
    "\<not> hll_registers_owned (client_count s) \<longrightarrow> hll_registers e' = view_bytes (mmap s) ?w"
    "\<forall>i < HLL_REGISTERS. hll_regs d' i = hll_regs d i OR hll_regs e i"
    using merge_usable [OF u(1,2)] by (elim exE conjE)
  have v: "view_ok t ?v" "snd ?v = HLL_DENSE_SIZE" "view_ok s ?w" using u by (simp_all add: hll_usable_def)
  have g: "grows t (put_client_count d' t)"
    using put_hll_grows(1) [OF v(1,2) m(4,8)] m(6,10) by simp
  have p: "put_client_count e' s = s\<lparr>client_count := e'\<rparr>"
    using put_hll_same(1) [OF v(3)] m(7,11) by simp
  have f: "client_count (put_client_count d' t) = d'" "host_name_count (put_client_count d' t) = host_name_count t"
    "header (put_client_count d' t) = header t" by (simp_all add: put_client_count_def)
  have "hlls_usable (put_client_count d' t)" using u(1,3) g f m(4,6,8)
    by (simp add: hlls_usable_def hll_usable_def view_ok_def grows_def)
  moreover have "hlls_usable (s\<lparr>client_count := e'\<rparr>)" using u(2,4) m(5,7,9)
    by (simp add: hlls_usable_def hll_usable_def view_ok_def)
  moreover have "merge_clients t s = Some (put_client_count d' t, s\<lparr>client_count := e'\<rparr>)"
    using m(1-3) p by (simp add: merge_clients_def get_client_count_def)
  ultimately show ?thesis using g f m(1,2,12)
    by (intro exI [of _ "put_client_count d' t"] exI [of _ "s\<lparr>client_count := e'\<rparr>"] exI [of _ d] exI [of _ e'])
      (simp add: get_client_count_def)
qed

lemma merge_host_names_ok:
  assumes "hlls_usable t" "hlls_usable s"
  shows "\<exists>t' s' e. merge_host_names t s = Some (t', s') \<and> grows t t' \<and> hlls_usable t' \<and> hlls_usable s' \<and>
    s' = s\<lparr>host_name_count := e\<rparr> \<and> header t' = header t \<and> client_count t' = client_count t \<and>
    (\<forall>c k. get_host_name_count t = Some c \<longrightarrow> get_host_name_count s = Some k \<longrightarrow>
      (\<forall>i < HLL_REGISTERS. hll_regs (host_name_count t') i = hll_regs c i OR hll_regs k i))"
proof -
  let ?v = "host_name_count_registers t" and ?w = "host_name_count_registers s"
  have u: "hll_usable t (host_name_count t) ?v" "hll_usable s (host_name_count s) ?w"
    "hll_usable t (client_count t) (client_count_registers t)"
    "hll_usable s (client_count s) (client_count_registers s)"
    using assms by (simp_all add: hlls_usable_def)
  obtain d e d' e' where m: "load_hll t (host_name_count t) ?v = Some d" "load_hll s (host_name_count s) ?w = Some e"
    "hllMerge (hll_address d ?v) d (hll_address e ?w) e = Some (d', e')" "hll_wf d'" "hll_wf e'"
    "hll_registers_owned d' = hll_registers_owned (host_name_count t)"
    "hll_registers_owned e' = hll_registers_owned (host_name_count s)"
    "hll_encoding d' = HLL_DENSE" "hll_encoding e' = HLL_DENSE"
    "\<not> hll_registers_owned (host_name_count t) \<longrightarrow> bits_of (view_bytes (mmap t) ?v) \<subseteq> bits_of (hll_registers d')"
    "\<not> hll_registers_owned (host_name_count s) \<longrightarrow> hll_registers e' = view_bytes (mmap s) ?w"
    "\<forall>i < HLL_REGISTERS. hll_regs d' i = hll_regs d i OR hll_regs e i"
    using merge_usable [OF u(1,2)] by (elim exE conjE)
  have v: "view_ok t ?v" "snd ?v = HLL_DENSE_SIZE" "view_ok s ?w" using u by (simp_all add: hll_usable_def)
  have g: "grows t (put_host_name_count d' t)"
    using put_hll_grows(2) [OF v(1,2) m(4,8)] m(6,10) by simp
  have p: "put_host_name_count e' s = s\<lparr>host_name_count := e'\<rparr>"
    using put_hll_same(2) [OF v(3)] m(7,11) by simp
  have f: "host_name_count (put_host_name_count d' t) = d'" "client_count (put_host_name_count d' t) = client_count t"
    "header (put_host_name_count d' t) = header t" by (simp_all add: put_host_name_count_def)
  have "hlls_usable (put_host_name_count d' t)" using u(1,3) g f m(4,6,8)
    by (simp add: hlls_usable_def hll_usable_def view_ok_def grows_def)
  moreover have "hlls_usable (s\<lparr>host_name_count := e'\<rparr>)" using u(2,4) m(5,7,9)
    by (simp add: hlls_usable_def hll_usable_def view_ok_def)
  moreover have "merge_host_names t s = Some (put_host_name_count d' t, s\<lparr>host_name_count := e'\<rparr>)"
    using m(1-3) p by (simp add: merge_host_names_def get_host_name_count_def)
  ultimately show ?thesis using g f m(1,2,12)
    by (intro exI [of _ "put_host_name_count d' t"] exI [of _ "s\<lparr>host_name_count := e'\<rparr>"] exI [of _ e'])
      (simp add: get_host_name_count_def)
qed

lemma created_apart: "filters_apart (created_filters n m)"
  unfolding filters_apart_def using created_filters_disjoint by (simp add: created_filters_def)

lemma layout_combine [simp]: "layout_of (combine_headers h g) = layout_of h"
  by (simp add: layout_of_def combine_headers_def)

lemma combine_ok:
  assumes t: "created_state n bits t" "hlls_usable t" and s: "created_state n bits s" "hlls_usable s"
    and k: "number_of_hashes (header t) = number_of_hashes (header s)"
  shows "\<exists>t' s'. honas_state_aggregate_combine (Some t) (Some s) = Some (True, Some t', Some s') \<and>
    created_state n bits t' \<and> hlls_usable t' \<and> grows t t' \<and> mmap s' = mmap s \<and> filters s' = filters s \<and>
    (\<forall>hash. hit_filters t hash \<union> hit_filters s hash \<subseteq> hit_filters t' hash) \<and>
    header t' = combine_headers (header t) (header s) \<and>
    (\<forall>c d. get_host_name_count t = Some c \<longrightarrow> hll_registers_owned c \<longrightarrow> get_host_name_count s = Some d \<longrightarrow>
      (\<forall>i < HLL_REGISTERS. hll_regs (host_name_count t') i = hll_regs c i OR hll_regs d i))"
proof -
  let ?vs = "created_filters (unat n) (unat bits div 8)"
  have fs: "filters s = ?vs" "filters t = ?vs" using s(1) t(1) by (simp_all add: created_state_def)
  have h: "number_of_filters (header t) = n" "number_of_filters (header s) = n"
    "number_of_bits_per_filter (header t) = bits" "number_of_bits_per_filter (header s) = bits"
    using created_header [OF t(1)] created_header [OF s(1)] by metis+
  have vok: "\<forall>v \<in> set ?vs. view_ok s v" "\<forall>v \<in> set ?vs. view_ok t v"
    using created_filters_ok [OF s(1)] created_filters_ok [OF t(1)] fs by (simp_all add: filters_ok_def)
  have len: "0 + unat n \<le> length ?vs" by (simp add: created_filters_def)
  obtain mem where a: "or_filters 0 (unat n) s t = Some (t\<lparr>mmap := mem\<rparr>)" "grows t (t\<lparr>mmap := mem\<rparr>)"
    "\<forall>j < length ?vs. bits_of (view_bytes mem (?vs ! j)) = bits_of (view_bytes (mmap t) (?vs ! j)) \<union>
      (if 0 \<le> j \<and> j < 0 + unat n then bits_of (view_bytes (mmap s) (?vs ! j)) else {})"
    using or_filters_ok [OF fs(1) vok(1) created_apart fs(2) vok(2) len] by blast
  let ?a = "t\<lparr>mmap := mem\<rparr>"
  have ca: "created_state n bits ?a" by (rule created_state_grows [OF a(2) t(1)])
  have ua: "hlls_usable ?a" using t(2) a(2) by (simp add: hlls_usable_def hll_usable_def view_ok_def grows_def)
  obtain b e1 s1 where b: "merge_clients ?a s = Some (b, s1)" "grows ?a b" "hlls_usable b" "hlls_usable s1"
    "s1 = s\<lparr>client_count := e1\<rparr>" "header b = header ?a" "host_name_count b = host_name_count ?a"
    using merge_clients_ok [OF ua s(2)] by blast
  obtain c e2 s2 where c: "merge_host_names b s1 = Some (c, s2)" "grows b c" "hlls_usable c"
    "s2 = s1\<lparr>host_name_count := e2\<rparr>" "header c = header b"
    "\<forall>x y. get_host_name_count b = Some x \<longrightarrow> get_host_name_count s1 = Some y \<longrightarrow>
      (\<forall>i < HLL_REGISTERS. hll_regs (host_name_count c) i = hll_regs x i OR hll_regs y i)"
    using merge_host_names_ok [OF b(3,4)] by blast
  let ?h = "combine_headers (header t) (header s)"
  let ?t = "c\<lparr>header := ?h\<rparr>"
  have hc: "header c = header t" using b(6) c(5) by simp
  have "grows c ?t" by (simp add: grows_def hc) (simp add: combine_headers_def)
  then have ga: "grows ?a ?t" using grows_trans [OF grows_trans [OF b(2) c(2)]] by blast
  have gt: "grows t ?t" by (rule grows_trans [OF a(2) ga])
  have "honas_state_aggregate_combine (Some t) (Some s) = Some (True, Some ?t, Some s2)"
    using a(1) b(1) c(1) h k hc by (simp add: honas_state_aggregate_combine_def b(5) c(4))
  moreover have "created_state n bits ?t" by (rule created_state_grows [OF gt t(1)])
  moreover have "hlls_usable ?t" using c(3) by (simp add: hlls_usable_def hll_usable_def view_ok_def)
  moreover have "hit_filters t hash \<subseteq> hit_filters ?t hash" for hash
    by (rule hit_filters_grows [OF gt created_filters_ok [OF t(1)]])
  moreover have "hit_filters s hash \<subseteq> hit_filters ?t hash" for hash
  proof (rule hit_filters_mono)
    show "filters ?t = filters s" using gt fs by (simp add: grows_def)
    show "number_of_hashes (header ?t) = number_of_hashes (header s)" using k by (simp add: combine_headers_def)
    fix v assume v: "v \<in> set (filters s)"
    then obtain j where j: "j < length ?vs" "v = ?vs ! j" by (metis fs(1) in_set_conv_nth)
    have "j < unat n" using j(1) by (simp add: created_filters_def)
    then have "bits_of (view_bytes (mmap s) v) \<subseteq> bits_of (view_bytes (mmap ?a) v)" using a(3) j by simp
    also have "view_ok ?a v" using vok(2) v fs a(2) by (simp add: view_ok_def grows_def)
    then have "bits_of (view_bytes (mmap ?a) v) \<subseteq> bits_of (view_bytes (mmap ?t) v)" by (rule view_grows [OF ga])
    finally show "bits_of (view_bytes (mmap s) v) \<subseteq> bits_of (view_bytes (mmap ?t) v)" .
  qed
  moreover have "hll_regs (host_name_count ?t) i = hll_regs x i OR hll_regs y i"
    if x: "get_host_name_count t = Some x" "hll_registers_owned x" and y: "get_host_name_count s = Some y"
      and i: "i < HLL_REGISTERS" for x y i
  proof -
    have "get_host_name_count b = Some x"
      using x b(7) by (auto simp: get_host_name_count_def load_hll_def split: if_splits)
    moreover have "get_host_name_count s1 = Some y"
      using y b(5) by (simp add: get_host_name_count_def load_hll_def view_ok_def split: if_splits)
    ultimately show ?thesis using c(6) i by simp
  qed
  ultimately show ?thesis using gt b(5) c(4) by (intro exI [of _ ?t] exI [of _ s2]) simp
qed

lemma combine_mismatch:
  assumes "number_of_bits_per_filter (header t) \<noteq> number_of_bits_per_filter (header s) \<or>
    number_of_hashes (header t) \<noteq> number_of_hashes (header s) \<or>
    number_of_filters (header t) \<noteq> number_of_filters (header s)"
  shows "honas_state_aggregate_combine (Some t) (Some s) = Some (False, Some t, Some s)"
  using assms unfolding honas_state_aggregate_combine_def prod.case option.case by argo

end
