(* ===== verification/Utils.thy ===== *)
theory Utils
  imports Honas_Base "HOL-Library.List_Lexorder"
begin

text \<open>
  String helpers (\<open>src/src/utils.c\<close>): parsing of integers, building a path relative to a file and
  finding white space. A C string is the list of its bytes before the terminator. What the code
  uses of the C library (\<open>strtol\<close>, \<open>strtoul\<close>, \<open>rindex\<close>, \<open>index\<close>, \<open>strcmp\<close>, \<open>printf\<close> of decimals)
  is defined first.
\<close>

section \<open>The C library\<close>

definition c_isspace :: "u8 \<Rightarrow> bool" where
  "c_isspace c \<longleftrightarrow> c = 32 \<or> (9 \<le> c \<and> c \<le> 13)"

definition digit_value :: "u8 \<Rightarrow> nat option" where
  "digit_value c =
     (if 48 \<le> c \<and> c \<le> 57 then Some (unat c - 48)
      else if 65 \<le> c \<and> c \<le> 90 then Some (unat c - 55)
      else if 97 \<le> c \<and> c \<le> 122 then Some (unat c - 87)
      else None)"

definition is_digit :: "nat \<Rightarrow> u8 \<Rightarrow> bool" where
  "is_digit base c = (case digit_value c of None \<Rightarrow> False | Some d \<Rightarrow> d < base)"

definition digits_value :: "nat \<Rightarrow> bytes \<Rightarrow> nat" where
  "digits_value base ds = foldl (\<lambda>n c. n * base + (case digit_value c of None \<Rightarrow> 0 | Some d \<Rightarrow> d)) 0 ds"

definition hex_prefix :: "bytes \<Rightarrow> bool" where
  "hex_prefix s = (case s of a # x # d # _ \<Rightarrow> a = 48 \<and> (x = 120 \<or> x = 88) \<and> is_digit 16 d | _ \<Rightarrow> False)"

definition number_base :: "nat \<Rightarrow> bytes \<Rightarrow> nat" where
  "number_base base s =
     (if base = 0 then if hex_prefix s then 16 else if s \<noteq> [] \<and> hd s = 48 then 8 else 10 else base)"

text \<open>
  The sign, the digits and the rest of the string behind them: what \<open>strtol\<close> and \<open>strtoul\<close>
  recognise. Without a digit nothing is consumed.
\<close>

definition scan_number :: "nat \<Rightarrow> bytes \<Rightarrow> (bool \<times> nat \<times> bytes) option" where
  "scan_number base str =
     (let s = dropWhile c_isspace str;
          neg = (s \<noteq> [] \<and> hd s = 45);
          s = (if s \<noteq> [] \<and> (hd s = 45 \<or> hd s = 43) then tl s else s);
          b = number_base base s;
          s = (if b = 16 \<and> hex_prefix s then drop 2 s else s);
          ds = takeWhile (is_digit b) s
      in if ds = [] then None else Some (neg, digits_value b ds, drop (length ds) s))"

text \<open>The results are the value, the end pointer and whether \<open>errno\<close> was set.\<close>

definition strtol :: "bytes \<Rightarrow> int \<times> bytes \<times> bool" where
  "strtol str =
     (case scan_number 10 str of None \<Rightarrow> (0, str, False)
      | Some (neg, n, rest) \<Rightarrow>
          if neg then if n > 2 ^ 63 then (- (2 ^ 63), rest, True) else (- int n, rest, False)
          else if n > 2 ^ 63 - 1 then (2 ^ 63 - 1, rest, True) else (int n, rest, False))"

definition strtoul :: "nat \<Rightarrow> bytes \<Rightarrow> u64 \<times> bytes \<times> bool" where
  "strtoul base str =
     (if base = 1 \<or> 36 < base then (0, str, True)
      else case scan_number base str of None \<Rightarrow> (0, str, False)
      | Some (neg, n, rest) \<Rightarrow>
          if n > 2 ^ 64 - 1 then (- 1, rest, True)
          else (if neg then - of_nat n else of_nat n, rest, False))"

fun dec_digits :: "nat \<Rightarrow> bytes" where
  "dec_digits n = (if n < 10 then [of_nat (48 + n)] else dec_digits (n div 10) @ [of_nat (48 + n mod 10)])"

declare dec_digits.simps [simp del]

section \<open>Parsing integers\<close>

text \<open>\<open>None\<close> is the failure of these functions; they do not abort.\<close>

definition my_strtol :: "bytes \<Rightarrow> int option" where
  "my_strtol str =
     (let (l, endptr, errno) = strtol str; v = sint (word_of_int l :: u32)
      in if errno then None
         else if str = endptr then None
         else if endptr \<noteq> [] then None
         else Some v)"

text \<open>\<open>supplied\<close> says whether the caller passed a pointer for the end, which is then a result too.\<close>

definition my_strtouint16 :: "bytes \<Rightarrow> bool \<Rightarrow> nat \<Rightarrow> (u16 \<times> bytes) option" where
  "my_strtouint16 str supplied base =
     (let (v, endptr, errno) = strtoul base str
      in if errno then None
         else if str = endptr then None
         else if v > 65535 then None
         else if \<not> supplied \<and> endptr \<noteq> [] then None
         else Some (ucast v, endptr))"

definition my_strtouint32 :: "bytes \<Rightarrow> bool \<Rightarrow> nat \<Rightarrow> (u32 \<times> bytes) option" where
  "my_strtouint32 str supplied base =
     (let (v, endptr, errno) = strtoul base str
      in if errno then None
         else if str = endptr then None
         else if v > 4294967295 then None
         else if \<not> supplied \<and> endptr \<noteq> [] then None
         else Some (ucast v, endptr))"

definition my_strtouint64 :: "bytes \<Rightarrow> bool \<Rightarrow> nat \<Rightarrow> (u64 \<times> bytes) option" where
  "my_strtouint64 str supplied base =
     (let (v, endptr, errno) = strtoul base str
      in if errno then None
         else if str = endptr then None
         else if v > 18446744073709551615 then None
         else if \<not> supplied \<and> endptr \<noteq> [] then None
         else Some (v, endptr))"

section \<open>Paths and white space\<close>

definition last_index :: "'a \<Rightarrow> 'a list \<Rightarrow> nat option" where
  "last_index c s = (if c \<in> set s then Some (length s - 1 - length (takeWhile (\<lambda>b. b \<noteq> c) (rev s))) else None)"

definition first_index :: "'a \<Rightarrow> 'a list \<Rightarrow> nat option" where
  "first_index c s = (if c \<in> set s then Some (length (takeWhile (\<lambda>b. b \<noteq> c) s)) else None)"

definition create_relative_filepath :: "bytes \<Rightarrow> bytes \<Rightarrow> bytes" where
  "create_relative_filepath orig_file rel_file =
     (case last_index 47 orig_file of None \<Rightarrow> rel_file
      | Some idx \<Rightarrow> take (idx + 1) orig_file @ rel_file)"

definition index_ws :: "bytes \<Rightarrow> nat option" where
  "index_ws s =
     (let idx_spc = first_index 32 s; idx_tab = first_index 9 s
      in case (idx_spc, idx_tab) of
           (None, t) \<Rightarrow> t
         | (a, None) \<Rightarrow> a
         | (Some a, Some t) \<Rightarrow> if a < t then Some a else Some t)"

definition cmpstringp :: "bytes \<Rightarrow> bytes \<Rightarrow> int" where
  "cmpstringp a b = (if a < b then - 1 else if a = b then 0 else 1)"

section \<open>Lemmas\<close>

lemma unat_48_plus: "n < 10 \<Longrightarrow> unat (of_nat (48 + n) :: u8) = 48 + n"
  by (simp only: unat_of_nat_u8) simp

lemma digit_of_nat: "n < 10 \<Longrightarrow> digit_value (of_nat (48 + n)) = Some n"
  using unat_48_plus [of n]
  by (simp add: digit_value_def word_le_nat_alt)

lemma dec_digits_digits: "\<forall>c \<in> set (dec_digits n). is_digit 10 c"
proof (induction n rule: dec_digits.induct)
  case (1 n)
  have d: "k < 10 \<Longrightarrow> is_digit 10 (of_nat (48 + k))" for k by (simp add: is_digit_def digit_of_nat del: of_nat_add)
  show ?case
    using 1 d [of n] d [of "n mod 10"] by (subst dec_digits.simps) (auto simp del: of_nat_add)
qed

lemma digits_value_snoc: "k < 10 \<Longrightarrow> digits_value 10 (ds @ [of_nat (48 + k)]) = digits_value 10 ds * 10 + k"
  by (simp add: digits_value_def digit_of_nat del: of_nat_add)

lemma digits_value_dec_digits: "digits_value 10 (dec_digits n) = n"
proof (induction n rule: dec_digits.induct)
  case (1 n)
  show ?case
  proof (cases "n < 10")
    case True
    then show ?thesis
      using digits_value_snoc [of n "[]"] by (subst dec_digits.simps) (simp add: digits_value_def del: of_nat_add)
  next
    case False
    then show ?thesis using 1 digits_value_snoc [of "n mod 10" "dec_digits (n div 10)"]
      by (subst dec_digits.simps) (simp del: of_nat_add)
  qed
qed

lemma dec_digits_not_Nil [simp]: "dec_digits n \<noteq> []"
  by (subst dec_digits.simps) simp

lemma is_digit_10: "is_digit 10 c \<Longrightarrow> 48 \<le> c \<and> c \<le> 57"
  by (auto simp: is_digit_def digit_value_def word_le_nat_alt split: if_splits)

lemma length_dec_digits: "n < 10 ^ Suc k \<Longrightarrow> length (dec_digits n) \<le> Suc k"
proof (induction k arbitrary: n)
  case 0
  then show ?case by (subst dec_digits.simps) simp
next
  case (Suc k)
  show ?case
  proof (cases "n < 10")
    case True
    then show ?thesis by (subst dec_digits.simps) simp
  next
    case False
    have "n div 10 < 10 ^ Suc k" using Suc.prems by (simp add: div_less_iff_less_mult)
    with Suc.IH False show ?thesis by (subst dec_digits.simps) simp
  qed
qed

text \<open>A number printed in decimal is parsed as itself.\<close>

lemma scan_dec_digits: "scan_number 10 (dec_digits n) = Some (False, n, [])"
proof -
  let ?s = "dec_digits n"
  have hd: "48 \<le> hd ?s \<and> hd ?s \<le> 57"
    using dec_digits_digits [of n] is_digit_10 by (meson dec_digits_not_Nil hd_in_set)
  have sp: "\<not> c_isspace (hd ?s)" using hd by (auto simp: c_isspace_def word_le_nat_alt word_unat_eq_iff)
  have sg: "hd ?s \<noteq> 45" "hd ?s \<noteq> 43" using hd by auto
  have dw: "dropWhile c_isspace ?s = ?s" using sp by (cases ?s) auto
  have tw: "takeWhile (is_digit 10) ?s = ?s" using dec_digits_digits by (simp add: takeWhile_eq_all_conv)
  show ?thesis using sg by (simp add: scan_number_def number_base_def digits_value_dec_digits Let_def dw tw)
qed

lemma my_strtouint32_dec_digits:
  "my_strtouint32 (dec_digits n) whole 10 = (if n < 2 ^ 32 then Some (of_nat n, []) else None)"
proof (cases "n \<le> 2 ^ 64 - 1")
  case True
  then have "unat (of_nat n :: u64) = n" by (simp add: unat_of_nat)
  then have "of_nat n > (4294967295 :: u64) \<longleftrightarrow> 2 ^ 32 \<le> n" by (simp add: word_less_nat_alt) linarith
  moreover have "ucast (of_nat n :: u64) = (of_nat n :: u32)"
    using \<open>unat (of_nat n :: u64) = n\<close> by (intro unat_eqI) (simp add: unat_ucast unat_of_nat)
  ultimately show ?thesis using True by (simp add: my_strtouint32_def strtoul_def scan_dec_digits Let_def)
next
  case False
  then show ?thesis by (simp add: my_strtouint32_def strtoul_def scan_dec_digits Let_def)
qed

lemma my_strtol_dec_digits:
  "my_strtol (dec_digits n) = (if n < 2 ^ 63 then Some (sint (word_of_int (int n) :: u32)) else None)"
  by (simp add: my_strtol_def strtol_def scan_dec_digits Let_def)

text \<open>The value of \<open>my_strtol\<close> always fits an \<open>int\<close>, but it is the truncation of a \<open>long\<close>.\<close>

lemma my_strtol_range: "my_strtol s = Some v \<Longrightarrow> - (2 ^ 31) \<le> v \<and> v < 2 ^ 31"
  using sint_lt [of "word_of_int (fst (strtol s)) :: u32"] sint_ge [of "word_of_int (fst (strtol s)) :: u32"]
  by (auto simp: my_strtol_def Let_def split: prod.splits if_splits)

lemma first_index_Some: "first_index c s = Some i \<Longrightarrow> i < length s \<and> s ! i = c \<and> (\<forall>j < i. s ! j \<noteq> c)"
proof -
  assume f: "first_index c s = Some i"
  let ?t = "takeWhile (\<lambda>b. b \<noteq> c) s"
  have c: "c \<in> set s" and i: "i = length ?t" using f by (auto simp: first_index_def split: if_splits)
  have lt: "length ?t < length s" using c by (metis (mono_tags, lifting) takeWhile_eq_all_conv takeWhile_eq_take length_takeWhile_le nat_less_le take_all_iff order_refl)
  moreover have "s ! length ?t = c" using nth_length_takeWhile [OF lt] by simp
  moreover have "s ! j \<noteq> c" if "j < length ?t" for j
    using that nth_mem [OF that] set_takeWhileD [of "?t ! j" "\<lambda>b. b \<noteq> c" s] takeWhile_nth [OF that] by metis
  ultimately show ?thesis using i by simp
qed

lemma first_index_None: "first_index c s = None \<Longrightarrow> j < length s \<Longrightarrow> s ! j \<noteq> c"
  by (auto simp: first_index_def split: if_splits)

lemma index_ws_spec:
  assumes "index_ws s = Some i"
  shows "i < length s \<and> (s ! i = 32 \<or> s ! i = 9) \<and> (\<forall>j < i. s ! j \<noteq> 32 \<and> s ! j \<noteq> 9)"
  using assms first_index_Some [of 32 s] first_index_Some [of 9 s] first_index_None [of 32 s]
    first_index_None [of 9 s]
  by (fastforce simp: index_ws_def Let_def split: option.splits if_splits)

lemma last_index_Some:
  assumes "last_index c s = Some i"
  shows "i < length s" "s ! i = c" "\<forall>j. i < j \<longrightarrow> j < length s \<longrightarrow> s ! j \<noteq> c"
proof -
  have c: "c \<in> set (rev s)" and i: "i = length s - 1 - length (takeWhile (\<lambda>b. b \<noteq> c) (rev s))"
    using assms by (auto simp: last_index_def split: if_splits)
  define k where "k = length (takeWhile (\<lambda>b. b \<noteq> c) (rev s))"
  have f: "first_index c (rev s) = Some k" using c by (simp add: first_index_def k_def)
  note k = first_index_Some [OF f]
  have kl: "k < length s" using k by simp
  show l: "i < length s" using i kl by (simp add: k_def)
  have "rev s ! k = s ! i" using kl i by (simp add: rev_nth k_def)
  then show "s ! i = c" using k by simp
  show "\<forall>j. i < j \<longrightarrow> j < length s \<longrightarrow> s ! j \<noteq> c"
  proof (intro allI impI)
    fix j assume j: "i < j" "j < length s"
    have "length s - 1 - j < k" using j i kl unfolding k_def [symmetric] by linarith
    then have "rev s ! (length s - 1 - j) \<noteq> c" using k by blast
    then show "s ! j \<noteq> c" using j by (simp add: rev_nth)
  qed
qed

end
