(* ===== verification/Json_Events.thy ===== *)
theory Json_Events
  imports Utils
begin

text \<open>
  How the event driven JSON parser (yajl) drives a client: it reads the blocks of a file, and calls a
  function of the client for every element of the document. A call that returns zero cancels the
  parse. The parser itself is a library; it is a parameter, of which the clients' lemmas only use that
  it calls the functions of the client, one after the other, until one of them returns zero.
\<close>

section \<open>Events and callbacks\<close>

datatype json_event =
    Ev_Integer int
  | Ev_String bytes
  | Ev_Start_Map
  | Ev_Map_Key bytes
  | Ev_End_Map
  | Ev_Start_Array
  | Ev_End_Array
  | Ev_Other

text \<open>
  The table of the functions of a client. Each returns its code and its new context, or aborts. The
  entries for null, booleans, doubles and numbers as text are NULL in both clients: the parser
  continues after such an element (\<open>Ev_Other\<close>).
\<close>

record 's yajl_callbacks =
  yajl_integer :: "int \<Rightarrow> 's \<Rightarrow> (int \<times> 's) option"
  yajl_string :: "bytes \<Rightarrow> 's \<Rightarrow> (int \<times> 's) option"
  yajl_start_map :: "'s \<Rightarrow> (int \<times> 's) option"
  yajl_map_key :: "bytes \<Rightarrow> 's \<Rightarrow> (int \<times> 's) option"
  yajl_end_map :: "'s \<Rightarrow> (int \<times> 's) option"
  yajl_start_array :: "'s \<Rightarrow> (int \<times> 's) option"
  yajl_end_array :: "'s \<Rightarrow> (int \<times> 's) option"

definition callback :: "'s yajl_callbacks \<Rightarrow> json_event \<Rightarrow> 's \<Rightarrow> (int \<times> 's) option" where
  "callback cbs e s = (case e of
      Ev_Integer i \<Rightarrow> yajl_integer cbs i s
    | Ev_String b \<Rightarrow> yajl_string cbs b s
    | Ev_Start_Map \<Rightarrow> yajl_start_map cbs s
    | Ev_Map_Key k \<Rightarrow> yajl_map_key cbs k s
    | Ev_End_Map \<Rightarrow> yajl_end_map cbs s
    | Ev_Start_Array \<Rightarrow> yajl_start_array cbs s
    | Ev_End_Array \<Rightarrow> yajl_end_array cbs s
    | Ev_Other \<Rightarrow> Some (1, s))"

lemma callback_simps [simp]:
  "callback cbs (Ev_Integer i) s = yajl_integer cbs i s"
  "callback cbs (Ev_String b) s = yajl_string cbs b s"
  "callback cbs Ev_Start_Map s = yajl_start_map cbs s"
  "callback cbs (Ev_Map_Key k) s = yajl_map_key cbs k s"
  "callback cbs Ev_End_Map s = yajl_end_map cbs s"
  "callback cbs Ev_Start_Array s = yajl_start_array cbs s"
  "callback cbs Ev_End_Array s = yajl_end_array cbs s"
  "callback cbs Ev_Other s = Some (1, s)"
  by (simp_all add: callback_def)

text \<open>The events of one block: whether all were accepted, how many were delivered, and the context.\<close>

fun deliver :: "'s yajl_callbacks \<Rightarrow> json_event list \<Rightarrow> 's \<Rightarrow> (bool \<times> nat \<times> 's) option" where
  "deliver cbs [] s = Some (True, 0, s)"
| "deliver cbs (e # es) s =
     (case callback cbs e s of
        None \<Rightarrow> None
      | Some (r, s') \<Rightarrow>
          if r = 0 then Some (False, 1, s')
          else map_option (\<lambda>(ok, n, s''). (ok, Suc n, s'')) (deliver cbs es s'))"

section \<open>The parser\<close>

text \<open>
  \<open>y_parse h block\<close>: the events in a block, the handle after them and whether the text is well formed
  so far. \<open>y_canceled h block n\<close>: the handle after the \<open>n\<close>-th event was refused. \<open>y_complete h\<close>: the
  events that the end of the text still gives.
\<close>

datatype yajl_status = Yajl_Status_Ok | Yajl_Status_Client_Canceled | Yajl_Status_Error

record 'h yajl =
  y_alloc :: "'h option"
  y_parse :: "'h \<Rightarrow> bytes \<Rightarrow> json_event list \<times> 'h \<times> bool"
  y_canceled :: "'h \<Rightarrow> bytes \<Rightarrow> nat \<Rightarrow> 'h"
  y_complete :: "'h \<Rightarrow> json_event list \<times> 'h \<times> bool"

definition yajl_parse ::
  "'h yajl \<Rightarrow> 's yajl_callbacks \<Rightarrow> bytes \<Rightarrow> 'h \<Rightarrow> 's \<Rightarrow> (yajl_status \<times> 'h \<times> 's) option" where
  "yajl_parse y cbs buf h s =
     (let (es, h', ok) = y_parse y h buf in
      map_option (\<lambda>(acc, n, s').
        if acc then (if ok then Yajl_Status_Ok else Yajl_Status_Error, h', s')
        else (Yajl_Status_Client_Canceled, y_canceled y h buf n, s')) (deliver cbs es s))"

definition yajl_complete_parse ::
  "'h yajl \<Rightarrow> 's yajl_callbacks \<Rightarrow> 'h \<Rightarrow> 's \<Rightarrow> (yajl_status \<times> 'h \<times> 's) option" where
  "yajl_complete_parse y cbs h s =
     (let (es, h', ok) = y_complete y h in
      map_option (\<lambda>(acc, n, s').
        (if acc then if ok then Yajl_Status_Ok else Yajl_Status_Error else Yajl_Status_Client_Canceled, h', s'))
        (deliver cbs es s))"

text \<open>A file read with \<open>fread\<close> in blocks of at most \<open>n\<close> bytes.\<close>

function blocks :: "nat \<Rightarrow> bytes \<Rightarrow> bytes list" where
  "blocks n s = (if s = [] \<or> n = 0 then [] else take n s # blocks n (drop n s))"
  by pat_completeness auto
termination
  by (relation "measure (\<lambda>(n, s). length s)") auto

declare blocks.simps [simp del]

abbreviation (input) READ_BLOCK_SIZE :: nat where "READ_BLOCK_SIZE \<equiv> 65536"

lemma concat_blocks: "0 < n \<Longrightarrow> concat (blocks n s) = s"
  by (induction n s rule: blocks.induct) (subst blocks.simps, simp)

lemma blocks_length: "b \<in> set (blocks n s) \<Longrightarrow> b \<noteq> [] \<and> length b \<le> n"
proof (induction n s rule: blocks.induct)
  case (1 n s)
  then show ?case by (subst (asm) (2) blocks.simps) (auto split: if_splits)
qed

lemma blocks_Nil [simp]: "blocks n [] = []"
  by (simp add: blocks.simps)

lemma blocks_single: "s \<noteq> [] \<Longrightarrow> length s \<le> n \<Longrightarrow> blocks n s = [s]"
  by (subst blocks.simps) (cases n, auto)

section \<open>Reachable contexts\<close>

inductive cb_reachable :: "'s yajl_callbacks \<Rightarrow> 's \<Rightarrow> 's \<Rightarrow> bool" for cbs s0 where
  cb_start: "cb_reachable cbs s0 s0"
| cb_step: "cb_reachable cbs s0 s \<Longrightarrow> callback cbs e s = Some (r, s') \<Longrightarrow> cb_reachable cbs s0 s'"

lemma cb_reachable_trans: "cb_reachable cbs s1 s2 \<Longrightarrow> cb_reachable cbs s0 s1 \<Longrightarrow> cb_reachable cbs s0 s2"
  by (induction rule: cb_reachable.induct) (auto intro: cb_step)

lemma deliver_reachable: "deliver cbs es s = Some (acc, n, s') \<Longrightarrow> cb_reachable cbs s s'"
proof (induction es arbitrary: s acc n s')
  case Nil
  then show ?case by (simp add: cb_start)
next
  case (Cons e es)
  obtain r s1 where c: "callback cbs e s = Some (r, s1)" using Cons.prems by (auto split: option.splits)
  then have one: "cb_reachable cbs s s1" by (rule cb_step [OF cb_start])
  show ?case
  proof (cases "r = 0")
    case True
    then show ?thesis using Cons.prems c one by simp
  next
    case False
    then obtain n' where "deliver cbs es s1 = Some (acc, n', s')" using Cons.prems c by auto
    from Cons.IH [OF this] one show ?thesis by (rule cb_reachable_trans)
  qed
qed

lemma yajl_parse_reachable: "yajl_parse y cbs buf h s = Some (st, h', s') \<Longrightarrow> cb_reachable cbs s s'"
  by (auto simp: yajl_parse_def split: prod.splits if_splits dest: deliver_reachable)

lemma yajl_complete_parse_reachable: "yajl_complete_parse y cbs h s = Some (st, h', s') \<Longrightarrow> cb_reachable cbs s s'"
  by (auto simp: yajl_complete_parse_def split: prod.splits if_splits dest: deliver_reachable)

lemma deliver_append:
  "deliver cbs es s = Some (True, n, s') \<Longrightarrow>
   deliver cbs (es @ fs) s = map_option (\<lambda>(acc, m, s''). (acc, n + m, s'')) (deliver cbs fs s')"
proof (induction es arbitrary: s n)
  case Nil
  then show ?case by (cases "deliver cbs fs s'") auto
next
  case (Cons e es)
  obtain r s1 where c: "callback cbs e s = Some (r, s1)" using Cons.prems by (auto split: option.splits)
  obtain n' where n: "r \<noteq> 0" "n = Suc n'" "deliver cbs es s1 = Some (True, n', s')"
    using Cons.prems c by (auto split: if_splits)
  from Cons.IH [OF n(3)] show ?case using c n(1,2) by (cases "deliver cbs fs s'") auto
qed

text \<open>All events accepted.\<close>

definition accepts :: "'s yajl_callbacks \<Rightarrow> json_event list \<Rightarrow> 's \<Rightarrow> 's \<Rightarrow> bool" where
  "accepts cbs es s s' \<longleftrightarrow> deliver cbs es s = Some (True, length es, s')"

lemma accepts_Nil [simp]: "accepts cbs [] s s' \<longleftrightarrow> s' = s"
  by (auto simp: accepts_def)

lemma accepts_Cons:
  "callback cbs e s = Some (r, s1) \<Longrightarrow> r \<noteq> 0 \<Longrightarrow> accepts cbs es s1 s' \<Longrightarrow> accepts cbs (e # es) s s'"
  by (simp add: accepts_def)

lemma accepts_append: "accepts cbs es s s1 \<Longrightarrow> accepts cbs fs s1 s2 \<Longrightarrow> accepts cbs (es @ fs) s s2"
  by (simp add: accepts_def deliver_append)

lemma accepts_appendE:
  assumes "accepts cbs (es @ fs) s s2"
  obtains s1 where "accepts cbs es s s1" "accepts cbs fs s1 s2"
proof -
  have "\<exists>s1. accepts cbs es s s1 \<and> accepts cbs fs s1 s2"
    using assms
  proof (induction es arbitrary: s)
    case (Cons e es)
    obtain r s' where c: "callback cbs e s = Some (r, s')" "r \<noteq> 0" "accepts cbs (es @ fs) s' s2"
      using Cons.prems by (auto simp: accepts_def split: option.splits if_splits)
    then show ?case using Cons.IH [OF c(3)] by (auto intro: accepts_Cons [OF c(1,2)])
  qed auto
  then show thesis using that by blast
qed

text \<open>The events of a file that is well formed, block by block.\<close>

fun block_events :: "'h yajl \<Rightarrow> 'h \<Rightarrow> bytes list \<Rightarrow> (json_event list \<times> 'h) option" where
  "block_events y h [] = Some ([], h)"
| "block_events y h (b # bs) =
     (let (es, h', ok) = y_parse y h b in
      if ok then map_option (\<lambda>(fs, h''). (es @ fs, h'')) (block_events y h' bs) else None)"

lemma yajl_parse_accepts:
  "y_parse y h b = (es, h', True) \<Longrightarrow> accepts cbs es s s' \<Longrightarrow> yajl_parse y cbs b h s = Some (Yajl_Status_Ok, h', s')"
  by (simp add: yajl_parse_def accepts_def)

text \<open>A client with an invariant.\<close>

locale yajl_client =
  fixes cbs :: "'s yajl_callbacks" and inv :: "'s \<Rightarrow> bool"
  assumes callback_inv: "inv s \<Longrightarrow> callback cbs e s = Some (r, s') \<Longrightarrow> inv s'"
begin

lemma reachable_inv: "cb_reachable cbs s0 s \<Longrightarrow> inv s0 \<Longrightarrow> inv s"
  by (induction rule: cb_reachable.induct) (auto intro: callback_inv)

lemma deliver_inv: "deliver cbs es s = Some (acc, n, s') \<Longrightarrow> inv s \<Longrightarrow> inv s'"
  by (rule reachable_inv [OF deliver_reachable])

lemma parse_inv: "yajl_parse y cbs buf h s = Some (st, h', s') \<Longrightarrow> inv s \<Longrightarrow> inv s'"
  by (rule reachable_inv [OF yajl_parse_reachable])

lemma complete_parse_inv: "yajl_complete_parse y cbs h s = Some (st, h', s') \<Longrightarrow> inv s \<Longrightarrow> inv s'"
  by (rule reachable_inv [OF yajl_complete_parse_reachable])

end

end
