(* ===== verification/Read_File.thy ===== *)
theory Read_File
  imports Utils
begin

text \<open>
  Reading a file line by line (\<open>src/src/read_file.c\<close>): the loop over the reads with its buffer, its
  result codes, and the end of the child process that decompresses. How many bytes each \<open>read()\<close> gives
  is a parameter; the lemmas show that it does not matter.
\<close>

section \<open>Waiting for the child\<close>

datatype wait_result = Running | Exited int | No_Child | Wait_Error

text \<open>
  \<open>poll k\<close> is what the \<open>k\<close>-th \<open>waitpid()\<close> reports. The counter \<open>t_wait\<close> is tested but never counted
  down, so the loop ends only when the child does.
\<close>

partial_function (option) wait_loop :: "(nat \<Rightarrow> wait_result) \<Rightarrow> nat \<Rightarrow> nat \<Rightarrow> wait_result option" where
  "wait_loop poll t_wait k =
     (if poll k = Running \<and> 0 < t_wait then wait_loop poll t_wait (k + 1) else Some (poll k))"

text \<open>\<open>killed\<close>: what \<open>waitpid()\<close> reports after the child was killed.\<close>

definition read_file_close :: "(nat \<Rightarrow> wait_result) \<Rightarrow> wait_result \<Rightarrow> bool \<Rightarrow> int option" where
  "read_file_close poll killed child =
     (if \<not> child then Some 0
      else map_option (\<lambda>p. case (if p = Running then killed else p) of
          No_Child \<Rightarrow> 0
        | Wait_Error \<Rightarrow> -1
        | Exited status \<Rightarrow> if status \<noteq> 0 then -5 else 0
        | Running \<Rightarrow> -5) (wait_loop poll 250 0))"

lemma wait_loop_Running: "(\<And>k. poll k = Running) \<Longrightarrow> 0 < t \<Longrightarrow> wait_loop poll t k = None"
proof -
  assume p: "\<And>k. poll k = Running" and t: "0 < t"
  have "(\<forall>j. poll j = Running) \<longrightarrow> 0 < t \<longrightarrow> False" if "wait_loop poll t k = Some r" for r
    using that by (rule wait_loop.raw_induct [rotated]) (auto split: if_splits)
  then show ?thesis using p t by (cases "wait_loop poll t k") auto
qed

lemma wait_loop_done: "poll (k + n) \<noteq> Running \<Longrightarrow> (\<And>j. j < n \<Longrightarrow> poll (k + j) = Running) \<Longrightarrow> 0 < t \<Longrightarrow>
    wait_loop poll t k = Some (poll (k + n))"
proof (induction n arbitrary: k)
  case 0
  then show ?case by (subst wait_loop.simps) simp
next
  case (Suc n)
  have "poll k = Running" using Suc.prems(2) [of 0] by simp
  moreover have "wait_loop poll t (k + 1) = Some (poll (k + 1 + n))"
  proof (rule Suc.IH)
    show "poll (k + 1 + n) \<noteq> Running" using Suc.prems(1) by simp
    show "poll (k + 1 + j) = Running" if "j < n" for j using Suc.prems(2) [of "Suc j"] that by simp
  qed (use Suc.prems in simp)
  ultimately show ?case using Suc.prems(3) by (subst wait_loop.simps) simp
qed

section \<open>The lines of a file\<close>

abbreviation (input) MAX_FILE_LINE_LENGTH :: nat where "MAX_FILE_LINE_LENGTH \<equiv> 16384"

text \<open>
  The complete lines in the buffer go to the handler, which may end the process; what remains is moved
  to the front.
\<close>

lemma first_index_less: "first_index c s = Some i \<Longrightarrow> i < length s"
  by (drule first_index_Some) simp

function process_lines ::
  "(nat \<Rightarrow> bytes \<Rightarrow> 's \<Rightarrow> 's option) \<Rightarrow> nat \<Rightarrow> bytes \<Rightarrow> 's \<Rightarrow> (nat \<times> bytes \<times> 's) option" where
  "process_lines parse_line lineno buf s =
     (case first_index 10 buf of
        None \<Rightarrow> Some (lineno, buf, s)
      | Some i \<Rightarrow>
          (case parse_line (lineno + 1) (take i buf) s of
             None \<Rightarrow> None
           | Some s' \<Rightarrow> process_lines parse_line (lineno + 1) (drop (i + 1) buf) s'))"
  by pat_completeness auto
termination
  by (relation "measure (\<lambda>(p, l, b, s). length b)") (auto dest: first_index_less)

declare process_lines.simps [simp del]

lemma process_lines_shorter:
  "process_lines pl lineno buf s = Some (l', b', s') \<Longrightarrow>
   length b' \<le> length buf \<and> (first_index 10 buf \<noteq> None \<longrightarrow> length b' < length buf)"
proof (induction pl lineno buf s rule: process_lines.induct)
  case (1 pl lineno buf s)
  show ?case
  proof (cases "first_index 10 buf")
    case None
    then show ?thesis using "1.prems" by (subst (asm) process_lines.simps) simp
  next
    case (Some i)
    then obtain s1 where s1: "pl (lineno + 1) (take i buf) s = Some s1"
        "process_lines pl (lineno + 1) (drop (i + 1) buf) s1 = Some (l', b', s')"
      using "1.prems" by (subst (asm) process_lines.simps) (auto split: option.splits)
    from "1.IH" [OF Some s1] show ?thesis using first_index_less [OF Some] by auto
  qed
qed

text \<open>\<open>rd k\<close>: how much the \<open>k\<close>-th read offers, at least one byte unless the file ends; \<open>None\<close> fails.\<close>

definition read_chunk :: "nat \<Rightarrow> nat \<Rightarrow> bytes \<Rightarrow> bytes" where
  "read_chunk offered space rest = take (min space (max 1 offered)) rest"

lemma read_chunk_Nil: "0 < space \<Longrightarrow> read_chunk n space rest = [] \<longleftrightarrow> rest = []"
  by (auto simp: read_chunk_def)

lemma read_loop_decreases:
  assumes "process_lines pl l (buf @ read_chunk n sp rest) s = Some (l', b', s')"
    and "first_index 10 (buf @ read_chunk n sp rest) = None \<longrightarrow> read_chunk n sp rest \<noteq> []"
  shows "length b' + 2 * (length rest - length (read_chunk n sp rest)) < length buf + 2 * length rest"
proof -
  let ?m = "length (read_chunk n sp rest)"
  have m: "?m \<le> length rest" by (simp add: read_chunk_def)
  note p = process_lines_shorter [OF assms(1)]
  have "length b' \<le> length buf + ?m" "length b' < length buf + ?m \<or> 0 < ?m" using p assms(2) by auto
  then show ?thesis using m by linarith
qed

function read_loop ::
  "(nat \<Rightarrow> bytes \<Rightarrow> 's \<Rightarrow> 's option) \<Rightarrow> (nat \<Rightarrow> nat option) \<Rightarrow> nat \<Rightarrow> bytes \<Rightarrow> bytes \<Rightarrow> nat \<Rightarrow> 's \<Rightarrow> (int \<times> 's) option" where
  "read_loop parse_line rd k rest buf lineno s =
     (if MAX_FILE_LINE_LENGTH \<le> length buf then Some (-4, s)
      else case rd k of
        None \<Rightarrow> Some (-1, s)
      | Some n \<Rightarrow>
          let new = read_chunk n (MAX_FILE_LINE_LENGTH - length buf) rest; buf' = buf @ new;
              rest' = drop (length new) rest
          in if buf' = [] then Some (0, s)
             else if first_index 10 buf' = None \<and> new = [] then Some (-3, s)
             else case process_lines parse_line lineno buf' s of
                 None \<Rightarrow> None
               | Some (lineno', buf'', s') \<Rightarrow> read_loop parse_line rd (k + 1) rest' buf'' lineno' s')"
  by pat_completeness auto
termination
  by (relation "measure (\<lambda>(p, rd, k, rest, buf, l, s). length buf + 2 * length rest)")
    (auto intro!: read_loop_decreases)

declare read_loop.simps [simp del]

text \<open>The programs that decompress, by the end of the name.\<close>

definition ends_with :: "bytes \<Rightarrow> bytes \<Rightarrow> bool" where
  "ends_with sfx s \<longleftrightarrow> length sfx < length s \<and> drop (length s - length sfx) s = sfx"

datatype decompressor = Gunzip | Bunzip2 | Unxz

definition decompressor_of :: "bytes \<Rightarrow> decompressor option" where
  "decompressor_of filename =
     (if ends_with [46, 103, 122] filename then Some Gunzip
      else if ends_with [46, 98, 122, 50] filename then Some Bunzip2
      else if ends_with [46, 120, 122] filename then Some Unxz
      else None)"

text \<open>
  The file system gives the contents of a file that can be opened; the decompressor gives its output,
  and \<open>poll\<close> and \<open>killed\<close> its end. Only at the end of the file does the result of closing count.
\<close>

record read_env =
  re_open :: "bytes \<Rightarrow> bytes option"
  re_run :: "decompressor \<Rightarrow> bytes \<Rightarrow> bytes"
  re_reads :: "nat \<Rightarrow> nat option"
  re_poll :: "nat \<Rightarrow> wait_result"
  re_killed :: wait_result

definition read_file :: "read_env \<Rightarrow> (nat \<Rightarrow> bytes \<Rightarrow> 's \<Rightarrow> 's option) \<Rightarrow> bytes \<Rightarrow> 's \<Rightarrow> (int \<times> 's) option" where
  "read_file re parse_line filename s =
     (case re_open re filename of
        None \<Rightarrow> Some (-1, s)
      | Some content \<Rightarrow>
          let cmd = decompressor_of filename;
              content = (case cmd of None \<Rightarrow> content | Some d \<Rightarrow> re_run re d content)
          in case read_loop parse_line (re_reads re) 0 content [] 0 s of
               None \<Rightarrow> None
             | Some (code, s') \<Rightarrow>
                 map_option (\<lambda>err. (if code = 0 then err else code, s'))
                   (read_file_close (re_poll re) (re_killed re) (cmd \<noteq> None)))"

section \<open>The reads do not matter\<close>

text \<open>The lines of the contents, one after the other.\<close>

function read_spec :: "(nat \<Rightarrow> bytes \<Rightarrow> 's \<Rightarrow> 's option) \<Rightarrow> nat \<Rightarrow> bytes \<Rightarrow> 's \<Rightarrow> (int \<times> 's) option" where
  "read_spec parse_line lineno content s =
     (if content = [] then Some (0, s)
      else case first_index 10 content of
        None \<Rightarrow> Some (if length content < MAX_FILE_LINE_LENGTH then -3 else -4, s)
      | Some i \<Rightarrow>
          if MAX_FILE_LINE_LENGTH \<le> i then Some (-4, s)
          else case parse_line (lineno + 1) (take i content) s of
            None \<Rightarrow> None
          | Some s' \<Rightarrow> read_spec parse_line (lineno + 1) (drop (i + 1) content) s')"
  by pat_completeness auto
termination
  by (relation "measure (\<lambda>(p, l, c, s). length c)") (auto dest: first_index_less)

declare read_spec.simps [simp del]

lemma first_index_append1: "first_index c xs = Some i \<Longrightarrow> first_index c (xs @ ys) = Some i"
  by (auto simp: first_index_def split: if_splits)

lemma first_index_append2:
  "first_index c xs = None \<Longrightarrow> first_index c (xs @ ys) = map_option (\<lambda>i. length xs + i) (first_index c ys)"
proof -
  assume n: "first_index c xs = None"
  then have "takeWhile (\<lambda>b. b \<noteq> c) (xs @ ys) = xs @ takeWhile (\<lambda>b. b \<noteq> c) ys"
    by (subst takeWhile_append2) (auto simp: first_index_def split: if_splits)
  then show ?thesis using n by (auto simp: first_index_def split: if_splits)
qed

lemma process_lines_spec:
  "length buf \<le> MAX_FILE_LINE_LENGTH \<Longrightarrow>
   (case process_lines pl lineno buf s of
      None \<Rightarrow> read_spec pl lineno (buf @ rest) s = None
    | Some (l', b', s') \<Rightarrow> read_spec pl lineno (buf @ rest) s = read_spec pl l' (b' @ rest) s' \<and>
        first_index 10 b' = None \<and> length b' \<le> length buf \<and> (first_index 10 buf \<noteq> None \<longrightarrow> length b' < length buf))"
proof (induction pl lineno buf s rule: process_lines.induct)
  case (1 pl lineno buf s)
  show ?case
  proof (cases "first_index 10 buf")
    case None
    then show ?thesis by (subst process_lines.simps) simp
  next
    case (Some i)
    have i: "i < length buf" using first_index_less [OF Some] .
    have r: "read_spec pl lineno (buf @ rest) s =
        (case pl (lineno + 1) (take i buf) s of None \<Rightarrow> None
         | Some s' \<Rightarrow> read_spec pl (lineno + 1) (drop (i + 1) buf @ rest) s')"
      using i "1.prems" first_index_append1 [OF Some, of rest]
      by (subst read_spec.simps) (auto simp: Suc_leI split: option.split)
    show ?thesis
    proof (cases "pl (lineno + 1) (take i buf) s")
      case None
      then show ?thesis using Some r by (subst process_lines.simps) simp
    next
      case (Some s')
      note IH = "1.IH" [OF \<open>first_index 10 buf = Some i\<close> Some]
      have "length (drop (i + 1) buf) \<le> MAX_FILE_LINE_LENGTH" using "1.prems" by simp
      from IH [OF this] show ?thesis
        using Some \<open>first_index 10 buf = Some i\<close> r i
        by (subst process_lines.simps) (auto split: option.splits prod.splits)
    qed
  qed
qed

lemma read_loop_spec:
  assumes "\<And>k. rd k \<noteq> None" "first_index 10 buf = None" "length buf \<le> MAX_FILE_LINE_LENGTH"
  shows "read_loop pl rd k rest buf lineno s = read_spec pl lineno (buf @ rest) s"
  using assms
proof (induction pl rd k rest buf lineno s rule: read_loop.induct)
  case (1 pl rd k rest buf lineno s)
  obtain n where n: "rd k = Some n" using "1.prems"(1) [of k] by (cases "rd k") auto
  show ?case
  proof (cases "MAX_FILE_LINE_LENGTH \<le> length buf")
    case True
    then have e: "buf \<noteq> []" "length buf = MAX_FILE_LINE_LENGTH" using "1.prems"(3) by auto
    then show ?thesis
      using True first_index_append2 [OF "1.prems"(2), of rest]
      by (subst read_loop.simps, subst read_spec.simps) (auto split: option.splits)
  next
    case False
    let ?space = "MAX_FILE_LINE_LENGTH - length buf"
    let ?new = "read_chunk n ?space rest" let ?buf = "buf @ ?new" let ?rest = "drop (length ?new) rest"
    have sp: "0 < ?space" using False by simp
    have nl: "length ?new \<le> ?space" by (simp add: read_chunk_def)
    have all: "?buf @ ?rest = buf @ rest" by (simp add: read_chunk_def min_def)
    have bl: "length ?buf \<le> MAX_FILE_LINE_LENGTH" using nl False by simp
    show ?thesis
    proof (cases "?buf = [] \<or> first_index 10 ?buf = None \<and> ?new = []")
      case True
      then have "rest = []" "?new = []" using read_chunk_Nil [OF sp, of n rest] by auto
      then show ?thesis
        using n False "1.prems"(2) by (subst read_loop.simps, subst read_spec.simps) (auto simp: Let_def)
    next
      case more: False
      note ps = process_lines_spec [OF bl, where pl = pl and lineno = lineno and s = s and rest = ?rest]
      show ?thesis
      proof (cases "process_lines pl lineno ?buf s")
        case None
        then show ?thesis using n False more ps all by (subst read_loop.simps) (auto simp: Let_def)
      next
        case (Some r)
        obtain l' b' s' where r: "r = (l', b', s')" by (cases r)
        have b': "first_index 10 b' = None" "length b' \<le> MAX_FILE_LINE_LENGTH"
          "read_spec pl lineno (?buf @ ?rest) s = read_spec pl l' (b' @ ?rest) s'"
          using ps Some r bl by auto
        have "read_loop pl rd (k + 1) ?rest b' l' s' = read_spec pl l' (b' @ ?rest) s'"
          using "1.IH" [OF False n refl refl refl _ _ Some [unfolded r] refl refl "1.prems"(1) b'(1,2)] more by auto
        then show ?thesis using n False more Some r b'(3) all by (subst read_loop.simps) (auto simp: Let_def)
      qed
    qed
  qed
qed

text \<open>What a file gives: its lines, whatever the sizes of the reads.\<close>

lemma read_file_plain:
  assumes "re_open re filename = Some content" "decompressor_of filename = None" "\<And>k. re_reads re k \<noteq> None"
  shows "read_file re pl filename s = read_spec pl 0 content s"
proof -
  have "read_loop pl (re_reads re) 0 content [] 0 s = read_spec pl 0 content s"
    using read_loop_spec [of "re_reads re" "[]" pl 0 content 0 s] assms(3) by (simp add: first_index_def)
  then show ?thesis
    using assms(1,2) by (simp add: read_file_def read_file_close_def split: option.splits)
qed

text \<open>A list of lines without newlines and zero bytes that fit the buffer, as a file.\<close>

definition file_of :: "bytes list \<Rightarrow> bytes" where "file_of ls = concat (map (\<lambda>l. l @ [10]) ls)"

definition line_fits :: "bytes \<Rightarrow> bool" where "line_fits l \<longleftrightarrow> 10 \<notin> set l \<and> length l < MAX_FILE_LINE_LENGTH"

fun handle_lines :: "(nat \<Rightarrow> bytes \<Rightarrow> 's \<Rightarrow> 's option) \<Rightarrow> nat \<Rightarrow> bytes list \<Rightarrow> 's \<Rightarrow> 's option" where
  "handle_lines pl lineno [] s = Some s"
| "handle_lines pl lineno (l # ls) s =
     (case pl (lineno + 1) l s of None \<Rightarrow> None | Some s' \<Rightarrow> handle_lines pl (lineno + 1) ls s')"

lemma read_spec_lines:
  "\<forall>l \<in> set ls. line_fits l \<Longrightarrow> read_spec pl lineno (file_of ls) s = map_option (\<lambda>s'. (0, s')) (handle_lines pl lineno ls s)"
proof (induction ls arbitrary: lineno s)
  case Nil
  then show ?case by (simp add: file_of_def read_spec.simps)
next
  case (Cons l ls)
  have f: "file_of (l # ls) = l @ 10 # file_of ls" by (simp add: file_of_def)
  have "takeWhile (\<lambda>b. b \<noteq> 10) (l @ 10 # file_of ls) = l"
    using Cons.prems by (subst takeWhile_append2) (auto simp: line_fits_def)
  then have i: "first_index 10 (l @ 10 # file_of ls) = Some (length l)" by (simp add: first_index_def)
  show ?case
    using Cons i by (subst read_spec.simps) (auto simp: f line_fits_def split: option.splits)
qed

end
