(* ===== verification/Config.thy ===== *)
theory Config
  imports Read_File "HOL-Library.List_Lexorder"
begin

text \<open>
  The configuration file parser (\<open>src/src/config.c\<close>): one line, the include directive with files and
  directories, and the depth at which includes end the process. Files and directories are parameters.
  \<open>None\<close> is the end of the process (\<open>log_die\<close>, \<open>log_passert\<close> and \<open>exit\<close>).
\<close>

section \<open>A line\<close>

definition is_blank :: "u8 \<Rightarrow> bool" where "is_blank c \<longleftrightarrow> c = 32 \<or> c = 9"

definition keyword_char :: "u8 \<Rightarrow> bool" where
  "keyword_char c \<longleftrightarrow> (48 \<le> c \<and> c \<le> 57) \<or> (65 \<le> c \<and> c \<le> 90) \<or> (97 \<le> c \<and> c \<le> 122) \<or> c = 95"

datatype config_line = Empty_Line | Comment | Keyword_Missing | Config_Item bytes bytes

definition strip_trailing :: "bytes \<Rightarrow> bytes" where
  "strip_trailing s = rev (dropWhile is_blank (rev s))"

text \<open>The handler sees a C string: it ends at the first zero byte.\<close>

definition scan_config_line :: "bytes \<Rightarrow> config_line" where
  "scan_config_line buf =
     (let line = dropWhile is_blank (takeWhile (\<lambda>c. c \<noteq> 0) buf) in
      if line = [] then Empty_Line
      else if hd line = 35 \<or> hd line = 59 then Comment
      else let keyword = takeWhile keyword_char line; line = dropWhile keyword_char line in
        if keyword = [] \<or> line \<noteq> [] \<and> \<not> is_blank (hd line) then Keyword_Missing
        else Config_Item keyword (strip_trailing (dropWhile is_blank (drop 1 line))))"

section \<open>Includes\<close>

datatype file_kind = Regular | Directory "bytes list" | Other_Kind

text \<open>\<open>fs_stat\<close> gives the kind of an existing file, with the entries of a directory; \<open>fs_access\<close> whether it can be read.\<close>

record config_fs =
  fs_read :: read_env
  fs_access :: "bytes \<Rightarrow> bool"
  fs_stat :: "bytes \<Rightarrow> file_kind option"

definition key_include :: bytes where "key_include = [105, 110, 99, 108, 117, 100, 101]"
definition word_if_exist :: bytes where "word_if_exist = [105, 102, 95, 101, 120, 105, 115, 116]"

text \<open>The file of an include directive and whether it may be missing; \<open>None\<close> is a syntax error.\<close>

definition parse_include :: "bytes \<Rightarrow> (bytes \<times> bool) option" where
  "parse_include line =
     (case index_ws line of
        None \<Rightarrow> Some (line, False)
      | Some i \<Rightarrow> if dropWhile is_blank (drop (i + 1) line) = word_if_exist then Some (take i line, True) else None)"

definition include_path :: "bytes \<Rightarrow> bytes \<Rightarrow> bytes" where
  "include_path filename line =
     (if line \<noteq> [] \<and> hd line = 47 then line else create_relative_filepath filename line)"

text \<open>The entries of a directory that are read: names of letters, digits, \<open>_\<close> and \<open>-\<close>, in the order of \<open>strcmp\<close>.\<close>

definition file_ok :: "bytes \<Rightarrow> bool" where
  "file_ok name \<longleftrightarrow> (\<forall>c \<in> set name. keyword_char c \<or> c = 45)"

definition directory_files :: "bytes \<Rightarrow> bytes list \<Rightarrow> bytes list" where
  "directory_files newfile entries =
     (let dir = (if newfile = [] \<or> last newfile \<noteq> 47 then newfile @ [47] else newfile)
      in map (\<lambda>name. dir @ name) (sort (List.filter file_ok entries)))"

fun read_each :: "(bytes \<Rightarrow> 's \<Rightarrow> 's option) \<Rightarrow> bytes list \<Rightarrow> 's \<Rightarrow> 's option" where
  "read_each reader [] s = Some s"
| "read_each reader (f # fs) s = do { s \<leftarrow> reader f s; read_each reader fs s }"

text \<open>
  \<open>reader\<close> reads a file one include deeper; it is \<open>None\<close> when the maximal depth is reached.
\<close>

definition process_include ::
  "config_fs \<Rightarrow> (bytes \<Rightarrow> 's \<Rightarrow> 's option) option \<Rightarrow> bytes \<Rightarrow> bytes \<Rightarrow> 's \<Rightarrow> 's option" where
  "process_include fs reader filename line s =
     (case reader of
        None \<Rightarrow> None
      | Some rd \<Rightarrow>
        (case parse_include line of
           None \<Rightarrow> None
         | Some (file, if_exist) \<Rightarrow>
             let newfile = include_path filename file in
             if \<not> if_exist \<or> fs_access fs newfile then
               (case fs_stat fs newfile of
                  None \<Rightarrow> None
                | Some Regular \<Rightarrow> rd newfile s
                | Some (Directory entries) \<Rightarrow> read_each rd (directory_files newfile entries) s
                | Some Other_Kind \<Rightarrow> None)
             else Some s))"

text \<open>The handler of an item gets the file, the line, the keyword and the value; it says whether it knew the item.\<close>

type_synonym 's parse_item = "bytes \<Rightarrow> nat \<Rightarrow> bytes \<Rightarrow> bytes \<Rightarrow> 's \<Rightarrow> (bool \<times> 's) option"

definition config_parse_line ::
  "config_fs \<Rightarrow> 's parse_item \<Rightarrow> (bytes \<Rightarrow> 's \<Rightarrow> 's option) option \<Rightarrow> bytes \<Rightarrow> nat \<Rightarrow> bytes \<Rightarrow> 's \<Rightarrow> 's option" where
  "config_parse_line fs parse_item reader filename lineno buf s =
     (case scan_config_line buf of
        Empty_Line \<Rightarrow> Some s
      | Comment \<Rightarrow> Some s
      | Keyword_Missing \<Rightarrow> None
      | Config_Item keyword line \<Rightarrow>
          if keyword = key_include then process_include fs reader filename line s
          else (case parse_item filename lineno keyword line s of
              Some (True, s') \<Rightarrow> Some s'
            | _ \<Rightarrow> None))"

definition config_read_file ::
  "config_fs \<Rightarrow> 's parse_item \<Rightarrow> (bytes \<Rightarrow> 's \<Rightarrow> 's option) option \<Rightarrow> bytes \<Rightarrow> 's \<Rightarrow> 's option" where
  "config_read_file fs parse_item reader filename s =
     (case read_file (fs_read fs) (config_parse_line fs parse_item reader filename) filename s of
        None \<Rightarrow> None
      | Some (err, s') \<Rightarrow> if err < 0 then None else Some s')"

text \<open>
  The depth: an include is refused when the counter, which starts at zero, was above ten before it; so
  eleven levels are left at the top.
\<close>

primrec config_read_at :: "config_fs \<Rightarrow> 's parse_item \<Rightarrow> nat \<Rightarrow> bytes \<Rightarrow> 's \<Rightarrow> 's option" where
  "config_read_at fs parse_item 0 = config_read_file fs parse_item None"
| "config_read_at fs parse_item (Suc levels) =
     config_read_file fs parse_item (Some (config_read_at fs parse_item levels))"

definition config_read :: "config_fs \<Rightarrow> 's parse_item \<Rightarrow> bytes \<Rightarrow> 's \<Rightarrow> 's option" where
  "config_read fs parse_item filename s = config_read_at fs parse_item 11 filename s"

section \<open>Lines\<close>

lemma dropWhile_blanks: "\<forall>c \<in> set sp. is_blank c \<Longrightarrow> dropWhile is_blank (sp @ s) = dropWhile is_blank s"
  by (simp add: dropWhile_append2)

lemma keyword_not_blank: "keyword_char c \<Longrightarrow> \<not> is_blank c \<and> c \<noteq> 0 \<and> c \<noteq> 35 \<and> c \<noteq> 59"
  by (auto simp: keyword_char_def is_blank_def)

lemma blank_not_zero: "is_blank c \<Longrightarrow> c \<noteq> 0"
  by (auto simp: is_blank_def)

definition trimmed :: "bytes \<Rightarrow> bool" where
  "trimmed v \<longleftrightarrow> 0 \<notin> set v \<and> 10 \<notin> set v \<and> (v \<noteq> [] \<longrightarrow> \<not> is_blank (hd v) \<and> \<not> is_blank (last v))"

text \<open>Blanks around the keyword and the value are dropped, in the value they are kept.\<close>

lemma scan_item:
  assumes k: "k \<noteq> []" "\<forall>c \<in> set k. keyword_char c" and v: "trimmed v"
    and b: "\<forall>c \<in> set (b1 @ b2 @ b3). is_blank c" "b2 \<noteq> []"
  shows "scan_config_line (b1 @ k @ b2 @ v @ b3) = Config_Item k v"
proof -
  have nz: "\<forall>c \<in> set (b1 @ k @ b2 @ v @ b3). c \<noteq> 0"
    using k(2) v b(1) keyword_not_blank blank_not_zero by (auto simp: trimmed_def)
  then have all: "takeWhile (\<lambda>c. c \<noteq> 0) (b1 @ k @ b2 @ v @ b3) = b1 @ k @ b2 @ v @ b3"
    by (simp add: takeWhile_eq_all_conv)
  obtain c k' where c: "k = c # k'" using k(1) by (cases k) auto
  have kc: "\<not> is_blank c" "c \<noteq> 35" "c \<noteq> 59" using k(2) c keyword_not_blank [of c] by auto
  have l: "dropWhile is_blank (b1 @ k @ b2 @ v @ b3) = k @ b2 @ v @ b3"
    using b(1) kc(1) by (simp add: dropWhile_append2 c)
  obtain d b2' where d: "b2 = d # b2'" using b(2) by (cases b2) auto
  have db: "is_blank d" "\<not> keyword_char d" using b(1) d keyword_not_blank [of d] by auto
  have t: "takeWhile keyword_char (k @ b2 @ v @ b3) = k" "dropWhile keyword_char (k @ b2 @ v @ b3) = b2 @ v @ b3"
    using k(2) db(2) d by (simp_all add: takeWhile_append2 dropWhile_append2)
  have "strip_trailing (dropWhile is_blank (b2' @ v @ b3)) = v"
  proof (cases "v = []")
    case True
    have "\<forall>c \<in> set (b2' @ b3). is_blank c" using b(1) d by simp
    then have "dropWhile is_blank (b2' @ v @ b3) = []" using True by (simp only: dropWhile_eq_Nil_conv append_Nil)
    then have "strip_trailing (dropWhile is_blank (b2' @ v @ b3)) = []" by (simp only: strip_trailing_def) simp
    then show ?thesis using True by simp
  next
    case False
    then obtain e v' where e: "v = e # v'" by (cases v) auto
    have "dropWhile is_blank (b2' @ v @ b3) = v @ b3"
      using b(1) d v e by (simp add: dropWhile_append2 trimmed_def)
    moreover have "dropWhile is_blank (rev b3 @ rev v) = rev v"
    proof -
      obtain w x where w: "rev v = x # w" "x = last v" using False by (cases v rule: rev_cases) auto
      have "\<not> is_blank x" using v False w(2) by (simp add: trimmed_def)
      then have "dropWhile is_blank (rev v) = rev v" unfolding w(1) by simp
      moreover have "dropWhile is_blank (rev b3 @ rev v) = dropWhile is_blank (rev v)"
        using b(1) by (intro dropWhile_blanks) auto
      ultimately show ?thesis by (rule trans [rotated])
    qed
    ultimately show ?thesis by (simp add: strip_trailing_def)
  qed
  then show ?thesis
    using k(1) t db(1) kc d unfolding scan_config_line_def Let_def all l by (simp add: c)
qed

lemma scan_comment:
  assumes "\<forall>c \<in> set b. is_blank c" "c = 35 \<or> c = 59"
  shows "scan_config_line (b @ c # rest) = Comment"
proof -
  have "takeWhile (\<lambda>c. c \<noteq> 0) (b @ c # rest) = b @ c # takeWhile (\<lambda>c. c \<noteq> 0) rest"
    using assms by (subst takeWhile_append2) (auto simp: is_blank_def)
  moreover have "dropWhile is_blank (b @ c # r) = c # r" for r
    using assms by (subst dropWhile_append2) (auto simp: is_blank_def)
  ultimately show ?thesis using assms(2) by (auto simp: scan_config_line_def Let_def)
qed

section \<open>Includes end\<close>

text \<open>
  A file that includes itself before anything else ends the process at the maximal depth, whatever the
  sizes of the reads.
\<close>

lemma parse_include_plain:
  assumes "\<forall>c \<in> set f. \<not> is_blank c"
  shows "parse_include f = Some (f, False)"
proof -
  have "first_index 32 f = None" "first_index 9 f = None" using assms by (auto simp: first_index_def is_blank_def)
  then show ?thesis by (simp add: parse_include_def index_ws_def)
qed

lemma self_include_dies:
  assumes f: "hd f = 47" "f \<noteq> []" "\<forall>c \<in> set f. \<not> is_blank c \<and> c \<noteq> 0 \<and> c \<noteq> 10"
    and fit: "length f + 8 < MAX_FILE_LINE_LENGTH"
    and open_f: "re_open (fs_read fs) f = Some ((key_include @ [32] @ f @ [10]) @ rest)" "decompressor_of f = None"
    and reads: "\<And>k. re_reads (fs_read fs) k \<noteq> None" and st: "fs_stat fs f = Some Regular"
  shows "config_read_at fs item levels f s = None"
proof -
  let ?line = "key_include @ [32] @ f"
  have tr: "trimmed f" using f by (auto simp: trimmed_def is_blank_def)
  have kc: "\<forall>c \<in> set key_include. keyword_char c" "key_include \<noteq> []" by (simp_all add: key_include_def keyword_char_def)
  have scan: "scan_config_line ?line = Config_Item key_include f"
    using scan_item [OF kc(2,1) tr, of "[]" "[32]" "[]"] by (simp add: is_blank_def)
  have nl: "10 \<notin> set ?line" using f(3) by (auto simp: key_include_def)
  then have "takeWhile (\<lambda>b. b \<noteq> 10) (?line @ 10 # rest) = ?line" by (subst takeWhile_append2) auto
  then have i: "first_index 10 (?line @ 10 # rest) = Some (length ?line)" by (simp add: first_index_def)
  have content: "(key_include @ [32] @ f @ [10]) @ rest = ?line @ 10 # rest" by simp
  have len: "length ?line < MAX_FILE_LINE_LENGTH" using fit by (simp add: key_include_def)
  have dies: "config_read_file fs item reader f s = None"
    if "config_parse_line fs item reader f 1 ?line s = None" for reader s
  proof -
    have "read_spec (config_parse_line fs item reader f) 0 (?line @ 10 # rest) s = None"
      using i len that by (subst read_spec.simps) simp
    then show ?thesis
      using read_file_plain [OF open_f(1,2) reads, of "config_parse_line fs item reader f" s]
      unfolding content by (simp add: config_read_file_def)
  qed
  have inc: "include_path f f = f" using f(1,2) by (simp add: include_path_def)
  have pi: "parse_include f = Some (f, False)" using f(3) by (intro parse_include_plain) auto
  show ?thesis
  proof (induction levels arbitrary: s)
    case 0
    show ?case using scan by (simp add: dies config_parse_line_def process_include_def)
  next
    case (Suc levels)
    show ?case using scan Suc pi inc st by (simp add: dies config_parse_line_def process_include_def)
  qed
qed

section \<open>A file of items\<close>

definition item_line :: "bytes \<times> bytes \<Rightarrow> bytes" where "item_line kv = fst kv @ [32] @ snd kv"

definition item_ok :: "bytes \<times> bytes \<Rightarrow> bool" where
  "item_ok kv \<longleftrightarrow> fst kv \<noteq> [] \<and> fst kv \<noteq> key_include \<and> (\<forall>c \<in> set (fst kv). keyword_char c) \<and> trimmed (snd kv) \<and>
     length (fst kv) + length (snd kv) + 1 < MAX_FILE_LINE_LENGTH"

fun handle_items :: "'s parse_item \<Rightarrow> bytes \<Rightarrow> nat \<Rightarrow> (bytes \<times> bytes) list \<Rightarrow> 's \<Rightarrow> 's option" where
  "handle_items item filename lineno [] s = Some s"
| "handle_items item filename lineno ((k, v) # kvs) s =
     (case item filename (lineno + 1) k v s of
        Some (True, s') \<Rightarrow> handle_items item filename (lineno + 1) kvs s'
      | _ \<Rightarrow> None)"

lemma item_line_fits: "item_ok kv \<Longrightarrow> line_fits (item_line kv)"
proof -
  assume ok: "item_ok kv"
  then have "\<And>c. c \<in> set (fst kv) \<Longrightarrow> c \<noteq> 10" by (auto simp: item_ok_def keyword_char_def)
  then show ?thesis using ok by (auto simp: item_ok_def line_fits_def item_line_def trimmed_def)
qed

lemma handle_lines_items:
  "\<forall>kv \<in> set kvs. item_ok kv \<Longrightarrow>
   handle_lines (config_parse_line fs item reader filename) lineno (map item_line kvs) s = handle_items item filename lineno kvs s"
proof (induction kvs arbitrary: lineno s)
  case (Cons kv kvs)
  obtain k v where kv: "kv = (k, v)" by (cases kv)
  have ok: "k \<noteq> []" "k \<noteq> key_include" "\<forall>c \<in> set k. keyword_char c" "trimmed v"
    using Cons.prems kv by (auto simp: item_ok_def)
  have "scan_config_line (item_line kv) = Config_Item k v"
    using scan_item [OF ok(1,3,4), of "[]" "[32]" "[]"] by (simp add: item_line_def kv is_blank_def)
  then show ?case
    using Cons ok(2) by (auto simp: kv config_parse_line_def split: option.splits prod.splits bool.splits)
qed simp

text \<open>Reading a file that holds a list of items handles them one after the other, at every depth.\<close>

lemma config_read_file_items:
  assumes "re_open (fs_read fs) filename = Some (file_of (map item_line kvs))" "decompressor_of filename = None"
    and "\<And>k. re_reads (fs_read fs) k \<noteq> None" "\<forall>kv \<in> set kvs. item_ok kv"
  shows "config_read_file fs item reader filename s = handle_items item filename 0 kvs s"
proof -
  have fits: "\<forall>l \<in> set (map item_line kvs). line_fits l" using assms(4) item_line_fits by auto
  show ?thesis
    using read_file_plain [OF assms(1-3), of "config_parse_line fs item reader filename" s]
      read_spec_lines [OF fits, of "config_parse_line fs item reader filename" 0 s]
      handle_lines_items [OF assms(4), of fs item reader filename 0 s]
    by (simp add: config_read_file_def split: option.splits)
qed

lemma config_read_items:
  assumes "re_open (fs_read fs) filename = Some (file_of (map item_line kvs))" "decompressor_of filename = None"
    and "\<And>k. re_reads (fs_read fs) k \<noteq> None" "\<forall>kv \<in> set kvs. item_ok kv"
  shows "config_read fs item filename s = handle_items item filename 0 kvs s"
  using config_read_file_items [OF assms] by (simp add: config_read_def eval_nat_numeral)

section \<open>The depth of includes\<close>

text \<open>A regular file with an absolute name that an include can hold.\<close>

definition includable :: "config_fs \<Rightarrow> bytes \<Rightarrow> bool" where
  "includable fs f \<longleftrightarrow> f \<noteq> [] \<and> hd f = 47 \<and> (\<forall>c \<in> set f. \<not> is_blank c \<and> c \<noteq> 0 \<and> c \<noteq> 10) \<and>
     length f + 8 < MAX_FILE_LINE_LENGTH \<and> decompressor_of f = None \<and> fs_stat fs f = Some Regular"

definition include_line :: "bytes \<Rightarrow> bytes" where "include_line f = key_include @ [32] @ f"

text \<open>Files that include one another in a row; the last one holds items.\<close>

fun include_chain :: "config_fs \<Rightarrow> bytes list \<Rightarrow> (bytes \<times> bytes) list \<Rightarrow> bool" where
  "include_chain fs [] kvs = False"
| "include_chain fs [f] kvs \<longleftrightarrow> includable fs f \<and> re_open (fs_read fs) f = Some (file_of (map item_line kvs)) \<and>
     (\<forall>kv \<in> set kvs. item_ok kv)"
| "include_chain fs (f # g # files) kvs \<longleftrightarrow> includable fs f \<and>
     re_open (fs_read fs) f = Some (file_of [include_line g]) \<and> include_chain fs (g # files) kvs"

lemma include_chain_hd: "include_chain fs (f # files) kvs \<Longrightarrow> includable fs f"
  by (cases files) auto

lemma include_line_scan:
  assumes "includable fs g"
  shows "scan_config_line (include_line g) = Config_Item key_include g" "line_fits (include_line g)"
    "parse_include g = Some (g, False)" "include_path f g = g"
proof -
  have tr: "trimmed g" using assms by (auto simp: includable_def trimmed_def is_blank_def)
  have kc: "\<forall>c \<in> set key_include. keyword_char c" "key_include \<noteq> []" by (simp_all add: key_include_def keyword_char_def)
  show "scan_config_line (include_line g) = Config_Item key_include g"
    using scan_item [OF kc(2,1) tr, of "[]" "[32]" "[]"] by (simp add: is_blank_def include_line_def)
  show "line_fits (include_line g)"
    using assms by (auto simp: includable_def line_fits_def include_line_def key_include_def)
  show "parse_include g = Some (g, False)" using assms by (intro parse_include_plain) (auto simp: includable_def)
  show "include_path f g = g" using assms by (simp add: includable_def include_path_def)
qed

text \<open>One include: the file behind it is read one level deeper, if there is one.\<close>

lemma config_read_file_include:
  assumes "re_open (fs_read fs) f = Some (file_of [include_line g])" "decompressor_of f = None"
    and "\<And>k. re_reads (fs_read fs) k \<noteq> None" "includable fs g"
  shows "config_read_file fs item reader f s = (case reader of None \<Rightarrow> None | Some rd \<Rightarrow> rd g s)"
proof -
  note l = include_line_scan [OF assms(4)]
  have fits: "\<forall>l \<in> set [include_line g]. line_fits l" using l(2) by simp
  have "config_parse_line fs item reader f 1 (include_line g) s = (case reader of None \<Rightarrow> None | Some rd \<Rightarrow> rd g s)"
    using l(1,3,4) assms(4) by (simp add: config_parse_line_def process_include_def includable_def split: option.splits)
  then show ?thesis
    using read_file_plain [OF assms(1-3), of "config_parse_line fs item reader f" s]
      read_spec_lines [OF fits, of "config_parse_line fs item reader f" 0 s]
    by (simp add: config_read_file_def split: option.splits)
qed

lemma config_read_at_chain:
  assumes "include_chain fs files kvs" "\<And>k. re_reads (fs_read fs) k \<noteq> None"
  shows "config_read_at fs item levels (hd files) s =
    (if length files \<le> Suc levels then handle_items item (last files) 0 kvs s else None)"
  using assms(1)
proof (induction files arbitrary: levels rule: induct_list012)
  case (2 f)
  have r: "re_open (fs_read fs) f = Some (file_of (map item_line kvs))" "decompressor_of f = None" "\<forall>kv \<in> set kvs. item_ok kv"
    using 2 by (simp_all add: includable_def)
  show ?case using config_read_file_items [OF r(1,2) assms(2) r(3)] by (cases levels) simp_all
next
  case (3 f g files)
  have r: "re_open (fs_read fs) f = Some (file_of [include_line g])" "decompressor_of f = None" "includable fs g"
    using 3(3) include_chain_hd [of fs g files kvs] by (simp_all add: includable_def)
  note inc = config_read_file_include [OF r(1,2) assms(2) r(3)]
  show ?case
  proof (cases levels)
    case 0
    then show ?thesis by (simp add: inc)
  next
    case (Suc n)
    then show ?thesis using 3(2) [of n] 3(3) by (simp add: inc)
  qed
qed simp

end
