(* ===== verification/Gather_Config.thy ===== *)
theory Gather_Config
  imports Config
begin

text \<open>
  The configuration of the collector (\<open>src/src/honas_gather_config.c\<close>): its fields, the handler of the
  items, the final check and the release of the strings.
\<close>

section \<open>The configuration\<close>

record honas_gather_config =
  bloomfilter_path :: "bytes option"
  subnet_activity_path :: "bytes option"
  period_length :: u32
  cfg_number_of_filters :: u32
  cfg_number_of_bits_per_filter :: u32
  cfg_number_of_hashes :: u32
  cfg_number_of_filters_per_user :: u32
  cfg_flatten_threshold :: u32

definition honas_gather_config_init :: honas_gather_config where
  "honas_gather_config_init = \<lparr>bloomfilter_path = None, subnet_activity_path = None, period_length = 0,
     cfg_number_of_filters = 0, cfg_number_of_bits_per_filter = 0, cfg_number_of_hashes = 0,
     cfg_number_of_filters_per_user = 0, cfg_flatten_threshold = 0\<rparr>"

text \<open>The values; a number that cannot be read ends the process.\<close>

definition string_value :: "bytes \<Rightarrow> bytes" where "string_value value = value"

definition uint32_value :: "bytes \<Rightarrow> u32 option" where
  "uint32_value value = map_option fst (my_strtouint32 value False 10)"

definition to_bytes :: "string \<Rightarrow> bytes" where "to_bytes s = map of_char s"

definition config_path :: "(bytes \<Rightarrow> honas_gather_config) \<Rightarrow> bytes \<Rightarrow> (bool \<times> honas_gather_config) option" where
  "config_path assign value = (let v = string_value value in if length v > 0 then Some (True, assign v) else None)"

definition config_number :: "(u32 \<Rightarrow> honas_gather_config) \<Rightarrow> bytes \<Rightarrow> (bool \<times> honas_gather_config) option" where
  "config_number assign value =
     (case uint32_value value of None \<Rightarrow> None | Some v \<Rightarrow> if v > 0 then Some (True, assign v) else None)"

text \<open>The keywords are different, so at most one of the eight blocks of the code applies.\<close>

definition honas_gather_config_parse_item :: "honas_gather_config parse_item" where
  "honas_gather_config_parse_item filename lineno keyword value config =
     (if keyword = to_bytes ''bloomfilter_path'' then
        config_path (\<lambda>v. config\<lparr>bloomfilter_path := Some v\<rparr>) value
      else if keyword = to_bytes ''subnet_activity_path'' then
        config_path (\<lambda>v. config\<lparr>subnet_activity_path := Some v\<rparr>) value
      else if keyword = to_bytes ''period_length'' then
        config_number (\<lambda>v. config\<lparr>period_length := v\<rparr>) value
      else if keyword = to_bytes ''number_of_filters'' then
        config_number (\<lambda>v. config\<lparr>cfg_number_of_filters := v\<rparr>) value
      else if keyword = to_bytes ''number_of_bits_per_filter'' then
        config_number (\<lambda>v. config\<lparr>cfg_number_of_bits_per_filter := v\<rparr>) value
      else if keyword = to_bytes ''number_of_hashes'' then
        config_number (\<lambda>v. config\<lparr>cfg_number_of_hashes := v\<rparr>) value
      else if keyword = to_bytes ''number_of_filters_per_user'' then
        config_number (\<lambda>v. config\<lparr>cfg_number_of_filters_per_user := v\<rparr>) value
      else if keyword = to_bytes ''flatten_threshold'' then
        config_number (\<lambda>v. config\<lparr>cfg_flatten_threshold := v\<rparr>) value
      else Some (False, config))"

definition honas_gather_config_finalize :: "honas_gather_config \<Rightarrow> honas_gather_config option" where
  "honas_gather_config_finalize config =
     (if bloomfilter_path config = None \<or> period_length config = 0 \<or> cfg_number_of_filters config = 0 \<or>
         cfg_number_of_bits_per_filter config = 0 \<or> cfg_number_of_hashes config = 0 \<or>
         cfg_number_of_filters_per_user config = 0
      then None else Some config)"

definition honas_gather_config_destroy :: "honas_gather_config \<Rightarrow> honas_gather_config" where
  "honas_gather_config_destroy config = config\<lparr>bloomfilter_path := None, subnet_activity_path := None\<rparr>"

section \<open>Writing a configuration and reading it back\<close>

definition config_valid :: "honas_gather_config \<Rightarrow> bool" where
  "config_valid c \<longleftrightarrow>
     (\<exists>p. bloomfilter_path c = Some p \<and> p \<noteq> [] \<and> trimmed p \<and> length p < 16000) \<and>
     (\<exists>p. subnet_activity_path c = Some p \<and> p \<noteq> [] \<and> trimmed p \<and> length p < 16000) \<and>
     0 < period_length c \<and> 0 < cfg_number_of_filters c \<and> 0 < cfg_number_of_bits_per_filter c \<and>
     0 < cfg_number_of_hashes c \<and> 0 < cfg_number_of_filters_per_user c \<and> 0 < cfg_flatten_threshold c"

definition number_text :: "u32 \<Rightarrow> bytes" where "number_text w = dec_digits (unat w)"

definition config_items :: "honas_gather_config \<Rightarrow> (bytes \<times> bytes) list" where
  "config_items c =
     [(to_bytes ''bloomfilter_path'', the (bloomfilter_path c)),
      (to_bytes ''subnet_activity_path'', the (subnet_activity_path c)),
      (to_bytes ''period_length'', number_text (period_length c)),
      (to_bytes ''number_of_filters'', number_text (cfg_number_of_filters c)),
      (to_bytes ''number_of_bits_per_filter'', number_text (cfg_number_of_bits_per_filter c)),
      (to_bytes ''number_of_hashes'', number_text (cfg_number_of_hashes c)),
      (to_bytes ''number_of_filters_per_user'', number_text (cfg_number_of_filters_per_user c)),
      (to_bytes ''flatten_threshold'', number_text (cfg_flatten_threshold c))]"

lemma uint32_value_number_text [simp]: "uint32_value (number_text w) = Some w"
  using my_strtouint32_dec_digits [of "unat w" False] unat_u32_less [of w]
  by (simp add: uint32_value_def number_text_def)

lemma number_text_ok: "trimmed (number_text w) \<and> length (number_text w) < 20"
proof -
  have "unat w < 4294967296" by (rule unat_u32_less)
  moreover have "(10 :: nat) ^ Suc 9 = 10000000000" by simp
  ultimately have "unat w < 10 ^ Suc 9" by linarith
  from length_dec_digits [OF this] have l: "length (number_text w) < 20" by (simp add: number_text_def)
  have d: "\<not> is_blank c \<and> c \<noteq> 0 \<and> c \<noteq> 10" if "c \<in> set (number_text w)" for c
    using dec_digits_digits [of "unat w"] that is_digit_10 [of c] by (auto simp: number_text_def is_blank_def)
  then have "trimmed (number_text w)" by (auto simp: trimmed_def)
  then show ?thesis using l by simp
qed

lemma config_items_ok:
  assumes "config_valid c"
  shows "\<forall>kv \<in> set (config_items c). item_ok kv"
proof -
  have n: "item_ok (k, number_text w)"
    if "k \<noteq> []" "k \<noteq> key_include" "\<forall>c \<in> set k. keyword_char c" "length k < 1000" for k w
    using number_text_ok [of w] that by (simp add: item_ok_def)
  have p: "item_ok (k, p)"
    if "k \<noteq> []" "k \<noteq> key_include" "\<forall>c \<in> set k. keyword_char c" "length k < 100" "trimmed p" "length p < 16000" for k p
    using that by (simp add: item_ok_def)
  show ?thesis
    using assms
    by (auto simp: config_items_def config_valid_def to_bytes_def key_include_def keyword_char_def intro!: n p)
qed

text \<open>All fields are set, so it does not matter what they were before.\<close>

lemma handle_config_items:
  assumes "config_valid c"
  shows "handle_items honas_gather_config_parse_item filename lineno (config_items c) old = Some c"
  using assms
  by (cases c; cases old)
    (auto simp: config_items_def config_valid_def honas_gather_config_parse_item_def to_bytes_def config_path_def
      config_number_def string_value_def)

lemma config_valid_finalize: "config_valid c \<Longrightarrow> honas_gather_config_finalize c = Some c"
  by (auto simp: config_valid_def honas_gather_config_finalize_def word_neq_0_conv)

text \<open>What the final check accepts is completely set, whatever was read.\<close>

lemma finalize_Some:
  "honas_gather_config_finalize c = Some c' \<Longrightarrow>
   c' = c \<and> (\<exists>p. bloomfilter_path c = Some p) \<and> 0 < period_length c \<and> 0 < cfg_number_of_filters c \<and>
   0 < cfg_number_of_bits_per_filter c \<and> 0 < cfg_number_of_hashes c \<and> 0 < cfg_number_of_filters_per_user c"
  by (auto simp: honas_gather_config_finalize_def word_neq_0_conv split: if_splits)

end
