(* ===== verification/Examples.thy ===== *)
theory Examples
  imports State_Combine Json_Events Gather_Config
begin

text \<open>
  A small state, a hash function, a lookup, a parser with one block and a configuration, on which the properties are applied.
\<close>

definition ex_hash :: "bytes \<Rightarrow> bytes" where
  "ex_hash d = replicate 31 0 @ [of_nat (length d)]"

definition ex_lookup :: "nat \<Rightarrow> registration" where
  "ex_lookup qtype = \<lparr>reg_time = 1000, reg_client = Addr4 [192, 0, 2, 1],
     reg_host = [119, 119, 119, 46, 88, 46, 110, 108, 46], reg_entity = Some [97, 99], reg_qtype = qtype\<rparr>"

lemma ex_hash_sha: "\<forall>d. sha_hash (ex_hash d)"
  by (simp add: ex_hash_def sha_hash_def)

lemma ex_lookup_ok: "registration_ok (ex_lookup qtype)" "client_hash (reg_client (ex_lookup qtype)) \<noteq> None"
    "name_ok (reg_host (ex_lookup qtype)) [119, 119, 119, 46, 120, 46, 110, 108]"
    "entity_ok (reg_entity (ex_lookup qtype))"
  by (auto simp: registration_ok_def ex_lookup_def client_hash_def entity_ok_def name_ok_def canonical_host_name_def
      tolower_def split: if_splits)

lemma ex_layout: "layout_fits 3 64"
  by (simp add: layout_fits_def created_size_def pages_def)

lemma ex_state:
  assumes "0 < hashes"
  shows "\<exists>st. honas_state_create True True 3 64 hashes 2 1 = Some (0, Some st) \<and> created_state 3 64 st \<and> state_ok st \<and>
    combinations_ok st \<and> hlls_usable st \<and> header st = new_header 3 64 hashes 2 1"
proof -
  obtain st where st: "honas_state_create True True 3 64 hashes 2 1 = Some (0, Some st)" "created_state 3 64 st"
    "state_ok st" "header st = new_header 3 64 hashes 2 1"
    using create_ok [OF ex_layout assms, of 2 1] by auto
  have "3 choose 2 = (3 :: nat)" by (simp add: numeral_eq_Suc)
  then have "combinations_ok st" using st(4) by (intro created_combinations [OF st(2)]) simp_all
  moreover have "hlls_usable st" using st(3) by (intro state_ok_usable [OF st(2)]) (simp add: state_ok_def)
  ultimately show ?thesis using st by blast
qed

text \<open>A parser that gives the same events for the first block of every file.\<close>

definition ex_yajl :: "json_event list \<Rightarrow> nat yajl" where
  "ex_yajl es = \<lparr>y_alloc = Some 0, y_parse = (\<lambda>h b. (if h = 0 then es else [], 1, True)), y_canceled = (\<lambda>h b n. 2),
     y_complete = (\<lambda>h. ([], h, True))\<rparr>"

lemma ex_yajl_events: "block_events (ex_yajl es) 0 (blocks 65536 [32]) = Some (es, 1)"
  by (simp add: blocks_single ex_yajl_def)

lemma ex_yajl_simps [simp]: "y_alloc (ex_yajl es) = Some 0" "y_complete (ex_yajl es) h = ([], h, True)"
  by (simp_all add: ex_yajl_def)

text \<open>A configuration and a file system on which every file holds it.\<close>

definition ex_config :: honas_gather_config where
  "ex_config = \<lparr>bloomfilter_path = Some [47, 98], subnet_activity_path = Some [47, 115], period_length = 3600,
     cfg_number_of_filters = 3, cfg_number_of_bits_per_filter = 64, cfg_number_of_hashes = 2,
     cfg_number_of_filters_per_user = 2, cfg_flatten_threshold = 1\<rparr>"

definition ex_fs :: config_fs where
  "ex_fs = \<lparr>fs_read = \<lparr>re_open = (\<lambda>_. Some (file_of (map item_line (config_items ex_config)))), re_run = (\<lambda>_ b. b),
     re_reads = (\<lambda>_. Some 100), re_poll = (\<lambda>_. Exited 0), re_killed = Exited 0\<rparr>, fs_access = (\<lambda>_. True), fs_stat = (\<lambda>_. Some Regular)\<rparr>"

lemma ex_config_valid: "config_valid ex_config"
  by (simp add: config_valid_def ex_config_def trimmed_def is_blank_def)

lemma ex_config_read: "config_read ex_fs honas_gather_config_parse_item [47, 99] old = Some ex_config"
proof -
  have "config_read ex_fs honas_gather_config_parse_item [47, 99] old =
      handle_items honas_gather_config_parse_item [47, 99] 0 (config_items ex_config) old"
    by (rule config_read_items) (simp_all add: ex_fs_def config_items_ok [OF ex_config_valid] decompressor_of_def ends_with_def)
  then show ?thesis using handle_config_items [OF ex_config_valid] by simp
qed

end
