(* ===== verification/Getopt.thy ===== *)
theory Getopt
  imports Honas_Base
begin

text \<open>
  How the programs read their command lines: \<open>getopt_long\<close> of the C library with its default order, in
  which arguments that are no options are moved behind the options, and the loop over its results that
  all programs share. The library prints a message of its own for an unknown option; it is left out.
\<close>

section \<open>The options of a command line\<close>

text \<open>A result of \<open>getopt_long\<close>: the letter of an option with its argument, or the question mark.\<close>

datatype getopt_item = Opt char "string option" | Unknown

text \<open>A long option: its name, whether it has an argument, its letter.\<close>

type_synonym long_option = "string \<times> bool \<times> char"

text \<open>The string of the short options: a colon behind a letter means that it has an argument.\<close>

fun short_options :: "string \<Rightarrow> (char \<times> bool) list" where
  "short_options [] = []"
| "short_options [c] = [(c, False)]"
| "short_options (c # d # s) =
     (if d = CHR '':'' then (c, True) # short_options s else (c, False) # short_options (d # s))"

text \<open>The name itself, or the only one that begins with what is given.\<close>

definition starts_with :: "string \<Rightarrow> string \<Rightarrow> bool" where
  "starts_with name prefix \<longleftrightarrow> take (length prefix) name = prefix"

definition find_long :: "long_option list \<Rightarrow> string \<Rightarrow> long_option option" where
  "find_long longs given =
     (case filter (\<lambda>(name, _). name = given) longs of
        l # _ \<Rightarrow> Some l
      | [] \<Rightarrow> (case filter (\<lambda>(name, _). starts_with name given) longs of [l] \<Rightarrow> Some l | _ \<Rightarrow> None))"

text \<open>An option with an argument that is not part of its own word takes the next word.\<close>

definition take_argument :: "char \<Rightarrow> string list \<Rightarrow> getopt_item \<times> string list" where
  "take_argument c args = (case args of [] \<Rightarrow> (Unknown, []) | a # args \<Rightarrow> (Opt c (Some a), args))"

fun short_word :: "(char \<times> bool) list \<Rightarrow> string \<Rightarrow> string list \<Rightarrow> getopt_item list \<times> string list" where
  "short_word shorts [] args = ([], args)"
| "short_word shorts (c # cs) args =
     (case map_of shorts c of
        Some True \<Rightarrow>
          if cs \<noteq> [] then ([Opt c (Some cs)], args)
          else (case take_argument c args of (i, args) \<Rightarrow> ([i], args))
      | r \<Rightarrow> (case short_word shorts cs args of
          (items, args) \<Rightarrow> ((if r = None then Unknown else Opt c None) # items, args)))"

definition long_word :: "long_option list \<Rightarrow> string \<Rightarrow> string list \<Rightarrow> getopt_item \<times> string list" where
  "long_word longs word args =
     (let given = takeWhile (\<lambda>c. c \<noteq> CHR ''='') word; rest = dropWhile (\<lambda>c. c \<noteq> CHR ''='') word
      in case find_long longs given of
           None \<Rightarrow> (Unknown, args)
         | Some (_, True, c) \<Rightarrow> if rest \<noteq> [] then (Opt c (Some (tl rest)), args) else take_argument c args
         | Some (_, False, c) \<Rightarrow> (if rest \<noteq> [] then Unknown else Opt c None, args))"

lemma take_argument_shorter: "take_argument c args = (i, rest) \<Longrightarrow> length rest \<le> length args"
  by (auto simp: take_argument_def split: list.splits)

lemma short_word_shorter: "short_word shorts cs args = (items, rest) \<Longrightarrow> length rest \<le> length args"
  by (induction shorts cs args arbitrary: items rest rule: short_word.induct)
    (auto split: option.splits bool.splits if_splits prod.splits dest: take_argument_shorter)

lemma long_word_shorter: "long_word longs word args = (i, rest) \<Longrightarrow> length rest \<le> length args"
  by (auto simp: long_word_def Let_def split: option.splits prod.splits bool.splits if_splits dest: take_argument_shorter)

text \<open>The results up to the end of the options, and the remaining arguments.\<close>

function getopt_long ::
  "(char \<times> bool) list \<Rightarrow> long_option list \<Rightarrow> string list \<Rightarrow> getopt_item list \<times> string list" where
  "getopt_long shorts longs [] = ([], [])"
| "getopt_long shorts longs (word # args) =
     (if word = ''--'' then ([], args)
      else if take 2 word = ''--'' then
        (case long_word longs (drop 2 word) args of
           (i, rest) \<Rightarrow> (case getopt_long shorts longs rest of (items, operands) \<Rightarrow> (i # items, operands)))
      else if take 1 word = ''-'' \<and> word \<noteq> ''-'' then
        (case short_word shorts (tl word) args of
           (here, rest) \<Rightarrow> (case getopt_long shorts longs rest of (items, operands) \<Rightarrow> (here @ items, operands)))
      else (case getopt_long shorts longs args of (items, operands) \<Rightarrow> (items, word # operands)))"
  by pat_completeness auto
termination
  by (relation "measure (\<lambda>(_, _, args). length args)")
    (auto dest!: long_word_shorter [OF sym] short_word_shorter [OF sym])

text \<open>Words that do not begin with a hyphen are all operands.\<close>

lemma getopt_long_operands:
  assumes "\<forall>a \<in> set args. take 1 a \<noteq> ''-''"
  shows "getopt_long shorts longs args = ([], args)"
  using assms
proof (induction args)
  case (Cons a args)
  have "take 1 a = take 1 (take 2 a)" by simp
  then have "take 2 a \<noteq> ''--''" "take 1 a \<noteq> ''-''" "a \<noteq> ''--''" using Cons.prems by fastforce+
  then show ?case using Cons by simp
qed simp

lemma getopt_long_after_end: "getopt_long shorts longs (''--'' # args) = ([], args)"
  by simp

text \<open>No argument gets lost or comes from nowhere.\<close>

lemma take_argument_subset: "take_argument c args = (i, rest) \<Longrightarrow> set rest \<subseteq> set args"
  by (auto simp: take_argument_def split: list.splits)

lemma short_word_subset: "short_word shorts cs args = (items, rest) \<Longrightarrow> set rest \<subseteq> set args"
  by (induction shorts cs args arbitrary: items rest rule: short_word.induct)
    (fastforce split: option.splits bool.splits if_splits prod.splits dest: take_argument_subset)+

lemma long_word_subset: "long_word longs word args = (i, rest) \<Longrightarrow> set rest \<subseteq> set args"
  by (auto simp: long_word_def Let_def split: option.splits prod.splits bool.splits if_splits dest!: take_argument_subset)

lemma getopt_long_subset: "getopt_long shorts longs args = (items, operands) \<Longrightarrow> set operands \<subseteq> set args"
proof (induction shorts longs args arbitrary: items operands rule: getopt_long.induct)
  case (2 shorts longs word args)
  show ?case
  proof (cases "take 2 word = ''--''")
    case True
    then show ?thesis using 2(1,4)
      by (fastforce split: if_splits prod.splits dest: long_word_subset)
  next
    case False
    then show ?thesis using 2(2,3,4)
      by (fastforce split: if_splits prod.splits dest: short_word_subset)
  qed
qed simp

section \<open>The loop over the options\<close>

text \<open>Each option changes the settings, or \<open>main\<close> returns with a code.\<close>

datatype 's step = Continue 's | Return int 's

fun option_loop :: "(getopt_item \<Rightarrow> 's \<Rightarrow> 's step option) \<Rightarrow> getopt_item list \<Rightarrow> 's \<Rightarrow> 's step option" where
  "option_loop handle [] s = Some (Continue s)"
| "option_loop handle (i # items) s =
     (case handle i s of
        Some (Continue s') \<Rightarrow> option_loop handle items s'
      | r \<Rightarrow> r)"

lemma option_loop_append:
  "option_loop handle (items @ items') s =
     (case option_loop handle items s of Some (Continue s') \<Rightarrow> option_loop handle items' s' | r \<Rightarrow> r)"
  by (induction items arbitrary: s) (auto split: option.splits step.splits)

lemma option_loop_invariant:
  assumes "option_loop handle items s = Some (Continue s')" "I s"
    and step: "\<And>i s s'. I s \<Longrightarrow> handle i s = Some (Continue s') \<Longrightarrow> I s'"
  shows "I s'"
  using assms(1,2)
proof (induction items arbitrary: s)
  case (Cons i items)
  then obtain t where "handle i s = Some (Continue t)" "option_loop handle items t = Some (Continue s')"
    by (auto split: option.splits step.splits)
  with Cons.IH step [OF Cons.prems(2)] show ?case by blast
qed simp

text \<open>
  What the four programs have in common: an option that is not known ends them with the code one, the
  option for help with zero, and nothing else does so with zero.
\<close>

locale option_program =
  fixes handle :: "getopt_item \<Rightarrow> 's \<Rightarrow> 's step option"
  assumes unknown: "\<exists>s'. handle Unknown s = Some (Return 1 s')"
    and asks_help: "\<exists>s'. handle (Opt CHR ''h'' a) s = Some (Return 0 s')"
    and returns: "handle (Opt c a) s = Some (Return n s') \<Longrightarrow> n = 0 \<and> c = CHR ''h'' \<or> n = 1"
begin

lemma handle_code: "handle i s = Some (Return n s') \<Longrightarrow> n = 0 \<or> n = 1"
proof (cases i)
  case (Opt c a)
  then show "handle i s = Some (Return n s') \<Longrightarrow> n = 0 \<or> n = 1" using returns by blast
qed (use unknown [of s] in auto)

lemma loop_code: "option_loop handle items s = Some (Return n s') \<Longrightarrow> n = 0 \<or> n = 1"
  by (induction items arbitrary: s) (auto dest: handle_code split: option.splits step.splits)

lemma unknown_stops:
  assumes "Unknown \<in> set items"
  shows "option_loop handle items s \<noteq> Some (Continue s')"
  using assms
proof (induction items arbitrary: s)
  case (Cons i items)
  then show ?case using unknown [of s] by (auto split: option.splits step.splits)
qed simp

lemma success_needs_help:
  "option_loop handle items s = Some (Return 0 s') \<Longrightarrow> \<exists>a. Opt CHR ''h'' a \<in> set items"
proof (induction items arbitrary: s)
  case (Cons i items)
  show ?case
  proof (cases "\<exists>s''. handle i s = Some (Continue s'')")
    case True
    then obtain s'' where "option_loop handle items s'' = Some (Return 0 s')" using Cons.prems by auto
    from Cons.IH [OF this] show ?thesis by auto
  next
    case False
    then have "handle i s = Some (Return 0 s')" using Cons.prems by (auto split: option.splits step.splits)
    then show ?thesis using returns unknown [of s] by (cases i) fastforce+
  qed
qed simp

lemma help_returns:
  assumes "option_loop handle items s = Some (Continue s')"
  shows "\<exists>s''. option_loop handle (items @ Opt CHR ''h'' a # items') s = Some (Return 0 s'')"
  using assms asks_help [of a s'] by (auto simp: option_loop_append)

end

end
