(* ===== verification/Logging.thy ===== *)
theory Logging
  imports Honas_Base
begin

text \<open>
  The log (\<open>src/src/logging.c\<close>): the level that messages need, which is taken from the environment when
  it is used for the first time, and where messages go. A failed assertion or system call, after which
  the process ends, is \<open>None\<close>; a function that does not return is \<open>None\<close>, too.
\<close>

section \<open>Levels\<close>

abbreviation (input) UNSET :: int where "UNSET \<equiv> -1"
abbreviation (input) EMERG :: int where "EMERG \<equiv> 0"
abbreviation (input) ALERT :: int where "ALERT \<equiv> 1"
abbreviation (input) CRIT :: int where "CRIT \<equiv> 2"
abbreviation (input) ERR :: int where "ERR \<equiv> 3"
abbreviation (input) WARNING :: int where "WARNING \<equiv> 4"
abbreviation (input) NOTICE :: int where "NOTICE \<equiv> 5"
abbreviation (input) INFO :: int where "INFO \<equiv> 6"
abbreviation (input) DEBUG :: int where "DEBUG \<equiv> 7"

definition DEFAULT_LOG_LEVEL :: int where "DEFAULT_LOG_LEVEL = NOTICE"

definition prioritynames :: "(string option \<times> int) list" where
  "prioritynames = [(Some ''emerg'', EMERG), (Some ''alert'', ALERT), (Some ''crit'', CRIT), (Some ''err'', ERR),
     (Some ''warn'', WARNING), (Some ''notice'', NOTICE), (Some ''info'', INFO), (Some ''debug'', DEBUG),
     (None, UNSET)]"

text \<open>Both searches look at the entry \<open>i\<close> and stay there: the index never changes.\<close>

partial_function (option) level_search :: "string \<Rightarrow> nat \<Rightarrow> int option option" where
  "level_search val i =
     (case fst (prioritynames ! i) of
        None \<Rightarrow> Some None
      | Some name \<Rightarrow> if val = name then Some (Some (snd (prioritynames ! i))) else level_search val i)"

partial_function (option) name_search :: "int \<Rightarrow> nat \<Rightarrow> string option" where
  "name_search level i =
     (case fst (prioritynames ! i) of
        None \<Rightarrow> Some ''unknown''
      | Some name \<Rightarrow> if snd (prioritynames ! i) = level then Some name else name_search level i)"

definition log_level_name :: "int \<Rightarrow> string option" where
  "log_level_name level = name_search level 0"

section \<open>The context\<close>

datatype log_target = target_uninitialized | target_destroyed | target_file | target_syslog

text \<open>
  What was written: a line for a file has a prefix with the level. \<open>log_file\<close> is the file, with its
  identification and name; \<open>log_mask\<close> the level from which the system log refuses messages.
\<close>

datatype log_entry = To_Stderr string | To_File string string | To_Syslog int string

record log_ctx =
  log_target :: log_target
  min_log_level :: int
  log_file :: "(string \<times> string) option"
  log_mask :: "int option"
  log_output :: "log_entry list"

definition log_initial :: log_ctx where
  "log_initial = \<lparr>log_target = target_uninitialized, min_log_level = UNSET, log_file = None, log_mask = None, log_output = []\<rparr>"

definition log_init_file :: "(string \<Rightarrow> bool) \<Rightarrow> string \<Rightarrow> string \<Rightarrow> log_ctx \<Rightarrow> log_ctx option" where
  "log_init_file can_open ident filename ctx =
     (if log_target ctx = target_uninitialized \<and> can_open filename
      then Some (ctx\<lparr>log_file := Some (ident, filename), log_target := target_file\<rparr>) else None)"

definition log_init_syslog :: "log_ctx \<Rightarrow> log_ctx option" where
  "log_init_syslog ctx =
     (if log_target ctx = target_uninitialized
      then Some (ctx\<lparr>log_mask := Some (min_log_level ctx), log_target := target_syslog\<rparr>) else None)"

definition log_reopen :: "(string \<Rightarrow> bool) \<Rightarrow> log_ctx \<Rightarrow> log_ctx option" where
  "log_reopen can_open ctx =
     (case (log_target ctx, log_file ctx) of
        (target_file, Some (_, filename)) \<Rightarrow> if can_open filename then Some ctx else None
      | (target_file, None) \<Rightarrow> None
      | _ \<Rightarrow> Some ctx)"

text \<open>Writing a message whose level is high enough.\<close>

definition log_write :: "int \<Rightarrow> string \<Rightarrow> log_ctx \<Rightarrow> log_ctx option" where
  "log_write level text ctx =
     (case log_target ctx of
        target_file \<Rightarrow>
          map_option (\<lambda>prefix. ctx\<lparr>log_output := log_output ctx @ [To_File prefix text]\<rparr>) (log_level_name level)
      | target_syslog \<Rightarrow> Some (ctx\<lparr>log_output := log_output ctx @ [To_Syslog level text]\<rparr>)
      | _ \<Rightarrow> Some (ctx\<lparr>log_output := log_output ctx @ [To_Stderr text]\<rparr>))"

text \<open>
  \<open>env\<close> is the value of \<open>LOG_LEVEL\<close>. A value that is not a level is itself logged, now with the default
  level.
\<close>

definition log_get_min_log_level :: "string option \<Rightarrow> log_ctx \<Rightarrow> (int \<times> log_ctx) option" where
  "log_get_min_log_level env ctx =
     (if min_log_level ctx \<noteq> UNSET then Some (min_log_level ctx, ctx)
      else case env of
        None \<Rightarrow> Some (DEFAULT_LOG_LEVEL, ctx\<lparr>min_log_level := DEFAULT_LOG_LEVEL\<rparr>)
      | Some val \<Rightarrow>
          (case level_search val 0 of
             None \<Rightarrow> None
           | Some (Some level) \<Rightarrow> Some (level, ctx\<lparr>min_log_level := level\<rparr>)
           | Some None \<Rightarrow> map_option (\<lambda>ctx. (min_log_level ctx, ctx))
               (log_write WARNING (''Unsupported minimum log level specified in environment'')
                 (ctx\<lparr>min_log_level := DEFAULT_LOG_LEVEL\<rparr>))))"

definition log_set_min_log_level :: "int \<Rightarrow> log_ctx \<Rightarrow> log_ctx" where
  "log_set_min_log_level level ctx =
     (let ctx = ctx\<lparr>min_log_level := level\<rparr>
      in if log_target ctx = target_syslog then ctx\<lparr>log_mask := Some level\<rparr> else ctx)"

definition log_msg :: "string option \<Rightarrow> int \<Rightarrow> string \<Rightarrow> log_ctx \<Rightarrow> log_ctx option" where
  "log_msg env level text ctx =
     (case log_get_min_log_level env ctx of
        None \<Rightarrow> None
      | Some (lowest, ctx) \<Rightarrow> if level > lowest then Some ctx else log_write level text ctx)"

text \<open>The same with the message of a system error behind it.\<close>

definition log_perror :: "string option \<Rightarrow> int \<Rightarrow> string \<Rightarrow> string \<Rightarrow> log_ctx \<Rightarrow> log_ctx option" where
  "log_perror env level text strerror ctx = log_msg env level (text @ '': '' @ strerror) ctx"

definition log_destroy :: "log_ctx \<Rightarrow> log_ctx" where
  "log_destroy ctx =
     (case log_target ctx of
        target_file \<Rightarrow> ctx\<lparr>log_file := None, log_target := target_destroyed\<rparr>
      | _ \<Rightarrow> ctx\<lparr>log_target := target_destroyed\<rparr>)"

section \<open>The searches do not end\<close>

text \<open>
  A step of a search that does not find its level at the first entry is the same search again; the least
  solution of that equation is undefined.
\<close>

lemma prioritynames_first [simp]: "prioritynames ! 0 = (Some ''emerg'', 0)"
  by (simp add: prioritynames_def)

lemma level_search_stuck:
  assumes "val \<noteq> ''emerg''"
  shows "level_search val 0 = None"
proof (rule ccontr)
  assume "level_search val 0 \<noteq> None"
  then obtain r where r: "level_search val 0 = Some r" by blast
  have "val \<noteq> ''emerg'' \<longrightarrow> i = 0 \<longrightarrow> False" if "level_search val i = Some r" for val i r
    using that by (rule level_search.raw_induct [rotated]) (auto split: option.splits if_splits intro!: gr0I)
  from this [OF r] assms show False by blast
qed

lemma name_search_stuck:
  assumes "level \<noteq> 0"
  shows "name_search level 0 = None"
proof (rule ccontr)
  assume "name_search level 0 \<noteq> None"
  then obtain r where r: "name_search level 0 = Some r" by blast
  have "level \<noteq> 0 \<longrightarrow> i = 0 \<longrightarrow> False" if "name_search level i = Some r" for level i r
    using that by (rule name_search.raw_induct [rotated]) (auto split: option.splits if_splits intro!: gr0I)
  from this [OF r] assms show False by blast
qed

text \<open>
  So the variable of the environment must be unset or \<open>emerg\<close>, and a message in a file must have the
  level \<open>emerg\<close>, or the program hangs.
\<close>

lemma log_msg_env_hangs:
  assumes "min_log_level ctx = UNSET" "val \<noteq> ''emerg''"
  shows "log_msg (Some val) level text ctx = None"
  using assms by (simp add: log_msg_def log_get_min_log_level_def level_search_stuck)

lemma log_msg_file_hangs:
  assumes "log_target ctx = target_file" "min_log_level ctx \<noteq> UNSET" "0 < level" "level \<le> min_log_level ctx"
  shows "log_msg env level text ctx = None"
  using assms by (simp add: log_msg_def log_get_min_log_level_def log_write_def log_level_name_def name_search_stuck)

lemma log_msg_stderr:
  assumes "log_target ctx = target_uninitialized \<or> log_target ctx = target_destroyed" "min_log_level ctx = UNSET"
  shows "log_msg None level text ctx = Some (ctx\<lparr>min_log_level := 5,
    log_output := log_output ctx @ (if level \<le> 5 then [To_Stderr text] else [])\<rparr>)"
  using assms by (auto simp: log_msg_def log_get_min_log_level_def log_write_def DEFAULT_LOG_LEVEL_def)

end
