(* ===== verification/Json_Printer.thy ===== *)
theory Json_Printer
  imports Utils
begin

text \<open>
  The streaming JSON printer (\<open>src/src/json_printer.c\<close>), as it is built by default, with its stack of
  open elements (\<open>JSON_PRINTER_DEBUG\<close>). The output file is the list of the bytes written so far.
  A value printed by calls of the printer is compared with a reference text: nesting, separators,
  numbers and strings.
\<close>

section \<open>The context and its stack\<close>

record json_printer =
  jp_out :: bytes
  jp_depth :: nat
  jp_first :: bool
  jp_stack :: bytes

abbreviation (input) JSON_PRINTER_MAX_DEPTH :: nat where "JSON_PRINTER_MAX_DEPTH \<equiv> 31"

definition put :: "bytes \<Rightarrow> json_printer \<Rightarrow> json_printer" where
  "put s ctx = ctx\<lparr>jp_out := jp_out ctx @ s\<rparr>"

definition json_printer_stack_push :: "u8 \<Rightarrow> json_printer \<Rightarrow> json_printer option" where
  "json_printer_stack_push v ctx = do {
     c_assert (jp_depth ctx < JSON_PRINTER_MAX_DEPTH);
     Some (ctx\<lparr>jp_depth := jp_depth ctx + 1, jp_stack := (jp_stack ctx)[jp_depth ctx + 1 := v], jp_first := True\<rparr>)
   }"

definition json_printer_stack_pop :: "u8 \<Rightarrow> json_printer \<Rightarrow> json_printer option" where
  "json_printer_stack_pop v ctx = do {
     c_assert (jp_stack ctx ! jp_depth ctx = v);
     Some (ctx\<lparr>jp_depth := jp_depth ctx - 1, jp_first := (jp_depth ctx - 1 = 1)\<rparr>)
   }"

definition json_printer_stack_pop_opt :: "u8 \<Rightarrow> json_printer \<Rightarrow> json_printer" where
  "json_printer_stack_pop_opt v ctx =
     (if jp_stack ctx ! jp_depth ctx = v then ctx\<lparr>jp_depth := jp_depth ctx - 1\<rparr> else ctx)"

definition json_printer_stack_assert :: "json_printer \<Rightarrow> u8 \<Rightarrow> unit option" where
  "json_printer_stack_assert ctx v = c_assert (jp_stack ctx ! jp_depth ctx = v)"

definition json_printer_stack_assert_expect_value :: "json_printer \<Rightarrow> unit option" where
  "json_printer_stack_assert_expect_value ctx =
     (let sv = jp_stack ctx ! jp_depth ctx in c_assert (sv = 93 \<or> sv = 58 \<or> sv = 0))"

definition json_printer_optional_separator :: "json_printer \<Rightarrow> json_printer" where
  "json_printer_optional_separator ctx = (if jp_first ctx then ctx\<lparr>jp_first := False\<rparr> else put [44] ctx)"

section \<open>Numbers and strings\<close>

text \<open>The buffers are 11 and 21 bytes long and hold the terminator too.\<close>

definition json_printer_write_uint32 :: "u32 \<Rightarrow> json_printer \<Rightarrow> json_printer option" where
  "json_printer_write_uint32 val ctx =
     (let strbuf = dec_digits (unat val) in do { c_assert (length strbuf < 11); Some (put strbuf ctx) })"

definition json_printer_write_uint64 :: "u64 \<Rightarrow> json_printer \<Rightarrow> json_printer option" where
  "json_printer_write_uint64 val ctx =
     (let strbuf = dec_digits (unat val) in do { c_assert (length strbuf < 21); Some (put strbuf ctx) })"

definition json_printer_write_boolean :: "bool \<Rightarrow> json_printer \<Rightarrow> json_printer" where
  "json_printer_write_boolean val ctx =
     put (if val then [116, 114, 117, 101] else [102, 97, 108, 115, 101]) ctx"

text \<open>The number of bytes of a UTF-8 sequence with this first byte.\<close>

definition utf8_length :: "u8 \<Rightarrow> nat option" where
  "utf8_length c =
     (if c AND 0xe0 = 0xc0 then Some 2
      else if c AND 0xf0 = 0xe0 then Some 3
      else if c AND 0xf8 = 0xf0 then Some 4
      else if c AND 0xfc = 0xf8 then Some 5
      else if c AND 0xfe = 0xfc then Some 6
      else None)"

text \<open>The loop over the rest of a sequence: what it writes and what follows.\<close>

fun utf8_rest :: "nat \<Rightarrow> bytes \<Rightarrow> (bytes \<times> bytes) option" where
  "utf8_rest 0 val = Some ([], val)"
| "utf8_rest (Suc n) [] = None"
| "utf8_rest (Suc n) (c # val) =
     (if c = 0 \<or> c AND 0xc0 \<noteq> 0x80 then None
      else case utf8_rest n val of None \<Rightarrow> None | Some (w, r) \<Rightarrow> Some (c # w, r))"

lemma utf8_rest_length: "utf8_rest n val = Some (w, r) \<Longrightarrow> val = w @ r"
  by (induction n val arbitrary: w r rule: utf8_rest.induct) (auto split: if_splits option.splits)

text \<open>The loop over the characters; the string ends at its first zero byte or its end.\<close>

function string_chars :: "bytes \<Rightarrow> bytes option" where
  "string_chars [] = Some []"
| "string_chars (c # val) =
     (if c = 0 then Some []
      else if c \<ge> 0x20 \<and> c < 0x7e then
        map_option (\<lambda>w. (if c = 34 \<or> c = 92 \<or> c = 47 then [47] else []) @ [c] @ w) (string_chars val)
      else if c = 8 then map_option (\<lambda>w. [92, 98] @ w) (string_chars val)
      else if c = 12 then map_option (\<lambda>w. [92, 102] @ w) (string_chars val)
      else if c = 10 then map_option (\<lambda>w. [92, 110] @ w) (string_chars val)
      else if c = 13 then map_option (\<lambda>w. [92, 114] @ w) (string_chars val)
      else if c = 9 then map_option (\<lambda>w. [92, 116] @ w) (string_chars val)
      else if c > 0x7f then
        case utf8_length c of None \<Rightarrow> None
        | Some len \<Rightarrow>
          (case utf8_rest (len - 1) val of None \<Rightarrow> None
           | Some (w, r) \<Rightarrow> map_option (\<lambda>v. [c] @ w @ v) (string_chars r))
      else None)"
  by pat_completeness auto
termination
  by (relation "measure length") (auto dest: utf8_rest_length)

definition json_printer_write_string :: "bytes \<Rightarrow> json_printer \<Rightarrow> json_printer option" where
  "json_printer_write_string val ctx = do {
     s \<leftarrow> string_chars val;
     Some (put ([34] @ s @ [34]) ctx)
   }"

section \<open>The interface\<close>

text \<open>\<open>stack\<close> is what the uninitialised array of the context holds.\<close>

definition json_printer_begin :: "bytes \<Rightarrow> bytes \<Rightarrow> json_printer option" where
  "json_printer_begin stack out = do {
     c_assert (length stack = JSON_PRINTER_MAX_DEPTH + 1);
     json_printer_stack_push 0 \<lparr>jp_out = out, jp_depth = 0, jp_first = True, jp_stack = stack\<rparr>
   }"

definition json_printer_end :: "json_printer \<Rightarrow> bytes option" where
  "json_printer_end ctx = do { json_printer_stack_assert ctx 0; Some (jp_out ctx) }"

text \<open>What every value starts with.\<close>

definition value_prefix :: "json_printer \<Rightarrow> json_printer option" where
  "value_prefix ctx = do {
     json_printer_stack_assert_expect_value ctx;
     Some (json_printer_stack_pop_opt 58 (json_printer_optional_separator ctx))
   }"

definition json_printer_uint32 :: "u32 \<Rightarrow> json_printer \<Rightarrow> json_printer option" where
  "json_printer_uint32 val ctx = do { ctx \<leftarrow> value_prefix ctx; json_printer_write_uint32 val ctx }"

definition json_printer_uint64 :: "u64 \<Rightarrow> json_printer \<Rightarrow> json_printer option" where
  "json_printer_uint64 val ctx = do { ctx \<leftarrow> value_prefix ctx; json_printer_write_uint64 val ctx }"

definition json_printer_boolean :: "bool \<Rightarrow> json_printer \<Rightarrow> json_printer option" where
  "json_printer_boolean val ctx = do { ctx \<leftarrow> value_prefix ctx; Some (json_printer_write_boolean val ctx) }"

definition json_printer_string :: "bytes \<Rightarrow> json_printer \<Rightarrow> json_printer option" where
  "json_printer_string val ctx = do { ctx \<leftarrow> value_prefix ctx; json_printer_write_string val ctx }"

definition json_printer_array_begin :: "json_printer \<Rightarrow> json_printer option" where
  "json_printer_array_begin ctx = do { ctx \<leftarrow> value_prefix ctx; json_printer_stack_push 93 (put [91] ctx) }"

definition json_printer_array_end :: "json_printer \<Rightarrow> json_printer option" where
  "json_printer_array_end ctx = json_printer_stack_pop 93 (put [93] ctx)"

definition json_printer_object_begin :: "json_printer \<Rightarrow> json_printer option" where
  "json_printer_object_begin ctx = do { ctx \<leftarrow> value_prefix ctx; json_printer_stack_push 125 (put [123] ctx) }"

definition json_printer_object_end :: "json_printer \<Rightarrow> json_printer option" where
  "json_printer_object_end ctx = json_printer_stack_pop 125 (put [125] ctx)"

definition json_printer_object_key :: "bytes \<Rightarrow> json_printer \<Rightarrow> json_printer option" where
  "json_printer_object_key key ctx = do {
     json_printer_stack_assert ctx 125;
     ctx \<leftarrow> json_printer_stack_push 58 (json_printer_optional_separator ctx);
     ctx \<leftarrow> json_printer_write_string key ctx;
     Some (put [58] ctx)
   }"

text \<open>What the functions that print a key with a value have in common.\<close>

definition pair_prefix :: "bytes \<Rightarrow> json_printer \<Rightarrow> json_printer option" where
  "pair_prefix key ctx = do {
     json_printer_stack_assert ctx 125;
     ctx \<leftarrow> json_printer_write_string key (json_printer_optional_separator ctx);
     Some (put [58] ctx)
   }"

definition json_printer_object_pair_uint32 :: "bytes \<Rightarrow> u32 \<Rightarrow> json_printer \<Rightarrow> json_printer option" where
  "json_printer_object_pair_uint32 key val ctx = do { ctx \<leftarrow> pair_prefix key ctx; json_printer_write_uint32 val ctx }"

definition json_printer_object_pair_uint64 :: "bytes \<Rightarrow> u64 \<Rightarrow> json_printer \<Rightarrow> json_printer option" where
  "json_printer_object_pair_uint64 key val ctx = do { ctx \<leftarrow> pair_prefix key ctx; json_printer_write_uint64 val ctx }"

definition json_printer_object_pair_boolean :: "bytes \<Rightarrow> bool \<Rightarrow> json_printer \<Rightarrow> json_printer option" where
  "json_printer_object_pair_boolean key val ctx = do { ctx \<leftarrow> pair_prefix key ctx; Some (json_printer_write_boolean val ctx) }"

definition json_printer_object_pair_string :: "bytes \<Rightarrow> bytes \<Rightarrow> json_printer \<Rightarrow> json_printer option" where
  "json_printer_object_pair_string key val ctx = do { ctx \<leftarrow> pair_prefix key ctx; json_printer_write_string val ctx }"

section \<open>The abstract context\<close>

text \<open>
  \<open>jp ctx out first opens\<close>: the bytes written, whether the next element is the first one and the
  open elements, the innermost first; the last is the sentinel.
\<close>

definition jp :: "json_printer \<Rightarrow> bytes \<Rightarrow> bool \<Rightarrow> bytes \<Rightarrow> bool" where
  "jp ctx out first opens \<longleftrightarrow>
     jp_out ctx = out \<and> jp_first ctx = first \<and> length (jp_stack ctx) = 32 \<and>
     jp_depth ctx = length opens \<and> 1 \<le> length opens \<and> length opens \<le> 31 \<and>
     (\<forall>i < length opens. jp_stack ctx ! (length opens - i) = opens ! i)"

definition sep :: "bool \<Rightarrow> bytes" where "sep first = (if first then [] else [44])"

lemma jp_top: "jp ctx out first (v # opens) \<Longrightarrow> jp_stack ctx ! jp_depth ctx = v"
  by (auto simp: jp_def)

lemma jp_put: "jp ctx out first opens \<Longrightarrow> jp (put s ctx) (out @ s) first opens"
  by (simp add: jp_def put_def)

lemma jp_sep: "jp ctx out first opens \<Longrightarrow> jp (json_printer_optional_separator ctx) (out @ sep first) False opens"
  by (simp add: jp_def put_def sep_def json_printer_optional_separator_def)

lemma jp_push:
  assumes "jp ctx out first opens" "length opens < 31"
  shows "\<exists>ctx'. json_printer_stack_push v ctx = Some ctx' \<and> jp ctx' out True (v # opens)"
proof -
  let ?n = "length opens"
  have d: "jp_depth ctx = ?n" "length (jp_stack ctx) = 32" "1 \<le> ?n"
    "\<forall>i < ?n. jp_stack ctx ! (?n - i) = opens ! i" using assms(1) by (simp_all add: jp_def)
  let ?c = "ctx\<lparr>jp_depth := jp_depth ctx + 1, jp_stack := (jp_stack ctx)[jp_depth ctx + 1 := v], jp_first := True\<rparr>"
  have "(jp_stack ctx)[Suc ?n := v] ! (Suc ?n - i) = (v # opens) ! i" if "i < Suc ?n" for i
  proof (cases i)
    case 0
    then show ?thesis using d(2) assms(2) by simp
  next
    case (Suc j)
    then show ?thesis using d(4) that by simp
  qed
  then have "jp ?c out True (v # opens)" using assms d by (simp add: jp_def)
  then show ?thesis using assms(2) d(1) by (simp add: json_printer_stack_push_def)
qed

lemma jp_drop:
  assumes "jp ctx out first (v # opens)" "opens \<noteq> []"
  shows "jp (ctx\<lparr>jp_depth := jp_depth ctx - 1, jp_first := f\<rparr>) out f opens"
    and "jp (ctx\<lparr>jp_depth := jp_depth ctx - 1\<rparr>) out first opens"
proof -
  have "jp_stack ctx ! (length opens - i) = opens ! i" if "i < length opens" for i
  proof -
    have "\<forall>k < length (v # opens). jp_stack ctx ! (length (v # opens) - k) = (v # opens) ! k"
      using assms(1) unfolding jp_def by blast
    from this [rule_format, of "Suc i"] that show ?thesis by simp
  qed
  moreover have "1 \<le> length opens" using assms(2) by (cases opens) auto
  ultimately show "jp (ctx\<lparr>jp_depth := jp_depth ctx - 1, jp_first := f\<rparr>) out f opens"
    "jp (ctx\<lparr>jp_depth := jp_depth ctx - 1\<rparr>) out first opens"
    using assms(1) by (simp_all add: jp_def)
qed

lemma jp_pop:
  assumes "jp ctx out first (v # opens)" "opens \<noteq> []"
  shows "\<exists>ctx'. json_printer_stack_pop v ctx = Some ctx' \<and> jp ctx' out (length opens = 1) opens"
  using jp_drop(1) [OF assms, of "length opens = 1"] jp_top [OF assms(1)] assms(1)
  by (simp add: json_printer_stack_pop_def) (simp add: jp_def)

text \<open>The open elements after a value: a pending key is closed.\<close>

definition after_value :: "bytes \<Rightarrow> bytes" where
  "after_value opens = (if hd opens = 58 then tl opens else opens)"

definition expects_value :: "bytes \<Rightarrow> bool" where
  "expects_value opens \<longleftrightarrow> opens \<noteq> [] \<and> (hd opens = 93 \<or> hd opens = 0 \<or> hd opens = 58 \<and> tl opens \<noteq> [])"

lemma jp_value_prefix:
  assumes "jp ctx out first opens" "expects_value opens"
  shows "\<exists>ctx'. value_prefix ctx = Some ctx' \<and> jp ctx' (out @ sep first) False (after_value opens)"
proof -
  obtain v os where o: "opens = v # os" using assms(2) by (cases opens) (auto simp: expects_value_def)
  have s: "jp (json_printer_optional_separator ctx) (out @ sep first) False (v # os)"
    using jp_sep [OF assms(1)] o by simp
  note t = jp_top [OF s] jp_top [OF assms(1) [unfolded o]]
  show ?thesis
  proof (cases "v = 58")
    case True
    then have "os \<noteq> []" using assms(2) o by (auto simp: expects_value_def)
    from jp_drop(2) [OF s this] show ?thesis
      using t True o
      by (simp add: value_prefix_def json_printer_stack_assert_expect_value_def json_printer_stack_pop_opt_def
          after_value_def)
  next
    case False
    then have "v = 93 \<or> v = 0" using assms(2) o by (auto simp: expects_value_def)
    then show ?thesis
      using t False o s
      by (auto simp: value_prefix_def json_printer_stack_assert_expect_value_def json_printer_stack_pop_opt_def
          after_value_def)
  qed
qed

lemma length_after_value: "length (after_value opens) \<le> length opens"
  by (simp add: after_value_def)

lemma after_value_not_Nil: "expects_value opens \<Longrightarrow> after_value opens \<noteq> []"
  by (auto simp: after_value_def expects_value_def)

lemma uint32_digits: "length (dec_digits (unat (w :: u32))) < 11"
proof -
  have "unat w < 4294967296" by (rule unat_u32_less)
  moreover have "(10 :: nat) ^ Suc 9 = 10000000000" by simp
  ultimately have "unat w < 10 ^ Suc 9" by linarith
  from length_dec_digits [OF this] show ?thesis by simp
qed

lemma uint64_digits: "length (dec_digits (unat (w :: u64))) < 21"
proof -
  have "unat w < 18446744073709551616" by (rule unat_u64_less)
  moreover have "(10 :: nat) ^ Suc 19 = 100000000000000000000" by simp
  ultimately have "unat w < 10 ^ Suc 19" by linarith
  from length_dec_digits [OF this] show ?thesis by simp
qed

lemma json_printer_write_uint32_eq [simp]: "json_printer_write_uint32 w ctx = Some (put (dec_digits (unat w)) ctx)"
  using uint32_digits [of w] by (simp add: json_printer_write_uint32_def)

lemma json_printer_write_uint64_eq [simp]: "json_printer_write_uint64 w ctx = Some (put (dec_digits (unat w)) ctx)"
  using uint64_digits [of w] by (simp add: json_printer_write_uint64_def)

section \<open>Every operation on the abstract context\<close>

definition quoted :: "bytes \<Rightarrow> bytes" where "quoted s = [34] @ the (string_chars s) @ [34]"

definition bool_text :: "bool \<Rightarrow> bytes" where
  "bool_text b = (if b then [116, 114, 117, 101] else [102, 97, 108, 115, 101])"

definition printable :: "bytes \<Rightarrow> bool" where "printable s \<longleftrightarrow> string_chars s \<noteq> None"

lemma json_printer_write_string_eq: "printable s \<Longrightarrow> json_printer_write_string s ctx = Some (put (quoted s) ctx)"
  by (auto simp: printable_def json_printer_write_string_def quoted_def)

text \<open>A scalar: the prefix of a value and then its text.\<close>

lemma jp_scalar:
  assumes "jp ctx out first opens" "expects_value opens"
  shows "\<exists>ctx'. (do { c \<leftarrow> value_prefix ctx; Some (put t c) }) = Some ctx' \<and>
           jp ctx' (out @ sep first @ t) False (after_value opens)"
  using jp_value_prefix [OF assms] jp_put [of _ "out @ sep first" False "after_value opens" t]
  by fastforce

lemma jp_uint32:
  "jp ctx out first opens \<Longrightarrow> expects_value opens \<Longrightarrow>
   \<exists>ctx'. json_printer_uint32 w ctx = Some ctx' \<and> jp ctx' (out @ sep first @ dec_digits (unat w)) False (after_value opens)"
  using jp_scalar by (simp add: json_printer_uint32_def)

lemma jp_uint64:
  "jp ctx out first opens \<Longrightarrow> expects_value opens \<Longrightarrow>
   \<exists>ctx'. json_printer_uint64 w ctx = Some ctx' \<and> jp ctx' (out @ sep first @ dec_digits (unat w)) False (after_value opens)"
  using jp_scalar by (simp add: json_printer_uint64_def)

lemma jp_boolean:
  "jp ctx out first opens \<Longrightarrow> expects_value opens \<Longrightarrow>
   \<exists>ctx'. json_printer_boolean b ctx = Some ctx' \<and> jp ctx' (out @ sep first @ bool_text b) False (after_value opens)"
  using jp_scalar by (simp add: json_printer_boolean_def json_printer_write_boolean_def bool_text_def)

lemma jp_string:
  "jp ctx out first opens \<Longrightarrow> expects_value opens \<Longrightarrow> printable s \<Longrightarrow>
   \<exists>ctx'. json_printer_string s ctx = Some ctx' \<and> jp ctx' (out @ sep first @ quoted s) False (after_value opens)"
  using jp_scalar by (simp add: json_printer_string_def json_printer_write_string_eq)

text \<open>Opening and closing an array or an object.\<close>

lemma jp_open:
  assumes "jp ctx out first opens" "expects_value opens" "length (after_value opens) < 31"
  shows "\<exists>ctx'. (do { c \<leftarrow> value_prefix ctx; json_printer_stack_push v (put t c) }) = Some ctx' \<and>
           jp ctx' (out @ sep first @ t) True (v # after_value opens)"
proof -
  obtain c where c: "value_prefix ctx = Some c" "jp c (out @ sep first) False (after_value opens)"
    using jp_value_prefix [OF assms(1,2)] by (elim exE conjE)
  obtain c' where "json_printer_stack_push v (put t c) = Some c'" "jp c' ((out @ sep first) @ t) True (v # after_value opens)"
    using jp_push [OF jp_put [OF c(2), of t] assms(3), of v] by (elim exE conjE)
  then show ?thesis using c(1) by simp
qed

lemma jp_array_begin:
  "jp ctx out first opens \<Longrightarrow> expects_value opens \<Longrightarrow> length (after_value opens) < 31 \<Longrightarrow>
   \<exists>ctx'. json_printer_array_begin ctx = Some ctx' \<and> jp ctx' (out @ sep first @ [91]) True (93 # after_value opens)"
  unfolding json_printer_array_begin_def by (rule jp_open)

lemma jp_object_begin:
  "jp ctx out first opens \<Longrightarrow> expects_value opens \<Longrightarrow> length (after_value opens) < 31 \<Longrightarrow>
   \<exists>ctx'. json_printer_object_begin ctx = Some ctx' \<and> jp ctx' (out @ sep first @ [123]) True (125 # after_value opens)"
  unfolding json_printer_object_begin_def by (rule jp_open)

lemma jp_array_end:
  "jp ctx out first (93 # opens) \<Longrightarrow> opens \<noteq> [] \<Longrightarrow>
   \<exists>ctx'. json_printer_array_end ctx = Some ctx' \<and> jp ctx' (out @ [93]) (length opens = 1) opens"
  unfolding json_printer_array_end_def by (rule jp_pop) (rule jp_put)

lemma jp_object_end:
  "jp ctx out first (125 # opens) \<Longrightarrow> opens \<noteq> [] \<Longrightarrow>
   \<exists>ctx'. json_printer_object_end ctx = Some ctx' \<and> jp ctx' (out @ [125]) (length opens = 1) opens"
  unfolding json_printer_object_end_def by (rule jp_pop) (rule jp_put)

lemma jp_object_key:
  assumes "jp ctx out first (125 # opens)" "length opens < 30" "printable key"
  shows "\<exists>ctx'. json_printer_object_key key ctx = Some ctx' \<and>
           jp ctx' (out @ sep first @ quoted key @ [58]) True (58 # 125 # opens)"
proof -
  obtain c where c: "json_printer_stack_push 58 (json_printer_optional_separator ctx) = Some c"
    "jp c (out @ sep first) True (58 # 125 # opens)"
    using jp_push [OF jp_sep [OF assms(1)], of 58] assms(2) by auto
  from jp_put [OF jp_put [OF c(2)], of "[58]" "quoted key"] show ?thesis
    using c(1) jp_top [OF assms(1)] assms(3)
    by (simp add: json_printer_object_key_def json_printer_stack_assert_def json_printer_write_string_eq)
qed

text \<open>A key with its value in one call: the same text as a key followed by a value.\<close>

lemma jp_pair_prefix:
  assumes "jp ctx out first (125 # opens)" "printable key"
  shows "\<exists>ctx'. pair_prefix key ctx = Some ctx' \<and> jp ctx' (out @ sep first @ quoted key @ [58]) False (125 # opens)"
  using jp_put [OF jp_put [OF jp_sep [OF assms(1)]], of "[58]" "quoted key"] jp_top [OF assms(1)] assms(2)
  by (simp add: pair_prefix_def json_printer_stack_assert_def json_printer_write_string_eq)

lemma jp_pair:
  assumes "jp ctx out first (125 # opens)" "printable key"
  shows "\<exists>ctx'. (do { c \<leftarrow> pair_prefix key ctx; Some (put t c) }) = Some ctx' \<and>
           jp ctx' (out @ sep first @ quoted key @ [58] @ t) False (125 # opens)"
proof -
  obtain c where c: "pair_prefix key ctx = Some c" "jp c (out @ sep first @ quoted key @ [58]) False (125 # opens)"
    using jp_pair_prefix [OF assms] by (elim exE conjE)
  from jp_put [OF c(2), of t] show ?thesis using c(1) by simp
qed

lemma jp_pair_uint32:
  "jp ctx out first (125 # opens) \<Longrightarrow> printable key \<Longrightarrow>
   \<exists>ctx'. json_printer_object_pair_uint32 key w ctx = Some ctx' \<and>
          jp ctx' (out @ sep first @ quoted key @ [58] @ dec_digits (unat w)) False (125 # opens)"
  using jp_pair [of _ _ _ _ _ "dec_digits (unat w)"] by (simp add: json_printer_object_pair_uint32_def)

lemma jp_pair_uint64:
  "jp ctx out first (125 # opens) \<Longrightarrow> printable key \<Longrightarrow>
   \<exists>ctx'. json_printer_object_pair_uint64 key w ctx = Some ctx' \<and>
          jp ctx' (out @ sep first @ quoted key @ [58] @ dec_digits (unat w)) False (125 # opens)"
  using jp_pair [of _ _ _ _ _ "dec_digits (unat w)"] by (simp add: json_printer_object_pair_uint64_def)

lemma jp_pair_boolean:
  "jp ctx out first (125 # opens) \<Longrightarrow> printable key \<Longrightarrow>
   \<exists>ctx'. json_printer_object_pair_boolean key b ctx = Some ctx' \<and>
          jp ctx' (out @ sep first @ quoted key @ [58] @ bool_text b) False (125 # opens)"
  using jp_pair [of _ _ _ _ _ "bool_text b"]
  by (simp add: json_printer_object_pair_boolean_def json_printer_write_boolean_def bool_text_def)

lemma jp_pair_string:
  "jp ctx out first (125 # opens) \<Longrightarrow> printable key \<Longrightarrow> printable s \<Longrightarrow>
   \<exists>ctx'. json_printer_object_pair_string key s ctx = Some ctx' \<and>
          jp ctx' (out @ sep first @ quoted key @ [58] @ quoted s) False (125 # opens)"
  using jp_pair [of _ _ _ _ _ "quoted s"]
  by (simp add: json_printer_object_pair_string_def json_printer_write_string_eq)

lemma jp_begin:
  "length stack = 32 \<Longrightarrow> \<exists>ctx. json_printer_begin stack out = Some ctx \<and> jp ctx out True [0]"
  by (simp add: json_printer_begin_def json_printer_stack_push_def jp_def)

lemma jp_end: "jp ctx out first [0] \<Longrightarrow> json_printer_end ctx = Some out"
  using jp_top [of ctx out first 0 "[]"] by (simp add: json_printer_end_def json_printer_stack_assert_def jp_def)

section \<open>Documents\<close>

text \<open>The values a client can print, the text of each and the calls that print it.\<close>

datatype json =
    Json_Uint32 u32
  | Json_Uint64 u64
  | Json_Boolean bool
  | Json_String bytes
  | Json_Array "json list"
  | Json_Object "(bytes \<times> json) list"

fun json_text :: "json \<Rightarrow> bytes"
  and elems_text :: "bool \<Rightarrow> json list \<Rightarrow> bytes"
  and members_text :: "bool \<Rightarrow> (bytes \<times> json) list \<Rightarrow> bytes" where
  "json_text (Json_Uint32 w) = dec_digits (unat w)"
| "json_text (Json_Uint64 w) = dec_digits (unat w)"
| "json_text (Json_Boolean b) = bool_text b"
| "json_text (Json_String s) = quoted s"
| "json_text (Json_Array js) = [91] @ elems_text True js @ [93]"
| "json_text (Json_Object kvs) = [123] @ members_text True kvs @ [125]"
| "elems_text first [] = []"
| "elems_text first (j # js) = sep first @ json_text j @ elems_text False js"
| "members_text first [] = []"
| "members_text first ((k, j) # kvs) = sep first @ quoted k @ [58] @ json_text j @ members_text False kvs"

fun print_json :: "json \<Rightarrow> json_printer \<Rightarrow> json_printer option"
  and print_elems :: "json list \<Rightarrow> json_printer \<Rightarrow> json_printer option"
  and print_members :: "(bytes \<times> json) list \<Rightarrow> json_printer \<Rightarrow> json_printer option" where
  "print_json (Json_Uint32 w) ctx = json_printer_uint32 w ctx"
| "print_json (Json_Uint64 w) ctx = json_printer_uint64 w ctx"
| "print_json (Json_Boolean b) ctx = json_printer_boolean b ctx"
| "print_json (Json_String s) ctx = json_printer_string s ctx"
| "print_json (Json_Array js) ctx = do {
     ctx \<leftarrow> json_printer_array_begin ctx; ctx \<leftarrow> print_elems js ctx; json_printer_array_end ctx }"
| "print_json (Json_Object kvs) ctx = do {
     ctx \<leftarrow> json_printer_object_begin ctx; ctx \<leftarrow> print_members kvs ctx; json_printer_object_end ctx }"
| "print_elems [] ctx = Some ctx"
| "print_elems (j # js) ctx = do { ctx \<leftarrow> print_json j ctx; print_elems js ctx }"
| "print_members [] ctx = Some ctx"
| "print_members ((k, j) # kvs) ctx = do {
     ctx \<leftarrow> json_printer_object_key k ctx; ctx \<leftarrow> print_json j ctx; print_members kvs ctx }"

text \<open>The levels of the stack a value needs; a key takes one too.\<close>

fun json_levels :: "json \<Rightarrow> nat"
  and elems_levels :: "json list \<Rightarrow> nat"
  and members_levels :: "(bytes \<times> json) list \<Rightarrow> nat" where
  "json_levels (Json_Array js) = Suc (elems_levels js)"
| "json_levels (Json_Object kvs) = Suc (members_levels kvs)"
| "json_levels _ = 0"
| "elems_levels [] = 0"
| "elems_levels (j # js) = max (json_levels j) (elems_levels js)"
| "members_levels [] = 0"
| "members_levels ((k, j) # kvs) = max 1 (max (json_levels j) (members_levels kvs))"

fun json_printable :: "json \<Rightarrow> bool"
  and elems_printable :: "json list \<Rightarrow> bool"
  and members_printable :: "(bytes \<times> json) list \<Rightarrow> bool" where
  "json_printable (Json_String s) = printable s"
| "json_printable (Json_Array js) = elems_printable js"
| "json_printable (Json_Object kvs) = members_printable kvs"
| "json_printable _ = True"
| "elems_printable [] = True"
| "elems_printable (j # js) = (json_printable j \<and> elems_printable js)"
| "members_printable [] = True"
| "members_printable ((k, j) # kvs) = (printable k \<and> json_printable j \<and> members_printable kvs)"

definition closes :: "json \<Rightarrow> bool" where
  "closes j = (case j of Json_Array _ \<Rightarrow> True | Json_Object _ \<Rightarrow> True | _ \<Rightarrow> False)"

lemma jp_length: "jp ctx out first opens \<Longrightarrow> 1 \<le> length opens \<and> length opens \<le> 31"
  by (simp add: jp_def)

lemma jp_print_json:
  "jp ctx out first opens \<Longrightarrow> expects_value opens \<Longrightarrow> json_printable j \<Longrightarrow>
   length (after_value opens) + json_levels j \<le> 31 \<Longrightarrow>
   \<exists>ctx'. print_json j ctx = Some ctx' \<and>
     jp ctx' (out @ sep first @ json_text j) (closes j \<and> length (after_value opens) = 1) (after_value opens)"
  "jp ctx out first (93 # os) \<Longrightarrow> os \<noteq> [] \<Longrightarrow> elems_printable js \<Longrightarrow> Suc (length os) + elems_levels js \<le> 31 \<Longrightarrow>
   \<exists>ctx'. print_elems js ctx = Some ctx' \<and> jp ctx' (out @ elems_text first js) (first \<and> js = []) (93 # os)"
  "jp ctx out first (125 # os) \<Longrightarrow> os \<noteq> [] \<Longrightarrow> members_printable kvs \<Longrightarrow> Suc (length os) + members_levels kvs \<le> 31 \<Longrightarrow>
   \<exists>ctx'. print_members kvs ctx = Some ctx' \<and> jp ctx' (out @ members_text first kvs) (first \<and> kvs = []) (125 # os)"
proof (induction j and js and kvs arbitrary: ctx out first opens and ctx out first os and ctx out first os
    rule: json_printable_elems_printable_members_printable.induct)
  case (2 js)
  let ?os = "after_value opens"
  have ne: "?os \<noteq> []" using 2(3) by (rule after_value_not_Nil)
  obtain c where c: "json_printer_array_begin ctx = Some c" "jp c (out @ sep first @ [91]) True (93 # ?os)"
    using jp_array_begin [OF 2(2,3)] 2(5) by auto
  obtain c' f where c': "print_elems js c = Some c'" "jp c' ((out @ sep first @ [91]) @ elems_text True js) f (93 # ?os)"
    using 2(1) [OF c(2) ne] 2(4,5) by auto
  from jp_array_end [OF c'(2) ne] show ?case using c(1) c'(1) by (auto simp: closes_def)
next
  case (3 kvs)
  let ?os = "after_value opens"
  have ne: "?os \<noteq> []" using 3(3) by (rule after_value_not_Nil)
  obtain c where c: "json_printer_object_begin ctx = Some c" "jp c (out @ sep first @ [123]) True (125 # ?os)"
    using jp_object_begin [OF 3(2,3)] 3(5) by auto
  obtain c' f where c': "print_members kvs c = Some c'" "jp c' ((out @ sep first @ [123]) @ members_text True kvs) f (125 # ?os)"
    using 3(1) [OF c(2) ne] 3(4,5) by auto
  from jp_object_end [OF c'(2) ne] show ?case using c(1) c'(1) by (auto simp: closes_def)
next
  case (6 j js)
  have e: "expects_value (93 # os)" "after_value (93 # os) = 93 # os" by (simp_all add: expects_value_def after_value_def)
  have b: "length os + json_levels j \<le> 30" using 6(6) by simp
  obtain c where c: "print_json j ctx = Some c" "jp c (out @ sep first @ json_text j) False (93 # os)"
    using 6(1) [OF 6(3) e(1)] 6(4,5,6) e(2) b by auto
  from 6(2) [OF c(2) 6(4)] 6(5,6) show ?case using c(1) by auto
next
  case (8 k j kvs)
  have e: "expects_value (58 # 125 # os)" "after_value (58 # 125 # os) = 125 # os" by (simp_all add: expects_value_def after_value_def)
  have b: "length os + json_levels j \<le> 30" "length os < 30" using 8(6) by simp_all
  obtain c where c: "json_printer_object_key k ctx = Some c" "jp c (out @ sep first @ quoted k @ [58]) True (58 # 125 # os)"
    using jp_object_key [OF 8(3) b(2)] 8(5) by auto
  obtain c' where c': "print_json j c = Some c'"
      "jp c' ((out @ sep first @ quoted k @ [58]) @ sep True @ json_text j) False (125 # os)"
    using 8(1) [OF c(2) e(1)] 8(4,5,6) e(2) b by auto
  from 8(2) [OF c'(2) 8(4)] 8(5,6) show ?case using c(1) c'(1) by (auto simp: sep_def)
qed (auto simp: closes_def dest: jp_uint32 jp_uint64 jp_boolean jp_string)

text \<open>A complete document.\<close>

definition print_document :: "bytes \<Rightarrow> json \<Rightarrow> bytes \<Rightarrow> bytes option" where
  "print_document stack j out = do {
     ctx \<leftarrow> json_printer_begin stack out; ctx \<leftarrow> print_json j ctx; json_printer_end ctx }"

lemma print_document_text:
  assumes "length stack = 32" "json_printable j" "json_levels j \<le> 30"
  shows "print_document stack j out = Some (out @ json_text j)"
proof -
  have e: "expects_value [0]" "after_value [0] = [0]" by (simp_all add: expects_value_def after_value_def)
  obtain c where c: "json_printer_begin stack out = Some c" "jp c out True [0]"
    using jp_begin [OF assms(1), of out] by (elim exE conjE)
  obtain c' f where c': "print_json j c = Some c'" "jp c' (out @ sep True @ json_text j) f [0]"
    using jp_print_json(1) [OF c(2) e(1) assms(2)] assms(3) e(2) by auto
  show ?thesis using c(1) c'(1) jp_end [OF c'(2)] by (simp add: print_document_def sep_def)
qed

section \<open>The JSON of the standard\<close>

text \<open>
  The text of a document as RFC 8259 has it, without regard to the printer: in a string the quote and the
  backslash have a backslash in front of them, five control characters have their short escapes, and all other
  characters, the slash among them, stand for themselves. \<open>json_text\<close> above is what the printer writes,
  with its own escapes.
\<close>

definition rfc_char :: "u8 \<Rightarrow> bytes" where
  "rfc_char c =
     (if c = 34 then [92, 34] else if c = 92 then [92, 92]
      else if c = 8 then [92, 98] else if c = 12 then [92, 102] else if c = 10 then [92, 110]
      else if c = 13 then [92, 114] else if c = 9 then [92, 116] else [c])"

definition rfc_string :: "bytes \<Rightarrow> bytes" where
  "rfc_string s = [34] @ concat (map rfc_char s) @ [34]"

definition separated :: "bytes list \<Rightarrow> bytes" where
  "separated ts = (case ts of [] \<Rightarrow> [] | t # ts \<Rightarrow> t @ concat (map (\<lambda>t. [44] @ t) ts))"

fun rfc_text :: "json \<Rightarrow> bytes" and rfc_member :: "bytes \<times> json \<Rightarrow> bytes" where
  "rfc_text (Json_Uint32 w) = dec_digits (unat w)"
| "rfc_text (Json_Uint64 w) = dec_digits (unat w)"
| "rfc_text (Json_Boolean b) = map of_char (if b then ''true'' else ''false'')"
| "rfc_text (Json_String s) = rfc_string s"
| "rfc_text (Json_Array js) = [91] @ separated (map rfc_text js) @ [93]"
| "rfc_text (Json_Object kvs) = [123] @ separated (map rfc_member kvs) @ [125]"
| "rfc_member (k, j) = rfc_string k @ [58] @ rfc_text j"

text \<open>A reader for strings, behind the opening quote; the escapes with \<open>u\<close> are left out.\<close>

definition unescape :: "u8 \<Rightarrow> u8 option" where
  "unescape e =
     (if e = 34 \<or> e = 92 \<or> e = 47 then Some e
      else if e = 98 then Some 8 else if e = 102 then Some 12 else if e = 110 then Some 10
      else if e = 114 then Some 13 else if e = 116 then Some 9 else None)"

fun read_string :: "bytes \<Rightarrow> (bytes \<times> bytes) option" where
  "read_string [] = None"
| "read_string [c] = (if c = 34 then Some ([], []) else None)"
| "read_string (c # d # rest) =
     (if c = 34 then Some ([], d # rest)
      else if c = 92 then do {
        e \<leftarrow> unescape d; (s, rest) \<leftarrow> read_string rest; Some (e # s, rest) }
      else if c < 32 then None
      else do { (s, rest) \<leftarrow> read_string (d # rest); Some (c # s, rest) })"

lemma read_string_plain:
  "c \<noteq> 34 \<Longrightarrow> c \<noteq> 92 \<Longrightarrow> 32 \<le> c \<Longrightarrow> ts \<noteq> [] \<Longrightarrow>
    read_string (c # ts) = Option.bind (read_string ts) (\<lambda>(s, rest). Some (c # s, rest))"
  by (cases ts) (auto simp: not_less)

text \<open>What the standard writes for a string is read back as it was.\<close>

lemma read_rfc_string:
  assumes "\<forall>c \<in> set s. 32 \<le> c \<or> c \<in> {8, 9, 10, 12, 13}"
  shows "read_string (concat (map rfc_char s) @ 34 # rest) = Some (s, rest)"
  using assms
proof (induction s)
  case Nil
  show ?case by (cases rest) simp_all
next
  case (Cons c s)
  then have ih: "read_string (concat (map rfc_char s) @ 34 # rest) = Some (s, rest)" by simp
  show ?case
  proof (cases "c \<in> {34, 92, 8, 9, 10, 12, 13}")
    case True
    then obtain d where d: "rfc_char c = [92, d]" "unescape d = Some c" by (auto simp: rfc_char_def unescape_def)
    then show ?thesis using ih by simp
  next
    case False
    then have "rfc_char c = [c]" "32 \<le> c" using Cons.prems by (auto simp: rfc_char_def)
    then show ?thesis using False ih read_string_plain [of c "concat (map rfc_char s) @ 34 # rest"] by simp
  qed
qed

text \<open>The three characters whose escapes are not those of the standard.\<close>

definition clean :: "bytes \<Rightarrow> bool" where
  "clean s \<longleftrightarrow> (\<forall>c \<in> set s. c \<noteq> 0 \<and> c \<noteq> 34 \<and> c \<noteq> 47 \<and> c \<noteq> 92)"

fun json_clean :: "json \<Rightarrow> bool" where
  "json_clean (Json_String s) = clean s"
| "json_clean (Json_Array js) = list_all json_clean js"
| "json_clean (Json_Object kvs) = list_all (\<lambda>(k, j). clean k \<and> json_clean j) kvs"
| "json_clean _ = True"

lemma rfc_char_high: "c > 0x7f \<Longrightarrow> rfc_char c = [c]"
  by (auto simp: rfc_char_def)

lemma utf8_rest_high:
  assumes "utf8_rest n val = Some (w, r)"
  shows "\<forall>c \<in> set w. c > 0x7f"
  using assms
proof (induction n val arbitrary: w r rule: utf8_rest.induct)
  case (3 n c val)
  have "c > 0x7f" if "c AND 0xc0 = 0x80"
  proof -
    have "0x80 \<le> c" using word_and_le2 [of c "0xc0"] unfolding that .
    then show ?thesis by (simp add: word_le_nat_alt word_less_nat_alt)
  qed
  with 3 show ?case by (auto split: if_splits option.splits)
qed auto

lemma concat_rfc_high: "\<forall>c \<in> set w. c > 0x7f \<Longrightarrow> concat (map rfc_char w) = w"
  by (induction w) (simp_all add: rfc_char_high)

lemma clean_Cons: "clean (c # s) \<longleftrightarrow> c \<noteq> 0 \<and> c \<noteq> 34 \<and> c \<noteq> 47 \<and> c \<noteq> 92 \<and> clean s"
  by (simp add: clean_def)

text \<open>What the printer writes for a string is as long at least, and is the same just for clean strings.\<close>

lemma string_chars_rfc:
  "string_chars s = Some w \<Longrightarrow> 0 \<notin> set s \<Longrightarrow>
    length (concat (map rfc_char s)) \<le> length w \<and> (w = concat (map rfc_char s) \<longleftrightarrow> clean s)"
proof (induction s arbitrary: w rule: string_chars.induct)
  case (2 c val)
  have c: "c \<noteq> 0" "0 \<notin> set val" using 2(9) by auto
  show ?case
  proof (cases "c > 0x7f")
    case True
    then have n: "\<not> (0x20 \<le> c \<and> c < 0x7e)" "c \<noteq> 8" "c \<noteq> 12" "c \<noteq> 10" "c \<noteq> 13" "c \<noteq> 9"
      by (auto simp: word_less_nat_alt)
    with True 2(8) c(1) obtain len x r v where r: "utf8_length c = Some len" "utf8_rest (len - 1) val = Some (x, r)"
      "string_chars r = Some v" "w = c # x @ v" by (auto split: option.splits prod.splits)
    have val: "val = x @ r" using utf8_rest_length [OF r(2)] .
    have high: "\<forall>c \<in> set x. c > 0x7f" using utf8_rest_high [OF r(2)] .
    have "clean (c # val) = clean r" using True high by (auto simp: clean_def val)
    moreover have "0 \<notin> set r" using c(2) val by simp
    ultimately show ?thesis using 2(7) [OF c(1) n True r(1,2) refl r(3)] high True
      by (simp add: val r(4) rfc_char_high concat_rfc_high)
  next
    case low: False
    have "\<exists>p v. w = p @ v \<and> string_chars val = Some v \<and>
        p = (if c = 34 \<or> c = 92 \<or> c = 47 then [47, c] else rfc_char c)"
      using 2(8) c(1) low by (auto simp: rfc_char_def split: if_splits)
    then obtain p v where v: "w = p @ v" "string_chars val = Some v"
      "p = (if c = 34 \<or> c = 92 \<or> c = 47 then [47, c] else rfc_char c)" by blast
    have ih: "length (concat (map rfc_char val)) \<le> length v" "v = concat (map rfc_char val) \<longleftrightarrow> clean val"
    proof -
      consider "0x20 \<le> c \<and> c < 0x7e" | "\<not> (0x20 \<le> c \<and> c < 0x7e)" "c = 8 \<or> c = 12 \<or> c = 10 \<or> c = 13 \<or> c = 9"
        using 2(8) c(1) low by (auto split: if_splits)
      then have "length (concat (map rfc_char val)) \<le> length v \<and> (v = concat (map rfc_char val) \<longleftrightarrow> clean val)"
      proof cases
        case 1
        from 2(1) [OF c(1) 1 v(2) c(2)] show ?thesis .
      next
        case 2
        then show ?thesis using "2.IH"(2-6) [OF c(1)] v(2) c(2) by auto
      qed
      then show "length (concat (map rfc_char val)) \<le> length v" "v = concat (map rfc_char val) \<longleftrightarrow> clean val" by blast+
    qed
    show ?thesis
    proof (cases "c = 34 \<or> c = 92 \<or> c = 47")
      case True
      then have "rfc_char c = [92, c] \<or> rfc_char c = [c] \<and> c = 47" "\<not> clean (c # val)" by (auto simp: rfc_char_def clean_Cons)
      moreover have "[47, 47] @ v \<noteq> 47 # concat (map rfc_char val)" using ih(1) by (auto dest: arg_cong [where f = length])
      ultimately show ?thesis using True ih(1) by (elim disjE) (simp_all add: v(1,3))
    next
      case False
      then have "clean (c # val) = clean val" using c(1) by (simp add: clean_Cons)
      then show ?thesis using False ih by (simp add: v(1,3))
    qed
  qed
qed (simp add: clean_def)

lemma quoted_clean: "printable s \<Longrightarrow> 0 \<notin> set s \<Longrightarrow> quoted s = rfc_string s \<longleftrightarrow> clean s"
  using string_chars_rfc [of s] by (auto simp: printable_def quoted_def rfc_string_def)

lemma clean_quoted: "printable s \<Longrightarrow> clean s \<Longrightarrow> quoted s = rfc_string s"
  using quoted_clean [of s] by (auto simp: clean_def)

lemma json_text_clean:
  "json_printable j \<Longrightarrow> json_clean j \<Longrightarrow> json_text j = rfc_text j"
  "elems_printable js \<Longrightarrow> list_all json_clean js \<Longrightarrow>
    elems_text True js = separated (map rfc_text js) \<and> elems_text False js = concat (map (\<lambda>j. [44] @ rfc_text j) js)"
  "members_printable kvs \<Longrightarrow> list_all (\<lambda>(k, j). clean k \<and> json_clean j) kvs \<Longrightarrow>
    members_text True kvs = separated (map rfc_member kvs) \<and>
    members_text False kvs = concat (map (\<lambda>m. [44] @ rfc_member m) kvs)"
  by (induction j and js and kvs rule: json_printable_elems_printable_members_printable.induct)
    (simp_all add: clean_quoted separated_def sep_def bool_text_def comp_def)

end
