(* ===== verification/Search.thy ===== *)
theory Search
  imports Json_Printer Json_Events State_Check "HOL-Library.Char_ord"
begin

text \<open>
  The search tool (\<open>src/src/bin/honas_search.c\<close>): the callbacks that read a search job, look its
  hashes up in a state and print the result document. Logging is left out.
\<close>

section \<open>Hashes as text\<close>

definition decode_nibble :: "u8 \<Rightarrow> nat option" where
  "decode_nibble c =
     (if 48 \<le> c \<and> c \<le> 57 then Some (unat c - 48)
      else if 65 \<le> c \<and> c \<le> 70 then Some (unat c - 65 + 10)
      else if 97 \<le> c \<and> c \<le> 102 then Some (unat c - 97 + 10)
      else None)"

fun decode_pairs :: "bytes \<Rightarrow> bytes option" where
  "decode_pairs (a # b # str) =
     (case (decode_nibble a, decode_nibble b) of
        (Some high, Some low) \<Rightarrow> map_option (\<lambda>r. of_nat (16 * high + low) # r) (decode_pairs str)
      | _ \<Rightarrow> None)"
| "decode_pairs _ = Some []"

definition decode_string_hex :: "bytes \<Rightarrow> nat \<Rightarrow> bytes option" where
  "decode_string_hex str declen = (if length str \<noteq> declen * 2 then None else decode_pairs str)"

section \<open>General information\<close>

definition ascii :: "string \<Rightarrow> bytes" where "ascii s = map of_char s"

definition bloom_fill_rate :: "u32 \<Rightarrow> u32 \<Rightarrow> real" where
  "bloom_fill_rate s m = real (unat s) / real (unat m)"

definition bloom_actual_fpr :: "real \<Rightarrow> u32 \<Rightarrow> real" where
  "bloom_actual_fpr fr k = fr ^ unat k"

definition get_version_string :: "u32 \<Rightarrow> u32 \<Rightarrow> bytes" where
  "get_version_string major minor = dec_digits (unat major) @ [46] @ dec_digits (unat minor)"

text \<open>
  What the tool uses from outside: the state, the version of the build, \<open>printf\<close> of a double with ten
  decimals, and for bit sets the addresses of the two and the population count of the build.
\<close>

record search_env =
  env_state :: honas_state
  env_version :: bytes
  env_fixed10 :: "real \<Rightarrow> bytes"
  env_group_addr :: nat
  env_host_addr :: nat
  env_popcount_size :: nat
  env_popcount :: "nat \<Rightarrow> nat"

text \<open>A run of pairs; the constructor of the value selects the function of the printer.\<close>

fun print_pairs :: "(bytes \<times> json) list \<Rightarrow> json_printer \<Rightarrow> json_printer option" where
  "print_pairs [] ctx = Some ctx"
| "print_pairs ((key, Json_Uint32 w) # ps) ctx = do { ctx \<leftarrow> json_printer_object_pair_uint32 key w ctx; print_pairs ps ctx }"
| "print_pairs ((key, Json_Uint64 w) # ps) ctx = do { ctx \<leftarrow> json_printer_object_pair_uint64 key w ctx; print_pairs ps ctx }"
| "print_pairs ((key, Json_Boolean b) # ps) ctx = do { ctx \<leftarrow> json_printer_object_pair_boolean key b ctx; print_pairs ps ctx }"
| "print_pairs ((key, Json_String s) # ps) ctx = do { ctx \<leftarrow> json_printer_object_pair_string key s ctx; print_pairs ps ctx }"
| "print_pairs ((key, _) # ps) ctx = None"

definition header_pairs :: "search_env \<Rightarrow> (bytes \<times> json) list" where
  "header_pairs env = (let h = header (env_state env) in
     [(ascii ''node_version'', Json_String (env_version env)),
      (ascii ''state_file_version'', Json_String (get_version_string (major_version h) (minor_version h))),
      (ascii ''period_begin'', Json_Uint64 (period_begin h)),
      (ascii ''first_request'', Json_Uint64 (first_request h)),
      (ascii ''last_request'', Json_Uint64 (last_request h)),
      (ascii ''period_end'', Json_Uint64 (period_end h)),
      (ascii ''estimated_number_of_clients'', Json_Uint32 (estimated_number_of_clients h)),
      (ascii ''estimated_number_of_host_names'', Json_Uint32 (estimated_number_of_host_names h)),
      (ascii ''number_of_requests'', Json_Uint32 (ucast (number_of_requests h))),
      (ascii ''number_of_filters'', Json_Uint32 (number_of_filters h)),
      (ascii ''number_of_filters_per_user'', Json_Uint32 (number_of_filters_per_user h)),
      (ascii ''number_of_hashes'', Json_Uint32 (number_of_hashes h)),
      (ascii ''number_of_bits_per_filter'', Json_Uint32 (number_of_bits_per_filter h)),
      (ascii ''flatten_threshold'', Json_Uint32 (flatten_threshold h))])"

text \<open>The numbers of one filter; the buffer for the false positive rate has 64 bytes.\<close>

definition filter_pairs :: "search_env \<Rightarrow> nat \<Rightarrow> (bytes \<times> json) list" where
  "filter_pairs env i =
     (let h = header (env_state env); bits = filter_bits_set (env_state env) i;
          filter_size = unat (drop_bit 3 (number_of_bits_per_filter h));
          act_fpr = bloom_actual_fpr (bloom_fill_rate bits (number_of_bits_per_filter h)) (number_of_hashes h)
      in [(ascii ''number_of_bits_set'', Json_Uint32 bits),
          (ascii ''estimated_number_of_host_names'',
             Json_Uint32 (bloom_approx_count filter_size (unat (number_of_hashes h)) (unat bits))),
          (ascii ''actual_false_positive_rate'', Json_String (take 63 (env_fixed10 env act_fpr)))])"

fun print_filters :: "search_env \<Rightarrow> nat list \<Rightarrow> json_printer \<Rightarrow> json_printer option" where
  "print_filters env [] ctx = Some ctx"
| "print_filters env (i # is) ctx = do {
     c_assert (view_ok (env_state env) (HEADER_SIZE + 4 * i, 4));
     ctx \<leftarrow> json_printer_object_begin ctx;
     ctx \<leftarrow> print_pairs (filter_pairs env i) ctx;
     ctx \<leftarrow> json_printer_object_end ctx;
     print_filters env is ctx
   }"

definition add_general_information :: "search_env \<Rightarrow> json_printer \<Rightarrow> json_printer option" where
  "add_general_information env ctx = do {
     ctx \<leftarrow> print_pairs (header_pairs env) ctx;
     ctx \<leftarrow> json_printer_object_key (ascii ''filters'') ctx;
     ctx \<leftarrow> json_printer_array_begin ctx;
     ctx \<leftarrow> print_filters env [0..<unat (number_of_filters (header (env_state env)))] ctx;
     json_printer_array_end ctx
   }"

section \<open>The callbacks\<close>

datatype search_spec_state =
    INIT | SEARCH_SPEC | SEARCH_SPEC_EXPECT_GROUPS_ARRAY | GROUPS_ARRAY | GROUP | GROUP_EXPECT_ID
  | GROUP_EXPECT_HOST_NAME_MAP | HOST_NAME_MAP | HOST_NAME_MAP_EXPECT_VALUE

record search_spec_context =
  ss_state :: search_spec_state
  flatten_results :: bool
  printer :: json_printer
  group_id :: u64
  group_has_results :: bool
  group_all_host_names_found :: bool
  group_filters_hit :: bitset
  host_name_filters_hit :: bitset
  host_name_key :: bytes
  host_name_key_alloc :: nat

definition search_spec_integer :: "int \<Rightarrow> search_spec_context \<Rightarrow> (int \<times> search_spec_context) option" where
  "search_spec_integer v ctx =
     (if ss_state ctx = GROUP_EXPECT_ID then Some (1, ctx\<lparr>group_id := of_int v, ss_state := GROUP\<rparr>)
      else Some (0, ctx))"

text \<open>Looking a hash up: which bit set the filters go to, the hits, and the bit sets after it.\<close>

definition lookup_hash :: "search_env \<Rightarrow> bytes \<Rightarrow> search_spec_context \<Rightarrow> (nat \<times> search_spec_context) option" where
  "lookup_hash env hash ctx =
     (let st = env_state env in
      if \<not> group_all_host_names_found ctx then do {
        (hits, _) \<leftarrow> honas_state_check_host_name_lookups st hash None;
        Some (hits, ctx)
      }
      else if group_has_results ctx then do {
        b \<leftarrow> bitset_clear (host_name_filters_hit ctx);
        (hits, b) \<leftarrow> honas_state_check_host_name_lookups st hash (Some b);
        Some (hits, ctx\<lparr>host_name_filters_hit := the b\<rparr>)
      }
      else do {
        b \<leftarrow> bitset_clear (group_filters_hit ctx);
        (hits, b) \<leftarrow> honas_state_check_host_name_lookups st hash (Some b);
        Some (hits, ctx\<lparr>group_filters_hit := the b\<rparr>)
      })"

definition flatten_hits :: "search_env \<Rightarrow> bool \<Rightarrow> nat \<Rightarrow> nat" where
  "flatten_hits env flat hits =
     (if flat then if hits < unat (number_of_filters_per_user (header (env_state env))) then 0 else 1 else hits)"

text \<open>A host name with hits: the first one of a group opens the object of the group.\<close>

definition report_hits :: "search_env \<Rightarrow> nat \<Rightarrow> search_spec_context \<Rightarrow> search_spec_context option" where
  "report_hits env hits ctx =
     (if 0 < hits then do {
        ctx \<leftarrow> (if \<not> group_has_results ctx then do {
            p \<leftarrow> json_printer_object_begin (printer ctx);
            p \<leftarrow> json_printer_object_key (ascii ''hostnames'') p;
            p \<leftarrow> json_printer_object_begin p;
            Some (ctx\<lparr>printer := p, group_has_results := True\<rparr>)
          }
          else if group_all_host_names_found ctx then do {
            b \<leftarrow> bitset_bitwise_and (env_group_addr env) (group_filters_hit ctx)
                   (env_host_addr env) (host_name_filters_hit ctx);
            Some (ctx\<lparr>group_filters_hit := b\<rparr>)
          }
          else Some ctx);
        p \<leftarrow> json_printer_object_pair_uint32 (host_name_key ctx) (of_nat hits) (printer ctx);
        Some (ctx\<lparr>printer := p\<rparr>)
      }
      else Some (ctx\<lparr>group_all_host_names_found := False\<rparr>))"

text \<open>The copy of the text for the log has 1024 bytes.\<close>

definition search_spec_string ::
  "search_env \<Rightarrow> bytes \<Rightarrow> search_spec_context \<Rightarrow> (int \<times> search_spec_context) option" where
  "search_spec_string env s ctx =
     (if ss_state ctx = HOST_NAME_MAP_EXPECT_VALUE then do {
        let ctx = ctx\<lparr>ss_state := HOST_NAME_MAP\<rparr>;
        c_assert (length s \<le> 1024);
        case decode_string_hex s (length s div 2) of
          None \<Rightarrow> Some (1, ctx)
        | Some hash \<Rightarrow> do {
            (hits, ctx) \<leftarrow> lookup_hash env hash ctx;
            ctx \<leftarrow> report_hits env (flatten_hits env (flatten_results ctx) hits) ctx;
            Some (1, ctx)
          }
      }
      else Some (0, ctx))"

definition search_spec_map_key :: "bytes \<Rightarrow> search_spec_context \<Rightarrow> (int \<times> search_spec_context) option" where
  "search_spec_map_key s ctx =
     (case ss_state ctx of
        SEARCH_SPEC \<Rightarrow> Some (1, if s = ascii ''groups'' then ctx\<lparr>ss_state := SEARCH_SPEC_EXPECT_GROUPS_ARRAY\<rparr> else ctx)
      | GROUP \<Rightarrow>
          Some (1, if s = ascii ''id'' then ctx\<lparr>ss_state := GROUP_EXPECT_ID\<rparr>
                   else if s = ascii ''hostnames'' then ctx\<lparr>ss_state := GROUP_EXPECT_HOST_NAME_MAP\<rparr>
                   else ctx)
      | HOST_NAME_MAP \<Rightarrow>
          Some (1, ctx\<lparr>host_name_key_alloc :=
                         (if host_name_key_alloc ctx < length s + 1 then (length s + 1) * 2 else host_name_key_alloc ctx),
                       host_name_key := s, ss_state := HOST_NAME_MAP_EXPECT_VALUE\<rparr>)
      | _ \<Rightarrow> Some (0, ctx))"

definition search_spec_start_map ::
  "search_env \<Rightarrow> search_spec_context \<Rightarrow> (int \<times> search_spec_context) option" where
  "search_spec_start_map env ctx =
     (case ss_state ctx of
        INIT \<Rightarrow> do {
          p \<leftarrow> json_printer_object_begin (printer ctx);
          p \<leftarrow> add_general_information env p;
          Some (1, ctx\<lparr>printer := p, ss_state := SEARCH_SPEC\<rparr>)
        }
      | GROUPS_ARRAY \<Rightarrow>
          Some (1, ctx\<lparr>group_id := 0, group_has_results := False, group_all_host_names_found := True,
                       ss_state := GROUP\<rparr>)
      | GROUP_EXPECT_HOST_NAME_MAP \<Rightarrow> Some (1, ctx\<lparr>ss_state := HOST_NAME_MAP\<rparr>)
      | _ \<Rightarrow> Some (0, ctx))"

text \<open>The end of a group that has results.\<close>

definition finish_group :: "search_env \<Rightarrow> search_spec_context \<Rightarrow> json_printer option" where
  "finish_group env ctx = do {
     p \<leftarrow> json_printer_object_end (printer ctx);
     p \<leftarrow> json_printer_object_pair_uint64 (ascii ''id'') (group_id ctx) p;
     hits \<leftarrow> bitset_popcount (env_popcount_size env) (env_popcount env) (env_group_addr env) (group_filters_hit ctx);
     let hits = flatten_hits env (flatten_results ctx) hits;
     p \<leftarrow> json_printer_object_pair_uint32 (ascii ''hits_by_all_hostnames'')
            (if group_all_host_names_found ctx then of_nat hits else 0) p;
     json_printer_object_end p
   }"

definition search_spec_end_map ::
  "search_env \<Rightarrow> search_spec_context \<Rightarrow> (int \<times> search_spec_context) option" where
  "search_spec_end_map env ctx =
     (case ss_state ctx of
        SEARCH_SPEC \<Rightarrow> do {
          p \<leftarrow> json_printer_object_end (printer ctx);
          Some (1, ctx\<lparr>printer := p, ss_state := INIT\<rparr>)
        }
      | GROUP \<Rightarrow>
          (if group_has_results ctx then do {
             p \<leftarrow> finish_group env ctx;
             Some (1, ctx\<lparr>printer := p, ss_state := GROUPS_ARRAY\<rparr>)
           }
           else Some (1, ctx\<lparr>ss_state := GROUPS_ARRAY\<rparr>))
      | HOST_NAME_MAP \<Rightarrow> Some (1, ctx\<lparr>ss_state := GROUP\<rparr>)
      | _ \<Rightarrow> Some (0, ctx))"

definition search_spec_start_array :: "search_spec_context \<Rightarrow> (int \<times> search_spec_context) option" where
  "search_spec_start_array ctx =
     (if ss_state ctx = SEARCH_SPEC_EXPECT_GROUPS_ARRAY then do {
        p \<leftarrow> json_printer_object_pair_boolean (ascii ''flattened_results'') (flatten_results ctx) (printer ctx);
        p \<leftarrow> json_printer_object_key (ascii ''groups'') p;
        p \<leftarrow> json_printer_array_begin p;
        Some (1, ctx\<lparr>printer := p, ss_state := GROUPS_ARRAY\<rparr>)
      }
      else Some (0, ctx))"

definition search_spec_end_array :: "search_spec_context \<Rightarrow> (int \<times> search_spec_context) option" where
  "search_spec_end_array ctx =
     (if ss_state ctx = GROUPS_ARRAY then do {
        p \<leftarrow> json_printer_array_end (printer ctx);
        Some (1, ctx\<lparr>printer := p, ss_state := SEARCH_SPEC\<rparr>)
      }
      else Some (0, ctx))"

definition search_spec_json_callbacks :: "search_env \<Rightarrow> search_spec_context yajl_callbacks" where
  "search_spec_json_callbacks env = \<lparr>
     yajl_integer = search_spec_integer,
     yajl_string = search_spec_string env,
     yajl_start_map = search_spec_start_map env,
     yajl_map_key = search_spec_map_key,
     yajl_end_map = search_spec_end_map env,
     yajl_start_array = search_spec_start_array,
     yajl_end_array = search_spec_end_array\<rparr>"

section \<open>The search\<close>

fun search_read_loop ::
  "'h yajl \<Rightarrow> 's yajl_callbacks \<Rightarrow> bytes list \<Rightarrow> 'h \<Rightarrow> 's \<Rightarrow> (yajl_status \<times> 'h \<times> 's) option" where
  "search_read_loop y cbs [] h ctx = Some (Yajl_Status_Ok, h, ctx)"
| "search_read_loop y cbs (buf # bufs) h ctx =
     (case yajl_parse y cbs buf h ctx of
        None \<Rightarrow> None
      | Some (Yajl_Status_Ok, h', ctx') \<Rightarrow> search_read_loop y cbs bufs h' ctx'
      | Some r \<Rightarrow> Some r)"

text \<open>
  The contents of the job file give the text that is written after \<open>out\<close>. \<open>stack\<close> is what the stack of
  the printer holds at first. A job that is no valid search ends the process, as an allocation that fails.
\<close>

definition perform_search_job ::
  "'h yajl \<Rightarrow> search_env \<Rightarrow> bool \<Rightarrow> u32 \<Rightarrow> bytes \<Rightarrow> bytes \<Rightarrow> bytes \<Rightarrow> bytes option" where
  "perform_search_job y env alloc_ok threshold job stack out = do {
     let h = header (env_state env);
     let n = unat (number_of_filters h);
     gb \<leftarrow> bitset_create alloc_ok n;
     hb \<leftarrow> bitset_create alloc_ok n;
     p \<leftarrow> json_printer_begin stack out;
     let ctx = \<lparr>ss_state = INIT, flatten_results = (estimated_number_of_host_names h < threshold), printer = p,
                group_id = 0, group_has_results = False, group_all_host_names_found = False,
                group_filters_hit = gb, host_name_filters_hit = hb, host_name_key = [], host_name_key_alloc = 0\<rparr>;
     yh \<leftarrow> y_alloc y;
     (status, yh, ctx) \<leftarrow> search_read_loop y (search_spec_json_callbacks env) (blocks READ_BLOCK_SIZE job) yh ctx;
     (status, yh, ctx) \<leftarrow> (if status = Yajl_Status_Ok
        then yajl_complete_parse y (search_spec_json_callbacks env) yh ctx else Some (status, yh, ctx));
     c_assert (status = Yajl_Status_Ok);
     json_printer_end (printer ctx)
   }"

end
