(* ===== verification/Search_Output.thy ===== *)
theory Search_Output
  imports Search
begin

text \<open>
  The result document of a search as a function of the job: what the callbacks print for a well formed
  job is the text of that document, with the hits of every host name and of every group.
\<close>

section \<open>Runs of pairs\<close>

definition plain :: "u8 \<Rightarrow> bool" where
  "plain c \<longleftrightarrow> 0x20 \<le> c \<and> c < 0x7e \<and> c \<noteq> 34 \<and> c \<noteq> 92 \<and> c \<noteq> 47"

lemma string_chars_plain: "\<forall>c \<in> set s. plain c \<Longrightarrow> string_chars s = Some s"
proof (induction s)
  case (Cons c s)
  then have p: "plain c" by simp
  then have "c \<noteq> 0" by (auto simp: plain_def)
  then show ?case using Cons p by (simp add: plain_def)
qed simp

lemma printable_plain: "\<forall>c \<in> set s. plain c \<Longrightarrow> printable s"
  by (simp add: printable_def string_chars_plain)

lemma printable_ascii: "(\<forall>c \<in> set s. plain (of_char c)) \<Longrightarrow> printable (ascii s)"
  by (rule printable_plain) (simp add: ascii_def)

lemma plain_digits: "\<forall>c \<in> set (dec_digits n). plain c"
proof
  fix c assume "c \<in> set (dec_digits n)"
  then have "is_digit 10 c" using dec_digits_digits by blast
  from is_digit_10 [OF this] have c: "48 \<le> c" "c \<le> 57" by simp_all
  have "0x20 \<le> c" using order_trans [OF _ c(1), of 32] by simp
  moreover have "c < 0x7e" using le_less_trans [OF c(2), of 126] by simp
  ultimately show "plain c" using c by (auto simp: plain_def)
qed

fun scalar :: "json \<Rightarrow> bool" where
  "scalar (Json_Array _) = False"
| "scalar (Json_Object _) = False"
| "scalar _ = True"

lemma members_text_append:
  "members_text first (xs @ ys) = members_text first xs @ members_text (first \<and> xs = []) ys"
  by (induction xs arbitrary: first) auto

lemma elems_text_append:
  "elems_text first (xs @ ys) = elems_text first xs @ elems_text (first \<and> xs = []) ys"
  by (induction xs arbitrary: first) auto

lemma bind_exI: "\<exists>c. m = Some c \<and> P c \<Longrightarrow> \<exists>c. (m \<bind> f) = f c \<and> P c"
  by auto

lemma jp_print_pairs:
  assumes "jp ctx out first (125 # os)" "\<forall>p \<in> set ps. printable (fst p) \<and> scalar (snd p) \<and> json_printable (snd p)"
  shows "\<exists>ctx'. print_pairs ps ctx = Some ctx' \<and> jp ctx' (out @ members_text first ps) (first \<and> ps = []) (125 # os)"
  using assms
proof (induction ps arbitrary: ctx out first)
  case (Cons p ps)
  obtain k j where p: "p = (k, j)" by (cases p)
  have k: "printable k" "scalar j" "json_printable j" using Cons.prems(2) p by simp_all
  have "\<exists>c. print_pairs (p # ps) ctx = print_pairs ps c \<and>
      jp c (out @ sep first @ quoted k @ [58] @ json_text j) False (125 # os)"
    using k jp_pair_uint32 [OF Cons.prems(1) k(1)] jp_pair_uint64 [OF Cons.prems(1) k(1)]
      jp_pair_boolean [OF Cons.prems(1) k(1)] jp_pair_string [OF Cons.prems(1) k(1)]
    by (cases j) (simp_all add: p bind_exI)
  then obtain c where c: "print_pairs (p # ps) ctx = print_pairs ps c"
      "jp c (out @ sep first @ quoted k @ [58] @ json_text j) False (125 # os)" by (elim exE conjE)
  from Cons.IH [OF c(2)] Cons.prems(2) show ?case by (simp add: c(1)) (simp add: p)
qed auto

section \<open>General information\<close>

definition env_ok :: "search_env \<Rightarrow> bool" where
  "env_ok env \<longleftrightarrow> filters_ok (env_state env) \<and> printable (env_version env) \<and>
     (\<forall>r. printable (take 63 (env_fixed10 env r))) \<and> env_group_addr env mod 8 = env_host_addr env mod 8 \<and>
     0 < env_popcount_size env \<and> popcount_correct (env_popcount_size env) (env_popcount env) \<and>
     (\<forall>i < length (filters (env_state env)). view_ok (env_state env) (HEADER_SIZE + 4 * i, 4))"

definition filters_json :: "search_env \<Rightarrow> json" where
  "filters_json env = Json_Array (map (\<lambda>i. Json_Object (filter_pairs env i))
     [0..<unat (number_of_filters (header (env_state env)))])"

definition general_members :: "search_env \<Rightarrow> (bytes \<times> json) list" where
  "general_members env = header_pairs env @ [(ascii ''filters'', filters_json env)]"

lemma header_pairs_ok:
  assumes "env_ok env"
  shows "\<forall>p \<in> set (header_pairs env). printable (fst p) \<and> scalar (snd p) \<and> json_printable (snd p)"
proof -
  have v: "printable (get_version_string a b)" for a b
    using plain_digits by (intro printable_plain) (auto simp: get_version_string_def plain_def)
  show ?thesis
    using assms v by (simp add: header_pairs_def Let_def env_ok_def printable_ascii plain_def)
qed

lemma filter_pairs_ok:
  assumes "env_ok env"
  shows "\<forall>p \<in> set (filter_pairs env i). printable (fst p) \<and> scalar (snd p) \<and> json_printable (snd p)"
  using assms by (simp add: filter_pairs_def Let_def env_ok_def printable_ascii plain_def)

lemma jp_print_filters:
  assumes "jp ctx out first (93 # os)" "os \<noteq> []" "length os < 29" "env_ok env" "\<forall>i \<in> set is. i < length (filters (env_state env))"
  shows "\<exists>ctx'. print_filters env is ctx = Some ctx' \<and>
    jp ctx' (out @ elems_text first (map (\<lambda>i. Json_Object (filter_pairs env i)) is)) (first \<and> is = []) (93 # os)"
  using assms(1,5)
proof (induction "is" arbitrary: ctx out first)
  case (Cons i "is")
  have v: "view_ok (env_state env) (HEADER_SIZE + 4 * i, 4)" using Cons.prems(2) assms(4) by (simp add: env_ok_def)
  have e: "expects_value (93 # os)" "after_value (93 # os) = 93 # os" by (simp_all add: expects_value_def after_value_def)
  obtain c1 where c1: "json_printer_object_begin ctx = Some c1" "jp c1 (out @ sep first @ [123]) True (125 # 93 # os)"
    using jp_object_begin [OF Cons.prems(1) e(1)] e(2) assms(3) by auto
  obtain c2 f where c2: "print_pairs (filter_pairs env i) c1 = Some c2"
      "jp c2 ((out @ sep first @ [123]) @ members_text True (filter_pairs env i)) f (125 # 93 # os)"
    using jp_print_pairs [OF c1(2) filter_pairs_ok [OF assms(4)]] by blast
  obtain c3 where c3: "json_printer_object_end c2 = Some c3"
      "jp c3 (((out @ sep first @ [123]) @ members_text True (filter_pairs env i)) @ [125]) False (93 # os)"
    using jp_object_end [OF c2(2)] assms(2) by auto
  show ?case
    using Cons.IH [OF c3(2)] Cons.prems(2) v by (simp add: c1(1) c2(1) c3(1))
qed auto

lemma jp_add_general:
  assumes "jp ctx out True (125 # os)" "length os < 25" "env_ok env" "os \<noteq> []"
  shows "\<exists>ctx'. add_general_information env ctx = Some ctx' \<and>
    jp ctx' (out @ members_text True (general_members env)) False (125 # os)"
proof -
  have n: "unat (number_of_filters (header (env_state env))) = length (filters (env_state env))"
    using assms(3) by (simp add: env_ok_def filters_ok_def)
  let ?js = "map (\<lambda>i. Json_Object (filter_pairs env i)) [0..<length (filters (env_state env))]"
  have ne: "header_pairs env \<noteq> []" by (simp add: header_pairs_def Let_def)
  obtain c1 where c1: "print_pairs (header_pairs env) ctx = Some c1"
      "jp c1 (out @ members_text True (header_pairs env)) False (125 # os)"
    using jp_print_pairs [OF assms(1) header_pairs_ok [OF assms(3)]] ne by auto
  have k: "printable (ascii ''filters'')" by (rule printable_ascii) (simp add: plain_def)
  obtain c2 where c2: "json_printer_object_key (ascii ''filters'') c1 = Some c2"
      "jp c2 ((out @ members_text True (header_pairs env)) @ sep False @ quoted (ascii ''filters'') @ [58]) True (58 # 125 # os)"
    using jp_object_key [OF c1(2) _ k] assms(2) by auto
  have e: "expects_value (58 # 125 # os)" "after_value (58 # 125 # os) = 125 # os"
    by (simp_all add: expects_value_def after_value_def)
  obtain c3 where c3: "json_printer_array_begin c2 = Some c3"
      "jp c3 (((out @ members_text True (header_pairs env)) @ sep False @ quoted (ascii ''filters'') @ [58]) @ sep True @ [91])
         True (93 # 125 # os)"
    using jp_array_begin [OF c2(2) e(1)] e(2) assms(2) by auto
  obtain c4 f where c4: "print_filters env [0..<length (filters (env_state env))] c3 = Some c4"
      "jp c4 ((((out @ members_text True (header_pairs env)) @ sep False @ quoted (ascii ''filters'') @ [58]) @ sep True @ [91])
         @ elems_text True ?js) f (93 # 125 # os)"
    using jp_print_filters [OF c3(2), of env "[0..<length (filters (env_state env))]"] assms(2,3) by auto
  obtain c5 where c5: "json_printer_array_end c4 = Some c5"
      "jp c5 (((((out @ members_text True (header_pairs env)) @ sep False @ quoted (ascii ''filters'') @ [58]) @ sep True @ [91])
         @ elems_text True ?js) @ [93]) (length (125 # os) = 1) (125 # os)"
    using jp_array_end [OF c4(2)] by auto
  show ?thesis
    using c5(2) ne assms(4)
    by (simp add: add_general_information_def n c1(1) c2(1) c3(1) c4(1) c5(1) general_members_def
        members_text_append filters_json_def sep_def)
qed

section \<open>The abstract job and its result\<close>

type_synonym search_group = "int \<times> (bytes \<times> bytes) list"

definition name_events :: "bytes \<times> bytes \<Rightarrow> json_event list" where
  "name_events n = [Ev_Map_Key (fst n), Ev_String (snd n)]"

definition group_events :: "search_group \<Rightarrow> json_event list" where
  "group_events g =
     [Ev_Start_Map, Ev_Map_Key (ascii ''id''), Ev_Integer (fst g), Ev_Map_Key (ascii ''hostnames''), Ev_Start_Map] @
     concat (map name_events (snd g)) @ [Ev_End_Map, Ev_End_Map]"

definition job_events :: "search_group list \<Rightarrow> json_event list" where
  "job_events gs =
     [Ev_Start_Map, Ev_Map_Key (ascii ''groups''), Ev_Start_Array] @ concat (map group_events gs) @ [Ev_End_Array, Ev_End_Map]"

definition hash_of :: "bytes \<Rightarrow> bytes option" where
  "hash_of s = decode_string_hex s (length s div 2)"

text \<open>A host name that can be printed and text that is no hash at all or a hash of the right length.\<close>

definition name_valid :: "bytes \<times> bytes \<Rightarrow> bool" where
  "name_valid n \<longleftrightarrow> printable (fst n) \<and> length (snd n) \<le> 1024 \<and> (\<forall>h. hash_of (snd n) = Some h \<longrightarrow> sha_hash h)"

definition job_valid :: "search_group list \<Rightarrow> bool" where
  "job_valid gs \<longleftrightarrow> (\<forall>g \<in> set gs. \<forall>n \<in> set (snd g). name_valid n)"

text \<open>The host names with a hash, those that are found, and the members that are printed for them.\<close>

fun looked_up :: "(bytes \<times> bytes) list \<Rightarrow> (bytes \<times> bytes) list" where
  "looked_up [] = []"
| "looked_up ((n, s) # ns) = (case hash_of s of None \<Rightarrow> looked_up ns | Some h \<Rightarrow> (n, h) # looked_up ns)"

definition hits_of :: "search_env \<Rightarrow> bool \<Rightarrow> bytes \<Rightarrow> nat" where
  "hits_of env flat hash = flatten_hits env flat (card (hit_filters (env_state env) hash))"

definition found :: "search_env \<Rightarrow> bool \<Rightarrow> (bytes \<times> bytes) list \<Rightarrow> (bytes \<times> bytes) list" where
  "found env flat ds = filter (\<lambda>d. 0 < hits_of env flat (snd d)) ds"

definition hit_member :: "search_env \<Rightarrow> bool \<Rightarrow> bytes \<times> bytes \<Rightarrow> bytes \<times> json" where
  "hit_member env flat d = (fst d, Json_Uint32 (of_nat (hits_of env flat (snd d))))"

definition common_filters :: "search_env \<Rightarrow> (bytes \<times> bytes) list \<Rightarrow> nat set" where
  "common_filters env ds = (\<Inter>d \<in> set ds. hit_filters (env_state env) (snd d))"

definition group_result :: "search_env \<Rightarrow> bool \<Rightarrow> search_group \<Rightarrow> json list" where
  "group_result env flat g =
     (let ds = looked_up (snd g); fs = found env flat ds in
      if fs = [] then []
      else [Json_Object
        [(ascii ''hostnames'', Json_Object (map (hit_member env flat) fs)),
         (ascii ''id'', Json_Uint64 (of_int (fst g))),
         (ascii ''hits_by_all_hostnames'',
            Json_Uint32 (if fs = ds then of_nat (flatten_hits env flat (card (common_filters env ds))) else 0))]])"

definition result_json :: "search_env \<Rightarrow> bool \<Rightarrow> search_group list \<Rightarrow> json" where
  "result_json env flat gs = Json_Object (general_members env @
     [(ascii ''flattened_results'', Json_Boolean flat),
      (ascii ''groups'', Json_Array (concat (map (group_result env flat) gs)))])"

section \<open>One group\<close>

abbreviation (input) in_groups :: bytes where "in_groups \<equiv> [93, 125, 0]"
abbreviation (input) in_names :: bytes where "in_names \<equiv> 125 # 125 # in_groups"

definition names_start :: bytes where "names_start = [123] @ quoted (ascii ''hostnames'') @ [58] @ [123]"

text \<open>
  The context after the host names with the hashes \<open>ds\<close>, of which \<open>fs\<close> were found: the printer, the
  flags and the filters that all of them hit.
\<close>

definition progress ::
  "search_env \<Rightarrow> bool \<Rightarrow> bytes \<Rightarrow> bool \<Rightarrow> (bytes \<times> bytes) list \<Rightarrow> (bytes \<times> bytes) list \<Rightarrow> search_spec_context \<Rightarrow> bool" where
  "progress env flat out first fs ds ctx \<longleftrightarrow>
     flatten_results ctx = flat \<and> group_has_results ctx = (fs \<noteq> []) \<and>
     group_all_host_names_found ctx = (fs = ds) \<and> length fs \<le> length ds \<and>
     bitset_wf (group_filters_hit ctx) \<and> bs_num_bits (group_filters_hit ctx) = length (filters (env_state env)) \<and>
     bitset_wf (host_name_filters_hit ctx) \<and> bs_num_bits (host_name_filters_hit ctx) = length (filters (env_state env)) \<and>
     (fs \<noteq> [] \<and> fs = ds \<longrightarrow> bitset_ones (group_filters_hit ctx) = common_filters env fs) \<and>
     (if fs = [] then jp (printer ctx) out first in_groups
      else jp (printer ctx) (out @ sep first @ names_start @ members_text True (map (hit_member env flat) fs)) False in_names)"

text \<open>What a lookup leaves in the context: only the bit sets change.\<close>

lemma lookup_hash_eq:
  assumes env: "env_ok env" and h: "sha_hash hash" and p: "progress env flat out first fs ds ctx"
  shows "\<exists>g b. lookup_hash env hash ctx = Some (card (hit_filters (env_state env) hash),
            ctx\<lparr>group_filters_hit := g, host_name_filters_hit := b\<rparr>) \<and>
          bitset_wf g \<and> bs_num_bits g = length (filters (env_state env)) \<and>
          bitset_wf b \<and> bs_num_bits b = length (filters (env_state env)) \<and>
          (fs = ds \<longrightarrow> (if fs = [] then bitset_ones g = hit_filters (env_state env) hash
             else g = group_filters_hit ctx \<and> bitset_ones b = hit_filters (env_state env) hash))"
proof -
  let ?st = "env_state env"
  have ok: "filters_ok ?st" using env by (simp add: env_ok_def)
  have b: "bitset_wf (group_filters_hit ctx)" "bs_num_bits (group_filters_hit ctx) = length (filters ?st)"
    "bitset_wf (host_name_filters_hit ctx)" "bs_num_bits (host_name_filters_hit ctx) = length (filters ?st)"
    "group_has_results ctx = (fs \<noteq> [])" "group_all_host_names_found ctx = (fs = ds)"
    using p by (simp_all add: progress_def)
  have with_set: "\<exists>c d. bitset_clear x = Some c \<and>
      honas_state_check_host_name_lookups ?st hash (Some c) = Some (card (hit_filters ?st hash), Some d) \<and>
      bitset_wf d \<and> bs_num_bits d = length (filters ?st) \<and> bitset_ones d = hit_filters ?st hash"
    if x: "bitset_wf x" "bs_num_bits x = length (filters ?st)" for x
  proof -
    obtain c where c: "bitset_clear x = Some c" "bitset_wf c" "bs_num_bits c = bs_num_bits x" "bitset_ones c = {}"
      using bitset_clear_eq [OF x(1)] by (elim exE conjE)
    have "hit_ok (length (filters ?st)) (Some c)" using c x by (simp add: hit_ok_def)
    from check_eq [OF ok h this] show ?thesis using c x(2) by (auto simp: adds_def)
  qed
  let ?g = "group_filters_hit ctx" and ?h = "host_name_filters_hit ctx" and ?c = "card (hit_filters ?st hash)"
  show ?thesis
  proof (cases "fs = ds")
    case False
    have "hit_ok (length (filters ?st)) None" by (simp add: hit_ok_def)
    from check_eq [OF ok h this] have "honas_state_check_host_name_lookups ?st hash None = Some (?c, None)"
      by (auto simp: adds_def)
    then have "lookup_hash env hash ctx = Some (?c, ctx\<lparr>group_filters_hit := ?g, host_name_filters_hit := ?h\<rparr>)"
      using b False by (simp add: lookup_hash_def Let_def)
    then show ?thesis using b(1-4) False by (intro exI [of _ ?g] exI [of _ ?h]) simp
  next
    case True
    show ?thesis
    proof (cases "fs = []")
      case nil: True
      obtain c d where d: "bitset_clear ?g = Some c"
        "honas_state_check_host_name_lookups ?st hash (Some c) = Some (?c, Some d)"
        "bitset_wf d" "bs_num_bits d = length (filters ?st)" "bitset_ones d = hit_filters ?st hash"
        using with_set [OF b(1,2)] by (elim exE conjE)
      then have "lookup_hash env hash ctx = Some (?c, ctx\<lparr>group_filters_hit := d, host_name_filters_hit := ?h\<rparr>)"
        using b(5,6) True nil by (simp add: lookup_hash_def Let_def)
      then show ?thesis using b(3,4) d(3-5) nil by (intro exI [of _ d] exI [of _ ?h]) simp
    next
      case ne: False
      obtain c d where d: "bitset_clear ?h = Some c"
        "honas_state_check_host_name_lookups ?st hash (Some c) = Some (?c, Some d)"
        "bitset_wf d" "bs_num_bits d = length (filters ?st)" "bitset_ones d = hit_filters ?st hash"
        using with_set [OF b(3,4)] by (elim exE conjE)
      then have "lookup_hash env hash ctx = Some (?c, ctx\<lparr>group_filters_hit := ?g, host_name_filters_hit := d\<rparr>)"
        using b(5,6) True ne by (simp add: lookup_hash_def Let_def)
      then show ?thesis using b(1,2) d(3-5) ne by (intro exI [of _ ?g] exI [of _ d]) simp
    qed
  qed
qed

lemma printable_keys [simp]:
  "printable (ascii ''hostnames'')" "printable (ascii ''id'')" "printable (ascii ''hits_by_all_hostnames'')"
  "printable (ascii ''flattened_results'')" "printable (ascii ''groups'')"
  by (rule printable_ascii; simp add: plain_def)+

text \<open>The start of the object of a group.\<close>

lemma jp_names_start:
  assumes "jp p out first in_groups"
  shows "\<exists>p'. (do { p \<leftarrow> json_printer_object_begin p; p \<leftarrow> json_printer_object_key (ascii ''hostnames'') p;
                  json_printer_object_begin p }) = Some p' \<and>
    jp p' (out @ sep first @ names_start) True in_names"
proof -
  have e: "expects_value in_groups" "after_value in_groups = in_groups"
    "expects_value (58 # 125 # in_groups)" "after_value (58 # 125 # in_groups) = 125 # in_groups"
    by (simp_all add: expects_value_def after_value_def)
  obtain p1 where p1: "json_printer_object_begin p = Some p1" "jp p1 (out @ sep first @ [123]) True (125 # in_groups)"
    using jp_object_begin [OF assms e(1)] e(2) by auto
  obtain p2 where p2: "json_printer_object_key (ascii ''hostnames'') p1 = Some p2"
      "jp p2 ((out @ sep first @ [123]) @ sep True @ quoted (ascii ''hostnames'') @ [58]) True (58 # 125 # in_groups)"
    using jp_object_key [OF p1(2), of "ascii ''hostnames''"] by auto
  obtain p3 where p3: "json_printer_object_begin p2 = Some p3"
      "jp p3 (((out @ sep first @ [123]) @ sep True @ quoted (ascii ''hostnames'') @ [58]) @ sep True @ [123]) True in_names"
    using jp_object_begin [OF p2(2) e(3)] e(4) by auto
  then show ?thesis using p1(1) p2(1) by (simp add: names_start_def sep_def)
qed

text \<open>The fields that the lookups of a group leave alone.\<close>

definition same_group :: "search_spec_context \<Rightarrow> search_spec_context \<Rightarrow> bool" where
  "same_group ctx ctx' \<longleftrightarrow> group_id ctx' = group_id ctx \<and> ss_state ctx' = ss_state ctx"

lemma report_found:
  assumes env: "env_ok env" and p: "progress env flat out first fs ds ctx" and n: "printable (fst d)" "host_name_key ctx = fst d"
    and b: "bitset_wf g" "bs_num_bits g = length (filters (env_state env))"
      "bitset_wf b" "bs_num_bits b = length (filters (env_state env))"
      "fs = ds \<longrightarrow> (if fs = [] then bitset_ones g = hit_filters (env_state env) (snd d)
             else g = group_filters_hit ctx \<and> bitset_ones b = hit_filters (env_state env) (snd d))"
    and hits: "0 < hits_of env flat (snd d)"
  shows "\<exists>ctx'. report_hits env (hits_of env flat (snd d)) (ctx\<lparr>group_filters_hit := g, host_name_filters_hit := b\<rparr>) = Some ctx' \<and>
           progress env flat out first (fs @ [d]) (ds @ [d]) ctx' \<and> same_group ctx ctx'"
proof -
  let ?c = "ctx\<lparr>group_filters_hit := g, host_name_filters_hit := b\<rparr>"
  let ?hits = "hits_of env flat (snd d)"
  let ?text = "\<lambda>f. sep f @ quoted (fst d) @ [58] @ dec_digits (unat (of_nat ?hits :: u32))"
  have jpp: "\<exists>p'. json_printer_object_pair_uint32 (fst d) (of_nat ?hits) q = Some p' \<and> jp p' (o' @ ?text f) False in_names"
    if "jp q o' f in_names" for q o' f
    using jp_pair_uint32 [OF that n(1), of "of_nat ?hits"] by simp
  show ?thesis
  proof (cases "fs = []")
    case nil: True
    obtain q where q: "(do { p \<leftarrow> json_printer_object_begin (printer ctx);
          p \<leftarrow> json_printer_object_key (ascii ''hostnames'') p; json_printer_object_begin p }) = Some q"
        "jp q (out @ sep first @ names_start) True in_names"
      using jp_names_start [of "printer ctx" out first] p nil by (auto simp: progress_def)
    obtain q' where q': "json_printer_object_pair_uint32 (fst d) (of_nat ?hits) q = Some q'"
        "jp q' ((out @ sep first @ names_start) @ ?text True) False in_names"
      using jpp [OF q(2)] by (elim exE conjE)
    let ?r = "?c\<lparr>printer := q', group_has_results := True\<rparr>"
    have "report_hits env ?hits ?c = Some ?r"
      using q(1) q'(1) hits p nil n(2) by (auto simp: report_hits_def progress_def bind_eq_Some_conv)
    moreover have "progress env flat out first (fs @ [d]) (ds @ [d]) ?r"
      using p nil b q'(2) by (auto simp: progress_def common_filters_def hit_member_def)
    ultimately show ?thesis by (auto simp: same_group_def)
  next
    case ne: False
    have j: "jp (printer ctx) (out @ sep first @ names_start @ members_text True (map (hit_member env flat) fs)) False in_names"
      using p ne by (simp add: progress_def)
    obtain q where q: "json_printer_object_pair_uint32 (fst d) (of_nat ?hits) (printer ctx) = Some q"
        "jp q ((out @ sep first @ names_start @ members_text True (map (hit_member env flat) fs)) @ ?text False) False in_names"
      using jpp [OF j] by (elim exE conjE)
    have j': "jp q (out @ sep first @ names_start @ members_text True (map (hit_member env flat) (fs @ [d]))) False in_names"
      using q(2) ne by (simp add: members_text_append hit_member_def)
    show ?thesis
    proof (cases "fs = ds")
      case True
      have g: "g = group_filters_hit ctx" "bitset_ones b = hit_filters (env_state env) (snd d)" using b(5) True ne by auto
      have al: "env_group_addr env mod 8 = env_host_addr env mod 8" using env by (simp add: env_ok_def)
      obtain t where t: "bitset_bitwise_and (env_group_addr env) g (env_host_addr env) b = Some t"
          "bitset_wf t" "bs_num_bits t = bs_num_bits g" "bitset_ones t = bitset_ones g \<inter> bitset_ones b"
        using bitset_bitwise_and_eq [OF b(1,3) _ al] b(2,4) by auto
      let ?r = "?c\<lparr>group_filters_hit := t, printer := q\<rparr>"
      have "report_hits env ?hits ?c = Some ?r"
        using t(1) q(1) hits p ne True n(2) by (simp add: report_hits_def progress_def)
      moreover have "bitset_ones t = common_filters env (fs @ [d])"
        using t(4) g p ne True by (auto simp: progress_def common_filters_def)
      then have "progress env flat out first (fs @ [d]) (ds @ [d]) ?r"
        using p ne b(2-4) t(2,3) j' True by (simp add: progress_def)
      ultimately show ?thesis by (auto simp: same_group_def)
    next
      case False
      let ?r = "?c\<lparr>printer := q\<rparr>"
      have "report_hits env ?hits ?c = Some ?r"
        using q(1) hits p ne False n(2) by (simp add: report_hits_def progress_def)
      moreover have "progress env flat out first (fs @ [d]) (ds @ [d]) ?r"
        using p ne b(1-4) j' False by (simp add: progress_def)
      ultimately show ?thesis by (auto simp: same_group_def)
    qed
  qed
qed

lemma report_not_found:
  assumes p: "progress env flat out first fs ds ctx"
    and b: "bitset_wf g" "bs_num_bits g = length (filters (env_state env))"
      "bitset_wf b" "bs_num_bits b = length (filters (env_state env))"
    and hits: "hits_of env flat (snd d) = 0"
  shows "\<exists>ctx'. report_hits env (hits_of env flat (snd d)) (ctx\<lparr>group_filters_hit := g, host_name_filters_hit := b\<rparr>) = Some ctx' \<and>
           progress env flat out first fs (ds @ [d]) ctx' \<and> same_group ctx ctx'"
proof -
  have "fs \<noteq> ds @ [d]" using p by (auto simp: progress_def)
  then show ?thesis using p b hits by (simp add: report_hits_def progress_def same_group_def)
qed

text \<open>One host name of a job.\<close>

abbreviation (input) search_cbs where "search_cbs \<equiv> search_spec_json_callbacks"

lemma progress_other [simp]:
  "progress env flat out first fs ds (ctx\<lparr>host_name_key_alloc := a\<rparr>) = progress env flat out first fs ds ctx"
  "progress env flat out first fs ds (ctx\<lparr>host_name_key := k\<rparr>) = progress env flat out first fs ds ctx"
  "progress env flat out first fs ds (ctx\<lparr>ss_state := s\<rparr>) = progress env flat out first fs ds ctx"
  "progress env flat out first fs ds (ctx\<lparr>group_id := i\<rparr>) = progress env flat out first fs ds ctx"
  by (simp_all add: progress_def)

lemma accepts_name:
  assumes env: "env_ok env" and p: "progress env flat out first (found env flat ds) ds ctx"
    and s: "ss_state ctx = HOST_NAME_MAP" and v: "name_valid n"
  shows "\<exists>ctx'. accepts (search_cbs env) (name_events n) ctx ctx' \<and> same_group ctx ctx' \<and>
    progress env flat out first (found env flat (ds @ looked_up [n])) (ds @ looked_up [n]) ctx'"
proof -
  obtain nm t where n: "n = (nm, t)" by (cases n)
  let ?c1 = "ctx\<lparr>host_name_key_alloc := (if host_name_key_alloc ctx < length nm + 1 then (length nm + 1) * 2 else host_name_key_alloc ctx),
      host_name_key := nm, ss_state := HOST_NAME_MAP_EXPECT_VALUE\<rparr>"
  let ?c2 = "?c1\<lparr>ss_state := HOST_NAME_MAP\<rparr>"
  have key: "search_spec_map_key nm ctx = Some (1, ?c1)" using s by (simp add: search_spec_map_key_def)
  have p2: "progress env flat out first (found env flat ds) ds ?c2" using p by simp
  have len: "length t \<le> 1024" using v n by (simp add: name_valid_def)
  show ?thesis
  proof (cases "hash_of t")
    case None
    then have "search_spec_string env t ?c1 = Some (1, ?c2)"
      using len by (simp add: search_spec_string_def hash_of_def)
    then have "accepts (search_cbs env) (name_events n) ctx ?c2"
      using key by (simp add: name_events_def n accepts_def search_spec_json_callbacks_def)
    then show ?thesis using p2 None n s by (auto simp: same_group_def)
  next
    case (Some h)
    have h: "sha_hash h" using v n Some by (simp add: name_valid_def)
    obtain g b where l: "lookup_hash env h ?c2 = Some (card (hit_filters (env_state env) h),
            ?c2\<lparr>group_filters_hit := g, host_name_filters_hit := b\<rparr>)"
      and b: "bitset_wf g" "bs_num_bits g = length (filters (env_state env))"
        "bitset_wf b" "bs_num_bits b = length (filters (env_state env))"
        "found env flat ds = ds \<longrightarrow> (if found env flat ds = [] then bitset_ones g = hit_filters (env_state env) (snd (nm, h))
             else g = group_filters_hit ?c2 \<and> bitset_ones b = hit_filters (env_state env) (snd (nm, h)))"
      using lookup_hash_eq [OF env h p2] unfolding snd_conv by (elim exE conjE)
    have "\<exists>ctx'. report_hits env (hits_of env flat (snd (nm, h))) (?c2\<lparr>group_filters_hit := g, host_name_filters_hit := b\<rparr>) = Some ctx' \<and>
           progress env flat out first (found env flat (ds @ [(nm, h)])) (ds @ [(nm, h)]) ctx' \<and> same_group ?c2 ctx'"
    proof (cases "0 < hits_of env flat (snd (nm, h))")
      case True
      then show ?thesis
        using report_found [OF env p2 _ _ b True] v n by (simp add: found_def name_valid_def)
    next
      case False
      then show ?thesis using report_not_found [OF p2 b(1-4), of "(nm, h)"] by (simp add: found_def)
    qed
    then obtain ctx' where r: "report_hits env (hits_of env flat h) (?c2\<lparr>group_filters_hit := g, host_name_filters_hit := b\<rparr>) = Some ctx'"
        "progress env flat out first (found env flat (ds @ [(nm, h)])) (ds @ [(nm, h)]) ctx'" "same_group ?c2 ctx'"
      unfolding snd_conv by (elim exE conjE)
    have fl: "flatten_results ctx = flat" using p by (simp add: progress_def)
    have "search_spec_string env t ?c1 = Some (1, ctx')"
      using len Some l r(1) fl by (simp add: search_spec_string_def hash_of_def hits_of_def)
    then have "accepts (search_cbs env) (name_events n) ctx ctx'"
      using key by (simp add: name_events_def n accepts_def search_spec_json_callbacks_def)
    then show ?thesis using r(2,3) Some n s by (auto simp: same_group_def)
  qed
qed

lemma looked_up_append: "looked_up (xs @ ys) = looked_up xs @ looked_up ys"
  by (induction xs rule: looked_up.induct) (auto split: option.splits)

lemma accepts_names:
  assumes "env_ok env" "progress env flat out first (found env flat ds) ds ctx" "ss_state ctx = HOST_NAME_MAP"
    "\<forall>n \<in> set ns. name_valid n"
  shows "\<exists>ctx'. accepts (search_cbs env) (concat (map name_events ns)) ctx ctx' \<and> same_group ctx ctx' \<and>
    progress env flat out first (found env flat (ds @ looked_up ns)) (ds @ looked_up ns) ctx'"
  using assms(2-4)
proof (induction ns arbitrary: ctx ds)
  case Nil
  then show ?case by (simp add: same_group_def)
next
  case (Cons n ns)
  obtain c1 where c1: "accepts (search_cbs env) (name_events n) ctx c1" "same_group ctx c1"
      "progress env flat out first (found env flat (ds @ looked_up [n])) (ds @ looked_up [n]) c1"
    using accepts_name [OF assms(1) Cons.prems(1,2), of n] Cons.prems(3) by auto
  have s1: "ss_state c1 = HOST_NAME_MAP" using c1(2) Cons.prems(2) by (simp add: same_group_def)
  obtain c2 where c2: "accepts (search_cbs env) (concat (map name_events ns)) c1 c2" "same_group c1 c2"
      "progress env flat out first (found env flat ((ds @ looked_up [n]) @ looked_up ns)) ((ds @ looked_up [n]) @ looked_up ns) c2"
    using Cons.IH [OF c1(3) s1] Cons.prems(3) by auto
  have "looked_up (n # ns) = looked_up [n] @ looked_up ns" using looked_up_append [of "[n]" ns] by simp
  then show ?case
    using accepts_append [OF c1(1) c2(1)] c2(3) c1(2) c2(2) by (auto simp: same_group_def)
qed

section \<open>The whole job\<close>

definition between_groups :: "search_env \<Rightarrow> bool \<Rightarrow> bytes \<Rightarrow> bool \<Rightarrow> search_spec_context \<Rightarrow> bool" where
  "between_groups env flat out first ctx \<longleftrightarrow>
     ss_state ctx = GROUPS_ARRAY \<and> flatten_results ctx = flat \<and>
     bitset_wf (group_filters_hit ctx) \<and> bs_num_bits (group_filters_hit ctx) = length (filters (env_state env)) \<and>
     bitset_wf (host_name_filters_hit ctx) \<and> bs_num_bits (host_name_filters_hit ctx) = length (filters (env_state env)) \<and>
     jp (printer ctx) out first in_groups"

lemma group_popcount:
  assumes env: "env_ok env" and b: "bitset_wf g" "bs_num_bits g = length (filters (env_state env))"
  shows "bitset_popcount (env_popcount_size env) (env_popcount env) (env_group_addr env) g = Some (card (bitset_ones g))"
proof (rule bitset_popcount_eq [OF b(1)])
  have "length (filters (env_state env)) < 4294967296"
    using env unat_u32_less [of "number_of_filters (header (env_state env))"] by (simp add: env_ok_def filters_ok_def)
  then show "length (bitset_bytes g) \<le> (2 ^ 64 - 1) div 8" using b by (simp add: bitset_wf_def split: if_splits)
qed (use env in \<open>simp_all add: env_ok_def\<close>)

lemma sep_bool [simp]: "sep True = []" "sep False = [44]"
  by (simp_all add: sep_def)

lemma finish_group_eq:
  assumes env: "env_ok env" and p: "progress env flat out first (found env flat ds) ds ctx" and ne: "found env flat ds \<noteq> []"
    and ds: "ds = looked_up ns" and gid: "group_id ctx = of_int i"
  shows "\<exists>p'. finish_group env ctx = Some p' \<and> jp p' (out @ elems_text first (group_result env flat (i, ns))) False in_groups"
proof -
  let ?fs = "found env flat ds" let ?m = "members_text True (map (hit_member env flat) ?fs)"
  let ?hits = "if ?fs = ds then of_nat (flatten_hits env flat (card (common_filters env ds))) else 0 :: u32"
  have j: "jp (printer ctx) (out @ sep first @ names_start @ ?m) False in_names"
    using p ne by (simp add: progress_def)
  obtain p1 where p1: "json_printer_object_end (printer ctx) = Some p1"
      "jp p1 ((out @ sep first @ names_start @ ?m) @ [125]) False (125 # in_groups)"
    using jp_object_end [OF j] by auto
  obtain p2 where p2: "json_printer_object_pair_uint64 (ascii ''id'') (group_id ctx) p1 = Some p2"
      "jp p2 (((out @ sep first @ names_start @ ?m) @ [125]) @ sep False @ quoted (ascii ''id'') @ [58] @ dec_digits (unat (group_id ctx)))
         False (125 # in_groups)"
    using jp_pair_uint64 [OF p1(2), of "ascii ''id''" "group_id ctx"] by auto
  obtain p3 where p3: "json_printer_object_pair_uint32 (ascii ''hits_by_all_hostnames'') ?hits p2 = Some p3"
      "jp p3 ((((out @ sep first @ names_start @ ?m) @ [125]) @ sep False @ quoted (ascii ''id'') @ [58] @ dec_digits (unat (group_id ctx)))
         @ sep False @ quoted (ascii ''hits_by_all_hostnames'') @ [58] @ dec_digits (unat ?hits)) False (125 # in_groups)"
    using jp_pair_uint32 [OF p2(2), of "ascii ''hits_by_all_hostnames''" ?hits] by auto
  obtain p4 where p4: "json_printer_object_end p3 = Some p4"
      "jp p4 (((((out @ sep first @ names_start @ ?m) @ [125]) @ sep False @ quoted (ascii ''id'') @ [58] @ dec_digits (unat (group_id ctx)))
         @ sep False @ quoted (ascii ''hits_by_all_hostnames'') @ [58] @ dec_digits (unat ?hits)) @ [125]) False in_groups"
    using jp_object_end [OF p3(2)] by auto
  have b: "bitset_wf (group_filters_hit ctx)" "bs_num_bits (group_filters_hit ctx) = length (filters (env_state env))"
    "group_all_host_names_found ctx = (?fs = ds)" "flatten_results ctx = flat"
    using p by (simp_all add: progress_def)
  have "?fs = ds \<Longrightarrow> bitset_ones (group_filters_hit ctx) = common_filters env ds"
    using p ne unfolding progress_def by argo
  then have h: "(if group_all_host_names_found ctx
        then of_nat (flatten_hits env (flatten_results ctx) (card (bitset_ones (group_filters_hit ctx)))) else 0) = ?hits"
    using b(3,4) by simp
  have "finish_group env ctx = Some p4"
    using p1(1) p2(1) p3(1) p4(1) group_popcount [OF env b(1,2)] h by (simp add: finish_group_def Let_def)
  moreover have gr: "group_result env flat (i, ns) = [Json_Object
        [(ascii ''hostnames'', Json_Object (map (hit_member env flat) ?fs)), (ascii ''id'', Json_Uint64 (group_id ctx)),
         (ascii ''hits_by_all_hostnames'', Json_Uint32 ?hits)]]"
    using ne gid ds by (simp add: group_result_def Let_def)
  have "jp p4 (out @ elems_text first (group_result env flat (i, ns))) False in_groups"
    using p4(2) unfolding gr by (simp only: elems_text.simps json_text.simps members_text.simps names_start_def
        sep_bool append_assoc append_Cons append_Nil)
  ultimately show ?thesis by blast
qed

lemma accepts_group:
  assumes env: "env_ok env" and c: "between_groups env flat out first ctx" and v: "\<forall>n \<in> set (snd g). name_valid n"
  shows "\<exists>ctx'. accepts (search_cbs env) (group_events g) ctx ctx' \<and>
    between_groups env flat (out @ elems_text first (group_result env flat g)) (first \<and> group_result env flat g = []) ctx'"
proof -
  obtain i ns where g: "g = (i, ns)" by (cases g)
  let ?ds = "looked_up ns" let ?fs = "found env flat ?ds"
  let ?c1 = "ctx\<lparr>group_id := of_int i, group_has_results := False, group_all_host_names_found := True, ss_state := HOST_NAME_MAP\<rparr>"
  have head: "accepts (search_cbs env) [Ev_Start_Map, Ev_Map_Key (ascii ''id''), Ev_Integer i, Ev_Map_Key (ascii ''hostnames''), Ev_Start_Map] ctx ?c1"
    using c by (simp add: accepts_def search_spec_json_callbacks_def search_spec_start_map_def search_spec_map_key_def
        search_spec_integer_def between_groups_def ascii_def)
  have p1: "progress env flat out first (found env flat []) [] ?c1" "ss_state ?c1 = HOST_NAME_MAP"
    using c by (simp_all add: progress_def between_groups_def found_def)
  obtain c2 where c2: "accepts (search_cbs env) (concat (map name_events ns)) ?c1 c2" "same_group ?c1 c2"
      "progress env flat out first ?fs ?ds c2"
    using accepts_names [OF env p1, of ns] v g by auto
  have s2: "ss_state c2 = HOST_NAME_MAP" "group_id c2 = of_int i" using c2(2) by (simp_all add: same_group_def)
  let ?c3 = "c2\<lparr>ss_state := GROUP\<rparr>"
  have p3: "progress env flat out first ?fs ?ds ?c3" using c2(3) by simp
  have "\<exists>ctx'. accepts (search_cbs env) [Ev_End_Map, Ev_End_Map] c2 ctx' \<and>
    between_groups env flat (out @ elems_text first (group_result env flat g)) (first \<and> group_result env flat g = []) ctx'"
  proof (cases "?fs = []")
    case True
    let ?c4 = "c2\<lparr>ss_state := GROUPS_ARRAY\<rparr>"
    have "accepts (search_cbs env) [Ev_End_Map, Ev_End_Map] c2 ?c4"
      using s2(1) p3 True by (simp add: accepts_def search_spec_json_callbacks_def search_spec_end_map_def progress_def)
    moreover have "group_result env flat g = []" using True by (simp add: group_result_def g Let_def)
    moreover have "between_groups env flat out first ?c4"
      using c2(3) True by (simp add: between_groups_def progress_def)
    ultimately show ?thesis by auto
  next
    case False
    obtain p' where p': "finish_group env ?c3 = Some p'" "jp p' (out @ elems_text first (group_result env flat (i, ns))) False in_groups"
      using finish_group_eq [OF env p3 False refl] s2(2) by auto
    let ?c4 = "c2\<lparr>ss_state := GROUPS_ARRAY, printer := p'\<rparr>"
    have "accepts (search_cbs env) [Ev_End_Map, Ev_End_Map] c2 ?c4"
      using s2(1) p3 False p'(1) by (simp add: accepts_def search_spec_json_callbacks_def search_spec_end_map_def progress_def)
    moreover have "group_result env flat g \<noteq> []" using False by (simp add: group_result_def g Let_def)
    moreover have "between_groups env flat (out @ elems_text first (group_result env flat g)) False ?c4"
      using c2(3) p'(2) g by (simp add: between_groups_def progress_def)
    ultimately show ?thesis by auto
  qed
  then obtain c4 where c4: "accepts (search_cbs env) [Ev_End_Map, Ev_End_Map] c2 c4"
      "between_groups env flat (out @ elems_text first (group_result env flat g)) (first \<and> group_result env flat g = []) c4"
    by (elim exE conjE)
  from accepts_append [OF accepts_append [OF head c2(1)] c4(1)] c4(2) show ?thesis
    by (auto simp: group_events_def g)
qed

lemma accepts_groups:
  assumes "env_ok env" "between_groups env flat out first ctx" "job_valid gs"
  shows "\<exists>ctx' f. accepts (search_cbs env) (concat (map group_events gs)) ctx ctx' \<and>
    between_groups env flat (out @ elems_text first (concat (map (group_result env flat) gs))) f ctx'"
  using assms(2,3)
proof (induction gs arbitrary: ctx out first)
  case Nil
  then show ?case by auto
next
  case (Cons g gs)
  obtain c1 where c1: "accepts (search_cbs env) (group_events g) ctx c1"
      "between_groups env flat (out @ elems_text first (group_result env flat g)) (first \<and> group_result env flat g = []) c1"
    using accepts_group [OF assms(1) Cons.prems(1), of g] Cons.prems(2) by (auto simp: job_valid_def)
  have v: "job_valid gs" using Cons.prems(2) by (simp add: job_valid_def)
  obtain c2 f where c2: "accepts (search_cbs env) (concat (map group_events gs)) c1 c2"
      "between_groups env flat ((out @ elems_text first (group_result env flat g)) @
         elems_text (first \<and> group_result env flat g = []) (concat (map (group_result env flat) gs))) f c2"
    using Cons.IH [OF c1(2) v] by (elim exE conjE)
  from accepts_append [OF c1(1) c2(1)] c2(2) show ?case by (auto simp: elems_text_append)
qed

definition search_start :: "search_env \<Rightarrow> bool \<Rightarrow> bytes \<Rightarrow> search_spec_context \<Rightarrow> bool" where
  "search_start env flat out ctx \<longleftrightarrow>
     ss_state ctx = INIT \<and> flatten_results ctx = flat \<and>
     bitset_wf (group_filters_hit ctx) \<and> bs_num_bits (group_filters_hit ctx) = length (filters (env_state env)) \<and>
     bitset_wf (host_name_filters_hit ctx) \<and> bs_num_bits (host_name_filters_hit ctx) = length (filters (env_state env)) \<and>
     jp (printer ctx) out True [0]"

lemma accepts_job:
  assumes env: "env_ok env" and c: "search_start env flat out ctx" and v: "job_valid gs"
  shows "\<exists>ctx' f. accepts (search_cbs env) (job_events gs) ctx ctx' \<and>
    jp (printer ctx') (out @ json_text (result_json env flat gs)) f [0]"
proof -
  have e: "expects_value [0]" "after_value [0] = [0]" "expects_value [58, 125, 0]" "after_value [58, 125, 0] = [125, 0]"
    by (simp_all add: expects_value_def after_value_def)
  have j0: "jp (printer ctx) out True [0]" using c by (simp add: search_start_def)
  obtain p1 where p1: "json_printer_object_begin (printer ctx) = Some p1" "jp p1 (out @ sep True @ [123]) True [125, 0]"
    using jp_object_begin [OF j0 e(1)] e(2) by auto
  let ?o1 = "(out @ sep True @ [123]) @ members_text True (general_members env)"
  obtain p2 where p2: "add_general_information env p1 = Some p2" "jp p2 ?o1 False [125, 0]"
    using jp_add_general [OF p1(2) _ env] by auto
  let ?o2 = "?o1 @ sep False @ quoted (ascii ''flattened_results'') @ [58] @ bool_text flat"
  obtain p3 where p3: "json_printer_object_pair_boolean (ascii ''flattened_results'') flat p2 = Some p3" "jp p3 ?o2 False [125, 0]"
    using jp_pair_boolean [OF p2(2), of "ascii ''flattened_results''" flat] by auto
  let ?o3 = "?o2 @ sep False @ quoted (ascii ''groups'') @ [58]"
  obtain p4 where p4: "json_printer_object_key (ascii ''groups'') p3 = Some p4" "jp p4 ?o3 True [58, 125, 0]"
    using jp_object_key [OF p3(2), of "ascii ''groups''"] by auto
  let ?o4 = "?o3 @ sep True @ [91]"
  obtain p5 where p5: "json_printer_array_begin p4 = Some p5" "jp p5 ?o4 True in_groups"
    using jp_array_begin [OF p4(2) e(3)] e(4) by auto
  let ?c1 = "ctx\<lparr>printer := p5, ss_state := GROUPS_ARRAY\<rparr>"
  have head: "accepts (search_cbs env) [Ev_Start_Map, Ev_Map_Key (ascii ''groups''), Ev_Start_Array] ctx ?c1"
    using c p1(1) p2(1) p3(1) p4(1) p5(1)
    by (simp add: accepts_def search_spec_json_callbacks_def search_spec_start_map_def search_spec_map_key_def
        search_spec_start_array_def search_start_def ascii_def)
  have "between_groups env flat ?o4 True ?c1"
    using c p5(2) by (simp add: between_groups_def search_start_def)
  then obtain c2 f where c2: "accepts (search_cbs env) (concat (map group_events gs)) ?c1 c2"
      "between_groups env flat (?o4 @ elems_text True (concat (map (group_result env flat) gs))) f c2"
    using accepts_groups [OF env _ v] by blast
  obtain p6 where p6: "json_printer_array_end (printer c2) = Some p6"
      "jp p6 ((?o4 @ elems_text True (concat (map (group_result env flat) gs))) @ [93]) False [125, 0]"
    using jp_array_end [OF c2(2) [unfolded between_groups_def, THEN conjunct2, THEN conjunct2, THEN conjunct2,
          THEN conjunct2, THEN conjunct2, THEN conjunct2]] by auto
  obtain p7 where p7: "json_printer_object_end p6 = Some p7"
      "jp p7 (((?o4 @ elems_text True (concat (map (group_result env flat) gs))) @ [93]) @ [125]) True [0]"
    using jp_object_end [OF p6(2)] by auto
  have tail: "accepts (search_cbs env) [Ev_End_Array, Ev_End_Map] c2 (c2\<lparr>printer := p7, ss_state := INIT\<rparr>)"
    using c2(2) p6(1) p7(1)
    by (simp add: accepts_def search_spec_json_callbacks_def search_spec_end_array_def search_spec_end_map_def between_groups_def)
  have ne: "general_members env \<noteq> []" by (simp add: general_members_def)
  have "((?o4 @ elems_text True (concat (map (group_result env flat) gs))) @ [93]) @ [125] =
      out @ json_text (result_json env flat gs)"
    using ne by (simp add: result_json_def members_text_append sep_def)
  then show ?thesis
    using accepts_append [OF accepts_append [OF head c2(1)] tail] p7(2)
    by (intro exI [of _ "c2\<lparr>printer := p7, ss_state := INIT\<rparr>"] exI [of _ True]) (simp add: job_events_def)
qed

lemma search_read_loop_accepts:
  "block_events y h bs = Some (es, h') \<Longrightarrow> accepts cbs es ctx ctx' \<Longrightarrow>
   search_read_loop y cbs bs h ctx = Some (Yajl_Status_Ok, h', ctx')"
proof (induction bs arbitrary: h es ctx)
  case (Cons b bs)
  obtain es1 h1 fs where b: "y_parse y h b = (es1, h1, True)" "block_events y h1 bs = Some (fs, h')" "es = es1 @ fs"
    using Cons.prems(1) by (auto split: prod.splits if_splits)
  obtain c1 where c1: "accepts cbs es1 ctx c1" "accepts cbs fs c1 ctx'"
    using Cons.prems(2) b(3) by (auto elim: accepts_appendE)
  show ?case using yajl_parse_accepts [OF b(1) c1(1)] Cons.IH [OF b(2) c1(2)] by simp
qed simp

text \<open>The document that a search writes.\<close>

lemma perform_search_job_eq:
  assumes env: "env_ok env" and v: "job_valid gs" and s: "length stack = 32" and y: "y_alloc y = Some h"
    and e: "block_events y h (blocks READ_BLOCK_SIZE job) = Some (job_events gs, h')"
    and f: "y_complete y h' = ([], h'', True)"
  shows "perform_search_job y env True threshold job stack out =
    Some (out @ json_text (result_json env (estimated_number_of_host_names (header (env_state env)) < threshold) gs))"
proof -
  let ?flat = "estimated_number_of_host_names (header (env_state env)) < threshold"
  let ?n = "unat (number_of_filters (header (env_state env)))"
  have n: "?n = length (filters (env_state env))" using env by (simp add: env_ok_def filters_ok_def)
  have "?n < 4294967296" by (rule unat_u32_less)
  moreover have "(4294967296 :: nat) < 2 ^ 64 - 7" by simp
  ultimately have lt: "?n < 2 ^ 64 - 7" by (rule less_trans)
  obtain b where b: "bitset_create True ?n = Some b" "bitset_wf b" "bs_num_bits b = ?n"
    using bitset_create_wf [OF lt, of True] by blast
  obtain p where p: "json_printer_begin stack out = Some p" "jp p out True [0]"
    using jp_begin [OF s, of out] by (elim exE conjE)
  let ?ctx = "\<lparr>ss_state = INIT, flatten_results = ?flat, printer = p,
                group_id = 0, group_has_results = False, group_all_host_names_found = False,
                group_filters_hit = b, host_name_filters_hit = b, host_name_key = [], host_name_key_alloc = 0\<rparr>"
  have "search_start env ?flat out ?ctx" using b p n by (simp add: search_start_def)
  then obtain ctx' f' where c: "accepts (search_cbs env) (job_events gs) ?ctx ctx'"
      "jp (printer ctx') (out @ json_text (result_json env ?flat gs)) f' [0]"
    using accepts_job [OF env _ v] by blast
  have "yajl_complete_parse y (search_cbs env) h' ctx' = Some (Yajl_Status_Ok, h'', ctx')"
    using f by (simp add: yajl_complete_parse_def)
  then show ?thesis
    using b(1) p(1) y search_read_loop_accepts [OF e c(1)] jp_end [OF c(2)]
    by (simp add: perform_search_job_def Let_def)
qed

text \<open>
  The document is JSON as the standard has it when the printer has nothing to escape in a way of its own: in the
  names of the job, the version of the program and the printed rates.
\<close>

definition job_clean :: "search_env \<Rightarrow> search_group list \<Rightarrow> bool" where
  "job_clean env gs \<longleftrightarrow> clean (env_version env) \<and> (\<forall>r. clean (take 63 (env_fixed10 env r))) \<and>
     (\<forall>g \<in> set gs. \<forall>n \<in> set (snd g). clean (fst n))"

lemma clean_plain: "\<forall>c \<in> set s. plain c \<Longrightarrow> clean s"
  by (auto simp: clean_def plain_def)

lemma clean_ascii: "(\<forall>c \<in> set s. plain (of_char c)) \<Longrightarrow> clean (ascii s)"
  by (rule clean_plain) (simp add: ascii_def)

lemma members_printable_iff:
  "members_printable kvs \<longleftrightarrow> (\<forall>p \<in> set kvs. printable (fst p) \<and> json_printable (snd p))"
  by (induction kvs) auto

lemma elems_printable_iff: "elems_printable js \<longleftrightarrow> (\<forall>j \<in> set js. json_printable j)"
  by (induction js) auto

lemma looked_up_names: "d \<in> set (looked_up ns) \<Longrightarrow> \<exists>n \<in> set ns. fst n = fst d"
  by (induction ns rule: looked_up.induct) (auto split: option.splits)

lemma group_result_names:
  assumes "j \<in> set (group_result env flat g)" "\<forall>n \<in> set (snd g). P (fst n)"
  obtains fs id hits where "\<forall>f \<in> set fs. P (fst f)"
    "j = Json_Object [(ascii ''hostnames'', Json_Object (map (hit_member env flat) fs)),
         (ascii ''id'', Json_Uint64 id), (ascii ''hits_by_all_hostnames'', Json_Uint32 hits)]"
proof -
  have "\<forall>f \<in> set (found env flat (looked_up (snd g))). P (fst f)"
    using assms(2) looked_up_names by (fastforce simp: found_def)
  then show thesis using that assms(1) by (auto simp: group_result_def Let_def split: if_split_asm)
qed

lemma result_keys:
  "printable (ascii ''hostnames'')" "printable (ascii ''id'')" "printable (ascii ''hits_by_all_hostnames'')"
  "printable (ascii ''filters'')" "printable (ascii ''flattened_results'')" "printable (ascii ''groups'')"
  "clean (ascii ''hostnames'')" "clean (ascii ''id'')" "clean (ascii ''hits_by_all_hostnames'')"
  "clean (ascii ''filters'')" "clean (ascii ''flattened_results'')" "clean (ascii ''groups'')"
  by (rule printable_ascii clean_ascii; simp add: plain_def)+

lemma result_json_printable:
  assumes "env_ok env" "job_valid gs"
  shows "json_printable (result_json env flat gs)"
proof -
  have "json_printable j" if "g \<in> set gs" "j \<in> set (group_result env flat g)" for g j
  proof -
    have "\<forall>n \<in> set (snd g). printable (fst n)" using assms(2) that(1) by (simp add: job_valid_def name_valid_def)
    note names = group_result_names [where P = printable, OF that(2) this]
    obtain fs id hits where j: "\<forall>f \<in> set fs. printable (fst f)"
      "j = Json_Object [(ascii ''hostnames'', Json_Object (map (hit_member env flat) fs)),
         (ascii ''id'', Json_Uint64 id), (ascii ''hits_by_all_hostnames'', Json_Uint32 hits)]"
      by (rule names)
    then have "members_printable (map (hit_member env flat) fs)" by (simp add: members_printable_iff hit_member_def)
    then show ?thesis using j(2) result_keys by simp
  qed
  then have g: "elems_printable (concat (map (group_result env flat) gs))" unfolding elems_printable_iff by auto
  have f: "json_printable (filters_json env)"
    using filter_pairs_ok [OF assms(1)] by (simp add: filters_json_def elems_printable_iff members_printable_iff)
  have h: "members_printable (header_pairs env)" using header_pairs_ok [OF assms(1)] by (simp add: members_printable_iff)
  have app: "members_printable (xs @ ys) = (members_printable xs \<and> members_printable ys)" for xs ys
    unfolding members_printable_iff by auto
  show ?thesis using g f h result_keys by (simp add: result_json_def general_members_def app)
qed

lemma result_json_clean:
  assumes "job_clean env gs"
  shows "json_clean (result_json env flat gs)"
proof -
  have "json_clean j" if "g \<in> set gs" "j \<in> set (group_result env flat g)" for g j
  proof -
    have "\<forall>n \<in> set (snd g). clean (fst n)" using assms that(1) by (simp add: job_clean_def)
    note names = group_result_names [where P = clean, OF that(2) this]
    obtain fs id hits where j: "\<forall>f \<in> set fs. clean (fst f)"
      "j = Json_Object [(ascii ''hostnames'', Json_Object (map (hit_member env flat) fs)),
         (ascii ''id'', Json_Uint64 id), (ascii ''hits_by_all_hostnames'', Json_Uint32 hits)]"
      by (rule names)
    then have "json_clean (Json_Object (map (hit_member env flat) fs))" by (simp add: list_all_iff hit_member_def)
    then show ?thesis using j(2) result_keys by simp
  qed
  then have g: "list_all json_clean (concat (map (group_result env flat) gs))" unfolding list_all_iff by auto
  have f: "json_clean (filters_json env)"
    using assms by (simp add: filters_json_def filter_pairs_def Let_def list_all_iff job_clean_def clean_ascii plain_def)
  have "clean (get_version_string a b)" for a b
    using plain_digits by (intro clean_plain) (auto simp: get_version_string_def plain_def)
  then have h: "list_all (\<lambda>(k, j). clean k \<and> json_clean j) (header_pairs env)"
    using assms by (simp add: header_pairs_def Let_def job_clean_def clean_ascii plain_def)
  show ?thesis using g f h result_keys by (simp add: result_json_def general_members_def)
qed

lemma result_text_standard:
  assumes "env_ok env" "job_valid gs" "job_clean env gs"
  shows "json_text (result_json env flat gs) = rfc_text (result_json env flat gs)"
  by (rule json_text_clean(1) [OF result_json_printable [OF assms(1,2)] result_json_clean [OF assms(3)]])

end
