(* ===== verification/Tools.thy ===== *)
theory Tools
  imports State_Combine Search_Output
begin

text \<open>
  The programs for the files of states: \<open>honas-info\<close> (\<open>src/src/bin/honas_info.c\<close>), which prints what the header
  and the filters say, \<open>honas-combine\<close> (\<open>src/src/bin/honas_combine.c\<close>), which adds one file to another, and
  the frame of \<open>honas-search\<close>.
  Files are a map from names to contents. A crash is \<open>None\<close>; otherwise the exit code comes with the result.
\<close>

section \<open>Information about a state\<close>

text \<open>The values in the output; times are printed by the C library in the local time zone.\<close>

datatype info_value =
    Info_Text bytes
  | Info_Time u64
  | Info_Number nat
  | Info_Filter u32 u32 real real

definition filter_size :: "honas_state \<Rightarrow> nat" where
  "filter_size st = unat (drop_bit 3 (number_of_bits_per_filter (header st)))"

definition approx_host_names :: "honas_state \<Rightarrow> nat \<Rightarrow> u32" where
  "approx_host_names st i =
     bloom_approx_count (filter_size st) (unat (number_of_hashes (header st))) (unat (filter_bits_set st i))"

definition show_plot_information :: "honas_state \<Rightarrow> bytes" where
  "show_plot_information st =
     concat (map (\<lambda>i. dec_digits (unat (period_begin (header st))) @ [44] @
         dec_digits (unat (approx_host_names st i)) @ [10]) [0..<unat (number_of_filters (header st))])"

definition filter_information :: "honas_state \<Rightarrow> nat \<Rightarrow> bytes \<times> info_value" where
  "filter_information st i =
     (let rate = bloom_fill_rate (filter_bits_set st i) (number_of_bits_per_filter (header st))
      in (dec_digits (i + 1), Info_Filter (filter_bits_set st i) (approx_host_names st i) rate
           (bloom_actual_fpr rate (number_of_hashes (header st)))))"

definition show_general_information :: "bytes \<Rightarrow> honas_state \<Rightarrow> (bytes \<times> info_value) list" where
  "show_general_information version st =
     (let h = header st in
      [(ascii ''Node version'', Info_Text version),
       (ascii ''State file version'', Info_Text (get_version_string (major_version h) (minor_version h))),
       (ascii ''Period begin'', Info_Time (period_begin h)),
       (ascii ''First request'', Info_Time (first_request h)),
       (ascii ''Last request'', Info_Time (last_request h)),
       (ascii ''Period end'', Info_Time (period_end h)),
       (ascii ''Estimated number of clients'', Info_Number (unat (estimated_number_of_clients h))),
       (ascii ''Estimated number of host names'', Info_Number (unat (estimated_number_of_host_names h))),
       (ascii ''Number of requests'', Info_Number (unat (number_of_requests h))),
       (ascii ''Number of filters'', Info_Number (unat (number_of_filters h))),
       (ascii ''Number of filters per user'', Info_Number (unat (number_of_filters_per_user h))),
       (ascii ''Number of hashes'', Info_Number (unat (number_of_hashes h))),
       (ascii ''Number of bits per filter'', Info_Number (unat (number_of_bits_per_filter h))),
       (ascii ''Flatten threshold'', Info_Number (unat (flatten_threshold h)))] @
      map (filter_information st) [0..<unat (number_of_filters h)])"

text \<open>
  The program for one file, without its options: a file that is not a state is not refused, and its
  missing header is read.
\<close>

datatype info_output = No_Output | Plot bytes | General "(bytes \<times> info_value) list"

definition honas_info :: "bool \<Rightarrow> bytes \<Rightarrow> bool \<Rightarrow> bytes option \<Rightarrow> (int \<times> info_output) option" where
  "honas_info alloc_ok version plotmode content = do {
     (result, st) \<leftarrow> honas_state_load alloc_ok content;
     if result = -1 then Some (1, No_Output)
     else do {
       st \<leftarrow> st;
       Some (0, if plotmode then Plot (show_plot_information st)
                else General (show_general_information version st))
     }
   }"

section \<open>Combining two files\<close>

text \<open>
  The names of the files are copied into memory that is one byte too short; the model takes the copies
  as they are.
\<close>

definition honas_combine ::
  "nat \<Rightarrow> (nat \<Rightarrow> nat) \<Rightarrow> bool \<Rightarrow> bytes \<Rightarrow> bytes \<Rightarrow> (bytes \<rightharpoonup> bytes) \<Rightarrow> (int \<times> (bytes \<rightharpoonup> bytes)) option" where
  "honas_combine pn pc alloc_ok dst src files = do {
     (result, dst_state) \<leftarrow> honas_state_load alloc_ok (files dst);
     if result = -1 then Some (1, files)
     else do {
       (result, src_state) \<leftarrow> honas_state_load alloc_ok (files src);
       if result = -1 then Some (1, files)
       else do {
         dst_state \<leftarrow> dst_state;
         src_state \<leftarrow> src_state;
         (_, dst_state, _) \<leftarrow> honas_state_aggregate_combine (Some dst_state) (Some src_state);
         dst_state \<leftarrow> dst_state;
         let files = files(dst := None);
         (_, content) \<leftarrow> honas_state_persist pn pc dst_state;
         Some (0, files(dst \<mapsto> content))
       }
     }
   }"

section \<open>Searching\<close>

text \<open>
  The program \<open>honas-search\<close> (\<open>src/src/bin/honas_search.c\<close>) behind its options: the state, the job, and what is
  written to the file of the results. Again only one of the three ways to fail is noticed.
\<close>

definition honas_search ::
  "'h yajl \<Rightarrow> search_env \<Rightarrow> bool \<Rightarrow> u32 \<Rightarrow> bytes option \<Rightarrow> bytes \<Rightarrow> bytes \<Rightarrow> bytes option" where
  "honas_search y env alloc_ok threshold content job stack = do {
     (result, st) \<leftarrow> honas_state_load alloc_ok content;
     c_assert (result \<noteq> -1);
     st \<leftarrow> st;
     perform_search_job y (env\<lparr>env_state := st\<rparr>) alloc_ok threshold job stack []
   }"

text \<open>A file that exists but is not a state makes the programs crash.\<close>

lemma info_not_a_state:
  assumes "honas_state_load alloc_ok content = Some (result, None)" "result \<noteq> -1"
  shows "honas_info alloc_ok version plotmode content = None"
    and "honas_search y env alloc_ok threshold content job stack = None"
  using assms by (simp_all add: honas_info_def honas_search_def)

lemma combine_not_a_state:
  assumes "honas_state_load alloc_ok (files dst) = Some (result, None)" "result \<noteq> -1"
    and "honas_state_load alloc_ok (files src) = Some (result', src_state)" "result' \<noteq> -1"
  shows "honas_combine pn pc alloc_ok dst src files = None"
  using assms by (simp add: honas_combine_def)

lemma combine_missing:
  assumes "files dst = None"
  shows "honas_combine pn pc alloc_ok dst src files = Some (1, files)"
  using assms by (simp add: honas_combine_def honas_state_load_def)

text \<open>
  Two stored states of the same shape: the file of the first one then holds what either of them holds,
  and all other files are as before.
\<close>

lemma combine_files:
  assumes t: "created_state n bits t" "hlls_usable t" and s: "created_state n bits s" "hlls_usable s"
    and k: "number_of_hashes (header t) = number_of_hashes (header s)"
    and files: "honas_state_persist 8 builtin_popcountll t = Some (t', ct)" "files dst = Some ct"
      "honas_state_persist 8 builtin_popcountll s = Some (s', cs)" "files src = Some cs"
  shows "\<exists>content r. honas_combine 8 builtin_popcountll True dst src files = Some (0, files(dst \<mapsto> content)) \<and>
    honas_state_load True (Some content) = Some (0, Some r) \<and> created_state n bits r \<and> hlls_usable r \<and>
    (\<forall>hash. hit_filters t hash \<union> hit_filters s hash \<subseteq> hit_filters r hash)"
proof -
  obtain tl where tl: "honas_state_load True (Some ct) = Some (0, Some tl)" "layout_of (header tl) = layout_of (header t)"
    "created_state n bits tl" "hlls_usable tl" "\<forall>hash. hit_filters t hash \<subseteq> hit_filters tl hash"
    using persist_load [OF _ popcountll_correct t] files(1) by auto
  obtain sl where sl: "honas_state_load True (Some cs) = Some (0, Some sl)" "layout_of (header sl) = layout_of (header s)"
    "created_state n bits sl" "hlls_usable sl" "\<forall>hash. hit_filters s hash \<subseteq> hit_filters sl hash"
    using persist_load [OF _ popcountll_correct s] files(3) by auto
  have k': "number_of_hashes (header tl) = number_of_hashes (header sl)"
    using k tl(2) sl(2) layout_of_simps(3) by metis
  obtain c s'' where c: "honas_state_aggregate_combine (Some tl) (Some sl) = Some (True, Some c, Some s'')"
    "created_state n bits c" "hlls_usable c" "\<forall>hash. hit_filters tl hash \<union> hit_filters sl hash \<subseteq> hit_filters c hash"
    using combine_ok [OF tl(3,4) sl(3,4) k'] by blast
  obtain c' content r where r: "honas_state_persist 8 builtin_popcountll c = Some (c', content)"
    "honas_state_load True (Some content) = Some (0, Some r)" "created_state n bits r" "hlls_usable r"
    "\<forall>hash. hit_filters c hash \<subseteq> hit_filters r hash"
    using persist_load [OF _ popcountll_correct c(2,3)] by auto
  have "honas_combine 8 builtin_popcountll True dst src files = Some (0, files(dst \<mapsto> content))"
    using files(2,4) tl(1) sl(1) c(1) r(1) by (simp add: honas_combine_def)
  moreover have "hit_filters t hash \<union> hit_filters s hash \<subseteq> hit_filters r hash" for hash
    using tl(5) sl(5) c(4) r(5) by blast
  ultimately show ?thesis using r(2-4) by blast
qed

text \<open>
  For a stored state the number of bits that \<open>honas-info\<close> prints for a filter is the number of bits that
  are set in the file.
\<close>

lemma info_counts_bits:
  assumes st: "created_state n bits st" "hlls_usable st"
    and p: "honas_state_persist 8 builtin_popcountll st = Some (st', content)" and i: "i < unat n"
  shows "\<exists>r est rate fpr. honas_state_load True (Some content) = Some (0, Some r) \<and>
    filter_information r i = (dec_digits (i + 1),
      Info_Filter (of_nat (card (bits_of (view_bytes content (filters r ! i))))) est rate fpr)"
proof -
  obtain rest where a: "created_state n bits st'" "content = header_bytes (header st') @ rest"
    "length content = length (mmap st)"
    "\<forall>j < unat n. load32 content (HEADER_SIZE + 4 * j) = of_nat (card (bits_of (view_bytes content (filters st ! j))))"
    using persist_ok [OF _ popcountll_correct st] p by auto
  have "length content = length (mmap st')" using a(1,3) st(1) by (simp add: created_state_def)
  from load_ok [OF a(1,2) this] obtain r where r: "honas_state_load True (Some content) = Some (0, Some r)"
    "mmap r = content" "created_state n bits r" by blast
  have "filters r = filters st" using r(3) st(1) by (simp add: created_state_def)
  then have "filter_bits_set r i = of_nat (card (bits_of (view_bytes content (filters r ! i))))"
    using a(4) i r(2) by (simp add: filter_bits_set_def)
  then show ?thesis using r(1) by (simp add: filter_information_def Let_def)
qed

end
