(* ===== verification/Command_Line.thy ===== *)
theory Command_Line
  imports Getopt Logging Tools
begin

text \<open>
  The programs \<open>honas-combine\<close>, \<open>honas-info\<close> and \<open>honas-search\<close> (\<open>src/src/bin/\<close>) with their command lines, as their
  functions \<open>main\<close>: from the arguments and the files to the exit code, the output and the files. What
  they do with the files is in the theory \<open>Tools\<close>.
\<close>

section \<open>Settings and messages\<close>

text \<open>\<open>LOG_LEVEL\<close> in the environment, the version of the program, and the text of a system error.\<close>

record cli_env =
  log_level_env :: "string option"
  prog_version :: string
  errno_text :: string

text \<open>The log, and the lines that a program writes itself to the two outputs.\<close>

record cli =
  cli_log :: log_ctx
  cli_out :: "string list"
  cli_err :: "string list"

definition say :: "cli_env \<Rightarrow> int \<Rightarrow> string \<Rightarrow> 'a cli_scheme \<Rightarrow> 'a cli_scheme option" where
  "say env level text s =
     map_option (\<lambda>ctx. s\<lparr>cli_log := ctx\<rparr>) (log_msg (log_level_env env) level text (cli_log s))"

definition fail :: "cli_env \<Rightarrow> string \<Rightarrow> 'a cli_scheme \<Rightarrow> 'a cli_scheme option" where
  "fail env text s =
     map_option (\<lambda>ctx. s\<lparr>cli_log := ctx\<rparr>) (log_perror (log_level_env env) CRIT text (errno_text env) (cli_log s))"

definition say_version :: "cli_env \<Rightarrow> string \<Rightarrow> 'a cli_scheme \<Rightarrow> 'a cli_scheme option" where
  "say_version env name s = say env INFO (name @ '' (version '' @ prog_version env @ '')'') s"

text \<open>The options \<open>-q\<close> and \<open>-v\<close> move the level by one.\<close>

definition move_level :: "cli_env \<Rightarrow> int \<Rightarrow> 'a cli_scheme \<Rightarrow> 'a cli_scheme option" where
  "move_level env d s =
     map_option (\<lambda>(level, ctx). s\<lparr>cli_log := log_set_min_log_level (level + d) ctx\<rparr>)
       (log_get_min_log_level (log_level_env env) (cli_log s))"

definition complain :: "string list \<Rightarrow> 'a cli_scheme \<Rightarrow> 'a cli_scheme" where
  "complain ls s = s\<lparr>cli_err := cli_err s @ ls\<rparr>"

definition print :: "string list \<Rightarrow> 'a cli_scheme \<Rightarrow> 'a cli_scheme" where
  "print ls s = s\<lparr>cli_out := cli_out s @ ls\<rparr>"

definition close_log :: "'a cli_scheme \<Rightarrow> 'a cli_scheme" where
  "close_log s = s\<lparr>cli_log := log_destroy (cli_log s)\<rparr>"

definition quoted :: "string \<Rightarrow> string" where
  "quoted name = [CHR 0x27] @ name @ [CHR 0x27]"

section \<open>Combining\<close>

definition combine_usage :: "string list" where
  "combine_usage =
    [''Usage: honas-combine [<options>] <dst-state-file> <src-state-file>'',
     '''',
     ''Options:'',
     ''  -h|--help           Show this message'',
     ''  -q|--quiet          Be more quiet (can be used multiple times)'',
     ''  -v|--verbose        Be more verbose (can be used multiple times)'']"

definition combine_long_options :: "long_option list" where
  "combine_long_options = [(''help'', False, CHR ''h''), (''quiet'', False, CHR ''q''), (''verbose'', False, CHR ''v'')]"

definition combine_option :: "cli_env \<Rightarrow> getopt_item \<Rightarrow> cli \<Rightarrow> cli step option" where
  "combine_option env i s =
     (case i of
        Unknown \<Rightarrow> Some (Return 1 (complain combine_usage s))
      | Opt c _ \<Rightarrow>
          if c = CHR ''h'' then Some (Return 0 (print combine_usage s))
          else if c = CHR ''q'' then map_option Continue (move_level env (-1) s)
          else if c = CHR ''v'' then map_option Continue (move_level env 1 s)
          else Some (Return 1 (complain [''Unimplemented option '' @ [c] @ ''; Aborting!''] s)))"

text \<open>
  The messages about the files themselves are left out; the names are copied into memory that may not be
  had.
\<close>

definition combine_main ::
  "cli_env \<Rightarrow> nat \<Rightarrow> (nat \<Rightarrow> nat) \<Rightarrow> bool \<Rightarrow> bool \<times> bool \<Rightarrow> string list \<Rightarrow> (bytes \<rightharpoonup> bytes) \<Rightarrow>
    (int \<times> cli \<times> (bytes \<rightharpoonup> bytes)) option" where
  "combine_main env pn pc alloc_ok names_ok args files = do {
     s \<leftarrow> say_version env ''honas-combine'' \<lparr>cli_log = log_initial, cli_out = [], cli_err = []\<rparr>;
     let (items, operands) = getopt_long (short_options ''hvq'') combine_long_options args;
     r \<leftarrow> option_loop (combine_option env) items s;
     (case r of
        Return code s \<Rightarrow> Some (code, s, files)
      | Continue s \<Rightarrow>
          (case operands of
             [] \<Rightarrow> do {
               s \<leftarrow> say env ERR ''Required '<dst-state-file>' arguments missing!'' s;
               Some (1, s, files)
             }
           | [_] \<Rightarrow> do {
               s \<leftarrow> say env ERR ''A destination and source state file are required!'' s;
               Some (1, s, files)
             }
           | dst # src # _ \<Rightarrow>
               if \<not> fst names_ok then do {
                 s \<leftarrow> say env ERR ''Failed to allocate memory for the destination state filename.'' s;
                 Some (1, s, files)
               }
               else if \<not> snd names_ok then do {
                 s \<leftarrow> say env ERR ''Failed to allocate memory for the source state filename.'' s;
                 Some (1, s, files)
               }
               else do {
                 (code, files) \<leftarrow> honas_combine pn pc alloc_ok (ascii dst) (ascii src) files;
                 Some (code, if code = 0 then close_log s else s, files)
               }))
   }"

section \<open>Printing\<close>

record info_cli = cli +
  plotmode :: bool

definition info_usage :: "string list" where
  "info_usage =
    [''Usage: honas-info [<options>] <state-file>'',
     '''',
     ''Options:'',
     ''  -h|--help           Show this message'',
     ''  -q|--quiet          Be more quiet (can be used multiple times)'',
     ''  -v|--verbose        Be more verbose (can be used multiple times)'',
     ''  -p|--plotmode       Output timestamp and number of hostnames as CSV'']"

definition info_long_options :: "long_option list" where
  "info_long_options =
    [(''help'', False, CHR ''h''), (''quiet'', False, CHR ''q''), (''verbose'', False, CHR ''v''), (''plotmode'', False, CHR ''p'')]"

definition info_option :: "cli_env \<Rightarrow> getopt_item \<Rightarrow> info_cli \<Rightarrow> info_cli step option" where
  "info_option env i s =
     (case i of
        Unknown \<Rightarrow> Some (Return 1 (complain info_usage s))
      | Opt c _ \<Rightarrow>
          if c = CHR ''h'' then Some (Return 0 (print info_usage s))
          else if c = CHR ''q'' then map_option Continue (move_level env (-1) s)
          else if c = CHR ''v'' then map_option Continue (move_level env 1 s)
          else if c = CHR ''p'' then Some (Continue (s\<lparr>plotmode := True\<rparr>))
          else Some (Return 1 (complain [''Unimplemented option '' @ [c] @ ''; Aborting!''] s)))"

definition info_initial :: info_cli where
  "info_initial = \<lparr>cli_log = log_initial, cli_out = [], cli_err = [], plotmode = False\<rparr>"

definition info_main ::
  "cli_env \<Rightarrow> bool \<Rightarrow> string list \<Rightarrow> (bytes \<rightharpoonup> bytes) \<Rightarrow> (int \<times> info_cli \<times> info_output) option" where
  "info_main env alloc_ok args files = do {
     let (items, operands) = getopt_long (short_options ''hvqp'') info_long_options args;
     r \<leftarrow> option_loop (info_option env) items info_initial;
     (case r of
        Return code s \<Rightarrow> Some (code, s, No_Output)
      | Continue s \<Rightarrow>
          (case operands of
             [] \<Rightarrow> Some (1, complain [''Required '<state-file>' argument missing!''] s, No_Output)
           | [file] \<Rightarrow> do {
               s \<leftarrow> say_version env ''honas-info'' s;
               (code, shown) \<leftarrow> honas_info alloc_ok (ascii (prog_version env)) (plotmode s) (files (ascii file));
               Some (code, if code = 0 then close_log s
                   else complain [''Error while loading state file '' @ quoted file @ '': '' @ errno_text env @ ''!''] s,
                 shown)
             }
           | file # _ # _ \<Rightarrow>
               Some (1, complain ((''Unsupported argument(s) supplied: '' @ file @ ''!'') # info_usage) s, No_Output)))
   }"

section \<open>Searching\<close>

record search_cli = cli +
  job_file :: "string option"
  result_file :: "string option"
  threshold :: u32

definition search_usage :: "string list" where
  "search_usage =
    [''Usage: honas-search [<options>] <state-file>'',
     '''',
     ''Options:'',
     ''  -h|--help           Show this message'',
     ''  -j|--job <file>     File containing the search job (default: stdin)'',
     ''  -r|--result <file>  File to which the results will be saved (default: stdout)'',
     ''  -f|--flatten-threshold <clients>'',
     ''                      If fewer than this amount of clients have been seen then'',
     ''                      flatten the results (default: never flatten)'',
     ''  -q|--quiet          Be more quiet (can be used multiple times)'',
     ''  -s|--syslog         Log messages to syslog'',
     ''  -v|--verbose        Be more verbose (can be used multiple times)'']"

definition search_long_options :: "long_option list" where
  "search_long_options =
    [(''help'', False, CHR ''h''), (''job'', True, CHR ''j''), (''result'', True, CHR ''r''),
     (''flatten-threshold'', True, CHR ''f''), (''quiet'', False, CHR ''q''), (''syslog'', False, CHR ''s''),
     (''verbose'', False, CHR ''v'')]"

text \<open>The string of the short options of this program names only some of them.\<close>

definition search_short_options :: "(char \<times> bool) list" where
  "search_short_options = short_options ''hj:r:f:''"

definition open_syslog :: "'a cli_scheme \<Rightarrow> 'a cli_scheme option" where
  "open_syslog s = map_option (\<lambda>ctx. s\<lparr>cli_log := ctx\<rparr>) (log_init_syslog (cli_log s))"

definition search_option :: "cli_env \<Rightarrow> getopt_item \<Rightarrow> search_cli \<Rightarrow> search_cli step option" where
  "search_option env i s =
     (case i of
        Unknown \<Rightarrow> Some (Return 1 (complain search_usage s))
      | Opt c optarg \<Rightarrow>
          if c = CHR ''h'' then Some (Return 0 (print search_usage s))
          else if c = CHR ''j'' then Some (Continue (s\<lparr>job_file := optarg\<rparr>))
          else if c = CHR ''r'' then Some (Continue (s\<lparr>result_file := optarg\<rparr>))
          else if c = CHR ''f'' then
            (case optarg of
               None \<Rightarrow> None
             | Some value \<Rightarrow>
                 (case my_strtouint32 (ascii value) False 10 of
                    None \<Rightarrow> Some (Return 1 (complain [''Invalid value for 'flatten-threshold': '' @ value @ ''!''] s))
                  | Some (v, _) \<Rightarrow> Some (Continue (s\<lparr>threshold := v\<rparr>))))
          else if c = CHR ''q'' then map_option Continue (move_level env (-1) s)
          else if c = CHR ''s'' then map_option Continue (open_syslog s)
          else if c = CHR ''v'' then map_option Continue (move_level env 1 s)
          else Some (Return 1 (complain [''Unimplemented option '' @ [c] @ ''; Aborting!''] s)))"

definition search_initial :: search_cli where
  "search_initial = \<lparr>cli_log = log_initial, cli_out = [], cli_err = [], job_file = None, result_file = None, threshold = 0\<rparr>"

text \<open>
  A file for the results is emptied when it is opened, also when it is the job. When it is the state, that is
  mapped into memory then, reading the state kills the program. \<open>can_write\<close> says which files can be opened
  for writing; what goes to the standard output is the last part of the result.
\<close>

definition search_main ::
  "'h yajl \<Rightarrow> search_env \<Rightarrow> cli_env \<Rightarrow> bool \<Rightarrow> (bytes \<Rightarrow> bool) \<Rightarrow> bytes \<Rightarrow> string list \<Rightarrow> (bytes \<rightharpoonup> bytes) \<Rightarrow> bytes \<Rightarrow>
    (int \<times> search_cli \<times> (bytes \<rightharpoonup> bytes) \<times> bytes) option" where
  "search_main y senv env alloc_ok can_write stack args files stdin = do {
     let (items, operands) = getopt_long search_short_options search_long_options args;
     r \<leftarrow> option_loop (search_option env) items search_initial;
     (case r of
        Return code s \<Rightarrow> Some (code, s, files, [])
      | Continue s \<Rightarrow>
          (case operands of
             [] \<Rightarrow> Some (1, complain [''Required '<state-file>' argument missing!''] s, files, [])
           | [file] \<Rightarrow> do {
               s \<leftarrow> say_version env ''honas-search'' s;
               let job = map_option ascii (job_file s);
               let target = map_option ascii (result_file s);
               if (case job of None \<Rightarrow> False | Some name \<Rightarrow> files name = None) then do {
                 s \<leftarrow> fail env (''Unable to open search job file '' @ quoted (the (job_file s))) s;
                 Some (1, s, files, [])
               } else do {
                 (result, _) \<leftarrow> honas_state_load alloc_ok (files (ascii file));
                 if result = -1 then do {
                   s \<leftarrow> fail env (''Error while loading state file '' @ quoted file) s;
                   Some (1, s, files, [])
                 }
                 else if (case target of None \<Rightarrow> False | Some name \<Rightarrow> \<not> can_write name) then do {
                   s \<leftarrow> fail env (''Unable to open result file '' @ quoted (the (result_file s))) s;
                   Some (1, s, files, [])
                 } else do {
                   let content = files (ascii file);
                   let files = (case target of None \<Rightarrow> files | Some name \<Rightarrow> files(name \<mapsto> []));
                   c_assert (target \<noteq> Some (ascii file));
                   let input = (case job of None \<Rightarrow> stdin | Some name \<Rightarrow> the (files name));
                   text \<leftarrow> honas_search y senv alloc_ok (threshold s) content input stack;
                   (case target of
                      None \<Rightarrow> Some (0, close_log s, files, text)
                    | Some name \<Rightarrow> Some (0, close_log s, files(name \<mapsto> text), []))
                 }
               }
             }
           | file # _ # _ \<Rightarrow>
               Some (1, complain ((''Unsupported argument(s) supplied: '' @ file @ ''!'') # search_usage) s, files, [])))
   }"

section \<open>Options\<close>

interpretation combine_options: option_program "combine_option env" for env
  by unfold_locales (auto simp: combine_option_def split: if_splits)

interpretation info_options: option_program "info_option env" for env
  by unfold_locales (auto simp: info_option_def split: if_splits)

interpretation search_options: option_program "search_option env" for env
  by unfold_locales (auto simp: search_option_def split: if_splits option.splits)

text \<open>
  The usage of \<open>honas-search\<close> lists \<open>-q\<close>, \<open>-s\<close> and \<open>-v\<close>, but with any of them first the program prints its usage
  and fails, whatever follows.
\<close>

lemma search_short_refused:
  assumes "word \<in> {''-q'', ''-s'', ''-v''}"
  shows "search_main y senv env alloc_ok can_write stack (word # args) files stdin =
    Some (1, search_initial\<lparr>cli_err := search_usage\<rparr>, files, [])"
proof -
  obtain items operands where "getopt_long search_short_options search_long_options args = (items, operands)" by fastforce
  then have "getopt_long search_short_options search_long_options (word # args) = (Unknown # items, operands)"
    using assms by (auto simp: search_short_options_def)
  moreover have "cli_err search_initial = []" by (simp add: search_initial_def)
  ultimately show ?thesis by (simp add: search_main_def search_option_def complain_def)
qed

lemma search_long_accepted:
  "getopt_long search_short_options search_long_options [''--quiet'', ''--syslog'', ''--verb'', file] =
    ([Opt CHR ''q'' None, Opt CHR ''s'' None, Opt CHR ''v'' None], [file])" if "take 1 file \<noteq> ''-''"
proof -
  have "getopt_long search_short_options search_long_options [file] = ([], [file])"
    using that by (intro getopt_long_operands) simp
  then show ?thesis
    by (simp add: search_long_options_def long_word_def find_long_def starts_with_def Let_def del: getopt_long.simps(2) add: getopt_long.simps(2) [of _ _ "''--quiet''"]
      getopt_long.simps(2) [of _ _ "''--syslog''"] getopt_long.simps(2) [of _ _ "''--verb''"])
qed

text \<open>
  Each \<open>-q\<close> takes one from the level, from the default on. After the sixth the level is the number that
  stands for no level, so the next message finds the default again: six times quiet is not quiet.
\<close>

lemma move_level_set:
  assumes "min_log_level (cli_log s) \<noteq> UNSET" "log_target (cli_log s) = target_uninitialized"
  shows "move_level env d s = Some (s\<lparr>cli_log := (cli_log s)\<lparr>min_log_level := min_log_level (cli_log s) + d\<rparr>\<rparr>)"
  using assms by (simp add: move_level_def log_get_min_log_level_def log_set_min_log_level_def Let_def)

lemma move_level_first:
  assumes "min_log_level (cli_log s) = UNSET" "log_target (cli_log s) = target_uninitialized" "log_level_env env = None"
  shows "move_level env d s = Some (s\<lparr>cli_log := (cli_log s)\<lparr>min_log_level := 5 + d\<rparr>\<rparr>)"
  using assms by (simp add: move_level_def log_get_min_log_level_def log_set_min_log_level_def DEFAULT_LOG_LEVEL_def Let_def)

lemma quiet_levels:
  assumes "log_target (cli_log s) = target_uninitialized" "min_log_level (cli_log s) = 5" "n \<le> 6"
  shows "option_loop (combine_option env) (replicate n (Opt CHR ''q'' None)) s =
    Some (Continue (s\<lparr>cli_log := (cli_log s)\<lparr>min_log_level := 5 - int n\<rparr>\<rparr>))"
  using assms(3)
proof (induction n)
  case (Suc n)
  have "replicate (Suc n) (Opt CHR ''q'' None) = replicate n (Opt CHR ''q'' None) @ [Opt CHR ''q'' None]"
    by (simp add: replicate_append_same)
  moreover have "5 - int n \<noteq> -1" using Suc.prems by simp
  ultimately show ?case
    using Suc assms(1) by (simp add: option_loop_append combine_option_def move_level_set)
qed (use assms(2) in simp)

lemma six_times_quiet:
  assumes "log_target (cli_log s) = target_uninitialized" "min_log_level (cli_log s) = 5" "log_level_env env = None" "level \<le> 5"
  shows "\<exists>s'. option_loop (combine_option env) (replicate 6 (Opt CHR ''q'' None)) s = Some (Continue s') \<and>
    map_option (log_output \<circ> cli_log) (say env level text s') = Some (log_output (cli_log s) @ [To_Stderr text])"
  using quiet_levels [OF assms(1,2), of 6] assms by (simp add: say_def log_msg_stderr)

section \<open>Whole programs\<close>

text \<open>Without options \<open>honas-combine\<close> and \<open>honas-info\<close> do to the files what the functions of the theory \<open>Tools\<close> do.\<close>

lemma say_quiet:
  assumes "log_level_env env = None" "log_target (cli_log s) = target_uninitialized" "min_log_level (cli_log s) = UNSET" "5 < level"
  shows "say env level text s = Some (s\<lparr>cli_log := (cli_log s)\<lparr>min_log_level := 5\<rparr>\<rparr>)"
  using assms by (simp add: say_def log_msg_stderr)

lemma log_initial_simps [simp]:
  "log_target log_initial = target_uninitialized" "min_log_level log_initial = -1" "log_output log_initial = []"
  by (simp_all add: log_initial_def)

lemma combine_main_plain:
  assumes "log_level_env env = None" "take 1 dst \<noteq> ''-''" "take 1 src \<noteq> ''-''"
    and "honas_combine pn pc alloc_ok (ascii dst) (ascii src) files = Some (code, files')"
  shows "\<exists>s. combine_main env pn pc alloc_ok (True, True) [dst, src] files = Some (code, s, files') \<and> cli_out s = [] \<and> cli_err s = []"
proof -
  have "getopt_long shorts longs [dst, src] = ([], [dst, src])" for shorts longs
    using assms(2,3) by (intro getopt_long_operands) simp
  then show ?thesis
    using assms(1,4) by (simp add: combine_main_def say_version_def say_quiet close_log_def del: getopt_long.simps)
qed

lemma info_main_plain:
  assumes "log_level_env env = None" "take 1 file \<noteq> ''-''"
    and "honas_info alloc_ok (ascii (prog_version env)) False (files (ascii file)) = Some (code, shown)"
  shows "\<exists>s. info_main env alloc_ok [file] files = Some (code, s, shown) \<and> (code = 0 \<longrightarrow> cli_err s = [])"
proof -
  have "getopt_long shorts longs [file] = ([], [file])" for shorts longs
    using assms(2) by (intro getopt_long_operands) simp
  then show ?thesis
    using assms(1,3)
    by (simp add: info_main_def info_initial_def say_version_def say_quiet close_log_def complain_def del: getopt_long.simps)
qed

text \<open>A search with a file for the job and another for the results changes nothing but the second.\<close>

lemma search_main_files:
  assumes "log_level_env env = None" "take 1 file \<noteq> ''-''"
    and job: "files (ascii job) = Some input" "ascii job \<noteq> ascii target" and target: "can_write (ascii target)" "ascii target \<noteq> ascii file"
    and load: "honas_state_load alloc_ok (files (ascii file)) = Some (result, st)" "result \<noteq> -1"
    and search: "honas_search y senv alloc_ok 0 (files (ascii file)) input stack = Some text"
  shows "\<exists>s. search_main y senv env alloc_ok can_write stack [''-j'', job, ''-r'', target, file] files stdin =
    Some (0, s, files(ascii target \<mapsto> text), [])"
proof -
  have "getopt_long search_short_options search_long_options [file] = ([], [file])"
    using assms(2) by (intro getopt_long_operands) simp
  then have "getopt_long search_short_options search_long_options [''-j'', job, ''-r'', target, file] =
      ([Opt CHR ''j'' (Some job), Opt CHR ''r'' (Some target)], [file])"
    by (simp add: search_short_options_def take_argument_def del: getopt_long.simps(2)
      add: getopt_long.simps(2) [of _ _ "''-j''"] getopt_long.simps(2) [of _ _ "''-r''"])
  moreover have "option_loop (search_option env) [Opt CHR ''j'' (Some job), Opt CHR ''r'' (Some target)] search_initial =
      Some (Continue (search_initial\<lparr>job_file := Some job, result_file := Some target\<rparr>))"
    by (simp add: search_option_def)
  ultimately show ?thesis
    using assms by (simp add: search_main_def search_initial_def say_version_def say_quiet Let_def)
qed

text \<open>With the state as the file for the results nothing is searched: the program crashes.\<close>

lemma search_main_overwrites_state:
  assumes "log_level_env env = None" "take 1 file \<noteq> ''-''" "can_write (ascii file)"
    and "honas_state_load alloc_ok (files (ascii file)) = Some (result, st)" "result \<noteq> -1"
  shows "search_main y senv env alloc_ok can_write stack [''-r'', file, file] files stdin = None"
proof -
  have "getopt_long search_short_options search_long_options [file] = ([], [file])"
    using assms(2) by (intro getopt_long_operands) simp
  then have "getopt_long search_short_options search_long_options [''-r'', file, file] =
      ([Opt CHR ''r'' (Some file)], [file])"
    by (simp add: search_short_options_def take_argument_def del: getopt_long.simps(2) add: getopt_long.simps(2) [of _ _ "''-r''"])
  then show ?thesis
    using assms by (simp add: search_main_def search_option_def search_initial_def say_version_def say_quiet Let_def)
qed

end
