(* ===== verification/Net_Prefix.thy ===== *)
theory Net_Prefix
  imports State_File
begin

text \<open>
  Networks and masks bit by bit, in network order, for addresses of any length; shared by the address
  parser and the subnet activity component.
\<close>

definition and_bytes :: "bytes \<Rightarrow> bytes \<Rightarrow> bytes" where "and_bytes a b = map2 (AND) a b"

section \<open>Network prefixes\<close>

text \<open>The bits of an address in network order: bit 0 is the highest bit of the first byte.\<close>

definition net_bit :: "bytes \<Rightarrow> nat \<Rightarrow> bool" where
  "net_bit a k = bit (a ! (k div 8)) (7 - k mod 8)"

text \<open>The network \<open>n\<close>: the first \<open>l\<close> bits of the address \<open>a\<close>, then zeros.\<close>

definition is_network :: "nat \<Rightarrow> bytes \<Rightarrow> nat \<Rightarrow> bytes \<Rightarrow> bool" where
  "is_network sz n l a \<longleftrightarrow> length n = sz \<and> l \<le> 8 * sz \<and> (\<forall>k < 8 * sz. net_bit n k = (k < l \<and> net_bit a k))"

lemma bytes_net_bit_eqI:
  assumes "length a = sz" "length b = sz" "\<forall>k < 8 * sz. net_bit a k = net_bit b k"
  shows "a = b"
proof (rule nth_equalityI)
  show "length a = length b" using assms by simp
  fix i assume i: "i < length a"
  show "a ! i = b ! i"
  proof (rule bit_word_eqI)
    fix j assume j: "j < LENGTH(8)"
    then have "8 * i + (7 - j) < 8 * sz" using i assms(1) by simp
    from assms(3) [rule_format, OF this] show "bit (a ! i) j = bit (b ! i) j"
      using j by (simp add: net_bit_def)
  qed
qed

lemma net_bit_and_bytes:
  assumes "length a = sz" "length b = sz" "k < 8 * sz"
  shows "net_bit (and_bytes a b) k = (net_bit a k \<and> net_bit b k)"
  using assms by (simp add: net_bit_def and_bytes_def bit_and_iff less_mult_imp_div_less mult.commute)

lemma length_and_bytes [simp]: "length (and_bytes a b) = min (length a) (length b)"
  by (simp add: and_bytes_def)

text \<open>A mask of \<open>l\<close> bits, and what masking gives.\<close>

definition is_mask :: "nat \<Rightarrow> bytes \<Rightarrow> nat \<Rightarrow> bool" where
  "is_mask sz m l \<longleftrightarrow> length m = sz \<and> l \<le> 8 * sz \<and> (\<forall>k < 8 * sz. net_bit m k = (k < l))"

lemma is_network_masked:
  assumes m: "is_mask sz m l" and a: "length a = sz"
  shows "is_network sz n l a \<longleftrightarrow> n = and_bytes a m"
proof
  assume n: "is_network sz n l a"
  show "n = and_bytes a m"
  proof (rule bytes_net_bit_eqI)
    show "length n = sz" "length (and_bytes a m) = sz" using n m a by (simp_all add: is_network_def is_mask_def)
    show "\<forall>k < 8 * sz. net_bit n k = net_bit (and_bytes a m) k"
      using n m net_bit_and_bytes [OF a, of m] by (auto simp: is_network_def is_mask_def)
  qed
next
  assume "n = and_bytes a m"
  then show "is_network sz n l a"
    using m a net_bit_and_bytes [OF a, of m] by (auto simp: is_network_def is_mask_def)
qed

text \<open>The byte with its first \<open>r\<close> bits set.\<close>

definition mask_byte :: "nat \<Rightarrow> u8" where
  "mask_byte r = [0, 0x80, 0xC0, 0xE0, 0xF0, 0xF8, 0xFC, 0xFE, 0xFF] ! r"

lemma less_8_cases: "j < (8 :: nat) \<longleftrightarrow> j = 0 \<or> j = 1 \<or> j = 2 \<or> j = 3 \<or> j = 4 \<or> j = 5 \<or> j = 6 \<or> j = 7"
  by presburger

lemma bit_mask_byte: "r \<le> 8 \<Longrightarrow> j < 8 \<Longrightarrow> bit (mask_byte r) (7 - j) = (j < r)"
proof -
  assume "r \<le> 8" "j < 8"
  then have "r = 8 \<or> r = 0 \<or> r = 1 \<or> r = 2 \<or> r = 3 \<or> r = 4 \<or> r = 5 \<or> r = 6 \<or> r = 7"
    "j = 0 \<or> j = 1 \<or> j = 2 \<or> j = 3 \<or> j = 4 \<or> j = 5 \<or> j = 6 \<or> j = 7" by presburger+
  then show ?thesis by (elim disjE) (simp_all add: mask_byte_def)
qed

lemma is_mask_bytes:
  assumes "length m = sz" "l \<le> 8 * sz" "\<And>i. i < sz \<Longrightarrow> m ! i = mask_byte (min 8 (l - 8 * i))"
  shows "is_mask sz m l"
proof -
  have "net_bit m k = (k < l)" if k: "k < 8 * sz" for k
  proof -
    have i: "k div 8 < sz" using k by (simp add: less_mult_imp_div_less mult.commute)
    have "k = 8 * (k div 8) + k mod 8" by simp
    moreover have "k mod 8 < 8" by simp
    ultimately have "(k mod 8 < min 8 (l - 8 * (k div 8))) = (k < l)" by linarith
    then show ?thesis by (simp add: net_bit_def assms(3) [OF i] bit_mask_byte)
  qed
  then show ?thesis using assms(1,2) by (simp add: is_mask_def)
qed

lemma four_Suc: "(4 :: nat) = Suc (Suc (Suc (Suc 0)))" by simp

lemma bytes32_bytes:
  "bytes32 w = (let v = unat w in [of_nat (v mod 256), of_nat (v div 256 mod 256),
     of_nat (v div 256 div 256 mod 256), of_nat (v div 256 div 256 div 256 mod 256)])"
  unfolding bytes32_def Let_def four_Suc val_bytes.simps by (rule refl)

lemma upt_33: "[0..<33] = [0, 1, 2, 3, 4, 5, 6, 7, 8, 9, 10, 11, 12, 13, 14, 15, 16, 17, 18, 19, 20, 21, 22, 23, 24, 25,
    26, 27, 28, 29, 30, 31, 32]"
  by (simp add: upt_rec)

text \<open>What masks of four bytes are compared with.\<close>

definition ipv4_masks :: "bytes list" where
  "ipv4_masks = map (\<lambda>l. map (\<lambda>i. mask_byte (min 8 (l - 8 * i))) [0, 1, 2, 3]) [0..<33]"

lemma is_mask_ipv4_masks:
  assumes "l \<le> 32"
  shows "is_mask 4 (ipv4_masks ! l) l"
proof (rule is_mask_bytes)
  have l: "l < 33" using assms by simp
  have m: "ipv4_masks ! l = map (\<lambda>i. mask_byte (min 8 (l - 8 * i))) [0, 1, 2, 3]"
    unfolding ipv4_masks_def using l by (simp only: nth_map length_upt nth_upt diff_zero add_0)
  show "length (ipv4_masks ! l) = 4" "l \<le> 8 * 4" using m assms by simp_all
  fix i :: nat assume "i < 4"
  then have "i = 0 \<or> i = 1 \<or> i = 2 \<or> i = 3" by presburger
  then show "ipv4_masks ! l ! i = mask_byte (min 8 (l - 8 * i))" unfolding m by (elim disjE) simp_all
qed

end
