(* ===== verification/Subnet_Activity.thy ===== *)
theory Subnet_Activity
  imports Json_Events Honas_State Net_Prefix
begin

text \<open>
  Subnet activity (\<open>src/src/subnet_activity.c\<close>): the JSON file that assigns address prefixes to
  entities, read by a state machine of parser callbacks, and the search for the longest registered
  prefix of an address. The hash table of prefixes (uthash) is a finite map from the hashed bytes,
  an address with a length, to the entity; \<open>Subnet_Table\<close> shows that the hash table refines this map. A
  pointer to an entity is its index. Which allocations succeed is a parameter.
\<close>

section \<open>The data\<close>

type_synonym prefix = "in_addr46 \<times> nat"

datatype subnet_activity_error =
    SA_OK | SA_INVALID_ARGUMENT | SA_OPEN_FILE_FAILED | SA_ALLOC_FAILED | SA_JSON_MAP_FAILED
  | SA_JSON_END_MAP_FAILED | SA_JSON_ARRAY_FAILED | SA_JSON_END_ARRAY_FAILED | SA_JSON_MAP_KEY_FAILED
  | SA_IPADDRESS_PARSE_FAILED | SA_JSON_SPEC_STRING_FAILED | SA_JSON_SPEC_INTEGER_FAILED
  | SA_INVALID_PREFIX_LENGTH

abbreviation (input) MAX_ENTITIES :: nat where "MAX_ENTITIES \<equiv> 1024"
abbreviation (input) ENTITY_NAME :: nat where "ENTITY_NAME \<equiv> 128"

text \<open>The array of entities holds the \<open>name\<close> of each; an entry that was never filled is NULL.\<close>

record subnet_activity =
  sa_entities :: "bytes option list"
  registered_entities :: nat
  sa_prefixes :: "prefix \<rightharpoonup> nat option"
  registered_prefixes :: nat
  shortest_ipv4_prefix :: nat
  longest_ipv4_prefix :: nat
  shortest_ipv6_prefix :: nat
  longest_ipv6_prefix :: nat

datatype subnet_spec_state =
    INIT | SUBNET_ACTIVITY_SPEC | SUBNET_ACTIVITY_SPEC_EXPECT_MAPPING_ARRAY | SUBNET_MAPPING_ARRAY
  | SUBNET_MAPPING | SUBNET_MAPPING_EXPECT_ENTITY | SUBNET_MAPPING_EXPECT_PREFIXES_ARRAY
  | PREFIX_MAPPING_ARRAY | PREFIX_MAPPING | PREFIX_MAPPING_EXPECT_PREFIX | PREFIX_MAPPING_EXPECT_LENGTH

text \<open>\<open>allocations\<close> counts the allocations so far; it stands for the state of the allocator.\<close>

record subnet_activity_spec_context =
  ctx_state :: subnet_spec_state
  subnet_metadata :: subnet_activity
  sa_status_code :: subnet_activity_error
  current_prefix :: "prefix option"
  current_entity :: "nat option"
  current_ipaddr :: in_addr46
  allocations :: nat

section \<open>The tables of masks\<close>

text \<open>The IPv4 masks in the byte order of \<open>s_addr\<close>: the first byte of the address is the lowest.\<close>

definition all_ipv4_subnet_masks :: "u32 list" where
  "all_ipv4_subnet_masks = [
     0x00000000, 0x00000080, 0x000000C0, 0x000000E0, 0x000000F0, 0x000000F8, 0x000000FC, 0x000000FE,
     0x000000FF, 0x000080FF, 0x0000C0FF, 0x0000E0FF, 0x0000F0FF, 0x0000F8FF, 0x0000FCFF, 0x0000FEFF,
     0x0000FFFF, 0x0080FFFF, 0x00C0FFFF, 0x00E0FFFF, 0x00F0FFFF, 0x00F8FFFF, 0x00FCFFFF, 0x00FEFFFF,
     0x00FFFFFF, 0x80FFFFFF, 0xC0FFFFFF, 0xE0FFFFFF, 0xF0FFFFFF, 0xF8FFFFFF, 0xFCFFFFFF, 0xFEFFFFFF,
     0xFFFFFFFF]"

definition onecharset :: bytes where
  "onecharset = [0x01, 0x03, 0x07, 0x0F, 0x1F, 0x3F, 0x7F, 0xFF]"

definition ipv6_prefix_mask :: "nat \<Rightarrow> bytes" where
  "ipv6_prefix_mask i =
     (let zero = replicate 16 0; d = i div 8; m = i mod 8;
          full = fold (\<lambda>j a. a[j := onecharset ! 7]) [0..<d] zero
      in if m > 0 then full[d := onecharset ! (m - 1)] else full)"

definition generate_all_ipv6_prefixes :: "bytes list" where
  "generate_all_ipv6_prefixes = map ipv6_prefix_mask [1..<129]"

section \<open>Reading the specification\<close>

definition add_prefix_hh ::
  "(nat \<Rightarrow> bool) \<Rightarrow> in_addr46 \<Rightarrow> nat \<Rightarrow> subnet_activity_spec_context \<Rightarrow>
   subnet_activity_error \<times> subnet_activity_spec_context" where
  "add_prefix_hh malloc addr plen ctx =
     (let p = (addr, plen); sa = subnet_metadata ctx in
      if sa_prefixes sa p = None then
        let ctx' = ctx\<lparr>allocations := allocations ctx + 1\<rparr> in
        if \<not> malloc (allocations ctx) then (SA_ALLOC_FAILED, ctx')
        else (SA_OK, ctx'\<lparr>subnet_metadata := sa\<lparr>sa_prefixes := (sa_prefixes sa)(p \<mapsto> current_entity ctx)\<rparr>,
                         current_prefix := Some p\<rparr>)
      else (SA_OK, ctx))"

text \<open>A valid length for the family of the address.\<close>

definition valid_length :: "in_addr46 \<Rightarrow> int \<Rightarrow> bool" where
  "valid_length addr v = (case addr of
      Addr4 _ \<Rightarrow> 0 \<le> v \<and> v \<le> 32
    | Addr6 _ \<Rightarrow> 0 \<le> v \<and> v \<le> 128
    | Other_Family _ \<Rightarrow> False)"

text \<open>Counting a prefix and keeping the bounds on the lengths.\<close>

definition note_prefix :: "in_addr46 \<Rightarrow> nat \<Rightarrow> subnet_activity \<Rightarrow> subnet_activity" where
  "note_prefix addr n sa =
     (let sa = sa\<lparr>registered_prefixes := registered_prefixes sa + 1\<rparr> in
      case addr of
        Addr4 _ \<Rightarrow> sa\<lparr>shortest_ipv4_prefix := min (shortest_ipv4_prefix sa) n,
                     longest_ipv4_prefix := max (longest_ipv4_prefix sa) n\<rparr>
      | _ \<Rightarrow> sa\<lparr>shortest_ipv6_prefix := min (shortest_ipv6_prefix sa) n,
               longest_ipv6_prefix := max (longest_ipv6_prefix sa) n\<rparr>)"

definition subnet_activity_spec_integer ::
  "(nat \<Rightarrow> bool) \<Rightarrow> int \<Rightarrow> subnet_activity_spec_context \<Rightarrow> (int \<times> subnet_activity_spec_context) option" where
  "subnet_activity_spec_integer malloc v ctx =
     (if ctx_state ctx = PREFIX_MAPPING_EXPECT_LENGTH then
        if valid_length (current_ipaddr ctx) v then
          let addr = current_ipaddr ctx; (code, ctx) = add_prefix_hh malloc addr (nat v) ctx;
              ctx = ctx\<lparr>sa_status_code := code\<rparr>;
              ctx = (if code = SA_OK
                     then ctx\<lparr>subnet_metadata := note_prefix addr (nat v) (subnet_metadata ctx)\<rparr> else ctx)
          in Some (1, ctx\<lparr>ctx_state := PREFIX_MAPPING\<rparr>)
        else Some (0, ctx\<lparr>sa_status_code := SA_INVALID_PREFIX_LENGTH\<rparr>)
      else Some (0, ctx\<lparr>sa_status_code := SA_JSON_SPEC_INTEGER_FAILED\<rparr>))"

text \<open>
  \<open>strncpy (dst, src, n)\<close> for a \<open>src\<close> of \<open>n\<close> bytes: the bytes before the first zero, filled up with
  zeros to \<open>n\<close>. It has to fit in \<open>dst\<close>.
\<close>

definition strncpy :: "bytes \<Rightarrow> bytes \<Rightarrow> bytes option" where
  "strncpy dst src =
     (let s = takeWhile (\<lambda>c. c \<noteq> 0) src in
      if length src \<le> length dst then Some (splice 0 (s @ replicate (length src - length s) 0) dst) else None)"

definition subnet_activity_spec_string ::
  "bytes \<Rightarrow> subnet_activity_spec_context \<Rightarrow> (int \<times> subnet_activity_spec_context) option" where
  "subnet_activity_spec_string s ctx =
     (if ctx_state ctx = SUBNET_MAPPING_EXPECT_ENTITY then
        let sa = subnet_metadata ctx; i = registered_entities sa - 1 in
        if registered_entities sa = 0 \<or> MAX_ENTITIES < registered_entities sa then None
        else case sa_entities sa ! i of
          None \<Rightarrow> None
        | Some name \<Rightarrow>
          map_option (\<lambda>name'. (1, ctx\<lparr>subnet_metadata := sa\<lparr>sa_entities := (sa_entities sa)[i := Some name']\<rparr>,
                                     ctx_state := SUBNET_MAPPING\<rparr>)) (strncpy name s)
      else Some (0, ctx\<lparr>sa_status_code := SA_JSON_SPEC_STRING_FAILED\<rparr>))"

text \<open>The names of the keys.\<close>

definition key_subnet_activity :: bytes where
  "key_subnet_activity = [115, 117, 98, 110, 101, 116, 95, 97, 99, 116, 105, 118, 105, 116, 121]"
definition key_entity :: bytes where "key_entity = [101, 110, 116, 105, 116, 121]"
definition key_prefixes :: bytes where "key_prefixes = [112, 114, 101, 102, 105, 120, 101, 115]"

text \<open>The C string in a buffer; there is none without a zero byte.\<close>

definition c_string :: "bytes \<Rightarrow> bytes option" where
  "c_string buf = (if 0 \<in> set buf then Some (takeWhile (\<lambda>c. c \<noteq> 0) buf) else None)"

text \<open>\<open>pton4\<close> and \<open>pton6\<close> are \<open>inet_pton\<close> for the two families: the bytes of the address, if it is one.\<close>

definition parse_prefix_address ::
  "(bytes \<Rightarrow> bytes option) \<Rightarrow> (bytes \<Rightarrow> bytes option) \<Rightarrow> bytes \<Rightarrow> in_addr46 option" where
  "parse_prefix_address pton4 pton6 s = (case pton4 s of
      Some a \<Rightarrow> Some (Addr4 a)
    | None \<Rightarrow> map_option Addr6 (pton6 s))"

definition subnet_activity_spec_map_key ::
  "(bytes \<Rightarrow> bytes option) \<Rightarrow> (bytes \<Rightarrow> bytes option) \<Rightarrow> bytes \<Rightarrow> subnet_activity_spec_context \<Rightarrow>
   (int \<times> subnet_activity_spec_context) option" where
  "subnet_activity_spec_map_key pton4 pton6 s ctx =
     (case ctx_state ctx of
        SUBNET_ACTIVITY_SPEC \<Rightarrow>
          Some (1, if s = key_subnet_activity then ctx\<lparr>ctx_state := SUBNET_ACTIVITY_SPEC_EXPECT_MAPPING_ARRAY\<rparr> else ctx)
      | SUBNET_MAPPING \<Rightarrow>
          Some (1, if s = key_entity then ctx\<lparr>ctx_state := SUBNET_MAPPING_EXPECT_ENTITY\<rparr>
                   else if s = key_prefixes then ctx\<lparr>ctx_state := SUBNET_MAPPING_EXPECT_PREFIXES_ARRAY\<rparr>
                   else ctx)
      | PREFIX_MAPPING \<Rightarrow>
          do {
            ipv46 \<leftarrow> strncpy (replicate 128 0) s;
            text \<leftarrow> c_string ipv46;
            Some (case parse_prefix_address pton4 pton6 text of
                Some a \<Rightarrow> (1, ctx\<lparr>current_ipaddr := a, ctx_state := PREFIX_MAPPING_EXPECT_LENGTH\<rparr>)
              | None \<Rightarrow> (0, ctx\<lparr>current_ipaddr := Other_Family 0, sa_status_code := SA_IPADDRESS_PARSE_FAILED\<rparr>))
          }
      | _ \<Rightarrow> Some (0, ctx\<lparr>sa_status_code := SA_JSON_MAP_KEY_FAILED\<rparr>))"

text \<open>A new entity: \<open>calloc\<close> gives a zeroed name; a full array is written past its end.\<close>

definition subnet_activity_spec_start_map ::
  "(nat \<Rightarrow> bool) \<Rightarrow> subnet_activity_spec_context \<Rightarrow> (int \<times> subnet_activity_spec_context) option" where
  "subnet_activity_spec_start_map malloc ctx =
     (case ctx_state ctx of
        INIT \<Rightarrow> Some (1, ctx\<lparr>ctx_state := SUBNET_ACTIVITY_SPEC\<rparr>)
      | SUBNET_MAPPING_ARRAY \<Rightarrow>
          (let sa = subnet_metadata ctx; n = registered_entities sa; got = malloc (allocations ctx);
               entity = (if got then Some (replicate ENTITY_NAME 0) else None);
               sa = sa\<lparr>sa_entities := (sa_entities sa)[n := entity]\<rparr>;
               ctx = ctx\<lparr>allocations := allocations ctx + 1, subnet_metadata := sa,
                         current_entity := (if got then Some n else None)\<rparr>
           in if MAX_ENTITIES \<le> n then None
              else if \<not> got then Some (0, ctx\<lparr>sa_status_code := SA_ALLOC_FAILED\<rparr>)
              else Some (1, ctx\<lparr>subnet_metadata := sa\<lparr>registered_entities := n + 1\<rparr>, ctx_state := SUBNET_MAPPING\<rparr>))
      | PREFIX_MAPPING_ARRAY \<Rightarrow> Some (1, ctx\<lparr>ctx_state := PREFIX_MAPPING\<rparr>)
      | _ \<Rightarrow> Some (0, ctx\<lparr>sa_status_code := SA_JSON_MAP_FAILED\<rparr>))"

definition subnet_activity_spec_end_map ::
  "subnet_activity_spec_context \<Rightarrow> (int \<times> subnet_activity_spec_context) option" where
  "subnet_activity_spec_end_map ctx =
     (case ctx_state ctx of
        SUBNET_ACTIVITY_SPEC \<Rightarrow> Some (1, ctx\<lparr>ctx_state := INIT\<rparr>)
      | SUBNET_MAPPING \<Rightarrow> Some (1, ctx\<lparr>ctx_state := SUBNET_MAPPING_ARRAY\<rparr>)
      | PREFIX_MAPPING \<Rightarrow> Some (1, ctx\<lparr>ctx_state := PREFIX_MAPPING_ARRAY\<rparr>)
      | _ \<Rightarrow> Some (0, ctx\<lparr>sa_status_code := SA_JSON_END_MAP_FAILED\<rparr>))"

definition subnet_activity_spec_start_array ::
  "subnet_activity_spec_context \<Rightarrow> (int \<times> subnet_activity_spec_context) option" where
  "subnet_activity_spec_start_array ctx =
     (case ctx_state ctx of
        SUBNET_ACTIVITY_SPEC_EXPECT_MAPPING_ARRAY \<Rightarrow> Some (1, ctx\<lparr>ctx_state := SUBNET_MAPPING_ARRAY\<rparr>)
      | SUBNET_MAPPING_EXPECT_PREFIXES_ARRAY \<Rightarrow> Some (1, ctx\<lparr>ctx_state := PREFIX_MAPPING_ARRAY\<rparr>)
      | _ \<Rightarrow> Some (0, ctx\<lparr>sa_status_code := SA_JSON_ARRAY_FAILED\<rparr>))"

definition subnet_activity_spec_end_array ::
  "subnet_activity_spec_context \<Rightarrow> (int \<times> subnet_activity_spec_context) option" where
  "subnet_activity_spec_end_array ctx =
     (case ctx_state ctx of
        SUBNET_MAPPING_ARRAY \<Rightarrow> Some (1, ctx\<lparr>ctx_state := SUBNET_ACTIVITY_SPEC\<rparr>)
      | PREFIX_MAPPING_ARRAY \<Rightarrow> Some (1, ctx\<lparr>ctx_state := SUBNET_MAPPING\<rparr>)
      | _ \<Rightarrow> Some (0, ctx\<lparr>sa_status_code := SA_JSON_END_ARRAY_FAILED\<rparr>))"

definition subnet_activity_json_callbacks ::
  "(nat \<Rightarrow> bool) \<Rightarrow> (bytes \<Rightarrow> bytes option) \<Rightarrow> (bytes \<Rightarrow> bytes option) \<Rightarrow>
   subnet_activity_spec_context yajl_callbacks" where
  "subnet_activity_json_callbacks malloc pton4 pton6 = \<lparr>
     yajl_integer = subnet_activity_spec_integer malloc,
     yajl_string = subnet_activity_spec_string,
     yajl_start_map = subnet_activity_spec_start_map malloc,
     yajl_map_key = subnet_activity_spec_map_key pton4 pton6,
     yajl_end_map = subnet_activity_spec_end_map,
     yajl_start_array = subnet_activity_spec_start_array,
     yajl_end_array = subnet_activity_spec_end_array\<rparr>"

section \<open>Loading, searching and freeing\<close>

definition sa_zero :: subnet_activity where
  "sa_zero = \<lparr>sa_entities = replicate MAX_ENTITIES None, registered_entities = 0, sa_prefixes = Map.empty,
     registered_prefixes = 0, shortest_ipv4_prefix = 32, longest_ipv4_prefix = 0,
     shortest_ipv6_prefix = 128, longest_ipv6_prefix = 0\<rparr>"

definition ctx_zero :: subnet_activity_spec_context where
  "ctx_zero = \<lparr>ctx_state = INIT, subnet_metadata = sa_zero, sa_status_code = SA_OK, current_prefix = None,
     current_entity = None, current_ipaddr = Other_Family 0, allocations = 0\<rparr>"

text \<open>
  The loop over the blocks: \<open>yajl_complete_parse\<close> is called when a block was refused. The code of the
  last callback is the result, whatever the parser reports.
\<close>

fun sa_read_loop ::
  "'h yajl \<Rightarrow> 's yajl_callbacks \<Rightarrow> bytes list \<Rightarrow> 'h \<Rightarrow> 's \<Rightarrow> 's option" where
  "sa_read_loop y cbs [] h ctx = Some ctx"
| "sa_read_loop y cbs (buf # bufs) h ctx =
     (case yajl_parse y cbs buf h ctx of
        None \<Rightarrow> None
      | Some (Yajl_Status_Ok, h', ctx') \<Rightarrow> sa_read_loop y cbs bufs h' ctx'
      | Some (_, h', ctx') \<Rightarrow>
          (case yajl_complete_parse y cbs h' ctx' of
             None \<Rightarrow> None
           | Some (Yajl_Status_Ok, h'', ctx'') \<Rightarrow> sa_read_loop y cbs bufs h'' ctx''
           | Some (_, h'', ctx'') \<Rightarrow> Some ctx''))"

text \<open>\<open>subnetfile\<close> is the path, NULL is \<open>None\<close>; \<open>fopen\<close> gives the contents of a file that can be read.\<close>

definition subnet_activity_initialize ::
  "'h yajl \<Rightarrow> (nat \<Rightarrow> bool) \<Rightarrow> (bytes \<Rightarrow> bytes option) \<Rightarrow> (bytes \<Rightarrow> bytes option) \<Rightarrow> (bytes \<Rightarrow> bytes option) \<Rightarrow>
   bytes option \<Rightarrow> (subnet_activity_error \<times> subnet_activity) option" where
  "subnet_activity_initialize y malloc pton4 pton6 fopen subnetfile =
     (case subnetfile of
        None \<Rightarrow> Some (SA_INVALID_ARGUMENT, sa_zero)
      | Some path \<Rightarrow>
        (case fopen path of
           None \<Rightarrow> Some (SA_OPEN_FILE_FAILED, sa_zero)
         | Some content \<Rightarrow>
           (case y_alloc y of
              None \<Rightarrow> Some (SA_OK, sa_zero)
            | Some h \<Rightarrow>
              map_option (\<lambda>ctx. (sa_status_code ctx, subnet_metadata ctx))
                (sa_read_loop y (subnet_activity_json_callbacks malloc pton4 pton6)
                   (blocks READ_BLOCK_SIZE content) h ctx_zero))))"

text \<open>
  The key that is looked up for the length \<open>i\<close>. \<open>None\<close> is a read outside of the table of masks; the
  index \<open>i - 1\<close> wraps around at zero.
\<close>

definition probe_ipv4 :: "bytes \<Rightarrow> nat \<Rightarrow> prefix option" where
  "probe_ipv4 a i =
     (if i < length all_ipv4_subnet_masks then Some (Addr4 (and_bytes a (bytes32 (all_ipv4_subnet_masks ! i))), i)
      else None)"

definition probe_ipv6 :: "bytes \<Rightarrow> nat \<Rightarrow> prefix option" where
  "probe_ipv6 a i =
     (if 1 \<le> i \<and> i \<le> length generate_all_ipv6_prefixes
      then Some (Addr6 (and_bytes a (generate_all_ipv6_prefixes ! (i - 1))), i) else None)"

text \<open>
  The loop from the longest to the shortest length, with an unsigned counter: after zero comes
  \<open>UINT_MAX\<close>, with which both tables are read out of bounds.
\<close>

function match_from :: "(nat \<Rightarrow> prefix option) \<Rightarrow> (prefix \<rightharpoonup> nat option) \<Rightarrow> nat \<Rightarrow> nat \<Rightarrow> prefix option option" where
  "match_from probe m shortest i =
     (if i < shortest then Some None
      else if 128 < i then None
      else case probe i of
             None \<Rightarrow> None
           | Some p \<Rightarrow> if m p \<noteq> None then Some (Some p)
                       else match_from probe m shortest (if i = 0 then 2 ^ 32 - 1 else i - 1))"
  by pat_completeness auto
termination
  by (relation "measure (\<lambda>(probe, m, shortest, i). if i \<le> 128 then i + 1 else 0)") auto

declare match_from.simps [simp del]

text \<open>The pointers can be NULL; the result is written through \<open>pp_result\<close>.\<close>

definition subnet_activity_match_prefix ::
  "in_addr46 option \<Rightarrow> subnet_activity option \<Rightarrow> prefix option option \<Rightarrow>
   (subnet_activity_error \<times> prefix option option) option" where
  "subnet_activity_match_prefix addr subact pp_result =
     (case (subact, addr, pp_result) of
        (Some sa, Some (Addr4 a), Some _) \<Rightarrow>
          map_option (\<lambda>r. (SA_OK, Some r))
            (match_from (probe_ipv4 a) (sa_prefixes sa) (shortest_ipv4_prefix sa) (longest_ipv4_prefix sa))
      | (Some sa, Some (Addr6 a), Some _) \<Rightarrow>
          map_option (\<lambda>r. (SA_OK, Some r))
            (match_from (probe_ipv6 a) (sa_prefixes sa) (shortest_ipv6_prefix sa) (longest_ipv6_prefix sa))
      | _ \<Rightarrow> Some (SA_INVALID_ARGUMENT, pp_result))"

definition subnet_activity_destroy :: "subnet_activity option \<Rightarrow> subnet_activity_error \<times> subnet_activity option" where
  "subnet_activity_destroy subact = (case subact of
      None \<Rightarrow> (SA_INVALID_ARGUMENT, None)
    | Some sa \<Rightarrow>
      (SA_OK, Some (if 0 < registered_entities sa
         then sa\<lparr>sa_entities := fold (\<lambda>i es. es[i := None]) [0..<registered_entities sa] (sa_entities sa),
                 sa_prefixes := Map.empty, registered_entities := 0, registered_prefixes := 0,
                 shortest_ipv4_prefix := 0, longest_ipv4_prefix := 0,
                 shortest_ipv6_prefix := 0, longest_ipv6_prefix := 0\<rparr>
         else sa)))"

end
