(* ===== verification/Subnet_Lemmas.thy ===== *)
theory Subnet_Lemmas
  imports Subnet_Activity
begin

text \<open>
  Correctness of the subnet activity component: the invariant that every callback keeps, what loading a
  well formed specification gives, and the search for the longest prefix.
\<close>

section \<open>The invariant\<close>

text \<open>A registered prefix: its family, its length within the bounds, and its entity.\<close>

definition prefix_ok :: "subnet_activity \<Rightarrow> prefix \<Rightarrow> bool" where
  "prefix_ok sa p = (case p of
      (Addr4 _, l) \<Rightarrow> shortest_ipv4_prefix sa \<le> l \<and> l \<le> longest_ipv4_prefix sa
    | (Addr6 _, l) \<Rightarrow> shortest_ipv6_prefix sa \<le> l \<and> l \<le> longest_ipv6_prefix sa
    | _ \<Rightarrow> False)"

definition entities_ok :: "subnet_activity \<Rightarrow> bool" where
  "entities_ok sa \<longleftrightarrow>
     length (sa_entities sa) = MAX_ENTITIES \<and> registered_entities sa \<le> MAX_ENTITIES \<and>
     (\<forall>i < MAX_ENTITIES. if i < registered_entities sa
        then \<exists>name. sa_entities sa ! i = Some name \<and> length name = ENTITY_NAME else sa_entities sa ! i = None)"

definition prefixes_ok :: "subnet_activity \<Rightarrow> bool" where
  "prefixes_ok sa \<longleftrightarrow>
     finite (dom (sa_prefixes sa)) \<and> card (dom (sa_prefixes sa)) \<le> registered_prefixes sa \<and>
     (\<forall>p e. sa_prefixes sa p = Some e \<longrightarrow> prefix_ok sa p \<and> (\<exists>i < registered_entities sa. e = Some i)) \<and>
     longest_ipv4_prefix sa \<le> 32 \<and> longest_ipv6_prefix sa \<le> 128"

definition in_entity :: "subnet_spec_state \<Rightarrow> bool" where
  "in_entity s \<longleftrightarrow> s \<notin> {INIT, SUBNET_ACTIVITY_SPEC, SUBNET_ACTIVITY_SPEC_EXPECT_MAPPING_ARRAY, SUBNET_MAPPING_ARRAY}"

definition subnet_ctx_ok :: "subnet_activity_spec_context \<Rightarrow> bool" where
  "subnet_ctx_ok ctx \<longleftrightarrow>
     entities_ok (subnet_metadata ctx) \<and> prefixes_ok (subnet_metadata ctx) \<and>
     (in_entity (ctx_state ctx) \<longrightarrow> (\<exists>i < registered_entities (subnet_metadata ctx). current_entity ctx = Some i))"

lemma in_entity_simps [simp]:
  "\<not> in_entity INIT" "\<not> in_entity SUBNET_ACTIVITY_SPEC"
  "\<not> in_entity SUBNET_ACTIVITY_SPEC_EXPECT_MAPPING_ARRAY" "\<not> in_entity SUBNET_MAPPING_ARRAY"
  "in_entity SUBNET_MAPPING" "in_entity SUBNET_MAPPING_EXPECT_ENTITY"
  "in_entity SUBNET_MAPPING_EXPECT_PREFIXES_ARRAY" "in_entity PREFIX_MAPPING_ARRAY" "in_entity PREFIX_MAPPING"
  "in_entity PREFIX_MAPPING_EXPECT_PREFIX" "in_entity PREFIX_MAPPING_EXPECT_LENGTH"
  by (simp_all add: in_entity_def)

lemma subnet_ctx_ok_zero: "subnet_ctx_ok ctx_zero"
  by (simp add: subnet_ctx_ok_def ctx_zero_def entities_ok_def prefixes_ok_def sa_zero_def)

text \<open>Changing the state or the code only.\<close>

lemma subnet_ctx_ok_state:
  "subnet_ctx_ok ctx \<Longrightarrow> in_entity s \<longrightarrow> in_entity (ctx_state ctx) \<Longrightarrow> subnet_ctx_ok (ctx\<lparr>ctx_state := s\<rparr>)"
  by (simp add: subnet_ctx_ok_def)

lemma subnet_ctx_ok_code [simp]: "subnet_ctx_ok (ctx\<lparr>sa_status_code := c\<rparr>) = subnet_ctx_ok ctx"
  by (simp add: subnet_ctx_ok_def)

lemma subnet_ctx_ok_addr [simp]: "subnet_ctx_ok (ctx\<lparr>current_ipaddr := a\<rparr>) = subnet_ctx_ok ctx"
  by (simp add: subnet_ctx_ok_def)

lemma entities_ok_cong:
  "sa_entities sb = sa_entities sa \<Longrightarrow> registered_entities sb = registered_entities sa \<Longrightarrow> entities_ok sb = entities_ok sa"
  by (simp add: entities_ok_def)

lemma note_prefix_simps [simp]:
  "sa_entities (note_prefix addr n sa) = sa_entities sa"
  "registered_entities (note_prefix addr n sa) = registered_entities sa"
  "sa_prefixes (note_prefix addr n sa) = sa_prefixes sa"
  "registered_prefixes (note_prefix addr n sa) = registered_prefixes sa + 1"
  by (cases addr; simp add: note_prefix_def Let_def)+

lemma note_prefix_keeps_ok: "prefix_ok sa p \<Longrightarrow> prefix_ok (note_prefix addr n sa) p"
  by (cases p; cases "fst p"; cases addr) (auto simp: prefix_ok_def note_prefix_def Let_def)

lemma note_prefix_new_ok: "valid_length addr (int n) \<Longrightarrow> prefix_ok (note_prefix addr n sa) (addr, n)"
  by (cases addr) (auto simp: prefix_ok_def note_prefix_def Let_def valid_length_def)

lemma note_prefix_bounds:
  assumes "valid_length addr (int n)" "longest_ipv4_prefix sa \<le> 32" "longest_ipv6_prefix sa \<le> 128"
  shows "longest_ipv4_prefix (note_prefix addr n sa) \<le> 32 \<and> longest_ipv6_prefix (note_prefix addr n sa) \<le> 128"
  using assms by (cases addr) (auto simp: note_prefix_def Let_def valid_length_def)

lemma prefix_ok_more [simp]:
  "prefix_ok (sa\<lparr>sa_prefixes := m\<rparr>) = prefix_ok sa"
  "prefix_ok (sa\<lparr>sa_entities := xs\<rparr>) = prefix_ok sa"
  "prefix_ok (sa\<lparr>registered_entities := k\<rparr>) = prefix_ok sa"
  by (auto simp: prefix_ok_def fun_eq_iff split: in_addr46.splits)

lemma note_prefix_prefixes [simp]:
  "note_prefix addr n (sa\<lparr>sa_prefixes := m\<rparr>) = (note_prefix addr n sa)\<lparr>sa_prefixes := m\<rparr>"
  by (cases addr) (simp_all add: note_prefix_def Let_def)

lemma prefixes_ok_add:
  assumes ok: "prefixes_ok sa" and v: "valid_length addr (int n)" and e: "i < registered_entities sa"
  shows "prefixes_ok ((note_prefix addr n sa)\<lparr>sa_prefixes := (sa_prefixes sa)((addr, n) \<mapsto> Some i)\<rparr>)"
proof -
  have "card (insert (addr, n) (dom (sa_prefixes sa))) \<le> registered_prefixes sa + 1"
    using ok by (simp add: prefixes_ok_def card_insert_if)
  then show ?thesis
    using ok e note_prefix_bounds [OF v, of sa]
    by (auto simp: prefixes_ok_def note_prefix_keeps_ok note_prefix_new_ok [OF v])
qed

lemma prefixes_ok_again:
  assumes ok: "prefixes_ok sa" and v: "valid_length addr (int n)"
  shows "prefixes_ok (note_prefix addr n sa)"
  using ok note_prefix_bounds [OF v, of sa] by (auto simp: prefixes_ok_def note_prefix_keeps_ok)

lemma integer_ok:
  assumes ok: "subnet_ctx_ok ctx" and r: "subnet_activity_spec_integer malloc v ctx = Some (r, ctx')"
  shows "subnet_ctx_ok ctx'"
proof (cases "ctx_state ctx = PREFIX_MAPPING_EXPECT_LENGTH \<and> valid_length (current_ipaddr ctx) v")
  case False
  then show ?thesis using ok r by (auto simp: subnet_activity_spec_integer_def split: if_splits)
next
  case True
  then have s: "ctx_state ctx = PREFIX_MAPPING_EXPECT_LENGTH" and v: "valid_length (current_ipaddr ctx) v" by auto
  have v': "valid_length (current_ipaddr ctx) (int (nat v))"
    using v by (auto simp: valid_length_def split: in_addr46.splits)
  obtain i where i: "i < registered_entities (subnet_metadata ctx)" "current_entity ctx = Some i"
    using ok s by (auto simp: subnet_ctx_ok_def)
  note p = ok [unfolded subnet_ctx_ok_def, THEN conjunct2, THEN conjunct1]
  have ent: "entities_ok (note_prefix a n (subnet_metadata ctx))" for a n
    using ok by (subst entities_ok_cong [of _ "subnet_metadata ctx"]) (simp_all add: subnet_ctx_ok_def)
  have ent': "entities_ok ((note_prefix a n (subnet_metadata ctx))\<lparr>sa_prefixes := m\<rparr>)" for a n m
    using ok by (subst entities_ok_cong [of _ "subnet_metadata ctx"]) (simp_all add: subnet_ctx_ok_def)
  show ?thesis
    using r s v i ok ent ent' prefixes_ok_add [OF p v' i(1)] prefixes_ok_again [OF p v']
    by (auto simp: subnet_activity_spec_integer_def add_prefix_hh_def Let_def subnet_ctx_ok_def split: if_splits)
qed

lemma strncpy_length: "strncpy dst src = Some buf \<Longrightarrow> length buf = length dst"
  by (auto simp: strncpy_def Let_def length_takeWhile_le split: if_splits)

lemma string_ok:
  assumes ok: "subnet_ctx_ok ctx" and r: "subnet_activity_spec_string s ctx = Some (r, ctx')"
  shows "subnet_ctx_ok ctx'"
proof (cases "ctx_state ctx = SUBNET_MAPPING_EXPECT_ENTITY")
  case False
  then show ?thesis using ok r by (auto simp: subnet_activity_spec_string_def)
next
  case True
  let ?sa = "subnet_metadata ctx" let ?i = "registered_entities ?sa - 1"
  obtain name name' where n: "sa_entities ?sa ! ?i = Some name" "strncpy name s = Some name'"
      "0 < registered_entities ?sa" "registered_entities ?sa \<le> MAX_ENTITIES"
      "ctx' = ctx\<lparr>subnet_metadata := ?sa\<lparr>sa_entities := (sa_entities ?sa)[?i := Some name']\<rparr>, ctx_state := SUBNET_MAPPING\<rparr>"
    using r True by (auto simp: subnet_activity_spec_string_def Let_def split: if_splits option.splits)
  have e: "entities_ok ?sa" using ok by (simp add: subnet_ctx_ok_def)
  have "?i < MAX_ENTITIES" "?i < registered_entities ?sa" using n(3,4) by auto
  then have "length name = ENTITY_NAME" using e n(1) unfolding entities_ok_def by (auto dest!: spec [of _ ?i])
  then have "length name' = ENTITY_NAME" using strncpy_length [OF n(2)] by simp
  then have "entities_ok (?sa\<lparr>sa_entities := (sa_entities ?sa)[?i := Some name']\<rparr>)"
    using e n(3,4) by (auto simp: entities_ok_def nth_list_update)
  moreover have "prefixes_ok (?sa\<lparr>sa_entities := xs\<rparr>)" for xs
    using ok by (auto simp: subnet_ctx_ok_def prefixes_ok_def)
  ultimately show ?thesis using ok n(5) True by (simp add: subnet_ctx_ok_def)
qed

lemma start_map_ok:
  assumes ok: "subnet_ctx_ok ctx" and r: "subnet_activity_spec_start_map malloc ctx = Some (r, ctx')"
  shows "subnet_ctx_ok ctx'"
proof (cases "ctx_state ctx = SUBNET_MAPPING_ARRAY")
  case False
  then show ?thesis
    using ok r by (auto simp: subnet_activity_spec_start_map_def intro: subnet_ctx_ok_state split: subnet_spec_state.splits)
next
  case True
  let ?sa = "subnet_metadata ctx" let ?n = "registered_entities ?sa"
  have e: "entities_ok ?sa" and p: "prefixes_ok ?sa" using ok by (simp_all add: subnet_ctx_ok_def)
  have n: "?n < MAX_ENTITIES"
    using r True by (auto simp: subnet_activity_spec_start_map_def Let_def split: if_splits)
  have fail: "entities_ok (?sa\<lparr>sa_entities := (sa_entities ?sa)[?n := None]\<rparr>)"
    using e n by (auto simp: entities_ok_def nth_list_update)
  have good: "entities_ok (?sa\<lparr>sa_entities := (sa_entities ?sa)[?n := Some (replicate ENTITY_NAME 0)], registered_entities := ?n + 1\<rparr>)"
    using e n by (auto simp: entities_ok_def nth_list_update less_Suc_eq)
  have pf: "prefixes_ok (?sa\<lparr>sa_entities := xs\<rparr>)" "prefixes_ok (?sa\<lparr>sa_entities := xs, registered_entities := ?n + 1\<rparr>)" for xs
    using p by (fastforce simp: prefixes_ok_def less_Suc_eq)+
  show ?thesis
    using r True n fail good pf
    by (auto simp: subnet_activity_spec_start_map_def Let_def subnet_ctx_ok_def split: if_splits)
qed

lemma map_key_ok:
  assumes ok: "subnet_ctx_ok ctx" and r: "subnet_activity_spec_map_key p4 p6 s ctx = Some (r, ctx')"
  shows "subnet_ctx_ok ctx'"
proof (cases "ctx_state ctx = PREFIX_MAPPING")
  case True
  then obtain b t where "strncpy (replicate 128 0) s = Some b" "c_string b = Some t"
    using r by (auto simp: subnet_activity_spec_map_key_def elim!: bind_eq_SomeE)
  then show ?thesis using True ok r
    by (auto simp: subnet_activity_spec_map_key_def subnet_ctx_ok_def split: option.splits)
next
  case False
  then show ?thesis
    using ok r
    by (auto simp: subnet_activity_spec_map_key_def intro: subnet_ctx_ok_state split: subnet_spec_state.splits if_splits)
qed

lemma end_map_ok:
  "subnet_ctx_ok ctx \<Longrightarrow> subnet_activity_spec_end_map ctx = Some (r, ctx') \<Longrightarrow> subnet_ctx_ok ctx'"
  by (auto simp: subnet_activity_spec_end_map_def intro: subnet_ctx_ok_state split: subnet_spec_state.splits)

lemma start_array_ok:
  "subnet_ctx_ok ctx \<Longrightarrow> subnet_activity_spec_start_array ctx = Some (r, ctx') \<Longrightarrow> subnet_ctx_ok ctx'"
  by (auto simp: subnet_activity_spec_start_array_def intro: subnet_ctx_ok_state split: subnet_spec_state.splits)

lemma end_array_ok:
  "subnet_ctx_ok ctx \<Longrightarrow> subnet_activity_spec_end_array ctx = Some (r, ctx') \<Longrightarrow> subnet_ctx_ok ctx'"
  by (auto simp: subnet_activity_spec_end_array_def intro: subnet_ctx_ok_state split: subnet_spec_state.splits)

lemmas subnet_callback_ok = integer_ok string_ok start_map_ok map_key_ok end_map_ok start_array_ok end_array_ok

interpretation subnet_client: yajl_client "subnet_activity_json_callbacks malloc p4 p6" subnet_ctx_ok
proof
  fix s e r s'
  assume "subnet_ctx_ok s" "callback (subnet_activity_json_callbacks malloc p4 p6) e s = Some (r, s')"
  then show "subnet_ctx_ok s'"
    by (cases e) (auto simp: subnet_activity_json_callbacks_def dest: subnet_callback_ok)
qed

lemma sa_read_loop_ok:
  "sa_read_loop y (subnet_activity_json_callbacks malloc p4 p6) bufs h ctx = Some ctx' \<Longrightarrow> subnet_ctx_ok ctx \<Longrightarrow> subnet_ctx_ok ctx'"
proof (induction bufs arbitrary: h ctx)
  case (Cons buf bufs)
  then show ?case
    by (auto split: option.splits prod.splits yajl_status.splits
        dest!: subnet_client.parse_inv subnet_client.complete_parse_inv)
qed simp

text \<open>The prefixes that contain an address.\<close>

definition in_prefix :: "prefix \<Rightarrow> in_addr46 \<Rightarrow> bool" where
  "in_prefix p addr = (case (p, addr) of
      ((Addr4 n, l), Addr4 a) \<Rightarrow> is_network 4 n l a
    | ((Addr6 n, l), Addr6 a) \<Rightarrow> is_network 16 n l a
    | _ \<Rightarrow> False)"

section \<open>The tables of masks\<close>

lemma ipv4_mask_bytes: "map bytes32 all_ipv4_subnet_masks = ipv4_masks"
  by (simp add: ipv4_masks_def all_ipv4_subnet_masks_def bytes32_bytes upt_33 mask_byte_def Let_def)

lemma length_all_ipv4_subnet_masks [simp]: "length all_ipv4_subnet_masks = 33"
  by (simp add: all_ipv4_subnet_masks_def)

lemma ipv4_mask: "l \<le> 32 \<Longrightarrow> is_mask 4 (bytes32 (all_ipv4_subnet_masks ! l)) l"
  using is_mask_ipv4_masks [of l] by (simp flip: ipv4_mask_bytes)

text \<open>The IPv6 masks are right for whole bytes only.\<close>

lemma fold_upd: "d \<le> length a \<Longrightarrow> fold (\<lambda>j a. a[j := x]) [0..<d] a = replicate d x @ drop d a"
proof (induction d)
  case (Suc d)
  then show ?case
    by (simp add: list_update_append replicate_append_same [symmetric] flip: Cons_nth_drop_Suc)
qed simp

lemma length_ipv6_masks [simp]: "length generate_all_ipv6_prefixes = 128"
  by (simp add: generate_all_ipv6_prefixes_def)

lemma nth_ipv6_masks: "1 \<le> i \<Longrightarrow> i \<le> 128 \<Longrightarrow> generate_all_ipv6_prefixes ! (i - 1) = ipv6_prefix_mask i"
  by (simp add: generate_all_ipv6_prefixes_def del: upt_Suc)

lemma ipv6_mask:
  assumes "l \<le> 128" "l mod 8 = 0"
  shows "is_mask 16 (ipv6_prefix_mask l) l"
proof (rule is_mask_bytes)
  have d: "l div 8 \<le> 16" "l = 8 * (l div 8)" using assms by auto
  have m: "ipv6_prefix_mask l = replicate (l div 8) 0xFF @ replicate (16 - l div 8) 0"
    using assms(2) d(1) by (simp add: ipv6_prefix_mask_def onecharset_def fold_upd)
  show "length (ipv6_prefix_mask l) = 16" "l \<le> 8 * 16" using m d assms by simp_all
  fix i :: nat assume i: "i < 16"
  show "ipv6_prefix_mask l ! i = mask_byte (min 8 (l - 8 * i))"
  proof (cases "i < l div 8")
    case True
    then have "min 8 (l - 8 * i) = 8" using d(2) by linarith
    then show ?thesis using True by (simp add: m nth_append mask_byte_def)
  next
    case False
    then have "min 8 (l - 8 * i) = 0" using d(2) by linarith
    then show ?thesis using False i by (simp add: m nth_append mask_byte_def)
  qed
qed

section \<open>The search\<close>

text \<open>What the loop finds: the entry of the greatest length, if any.\<close>

definition best_probe :: "(nat \<Rightarrow> prefix option) \<Rightarrow> (prefix \<rightharpoonup> nat option) \<Rightarrow> nat \<Rightarrow> nat \<Rightarrow> prefix option \<Rightarrow> bool" where
  "best_probe probe m lo hi r = (case r of
      None \<Rightarrow> \<forall>l q. lo \<le> l \<and> l \<le> hi \<and> probe l = Some q \<longrightarrow> m q = None
    | Some p \<Rightarrow> \<exists>l. lo \<le> l \<and> l \<le> hi \<and> probe l = Some p \<and> m p \<noteq> None \<and>
                   (\<forall>j q. l < j \<and> j \<le> hi \<and> probe j = Some q \<longrightarrow> m q = None))"

lemma best_probe_step:
  assumes "best_probe probe m lo i r" "probe (Suc i) = Some q" "m q = None"
  shows "best_probe probe m lo (Suc i) r"
  using assms by (cases r) (fastforce simp: best_probe_def le_Suc_eq)+

lemma match_from_best:
  assumes "1 \<le> lo" "hi \<le> 128" "\<forall>i. lo \<le> i \<and> i \<le> hi \<longrightarrow> probe i \<noteq> None"
  shows "\<exists>r. match_from probe m lo hi = Some r \<and> best_probe probe m lo hi r"
  using assms
proof (induction hi)
  case 0
  then show ?case by (simp add: match_from.simps best_probe_def)
next
  case (Suc i)
  show ?case
  proof (cases "Suc i < lo")
    case True
    then show ?thesis by (auto simp: match_from.simps best_probe_def)
  next
    case False
    then have "lo \<le> Suc i" by simp
    then obtain q where q: "probe (Suc i) = Some q" using Suc.prems(3) by blast
    have IH: "\<exists>r. match_from probe m lo i = Some r \<and> best_probe probe m lo i r" using Suc by simp
    show ?thesis
    proof (cases "m q = None")
      case True
      then show ?thesis
        using IH best_probe_step [where probe = probe and m = m and i = i and lo = lo, OF _ q True] q False Suc.prems(2)
        by (subst match_from.simps) auto
    next
      case found: False
      then have "best_probe probe m lo (Suc i) (Some q)"
        using q False by (auto simp: best_probe_def intro!: exI [of _ "Suc i"])
      then show ?thesis using found q False Suc.prems(2) by (subst match_from.simps) auto
    qed
  qed
qed

text \<open>With a shortest length of zero and nothing found the loop reads outside of the tables.\<close>

lemma match_from_wraps:
  assumes "\<forall>i q. i \<le> hi \<and> probe i = Some q \<longrightarrow> m q = None"
  shows "match_from probe m 0 hi = None"
  using assms
proof (induction hi)
  case 0
  have "match_from probe m 0 4294967295 = None" by (subst match_from.simps) simp
  then show ?case using 0 by (subst match_from.simps) (auto split: option.splits)
next
  case (Suc i)
  have "match_from probe m 0 i = None" using Suc.IH Suc.prems le_SucI by blast
  moreover have "m q = None" if "probe (Suc i) = Some q" for q using Suc.prems that by blast
  ultimately show ?case by (subst match_from.simps) (auto split: option.splits)
qed

lemma prefixes_ok_prefix: "prefixes_ok sa \<Longrightarrow> p \<in> dom (sa_prefixes sa) \<Longrightarrow> prefix_ok sa p"
  unfolding prefixes_ok_def by blast

definition longest_match :: "subnet_activity \<Rightarrow> in_addr46 \<Rightarrow> prefix option \<Rightarrow> bool" where
  "longest_match sa addr r = (case r of
      None \<Rightarrow> \<forall>p \<in> dom (sa_prefixes sa). \<not> in_prefix p addr
    | Some p \<Rightarrow> p \<in> dom (sa_prefixes sa) \<and> in_prefix p addr \<and>
                (\<forall>q \<in> dom (sa_prefixes sa). in_prefix q addr \<longrightarrow> snd q \<le> snd p))"

text \<open>From the loop to the prefixes: the keys it looks up are the prefixes that contain the address.\<close>

lemma longest_matchI:
  assumes best: "best_probe probe (sa_prefixes sa) lo hi r"
    and sound: "\<And>l p. lo \<le> l \<Longrightarrow> l \<le> hi \<Longrightarrow> probe l = Some p \<Longrightarrow> p \<in> dom (sa_prefixes sa) \<Longrightarrow> in_prefix p addr \<and> snd p = l"
    and complete: "\<And>q. q \<in> dom (sa_prefixes sa) \<Longrightarrow> in_prefix q addr \<Longrightarrow>
        lo \<le> snd q \<and> snd q \<le> hi \<and> probe (snd q) = Some q"
  shows "longest_match sa addr r"
proof (cases r)
  case None
  have "\<not> in_prefix q addr" if q: "q \<in> dom (sa_prefixes sa)" for q
  proof
    assume "in_prefix q addr"
    from complete [OF q this] have "sa_prefixes sa q = None"
      using best None unfolding best_probe_def by (simp del: split_paired_All)
    then show False using q by blast
  qed
  then show ?thesis by (simp add: longest_match_def None)
next
  case (Some p)
  obtain l where l: "lo \<le> l" "l \<le> hi" "probe l = Some p" "sa_prefixes sa p \<noteq> None"
    "\<forall>j q. l < j \<and> j \<le> hi \<and> probe j = Some q \<longrightarrow> sa_prefixes sa q = None"
    using best Some unfolding best_probe_def by auto
  have d: "p \<in> dom (sa_prefixes sa)" using l(4) by auto
  note p = sound [OF l(1,2,3) d]
  have "snd q \<le> snd p" if q: "q \<in> dom (sa_prefixes sa)" "in_prefix q addr" for q
  proof (rule ccontr)
    assume "\<not> snd q \<le> snd p"
    then have "l < snd q" using p by simp
    then have "sa_prefixes sa q = None" using l(5) complete [OF q] by blast
    then show False using q(1) by auto
  qed
  then show ?thesis using p d by (simp add: longest_match_def Some)
qed

lemma in_prefix_ipv4:
  assumes a: "length a = 4"
  shows "in_prefix p (Addr4 a) \<longleftrightarrow> snd p \<le> 32 \<and> probe_ipv4 a (snd p) = Some p"
proof (cases p)
  case (Pair n l)
  show ?thesis
  proof (cases n)
    case (Addr4 b)
    show ?thesis
    proof (cases "l \<le> 32")
      case True
      then show ?thesis using is_network_masked [OF ipv4_mask a, of l b] Addr4 Pair
        by (auto simp: in_prefix_def probe_ipv4_def)
    qed (simp add: in_prefix_def Pair Addr4 is_network_def)
  qed (auto simp: in_prefix_def probe_ipv4_def Pair)
qed

lemma in_prefix_ipv6:
  assumes a: "length a = 16" and l: "snd p mod 8 = 0" "1 \<le> snd p"
  shows "in_prefix p (Addr6 a) \<longleftrightarrow> snd p \<le> 128 \<and> probe_ipv6 a (snd p) = Some p"
proof (cases p)
  case (Pair n k)
  show ?thesis
  proof (cases n)
    case (Addr6 b)
    show ?thesis
    proof (cases "k \<le> 128")
      case True
      then show ?thesis using is_network_masked [OF ipv6_mask a, of k b] Addr6 Pair l
        by (auto simp: in_prefix_def probe_ipv6_def nth_ipv6_masks [simplified])
    qed (simp add: in_prefix_def Pair Addr6 is_network_def)
  qed (auto simp: in_prefix_def probe_ipv6_def Pair)
qed

lemma match_ipv4:
  assumes ok: "prefixes_ok sa" and lo: "1 \<le> shortest_ipv4_prefix sa" and a: "length a = 4"
  shows "\<exists>r. subnet_activity_match_prefix (Some (Addr4 a)) (Some sa) (Some old) = Some (SA_OK, Some r) \<and>
           longest_match sa (Addr4 a) r"
proof -
  let ?lo = "shortest_ipv4_prefix sa" let ?hi = "longest_ipv4_prefix sa"
  have hi: "?hi \<le> 32" using ok by (simp add: prefixes_ok_def)
  obtain r where r: "match_from (probe_ipv4 a) (sa_prefixes sa) ?lo ?hi = Some r"
      "best_probe (probe_ipv4 a) (sa_prefixes sa) ?lo ?hi r"
    using match_from_best [OF lo, of ?hi "probe_ipv4 a" "sa_prefixes sa"] hi by (auto simp: probe_ipv4_def)
  have "longest_match sa (Addr4 a) r"
  proof (rule longest_matchI [OF r(2)])
    fix l p assume "?lo \<le> l" "l \<le> ?hi" "probe_ipv4 a l = Some p"
    moreover from this have "snd p = l" by (auto simp: probe_ipv4_def split: if_splits)
    ultimately show "in_prefix p (Addr4 a) \<and> snd p = l" using in_prefix_ipv4 [OF a, of p] hi by simp
  next
    fix q assume q: "q \<in> dom (sa_prefixes sa)" "in_prefix q (Addr4 a)"
    have "prefix_ok sa q" using ok q(1) by (rule prefixes_ok_prefix)
    then have "?lo \<le> snd q \<and> snd q \<le> ?hi"
      using q(2) by (auto simp: prefix_ok_def in_prefix_def split: prod.splits in_addr46.splits)
    then show "?lo \<le> snd q \<and> snd q \<le> ?hi \<and> probe_ipv4 a (snd q) = Some q"
      using q(2) in_prefix_ipv4 [OF a, of q] by simp
  qed
  then show ?thesis using r(1) by (simp add: subnet_activity_match_prefix_def)
qed

text \<open>For IPv6 as long as every registered length is a number of whole bytes.\<close>

lemma match_ipv6:
  assumes ok: "prefixes_ok sa" and lo: "1 \<le> shortest_ipv6_prefix sa" and a: "length a = 16"
    and whole: "\<And>b l. (Addr6 b, l) \<in> dom (sa_prefixes sa) \<Longrightarrow> l mod 8 = 0"
  shows "\<exists>r. subnet_activity_match_prefix (Some (Addr6 a)) (Some sa) (Some old) = Some (SA_OK, Some r) \<and>
           longest_match sa (Addr6 a) r"
proof -
  let ?lo = "shortest_ipv6_prefix sa" let ?hi = "longest_ipv6_prefix sa"
  have hi: "?hi \<le> 128" using ok by (simp add: prefixes_ok_def)
  obtain r where r: "match_from (probe_ipv6 a) (sa_prefixes sa) ?lo ?hi = Some r"
      "best_probe (probe_ipv6 a) (sa_prefixes sa) ?lo ?hi r"
    using match_from_best [OF lo hi, of "probe_ipv6 a" "sa_prefixes sa"] hi lo by (auto simp: probe_ipv6_def)
  have "longest_match sa (Addr6 a) r"
  proof (rule longest_matchI [OF r(2)])
    fix l p assume l: "?lo \<le> l" "l \<le> ?hi" and p: "probe_ipv6 a l = Some p" and d: "p \<in> dom (sa_prefixes sa)"
    obtain b where b: "p = (Addr6 b, l)" using p by (auto simp: probe_ipv6_def split: if_splits)
    then have "l mod 8 = 0" using whole d by blast
    then show "in_prefix p (Addr6 a) \<and> snd p = l" using in_prefix_ipv6 [OF a, of p] hi l lo p b by simp
  next
    fix q assume q: "q \<in> dom (sa_prefixes sa)" "in_prefix q (Addr6 a)"
    obtain b l where b: "q = (Addr6 b, l)"
      using q(2) by (auto simp: in_prefix_def split: prod.splits in_addr46.splits)
    have "prefix_ok sa q" using ok q(1) by (rule prefixes_ok_prefix)
    then have "?lo \<le> l \<and> l \<le> ?hi" by (simp add: prefix_ok_def b)
    then show "?lo \<le> snd q \<and> snd q \<le> ?hi \<and> probe_ipv6 a (snd q) = Some q"
      using q(2) in_prefix_ipv6 [OF a, of q] whole [of b l] q(1) b lo by simp
  qed
  then show ?thesis using r(1) by (simp add: subnet_activity_match_prefix_def)
qed

lemma match_ipv4_out_of_bounds:
  assumes ok: "prefixes_ok sa" and lo: "shortest_ipv4_prefix sa = 0" and a: "length a = 4"
    and none: "\<forall>p \<in> dom (sa_prefixes sa). \<not> in_prefix p (Addr4 a)"
  shows "subnet_activity_match_prefix (Some (Addr4 a)) (Some sa) (Some old) = None"
proof -
  have hi: "longest_ipv4_prefix sa \<le> 32" using ok by (simp add: prefixes_ok_def)
  have "sa_prefixes sa q = None" if "i \<le> longest_ipv4_prefix sa" "probe_ipv4 a i = Some q" for i q
  proof -
    have "snd q = i" using that(2) by (auto simp: probe_ipv4_def split: if_splits)
    then have "in_prefix q (Addr4 a)" using in_prefix_ipv4 [OF a, of q] that hi by simp
    then show ?thesis using none by auto
  qed
  then have "match_from (probe_ipv4 a) (sa_prefixes sa) 0 (longest_ipv4_prefix sa) = None"
    by (intro match_from_wraps) auto
  then show ?thesis by (simp add: subnet_activity_match_prefix_def lo)
qed

text \<open>Freeing keeps the invariant and forgets all prefixes.\<close>

lemma fold_clear: "length es = n \<Longrightarrow> k \<le> n \<Longrightarrow> i < n \<Longrightarrow>
    fold (\<lambda>i es. es[i := None]) [0..<k] es ! i = (if i < k then None else es ! i) \<and>
    length (fold (\<lambda>i es. es[i := None]) [0..<k] es) = n"
  by (induction k) (auto simp: nth_list_update less_Suc_eq)

lemma destroy_ok:
  assumes "entities_ok sa" "prefixes_ok sa"
  shows "\<exists>sb. subnet_activity_destroy (Some sa) = (SA_OK, Some sb) \<and> entities_ok sb \<and>
           (\<forall>i < MAX_ENTITIES. sa_entities sb ! i = None) \<and> sa_prefixes sb = Map.empty"
proof (cases "0 < registered_entities sa")
  case True
  have l: "length (sa_entities sa) = 1024" "registered_entities sa \<le> 1024"
    "\<forall>i < 1024. \<not> i < registered_entities sa \<longrightarrow> sa_entities sa ! i = None"
    using assms(1) unfolding entities_ok_def by (auto split: if_splits)
  let ?es = "fold (\<lambda>i es. es[i := None]) [0..<registered_entities sa] (sa_entities sa)"
  have "length ?es = 1024" using fold_clear [OF l(1,2), of 0] by simp
  moreover have "\<forall>i < 1024. ?es ! i = None" using fold_clear [OF l(1,2)] l(3) by simp
  ultimately show ?thesis using True by (simp add: subnet_activity_destroy_def entities_ok_def)
next
  case False
  then have "sa_prefixes sa p = None" for p
    using assms(2) unfolding prefixes_ok_def by (cases "sa_prefixes sa p") (use gr_implies_not_zero in blast)+
  then show ?thesis using assms(1) False by (auto simp: subnet_activity_destroy_def entities_ok_def)
qed

end
