(* ===== verification/Subnet_Load.thy ===== *)
theory Subnet_Load
  imports Subnet_Lemmas
begin

text \<open>
  Loading a well formed specification: the abstract specification is a list of entities with their
  prefixes, and the loaded structure holds every entity and gives each prefix to the first entity that
  lists it.
\<close>

section \<open>The abstract specification\<close>

type_synonym subnet_spec = "(bytes \<times> (bytes \<times> int) list) list"

definition prefix_events :: "bytes \<times> int \<Rightarrow> json_event list" where
  "prefix_events p = [Ev_Start_Map, Ev_Map_Key (fst p), Ev_Integer (snd p), Ev_End_Map]"

definition entity_events :: "bytes \<times> (bytes \<times> int) list \<Rightarrow> json_event list" where
  "entity_events e =
     [Ev_Start_Map, Ev_Map_Key key_entity, Ev_String (fst e), Ev_Map_Key key_prefixes, Ev_Start_Array] @
     concat (map prefix_events (snd e)) @ [Ev_End_Array, Ev_End_Map]"

definition spec_events :: "subnet_spec \<Rightarrow> json_event list" where
  "spec_events spec =
     [Ev_Start_Map, Ev_Map_Key key_subnet_activity, Ev_Start_Array] @
     concat (map entity_events spec) @ [Ev_End_Array, Ev_End_Map]"

text \<open>A prefix that can be read; an entity whose name fits; at most as many entities as there is space for.\<close>

definition prefix_valid :: "(bytes \<Rightarrow> bytes option) \<Rightarrow> (bytes \<Rightarrow> bytes option) \<Rightarrow> bytes \<times> int \<Rightarrow> bool" where
  "prefix_valid p4 p6 p \<longleftrightarrow> 0 \<notin> set (fst p) \<and> length (fst p) < 128 \<and>
     (\<exists>addr. parse_prefix_address p4 p6 (fst p) = Some addr \<and> valid_length addr (snd p))"

definition spec_valid :: "(bytes \<Rightarrow> bytes option) \<Rightarrow> (bytes \<Rightarrow> bytes option) \<Rightarrow> subnet_spec \<Rightarrow> bool" where
  "spec_valid p4 p6 spec \<longleftrightarrow> length spec \<le> MAX_ENTITIES \<and>
     (\<forall>e \<in> set spec. length (fst e) \<le> ENTITY_NAME \<and> (\<forall>p \<in> set (snd e). prefix_valid p4 p6 p))"

definition prefix_key :: "(bytes \<Rightarrow> bytes option) \<Rightarrow> (bytes \<Rightarrow> bytes option) \<Rightarrow> bytes \<times> int \<Rightarrow> prefix" where
  "prefix_key p4 p6 p = (the (parse_prefix_address p4 p6 (fst p)), nat (snd p))"

text \<open>The first entity, counted from \<open>n\<close>, that lists a prefix.\<close>

fun owner :: "(bytes \<Rightarrow> bytes option) \<Rightarrow> (bytes \<Rightarrow> bytes option) \<Rightarrow> nat \<Rightarrow> subnet_spec \<Rightarrow> prefix \<Rightarrow> nat option" where
  "owner p4 p6 n [] k = None"
| "owner p4 p6 n ((name, ps) # es) k =
     (if k \<in> prefix_key p4 p6 ` set ps then Some n else owner p4 p6 (Suc n) es k)"

definition stored_name :: "bytes \<Rightarrow> bytes" where
  "stored_name name = (let s = takeWhile (\<lambda>c. c \<noteq> 0) name in s @ replicate (ENTITY_NAME - length s) 0)"

section \<open>The callbacks on the events of a specification\<close>

abbreviation (input) all_mallocs :: "nat \<Rightarrow> bool" where "all_mallocs \<equiv> (\<lambda>_. True)"

lemma strncpy_zeros:
  assumes "length s \<le> n"
  shows "strncpy (replicate n 0) s = Some (let t = takeWhile (\<lambda>c. c \<noteq> 0) s in t @ replicate (n - length t) 0)"
proof -
  let ?t = "takeWhile (\<lambda>c. c \<noteq> 0) s"
  have t: "length ?t \<le> length s" by (rule length_takeWhile_le)
  have "splice 0 (?t @ replicate (length s - length ?t) 0) (replicate n 0) =
      ?t @ replicate (length s - length ?t + (n - length s)) 0"
    using t assms by (simp add: splice_def flip: replicate_add)
  moreover have "length s - length ?t + (n - length s) = n - length ?t" using t assms by simp
  ultimately show ?thesis using assms by (simp add: strncpy_def Let_def)
qed

lemma c_string_zeros: "0 \<notin> set s \<Longrightarrow> length s < n \<Longrightarrow> c_string (s @ replicate (n - length s) 0) = Some s"
proof -
  assume s: "0 \<notin> set s" "length s < n"
  obtain k where k: "n - length s = Suc k" using s(2) by (metis Suc_diff_Suc)
  have "\<And>c. c \<in> set s \<Longrightarrow> c \<noteq> 0" using s(1) by auto
  then have "takeWhile (\<lambda>c. c \<noteq> 0) (s @ 0 # replicate k 0) = s" by (subst takeWhile_append2) auto
  then show ?thesis by (simp add: c_string_def k)
qed

lemma prefix_text_read:
  assumes "0 \<notin> set s" "length s < 128"
  shows "strncpy (replicate 128 0) s \<bind> c_string = Some s"
proof -
  have "takeWhile (\<lambda>c. c \<noteq> 0) s = s" using assms(1) by (auto simp: takeWhile_eq_all_conv)
  then show ?thesis using assms(2) strncpy_zeros [of s 128] c_string_zeros [OF assms] by (simp only: Let_def) simp
qed

text \<open>What a context keeps while the prefixes of one entity are read.\<close>

definition adds_prefixes :: "prefix set \<Rightarrow> subnet_activity_spec_context \<Rightarrow> subnet_activity_spec_context \<Rightarrow> bool" where
  "adds_prefixes ks ctx ctx' \<longleftrightarrow>
     sa_status_code ctx' = SA_OK \<and> ctx_state ctx' = ctx_state ctx \<and> current_entity ctx' = current_entity ctx \<and>
     sa_entities (subnet_metadata ctx') = sa_entities (subnet_metadata ctx) \<and>
     registered_entities (subnet_metadata ctx') = registered_entities (subnet_metadata ctx) \<and>
     (\<forall>k. sa_prefixes (subnet_metadata ctx') k =
        (if sa_prefixes (subnet_metadata ctx) k = None \<and> k \<in> ks then Some (current_entity ctx)
         else sa_prefixes (subnet_metadata ctx) k))"

lemma adds_prefixes_trans: "adds_prefixes a x y \<Longrightarrow> adds_prefixes b y z \<Longrightarrow> adds_prefixes (a \<union> b) x z"
  by (simp add: adds_prefixes_def del: split_paired_All)

abbreviation (input) sa_cbs where "sa_cbs \<equiv> subnet_activity_json_callbacks (\<lambda>_. True)"

lemmas sa_cb_defs = subnet_activity_json_callbacks_def subnet_activity_spec_start_map_def
  subnet_activity_spec_map_key_def subnet_activity_spec_integer_def subnet_activity_spec_string_def
  subnet_activity_spec_end_map_def subnet_activity_spec_start_array_def subnet_activity_spec_end_array_def

lemma accepts_prefix:
  assumes s: "ctx_state ctx = PREFIX_MAPPING_ARRAY" and v: "prefix_valid p4 p6 p"
  shows "\<exists>ctx'. accepts (sa_cbs p4 p6) (prefix_events p) ctx ctx' \<and> adds_prefixes {prefix_key p4 p6 p} ctx ctx'"
proof -
  obtain addr where a: "parse_prefix_address p4 p6 (fst p) = Some addr" "valid_length addr (snd p)"
    using v by (auto simp: prefix_valid_def)
  have t: "0 \<notin> set (fst p)" "length (fst p) < 128" using v by (simp_all add: prefix_valid_def)
  obtain buf where b: "strncpy (replicate 128 0) (fst p) = Some buf" "c_string buf = Some (fst p)"
    using prefix_text_read [OF t] by (auto elim: bind_eq_SomeE)
  let ?c1 = "ctx\<lparr>ctx_state := PREFIX_MAPPING\<rparr>"
  let ?c2 = "?c1\<lparr>current_ipaddr := addr, ctx_state := PREFIX_MAPPING_EXPECT_LENGTH\<rparr>"
  have "\<exists>ctx3. subnet_activity_spec_integer (\<lambda>_. True) (snd p) ?c2 = Some (1, ctx3) \<and>
      ctx_state ctx3 = PREFIX_MAPPING \<and> adds_prefixes {(addr, nat (snd p))} ctx (ctx3\<lparr>ctx_state := PREFIX_MAPPING_ARRAY\<rparr>)"
    using a(2) s
    by (cases "sa_prefixes (subnet_metadata ctx) (addr, nat (snd p)) = None")
      (auto simp: subnet_activity_spec_integer_def add_prefix_hh_def Let_def adds_prefixes_def)
  then obtain ctx3 where c3: "subnet_activity_spec_integer (\<lambda>_. True) (snd p) ?c2 = Some (1, ctx3)"
      "ctx_state ctx3 = PREFIX_MAPPING" "adds_prefixes {(addr, nat (snd p))} ctx (ctx3\<lparr>ctx_state := PREFIX_MAPPING_ARRAY\<rparr>)"
    by (elim exE conjE)
  have k: "prefix_key p4 p6 p = (addr, nat (snd p))" by (simp add: prefix_key_def a(1))
  have "accepts (sa_cbs p4 p6) (prefix_events p) ctx (ctx3\<lparr>ctx_state := PREFIX_MAPPING_ARRAY\<rparr>)"
    using s a(1) b c3(1,2)
    by (simp add: prefix_events_def accepts_def subnet_activity_json_callbacks_def subnet_activity_spec_start_map_def
        subnet_activity_spec_map_key_def subnet_activity_spec_end_map_def)
  moreover have "adds_prefixes {prefix_key p4 p6 p} ctx (ctx3\<lparr>ctx_state := PREFIX_MAPPING_ARRAY\<rparr>)"
    using c3(3) by (simp only: k)
  ultimately show ?thesis by blast
qed

lemma accepts_prefixes:
  assumes "ctx_state ctx = PREFIX_MAPPING_ARRAY" "sa_status_code ctx = SA_OK" "\<forall>p \<in> set ps. prefix_valid p4 p6 p"
  shows "\<exists>ctx'. accepts (sa_cbs p4 p6) (concat (map prefix_events ps)) ctx ctx' \<and>
           adds_prefixes (prefix_key p4 p6 ` set ps) ctx ctx'"
  using assms
proof (induction ps arbitrary: ctx)
  case Nil
  then show ?case by (auto simp: adds_prefixes_def)
next
  case (Cons p ps)
  obtain c1 where c1: "accepts (sa_cbs p4 p6) (prefix_events p) ctx c1" "adds_prefixes {prefix_key p4 p6 p} ctx c1"
    using accepts_prefix [OF Cons.prems(1), of p4 p6 p] Cons.prems(3) by auto
  have "ctx_state c1 = PREFIX_MAPPING_ARRAY" "sa_status_code c1 = SA_OK"
    using c1(2) Cons.prems(1) by (simp_all add: adds_prefixes_def)
  then obtain c2 where c2: "accepts (sa_cbs p4 p6) (concat (map prefix_events ps)) c1 c2"
      "adds_prefixes (prefix_key p4 p6 ` set ps) c1 c2"
    using Cons.IH [of c1] Cons.prems(3) by auto
  show ?case
    using accepts_append [OF c1(1) c2(1)] adds_prefixes_trans [OF c1(2) c2(2)] by auto
qed

text \<open>What reading a list of entities does.\<close>

definition adds_entities ::
  "(bytes \<Rightarrow> bytes option) \<Rightarrow> (bytes \<Rightarrow> bytes option) \<Rightarrow> subnet_spec \<Rightarrow>
   subnet_activity_spec_context \<Rightarrow> subnet_activity_spec_context \<Rightarrow> bool" where
  "adds_entities p4 p6 es ctx ctx' \<longleftrightarrow>
     (let sa = subnet_metadata ctx; sb = subnet_metadata ctx'; n = registered_entities sa in
      sa_status_code ctx' = SA_OK \<and> ctx_state ctx' = SUBNET_MAPPING_ARRAY \<and>
      registered_entities sb = n + length es \<and> length (sa_entities sb) = MAX_ENTITIES \<and>
      (\<forall>i < MAX_ENTITIES. sa_entities sb ! i =
         (if n \<le> i \<and> i < n + length es then Some (stored_name (fst (es ! (i - n)))) else sa_entities sa ! i)) \<and>
      (\<forall>k. sa_prefixes sb k =
         (case sa_prefixes sa k of Some e \<Rightarrow> Some e | None \<Rightarrow> map_option Some (owner p4 p6 n es k))))"

lemma accepts_entity:
  assumes s: "ctx_state ctx = SUBNET_MAPPING_ARRAY" "sa_status_code ctx = SA_OK"
    and n: "length (sa_entities (subnet_metadata ctx)) = MAX_ENTITIES" "registered_entities (subnet_metadata ctx) < MAX_ENTITIES"
    and v: "length (fst e) \<le> ENTITY_NAME" "\<forall>p \<in> set (snd e). prefix_valid p4 p6 p"
  shows "\<exists>ctx'. accepts (sa_cbs p4 p6) (entity_events e) ctx ctx' \<and> adds_entities p4 p6 [e] ctx ctx'"
proof -
  let ?sa = "subnet_metadata ctx" let ?n = "registered_entities ?sa"
  let ?es = "(sa_entities ?sa)[?n := Some (stored_name (fst e))]"
  let ?c1 = "ctx\<lparr>allocations := allocations ctx + 1, current_entity := Some ?n, ctx_state := PREFIX_MAPPING_ARRAY,
      subnet_metadata := ?sa\<lparr>sa_entities := ?es, registered_entities := ?n + 1\<rparr>\<rparr>"
  have name: "strncpy (replicate 128 0) (fst e) = Some (stored_name (fst e))"
    using strncpy_zeros [OF v(1)] by (simp add: stored_name_def)
  have head: "accepts (sa_cbs p4 p6)
      [Ev_Start_Map, Ev_Map_Key key_entity, Ev_String (fst e), Ev_Map_Key key_prefixes, Ev_Start_Array] ctx ?c1"
    using s n name by (simp add: accepts_def sa_cb_defs Let_def key_prefixes_def key_entity_def)
  obtain c2 where c2: "accepts (sa_cbs p4 p6) (concat (map prefix_events (snd e))) ?c1 c2"
      "adds_prefixes (prefix_key p4 p6 ` set (snd e)) ?c1 c2"
    using accepts_prefixes [of ?c1 "snd e" p4 p6] s v(2) by auto
  let ?c3 = "c2\<lparr>ctx_state := SUBNET_MAPPING_ARRAY\<rparr>"
  have st: "ctx_state c2 = PREFIX_MAPPING_ARRAY" using c2(2) by (simp add: adds_prefixes_def)
  have "accepts (sa_cbs p4 p6) [Ev_End_Array, Ev_End_Map] c2 ?c3"
    using st by (simp add: accepts_def sa_cb_defs)
  from accepts_append [OF accepts_append [OF head c2(1)] this]
  have acc: "accepts (sa_cbs p4 p6) (entity_events e) ctx ?c3" by (simp add: entity_events_def)
  have "adds_entities p4 p6 [e] ctx ?c3"
    using c2(2) n
    by (cases e) (auto simp: adds_entities_def adds_prefixes_def Let_def nth_list_update
        split: option.splits simp del: split_paired_All)
  then show ?thesis using acc by blast
qed

lemma owner_Cons: "owner p4 p6 n (e # es) k =
    (if k \<in> prefix_key p4 p6 ` set (snd e) then Some n else owner p4 p6 (Suc n) es k)"
  by (cases e) simp

lemma adds_entities_Cons:
  assumes "adds_entities p4 p6 [e] x y" "adds_entities p4 p6 es y z"
  shows "adds_entities p4 p6 (e # es) x z"
proof -
  let ?n = "registered_entities (subnet_metadata x)"
  have n: "registered_entities (subnet_metadata y) = Suc ?n" using assms(1) by (simp add: adds_entities_def Let_def)
  have "sa_entities (subnet_metadata z) ! i =
      (if ?n \<le> i \<and> i < ?n + length (e # es) then Some (stored_name (fst ((e # es) ! (i - ?n))))
       else sa_entities (subnet_metadata x) ! i)" if i: "i < MAX_ENTITIES" for i
  proof -
    have z: "sa_entities (subnet_metadata z) ! i =
        (if Suc ?n \<le> i \<and> i < Suc ?n + length es then Some (stored_name (fst (es ! (i - Suc ?n))))
         else sa_entities (subnet_metadata y) ! i)"
      using assms(2) i n by (simp add: adds_entities_def Let_def)
    have y: "sa_entities (subnet_metadata y) ! i =
        (if i = ?n then Some (stored_name (fst e)) else sa_entities (subnet_metadata x) ! i)"
      using assms(1) i by (auto simp: adds_entities_def Let_def)
    show ?thesis unfolding z y by (cases "i = ?n") (auto simp: nth_Cons')
  qed
  moreover have "sa_prefixes (subnet_metadata z) k =
      (case sa_prefixes (subnet_metadata x) k of Some v \<Rightarrow> Some v | None \<Rightarrow> map_option Some (owner p4 p6 ?n (e # es) k))" for k
  proof -
    have "sa_prefixes (subnet_metadata y) k =
        (case sa_prefixes (subnet_metadata x) k of Some v \<Rightarrow> Some v | None \<Rightarrow> map_option Some (owner p4 p6 ?n [e] k))"
      using assms(1) unfolding adds_entities_def Let_def by blast
    moreover have "sa_prefixes (subnet_metadata z) k =
        (case sa_prefixes (subnet_metadata y) k of Some v \<Rightarrow> Some v | None \<Rightarrow> map_option Some (owner p4 p6 (Suc ?n) es k))"
      using assms(2) unfolding adds_entities_def Let_def n by blast
    ultimately show ?thesis by (auto simp: owner_Cons split: option.splits)
  qed
  ultimately show ?thesis using assms n by (simp add: adds_entities_def Let_def)
qed

lemma accepts_entities:
  assumes "ctx_state ctx = SUBNET_MAPPING_ARRAY" "sa_status_code ctx = SA_OK"
    and "length (sa_entities (subnet_metadata ctx)) = MAX_ENTITIES"
    and "registered_entities (subnet_metadata ctx) + length es \<le> MAX_ENTITIES"
    and "\<forall>e \<in> set es. length (fst e) \<le> ENTITY_NAME \<and> (\<forall>p \<in> set (snd e). prefix_valid p4 p6 p)"
  shows "\<exists>ctx'. accepts (sa_cbs p4 p6) (concat (map entity_events es)) ctx ctx' \<and> adds_entities p4 p6 es ctx ctx'"
  using assms
proof (induction es arbitrary: ctx)
  case Nil
  then show ?case by (auto simp: adds_entities_def Let_def split: option.splits)
next
  case (Cons e es)
  obtain c1 where c1: "accepts (sa_cbs p4 p6) (entity_events e) ctx c1" "adds_entities p4 p6 [e] ctx c1"
    using accepts_entity [OF Cons.prems(1,2,3), of e p4 p6] Cons.prems(4,5) by auto
  have s: "ctx_state c1 = SUBNET_MAPPING_ARRAY" "sa_status_code c1 = SA_OK"
    "length (sa_entities (subnet_metadata c1)) = MAX_ENTITIES"
    "registered_entities (subnet_metadata c1) + length es \<le> MAX_ENTITIES"
    using c1(2) Cons.prems(4) by (simp_all add: adds_entities_def Let_def)
  have "\<exists>c2. accepts (sa_cbs p4 p6) (concat (map entity_events es)) c1 c2 \<and> adds_entities p4 p6 es c1 c2"
    using Cons.prems(5) by (intro Cons.IH s) simp
  then obtain c2 where c2: "accepts (sa_cbs p4 p6) (concat (map entity_events es)) c1 c2" "adds_entities p4 p6 es c1 c2"
    by (elim exE conjE)
  from accepts_append [OF c1(1) c2(1)] adds_entities_Cons [OF c1(2) c2(2)] show ?case by auto
qed

section \<open>Loading\<close>

text \<open>The structure holds the specification.\<close>

definition holds_spec ::
  "(bytes \<Rightarrow> bytes option) \<Rightarrow> (bytes \<Rightarrow> bytes option) \<Rightarrow> subnet_spec \<Rightarrow> subnet_activity \<Rightarrow> bool" where
  "holds_spec p4 p6 spec sa \<longleftrightarrow>
     registered_entities sa = length spec \<and>
     (\<forall>i < length spec. sa_entities sa ! i = Some (stored_name (fst (spec ! i)))) \<and>
     (\<forall>k. sa_prefixes sa k = map_option Some (owner p4 p6 0 spec k))"

lemma accepts_spec:
  assumes v: "spec_valid p4 p6 spec"
  shows "\<exists>ctx'. accepts (sa_cbs p4 p6) (spec_events spec) ctx_zero ctx' \<and> sa_status_code ctx' = SA_OK \<and>
           holds_spec p4 p6 spec (subnet_metadata ctx')"
proof -
  let ?c1 = "ctx_zero\<lparr>ctx_state := SUBNET_MAPPING_ARRAY\<rparr>"
  have head: "accepts (sa_cbs p4 p6) [Ev_Start_Map, Ev_Map_Key key_subnet_activity, Ev_Start_Array] ctx_zero ?c1"
    by (simp add: accepts_def sa_cb_defs ctx_zero_def)
  have z: "length (sa_entities sa_zero) = MAX_ENTITIES" "registered_entities sa_zero = 0" "sa_prefixes sa_zero = Map.empty"
    by (simp_all add: sa_zero_def)
  have "\<exists>c2. accepts (sa_cbs p4 p6) (concat (map entity_events spec)) ?c1 c2 \<and> adds_entities p4 p6 spec ?c1 c2"
    using v by (intro accepts_entities) (simp_all add: ctx_zero_def sa_zero_def spec_valid_def)
  then obtain c2 where c2: "accepts (sa_cbs p4 p6) (concat (map entity_events spec)) ?c1 c2" "adds_entities p4 p6 spec ?c1 c2"
    by (elim exE conjE)
  let ?c3 = "c2\<lparr>ctx_state := INIT\<rparr>"
  have "accepts (sa_cbs p4 p6) [Ev_End_Array, Ev_End_Map] c2 ?c3"
    using c2(2) by (simp add: accepts_def sa_cb_defs adds_entities_def Let_def)
  from accepts_append [OF accepts_append [OF head c2(1)] this]
  have "accepts (sa_cbs p4 p6) (spec_events spec) ctx_zero ?c3" by (simp add: spec_events_def)
  moreover have "holds_spec p4 p6 spec (subnet_metadata ?c3)" "sa_status_code ?c3 = SA_OK"
    using c2(2) v z by (auto simp: adds_entities_def Let_def holds_spec_def ctx_zero_def spec_valid_def simp del: split_paired_All)
  ultimately show ?thesis by blast
qed

lemma sa_read_loop_accepts:
  "block_events y h bs = Some (es, h') \<Longrightarrow> accepts cbs es ctx ctx' \<Longrightarrow> sa_read_loop y cbs bs h ctx = Some ctx'"
proof (induction bs arbitrary: h es ctx)
  case (Cons b bs)
  obtain es1 h1 fs where b: "y_parse y h b = (es1, h1, True)" "block_events y h1 bs = Some (fs, h')" "es = es1 @ fs"
    using Cons.prems(1) by (auto split: prod.splits if_splits)
  obtain c1 where c1: "accepts cbs es1 ctx c1" "accepts cbs fs c1 ctx'"
    using Cons.prems(2) b(3) by (auto elim: accepts_appendE)
  show ?case using yajl_parse_accepts [OF b(1) c1(1)] Cons.IH [OF b(2) c1(2)] by simp
qed simp

lemma initialize_holds_spec:
  assumes v: "spec_valid p4 p6 spec" and f: "fopen path = Some content" and h: "y_alloc y = Some h"
    and e: "block_events y h (blocks READ_BLOCK_SIZE content) = Some (spec_events spec, h')"
  shows "\<exists>sa. subnet_activity_initialize y (\<lambda>_. True) p4 p6 fopen (Some path) = Some (SA_OK, sa) \<and>
           holds_spec p4 p6 spec sa \<and> entities_ok sa \<and> prefixes_ok sa"
proof -
  obtain ctx where c: "accepts (sa_cbs p4 p6) (spec_events spec) ctx_zero ctx" "sa_status_code ctx = SA_OK"
      "holds_spec p4 p6 spec (subnet_metadata ctx)"
    using accepts_spec [OF v] by (elim exE conjE)
  note r = sa_read_loop_accepts [OF e c(1)]
  have "subnet_ctx_ok ctx" using sa_read_loop_ok [OF r subnet_ctx_ok_zero] .
  then show ?thesis using r c(2,3) f h by (simp add: subnet_activity_initialize_def subnet_ctx_ok_def)
qed

text \<open>Whatever the file holds, the structure that is left satisfies the invariant.\<close>

lemma initialize_ok:
  assumes "subnet_activity_initialize y malloc p4 p6 fopen subnetfile = Some (code, sa)"
  shows "entities_ok sa \<and> prefixes_ok sa"
proof -
  have z: "entities_ok sa_zero \<and> prefixes_ok sa_zero" using subnet_ctx_ok_zero by (simp add: subnet_ctx_ok_def ctx_zero_def)
  then show ?thesis
    using assms sa_read_loop_ok [OF _ subnet_ctx_ok_zero]
    by (fastforce simp: subnet_activity_initialize_def subnet_ctx_ok_def split: option.splits)
qed

text \<open>
  The array of the entities is not guarded: the first entity that does not fit is written behind it, and
  loading does not return.
\<close>

lemma deliver_crash:
  assumes "accepts cbs es s s1" "callback cbs e s1 = None"
  shows "deliver cbs (es @ e # fs) s = None"
  using deliver_append [of cbs es s "length es" s1 "e # fs"] assms by (simp add: accepts_def)

lemma deliver_refused:
  "deliver cbs es s = Some (False, n, s1) \<Longrightarrow> deliver cbs (es @ fs) s = Some (False, n, s1)"
proof (induction es arbitrary: s n)
  case (Cons e es)
  obtain r s' where c: "callback cbs e s = Some (r, s')" using Cons.prems by (auto split: option.splits)
  show ?case using Cons c by (auto split: if_splits)
qed simp

lemma sa_read_loop_crash:
  "block_events y h bs = Some (es, h') \<Longrightarrow> deliver cbs es ctx = None \<Longrightarrow> sa_read_loop y cbs bs h ctx = None"
proof (induction bs arbitrary: h es ctx)
  case (Cons b bs)
  obtain es1 h1 fs where b: "y_parse y h b = (es1, h1, True)" "block_events y h1 bs = Some (fs, h')" "es = es1 @ fs"
    using Cons.prems(1) by (auto split: prod.splits if_splits)
  show ?case
  proof (cases "deliver cbs es1 ctx")
    case None
    then show ?thesis using b(1) by (simp add: yajl_parse_def)
  next
    case (Some t)
    then obtain n c1 where t: "deliver cbs es1 ctx = Some (True, n, c1)"
      using Cons.prems(2) b(3) deliver_refused [of cbs es1 ctx] by (metis (full_types) option.distinct(1) prod_cases3)
    then have "deliver cbs fs c1 = None" using Cons.prems(2) b(3) deliver_append [OF t, of fs] by simp
    from Cons.IH [OF b(2) this] show ?thesis using t b(1) by (simp add: yajl_parse_def)
  qed
qed simp

lemma deliver_too_many:
  assumes v: "\<forall>e \<in> set spec. length (fst e) \<le> ENTITY_NAME \<and> (\<forall>p \<in> set (snd e). prefix_valid p4 p6 p)"
    and n: "MAX_ENTITIES < length spec"
  shows "deliver (sa_cbs p4 p6) (spec_events spec) ctx_zero = None"
proof -
  let ?c1 = "ctx_zero\<lparr>ctx_state := SUBNET_MAPPING_ARRAY\<rparr>"
  let ?head = "[Ev_Start_Map, Ev_Map_Key key_subnet_activity, Ev_Start_Array]"
  obtain first e rest where s: "spec = first @ e # rest" "length first = MAX_ENTITIES"
    using n by (metis append_take_drop_id Cons_nth_drop_Suc length_take min.absorb2 less_or_eq_imp_le)
  have head: "accepts (sa_cbs p4 p6) ?head ctx_zero ?c1" by (simp add: accepts_def sa_cb_defs ctx_zero_def)
  have "\<exists>c2. accepts (sa_cbs p4 p6) (concat (map entity_events first)) ?c1 c2 \<and> adds_entities p4 p6 first ?c1 c2"
  proof (rule accepts_entities)
    show "\<forall>e \<in> set first. length (fst e) \<le> ENTITY_NAME \<and> (\<forall>p \<in> set (snd e). prefix_valid p4 p6 p)"
      using v s(1) by (metis UnCI set_append)
  qed (use s(2) in \<open>simp_all add: ctx_zero_def sa_zero_def\<close>)
  then obtain c2 where c2: "accepts (sa_cbs p4 p6) (concat (map entity_events first)) ?c1 c2" "adds_entities p4 p6 first ?c1 c2"
    by (elim exE conjE)
  have "callback (sa_cbs p4 p6) Ev_Start_Map c2 = None"
    using c2(2) s(2) by (simp add: sa_cb_defs adds_entities_def Let_def ctx_zero_def sa_zero_def)
  from deliver_crash [OF accepts_append [OF head c2(1)] this] show ?thesis
    by (simp add: spec_events_def s(1) entity_events_def)
qed

lemma initialize_too_many:
  assumes "\<forall>e \<in> set spec. length (fst e) \<le> ENTITY_NAME \<and> (\<forall>p \<in> set (snd e). prefix_valid p4 p6 p)"
    and "MAX_ENTITIES < length spec" "fopen path = Some content" "y_alloc y = Some h"
    and "block_events y h (blocks READ_BLOCK_SIZE content) = Some (spec_events spec, h')"
  shows "subnet_activity_initialize y (\<lambda>_. True) p4 p6 fopen (Some path) = None"
  using sa_read_loop_crash [OF assms(5) deliver_too_many [OF assms(1,2)]] assms(3,4)
  by (simp add: subnet_activity_initialize_def)

end
