(* ===== verification/Instrumentation.thy ===== *)
theory Instrumentation
  imports Utils Complex_Main
begin

text \<open>
  The counters of the collector (\<open>src/src/instrumentation.c\<close>), which wrap around like \<open>size_t\<close>, and the
  formulas of the advice on filter parameters (\<open>src/src/advice.c\<close>). A pointer to the counters can be
  NULL, which is \<open>None\<close>. Doubles are real numbers; integer operands keep their C types.
\<close>

section \<open>Counters\<close>

record subnet_instrumentation =
  n_queries_in_subnet :: u64
  n_queries_not_in_subnet :: u64

record instrumentation =
  n_processed_queries :: u64
  n_skipped_queries :: u64
  n_accepted_queries :: u64
  n_queries_sec :: u64
  n_a_queries :: u64
  n_aaaa_queries :: u64
  n_ns_queries :: u64
  n_mx_queries :: u64
  n_ptr_queries :: u64
  memory_usage_kb :: u64
  subnet_aggregates :: subnet_instrumentation
  n_invalid_frames :: u64

abbreviation (input) INSTRUMENTATION_INTERVAL_SEC :: u64 where "INSTRUMENTATION_INTERVAL_SEC \<equiv> 60"

text \<open>The record types of a query that are counted; every other type is a number.\<close>

abbreviation (input) LDNS_RR_TYPE_A :: nat where "LDNS_RR_TYPE_A \<equiv> 1"
abbreviation (input) LDNS_RR_TYPE_NS :: nat where "LDNS_RR_TYPE_NS \<equiv> 2"
abbreviation (input) LDNS_RR_TYPE_PTR' :: nat where "LDNS_RR_TYPE_PTR' \<equiv> 12"
abbreviation (input) LDNS_RR_TYPE_MX :: nat where "LDNS_RR_TYPE_MX \<equiv> 15"
abbreviation (input) LDNS_RR_TYPE_AAAA :: nat where "LDNS_RR_TYPE_AAAA \<equiv> 28"

definition instrumentation_increment_processed :: "instrumentation option \<Rightarrow> instrumentation option" where
  "instrumentation_increment_processed = map_option (\<lambda>i. i\<lparr>n_processed_queries := n_processed_queries i + 1\<rparr>)"

definition instrumentation_increment_accepted :: "instrumentation option \<Rightarrow> instrumentation option" where
  "instrumentation_increment_accepted = map_option (\<lambda>i. i\<lparr>n_accepted_queries := n_accepted_queries i + 1\<rparr>)"

definition instrumentation_increment_skipped :: "instrumentation option \<Rightarrow> instrumentation option" where
  "instrumentation_increment_skipped = map_option (\<lambda>i. i\<lparr>n_skipped_queries := n_skipped_queries i + 1\<rparr>)"

definition instrumentation_increment_type :: "nat \<Rightarrow> instrumentation option \<Rightarrow> instrumentation option" where
  "instrumentation_increment_type qtype = map_option (\<lambda>i.
     if qtype = LDNS_RR_TYPE_A then i\<lparr>n_a_queries := n_a_queries i + 1\<rparr>
     else if qtype = LDNS_RR_TYPE_AAAA then i\<lparr>n_aaaa_queries := n_aaaa_queries i + 1\<rparr>
     else if qtype = LDNS_RR_TYPE_NS then i\<lparr>n_ns_queries := n_ns_queries i + 1\<rparr>
     else if qtype = LDNS_RR_TYPE_MX then i\<lparr>n_mx_queries := n_mx_queries i + 1\<rparr>
     else if qtype = LDNS_RR_TYPE_PTR' then i\<lparr>n_ptr_queries := n_ptr_queries i + 1\<rparr>
     else i)"

definition instrumentation_update_subnet_activity :: "u64 \<Rightarrow> u64 \<Rightarrow> instrumentation option \<Rightarrow> instrumentation option" where
  "instrumentation_update_subnet_activity in_subnet not_in = map_option (\<lambda>i.
     i\<lparr>subnet_aggregates :=
         \<lparr>n_queries_in_subnet = n_queries_in_subnet (subnet_aggregates i) + in_subnet,
          n_queries_not_in_subnet = n_queries_not_in_subnet (subnet_aggregates i) + not_in\<rparr>\<rparr>)"

definition instrumentation_increment_invalid :: "instrumentation option \<Rightarrow> instrumentation option" where
  "instrumentation_increment_invalid = map_option (\<lambda>i. i\<lparr>n_invalid_frames := n_invalid_frames i + 1\<rparr>)"

definition instrumentation_reset :: "instrumentation option \<Rightarrow> instrumentation option" where
  "instrumentation_reset = map_option (\<lambda>i.
     i\<lparr>n_processed_queries := 0, n_accepted_queries := 0, n_skipped_queries := 0, n_queries_sec := 0,
       n_a_queries := 0, n_aaaa_queries := 0, n_ns_queries := 0, n_mx_queries := 0, n_ptr_queries := 0,
       subnet_aggregates := \<lparr>n_queries_in_subnet = 0, n_queries_not_in_subnet = 0\<rparr>, n_invalid_frames := 0\<rparr>)"

text \<open>\<open>calloc\<close> gives zeroed counters or fails.\<close>

definition instrumentation_zero :: instrumentation where
  "instrumentation_zero = \<lparr>n_processed_queries = 0, n_skipped_queries = 0, n_accepted_queries = 0, n_queries_sec = 0,
     n_a_queries = 0, n_aaaa_queries = 0, n_ns_queries = 0, n_mx_queries = 0, n_ptr_queries = 0, memory_usage_kb = 0,
     subnet_aggregates = \<lparr>n_queries_in_subnet = 0, n_queries_not_in_subnet = 0\<rparr>, n_invalid_frames = 0\<rparr>"

definition instrumentation_initialize :: "bool \<Rightarrow> bool \<times> instrumentation option" where
  "instrumentation_initialize alloc_ok = (if alloc_ok then (True, Some instrumentation_zero) else (False, None))"

text \<open>
  \<open>memory\<close> is the memory use the system reports. The text is cut to fit in \<open>str_length\<close> bytes with its
  terminator; nothing is written for a length of zero.
\<close>

definition label :: "string \<Rightarrow> bytes" where "label s = map of_char s"

definition dump_fields :: "instrumentation \<Rightarrow> (bytes \<times> u64) list" where
  "dump_fields i = [
     (label ''n_proc'', n_processed_queries i), (label ''n_acc'', n_accepted_queries i),
     (label ''n_skip'', n_skipped_queries i), (label ''n_qsec'', n_queries_sec i),
     (label ''n_qa'', n_a_queries i), (label ''n_qaaaa'', n_aaaa_queries i),
     (label ''n_qns'', n_ns_queries i), (label ''n_qmx'', n_mx_queries i),
     (label ''n_qptr'', n_ptr_queries i), (label ''mem_usg_kb'', memory_usage_kb i),
     (label ''n_qcat'', n_queries_in_subnet (subnet_aggregates i)),
     (label ''n_qncat'', n_queries_not_in_subnet (subnet_aggregates i)),
     (label ''n_invfrm'', n_invalid_frames i)]"

fun join_fields :: "(bytes \<times> u64) list \<Rightarrow> bytes" where
  "join_fields [] = []"
| "join_fields [(k, v)] = k @ [61] @ dec_digits (unat v)"
| "join_fields ((k, v) # fs) = k @ [61] @ dec_digits (unat v) @ [44] @ join_fields fs"

definition instrumentation_dump :: "u64 \<Rightarrow> nat \<Rightarrow> instrumentation option \<Rightarrow> (instrumentation \<times> bytes) option" where
  "instrumentation_dump memory str_length = map_option (\<lambda>i.
     let i = i\<lparr>n_queries_sec := n_processed_queries i div INSTRUMENTATION_INTERVAL_SEC, memory_usage_kb := memory\<rparr>
     in (i, take (str_length - 1) (label ''Instrumentation: '' @ join_fields (dump_fields i) @ [10])))"

section \<open>The longest line\<close>

text \<open>The buffer of the collector for one line has 1024 bytes, which is always enough.\<close>

lemma size_digits: "length (dec_digits (unat (w :: u64))) \<le> 20"
proof -
  have "unat w < 18446744073709551616" by (rule unat_u64_less)
  moreover have "(10 :: nat) ^ Suc 19 = 100000000000000000000" by simp
  ultimately have "unat w < 10 ^ Suc 19" by linarith
  from length_dec_digits [OF this] show ?thesis by simp
qed

lemma join_fields_length:
  "length (join_fields fs) \<le> sum_list (map (\<lambda>f. length (fst f) + 22) fs)"
proof (induction fs rule: join_fields.induct)
  case (2 k v)
  then show ?case using size_digits [of v] by simp
next
  case (3 k v f fs)
  then show ?case using size_digits [of v] by simp
qed simp

lemma dump_not_cut:
  "instrumentation_dump memory 1024 (Some i) =
     (let j = i\<lparr>n_queries_sec := n_processed_queries i div 60, memory_usage_kb := memory\<rparr>
      in Some (j, label ''Instrumentation: '' @ join_fields (dump_fields j) @ [10]))"
proof -
  have "length (join_fields (dump_fields j)) \<le> 700" for j
    using join_fields_length [of "dump_fields j"] by (simp add: dump_fields_def label_def)
  moreover have "length (label ''Instrumentation: '') = 17" by (simp add: label_def)
  ultimately have "length (label ''Instrumentation: '' @ join_fields (dump_fields j) @ [10]) \<le> 1023" for j
    by (simp add: le_trans [of _ "717 + 1"] add_le_mono [of _ 700 17 17, simplified])
  then have "take 1023 (label ''Instrumentation: '' @ join_fields (dump_fields j) @ [10]) =
      label ''Instrumentation: '' @ join_fields (dump_fields j) @ [10]" for j by (rule take_all)
  then show ?thesis by (simp add: instrumentation_dump_def Let_def del: take_append)
qed

section \<open>Advice on filter parameters\<close>

text \<open>
  \<open>ceil\<close> and the conversions give whole numbers. The product \<open>k * n\<close> and the quotients by \<open>m\<close> and \<open>n\<close>
  are computed in \<open>int\<close>, before anything is a double; \<open>/\<close> cuts off towards zero.
\<close>

definition int_quotient :: "int \<Rightarrow> int \<Rightarrow> int" where
  "int_quotient a b = sgn a * sgn b * (\<bar>a\<bar> div \<bar>b\<bar>)"

definition fpr_theory :: "int \<Rightarrow> int \<Rightarrow> int \<Rightarrow> real" where
  "fpr_theory k n m = (1 - exp (of_int (int_quotient (- k * n) m))) powr of_int k"

definition optimal_k :: "int \<Rightarrow> int \<Rightarrow> nat" where
  "optimal_k n m = (if n > 0 then nat \<lceil>of_int (int_quotient m n) * ln (2 :: real)\<rceil> else 0)"

definition bloom_filter_size :: "real \<Rightarrow> int \<Rightarrow> nat" where
  "bloom_filter_size p n = nat \<lfloor>- ((of_int n * ln p) / (ln 2 * ln 2))\<rfloor>"

text \<open>Fewer than one bit per hashed element: the quotient is zero, and so is the rate.\<close>

lemma fpr_theory_zero:
  assumes "0 < k" "0 \<le> n" "k * n < m"
  shows "fpr_theory k n m = 0"
proof -
  have "\<bar>- k * n\<bar> div \<bar>m\<bar> = 0" using assms by (simp add: abs_mult)
  then show ?thesis by (simp add: fpr_theory_def int_quotient_def)
qed

text \<open>The advised size is at least one element's worth of bits, and grows with the elements and the accuracy.\<close>

lemma bloom_filter_size_mono:
  assumes "0 < p" "p < 1" "0 \<le> n" "n \<le> n'"
  shows "bloom_filter_size p n \<le> bloom_filter_size p n'"
proof -
  have "ln p \<le> 0" using assms by simp
  then have "of_int n' * ln p \<le> of_int n * ln p" using assms by (intro mult_right_mono_neg) simp_all
  then have "- (of_int n * ln p / (ln 2 * ln 2)) \<le> - (of_int n' * ln p / (ln 2 * ln 2))"
    by (simp add: divide_right_mono)
  then show ?thesis unfolding bloom_filter_size_def by (intro nat_mono floor_mono)
qed

text \<open>Rounding up (\<open>roundUp\<close> of the collector): the least multiple that is not below, unless it wraps around.\<close>

definition roundUp :: "u64 \<Rightarrow> u64 \<Rightarrow> u64" where
  "roundUp num multiple =
     (if multiple = 0 then num
      else let remainder = num mod multiple in
        if remainder = 0 then num else num + multiple - remainder)"

lemma roundUp_spec:
  assumes m: "0 < unat multiple" and fits: "unat num + unat multiple < 2 ^ 64"
  shows "unat (roundUp num multiple) mod unat multiple = 0" "unat num \<le> unat (roundUp num multiple)"
    "unat (roundUp num multiple) < unat num + unat multiple"
proof -
  let ?n = "unat num" and ?m = "unat multiple" and ?r = "unat num mod unat multiple"
  have mz: "multiple \<noteq> 0" using m by auto
  have r: "unat (num mod multiple) = ?r" by (simp add: unat_mod)
  have "unat (roundUp num multiple) = (if ?r = 0 then ?n else ?n + ?m - ?r)"
  proof (cases "?r = 0")
    case True
    then have "num mod multiple = 0" using r by (simp add: unat_eq_0)
    then show ?thesis using True by (simp add: roundUp_def Let_def)
  next
    case False
    then have nz: "num mod multiple \<noteq> 0" using r by (metis unat_0)
    have s: "unat (num + multiple) = ?n + ?m" using fits by (simp add: unat_word_ariths)
    have "num mod multiple \<le> num + multiple"
      using s r by (simp add: word_le_nat_alt) (meson mod_less_eq_dividend trans_le_add1)
    then have "unat (num + multiple - num mod multiple) = ?n + ?m - ?r" by (simp add: unat_sub s r)
    then show ?thesis using False nz mz by (simp add: roundUp_def Let_def)
  qed
  moreover have "?r < ?m" "?r \<le> ?n" using m by simp_all
  moreover have "(?n + ?m - ?r) mod ?m = 0"
    by (metis Nat.diff_add_assoc2 mod_add_self2 mod_0 minus_mod_eq_mult_div mod_mult_self1_is_0 mod_less_eq_dividend)
  ultimately show "unat (roundUp num multiple) mod ?m = 0" "?n \<le> unat (roundUp num multiple)"
    "unat (roundUp num multiple) < ?n + ?m" by (auto split: if_splits)
qed

end
