(* ===== verification/Gather_Message.thy ===== *)
theory Gather_Message
  imports State_Check Subnet_Load Instrumentation Gather_Config
begin

text \<open>
  One decoded message of the collector (\<open>src/src/bin/honas_gather.c\<close>, \<open>decode_dnstap_message\<close>): which
  queries are taken, the entity of the client, the registration, and the counters. The DNS library
  (ldns) is a parameter; the time and the hash function too.
\<close>

section \<open>Messages and queries\<close>

text \<open>The fields of the generated message structure that the collector reads.\<close>

record dnstap_message =
  dm_type :: nat
  dm_query_message :: "bytes option"
  dm_query_address :: "bytes option"

abbreviation (input) DNSTAP__MESSAGE__TYPE__CLIENT_QUERY :: nat where "DNSTAP__MESSAGE__TYPE__CLIENT_QUERY \<equiv> 5"
abbreviation (input) LDNS_RR_CLASS_IN :: nat where "LDNS_RR_CLASS_IN \<equiv> 1"

text \<open>The first question of a packet, with its owner name as text.\<close>

record question =
  q_name :: "bytes option"
  q_class :: nat
  q_type :: nat

definition relevant_dns_types :: "nat list" where
  "relevant_dns_types =
     [LDNS_RR_TYPE_A, LDNS_RR_TYPE_NS, LDNS_RR_TYPE_MX, LDNS_RR_TYPE_AAAA, LDNS_RR_TYPE_PTR]"

definition query_is_valid_dns_type :: "nat \<Rightarrow> bool" where
  "query_is_valid_dns_type qtype = list_ex (\<lambda>t. qtype = t) relevant_dns_types"

text \<open>
  The collector: its context and its global variables. \<open>wire2pkt\<close> gives the first question of a
  packet, if the bytes are a packet and if it has one; \<open>unpack\<close> the message of a dnstap frame, if the
  bytes are one and if it has a message. \<open>ge_time n\<close> is the time when the message number \<open>n\<close> is decoded;
  \<open>g_ticks\<close> counts them. The listener for new connections is enabled or not.
\<close>

record gather =
  g_remaining_connections :: int
  g_aggregate_subnets :: bool
  g_subnet_metadata :: subnet_activity
  g_dry_run :: bool
  g_dry_run_data :: dry_run_counters
  g_fpr_warning_passed :: bool
  g_state :: honas_state
  g_inst :: "instrumentation option"
  g_config :: honas_gather_config
  g_listener_enabled :: bool
  g_ticks :: nat

record gather_env =
  ge_sha :: "bytes \<Rightarrow> bytes"
  ge_wire2pkt :: "bytes \<Rightarrow> question option option"
  ge_unpack :: "bytes \<Rightarrow> dnstap_message option option"
  ge_time :: "nat \<Rightarrow> u64"

definition client_address :: "bytes option \<Rightarrow> in_addr46" where
  "client_address addr = (case addr of
      None \<Rightarrow> Other_Family 0
    | Some a \<Rightarrow> if length a = 4 then Addr4 a else if length a = 16 then Addr6 a else Other_Family 0)"

definition unknown_entity :: bytes where "unknown_entity = to_bytes ''UNKNOWN''"

text \<open>
  The entity of the client when subnets are aggregated: the text of its name in the zeroed buffer, and
  the counters. Reading through a missing entity aborts.
\<close>

definition find_entity :: "in_addr46 \<Rightarrow> gather \<Rightarrow> (bytes option \<times> gather) option" where
  "find_entity client g =
     (if \<not> g_aggregate_subnets g then Some (None, g)
      else case subnet_activity_match_prefix (Some client) (Some (g_subnet_metadata g)) (Some None) of
        None \<Rightarrow> None
      | Some (SA_OK, Some (Some p)) \<Rightarrow>
          (case sa_prefixes (g_subnet_metadata g) p of
             Some (Some e) \<Rightarrow>
               (case sa_entities (g_subnet_metadata g) ! e of
                  Some name \<Rightarrow> Some (Some (takeWhile (\<lambda>c. c \<noteq> 0) name),
                    g\<lparr>g_inst := instrumentation_update_subnet_activity 1 0 (g_inst g)\<rparr>)
                | None \<Rightarrow> None)
           | _ \<Rightarrow> None)
      | Some _ \<Rightarrow> Some (None, g\<lparr>g_inst := instrumentation_update_subnet_activity 0 1 (g_inst g)\<rparr>))"

text \<open>The false positive rate of a filter from its stored count of bits.\<close>

definition FPR_THRESHOLD :: real where "FPR_THRESHOLD = 1 / 1000"

definition fpr_exceeded :: "honas_state \<Rightarrow> bool" where
  "fpr_exceeded st =
     (\<exists>i < unat (number_of_filters (header st)).
        (real (unat (filter_bits_set st i)) / real (unat (number_of_bits_per_filter (header st))))
          ^ unat (number_of_hashes (header st)) > FPR_THRESHOLD)"

text \<open>A question that is taken.\<close>

definition process_question :: "gather_env \<Rightarrow> u64 \<Rightarrow> in_addr46 \<Rightarrow> bytes \<Rightarrow> nat \<Rightarrow> gather \<Rightarrow> gather option" where
  "process_question env now client hostname qtype g = do {
     (entity, g) \<leftarrow> find_entity client g;
     (st, dry) \<leftarrow> honas_state_register_host_name_lookup (ge_sha env) (g_state g) now client hostname
        (Some (case entity of Some e \<Rightarrow> e | None \<Rightarrow> unknown_entity))
        (if g_dry_run g then Some (g_dry_run_data g) else None) qtype;
     let g = g\<lparr>g_state := st, g_dry_run_data := (case dry of Some d \<Rightarrow> d | None \<Rightarrow> g_dry_run_data g),
               g_fpr_warning_passed := (g_fpr_warning_passed g \<or> fpr_exceeded st)\<rparr>;
     Some (g\<lparr>g_inst := instrumentation_increment_type qtype (instrumentation_increment_accepted (g_inst g))\<rparr>)
   }"

definition decode_dnstap_message ::
  "gather_env \<Rightarrow> u64 \<Rightarrow> dnstap_message \<Rightarrow> gather \<Rightarrow> (bool \<times> gather) option" where
  "decode_dnstap_message env now m g = do {
     (return_val, g) \<leftarrow>
       (case (if dm_type m = DNSTAP__MESSAGE__TYPE__CLIENT_QUERY then dm_query_message m else None) of
          None \<Rightarrow> Some (False, g\<lparr>g_inst := instrumentation_increment_skipped (g_inst g)\<rparr>)
        | Some message \<Rightarrow>
          (case ge_wire2pkt env message of
             None \<Rightarrow> Some (False, g\<lparr>g_inst := instrumentation_increment_skipped (g_inst g)\<rparr>)
           | Some None \<Rightarrow> Some (True, g)
           | Some (Some q) \<Rightarrow>
             (case q_name q of
                Some hostname \<Rightarrow>
                  if q_class q = LDNS_RR_CLASS_IN \<and> query_is_valid_dns_type (q_type q)
                  then map_option (\<lambda>g'. (True, g'))
                         (process_question env now (client_address (dm_query_address m)) hostname (q_type q) g)
                  else Some (True, g)
              | None \<Rightarrow> Some (True, g))));
     Some (return_val, g\<lparr>g_inst := instrumentation_increment_processed (g_inst g)\<rparr>)
   }"

section \<open>The counters agree\<close>

text \<open>Every accepted query has exactly one of the five counted types.\<close>

definition inst_ok :: "instrumentation option \<Rightarrow> bool" where
  "inst_ok p \<longleftrightarrow> (\<forall>i. p = Some i \<longrightarrow>
     n_accepted_queries i = n_a_queries i + n_aaaa_queries i + n_ns_queries i + n_mx_queries i + n_ptr_queries i)"

lemma inst_ok_simps [simp]:
  "inst_ok (instrumentation_increment_processed p) = inst_ok p"
  "inst_ok (instrumentation_increment_skipped p) = inst_ok p"
  "inst_ok (instrumentation_increment_invalid p) = inst_ok p"
  "inst_ok (instrumentation_update_subnet_activity a b p) = inst_ok p"
  "inst_ok (instrumentation_reset p)"
  by (auto simp: inst_ok_def instrumentation_increment_processed_def instrumentation_increment_skipped_def
      instrumentation_increment_invalid_def instrumentation_update_subnet_activity_def instrumentation_reset_def)

lemma valid_type_cases:
  "query_is_valid_dns_type t \<longleftrightarrow> t = 1 \<or> t = 2 \<or> t = 15 \<or> t = 28 \<or> t = 12"
  by (simp add: query_is_valid_dns_type_def relevant_dns_types_def)

lemma inst_ok_accept:
  assumes "inst_ok p" "query_is_valid_dns_type t"
  shows "inst_ok (instrumentation_increment_type t (instrumentation_increment_accepted p))"
proof (cases p)
  case None
  then show ?thesis by (simp add: inst_ok_def instrumentation_increment_type_def instrumentation_increment_accepted_def)
next
  case (Some i)
  have "t = 1 \<or> t = 2 \<or> t = 15 \<or> t = 28 \<or> t = 12" using assms(2) by (simp only: valid_type_cases)
  with assms(1) Some show ?thesis
    by (elim disjE) (simp_all add: inst_ok_def instrumentation_increment_type_def instrumentation_increment_accepted_def)
qed

lemma find_entity_cases:
  assumes "find_entity client g = Some (e, g')"
  obtains "g' = g" | a b where "g' = g\<lparr>g_inst := instrumentation_update_subnet_activity a b (g_inst g)\<rparr>"
proof (cases "g_aggregate_subnets g")
  case False
  with assms that(1) show thesis by (simp add: find_entity_def)
next
  case True
  from assms have "g' = g\<lparr>g_inst := instrumentation_update_subnet_activity 1 0 (g_inst g)\<rparr> \<or>
      g' = g\<lparr>g_inst := instrumentation_update_subnet_activity 0 1 (g_inst g)\<rparr>"
    by (simp add: find_entity_def True split: option.split_asm prod.split_asm subnet_activity_error.split_asm)
  with that(2) show thesis by blast
qed

definition processed :: "gather \<Rightarrow> u64 option" where
  "processed g = map_option n_processed_queries (g_inst g)"

lemma n_processed_keeps [simp]:
  "map_option n_processed_queries (instrumentation_update_subnet_activity a b p) = map_option n_processed_queries p"
  "map_option n_processed_queries (instrumentation_increment_accepted p) = map_option n_processed_queries p"
  "map_option n_processed_queries (instrumentation_increment_skipped p) = map_option n_processed_queries p"
  "map_option n_processed_queries (instrumentation_increment_type t p) = map_option n_processed_queries p"
  "map_option n_processed_queries (instrumentation_increment_processed p) =
     map_option (\<lambda>n. n + 1) (map_option n_processed_queries p)"
  by (cases p; simp add: instrumentation_update_subnet_activity_def instrumentation_increment_accepted_def
      instrumentation_increment_skipped_def instrumentation_increment_type_def
      instrumentation_increment_processed_def)+

section \<open>What a message does\<close>

text \<open>A usable collector: its state, its sets of counters, and the entities of the subnets, if it aggregates.\<close>

definition subnets_ok :: "subnet_activity \<Rightarrow> bool" where
  "subnets_ok sa \<longleftrightarrow> prefixes_ok sa \<and> entities_ok sa \<and> 1 \<le> shortest_ipv4_prefix sa \<and> 1 \<le> shortest_ipv6_prefix sa"

definition gather_ok :: "gather \<Rightarrow> bool" where
  "gather_ok g \<longleftrightarrow> state_ok (g_state g) \<and> combinations_ok (g_state g) \<and> (g_dry_run g \<longrightarrow> dry_ok (Some (g_dry_run_data g))) \<and>
     inst_ok (g_inst g) \<and> (g_aggregate_subnets g \<longrightarrow> subnets_ok (g_subnet_metadata g))"

lemma match_prefix_total:
  assumes ok: "subnets_ok sa" and c: "client_hash client = Some ch"
  shows "\<exists>r. subnet_activity_match_prefix (Some client) (Some sa) (Some None) = Some (SA_OK, Some r) \<and>
    (\<forall>p. r = Some p \<longrightarrow> p \<in> dom (sa_prefixes sa))"
proof -
  have len: "longest_ipv4_prefix sa \<le> 32" "longest_ipv6_prefix sa \<le> 128" and
    lo: "1 \<le> shortest_ipv4_prefix sa" "1 \<le> shortest_ipv6_prefix sa"
    using ok by (simp_all add: subnets_ok_def prefixes_ok_def)
  show ?thesis
  proof (cases client)
    case (Addr4 a)
    have p: "\<forall>i. shortest_ipv4_prefix sa \<le> i \<and> i \<le> longest_ipv4_prefix sa \<longrightarrow> probe_ipv4 a i \<noteq> None"
      using len by (auto simp: probe_ipv4_def)
    have "longest_ipv4_prefix sa \<le> 128" using len by simp
    from match_from_best [OF lo(1) this p, of "sa_prefixes sa"] Addr4 show ?thesis
      by (auto simp: subnet_activity_match_prefix_def best_probe_def split: option.splits)
  next
    case (Addr6 a)
    have p: "\<forall>i. shortest_ipv6_prefix sa \<le> i \<and> i \<le> longest_ipv6_prefix sa \<longrightarrow> probe_ipv6 a i \<noteq> None"
      using len lo by (auto simp: probe_ipv6_def)
    from match_from_best [OF lo(2) len(2) p, of "sa_prefixes sa"] Addr6 show ?thesis
      by (auto simp: subnet_activity_match_prefix_def best_probe_def split: option.splits)
  next
    case (Other_Family f)
    then show ?thesis using c by (simp add: client_hash_def)
  qed
qed

lemma entity_name_stored:
  assumes "entities_ok sa" "i < registered_entities sa"
  shows "\<exists>name. sa_entities sa ! i = Some name \<and> length name = ENTITY_NAME"
proof -
  have "i < MAX_ENTITIES" using assms by (simp add: entities_ok_def)
  with assms show ?thesis unfolding entities_ok_def by auto
qed

text \<open>The name that is registered for a prefix; \<open>UNKNOWN\<close> for none.\<close>

definition entity_for :: "subnet_activity \<Rightarrow> prefix option \<Rightarrow> bytes" where
  "entity_for sa r =
     (case Option.bind (Option.bind (Option.bind r (sa_prefixes sa)) id) (\<lambda>e. sa_entities sa ! e) of
        Some name \<Rightarrow> takeWhile (\<lambda>c. c \<noteq> 0) name
      | None \<Rightarrow> unknown_entity)"

text \<open>The entity with which a query of a client is registered.\<close>

definition entity_of :: "in_addr46 \<Rightarrow> gather \<Rightarrow> bytes \<Rightarrow> bool" where
  "entity_of client g entity \<longleftrightarrow>
     (if g_aggregate_subnets g
      then \<exists>r. subnet_activity_match_prefix (Some client) (Some (g_subnet_metadata g)) (Some None) = Some (SA_OK, Some r) \<and>
        entity = entity_for (g_subnet_metadata g) r
      else entity = unknown_entity)"

lemma find_entity_total:
  assumes ok: "g_aggregate_subnets g \<longrightarrow> subnets_ok (g_subnet_metadata g)" and c: "client_hash client = Some ch"
  shows "\<exists>e g'. find_entity client g = Some (e, g') \<and> entity_ok e \<and>
    entity_of client g (case e of Some e \<Rightarrow> e | None \<Rightarrow> unknown_entity)"
proof (cases "g_aggregate_subnets g")
  case False
  then show ?thesis by (simp add: find_entity_def entity_ok_def entity_of_def)
next
  case True
  let ?sa = "g_subnet_metadata g"
  have ok: "subnets_ok ?sa" using ok True by simp
  obtain r where r: "subnet_activity_match_prefix (Some client) (Some ?sa) (Some None) = Some (SA_OK, Some r)"
    "\<forall>p. r = Some p \<longrightarrow> p \<in> dom (sa_prefixes ?sa)"
    using match_prefix_total [OF ok c] by blast
  show ?thesis
  proof (cases r)
    case None
    then show ?thesis using True r(1) by (simp add: find_entity_def entity_ok_def entity_of_def entity_for_def)
  next
    case (Some p)
    then obtain m where m: "sa_prefixes ?sa p = Some m" using r(2) by auto
    then obtain i where i: "i < registered_entities ?sa" "m = Some i"
      using ok unfolding subnets_ok_def prefixes_ok_def by blast
    then obtain name where "sa_entities ?sa ! i = Some name" "length name = ENTITY_NAME"
      using entity_name_stored ok unfolding subnets_ok_def by blast
    moreover from this(2) have "length (takeWhile (\<lambda>c. c \<noteq> 0) name) \<le> 254"
      using length_takeWhile_le [of "\<lambda>c. c \<noteq> 0" name] by simp
    ultimately show ?thesis using True r(1) m i Some
      by (simp add: find_entity_def entity_ok_def entity_of_def entity_for_def)
  qed
qed

text \<open>The queries that are taken.\<close>

definition taken :: "gather_env \<Rightarrow> dnstap_message \<Rightarrow> (bytes \<times> nat) option" where
  "taken env m = (if dm_type m = DNSTAP__MESSAGE__TYPE__CLIENT_QUERY then
     (case Option.bind (dm_query_message m) (ge_wire2pkt env) of
        Some (Some q) \<Rightarrow>
          (case q_name q of
             Some hostname \<Rightarrow> if q_class q = LDNS_RR_CLASS_IN \<and> query_is_valid_dns_type (q_type q)
               then Some (hostname, q_type q) else None
           | None \<Rightarrow> None)
      | _ \<Rightarrow> None) else None)"

definition undecodable :: "gather_env \<Rightarrow> dnstap_message \<Rightarrow> bool" where
  "undecodable env m = (dm_type m \<noteq> DNSTAP__MESSAGE__TYPE__CLIENT_QUERY \<or>
     Option.bind (dm_query_message m) (ge_wire2pkt env) = None)"

lemma decode_eq:
  "decode_dnstap_message env now m g =
     (case taken env m of
        Some (hostname, qtype) \<Rightarrow>
          map_option (\<lambda>g'. (True, g'\<lparr>g_inst := instrumentation_increment_processed (g_inst g')\<rparr>))
            (process_question env now (client_address (dm_query_address m)) hostname qtype g)
      | None \<Rightarrow> Some (\<not> undecodable env m,
          g\<lparr>g_inst := instrumentation_increment_processed
             (if undecodable env m then instrumentation_increment_skipped (g_inst g) else g_inst g)\<rparr>))"
proof (cases "dm_type m = DNSTAP__MESSAGE__TYPE__CLIENT_QUERY")
  case False
  then show ?thesis by (simp add: decode_dnstap_message_def taken_def undecodable_def)
next
  case True
  note d = decode_dnstap_message_def taken_def undecodable_def True
  show ?thesis
  proof (cases "Option.bind (dm_query_message m) (ge_wire2pkt env)")
    case None
    then show ?thesis by (cases "dm_query_message m") (simp_all add: d)
  next
    case (Some qo)
    then obtain w where w: "dm_query_message m = Some w" "ge_wire2pkt env w = Some qo"
      by (auto simp: bind_eq_Some_conv)
    show ?thesis
    proof (cases qo)
      case None
      then show ?thesis using w by (simp add: d)
    next
      case (Some q)
      note d = d w Some
      show ?thesis
      proof (cases "q_name q")
        case None
        then show ?thesis by (simp add: d)
      next
        case (Some n)
        show ?thesis
        proof (cases "q_class q = LDNS_RR_CLASS_IN \<and> query_is_valid_dns_type (q_type q)")
          case True
          with Some show ?thesis
            by (cases "process_question env now (client_address (dm_query_address m)) n (q_type q) g") (simp_all add: d)
        next
          case False
          with Some show ?thesis by (auto simp: d)
        qed
      qed
    qed
  qed
qed

lemma taken_type: "taken env m = Some (hostname, qtype) \<Longrightarrow> query_is_valid_dns_type qtype"
  by (simp add: taken_def split: if_split_asm option.split_asm)

lemma process_question_ok:
  assumes ok: "gather_ok g" and sha: "\<forall>d. sha_hash (ge_sha env d)"
    and args: "client_hash client = Some ch" "name_ok hostname name" "query_is_valid_dns_type qtype"
  shows "\<exists>g' entity. process_question env now client hostname qtype g = Some g' \<and> gather_ok g' \<and>
    processed g' = processed g \<and> grows (g_state g) (g_state g') \<and>
    header (g_state g') = update_request_times now (header (g_state g)) \<and>
    entity_of client g entity \<and>
    (\<forall>nm \<in> set (registered_names (Some entity) qtype name).
       set (client_filters (g_state g) ch) \<subseteq> hit_filters (g_state g') (ge_sha env nm))"
proof -
  have gok: "state_ok (g_state g)" "combinations_ok (g_state g)" "g_dry_run g \<longrightarrow> dry_ok (Some (g_dry_run_data g))" "inst_ok (g_inst g)"
    "g_aggregate_subnets g \<longrightarrow> subnets_ok (g_subnet_metadata g)"
    using ok by (simp_all add: gather_ok_def)
  obtain e a where a: "find_entity client g = Some (e, a)" "entity_ok e"
    "entity_of client g (case e of Some e \<Rightarrow> e | None \<Rightarrow> unknown_entity)"
    using find_entity_total [OF gok(5) args(1)] by blast
  have keep: "g_state a = g_state g" "g_dry_run_data a = g_dry_run_data g" "g_dry_run a = g_dry_run g"
    "g_aggregate_subnets a = g_aggregate_subnets g" "g_subnet_metadata a = g_subnet_metadata g"
    "inst_ok (g_inst a)" "processed a = processed g"
    by (atomize (full)) (rule find_entity_cases [OF a(1)]; simp add: processed_def gok(4))
  let ?ent = "case e of Some e \<Rightarrow> e | None \<Rightarrow> unknown_entity"
  let ?dry = "if g_dry_run a then Some (g_dry_run_data a) else None"
  have ent: "entity_ok (Some ?ent)" using a(2) by (auto simp: entity_ok_def unknown_entity_def to_bytes_def split: option.splits)
  have dry: "dry_ok ?dry" using gok(3) keep by (simp add: dry_ok_def)
  have st: "state_ok (g_state a)" "combinations_ok (g_state a)" using gok(1,2) keep by simp_all
  obtain st' dry' where r: "honas_state_register_host_name_lookup (ge_sha env) (g_state a) now client hostname
      (Some ?ent) ?dry qtype = Some (st', dry')" "state_ok st'" "grows (g_state a) st'" "dry_ok dry'"
      "header st' = update_request_times now (header (g_state a))"
    using register_ok [OF st dry sha args(1,2) ent, of now qtype] by (elim exE conjE)
  have "grows st' st'" by simp
  note hits = register_check(1) [OF st dry sha args(1,2) ent r(1) this]
  have dry': "g_dry_run a \<longrightarrow> dry_ok (Some (case dry' of Some d \<Rightarrow> d | None \<Rightarrow> g_dry_run_data a))"
    using r(4) gok(3) keep by (cases dry') simp_all
  define b where "b = a\<lparr>g_state := st', g_dry_run_data := (case dry' of Some d \<Rightarrow> d | None \<Rightarrow> g_dry_run_data a),
     g_fpr_warning_passed := (g_fpr_warning_passed a \<or> fpr_exceeded st')\<rparr>"
  define c where "c = b\<lparr>g_inst := instrumentation_increment_type qtype (instrumentation_increment_accepted (g_inst b))\<rparr>"
  have b: "g_inst b = g_inst a" "g_state b = st'" "g_aggregate_subnets b = g_aggregate_subnets g"
    "g_subnet_metadata b = g_subnet_metadata g" "g_dry_run b \<longrightarrow> dry_ok (Some (g_dry_run_data b))"
    using keep dry' by (simp_all add: b_def)
  have c: "g_state c = st'" "processed c = processed g" by (simp_all add: c_def b processed_def keep(7) [unfolded processed_def])
  have "process_question env now client hostname qtype g = Some c"
    unfolding process_question_def a(1) r(1) bind.bind_lunit prod.case c_def b_def Let_def ..
  moreover have "gather_ok c"
    using r(2) register_keeps(1) [OF r(3) st(2)] b inst_ok_accept [OF keep(6) args(3)] gok(5)
    by (simp add: gather_ok_def c_def)
  ultimately show ?thesis using r(3,5) hits a(3) unfolding keep(1) c(1) [symmetric]
    by (intro exI [of _ c] exI [of _ ?ent]) (simp add: c(2))
qed

lemma decode_processed:
  assumes "gather_ok g" "\<forall>d. sha_hash (ge_sha env d)"
    and "\<And>hostname qtype. taken env m = Some (hostname, qtype) \<Longrightarrow>
      client_hash (client_address (dm_query_address m)) \<noteq> None \<and> (\<exists>name. name_ok hostname name)"
  shows "\<exists>r g'. decode_dnstap_message env now m g = Some (r, g') \<and> gather_ok g' \<and>
    processed g' = map_option (\<lambda>n. n + 1) (processed g) \<and> grows (g_state g) (g_state g')"
proof (cases "taken env m")
  case None
  have d: "decode_dnstap_message env now m g = Some (\<not> undecodable env m, g\<lparr>g_inst := instrumentation_increment_processed
      (if undecodable env m then instrumentation_increment_skipped (g_inst g) else g_inst g)\<rparr>)"
    unfolding decode_eq None option.case ..
  then show ?thesis using assms(1) by (simp add: gather_ok_def processed_def)
next
  case (Some t)
  obtain hostname qtype where t: "t = (hostname, qtype)" by (cases t)
  then obtain ch name where a: "client_hash (client_address (dm_query_address m)) = Some ch" "name_ok hostname name"
    using assms(3) Some by blast
  obtain c where c: "process_question env now (client_address (dm_query_address m)) hostname qtype g = Some c"
    "gather_ok c" "processed c = processed g" "grows (g_state g) (g_state c)"
    using process_question_ok [OF assms(1,2) a taken_type [of env m hostname qtype], of now] Some t by blast
  have d: "decode_dnstap_message env now m g = Some (True, c\<lparr>g_inst := instrumentation_increment_processed (g_inst c)\<rparr>)"
    unfolding decode_eq Some t option.case prod.case c(1) option.map ..
  show ?thesis
    by (rule exI [of _ True], rule exI [of _ "c\<lparr>g_inst := instrumentation_increment_processed (g_inst c)\<rparr>"])
      (use c(2-4) d in \<open>simp add: gather_ok_def processed_def\<close>)
qed

text \<open>A query that is taken but whose message has no address, or one of an unknown length, ends the program.\<close>

lemma register_no_client:
  "client_hash client = None \<Longrightarrow> honas_state_register_host_name_lookup sha st ts client host entity dry qtype = None"
  by (simp add: honas_state_register_host_name_lookup_def)

lemma decode_no_address:
  assumes "taken env m = Some (hostname, qtype)"
    and "\<And>a. dm_query_address m = Some a \<Longrightarrow> length a \<noteq> 4 \<and> length a \<noteq> 16"
  shows "decode_dnstap_message env now m g = None"
proof -
  have "client_address (dm_query_address m) = Other_Family 0"
    using assms(2) by (cases "dm_query_address m") (auto simp: client_address_def)
  then have "client_hash (client_address (dm_query_address m)) = None" by (simp add: client_hash_def)
  then have "process_question env now (client_address (dm_query_address m)) hostname qtype g = None"
    by (auto simp: process_question_def register_no_client Option.bind_eq_None_conv)
  then show ?thesis unfolding decode_eq assms(1) by simp
qed

text \<open>
  The messages that end the program: a query that is taken whose client has no address of a known length, or
  whose name is empty or does not fit into its buffer with a terminator.
\<close>

definition name_fits :: "bytes \<Rightarrow> bool" where
  "name_fits hostname = (case canonical_host_name hostname of None \<Rightarrow> False | Some name \<Rightarrow> length name < 256)"

definition fatal_message :: "gather_env \<Rightarrow> dnstap_message \<Rightarrow> bool" where
  "fatal_message env m =
     (case taken env m of
        None \<Rightarrow> False
      | Some (hostname, _) \<Rightarrow>
          client_hash (client_address (dm_query_address m)) = None \<or> \<not> name_fits hostname)"

text \<open>What the libraries promise: a hash has 32 bytes, and the text of a name is a string of C, without a zero byte.\<close>

definition libraries_ok :: "gather_env \<Rightarrow> bool" where
  "libraries_ok env \<longleftrightarrow> (\<forall>d. sha_hash (ge_sha env d)) \<and>
     (\<forall>packet q name. ge_wire2pkt env packet = Some (Some q) \<longrightarrow> q_name q = Some name \<longrightarrow> 0 \<notin> set name)"

lemma name_fits_iff: "name_fits hostname \<longleftrightarrow> (\<exists>name. name_ok hostname name)"
  by (auto simp: name_fits_def name_ok_def split: option.splits)

lemma taken_name:
  assumes "libraries_ok env" "taken env m = Some (hostname, qtype)"
  shows "0 \<notin> set hostname"
proof -
  obtain q where q: "Option.bind (dm_query_message m) (ge_wire2pkt env) = Some (Some q)" "q_name q = Some hostname"
    using assms(2) by (auto simp: taken_def split: if_split_asm option.split_asm)
  then obtain w where "ge_wire2pkt env w = Some (Some q)" by (auto simp: bind_eq_Some_conv)
  with assms(1) q(2) show ?thesis unfolding libraries_ok_def by blast
qed

lemma tolower_zero: "tolower b = 0 \<longleftrightarrow> b = 0"
proof -
  have "unat b + 32 < 2 ^ 8" if "b \<le> 90" using that by (simp add: word_le_nat_alt)
  then have "unat (b + 32) = unat b + 32" if "b \<le> 90" using that by (simp add: unat_word_ariths)
  then have "b + 32 \<noteq> 0" if "b \<le> 90" using that by (metis add_is_0 unat_0 zero_neq_numeral)
  then show ?thesis by (auto simp: tolower_def)
qed

lemma register_returns:
  assumes "honas_state_register_host_name_lookup sha st ts client host (Some e) dry qtype = Some r"
    and "length e < 254" "0 \<notin> set host"
  shows "client_hash client \<noteq> None \<and> name_fits host"
proof -
  obtain name l where n: "canonical_host_name host = Some name"
    "entity_label e (512 - (length e + 1) - 1) (name @ replicate (256 - length name) 0) = Some l"
    using assms(1) by (auto simp: honas_state_register_host_name_lookup_def bind_eq_Some_conv Let_def split: if_splits)
  have z: "0 \<notin> set name"
    using n(1) assms(3) tolower_zero by (force simp: canonical_host_name_def Let_def dest: in_set_butlastD split: if_splits)
  have "length name < 256"
  proof (rule ccontr)
    assume "\<not> length name < 256"
    then have "length name = 256" using n(1) by (auto simp: canonical_host_name_def Let_def split: if_splits)
    then show False using n(2) z assms(2) by (auto simp: entity_label_def strncat_src_def bind_eq_Some_conv split: if_splits)
  qed
  moreover have "client_hash client \<noteq> None" using register_no_client assms(1) by fastforce
  ultimately show ?thesis using n(1) by (simp add: name_fits_def)
qed

lemma find_entity_length:
  assumes ok: "g_aggregate_subnets g \<longrightarrow> subnets_ok (g_subnet_metadata g)" and f: "find_entity client g = Some (Some e, g')"
    and c: "client_hash client = Some ch"
  shows "length e \<le> 128"
proof -
  let ?sa = "g_subnet_metadata g"
  have a: "g_aggregate_subnets g" using f by (simp add: find_entity_def split: if_split_asm)
  then have ok: "subnets_ok ?sa" using ok by simp
  from f a obtain p i name where p: "subnet_activity_match_prefix (Some client) (Some ?sa) (Some None) = Some (SA_OK, Some (Some p))"
    "sa_prefixes ?sa p = Some (Some i)" "sa_entities ?sa ! i = Some name" "e = takeWhile (\<lambda>c. c \<noteq> 0) name"
    by (auto simp: find_entity_def split: option.split_asm prod.split_asm subnet_activity_error.split_asm)
  have "i < registered_entities ?sa" using ok p(2) unfolding subnets_ok_def prefixes_ok_def by blast
  then have "length name = 128" using entity_name_stored [of ?sa i] ok p(3) by (simp add: subnets_ok_def)
  then show ?thesis unfolding p(4) by (metis length_takeWhile_le)
qed

text \<open>Thus decoding returns exactly for the other messages.\<close>

lemma decode_returns:
  assumes "gather_ok g" "libraries_ok env" "decode_dnstap_message env now m g = Some (r, g')"
  shows "\<not> fatal_message env m"
proof (cases "taken env m")
  case (Some t)
  obtain hostname qtype where t: "t = (hostname, qtype)" by (cases t)
  let ?c = "client_address (dm_query_address m)"
  obtain h where "process_question env now ?c hostname qtype g = Some h"
    using assms(3) unfolding decode_eq Some t by auto
  then obtain e a r' where e: "find_entity ?c g = Some (e, a)"
    "honas_state_register_host_name_lookup (ge_sha env) (g_state a) now ?c hostname
      (Some (case e of Some e \<Rightarrow> e | None \<Rightarrow> unknown_entity)) (if g_dry_run a then Some (g_dry_run_data a) else None) qtype = Some r'"
    by (auto simp: process_question_def bind_eq_Some_conv)
  then obtain ch where ch: "client_hash ?c = Some ch" using register_no_client by fastforce
  have "length (case e of Some e \<Rightarrow> e | None \<Rightarrow> unknown_entity) < 254"
    using find_entity_length [of g ?c _ a ch] e(1) ch assms(1)
    by (auto simp: gather_ok_def unknown_entity_def to_bytes_def split: option.split)
  from register_returns [OF e(2) this taken_name [OF assms(2)]] Some t show ?thesis by (simp add: fatal_message_def)
qed (simp add: fatal_message_def)

lemma decode_not_fatal:
  assumes "gather_ok g" "libraries_ok env" "\<not> fatal_message env m"
  shows "\<exists>r g'. decode_dnstap_message env now m g = Some (r, g') \<and> gather_ok g' \<and>
    processed g' = map_option (\<lambda>n. n + 1) (processed g) \<and> grows (g_state g) (g_state g')"
proof (rule decode_processed [OF assms(1)])
  show "\<forall>d. sha_hash (ge_sha env d)" using assms(2) by (simp add: libraries_ok_def)
  fix hostname qtype assume "taken env m = Some (hostname, qtype)"
  with assms(3) show "client_hash (client_address (dm_query_address m)) \<noteq> None \<and> (\<exists>name. name_ok hostname name)"
    by (simp add: fatal_message_def name_fits_iff)
qed

end
