(* ===== verification/Frame_Stream.thy ===== *)
theory Frame_Stream
  imports Gather_Message
begin

text \<open>
  The connections of the collector (\<open>src/src/bin/honas_gather.c\<close>): the Frame Streams protocol, in which
  a sender and the collector exchange control frames around a sequence of data frames. A connection is
  a record of the fields of the C structure with the contents of its two buffers. The library for
  control frames (fstrm) and the network library (libevent) are parameters.
\<close>

section \<open>Control frames\<close>

abbreviation (input) FSTRM_CONTROL_ACCEPT :: nat where "FSTRM_CONTROL_ACCEPT \<equiv> 1"
abbreviation (input) FSTRM_CONTROL_START :: nat where "FSTRM_CONTROL_START \<equiv> 2"
abbreviation (input) FSTRM_CONTROL_STOP :: nat where "FSTRM_CONTROL_STOP \<equiv> 3"
abbreviation (input) FSTRM_CONTROL_READY :: nat where "FSTRM_CONTROL_READY \<equiv> 4"
abbreviation (input) FSTRM_CONTROL_FINISH :: nat where "FSTRM_CONTROL_FINISH \<equiv> 5"
abbreviation (input) FSTRM_CONTROL_FRAME_LENGTH_MAX :: nat where "FSTRM_CONTROL_FRAME_LENGTH_MAX \<equiv> 512"
abbreviation (input) CAPTURE_HIGH_WATERMARK :: nat where "CAPTURE_HIGH_WATERMARK \<equiv> 262144"

definition CONTENT_TYPE :: bytes where "CONTENT_TYPE = to_bytes ''protobuf:dnstap.Dnstap''"

text \<open>
  The operations of fstrm on an object for a control frame, of type \<open>'c\<close>; \<open>None\<close> stands for a result
  other than success. After a failure the object is not used any more. \<open>fs_write\<close> tells if libevent
  accepts bytes for the peer.
\<close>

record 'c fstrm =
  fs_init :: 'c
  fs_num_content_types :: "'c \<Rightarrow> nat option"
  fs_content_type :: "'c \<Rightarrow> nat \<Rightarrow> bytes option"
  fs_match_content_type :: "'c \<Rightarrow> bytes \<Rightarrow> bool"
  fs_decode :: "'c \<Rightarrow> bytes \<Rightarrow> 'c option"
  fs_encode :: "'c \<Rightarrow> nat \<Rightarrow> bytes option"
  fs_reset :: "'c \<Rightarrow> 'c"
  fs_set_type :: "'c \<Rightarrow> nat \<Rightarrow> 'c option"
  fs_add_content_type :: "'c \<Rightarrow> bytes \<Rightarrow> 'c option"
  fs_get_type :: "'c \<Rightarrow> nat option"
  fs_write :: "bytes \<Rightarrow> bool"

datatype conn_state =
    CONN_STATE_READING_CONTROL_READY
  | CONN_STATE_READING_CONTROL_START
  | CONN_STATE_READING_DATA
  | CONN_STATE_STOPPED

record 'c connection =
  conn_state :: conn_state
  count_read :: nat
  bytes_read :: nat
  bytes_skip :: nat
  len_buf :: nat
  len_frame_payload :: nat
  len_frame_total :: nat
  ev_input :: bytes
  ev_output :: bytes
  control :: 'c

definition conn_init :: "'c fstrm \<Rightarrow> 'c connection" where
  "conn_init fs = \<lparr>conn_state = CONN_STATE_READING_CONTROL_READY, count_read = 0, bytes_read = 0, bytes_skip = 0,
     len_buf = 0, len_frame_payload = 0, len_frame_total = 0, ev_input = [], ev_output = [], control = fs_init fs\<rparr>"

definition verify_content_type :: "'c fstrm \<Rightarrow> 'c \<Rightarrow> bytes \<Rightarrow> bool" where
  "verify_content_type fs c content_type =
     (case fs_num_content_types fs c of
        None \<Rightarrow> False
      | Some n \<Rightarrow> n > 0 \<and> fs_content_type fs c 0 = Some content_type)"

section \<open>Reading frames\<close>

text \<open>Four bytes in network order.\<close>

definition ntohl :: "bytes \<Rightarrow> nat" where
  "ntohl b = ((unat (b ! 0) * 256 + unat (b ! 1)) * 256 + unat (b ! 2)) * 256 + unat (b ! 3)"

text \<open>\<open>Closed\<close> is the result when the connection has been closed and freed.\<close>

datatype 'c full_frame = Full "'c connection" | Not_Full "'c connection" | Closed

definition wait_for_frame :: "'c connection \<Rightarrow> 'c full_frame" where
  "wait_for_frame conn =
     (if len_buf conn < len_frame_total conn
      then Not_Full (if len_frame_total conn > CAPTURE_HIGH_WATERMARK
             then conn\<lparr>bytes_skip := len_frame_total conn\<rparr> else conn)
      else Full conn)"

definition can_read_full_frame :: "'c connection \<Rightarrow> 'c full_frame" where
  "can_read_full_frame conn =
     (let conn = conn\<lparr>len_frame_total := 0\<rparr>
      in if len_buf conn < 4 then Not_Full conn
      else let conn = conn\<lparr>len_frame_payload := ntohl (take 4 (ev_input conn))\<rparr>;
               conn = conn\<lparr>len_frame_total := 4 + len_frame_payload conn\<rparr>
      in if len_frame_payload conn = 0
         then if len_buf conn < 8 then Not_Full conn
           else let len_control_frame = ntohl (take 4 (drop 4 (ev_input conn)));
                    conn = conn\<lparr>len_frame_total := len_frame_total conn + 4\<rparr>
             in if len_control_frame < 4 \<or> len_control_frame > FSTRM_CONTROL_FRAME_LENGTH_MAX then Closed
                else wait_for_frame (conn\<lparr>len_frame_total := len_frame_total conn + len_control_frame\<rparr>)
         else wait_for_frame conn)"

text \<open>
  A data frame is copied, with its length field, into a buffer of 4096 bytes. The content type only
  selects what is logged.
\<close>

definition drain :: "nat \<Rightarrow> 'c connection \<Rightarrow> 'c connection" where
  "drain n conn = conn\<lparr>ev_input := drop n (ev_input conn)\<rparr>"

definition process_message :: "gather_env \<Rightarrow> bytes \<Rightarrow> gather \<Rightarrow> gather option" where
  "process_message env buf g =
     (case ge_unpack env buf of
        Some (Some m) \<Rightarrow> do {
          (r, g) \<leftarrow> decode_dnstap_message env (ge_time env (g_ticks g)) m (g\<lparr>g_ticks := g_ticks g + 1\<rparr>);
          Some (if r then g else g\<lparr>g_inst := instrumentation_increment_invalid (g_inst g)\<rparr>)
        }
      | _ \<Rightarrow> Some g)"

definition process_data_frame ::
  "gather_env \<Rightarrow> 'c connection \<Rightarrow> gather \<Rightarrow> ('c connection \<times> gather) option" where
  "process_data_frame env conn g = do {
     let buf = take (len_frame_total conn) (ev_input conn);
     c_assert (length buf \<le> 4096);
     let conn = drain (len_frame_total conn) conn;
     g \<leftarrow> process_message env buf g;
     Some (conn\<lparr>count_read := count_read conn + 1, bytes_read := bytes_read conn + length buf\<rparr>, g)
   }"

section \<open>The handshake\<close>

text \<open>\<open>None\<close> is the result \<open>false\<close>, after which the caller closes the connection.\<close>

definition match_content_type :: "'c fstrm \<Rightarrow> 'c connection \<Rightarrow> bool" where
  "match_content_type fs conn = fs_match_content_type fs (control conn) CONTENT_TYPE"

definition load_control_frame :: "'c fstrm \<Rightarrow> 'c connection \<Rightarrow> 'c connection option" where
  "load_control_frame fs conn =
     (if len_frame_total conn \<ge> FSTRM_CONTROL_FRAME_LENGTH_MAX then None
      else do {
        c \<leftarrow> fs_decode fs (control conn) (take (len_frame_total conn) (ev_input conn));
        Some (drain (len_frame_total conn) (conn\<lparr>control := c\<rparr>))
      })"

definition send_frame :: "'c fstrm \<Rightarrow> bytes \<Rightarrow> 'c connection \<Rightarrow> 'c connection option" where
  "send_frame fs data conn = (if fs_write fs data then Some (conn\<lparr>ev_output := ev_output conn @ data\<rparr>) else None)"

definition write_control_frame :: "'c fstrm \<Rightarrow> 'c connection \<Rightarrow> 'c connection option" where
  "write_control_frame fs conn = do {
     frame \<leftarrow> fs_encode fs (control conn) FSTRM_CONTROL_FRAME_LENGTH_MAX;
     send_frame fs frame conn
   }"

definition process_control_frame_ready :: "'c fstrm \<Rightarrow> 'c connection \<Rightarrow> 'c connection option" where
  "process_control_frame_ready fs conn = do {
     n \<leftarrow> fs_num_content_types fs (control conn);
     c_assert (list_all (\<lambda>i. fs_content_type fs (control conn) i \<noteq> None) [0..<n]);
     c_assert (match_content_type fs conn);
     c \<leftarrow> fs_set_type fs (fs_reset fs (control conn)) FSTRM_CONTROL_ACCEPT;
     c \<leftarrow> fs_add_content_type fs c CONTENT_TYPE;
     conn \<leftarrow> write_control_frame fs (conn\<lparr>control := c\<rparr>);
     Some (conn\<lparr>conn_state := CONN_STATE_READING_CONTROL_START\<rparr>)
   }"

definition process_control_frame_start :: "'c fstrm \<Rightarrow> 'c connection \<Rightarrow> 'c connection option" where
  "process_control_frame_start fs conn =
     (if match_content_type fs conn then Some (conn\<lparr>conn_state := CONN_STATE_READING_DATA\<rparr>) else None)"

definition process_control_frame_stop :: "'c fstrm \<Rightarrow> 'c connection \<Rightarrow> 'c connection option" where
  "process_control_frame_stop fs conn = do {
     c \<leftarrow> fs_set_type fs (fs_reset fs (control conn)) FSTRM_CONTROL_FINISH;
     conn \<leftarrow> write_control_frame fs (conn\<lparr>control := c\<rparr>);
     Some (conn\<lparr>conn_state := CONN_STATE_STOPPED\<rparr>)
   }"

definition process_control_frame :: "'c fstrm \<Rightarrow> 'c connection \<Rightarrow> 'c connection option" where
  "process_control_frame fs conn = do {
     type \<leftarrow> fs_get_type fs (control conn);
     case conn_state conn of
       CONN_STATE_READING_CONTROL_READY \<Rightarrow>
         if type \<noteq> FSTRM_CONTROL_READY then None else process_control_frame_ready fs conn
     | CONN_STATE_READING_CONTROL_START \<Rightarrow>
         if type \<noteq> FSTRM_CONTROL_START then None else process_control_frame_start fs conn
     | CONN_STATE_READING_DATA \<Rightarrow>
         if type \<noteq> FSTRM_CONTROL_STOP then None else process_control_frame_stop fs conn
     | CONN_STATE_STOPPED \<Rightarrow> None
   }"

section \<open>Callbacks\<close>

text \<open>Closing a connection gives its place back; the listener starts again when there was none left.\<close>

definition cb_close_conn :: "gather \<Rightarrow> gather" where
  "cb_close_conn g =
     (let g = g\<lparr>g_remaining_connections := g_remaining_connections g + 1\<rparr>
      in if g_remaining_connections g = 1 then g\<lparr>g_listener_enabled := True\<rparr> else g)"

text \<open>
  One iteration of the loop in \<open>cb_read\<close>: it waits for more bytes, goes on with the next frame, or the
  connection has been closed. The whole result is \<open>None\<close> when the program is aborted.
\<close>

datatype 'c outcome = Wait "'c connection" gather | Next "'c connection" gather | Shut gather

definition read_iteration :: "'c fstrm \<Rightarrow> gather_env \<Rightarrow> 'c connection \<Rightarrow> gather \<Rightarrow> 'c outcome option" where
  "read_iteration fs env conn g =
     (let conn = conn\<lparr>len_buf := length (ev_input conn)\<rparr>
      in if len_buf conn = 0 then Some (Wait conn g)
      else if bytes_skip conn > 0
      then let skip = min (bytes_skip conn) (len_buf conn);
               conn = drain skip conn
           in Some (Next (conn\<lparr>bytes_skip := bytes_skip conn - skip\<rparr>) g)
      else case can_read_full_frame conn of
             Not_Full conn \<Rightarrow> Some (Wait conn g)
           | Closed \<Rightarrow> Some (Shut (cb_close_conn g))
           | Full conn \<Rightarrow>
               if len_frame_payload conn > 0
               then map_option (\<lambda>(conn, g). Next conn g) (process_data_frame env conn g)
               else Some (case Option.bind (load_control_frame fs conn) (process_control_frame fs) of
                   Some conn \<Rightarrow> Next conn g
                 | None \<Rightarrow> Shut (cb_close_conn g)))"

lemma full_frameD:
  assumes "can_read_full_frame conn = Full conn'" "len_buf conn = length (ev_input conn)"
  shows "ev_input conn' = ev_input conn \<and> 4 \<le> len_frame_total conn' \<and> len_frame_total conn' \<le> length (ev_input conn) \<and>
    bytes_skip conn' = bytes_skip conn \<and> conn_state conn' = conn_state conn \<and> control conn' = control conn \<and>
    count_read conn' = count_read conn \<and> bytes_read conn' = bytes_read conn"
  using assms by (auto simp: can_read_full_frame_def wait_for_frame_def Let_def split: if_splits)

text \<open>What the handshake leaves alone.\<close>

lemma send_frameD:
  "send_frame fs data conn = Some conn' \<Longrightarrow> ev_input conn' = ev_input conn \<and> bytes_skip conn' = bytes_skip conn \<and>
    count_read conn' = count_read conn \<and> bytes_read conn' = bytes_read conn \<and> conn_state conn' = conn_state conn"
  by (auto simp: send_frame_def split: if_splits)

lemma control_frameD:
  assumes "process_control_frame fs conn = Some conn'"
  shows "ev_input conn' = ev_input conn \<and> bytes_skip conn' = bytes_skip conn \<and>
    count_read conn' = count_read conn \<and> bytes_read conn' = bytes_read conn"
  using assms
  by (cases "conn_state conn")
    (auto simp: process_control_frame_def process_control_frame_ready_def process_control_frame_start_def
      process_control_frame_stop_def write_control_frame_def bind_eq_Some_conv
      split: if_splits dest!: send_frameD)

lemma load_frameD:
  assumes "load_control_frame fs conn = Some conn'"
  shows "ev_input conn' = drop (len_frame_total conn) (ev_input conn) \<and> bytes_skip conn' = bytes_skip conn \<and>
    count_read conn' = count_read conn \<and> bytes_read conn' = bytes_read conn \<and> conn_state conn' = conn_state conn"
  using assms by (auto simp: load_control_frame_def drain_def bind_eq_Some_conv split: if_splits)

lemma data_frameD:
  assumes "process_data_frame env conn g = Some (conn', g')"
  shows "ev_input conn' = drop (len_frame_total conn) (ev_input conn) \<and> bytes_skip conn' = bytes_skip conn \<and>
    conn_state conn' = conn_state conn \<and> control conn' = control conn \<and>
    count_read conn' = count_read conn + 1 \<and>
    bytes_read conn' = bytes_read conn + min (length (ev_input conn)) (len_frame_total conn) \<and>
    min (length (ev_input conn)) (len_frame_total conn) \<le> 4096 \<and>
    process_message env (take (len_frame_total conn) (ev_input conn)) g = Some g'"
  using assms by (auto simp: process_data_frame_def Let_def drain_def bind_eq_Some_conv split: if_splits)

lemma read_iteration_shorter:
  assumes "read_iteration fs env conn g = Some (Next conn' g')"
  shows "length (ev_input conn') < length (ev_input conn)"
proof (cases "bytes_skip conn > 0")
  case True
  then show ?thesis using assms by (auto simp: read_iteration_def Let_def drain_def split: if_splits)
next
  case False
  let ?c = "conn\<lparr>len_buf := length (ev_input conn)\<rparr>"
  obtain a where a: "can_read_full_frame ?c = Full a"
    using assms False by (auto simp: read_iteration_def Let_def split: if_splits full_frame.splits)
  have f: "ev_input a = ev_input conn" "4 \<le> len_frame_total a" "len_frame_total a \<le> length (ev_input conn)"
    using full_frameD [OF a] by auto
  show ?thesis
  proof (cases "len_frame_payload a > 0")
    case True
    then have "process_data_frame env a g = Some (conn', g')"
      using assms False a by (auto simp: read_iteration_def Let_def split: if_splits)
    from data_frameD [OF this] show ?thesis using f by simp
  next
    case n: False
    have "Option.bind (load_control_frame fs a) (process_control_frame fs) = Some conn'"
      using assms False a n by (auto simp: read_iteration_def Let_def split: if_splits option.splits)
    then obtain b where "load_control_frame fs a = Some b" "process_control_frame fs b = Some conn'"
      by (auto simp: bind_eq_Some_conv)
    then show ?thesis using load_frameD control_frameD f by force
  qed
qed

text \<open>
  The callback for bytes that have arrived: it handles all frames that are complete. The connection in
  the result is \<open>None\<close> when it has been closed.
\<close>

function cb_read :: "'c fstrm \<Rightarrow> gather_env \<Rightarrow> 'c connection \<Rightarrow> gather \<Rightarrow> ('c connection option \<times> gather) option" where
  "cb_read fs env conn g =
     (case read_iteration fs env conn g of
        None \<Rightarrow> None
      | Some (Wait conn g) \<Rightarrow> Some (Some conn, g)
      | Some (Next conn g) \<Rightarrow> cb_read fs env conn g
      | Some (Shut g) \<Rightarrow> Some (None, g))"
  by auto
termination
  by (relation "measure (\<lambda>(_, _, conn, _). length (ev_input conn))") (auto dest: read_iteration_shorter)

declare cb_read.simps [simp del]

definition cb_write :: "'c connection \<Rightarrow> gather \<Rightarrow> 'c connection option \<times> gather" where
  "cb_write conn g =
     (if conn_state conn \<noteq> CONN_STATE_STOPPED then (Some conn, g) else (None, cb_close_conn g))"

text \<open>
  A new connection; \<open>bev_ok\<close> tells if libevent gives a buffer for it. If not, nothing happens.
\<close>

definition cb_accept_conn :: "'c fstrm \<Rightarrow> bool \<Rightarrow> gather \<Rightarrow> 'c connection option \<times> gather" where
  "cb_accept_conn fs bev_ok g =
     (if \<not> bev_ok then (None, g)
      else let g = g\<lparr>g_remaining_connections := g_remaining_connections g - 1\<rparr>
        in (Some (conn_init fs),
            if g_remaining_connections g = 0 then g\<lparr>g_listener_enabled := False\<rparr> else g))"

section \<open>Bytes that arrive in pieces\<close>

text \<open>\<open>extend ys k\<close> is a connection with more input and another count of the bytes in its buffer.\<close>

definition extend :: "bytes \<Rightarrow> nat \<Rightarrow> 'c connection \<Rightarrow> 'c connection" where
  "extend ys k conn = conn\<lparr>ev_input := ev_input conn @ ys, len_buf := k\<rparr>"

definition feed :: "bytes \<Rightarrow> 'c connection \<Rightarrow> 'c connection" where
  "feed ys conn = conn\<lparr>ev_input := ev_input conn @ ys\<rparr>"

lemma extend_simps [simp]:
  "ev_input (extend ys k conn) = ev_input conn @ ys" "len_buf (extend ys k conn) = k"
  "bytes_skip (extend ys k conn) = bytes_skip conn" "len_frame_total (extend ys k conn) = len_frame_total conn"
  "len_frame_payload (extend ys k conn) = len_frame_payload conn" "conn_state (extend ys k conn) = conn_state conn"
  "control (extend ys k conn) = control conn" "count_read (extend ys k conn) = count_read conn"
  "bytes_read (extend ys k conn) = bytes_read conn" "ev_output (extend ys k conn) = ev_output conn"
  by (simp_all add: extend_def)

lemma feed_simps [simp]:
  "ev_input (feed ys conn) = ev_input conn @ ys" "bytes_skip (feed ys conn) = bytes_skip conn"
  by (simp_all add: feed_def)

lemma extend_updates:
  "(extend ys k conn)\<lparr>conn_state := s\<rparr> = extend ys k (conn\<lparr>conn_state := s\<rparr>)"
  "(extend ys k conn)\<lparr>control := c\<rparr> = extend ys k (conn\<lparr>control := c\<rparr>)"
  "(extend ys k conn)\<lparr>ev_output := o'\<rparr> = extend ys k (conn\<lparr>ev_output := o'\<rparr>)"
  "(extend ys k conn)\<lparr>len_frame_total := n\<rparr> = extend ys k (conn\<lparr>len_frame_total := n\<rparr>)"
  "(extend ys k conn)\<lparr>len_frame_payload := n\<rparr> = extend ys k (conn\<lparr>len_frame_payload := n\<rparr>)"
  "(extend ys k conn)\<lparr>count_read := n\<rparr> = extend ys k (conn\<lparr>count_read := n\<rparr>)"
  "(extend ys k conn)\<lparr>bytes_read := n\<rparr> = extend ys k (conn\<lparr>bytes_read := n\<rparr>)"
  "(extend ys k conn)\<lparr>len_buf := l\<rparr> = extend ys l conn"
  by (simp_all add: extend_def)

lemma drain_extend: "n \<le> length (ev_input conn) \<Longrightarrow> drain n (extend ys k conn) = extend ys k (drain n conn)"
  by (simp add: drain_def extend_def)

lemma send_extend: "send_frame fs data (extend ys k conn) = map_option (extend ys k) (send_frame fs data conn)"
  by (simp add: send_frame_def extend_updates)

lemma write_extend: "write_control_frame fs (extend ys k conn) = map_option (extend ys k) (write_control_frame fs conn)"
  by (cases "fs_encode fs (control conn) FSTRM_CONTROL_FRAME_LENGTH_MAX") (simp_all add: write_control_frame_def send_extend)

lemma bind_map_extend:
  "Option.bind (map_option (extend ys k) x) (\<lambda>c. Some (c\<lparr>conn_state := s\<rparr>)) =
     map_option (extend ys k) (Option.bind x (\<lambda>c. Some (c\<lparr>conn_state := s\<rparr>)))"
  by (cases x) (simp_all add: extend_updates)

lemma map_bind: "map_option f (Option.bind x h) = Option.bind x (\<lambda>y. map_option f (h y))"
  by (cases x) simp_all

lemma ready_extend:
  "process_control_frame_ready fs (extend ys k conn) = map_option (extend ys k) (process_control_frame_ready fs conn)"
  by (simp add: process_control_frame_ready_def map_bind match_content_type_def extend_updates write_extend
      bind_map_extend if_distrib [of "map_option (extend ys k)"] cong: if_cong)

lemma start_extend:
  "process_control_frame_start fs (extend ys k conn) = map_option (extend ys k) (process_control_frame_start fs conn)"
  by (simp add: process_control_frame_start_def match_content_type_def extend_updates)

lemma stop_extend:
  "process_control_frame_stop fs (extend ys k conn) = map_option (extend ys k) (process_control_frame_stop fs conn)"
  by (simp add: process_control_frame_stop_def map_bind extend_updates write_extend bind_map_extend)

lemma control_extend:
  "process_control_frame fs (extend ys k conn) = map_option (extend ys k) (process_control_frame fs conn)"
  by (cases "fs_get_type fs (control conn)"; cases "conn_state conn")
    (simp_all add: process_control_frame_def ready_extend start_extend stop_extend)

lemma load_extend:
  assumes "len_frame_total conn \<le> length (ev_input conn)"
  shows "load_control_frame fs (extend ys k conn) = map_option (extend ys k) (load_control_frame fs conn)"
  using assms by (simp add: load_control_frame_def map_bind extend_updates drain_extend)

lemma data_extend:
  assumes "len_frame_total conn \<le> length (ev_input conn)"
  shows "process_data_frame env (extend ys k conn) g =
    map_option (\<lambda>(c, g). (extend ys k c, g)) (process_data_frame env conn g)"
  using assms by (simp add: process_data_frame_def map_bind extend_updates drain_extend Let_def)

lemma full_extend:
  assumes "can_read_full_frame conn = Full c" "len_buf conn = length (ev_input conn)" "k = len_buf conn + length ys"
  shows "can_read_full_frame (extend ys k conn) = Full (extend ys k c)"
  using assms by (auto simp: can_read_full_frame_def wait_for_frame_def Let_def extend_updates split: if_splits)

lemma closed_extend:
  assumes "can_read_full_frame conn = Closed" "len_buf conn = length (ev_input conn)" "k = len_buf conn + length ys"
  shows "can_read_full_frame (extend ys k conn) = Closed"
  using assms by (auto simp: can_read_full_frame_def wait_for_frame_def Let_def extend_updates split: if_splits)

text \<open>The count of the buffered bytes is always set before it is used.\<close>

lemma read_iteration_len: "read_iteration fs env (conn\<lparr>len_buf := k\<rparr>) g = read_iteration fs env conn g"
  by (simp add: read_iteration_def)

lemma cb_read_len: "cb_read fs env (conn\<lparr>len_buf := k\<rparr>) g = cb_read fs env conn g"
  unfolding cb_read.simps [of _ _ "conn\<lparr>len_buf := k\<rparr>"] cb_read.simps [of _ _ conn] read_iteration_len ..

lemma cb_read_extend: "cb_read fs env (extend ys k conn) g = cb_read fs env (feed ys conn) g"
  using cb_read_len [where conn = "feed ys conn" and k = k] by (simp add: extend_def feed_def)

text \<open>What an iteration does on some bytes it also does when more bytes follow.\<close>

lemma next_extend:
  assumes "read_iteration fs env conn g = Some (Next c g')" "bytes_skip conn = 0"
  shows "\<exists>k. read_iteration fs env (feed ys conn) g = Some (Next (extend ys k c) g')"
proof -
  let ?c = "conn\<lparr>len_buf := length (ev_input conn)\<rparr>" and ?k = "length (ev_input conn) + length ys"
  have nonempty: "ev_input conn \<noteq> []" using assms by (auto simp: read_iteration_def Let_def)
  obtain a where a: "can_read_full_frame ?c = Full a"
    using assms by (auto simp: read_iteration_def Let_def split: if_splits full_frame.splits)
  have f: "ev_input a = ev_input conn" "len_frame_total a \<le> length (ev_input a)" using full_frameD [OF a] by auto
  have e: "can_read_full_frame (extend ys ?k ?c) = Full (extend ys ?k a)" by (rule full_extend [OF a]) simp_all
  have ex: "(feed ys conn)\<lparr>len_buf := ?k\<rparr> = extend ys ?k ?c" by (simp add: feed_def extend_def)
  have r: "read_iteration fs env conn g = (if len_frame_payload a > 0
       then map_option (\<lambda>(conn, g). Next conn g) (process_data_frame env a g)
       else Some (case Option.bind (load_control_frame fs a) (process_control_frame fs) of
           Some conn \<Rightarrow> Next conn g | None \<Rightarrow> Shut (cb_close_conn g)))"
    using nonempty assms(2) by (simp add: read_iteration_def Let_def a)
  have r': "read_iteration fs env (feed ys conn) g = (if len_frame_payload a > 0
       then map_option (\<lambda>(conn, g). Next conn g) (process_data_frame env (extend ys ?k a) g)
       else Some (case Option.bind (load_control_frame fs (extend ys ?k a)) (process_control_frame fs) of
           Some conn \<Rightarrow> Next conn g | None \<Rightarrow> Shut (cb_close_conn g)))"
    using nonempty assms(2) by (simp add: read_iteration_def Let_def ex e)
  show ?thesis
  proof (cases "len_frame_payload a > 0")
    case True
    then have "process_data_frame env a g = Some (c, g')" using assms(1) r by auto
    then show ?thesis using True r' data_extend [OF f(2), of env ys ?k g] by auto
  next
    case False
    then have "Option.bind (load_control_frame fs a) (process_control_frame fs) = Some c \<and> g' = g"
      using assms(1) r by (auto split: option.splits)
    then obtain b where "load_control_frame fs a = Some b" "process_control_frame fs b = Some c" "g' = g"
      by (auto simp: bind_eq_Some_conv)
    then show ?thesis using False r' load_extend [OF f(2), of fs ys ?k] control_extend [of fs ys ?k b] by auto
  qed
qed

lemma shut_extend:
  assumes "read_iteration fs env conn g = Some (Shut g')" "bytes_skip conn = 0"
  shows "read_iteration fs env (feed ys conn) g = Some (Shut g')"
proof -
  let ?c = "conn\<lparr>len_buf := length (ev_input conn)\<rparr>" and ?k = "length (ev_input conn) + length ys"
  have nonempty: "ev_input conn \<noteq> []" using assms by (auto simp: read_iteration_def Let_def)
  have ex: "(feed ys conn)\<lparr>len_buf := ?k\<rparr> = extend ys ?k ?c" by (simp add: feed_def extend_def)
  show ?thesis
  proof (cases "can_read_full_frame ?c")
    case Closed
    then have "can_read_full_frame (extend ys ?k ?c) = Closed" by (rule closed_extend) simp_all
    then show ?thesis using assms nonempty Closed by (simp add: read_iteration_def Let_def ex)
  next
    case (Not_Full a)
    then show ?thesis using assms nonempty by (simp add: read_iteration_def Let_def)
  next
    case (Full a)
    have f: "ev_input a = ev_input conn" "len_frame_total a \<le> length (ev_input a)" using full_frameD [OF Full] by auto
    have e: "can_read_full_frame (extend ys ?k ?c) = Full (extend ys ?k a)" by (rule full_extend [OF Full]) simp_all
    have n: "len_frame_payload a = 0"
      using assms nonempty by (auto simp: read_iteration_def Let_def Full split: if_splits)
    have "Option.bind (load_control_frame fs a) (process_control_frame fs) = None \<and> g' = cb_close_conn g"
      using assms nonempty n by (auto simp: read_iteration_def Let_def Full split: option.splits)
    then have "Option.bind (load_control_frame fs (extend ys ?k a)) (process_control_frame fs) = None \<and> g' = cb_close_conn g"
      using load_extend [OF f(2), of fs ys ?k] by (cases "load_control_frame fs a") (auto simp: control_extend)
    then show ?thesis using nonempty assms(2) n by (simp add: read_iteration_def Let_def ex e)
  qed
qed

lemma can_read_total: "can_read_full_frame (conn\<lparr>len_frame_total := t\<rparr>) = can_read_full_frame conn"
  by (simp add: can_read_full_frame_def)

lemma can_read_payload:
  "4 \<le> len_buf conn \<Longrightarrow> can_read_full_frame (conn\<lparr>len_frame_payload := t\<rparr>) = can_read_full_frame conn"
  by (simp add: can_read_full_frame_def Let_def)

lemma wait_for_frame_none:
  assumes "wait_for_frame a = Not_Full c" "bytes_skip c = 0"
  shows "c = a"
  using assms by (simp add: wait_for_frame_def split: if_split_asm) (auto split: if_splits)

lemma not_full_cases:
  assumes "can_read_full_frame conn = Not_Full c" "bytes_skip c = 0"
  obtains t where "c = conn\<lparr>len_frame_total := t\<rparr>"
  | t p where "c = conn\<lparr>len_frame_payload := p, len_frame_total := t\<rparr>" "4 \<le> len_buf conn"
proof (cases "len_buf conn < 4")
  case True
  with assms(1) show thesis by (intro that(1) [of 0]) (simp add: can_read_full_frame_def)
next
  case False
  let ?p = "ntohl (take 4 (ev_input conn))"
  have "c = conn\<lparr>len_frame_payload := ?p, len_frame_total := len_frame_total c\<rparr>"
  proof (cases "?p = 0")
    case True
    then show ?thesis
    proof (cases "len_buf conn < 8")
      case t: True
      then show ?thesis using assms(1) False True by (auto simp: can_read_full_frame_def Let_def)
    next
      case f: False
      have "wait_for_frame (conn\<lparr>len_frame_payload := 0, len_frame_total := 4 + 4 + ntohl (take 4 (drop 4 (ev_input conn)))\<rparr>) =
          Not_Full c"
        using assms(1) False True f by (simp add: can_read_full_frame_def Let_def split: if_split_asm)
      from wait_for_frame_none [OF this assms(2)] True show ?thesis by simp
    qed
  next
    case nz: False
    have "wait_for_frame (conn\<lparr>len_frame_payload := ?p, len_frame_total := 4 + ?p\<rparr>) = Not_Full c"
      using assms(1) False nz by (simp add: can_read_full_frame_def Let_def)
    from wait_for_frame_none [OF this assms(2)] show ?thesis by simp
  qed
  then show thesis using that(2) False by simp
qed

text \<open>
  An iteration that waits has done nothing, unless it has found the beginning of a frame that is larger
  than the whole buffer.
\<close>

lemma wait_extend:
  assumes "read_iteration fs env conn g = Some (Wait c g')" "bytes_skip conn = 0" "bytes_skip c = 0"
  shows "g' = g \<and> read_iteration fs env (feed ys c) g = read_iteration fs env (feed ys conn) g"
proof (cases "ev_input conn = []")
  case True
  then have "c = conn\<lparr>len_buf := 0\<rparr> \<and> g' = g" using assms by (simp add: read_iteration_def Let_def)
  moreover have "feed ys (conn\<lparr>len_buf := 0\<rparr>) = (feed ys conn)\<lparr>len_buf := 0\<rparr>" by (simp add: feed_def)
  ultimately show ?thesis by (simp add: read_iteration_len)
next
  case False
  let ?c = "conn\<lparr>len_buf := length (ev_input conn)\<rparr>" and ?k = "length (ev_input conn) + length ys"
  have ex: "(feed ys conn)\<lparr>len_buf := ?k\<rparr> = extend ys ?k ?c" by (simp add: feed_def extend_def)
  have c: "can_read_full_frame ?c = Not_Full c" "g' = g"
    using assms False by (auto simp: read_iteration_def Let_def split: if_splits full_frame.splits option.splits)
  have "can_read_full_frame ((feed ys c)\<lparr>len_buf := ?k\<rparr>) = can_read_full_frame (extend ys ?k ?c) \<and> ev_input c = ev_input conn"
  proof (rule not_full_cases [OF c(1) assms(3)])
    fix t assume e: "c = ?c\<lparr>len_frame_total := t\<rparr>"
    have "(feed ys c)\<lparr>len_buf := ?k\<rparr> = (extend ys ?k ?c)\<lparr>len_frame_total := t\<rparr>" by (simp add: e feed_def extend_def)
    then show ?thesis by (simp add: can_read_total e)
  next
    fix t p assume e: "c = ?c\<lparr>len_frame_payload := p, len_frame_total := t\<rparr>" "4 \<le> len_buf ?c"
    have "(feed ys c)\<lparr>len_buf := ?k\<rparr> = (extend ys ?k ?c)\<lparr>len_frame_payload := p, len_frame_total := t\<rparr>"
      by (simp add: e(1) feed_def extend_def)
    then show ?thesis using e(2) by (simp add: can_read_total can_read_payload e(1))
  qed
  then show ?thesis using False assms(2,3) c(2) by (simp add: read_iteration_def Let_def ex)
qed

lemma not_full_oversize:
  assumes "can_read_full_frame conn = Not_Full c" "bytes_skip conn = 0" "bytes_skip c \<noteq> 0"
  shows "4 \<le> len_buf conn \<and> CAPTURE_HIGH_WATERMARK < 4 + ntohl (take 4 (ev_input conn))"
proof -
  have four: "4 \<le> len_buf conn"
  proof (rule ccontr)
    assume "\<not> 4 \<le> len_buf conn"
    then have "c = conn\<lparr>len_frame_total := 0\<rparr>" using assms(1) by (simp add: can_read_full_frame_def)
    then show False using assms(2,3) by simp
  qed
  let ?p = "ntohl (take 4 (ev_input conn))"
  show ?thesis
  proof (cases "?p = 0")
    case True
    then show ?thesis using assms four
      by (auto simp: can_read_full_frame_def wait_for_frame_def Let_def split: if_split_asm)
  next
    case False
    then show ?thesis using assms four
      by (auto simp: can_read_full_frame_def wait_for_frame_def Let_def split: if_split_asm)
  qed
qed

lemma wait_oversize:
  assumes "read_iteration fs env conn g = Some (Wait c g')" "bytes_skip conn = 0" "bytes_skip c \<noteq> 0"
  shows "read_iteration fs env (feed ys conn) g = None \<or>
    (\<exists>c''. read_iteration fs env (feed ys conn) g = Some (Wait c'' g) \<and> bytes_skip c'' \<noteq> 0)"
proof -
  let ?c = "conn\<lparr>len_buf := length (ev_input conn)\<rparr>" and ?k = "length (ev_input conn) + length ys"
  have nonempty: "ev_input conn \<noteq> []" using assms by (auto simp: read_iteration_def Let_def)
  have c: "can_read_full_frame ?c = Not_Full c"
    using assms nonempty by (auto simp: read_iteration_def Let_def split: if_splits full_frame.splits option.splits)
  let ?p = "ntohl (take 4 (ev_input conn))"
  have big: "4 \<le> length (ev_input conn)" "CAPTURE_HIGH_WATERMARK < 4 + ?p"
    using not_full_oversize [OF c] assms(2,3) by simp_all
  define a where "a = (feed ys conn)\<lparr>len_buf := ?k, len_frame_payload := ?p, len_frame_total := 4 + ?p\<rparr>"
  have r: "can_read_full_frame ((feed ys conn)\<lparr>len_buf := ?k\<rparr>) = wait_for_frame a"
    using big by (simp add: can_read_full_frame_def Let_def a_def feed_def)
  show ?thesis
  proof (cases "?k < 4 + ?p")
    case True
    then have "wait_for_frame a = Not_Full (a\<lparr>bytes_skip := 4 + ?p\<rparr>)" using big by (simp add: wait_for_frame_def a_def)
    then show ?thesis using nonempty assms(2) r by (simp add: read_iteration_def Let_def)
  next
    case False
    then have "wait_for_frame a = Full a" by (simp add: wait_for_frame_def a_def)
    moreover have "process_data_frame env a g = None"
    proof -
      have "ev_input a = ev_input conn @ ys" "len_frame_total a = 4 + ?p" by (simp_all add: a_def)
      then have "\<not> length (take (len_frame_total a) (ev_input a)) \<le> 4096" using False big by simp
      then show ?thesis unfolding process_data_frame_def Let_def by simp
    qed
    ultimately show ?thesis using nonempty assms(2) r big(2) by (simp add: read_iteration_def Let_def a_def)
  qed
qed

lemma next_skip:
  assumes "read_iteration fs env conn g = Some (Next c g')" "bytes_skip conn = 0"
  shows "bytes_skip c = 0"
proof -
  let ?c = "conn\<lparr>len_buf := length (ev_input conn)\<rparr>"
  obtain a where a: "can_read_full_frame ?c = Full a"
    using assms by (auto simp: read_iteration_def Let_def split: if_splits full_frame.splits)
  have f: "bytes_skip a = 0" using full_frameD [OF a] assms(2) by simp
  show ?thesis
  proof (cases "len_frame_payload a > 0")
    case True
    then have "process_data_frame env a g = Some (c, g')"
      using assms a by (auto simp: read_iteration_def Let_def split: if_splits)
    from data_frameD [OF this] f show ?thesis by simp
  next
    case False
    then have "Option.bind (load_control_frame fs a) (process_control_frame fs) = Some c"
      using assms a by (auto simp: read_iteration_def Let_def split: if_splits option.splits)
    then show ?thesis using load_frameD control_frameD f by (force simp: bind_eq_Some_conv)
  qed
qed

text \<open>
  It does not matter in which pieces the bytes of a stream arrive, as long as no frame is larger than
  the buffer of the connection.
\<close>

lemma cb_read_fragments:
  assumes "cb_read fs env (feed ys conn) g = Some (r, g')" "bytes_skip conn = 0"
    and "\<And>c. r = Some c \<Longrightarrow> bytes_skip c = 0"
  shows "\<exists>r1 g1. cb_read fs env conn g = Some (r1, g1) \<and>
    (case r1 of None \<Rightarrow> r = None \<and> g' = g1
     | Some c1 \<Rightarrow> bytes_skip c1 = 0 \<and> cb_read fs env (feed ys c1) g1 = Some (r, g'))"
  using assms
proof (induction fs env conn g rule: cb_read.induct)
  case (1 fs env conn g)
  note cb = cb_read.simps [of fs env conn g] cb_read.simps [of fs env "feed ys conn" g]
  show ?case
  proof (cases "read_iteration fs env conn g")
    case None
    show ?thesis
    proof -
      let ?c = "conn\<lparr>len_buf := length (ev_input conn)\<rparr>" and ?k = "length (ev_input conn) + length ys"
      have ex: "(feed ys conn)\<lparr>len_buf := ?k\<rparr> = extend ys ?k ?c" by (simp add: feed_def extend_def)
      have ne: "ev_input conn \<noteq> []" using None by (auto simp: read_iteration_def Let_def)
      obtain a where a: "can_read_full_frame ?c = Full a" "len_frame_payload a > 0" "process_data_frame env a g = None"
        using None ne 1(3) by (auto simp: read_iteration_def Let_def split: if_splits full_frame.splits)
      have f: "len_frame_total a \<le> length (ev_input a)" using full_frameD [OF a(1)] by simp
      have "can_read_full_frame (extend ys ?k ?c) = Full (extend ys ?k a)" by (rule full_extend [OF a(1)]) simp_all
      then have "read_iteration fs env (feed ys conn) g = None"
        using ne 1(3) a data_extend [OF f, of env ys ?k g] by (simp add: read_iteration_def Let_def ex)
      then show ?thesis using 1(2) cb(2) by simp
    qed
  next
    case (Some o')
    show ?thesis
    proof (cases o')
      case (Wait c g1)
      show ?thesis
      proof (cases "bytes_skip c = 0")
        case True
        have w: "g1 = g" "read_iteration fs env (feed ys c) g = read_iteration fs env (feed ys conn) g"
          using wait_extend [OF _ 1(3) True] Some Wait by auto
        then have "cb_read fs env (feed ys c) g = cb_read fs env (feed ys conn) g"
          using cb(2) cb_read.simps [of fs env "feed ys c" g] by simp
        then show ?thesis using Some Wait cb(1) 1(2) True w(1) by simp
      next
        case False
        have "cb_read fs env (feed ys conn) g = None \<or>
            (\<exists>c''. cb_read fs env (feed ys conn) g = Some (Some c'', g) \<and> bytes_skip c'' \<noteq> 0)"
          using wait_oversize [OF Some [unfolded Wait] 1(3) False, of ys] cb(2) by auto
        then show ?thesis using 1(2,4) by auto
      qed
    next
      case (Next c g1)
      obtain k where k: "read_iteration fs env (feed ys conn) g = Some (Next (extend ys k c) g1)"
        using next_extend [OF _ 1(3)] Some Next by blast
      then have "cb_read fs env (feed ys c) g1 = Some (r, g')" using 1(2) cb(2) by (simp add: cb_read_extend)
      from 1(1) [OF Some Next this next_skip [OF _ 1(3)] 1(4)] show ?thesis using Some Next cb(1) by simp
    next
      case (Shut g1)
      then show ?thesis using shut_extend [OF _ 1(3)] Some 1(2) cb by simp
    qed
  qed
qed

section \<open>Streams of data frames\<close>

text \<open>A frame with its length field, as a sender writes it.\<close>

definition be32 :: "nat \<Rightarrow> bytes" where
  "be32 n = [of_nat (n div 16777216), of_nat (n div 65536), of_nat (n div 256), of_nat n]"

definition data_frame :: "bytes \<Rightarrow> bytes" where
  "data_frame payload = be32 (length payload) @ payload"

lemma ntohl_be32: "n < 4096 \<Longrightarrow> ntohl (be32 n) = n"
  by (simp add: ntohl_def be32_def unat_of_nat take_bit_eq_mod)

lemma length_be32 [simp]: "length (be32 n) = 4"
  by (simp add: be32_def)

lemma take_be32 [simp]: "take 4 (be32 n @ xs) = be32 n"
  by (simp add: be32_def)

lemma length_data_frame [simp]: "length (data_frame p) = 4 + length p"
  by (simp add: data_frame_def)

text \<open>
  A data frame whose payload fits in the buffer with its length field is handed to the decoder in every
  state of the connection, also before the handshake and after it has been stopped.
\<close>

lemma read_data_frame:
  assumes "ev_input conn = data_frame payload @ rest" "0 < length payload" "length payload \<le> 4092" "bytes_skip conn = 0"
  shows "read_iteration fs env conn g =
    map_option (\<lambda>g'. Next (conn\<lparr>len_buf := length (ev_input conn), len_frame_payload := length payload,
        len_frame_total := 4 + length payload, ev_input := rest, count_read := count_read conn + 1,
        bytes_read := bytes_read conn + 4 + length payload\<rparr>) g')
      (process_message env (data_frame payload) g)"
proof -
  let ?c = "conn\<lparr>len_buf := length (ev_input conn)\<rparr>"
  define a where "a = ?c\<lparr>len_frame_payload := length payload, len_frame_total := 4 + length payload\<rparr>"
  have n: "ntohl (take 4 (ev_input conn)) = length payload"
    using assms(1,3) by (simp add: data_frame_def ntohl_be32)
  have l: "length (ev_input conn) = 4 + length payload + length rest" using assms(1) by (simp add: data_frame_def)
  have full: "can_read_full_frame ?c = Full a"
    using assms(2) n l by (simp add: can_read_full_frame_def wait_for_frame_def Let_def a_def)
  have t: "take (4 + length payload) (ev_input conn) = data_frame payload" "drop (4 + length payload) (ev_input conn) = rest"
    using assms(1) by (simp_all add: data_frame_def)
  have "process_data_frame env a g = map_option (\<lambda>g'. (conn\<lparr>len_buf := length (ev_input conn),
      len_frame_payload := length payload, len_frame_total := 4 + length payload, ev_input := rest,
      count_read := count_read conn + 1, bytes_read := bytes_read conn + 4 + length payload\<rparr>, g'))
      (process_message env (data_frame payload) g)"
    using assms(3) t by (cases "process_message env (data_frame payload) g")
      (simp_all add: process_data_frame_def a_def drain_def Let_def)
  then show ?thesis using assms(2,4) l full
    by (cases "process_message env (data_frame payload) g") (simp_all add: read_iteration_def Let_def, simp_all add: a_def)
qed

lemma read_large_frame:
  assumes "4 \<le> length (ev_input conn)" "ntohl (take 4 (ev_input conn)) = n" "4092 < n"
    and "4 + n \<le> length (ev_input conn)" "bytes_skip conn = 0"
  shows "cb_read fs env conn g = None"
proof -
  let ?c = "conn\<lparr>len_buf := length (ev_input conn)\<rparr>"
  define a where "a = ?c\<lparr>len_frame_payload := n, len_frame_total := 4 + n\<rparr>"
  have full: "can_read_full_frame ?c = Full a"
    using assms by (auto simp: can_read_full_frame_def wait_for_frame_def Let_def a_def)
  have "process_data_frame env a g = None" using assms(3,4) by (simp add: process_data_frame_def a_def Let_def)
  then have "read_iteration fs env conn g = None"
    using assms(3,5) full by (auto simp: read_iteration_def Let_def a_def) (use assms(1) in simp)
  then show ?thesis by (simp add: cb_read.simps [of fs env conn g])
qed

text \<open>The messages of some frames, one after the other.\<close>

fun process_messages :: "gather_env \<Rightarrow> bytes list \<Rightarrow> gather \<Rightarrow> gather option" where
  "process_messages env [] g = Some g"
| "process_messages env (p # ps) g = Option.bind (process_message env (data_frame p) g) (process_messages env ps)"

lemma cb_read_empty:
  "ev_input conn = [] \<Longrightarrow> cb_read fs env conn g = Some (Some (conn\<lparr>len_buf := 0\<rparr>), g)"
  by (simp add: cb_read.simps [of fs env conn g] read_iteration_def Let_def)

lemma cb_read_frames:
  assumes "\<forall>p \<in> set ps. 0 < length p \<and> length p \<le> 4092"
  shows "ev_input conn = concat (map data_frame ps) \<Longrightarrow> bytes_skip conn = 0 \<Longrightarrow>
    process_messages env ps g = Some g' \<Longrightarrow>
    \<exists>c. cb_read fs env conn g = Some (Some c, g') \<and> ev_input c = [] \<and> bytes_skip c = 0 \<and>
      conn_state c = conn_state conn \<and> control c = control conn \<and> ev_output c = ev_output conn \<and>
      count_read c = count_read conn + length ps \<and>
      bytes_read c = bytes_read conn + length (concat (map data_frame ps))"
  using assms
proof (induction ps arbitrary: conn g)
  case Nil
  then show ?case by (simp add: cb_read_empty)
next
  case (Cons p ps)
  obtain h where h: "process_message env (data_frame p) g = Some h" "process_messages env ps h = Some g'"
    using Cons.prems(3) by (auto simp: bind_eq_Some_conv)
  define d where "d = conn\<lparr>len_buf := length (ev_input conn), len_frame_payload := length p,
        len_frame_total := 4 + length p, ev_input := concat (map data_frame ps), count_read := count_read conn + 1,
        bytes_read := bytes_read conn + 4 + length p\<rparr>"
  have "read_iteration fs env conn g = Some (Next d h)"
    using read_data_frame [of conn p "concat (map data_frame ps)" fs env g] Cons.prems h(1) by (simp add: d_def)
  then have r: "cb_read fs env conn g = cb_read fs env d h" by (simp add: cb_read.simps [of fs env conn g])
  have "ev_input d = concat (map data_frame ps)" "bytes_skip d = 0" using Cons.prems(2) by (simp_all add: d_def)
  from Cons.IH [OF this h(2)] Cons.prems(4) obtain c where c: "cb_read fs env d h = Some (Some c, g')"
    "ev_input c = [] \<and> bytes_skip c = 0 \<and>
      conn_state c = conn_state d \<and> control c = control d \<and> ev_output c = ev_output d \<and>
      count_read c = count_read d + length ps \<and>
      bytes_read c = bytes_read d + length (concat (map data_frame ps))" by auto
  show ?case unfolding r using c by (intro exI [of _ c]) (simp add: d_def length_data_frame)
qed

end
