(* ===== verification/Gather.thy ===== *)
theory Gather
  imports Frame_Stream State_Combine
begin

text \<open>
  The collector as a whole (\<open>src/src/bin/honas_gather.c\<close>): creating a state for a period, storing it at the
  end of the period, keeping it over a restart, the timers, and the program from its start to its end.
  What the program leaves on disk is part of the state: the files of the state directory and the two
  logs.
\<close>

section \<open>The name of a period\<close>

text \<open>\<open>gmtime_r\<close> and \<open>strftime\<close> with \<open>%FT%T\<close>.\<close>

definition leap_year :: "nat \<Rightarrow> bool" where
  "leap_year y \<longleftrightarrow> y mod 4 = 0 \<and> (y mod 100 \<noteq> 0 \<or> y mod 400 = 0)"

definition year_days :: "nat \<Rightarrow> nat" where
  "year_days y = (if leap_year y then 366 else 365)"

function civil_year :: "nat \<Rightarrow> nat \<Rightarrow> nat \<times> nat" where
  "civil_year y d = (if d < year_days y then (y, d) else civil_year (y + 1) (d - year_days y))"
  by auto
termination by (relation "measure snd") (auto simp: year_days_def)

declare civil_year.simps [simp del]

definition month_days :: "nat \<Rightarrow> nat list" where
  "month_days y = [31, if leap_year y then 29 else 28, 31, 30, 31, 30, 31, 31, 30, 31, 30, 31]"

fun civil_month :: "nat \<Rightarrow> nat list \<Rightarrow> nat \<Rightarrow> nat \<times> nat" where
  "civil_month m [] d = (m, d)"
| "civil_month m (n # ns) d = (if d < n then (m, d) else civil_month (m + 1) ns (d - n))"

definition digits2 :: "nat \<Rightarrow> bytes" where
  "digits2 n = [48 + of_nat (n div 10), 48 + of_nat (n mod 10)]"

definition digits4 :: "nat \<Rightarrow> bytes" where
  "digits4 n = digits2 (n div 100) @ digits2 (n mod 100)"

text \<open>
  The buffer has room for the four digits of a year; with a longer year its contents are undefined.
\<close>

definition period_file_name :: "u64 \<Rightarrow> bytes option" where
  "period_file_name t =
     (let s = unat t mod 86400; (y, yd) = civil_year 1970 (unat t div 86400);
          (m, d) = civil_month 1 (month_days y) yd
      in if y \<le> 9999
         then Some (digits4 y @ [45] @ digits2 m @ [45] @ digits2 (d + 1) @ [84] @
           digits2 (s div 3600) @ [58] @ digits2 (s div 60 mod 60) @ [58] @ digits2 (s mod 60) @ to_bytes ''.hs'')
         else None)"

section \<open>The program and its surroundings\<close>

text \<open>The advice of a dry run: for each rate, the size, the elements it is based on, and the hash functions.\<close>

record advice =
  adv_rate :: nat
  adv_bits :: nat
  adv_elements :: u64
  adv_hashes :: nat

datatype dry_line =
    Hourly_Count u64 u64
  | Daily_Count u64 u64
  | Advice "advice list" "advice list"

text \<open>\<open>co_dir\<close> is the directory of the states.\<close>

record collector =
  co_gather :: gather
  co_dir :: "bytes \<rightharpoonup> bytes"
  co_inst_log :: bytes
  co_dry_log :: "dry_line list"

text \<open>
  The libraries, the files and whether resources can be had: memory for a mapping and a bitmap of it,
  forking, changing the directory, opening a log. \<open>popcount\<close> is the version that was compiled.
\<close>

record ('c, 'h) collector_env =
  ce_gather :: gather_env
  ce_fstrm :: "'c fstrm"
  ce_yajl :: "'h yajl"
  ce_malloc :: "nat \<Rightarrow> bool"
  ce_pton4 :: "bytes \<Rightarrow> bytes option"
  ce_pton6 :: "bytes \<Rightarrow> bytes option"
  ce_fopen :: "bytes \<Rightarrow> bytes option"
  ce_config_fs :: config_fs
  ce_config_file :: bytes
  ce_chdir :: "bytes \<Rightarrow> bool"
  ce_mmap_ok :: bool
  ce_alloc_ok :: bool
  ce_fork_ok :: bool
  ce_inst_file :: bool
  ce_dry_file :: bool
  ce_max_threads :: nat
  ce_popcount :: "nat \<Rightarrow> nat"

section \<open>States on disk\<close>

definition active_state_file_name :: bytes where "active_state_file_name = to_bytes ''active_state''"

text \<open>A file is linked under a name that is not in use, or the process that stores it dies.\<close>

definition link_file :: "bytes \<Rightarrow> bytes \<Rightarrow> (bytes \<rightharpoonup> bytes) \<Rightarrow> (bytes \<rightharpoonup> bytes) option" where
  "link_file name content dir = (if dir name = None then Some (dir(name \<mapsto> content)) else None)"

text \<open>
  A state is stored by a child process, unless \<open>blocking\<close>; what goes wrong there does not reach the
  parent, whose state is as before.
\<close>

definition persist_to ::
  "('c, 'h) collector_env \<Rightarrow> bytes \<Rightarrow> bool \<Rightarrow> honas_state \<Rightarrow> (bytes \<rightharpoonup> bytes) \<Rightarrow>
    (honas_state \<times> (bytes \<rightharpoonup> bytes)) option" where
  "persist_to env name blocking st dir =
     (let child = do {
            (st', content) \<leftarrow> honas_state_persist (ce_max_threads env) (ce_popcount env) st;
            dir' \<leftarrow> link_file name content dir;
            Some (st', dir')
          }
      in if blocking then child
         else if \<not> ce_fork_ok env then None
         else Some (st, case child of Some (_, dir') \<Rightarrow> dir' | None \<Rightarrow> dir))"

definition create_state ::
  "('c, 'h) collector_env \<Rightarrow> honas_gather_config \<Rightarrow> u64 \<Rightarrow> honas_state option" where
  "create_state env config begin = do {
     c_assert (period_length config \<noteq> 0);
     let len = ucast (period_length config);
     let end = begin - begin mod len + len;
     (result, st) \<leftarrow> honas_state_create (ce_mmap_ok env) (ce_alloc_ok env) (cfg_number_of_filters config)
       (cfg_number_of_bits_per_filter config) (cfg_number_of_hashes config)
       (cfg_number_of_filters_per_user config) (cfg_flatten_threshold config);
     c_assert (result = 0);
     st \<leftarrow> st;
     c_assert (first_request (header st) = 0 \<and> last_request (header st) = 0 \<and> number_of_requests (header st) = 0 \<and>
       estimated_number_of_clients (header st) = 0 \<and> estimated_number_of_host_names (header st) = 0);
     Some (st\<lparr>header := (header st)\<lparr>period_begin := begin, period_end := end\<rparr>\<rparr>)
   }"

definition finalize_state ::
  "('c, 'h) collector_env \<Rightarrow> honas_state \<Rightarrow> (bytes \<rightharpoonup> bytes) \<Rightarrow> (honas_state \<times> (bytes \<rightharpoonup> bytes)) option" where
  "finalize_state env st dir = do {
     name \<leftarrow> period_file_name (period_end (header st));
     (st, dir) \<leftarrow> persist_to env name False st dir;
     Some (honas_state_destroy st, dir)
   }"

definition load_gather_config ::
  "('c, 'h) collector_env \<Rightarrow> honas_gather_config \<Rightarrow> honas_gather_config option" where
  "load_gather_config env config = do {
     config \<leftarrow> config_read (ce_config_fs env) honas_gather_config_parse_item (ce_config_file env) config;
     path \<leftarrow> bloomfilter_path config;
     c_assert (ce_chdir env path);
     Some config
   }"

text \<open>The state that was kept over a restart; its file is removed. \<open>Some None\<close> means that there is none.\<close>

definition try_open_active_state ::
  "('c, 'h) collector_env \<Rightarrow> (bytes \<rightharpoonup> bytes) \<Rightarrow> (honas_state option \<times> (bytes \<rightharpoonup> bytes)) option" where
  "try_open_active_state env dir =
     (case dir active_state_file_name of
        None \<Rightarrow> Some (None, dir)
      | Some content \<Rightarrow> do {
          (result, st) \<leftarrow> honas_state_load (ce_alloc_ok env) (Some content);
          c_assert (result = 0);
          st \<leftarrow> st;
          Some (Some st, dir(active_state_file_name := None))
        })"

definition close_state ::
  "('c, 'h) collector_env \<Rightarrow> honas_state \<Rightarrow> (bytes \<rightharpoonup> bytes) \<Rightarrow> (honas_state \<times> (bytes \<rightharpoonup> bytes)) option" where
  "close_state env st dir = do {
     (st, dir) \<leftarrow> persist_to env active_state_file_name True st dir;
     Some (honas_state_destroy st, dir)
   }"

section \<open>Timers\<close>

definition set_gather :: "gather \<Rightarrow> collector \<Rightarrow> collector" where
  "set_gather g co = co\<lparr>co_gather := g\<rparr>"

definition load_subnets :: "('c, 'h) collector_env \<Rightarrow> gather \<Rightarrow> gather option" where
  "load_subnets env g = do {
     (_, sa) \<leftarrow> subnet_activity_initialize (ce_yajl env) (ce_malloc env) (ce_pton4 env) (ce_pton6 env) (ce_fopen env)
       (subnet_activity_path (g_config g));
     Some (g\<lparr>g_subnet_metadata := sa\<rparr>)
   }"

definition recheck_handler :: "('c, 'h) collector_env \<Rightarrow> u64 \<Rightarrow> collector \<Rightarrow> collector option" where
  "recheck_handler env now co =
     (let g = co_gather co; wait = sint (period_end (header (g_state g)) - now)
      in if wait > 0 then Some co
         else do {
           (_, dir) \<leftarrow> finalize_state env (g_state g) (co_dir co);
           config \<leftarrow> load_gather_config env (g_config g);
           st \<leftarrow> create_state env config now;
           let g = g\<lparr>g_state := st, g_config := config, g_fpr_warning_passed := False\<rparr>;
           g \<leftarrow> (if g_aggregate_subnets g
             then (case subnet_activity_destroy (Some (g_subnet_metadata g)) of
                 (_, Some sa) \<Rightarrow> load_subnets env (g\<lparr>g_subnet_metadata := sa\<rparr>)
               | (_, None) \<Rightarrow> None)
             else Some g);
           Some (co\<lparr>co_gather := g, co_dir := dir\<rparr>)
         })"

text \<open>The line that is written to the log, and the counters start again.\<close>

definition instrumentation_event :: "u64 \<Rightarrow> collector \<Rightarrow> collector option" where
  "instrumentation_event memory co = do {
     (i, line) \<leftarrow> instrumentation_dump memory 1024 (g_inst (co_gather co));
     let g = (co_gather co)\<lparr>g_inst := instrumentation_reset (Some i)\<rparr>;
     Some (co\<lparr>co_gather := g, co_inst_log := co_inst_log co @ line\<rparr>)
   }"

text \<open>
  Sizes are rounded up to the next hundred thousand; the number of elements and the size are cut to
  \<open>int\<close> when they are handed to the formulas.
\<close>

definition to_int :: "u64 \<Rightarrow> int" where
  "to_int w = sint (ucast w :: 32 word)"

definition advice_for :: "u64 \<Rightarrow> nat \<Rightarrow> advice" where
  "advice_for maximum rate =
     (let m = roundUp (of_nat (bloom_filter_size (1 / real rate) (to_int maximum))) 100000
      in \<lparr>adv_rate = rate, adv_bits = nat \<lfloor>real (unat m) * (11 / 10)\<rfloor>, adv_elements = maximum,
          adv_hashes = optimal_k (to_int maximum) (to_int m)\<rparr>)"

definition dry_run_advice :: "collector \<Rightarrow> collector option" where
  "dry_run_advice co = do {
     let g = co_gather co;
     let d = g_dry_run_data g;
     (hourly, hours, _) \<leftarrow> hllCount (hourly_global d);
     let d = d\<lparr>hourly_global := hourly, hourly_maximum := max (hourly_maximum d) hours\<rparr>;
     (daily, days, _) \<leftarrow> hllCount (daily_global d);
     let d = d\<lparr>daily_global := daily, daily_maximum := max (daily_maximum d) days\<rparr>;
     let line = Advice (map (advice_for (hourly_maximum d)) [1000, 10000, 100000])
       (map (advice_for (daily_maximum d)) [1000, 10000, 100000]);
     Some (co\<lparr>co_gather := g\<lparr>g_dry_run_data := d\<rparr>, co_dry_log := co_dry_log co @ [line]\<rparr>)
   }"

definition dry_run_hourly_event :: "('c, 'h) collector_env \<Rightarrow> u64 \<Rightarrow> collector \<Rightarrow> collector option" where
  "dry_run_hourly_event env hour co = do {
     let g = co_gather co;
     let d = g_dry_run_data g;
     (_, current, _) \<leftarrow> hllCount (hourly_global d);
     fresh \<leftarrow> hllInit (ce_alloc_ok env);
     let d' = d\<lparr>hourly_maximum := max (hourly_maximum d) current, hourly_global := fresh, hourly_total_queries := 0\<rparr>;
     let co = co\<lparr>co_gather := g\<lparr>g_dry_run_data := d'\<rparr>,
       co_dry_log := co_dry_log co @ [Hourly_Count current (hourly_total_queries d)]\<rparr>;
     if unat hour div 3600 mod 24 = 0 then dry_run_advice co else Some co
   }"

definition dry_run_daily_event :: "('c, 'h) collector_env \<Rightarrow> collector \<Rightarrow> collector option" where
  "dry_run_daily_event env co = do {
     let g = co_gather co;
     let d = g_dry_run_data g;
     (_, current, _) \<leftarrow> hllCount (daily_global d);
     fresh \<leftarrow> hllInit (ce_alloc_ok env);
     let d' = d\<lparr>daily_maximum := max (daily_maximum d) current, daily_global := fresh, daily_total_queries := 0\<rparr>;
     Some (co\<lparr>co_gather := g\<lparr>g_dry_run_data := d'\<rparr>,
       co_dry_log := co_dry_log co @ [Daily_Count current (daily_total_queries d)]\<rparr>)
   }"

section \<open>Start and end\<close>

definition empty_counters :: dry_run_counters where
  "empty_counters = \<lparr>hourly_global = empty_hll, daily_global = empty_hll, hourly_total_queries = 0,
     daily_total_queries = 0, hourly_maximum = 0, daily_maximum = 0\<rparr>"

text \<open>
  The context is zeroed. The program cannot go on when the log of the counters cannot be opened: the
  counters are freed then, but still used.
\<close>

definition init_instrumentation :: "('c, 'h) collector_env \<Rightarrow> gather \<Rightarrow> gather option" where
  "init_instrumentation env g =
     (case instrumentation_initialize (ce_alloc_ok env) of
        (False, _) \<Rightarrow> Some (g\<lparr>g_inst := None\<rparr>)
      | (True, i) \<Rightarrow> if ce_inst_file env then Some (g\<lparr>g_inst := i\<rparr>) else None)"

definition init_dry_run_dumps :: "('c, 'h) collector_env \<Rightarrow> gather \<Rightarrow> gather option" where
  "init_dry_run_dumps env g =
     (if \<not> ce_dry_file env then Some g
      else do {
        hourly \<leftarrow> hllInit (ce_alloc_ok env);
        daily \<leftarrow> hllInit (ce_alloc_ok env);
        Some (g\<lparr>g_dry_run_data := (g_dry_run_data g)\<lparr>hourly_global := hourly, daily_global := daily\<rparr>\<rparr>)
      })"

text \<open>
  \<open>main\<close> up to the loop over the events. The options are the two switches of the command line. The socket is
  set up between the two parts.
\<close>

definition collector_open ::
  "('c, 'h) collector_env \<Rightarrow> bool \<Rightarrow> bool \<Rightarrow> u64 \<Rightarrow> (bytes \<rightharpoonup> bytes) \<Rightarrow> collector option" where
  "collector_open env aggregate dry_run now dir = do {
     config \<leftarrow> load_gather_config env honas_gather_config_init;
     config \<leftarrow> honas_gather_config_finalize config;
     (active, dir) \<leftarrow> try_open_active_state env dir;
     st \<leftarrow> (case active of Some st \<Rightarrow> Some st | None \<Rightarrow> create_state env config now);
     let g = \<lparr>g_remaining_connections = 0, g_aggregate_subnets = aggregate, g_subnet_metadata = sa_zero,
       g_dry_run = dry_run, g_dry_run_data = empty_counters, g_fpr_warning_passed = False, g_state = st,
       g_inst = None, g_config = config, g_listener_enabled = True, g_ticks = 0\<rparr>;
     recheck_handler env now \<lparr>co_gather = g, co_dir = dir, co_inst_log = [], co_dry_log = []\<rparr>
   }"

definition collector_prepare :: "('c, 'h) collector_env \<Rightarrow> collector \<Rightarrow> collector option" where
  "collector_prepare env co = do {
     g \<leftarrow> init_instrumentation env (co_gather co);
     g \<leftarrow> (if g_aggregate_subnets g then load_subnets env g else Some g);
     g \<leftarrow> (if g_dry_run g then init_dry_run_dumps env g else Some g);
     Some (co\<lparr>co_gather := g\<lparr>g_remaining_connections := -1\<rparr>\<rparr>)
   }"

definition collector_start ::
  "('c, 'h) collector_env \<Rightarrow> bool \<Rightarrow> bool \<Rightarrow> u64 \<Rightarrow> (bytes \<rightharpoonup> bytes) \<Rightarrow> collector option" where
  "collector_start env aggregate dry_run now dir = do {
     co \<leftarrow> collector_open env aggregate dry_run now dir;
     collector_prepare env co
   }"

text \<open>The end of \<open>main\<close>, after a signal; the result is what is left on disk.\<close>

definition collector_stop :: "('c, 'h) collector_env \<Rightarrow> collector \<Rightarrow> collector option" where
  "collector_stop env co = do {
     let g = (co_gather co)\<lparr>g_inst := None\<rparr>;
     co \<leftarrow> (if g_dry_run g then do {
         c_assert (ce_dry_file env);
         co \<leftarrow> dry_run_advice (co\<lparr>co_gather := g\<rparr>);
         let d = g_dry_run_data (co_gather co);
         Some (co\<lparr>co_gather := (co_gather co)\<lparr>g_dry_run_data :=
           d\<lparr>hourly_global := hllDestroy (hourly_global d), daily_global := hllDestroy (daily_global d)\<rparr>\<rparr>\<rparr>)
       } else Some (co\<lparr>co_gather := g\<rparr>));
     let g = co_gather co;
     sa \<leftarrow> (if g_aggregate_subnets g then snd (subnet_activity_destroy (Some (g_subnet_metadata g)))
       else Some (g_subnet_metadata g));
     (st, dir) \<leftarrow> close_state env (g_state g) (co_dir co);
     Some (co\<lparr>co_dir := dir, co_gather := g\<lparr>g_subnet_metadata := sa, g_state := st,
       g_config := honas_gather_config_destroy (g_config g)\<rparr>\<rparr>)
   }"

section \<open>The loop over the events\<close>

type_synonym 'c running = "collector \<times> (nat \<rightharpoonup> 'c connection)"

text \<open>What the peers do: they connect, send bytes, take bytes or go away, and the callback returns.\<close>

inductive client_step :: "('c, 'h) collector_env \<Rightarrow> 'c running \<Rightarrow> 'c running \<Rightarrow> bool" for env where
  accept: "client_step env (co, conns) (set_gather g co, conns(n := r))"
    if "g_listener_enabled (co_gather co)" "conns n = None"
      "cb_accept_conn (ce_fstrm env) bev_ok (co_gather co) = (r, g)"
| read: "client_step env (co, conns) (set_gather g co, conns(n := r))"
    if "conns n = Some c" "cb_read (ce_fstrm env) (ce_gather env) (feed bs c) (co_gather co) = Some (r, g)"
| written: "client_step env (co, conns) (set_gather g co, conns(n := r))"
    if "conns n = Some c" "cb_write c (co_gather co) = (r, g)"
| error: "client_step env (co, conns) (set_gather (cb_close_conn (co_gather co)) co, conns(n := None))"
    if "conns n = Some c"

text \<open>
  A read may also not return: the collector is then gone with all its connections. This is the only way
  in which what a peer does ends the program; the other three callbacks always return.
\<close>

inductive client_crash :: "('c, 'h) collector_env \<Rightarrow> 'c running \<Rightarrow> nat \<Rightarrow> bytes \<Rightarrow> bool" for env where
  read_crash: "client_crash env (co, conns) n bs"
    if "conns n = Some c" "cb_read (ce_fstrm env) (ce_gather env) (feed bs c) (co_gather co) = None"

inductive_simps client_crash_iff: "client_crash env (co, conns) n bs"

inductive_cases client_stepE: "client_step env (co, conns) s"

text \<open>The timers: each minute, each hour and each day.\<close>

inductive collector_step :: "('c, 'h) collector_env \<Rightarrow> 'c running \<Rightarrow> 'c running \<Rightarrow> bool" for env where
  client: "client_step env s s' \<Longrightarrow> collector_step env s s'"
| rotate: "recheck_handler env now co = Some co' \<Longrightarrow> collector_step env (co, conns) (co', conns)"
| minute: "instrumentation_event memory co = Some co' \<Longrightarrow> collector_step env (co, conns) (co', conns)"
| hour: "dry_run_hourly_event env now co = Some co' \<Longrightarrow> collector_step env (co, conns) (co', conns)"
| day: "dry_run_daily_event env co = Some co' \<Longrightarrow> collector_step env (co, conns) (co', conns)"

inductive_cases collector_stepE: "collector_step env s s'"

inductive collector_reachable :: "('c, 'h) collector_env \<Rightarrow> 'c running \<Rightarrow> 'c running \<Rightarrow> bool" for env where
  start: "collector_reachable env s s"
| step: "collector_reachable env s s' \<Longrightarrow> collector_step env s' s'' \<Longrightarrow> collector_reachable env s s''"

inductive clients_reachable :: "('c, 'h) collector_env \<Rightarrow> 'c running \<Rightarrow> 'c running \<Rightarrow> bool" for env where
  client_start: "clients_reachable env s s"
| client_next: "clients_reachable env s s' \<Longrightarrow> client_step env s' s'' \<Longrightarrow> clients_reachable env s s''"

section \<open>Connections are counted\<close>

text \<open>The fields that only the callbacks for connections change.\<close>

definition same_net :: "gather \<Rightarrow> gather \<Rightarrow> bool" where
  "same_net g g' \<longleftrightarrow> g_remaining_connections g' = g_remaining_connections g \<and>
     g_listener_enabled g' = g_listener_enabled g"

lemma same_net_refl [simp]: "same_net g g" by (simp add: same_net_def)

lemma same_net_trans: "same_net a b \<Longrightarrow> same_net b c \<Longrightarrow> same_net a c" by (simp add: same_net_def)

lemma process_question_net:
  assumes "process_question env now client hostname qtype g = Some g'"
  shows "same_net g g'"
proof -
  obtain e a where a: "find_entity client g = Some (e, a)"
    using assms by (auto simp: process_question_def bind_eq_Some_conv)
  have "same_net g a" by (rule find_entity_cases [OF a]) (simp_all add: same_net_def)
  moreover have "same_net a g'"
    using assms unfolding process_question_def a bind.bind_lunit prod.case
    by (auto simp: bind_eq_Some_conv Let_def same_net_def)
  ultimately show ?thesis by (rule same_net_trans)
qed

lemma decode_net:
  assumes "decode_dnstap_message env now m g = Some (r, g')"
  shows "same_net g g'"
proof (cases "taken env m")
  case None
  then have "g' = g\<lparr>g_inst := instrumentation_increment_processed
      (if undecodable env m then instrumentation_increment_skipped (g_inst g) else g_inst g)\<rparr>"
    using assms unfolding decode_eq by simp
  then show ?thesis by (simp add: same_net_def)
next
  case (Some t)
  obtain h q where t: "t = (h, q)" by (cases t)
  obtain c where "process_question env now (client_address (dm_query_address m)) h q g = Some c"
    "g' = c\<lparr>g_inst := instrumentation_increment_processed (g_inst c)\<rparr>"
    using assms unfolding decode_eq Some t by auto
  then show ?thesis using process_question_net by (fastforce simp: same_net_def)
qed

lemma process_message_net:
  assumes "process_message env buf g = Some g'"
  shows "same_net g g'"
proof (cases "ge_unpack env buf")
  case (Some mo)
  show ?thesis
  proof (cases mo)
    case None
    then show ?thesis using assms Some by (simp add: process_message_def)
  next
    case m: (Some m)
    obtain r h where h: "decode_dnstap_message env (ge_time env (g_ticks g)) m (g\<lparr>g_ticks := g_ticks g + 1\<rparr>) = Some (r, h)"
      "g' = (if r then h else h\<lparr>g_inst := instrumentation_increment_invalid (g_inst h)\<rparr>)"
      using assms Some m by (auto simp: process_message_def bind_eq_Some_conv)
    from decode_net [OF h(1)] h(2) show ?thesis by (simp add: same_net_def)
  qed
qed (use assms in \<open>simp add: process_message_def\<close>)

text \<open>What every message keeps, reading keeps; closing a connection comes last.\<close>

lemma read_iteration_message:
  assumes "read_iteration fs env conn g = Some (Next c g')"
  shows "g' = g \<or> (\<exists>buf. process_message env buf g = Some g')"
proof (cases "bytes_skip conn > 0")
  case True
  then show ?thesis using assms by (auto simp: read_iteration_def Let_def split: if_splits)
next
  case False
  let ?c = "conn\<lparr>len_buf := length (ev_input conn)\<rparr>"
  obtain a where a: "can_read_full_frame ?c = Full a"
    using assms False by (auto simp: read_iteration_def Let_def split: if_splits full_frame.splits)
  show ?thesis
  proof (cases "len_frame_payload a > 0")
    case True
    then have "process_data_frame env a g = Some (c, g')"
      using assms False a by (auto simp: read_iteration_def Let_def split: if_splits)
    from data_frameD [OF this] show ?thesis by blast
  next
    case n: False
    then show ?thesis using assms False a by (auto simp: read_iteration_def Let_def split: if_splits option.splits)
  qed
qed

lemma read_iteration_end:
  "read_iteration fs env conn g = Some (Wait c g') \<Longrightarrow> g' = g"
  "read_iteration fs env conn g = Some (Shut g') \<Longrightarrow> g' = cb_close_conn g"
  by (auto simp: read_iteration_def Let_def split: if_splits full_frame.splits option.splits)

lemma cb_read_invariant:
  assumes "cb_read fs env conn g = Some (r, g')" "I g"
    and "\<And>buf g g'. process_message env buf g = Some g' \<Longrightarrow> I g \<Longrightarrow> I g'"
  shows "\<exists>h. I h \<and> g' = (if r = None then cb_close_conn h else h)"
  using assms
proof (induction fs env conn g rule: cb_read.induct)
  case (1 fs env conn g)
  note cb = cb_read.simps [of fs env conn g]
  obtain o' where o': "read_iteration fs env conn g = Some o'" using 1(2) cb by (cases "read_iteration fs env conn g") auto
  show ?case
  proof (cases o')
    case (Wait c h)
    then have "h = g" using o' read_iteration_end(1) by blast
    then show ?thesis using 1(2,3) o' cb Wait by auto
  next
    case (Next c h)
    then have "cb_read fs env c h = Some (r, g')" "I h"
      using 1(2,3,4) o' cb read_iteration_message [of fs env conn g c h] by auto
    then show ?thesis by (rule 1(1) [OF o' Next]) (rule 1(4))
  next
    case (Shut h)
    then have "h = cb_close_conn g" using o' read_iteration_end(2) by blast
    then show ?thesis using 1(2,3) o' cb Shut by auto
  qed
qed

definition net_ok :: "'c running \<Rightarrow> bool" where
  "net_ok s \<longleftrightarrow> finite (dom (snd s)) \<and> g_listener_enabled (co_gather (fst s)) \<and>
     g_remaining_connections (co_gather (fst s)) = -1 - int (card (dom (snd s)))"

lemma net_ok_close:
  assumes "net_ok (co, conns)" "conns n = Some c" "same_net (co_gather co) h"
  shows "net_ok (set_gather (cb_close_conn h) co, conns(n := None))"
proof -
  have f: "finite (dom conns)" and "n \<in> dom conns" using assms by (auto simp: net_ok_def)
  then have "card (dom conns) = Suc (card (dom conns - {n}))" by (rule card.remove)
  then show ?thesis using assms f
    by (auto simp: net_ok_def set_gather_def same_net_def cb_close_conn_def Let_def)
qed

lemma net_ok_keep:
  assumes "net_ok (co, conns)" "conns n = Some c" "same_net (co_gather co) h"
  shows "net_ok (set_gather h co, conns(n \<mapsto> c'))"
proof -
  have "dom (conns(n \<mapsto> c')) = dom conns" using assms(2) by auto
  then show ?thesis using assms unfolding net_ok_def by (simp add: set_gather_def same_net_def)
qed

lemma net_ok_gather: "net_ok (co, conns) \<Longrightarrow> same_net (co_gather co) (co_gather co') \<Longrightarrow> net_ok (co', conns)"
  by (simp add: net_ok_def same_net_def)

lemma client_step_net:
  assumes "client_step env s s'" "net_ok s"
  shows "net_ok s'"
  using assms
proof cases
  case (accept co conns n bev_ok r g)
  show ?thesis
  proof (cases bev_ok)
    case True
    have f: "finite (dom conns)" and n: "n \<notin> dom conns" using accept assms by (auto simp: net_ok_def)
    then have "card (dom (conns(n := r))) = Suc (card (dom conns))" using accept(5) True
      by (auto simp: cb_accept_conn_def Let_def)
    then show ?thesis using accept assms(2) True f
      by (auto simp: net_ok_def set_gather_def cb_accept_conn_def Let_def)
  next
    case False
    then have "conns(n := r) = conns" using accept by (auto simp: cb_accept_conn_def)
    then show ?thesis using accept assms(2) False by (simp add: net_ok_def set_gather_def cb_accept_conn_def)
  qed
next
  case (read conns n c bs co r g)
  obtain h where h: "same_net (co_gather co) h" "g = (if r = None then cb_close_conn h else h)"
    using cb_read_invariant [OF read(4), where I = "same_net (co_gather co)"] process_message_net same_net_trans
      same_net_refl by metis
  then show ?thesis using read(1,2,3) assms(2) net_ok_close [of co conns n c h] net_ok_keep [of co conns n c h]
    by (cases r) auto
next
  case (written conns n c co r g)
  then show ?thesis using assms(2) net_ok_close [of co conns n c "co_gather co"] net_ok_keep [of co conns n c "co_gather co" c]
    by (simp add: cb_write_def split: if_split_asm)
next
  case (error conns n c co)
  then show ?thesis using assms(2) net_ok_close [of co conns n c "co_gather co"] by simp
qed

lemma recheck_net:
  assumes "recheck_handler env now co = Some co'"
  shows "same_net (co_gather co) (co_gather co')"
  using assms
  by (auto simp: recheck_handler_def Let_def bind_eq_Some_conv load_subnets_def same_net_def
      split: if_splits prod.splits option.splits)

lemma advice_net: "dry_run_advice co = Some co' \<Longrightarrow> same_net (co_gather co) (co_gather co')"
  by (auto simp: dry_run_advice_def Let_def bind_eq_Some_conv same_net_def)

lemma collector_step_net:
  assumes "collector_step env s s'" "net_ok s"
  shows "net_ok s'"
  using assms
proof cases
  case client
  then show ?thesis using client_step_net assms(2) by blast
next
  case (rotate now co co' conns)
  then show ?thesis using recheck_net net_ok_gather assms(2) by blast
next
  case (minute memory co co' conns)
  then have "same_net (co_gather co) (co_gather co')"
    by (auto simp: instrumentation_event_def bind_eq_Some_conv Let_def same_net_def)
  then show ?thesis using net_ok_gather assms(2) minute(1,2) by blast
next
  case (hour now co co' conns)
  then have "same_net (co_gather co) (co_gather co')"
    by (auto simp: dry_run_hourly_event_def bind_eq_Some_conv Let_def same_net_def dest!: advice_net split: if_splits)
  then show ?thesis using net_ok_gather assms(2) hour(1,2) by blast
next
  case (day co co' conns)
  then have "same_net (co_gather co) (co_gather co')"
    by (auto simp: dry_run_daily_event_def bind_eq_Some_conv Let_def same_net_def)
  then show ?thesis using net_ok_gather assms(2) day(1,2) by blast
qed

text \<open>Every connection is counted, and the listener never stops: there is always room for another one.\<close>

lemma collector_reachable_net:
  assumes "collector_reachable env s s'" "net_ok s"
  shows "net_ok s'"
  using assms by (induction rule: collector_reachable.induct) (auto intro: collector_step_net)

section \<open>Clients cannot damage the state\<close>

text \<open>
  The frames that end the program: one that does not fit into the buffer to which it is copied, and one
  with a message that does so.
\<close>

definition fatal_frame :: "gather_env \<Rightarrow> bytes \<Rightarrow> bool" where
  "fatal_frame env frame \<longleftrightarrow> 4096 < length frame \<or>
     (case ge_unpack env frame of Some (Some m) \<Rightarrow> fatal_message env m | _ \<Rightarrow> False)"

text \<open>Somewhere in the bytes there is such a frame, complete and behind its length.\<close>

definition holds_fatal_frame :: "gather_env \<Rightarrow> bytes \<Rightarrow> bool" where
  "holds_fatal_frame env bs \<longleftrightarrow>
     (\<exists>k < length bs. let n = ntohl (take 4 (drop k bs)) in
        0 < n \<and> k + 4 + n \<le> length bs \<and> fatal_frame env (take (4 + n) (drop k bs)))"

lemma process_message_ok:
  assumes "libraries_ok env" "gather_ok g" "\<And>m. ge_unpack env buf = Some (Some m) \<Longrightarrow> \<not> fatal_message env m"
  shows "\<exists>g'. process_message env buf g = Some g' \<and> gather_ok g' \<and> grows (g_state g) (g_state g')"
proof (cases "ge_unpack env buf")
  case None
  then show ?thesis using assms(2) by (simp add: process_message_def)
next
  case (Some mo)
  show ?thesis
  proof (cases mo)
    case None
    then show ?thesis using assms(2) Some by (simp add: process_message_def)
  next
    case m: (Some m)
    let ?g = "g\<lparr>g_ticks := g_ticks g + 1\<rparr>"
    have g: "gather_ok ?g" using assms(2) by (simp add: gather_ok_def)
    have "\<not> fatal_message env m" using assms(3) Some m by simp
    from decode_not_fatal [OF g assms(1) this]
    obtain r h where h: "decode_dnstap_message env (ge_time env (g_ticks g)) m ?g = Some (r, h)" "gather_ok h"
      "grows (g_state ?g) (g_state h)" by blast
    let ?h = "if r then h else h\<lparr>g_inst := instrumentation_increment_invalid (g_inst h)\<rparr>"
    have "process_message env buf g = Some ?h" using h(1) Some m by (simp add: process_message_def)
    moreover have "gather_ok ?h" "grows (g_state g) (g_state ?h)" using h(2,3) by (simp_all add: gather_ok_def)
    ultimately show ?thesis by blast
  qed
qed

text \<open>A message that is handled leaves the collector usable.\<close>

lemma process_message_keeps:
  assumes "libraries_ok env" "gather_ok g" "process_message env buf g = Some g'"
  shows "gather_ok g' \<and> grows (g_state g) (g_state g')"
proof -
  have "\<not> fatal_message env m" if m: "ge_unpack env buf = Some (Some m)" for m
  proof -
    have "gather_ok (g\<lparr>g_ticks := g_ticks g + 1\<rparr>)" using assms(2) by (simp add: gather_ok_def)
    moreover obtain r h where "decode_dnstap_message env (ge_time env (g_ticks g)) m (g\<lparr>g_ticks := g_ticks g + 1\<rparr>) = Some (r, h)"
      using assms(3) m by (auto simp: process_message_def bind_eq_Some_conv)
    ultimately show ?thesis using decode_returns [OF _ assms(1)] by blast
  qed
  then obtain h where "process_message env buf g = Some h" "gather_ok h" "grows (g_state g) (g_state h)"
    using process_message_ok [OF assms(1,2), of buf] by blast
  with assms(3) show ?thesis by simp
qed

text \<open>The callback does not return only because of a frame that ends the program.\<close>

lemma holds_fatal_frame_drop:
  assumes "holds_fatal_frame env (drop j bs)"
  shows "holds_fatal_frame env bs"
proof -
  obtain k where k: "k < length bs - j" "0 < ntohl (take 4 (drop (k + j) bs))"
    "k + 4 + ntohl (take 4 (drop (k + j) bs)) \<le> length bs - j"
    "fatal_frame env (take (4 + ntohl (take 4 (drop (k + j) bs))) (drop (k + j) bs))"
    using assms by (auto simp: holds_fatal_frame_def Let_def)
  have "k + j < length bs" "k + j + 4 + ntohl (take 4 (drop (k + j) bs)) \<le> length bs" using k(1,3) by linarith+
  with k(2,4) show ?thesis unfolding holds_fatal_frame_def Let_def by blast
qed

lemma full_data_frame:
  assumes "can_read_full_frame conn = Full a" "len_frame_payload a > 0" "len_buf conn = length (ev_input conn)"
  shows "ev_input a = ev_input conn \<and> len_frame_payload a = ntohl (take 4 (ev_input conn)) \<and>
    len_frame_total a = 4 + ntohl (take 4 (ev_input conn)) \<and> 4 + ntohl (take 4 (ev_input conn)) \<le> length (ev_input conn)"
  using assms by (auto simp: can_read_full_frame_def wait_for_frame_def Let_def split: if_splits)

lemma read_iteration_crash:
  assumes "read_iteration fs env conn g = None" "libraries_ok env" "gather_ok g"
  shows "holds_fatal_frame env (ev_input conn)"
proof -
  let ?c = "conn\<lparr>len_buf := length (ev_input conn)\<rparr>" and ?n = "ntohl (take 4 (ev_input conn))"
  obtain a where a: "can_read_full_frame ?c = Full a" "len_frame_payload a > 0" "process_data_frame env a g = None"
    using assms(1) by (auto simp: read_iteration_def Let_def split: if_splits full_frame.splits)
  have f: "ev_input a = ev_input conn" "len_frame_payload a = ?n" "len_frame_total a = 4 + ?n" "4 + ?n \<le> length (ev_input conn)"
    using full_data_frame [OF a(1,2)] by simp_all
  have "fatal_frame env (take (4 + ?n) (ev_input conn))"
  proof (rule ccontr)
    assume nf: "\<not> fatal_frame env (take (4 + ?n) (ev_input conn))"
    then have "\<not> fatal_message env m" if "ge_unpack env (take (4 + ?n) (ev_input conn)) = Some (Some m)" for m
      using that by (simp add: fatal_frame_def)
    from process_message_ok [OF assms(2,3) this]
    obtain h where "process_message env (take (4 + ?n) (ev_input conn)) g = Some h" by blast
    moreover have "length (take (4 + ?n) (ev_input conn)) \<le> 4096" using nf unfolding fatal_frame_def by linarith
    ultimately show False using a(3) f by (simp add: process_data_frame_def Let_def)
  qed
  moreover have "0 < ?n" using a(2) f(2) by simp
  ultimately show ?thesis using f(4) unfolding holds_fatal_frame_def Let_def by (intro exI [of _ 0]) auto
qed

lemma read_iteration_input:
  assumes "read_iteration fs env conn g = Some (Next c g')"
  shows "\<exists>j. ev_input c = drop j (ev_input conn)"
proof (cases "bytes_skip conn > 0")
  case True
  then show ?thesis using assms by (auto simp: read_iteration_def Let_def drain_def split: if_splits)
next
  case False
  let ?c = "conn\<lparr>len_buf := length (ev_input conn)\<rparr>"
  obtain a where a: "can_read_full_frame ?c = Full a"
    using assms False by (auto simp: read_iteration_def Let_def split: if_splits full_frame.splits)
  have f: "ev_input a = ev_input conn" using full_frameD [OF a] by simp
  show ?thesis
  proof (cases "len_frame_payload a > 0")
    case True
    then have "process_data_frame env a g = Some (c, g')"
      using assms False a by (auto simp: read_iteration_def Let_def split: if_splits)
    from data_frameD [OF this] f show ?thesis by auto
  next
    case n: False
    have "Option.bind (load_control_frame fs a) (process_control_frame fs) = Some c"
      using assms False a n by (auto simp: read_iteration_def Let_def split: if_splits option.splits)
    then obtain b where "load_control_frame fs a = Some b" "process_control_frame fs b = Some c"
      by (auto simp: bind_eq_Some_conv)
    then show ?thesis using load_frameD control_frameD f by metis
  qed
qed

lemma cb_read_crash:
  assumes "cb_read fs env conn g = None" "libraries_ok env" "gather_ok g"
  shows "holds_fatal_frame env (ev_input conn)"
  using assms
proof (induction fs env conn g rule: cb_read.induct)
  case (1 fs env conn g)
  note cb = cb_read.simps [of fs env conn g]
  show ?case
  proof (cases "read_iteration fs env conn g")
    case None
    from read_iteration_crash [OF this 1(3,4)] show ?thesis .
  next
    case (Some o')
    then obtain c h where n: "o' = Next c h" "cb_read fs env c h = None"
      using 1(2) cb by (cases o') auto
    have "gather_ok h" using read_iteration_message [of fs env conn g c h] process_message_keeps [OF 1(3,4)] Some n(1) 1(4) by auto
    from 1(1) [OF Some n(1,2) 1(3) this] obtain j where "holds_fatal_frame env (drop j (ev_input conn))"
      using read_iteration_input [of fs env conn g c h] Some n(1) by auto
    then show ?thesis by (rule holds_fatal_frame_drop)
  qed
qed

lemma gather_ok_close: "gather_ok g \<Longrightarrow> gather_ok (cb_close_conn g) \<and> g_state (cb_close_conn g) = g_state g"
  by (simp add: gather_ok_def cb_close_conn_def Let_def)

lemma client_step_ok:
  assumes "client_step env s s'" "libraries_ok (ce_gather env)" "gather_ok (co_gather (fst s))"
  shows "gather_ok (co_gather (fst s')) \<and> grows (g_state (co_gather (fst s))) (g_state (co_gather (fst s'))) \<and>
    co_dir (fst s') = co_dir (fst s)"
  using assms
proof cases
  case (accept co conns n bev_ok r g)
  have "gather_ok g \<and> g_state g = g_state (co_gather co)"
    using accept(1,5) assms(3) by (auto simp: cb_accept_conn_def gather_ok_def Let_def split: if_splits)
  then show ?thesis using accept(1,2) by (simp add: set_gather_def)
next
  case (read conns n c bs co r g)
  let ?I = "\<lambda>g. gather_ok g \<and> grows (g_state (co_gather co)) (g_state g)"
  have keep: "?I g'" if "process_message (ce_gather env) buf g = Some g'" "?I g" for buf g g'
    using process_message_keeps [OF assms(2) _ that(1)] that(2) grows_trans by blast
  have "?I (co_gather co)" using assms(3) read(1) by simp
  have "\<exists>h. ?I h \<and> g = (if r = None then cb_close_conn h else h)"
    by (rule cb_read_invariant [OF read(4), where I = ?I]) (fact, erule keep)
  then obtain h where "?I h" "g = (if r = None then cb_close_conn h else h)" by blast
  then show ?thesis using read(1,2) gather_ok_close by (simp add: set_gather_def)
next
  case (written conns n c co r g)
  then show ?thesis using assms(3) gather_ok_close [of "co_gather co"]
    by (auto simp: cb_write_def set_gather_def split: if_splits)
next
  case (error conns n c co)
  then show ?thesis using assms(3) gather_ok_close [of "co_gather co"] by (simp add: set_gather_def)
qed

lemma clients_reachable_ok:
  assumes "clients_reachable env s s'" "libraries_ok (ce_gather env)" "gather_ok (co_gather (fst s))"
  shows "gather_ok (co_gather (fst s')) \<and> grows (g_state (co_gather (fst s))) (g_state (co_gather (fst s'))) \<and>
    co_dir (fst s') = co_dir (fst s)"
  using assms
proof (induction rule: clients_reachable.induct)
  case (client_next s s' s'')
  have a: "gather_ok (co_gather (fst s'))" "grows (g_state (co_gather (fst s))) (g_state (co_gather (fst s')))"
    "co_dir (fst s') = co_dir (fst s)" using client_next by blast+
  have b: "gather_ok (co_gather (fst s''))" "grows (g_state (co_gather (fst s'))) (g_state (co_gather (fst s'')))"
    "co_dir (fst s'') = co_dir (fst s')" using client_step_ok [OF client_next(2,4) a(1)] by blast+
  show ?case using a(3) b grows_trans [OF a(2) b(2)] by simp
qed simp

section \<open>Periods and restarts\<close>

lemma create_state_ok:
  assumes c: "layout_fits (cfg_number_of_filters config) (cfg_number_of_bits_per_filter config)"
      "0 < cfg_number_of_hashes config" "0 < cfg_number_of_filters_per_user config" "0 < period_length config"
    and env: "ce_mmap_ok env" "ce_alloc_ok env"
    and fits: "unat begin + unat (period_length config) < 2 ^ 64"
  shows "\<exists>st. create_state env config begin = Some st \<and>
    created_state (cfg_number_of_filters config) (cfg_number_of_bits_per_filter config) st \<and> state_ok st \<and>
    period_begin (header st) = begin \<and> begin < period_end (header st) \<and>
    unat (period_end (header st)) \<le> unat begin + unat (period_length config) \<and>
    unat (period_end (header st)) mod unat (period_length config) = 0"
proof -
  obtain st where st: "honas_state_create True True (cfg_number_of_filters config) (cfg_number_of_bits_per_filter config)
      (cfg_number_of_hashes config) (cfg_number_of_filters_per_user config) (cfg_flatten_threshold config) = Some (0, Some st)"
    "created_state (cfg_number_of_filters config) (cfg_number_of_bits_per_filter config) st" "state_ok st"
    "header st = new_header (cfg_number_of_filters config) (cfg_number_of_bits_per_filter config)
      (cfg_number_of_hashes config) (cfg_number_of_filters_per_user config) (cfg_flatten_threshold config)"
    using create_ok [OF c(1-3)] by blast
  let ?len = "ucast (period_length config) :: u64" let ?l = "unat (period_length config)"
  define e where "e = begin - begin mod ?len + ?len"
  have "?l < 4294967296" by (rule unat_u32_less)
  then have "?l < 2 ^ 64" by (rule less_trans) simp
  then have l: "unat ?len = ?l" by (simp add: unsigned_ucast_eq take_bit_nat_eq_self)
  have lz: "0 < ?l" using c(4) by (simp add: word_less_nat_alt)
  have "begin mod ?len \<le> begin" by (simp add: word_le_nat_alt unat_mod)
  then have m: "unat (begin - begin mod ?len) = unat begin - unat begin mod ?l"
    by (simp add: unat_sub unat_mod l)
  have e: "unat e = unat begin - unat begin mod ?l + ?l"
    unfolding e_def using fits by (simp add: unat_word_ariths m l)
  have "unat begin mod ?l < ?l" "unat begin mod ?l \<le> unat begin" using lz by simp_all
  then have b: "unat begin < unat e" "unat e \<le> unat begin + ?l" unfolding e by linarith+
  have "(unat begin - unat begin mod ?l) mod ?l = 0" by (simp add: minus_mod_eq_mult_div)
  then have d: "unat e mod ?l = 0" unfolding e mod_add_self2 .
  let ?st = "st\<lparr>header := (header st)\<lparr>period_begin := begin, period_end := e\<rparr>\<rparr>"
  have "period_length config \<noteq> 0" using c(4) by simp
  then have "create_state env config begin = Some ?st"
    using st(1,4) env by (simp add: create_state_def e_def Let_def new_header_def)
  moreover have "grows st ?st" by (simp add: grows_def layout_of_def)
  then have "created_state (cfg_number_of_filters config) (cfg_number_of_bits_per_filter config) ?st"
    using created_state_grows st(2) by blast
  moreover have "state_ok ?st"
    using st(3) grows_filters_ok [OF \<open>grows st ?st\<close>] by (simp add: state_ok_def hlls_ok_def)
  ultimately show ?thesis using b d by (intro exI [of _ ?st]) (simp add: word_less_nat_alt)
qed

text \<open>Before the end of the period nothing happens; when it is over, its state is stored and a new one begins.\<close>

lemma recheck_early:
  assumes "0 < sint (period_end (header (g_state (co_gather co))) - now)"
  shows "recheck_handler env now co = Some co"
  using assms by (simp add: recheck_handler_def Let_def)

lemma persist_to_child:
  assumes "ce_fork_ok env" "honas_state_persist (ce_max_threads env) (ce_popcount env) st = Some (st', content)"
    and "dir name = None"
  shows "persist_to env name False st dir = Some (st, dir(name \<mapsto> content))"
  using assms by (simp add: persist_to_def link_file_def)

lemma recheck_rotates:
  assumes late: "sint (period_end (header (g_state (co_gather co))) - now) \<le> 0"
    and name: "period_file_name (period_end (header (g_state (co_gather co)))) = Some name" "co_dir co name = None"
    and persist: "honas_state_persist (ce_max_threads env) (ce_popcount env) (g_state (co_gather co)) = Some (st', content)"
    and env: "ce_mmap_ok env" "ce_alloc_ok env" "ce_fork_ok env"
    and config: "load_gather_config env (g_config (co_gather co)) = Some config"
      "layout_fits (cfg_number_of_filters config) (cfg_number_of_bits_per_filter config)"
      "0 < cfg_number_of_hashes config" "0 < cfg_number_of_filters_per_user config" "0 < period_length config"
    and fits: "unat now + unat (period_length config) < 2 ^ 64"
    and plain: "\<not> g_aggregate_subnets (co_gather co)"
  shows "\<exists>co'. recheck_handler env now co = Some co' \<and> co_dir co' = (co_dir co)(name \<mapsto> content) \<and>
    created_state (cfg_number_of_filters config) (cfg_number_of_bits_per_filter config) (g_state (co_gather co')) \<and>
    state_ok (g_state (co_gather co')) \<and>
    period_begin (header (g_state (co_gather co'))) = now \<and> now < period_end (header (g_state (co_gather co'))) \<and>
    \<not> g_fpr_warning_passed (co_gather co')"
proof -
  obtain st where st: "create_state env config now = Some st"
    "created_state (cfg_number_of_filters config) (cfg_number_of_bits_per_filter config) st" "state_ok st"
    "period_begin (header st) = now" "now < period_end (header st)"
    using create_state_ok [OF config(2-5) env(1,2) fits] by blast
  have f: "finalize_state env (g_state (co_gather co)) (co_dir co) =
      Some (honas_state_destroy (g_state (co_gather co)), (co_dir co)(name \<mapsto> content))"
    using name persist_to_child [where dir = "co_dir co" and name = name, OF env(3) persist name(2)] by (simp add: finalize_state_def)
  let ?g = "(co_gather co)\<lparr>g_state := st, g_config := config, g_fpr_warning_passed := False\<rparr>"
  have "recheck_handler env now co = Some (co\<lparr>co_gather := ?g, co_dir := (co_dir co)(name \<mapsto> content)\<rparr>)"
    using late plain by (simp add: recheck_handler_def Let_def f config(1) st(1))
  then show ?thesis using st by simp
qed

text \<open>A name that is in use: the child cannot store the state, the parent goes on, and the period is lost.\<close>

lemma finalize_name_in_use:
  assumes "ce_fork_ok env" "period_file_name (period_end (header st)) = Some name" "dir name = Some old"
  shows "finalize_state env st dir = Some (honas_state_destroy st, dir)"
  using assms by (cases "honas_state_persist (ce_max_threads env) (ce_popcount env) st")
    (auto simp: finalize_state_def persist_to_def link_file_def)

text \<open>
  A restart: the state that is stored at the end is loaded at the beginning, and finds every hash in at
  least the filters in which it was found.
\<close>

lemma restart_keeps:
  assumes env: "ce_max_threads env = 8" "ce_popcount env = builtin_popcountll" "ce_alloc_ok env"
    and st: "created_state n bits st" "hlls_usable st" and dir: "dir active_state_file_name = None"
  shows "\<exists>st' dir' st''. close_state env st dir = Some (st', dir') \<and>
    try_open_active_state env dir' = Some (Some st'', dir) \<and>
    created_state n bits st'' \<and> hlls_usable st'' \<and>
    (\<forall>hash. hit_filters st hash \<subseteq> hit_filters st'' hash)"
proof -
  obtain a content st'' where p: "honas_state_persist 8 builtin_popcountll st = Some (a, content)"
    "honas_state_load True (Some content) = Some (0, Some st'')"
    "created_state n bits st''" "hlls_usable st''" "\<forall>hash. hit_filters st hash \<subseteq> hit_filters st'' hash"
    using persist_load [OF _ popcountll_correct st] by auto
  let ?dir = "dir(active_state_file_name \<mapsto> content)"
  have "close_state env st dir = Some (honas_state_destroy a, ?dir)"
    using env p(1) dir by (simp add: close_state_def persist_to_def link_file_def)
  moreover have "try_open_active_state env ?dir = Some (Some st'', dir)"
    using env p(2) dir by (auto simp: try_open_active_state_def)
  ultimately show ?thesis using p(3-5) by blast
qed

end
