(* ===== verification/Gather_Main.thy ===== *)
theory Gather_Main
  imports Command_Line Gather
begin

text \<open>
  The program \<open>honas-gather\<close> (\<open>src/src/bin/honas_gather.c\<close>) around its loop over the events: the command line, the
  daemon mode, signals, the socket, and the end. The messages of the functions that it calls, and those on
  loading the subnets, are left out. Files other than those in the directory of the states are not touched.
\<close>

section \<open>The command line\<close>

record gather_cli = cli +
  config_file :: string
  daemonize :: bool
  syslogenabled :: bool
  aggregate_mode :: bool
  dry_run_mode :: bool

text \<open>
  What the system gives at the start: the name of the default configuration, which is chosen when the
  program is built, the result of \<open>fork\<close>, which calls for signals succeed, whether the initial directory
  can be opened, and whether the loop and the socket can be had. \<open>dispatch_result\<close> is the result of the loop.
\<close>

record start_env =
  default_config :: string
  fork_result :: int
  sigemptyset_ok :: bool
  sigaction_ok :: "nat \<Rightarrow> bool"
  initial_dir_ok :: bool
  event_base_ok :: bool
  listener_ok :: bool
  dispatch_result :: int

abbreviation (input) SIGINT :: nat where "SIGINT \<equiv> 2"
abbreviation (input) SIGQUIT :: nat where "SIGQUIT \<equiv> 3"
abbreviation (input) SIGTERM :: nat where "SIGTERM \<equiv> 15"

definition gather_usage :: "start_env \<Rightarrow> string list" where
  "gather_usage start =
    [''Usage: honas-gather [--help] [--config <file>]'',
     '''',
     ''  -h|--help           Show this message'',
     ''  -c|--config <file>  Load config from file instead of '' @ default_config start,
     ''  -q|--quiet          Be more quiet (can be used multiple times)'',
     ''  -s|--syslog         Log messages to syslog'',
     ''  -v|--verbose        Be more verbose (can be used multiple times)'',
     ''  -f|--fork           Fork the process as daemon (syslog must be enabled)'',
     ''  -a|--aggregate      Aggregates queries by subnet per filter (predefined subnets)'',
     ''  -d|--dry-run        Performs measurements and gives advice about Bloom filter configuration'']"

definition gather_long_options :: "long_option list" where
  "gather_long_options =
    [(''help'', False, CHR ''h''), (''config'', True, CHR ''c''), (''quiet'', False, CHR ''q''), (''syslog'', False, CHR ''s''),
     (''verbose'', False, CHR ''v''), (''fork'', False, CHR ''f''), (''aggregate'', False, CHR ''a''), (''dry-run'', False, CHR ''d'')]"

definition gather_option :: "start_env \<Rightarrow> cli_env \<Rightarrow> getopt_item \<Rightarrow> gather_cli \<Rightarrow> gather_cli step option" where
  "gather_option start env i s =
     (case i of
        Unknown \<Rightarrow> Some (Return 1 (complain (gather_usage start) s))
      | Opt c optarg \<Rightarrow>
          if c = CHR ''h'' then Some (Return 0 (print (gather_usage start) s))
          else if c = CHR ''c'' then map_option (\<lambda>name. Continue (s\<lparr>config_file := name\<rparr>)) optarg
          else if c = CHR ''q'' then map_option Continue (move_level env (-1) s)
          else if c = CHR ''s'' then map_option (\<lambda>s. Continue (s\<lparr>syslogenabled := True\<rparr>)) (open_syslog s)
          else if c = CHR ''v'' then map_option Continue (move_level env 1 s)
          else if c = CHR ''f'' then Some (Continue (s\<lparr>daemonize := True\<rparr>))
          else if c = CHR ''a'' then Some (Continue (s\<lparr>aggregate_mode := True\<rparr>))
          else if c = CHR ''d'' then Some (Continue (s\<lparr>dry_run_mode := True\<rparr>))
          else map_option (Return 1) (say env CRIT (''Unimplemented option '' @ quoted [c] @ ''; Aborting!'') s))"

definition gather_initial :: "start_env \<Rightarrow> gather_cli" where
  "gather_initial start = \<lparr>cli_log = log_initial, cli_out = [], cli_err = [], config_file = default_config start,
     daemonize = False, syslogenabled = False, aggregate_mode = False, dry_run_mode = False\<rparr>"

section \<open>Start\<close>

text \<open>The options, the remaining arguments, and the daemon mode; \<open>Return\<close> when this process ends here.\<close>

definition gather_begin :: "start_env \<Rightarrow> cli_env \<Rightarrow> string list \<Rightarrow> gather_cli step option" where
  "gather_begin start env args = do {
     let (items, operands) = getopt_long (short_options ''hc:qsvfad'') gather_long_options args;
     r \<leftarrow> option_loop (gather_option start env) items (gather_initial start);
     (case r of
        Return code s \<Rightarrow> Some (Return code s)
      | Continue s \<Rightarrow>
          (case operands of
             a # _ \<Rightarrow> do {
               s \<leftarrow> say env CRIT (''Unsupported argument supplied: '' @ a @ ''!'') s;
               Some (Return 1 (complain (gather_usage start) s))
             }
           | [] \<Rightarrow>
               if \<not> daemonize s then Some (Continue s)
               else if \<not> syslogenabled s then
                 map_option (Return 1) (say env ERR ''Cannot fork if syslog is not enabled for logging!'' s)
               else if fork_result start < 0 then
                 map_option (Return 1) (say env ERR ''Failed to fork the gather process!'' s)
               else if fork_result start > 0 then
                 map_option (Return 0) (say env DEBUG
                   (''PID of forked process is '' @ map (char_of \<circ> unat) (dec_digits (nat (fork_result start)))) s)
               else Some (Continue s)))
   }"

definition setup_signal_handlers :: "start_env \<Rightarrow> bool" where
  "setup_signal_handlers start =
     (if \<not> sigemptyset_ok start then False
      else if \<not> sigaction_ok start SIGTERM then False
      else if \<not> sigaction_ok start SIGINT then False
      else if \<not> sigaction_ok start SIGQUIT then False
      else True)"

text \<open>Setting up the loop and the socket; a socket file of an earlier process is removed before.\<close>

definition init_dnstap_input :: "start_env \<Rightarrow> bool" where
  "init_dnstap_input start =
     (if \<not> event_base_ok start then False
      else if \<not> listener_ok start then False
      else True)"

definition entropy_warning :: "cli_env \<Rightarrow> honas_state \<Rightarrow> 'a cli_scheme \<Rightarrow> 'a cli_scheme option" where
  "entropy_warning env st s =
     (if honas_state_calculate_required_entropy (Some st) > 512
      then say env WARNING ''The required entropy for the current filter size is larger than SHA-512 can offer!'' s
      else Some s)"

text \<open>The program ends at once, with what is then on disk, or it comes to its loop over the events.\<close>

datatype gather_start = Ended int "bytes \<rightharpoonup> bytes" | Running collector

definition gather_setup ::
  "('c, 'h) collector_env \<Rightarrow> start_env \<Rightarrow> cli_env \<Rightarrow> u64 \<Rightarrow> (bytes \<rightharpoonup> bytes) \<Rightarrow> gather_cli \<Rightarrow>
    (gather_cli \<times> gather_start) option" where
  "gather_setup cenv start env now dir s = do {
     s \<leftarrow> say_version env ''honas-gather'' s;
     if \<not> setup_signal_handlers start then do {
       s \<leftarrow> say env ERR ''Failed to install signal handlers!'' s;
       Some (s, Ended 1 dir)
     }
     else if \<not> initial_dir_ok start then do {
       s \<leftarrow> fail env ''Failed to open initial working directory'' s;
       Some (s, Ended 1 dir)
     }
     else do {
       let cenv = cenv\<lparr>ce_config_file := to_bytes (config_file s)\<rparr>;
       co \<leftarrow> collector_open cenv (aggregate_mode s) (dry_run_mode s) now dir;
       s \<leftarrow> entropy_warning env (g_state (co_gather co)) s;
       if \<not> init_dnstap_input start then do {
         s \<leftarrow> say env ERR ''Failed to initialize DNStap input!'' s;
         Some (s, Ended 1 (co_dir co))
       }
       else do {
         s \<leftarrow> say env INFO ''Initialized DNStap input!'' s;
         co \<leftarrow> collector_prepare cenv co;
         s \<leftarrow> (if dry_run_mode s
           then say env INFO ''Performing dry-run: measuring data and giving advice about Bloom filter configuration.'' s
           else Some s);
         s \<leftarrow> say env INFO ''Starting main processing loop...'' s;
         Some (s, Running co)
       }
     }
   }"

definition gather_main ::
  "('c, 'h) collector_env \<Rightarrow> start_env \<Rightarrow> cli_env \<Rightarrow> string list \<Rightarrow> u64 \<Rightarrow> (bytes \<rightharpoonup> bytes) \<Rightarrow>
    (gather_cli \<times> gather_start) option" where
  "gather_main cenv start env args now dir = do {
     r \<leftarrow> gather_begin start env args;
     (case r of
        Return code s \<Rightarrow> Some (s, Ended code dir)
      | Continue s \<Rightarrow> gather_setup cenv start env now dir s)
   }"

section \<open>End\<close>

text \<open>After the loop: when it failed the state is not stored.\<close>

definition UNIX_SOCKET_PATH :: string where "UNIX_SOCKET_PATH = ''/var/spool/honas/honas.sock''"

definition gather_finish ::
  "('c, 'h) collector_env \<Rightarrow> start_env \<Rightarrow> cli_env \<Rightarrow> gather_cli \<Rightarrow> collector \<Rightarrow>
    (gather_cli \<times> int \<times> (bytes \<rightharpoonup> bytes)) option" where
  "gather_finish cenv start env s co =
     (if dispatch_result start \<noteq> 0 then do {
        s \<leftarrow> say env ERR ''The main processing loop failed to start!'' s;
        Some (s, 1, co_dir co)
      }
      else do {
        s \<leftarrow> say env NOTICE ''Done processing'' s;
        s \<leftarrow> say env INFO (''Unlinking socket file '' @ UNIX_SOCKET_PATH @ ''...'') s;
        let g = co_gather co;
        s \<leftarrow> (if g_aggregate_subnets g \<and> fst (subnet_activity_destroy (Some (g_subnet_metadata g))) = SA_OK
          then say env INFO ''Finalized subnet activity resources.'' s else Some s);
        co \<leftarrow> collector_stop cenv co;
        s \<leftarrow> say env NOTICE ''Exiting'' s;
        Some (close_log s, 0, co_dir co)
      })"

section \<open>Options\<close>

interpretation gather_options: option_program "gather_option start env" for start env
  by unfold_locales (auto simp: gather_option_def split: if_splits)

text \<open>The log goes to the standard error or to the system log, and the switch for the second says so.\<close>

definition log_ok :: "gather_cli \<Rightarrow> bool" where
  "log_ok s \<longleftrightarrow> log_target (cli_log s) = (if syslogenabled s then target_syslog else target_uninitialized)"

lemma log_write_target: "log_write level text ctx = Some ctx' \<Longrightarrow> log_target ctx' = log_target ctx"
  by (auto simp: log_write_def split: log_target.splits)

lemma log_get_target: "log_get_min_log_level v ctx = Some (l, ctx') \<Longrightarrow> log_target ctx' = log_target ctx"
  by (auto simp: log_get_min_log_level_def dest: log_write_target split: if_splits option.splits)

lemma log_msg_target: "log_msg v level text ctx = Some ctx' \<Longrightarrow> log_target ctx' = log_target ctx"
  by (auto simp: log_msg_def dest!: log_get_target log_write_target split: option.splits if_splits)

lemma log_set_target [simp]: "log_target (log_set_min_log_level level ctx) = log_target ctx"
  by (simp add: log_set_min_log_level_def Let_def)

lemma say_log_ok: "say env level text s = Some s' \<Longrightarrow> log_ok s \<Longrightarrow> log_ok s'"
  by (auto simp: say_def log_ok_def dest: log_msg_target)

lemma move_level_log_ok: "move_level env d s = Some s' \<Longrightarrow> log_ok s \<Longrightarrow> log_ok s'"
  by (auto simp: move_level_def log_ok_def dest: log_get_target)

lemma gather_option_continue:
  assumes "log_ok s" "gather_option start env i s = Some (Continue s')"
  shows "log_ok s'"
  using assms
  by (auto simp: gather_option_def open_syslog_def log_init_syslog_def log_ok_def dest!: move_level_log_ok
      split: getopt_item.splits if_splits)

text \<open>A process that goes on as a daemon logs to the system log and is the child.\<close>

lemma gather_begin_continue:
  assumes "gather_begin start env args = Some (Continue s)"
  shows "log_ok s" "daemonize s \<Longrightarrow> syslogenabled s \<and> fork_result start = 0"
proof -
  obtain items operands where g: "getopt_long (short_options ''hc:qsvfad'') gather_long_options args = (items, operands)" by fastforce
  obtain r where r: "option_loop (gather_option start env) items (gather_initial start) = Some r"
    using assms g by (auto simp: gather_begin_def bind_eq_Some_conv)
  then have s: "r = Continue s" "daemonize s \<longrightarrow> syslogenabled s \<and> fork_result start = 0"
    using assms g by (auto simp: gather_begin_def bind_eq_Some_conv split: step.splits list.splits if_splits)
  have "option_loop (gather_option start env) items (gather_initial start) = Some (Continue s)" using r s(1) by simp
  then show "log_ok s"
  proof (rule option_loop_invariant [where I = log_ok])
    show "log_ok (gather_initial start)" by (simp add: log_ok_def gather_initial_def)
  qed (rule gather_option_continue)
  show "daemonize s \<Longrightarrow> syslogenabled s \<and> fork_result start = 0" using s(2) by blast
qed

text \<open>The option for the system log may be given only once: the second one fails an assertion.\<close>

lemma syslog_twice: "gather_begin start env (''-s'' # ''-s'' # args) = None"
proof -
  obtain items operands where "getopt_long (short_options ''hc:qsvfad'') gather_long_options args = (items, operands)" by fastforce
  then have "getopt_long (short_options ''hc:qsvfad'') gather_long_options (''-s'' # ''-s'' # args) =
      (Opt CHR ''s'' None # Opt CHR ''s'' None # items, operands)" by simp
  then show ?thesis
    by (simp add: gather_begin_def gather_option_def gather_initial_def open_syslog_def log_init_syslog_def)
qed

section \<open>A start that fails\<close>

text \<open>Logging always returns when the level is not in the environment; it changes nothing but the log.\<close>

lemma say_ok:
  assumes "log_ok s" "log_level_env env = None"
  shows "\<exists>ctx. say env level text s = Some (s\<lparr>cli_log := ctx\<rparr>) \<and> log_ok (s\<lparr>cli_log := ctx\<rparr>)"
proof -
  obtain l ctx where l: "log_get_min_log_level None (cli_log s) = Some (l, ctx)"
    by (cases "min_log_level (cli_log s) = UNSET") (auto simp: log_get_min_log_level_def)
  have t: "log_target ctx \<noteq> target_file" using assms(1) log_get_target [OF l] by (simp add: log_ok_def split: if_splits)
  obtain ctx' where c: "log_msg None level text (cli_log s) = Some ctx'"
    using t l by (cases "l < level"; cases "log_target ctx") (auto simp: log_msg_def log_write_def)
  then have "say env level text s = Some (s\<lparr>cli_log := ctx'\<rparr>)" using assms(2) by (simp add: say_def)
  with say_log_ok [OF this assms(1)] show ?thesis by blast
qed

lemma say_if_ok:
  assumes "log_ok s" "log_level_env env = None"
  shows "\<exists>ctx. (if P then say env level text s else Some s) = Some (s\<lparr>cli_log := ctx\<rparr>) \<and> log_ok (s\<lparr>cli_log := ctx\<rparr>)"
proof (cases P)
  case False
  then show ?thesis using assms(1) by (intro exI [of _ "cli_log s"]) simp
qed (use say_ok [OF assms] in simp)

text \<open>
  The program may end before its loop. Then the files are as before, unless the socket is what is missing:
  the state that was kept over the restart is loaded and removed before.
\<close>

lemma ended_keeps_files:
  assumes "gather_main cenv start env args now dir = Some (s, Ended code dir')" "init_dnstap_input start"
  shows "dir' = dir"
proof (cases "gather_begin start env args")
  case (Some r)
  with assms show ?thesis
    by (cases r) (auto simp: gather_main_def gather_setup_def bind_eq_Some_conv Let_def split: if_splits)
qed (use assms in \<open>simp add: gather_main_def\<close>)

lemma failed_socket:
  assumes accepted: "gather_begin start env args = Some (Continue s)" and l: "log_level_env env = None"
    and ok: "setup_signal_handlers start" "initial_dir_ok start" and bad: "\<not> init_dnstap_input start"
    and opened: "collector_open (cenv\<lparr>ce_config_file := to_bytes (config_file s)\<rparr>) (aggregate_mode s) (dry_run_mode s) now dir = Some co"
  shows "\<exists>s'. gather_main cenv start env args now dir = Some (s', Ended 1 (co_dir co))"
proof -
  obtain c1 where c1: "say_version env ''honas-gather'' s = Some (s\<lparr>cli_log := c1\<rparr>)" "log_ok (s\<lparr>cli_log := c1\<rparr>)"
    using say_ok [OF gather_begin_continue(1) [OF accepted] l] unfolding say_version_def by blast
  obtain c2 where c2: "entropy_warning env (g_state (co_gather co)) (s\<lparr>cli_log := c1\<rparr>) = Some (s\<lparr>cli_log := c2\<rparr>)" "log_ok (s\<lparr>cli_log := c2\<rparr>)"
    using say_if_ok [OF c1(2) l] unfolding entropy_warning_def by fastforce
  obtain c3 where "say env ERR ''Failed to initialize DNStap input!'' (s\<lparr>cli_log := c2\<rparr>) = Some (s\<lparr>cli_log := c3\<rparr>)"
    using say_ok [OF c2(2) l] by fastforce
  then show ?thesis using accepted ok bad opened c1(1) c2(1) by (simp add: gather_main_def gather_setup_def Let_def)
qed

text \<open>What cannot be set up behind the socket ends the program, after the state file was removed.\<close>

lemma failed_prepare:
  assumes "gather_begin start env args = Some (Continue s)"
    and "setup_signal_handlers start" "initial_dir_ok start" "init_dnstap_input start"
    and "collector_open (cenv\<lparr>ce_config_file := to_bytes (config_file s)\<rparr>) (aggregate_mode s) (dry_run_mode s) now dir = Some co"
    and "collector_prepare (cenv\<lparr>ce_config_file := to_bytes (config_file s)\<rparr>) co = None"
  shows "gather_main cenv start env args now dir = None"
proof (cases "say_version env ''honas-gather'' s")
  case None
  then show ?thesis using assms(1) by (simp add: gather_main_def gather_setup_def)
next
  case (Some s1)
  then have "config_file s1 = config_file s" "aggregate_mode s1 = aggregate_mode s" "dry_run_mode s1 = dry_run_mode s"
    by (auto simp: say_version_def say_def)
  then have "gather_setup cenv start env now dir s = None"
    using assms(2-6) Some by (simp add: gather_setup_def Let_def)
  then show ?thesis using assms(1) by (simp add: gather_main_def)
qed

section \<open>The end of the program\<close>

lemma failed_loop:
  assumes "gather_finish cenv start env s co = Some (s', code, dir)" "dispatch_result start \<noteq> 0"
  shows "code = 1 \<and> dir = co_dir co"
  using assms by (auto simp: gather_finish_def bind_eq_Some_conv)

text \<open>After a loop that ended by a signal everything is on disk that \<open>collector_stop\<close> leaves there.\<close>

lemma finish_stores:
  assumes "log_ok s" "log_level_env env = None" "dispatch_result start = 0" "collector_stop cenv co = Some co'"
  shows "\<exists>s'. gather_finish cenv start env s co = Some (s', 0, co_dir co')"
proof -
  let ?sub = "g_aggregate_subnets (co_gather co) \<and>
    fst (subnet_activity_destroy (Some (g_subnet_metadata (co_gather co)))) = SA_OK"
  obtain c1 where c1: "say env NOTICE ''Done processing'' s = Some (s\<lparr>cli_log := c1\<rparr>)" "log_ok (s\<lparr>cli_log := c1\<rparr>)"
    using say_ok [OF assms(1,2)] by blast
  obtain c2 where c2: "say env INFO (''Unlinking socket file '' @ UNIX_SOCKET_PATH @ ''...'') (s\<lparr>cli_log := c1\<rparr>) = Some (s\<lparr>cli_log := c2\<rparr>)"
    "log_ok (s\<lparr>cli_log := c2\<rparr>)" using say_ok [OF c1(2) assms(2)] by fastforce
  obtain c3 where c3: "(if ?sub then say env INFO ''Finalized subnet activity resources.'' (s\<lparr>cli_log := c2\<rparr>) else Some (s\<lparr>cli_log := c2\<rparr>)) =
      Some (s\<lparr>cli_log := c3\<rparr>)" "log_ok (s\<lparr>cli_log := c3\<rparr>)"
    using say_if_ok [OF c2(2) assms(2), of ?sub] by fastforce
  obtain c4 where "say env NOTICE ''Exiting'' (s\<lparr>cli_log := c3\<rparr>) = Some (s\<lparr>cli_log := c4\<rparr>)"
    using say_ok [OF c3(2) assms(2)] by fastforce
  then show ?thesis using c1(1) c2(1) c3(1) assms(3,4) by (simp add: gather_finish_def Let_def)
qed

end
