(* ===== verification/Collector_Properties.thy ===== *)
theory Collector_Properties
  imports Examples Gather_Main
begin

text \<open>
  The properties of the collector: what a message does, what the clients can and cannot do, and what is
  kept when a period or the program ends. The examples use a small collector: one hash function, one
  question, and libraries that accept everything.
\<close>

section \<open>A small collector\<close>

definition ex_question :: question where
  "ex_question = \<lparr>q_name = Some [119, 119, 119, 46, 88, 46, 110, 108, 46], q_class = 1, q_type = 1\<rparr>"

definition ex_message :: dnstap_message where
  "ex_message = \<lparr>dm_type = 5, dm_query_message = Some [0], dm_query_address = Some [192, 0, 2, 1]\<rparr>"

definition ex_env :: gather_env where
  "ex_env = \<lparr>ge_sha = ex_hash, ge_wire2pkt = (\<lambda>_. Some (Some ex_question)), ge_unpack = (\<lambda>_. Some (Some ex_message)),
     ge_time = (\<lambda>n. 1000 + of_nat n)\<rparr>"

definition ex_fstrm :: "nat fstrm" where
  "ex_fstrm = \<lparr>fs_init = 0, fs_num_content_types = (\<lambda>_. Some 1), fs_content_type = (\<lambda>_ _. Some CONTENT_TYPE),
     fs_match_content_type = (\<lambda>_ c. c = CONTENT_TYPE), fs_decode = (\<lambda>_ b. Some (length b)), fs_encode = (\<lambda>_ _. Some [0]),
     fs_reset = (\<lambda>_. 0), fs_set_type = (\<lambda>_ t. Some t), fs_add_content_type = (\<lambda>c _. Some c),
     fs_get_type = (\<lambda>c. Some c), fs_write = (\<lambda>_. True)\<rparr>"

definition ex_collector_env :: "(nat, nat) collector_env" where
  "ex_collector_env = \<lparr>ce_gather = ex_env, ce_fstrm = ex_fstrm, ce_yajl = ex_yajl [], ce_malloc = (\<lambda>_. True),
     ce_pton4 = (\<lambda>_. None), ce_pton6 = (\<lambda>_. None), ce_fopen = (\<lambda>_. None), ce_config_fs = ex_fs, ce_config_file = [47, 99],
     ce_chdir = (\<lambda>_. True), ce_mmap_ok = True, ce_alloc_ok = True, ce_fork_ok = True, ce_inst_file = True,
     ce_dry_file = True, ce_max_threads = 8, ce_popcount = builtin_popcountll\<rparr>"

definition ex_gather :: "honas_state \<Rightarrow> gather" where
  "ex_gather st = \<lparr>g_remaining_connections = -1, g_aggregate_subnets = False, g_subnet_metadata = sa_zero,
     g_dry_run = False, g_dry_run_data = empty_counters, g_fpr_warning_passed = False, g_state = st,
     g_inst = None, g_config = ex_config, g_listener_enabled = True, g_ticks = 0\<rparr>"

definition ex_collector :: "honas_state \<Rightarrow> collector" where
  "ex_collector st = \<lparr>co_gather = ex_gather st, co_dir = Map.empty, co_inst_log = [], co_dry_log = []\<rparr>"

lemma ex_env_simps [simp]:
  "ge_sha ex_env = ex_hash" "ge_unpack ex_env b = Some (Some ex_message)" "ge_time ex_env n = 1000 + of_nat n"
  by (simp_all add: ex_env_def)

lemma ex_collector_env_simps [simp]:
  "ce_gather ex_collector_env = ex_env" "ce_fstrm ex_collector_env = ex_fstrm" "ce_alloc_ok ex_collector_env"
  "ce_inst_file ex_collector_env" "ce_mmap_ok ex_collector_env" "ce_fork_ok ex_collector_env"
  "ce_max_threads ex_collector_env = 8" "ce_popcount ex_collector_env = builtin_popcountll"
  by (simp_all add: ex_collector_env_def)

lemma ex_collector_simps [simp]:
  "co_gather (ex_collector st) = ex_gather st" "co_dir (ex_collector st) = Map.empty" "g_state (ex_gather st) = st"
  "\<not> g_aggregate_subnets (ex_gather st)" "g_inst (ex_gather st) = None" "g_config (ex_gather st) = ex_config"
  by (simp_all add: ex_collector_def ex_gather_def)

lemma ex_gather_ok: "state_ok st \<Longrightarrow> combinations_ok st \<Longrightarrow> gather_ok (ex_gather st)"
  by (simp add: gather_ok_def inst_ok_def) (simp add: ex_gather_def)

lemma ex_taken: "taken ex_env ex_message = Some ([119, 119, 119, 46, 88, 46, 110, 108, 46], 1)"
  by (simp add: taken_def ex_message_def ex_env_def ex_question_def query_is_valid_dns_type_def relevant_dns_types_def)

lemma ex_name: "name_ok [119, 119, 119, 46, 88, 46, 110, 108, 46] [119, 119, 119, 46, 120, 46, 110, 108]"
  using ex_lookup_ok(3) [of 1] by (simp add: ex_lookup_def)

lemma ex_client: "client_hash (client_address (dm_query_address ex_message)) = Some (uint64_hash [192, 0, 2, 1])"
  by (simp add: ex_message_def client_address_def client_hash_def)


lemma ex_libraries: "libraries_ok ex_env"
  using ex_hash_sha by (auto simp: libraries_ok_def ex_env_def ex_question_def)

lemma ex_not_fatal: "\<not> fatal_message ex_env ex_message"
  using ex_client ex_name by (auto simp: fatal_message_def ex_taken name_fits_iff)

lemma ex_frame_ok: "length b \<le> 4096 \<Longrightarrow> \<not> fatal_frame ex_env b"
  using ex_not_fatal by (simp add: fatal_frame_def)

section \<open>Messages\<close>




text \<open>
  C12. A message that the collector does not take changes nothing at all but two counters: it is
  counted, and it is counted as skipped when it is not a query of a client or its bytes are no DNS packet.
\<close>

theorem other_messages_change_nothing:
  assumes "taken env m = None"
  shows "decode_dnstap_message env now m g = Some (\<not> undecodable env m,
    g\<lparr>g_inst := map_option (\<lambda>i. i\<lparr>n_processed_queries := n_processed_queries i + 1,
      n_skipped_queries := n_skipped_queries i + (if undecodable env m then 1 else 0)\<rparr>) (g_inst g)\<rparr>)"
  using assms unfolding decode_eq
  by (cases "g_inst g") (simp_all add: instrumentation_increment_processed_def instrumentation_increment_skipped_def)

theorem other_messages_change_nothing_witness:
  "\<exists>st g'. state_ok st \<and> decode_dnstap_message ex_env 1000 (ex_message\<lparr>dm_type := 6\<rparr>) (ex_gather st) = Some (False, g') \<and>
    g_state g' = st"
proof -
  obtain st where st: "state_ok st" using ex_state [of 2] by auto
  have t: "taken ex_env (ex_message\<lparr>dm_type := 6\<rparr>) = None" "undecodable ex_env (ex_message\<lparr>dm_type := 6\<rparr>)"
    by (simp_all add: taken_def undecodable_def)
  from other_messages_change_nothing [OF t(1), of 1000 "ex_gather st"] t(2) obtain g'
    where "decode_dnstap_message ex_env 1000 (ex_message\<lparr>dm_type := 6\<rparr>) (ex_gather st) = Some (False, g')" "g_state g' = st"
    by auto
  with st show ?thesis by blast
qed

text \<open>
  C13. A query that is taken but whose message has no address, or one of neither four nor sixteen bytes,
  ends the collector, whatever its state.
\<close>

theorem missing_address_aborts:
  assumes "taken env m = Some (hostname, qtype)"
    and "\<And>a. dm_query_address m = Some a \<Longrightarrow> length a \<noteq> 4 \<and> length a \<noteq> 16"
  shows "decode_dnstap_message env now m g = None"
  by (rule decode_no_address [OF assms])

theorem missing_address_aborts_witness:
  "\<forall>g. decode_dnstap_message ex_env 1000 (ex_message\<lparr>dm_query_address := None\<rparr>) g = None"
proof
  fix g
  have t: "taken ex_env (ex_message\<lparr>dm_query_address := None\<rparr>) = Some ([119, 119, 119, 46, 88, 46, 110, 108, 46], 1)"
    by (simp add: taken_def ex_message_def ex_env_def ex_question_def query_is_valid_dns_type_def relevant_dns_types_def)
  show "decode_dnstap_message ex_env 1000 (ex_message\<lparr>dm_query_address := None\<rparr>) g = None"
    by (rule missing_address_aborts [OF t]) simp
qed

section \<open>Connections\<close>



lemma process_messages_ok:
  assumes "libraries_ok env" "\<forall>p \<in> set ps. \<not> fatal_frame env (data_frame p)"
  shows "gather_ok g \<Longrightarrow> \<exists>g'. process_messages env ps g = Some g' \<and> gather_ok g' \<and> grows (g_state g) (g_state g')"
  using assms(2)
proof (induction ps arbitrary: g)
  case (Cons p ps)
  have "\<not> fatal_message env m" if "ge_unpack env (data_frame p) = Some (Some m)" for m
    using Cons.prems(2) that by (simp add: fatal_frame_def)
  from process_message_ok [OF assms(1) Cons.prems(1) this]
  obtain h where h: "process_message env (data_frame p) g = Some h" "gather_ok h" "grows (g_state g) (g_state h)" by blast
  from Cons.IH [OF h(2)] Cons.prems(2) h(1,3) show ?case by (auto intro: grows_trans)
qed simp




text \<open>
  C16. It does not matter in which pieces the bytes of a stream arrive: what one call does with all of
  them, two calls do with the two parts, unless a frame larger than the buffer of the connection begins
  in them.
\<close>

theorem pieces_do_not_matter:
  assumes "cb_read fs env (feed (xs @ ys) conn) g = Some (r, g')" "bytes_skip conn = 0"
    and "\<And>c. r = Some c \<Longrightarrow> bytes_skip c = 0"
  shows "\<exists>r1 g1. cb_read fs env (feed xs conn) g = Some (r1, g1) \<and>
    (case r1 of None \<Rightarrow> r = None \<and> g' = g1 | Some c1 \<Rightarrow> cb_read fs env (feed ys c1) g1 = Some (r, g'))"
proof -
  have f: "feed (xs @ ys) conn = feed ys (feed xs conn)" by (simp add: feed_def)
  have s: "bytes_skip (feed xs conn) = 0" using assms(2) by simp
  obtain r1 g1 where r: "cb_read fs env (feed xs conn) g = Some (r1, g1)"
    "case r1 of None \<Rightarrow> r = None \<and> g' = g1
     | Some c1 \<Rightarrow> bytes_skip c1 = 0 \<and> cb_read fs env (feed ys c1) g1 = Some (r, g')"
    using cb_read_fragments [OF assms(1) [unfolded f] s assms(3)] by blast
  from r(2) have "case r1 of None \<Rightarrow> r = None \<and> g' = g1 | Some c1 \<Rightarrow> cb_read fs env (feed ys c1) g1 = Some (r, g')"
    by (cases r1) simp_all
  with r(1) show ?thesis by blast
qed

theorem pieces_do_not_matter_witness:
  "\<exists>st c c1 g1 g'. cb_read ex_fstrm ex_env (feed ([0, 0, 0] @ [1, 9]) (conn_init ex_fstrm)) (ex_gather st) = Some (Some c, g') \<and>
    cb_read ex_fstrm ex_env (feed [0, 0, 0] (conn_init ex_fstrm)) (ex_gather st) = Some (Some c1, g1) \<and>
    cb_read ex_fstrm ex_env (feed [1, 9] c1) g1 = Some (Some c, g')"
proof -
  obtain st where st: "state_ok st" "combinations_ok st" using ex_state [of 2] by auto
  let ?c = "feed ([0, 0, 0] @ [1, 9]) (conn_init ex_fstrm)"
  obtain g' where m: "process_messages ex_env [[9]] (ex_gather st) = Some g'"
    using process_messages_ok [OF ex_libraries, of "[[9]]", OF _ ex_gather_ok [OF st]] ex_frame_ok [of "data_frame [9]"]
    by (auto simp: length_data_frame)
  have i: "ev_input ?c = concat (map data_frame [[9]])" "bytes_skip ?c = 0"
    by (simp_all add: conn_init_def data_frame_def be32_def)
  obtain c where c: "cb_read ex_fstrm ex_env ?c (ex_gather st) = Some (Some c, g')" "bytes_skip c = 0"
    using cb_read_frames [OF _ i m, of ex_fstrm] by auto
  have s: "bytes_skip (conn_init ex_fstrm) = 0" by (simp add: conn_init_def)
  obtain r1 g1 where r: "cb_read ex_fstrm ex_env (feed [0, 0, 0] (conn_init ex_fstrm)) (ex_gather st) = Some (r1, g1)"
    "case r1 of None \<Rightarrow> Some c = None \<and> g' = g1 | Some c1 \<Rightarrow> cb_read ex_fstrm ex_env (feed [1, 9] c1) g1 = Some (Some c, g')"
    using pieces_do_not_matter [OF c(1) s] c(2) by blast
  from r(2) obtain c1 where "r1 = Some c1" "cb_read ex_fstrm ex_env (feed [1, 9] c1) g1 = Some (Some c, g')"
    by (cases r1) auto
  with c(1) r(1) show ?thesis by blast
qed

lemma ntohl_be32_any:
  assumes "n < 2 ^ 32"
  shows "ntohl (be32 n) = n"
proof -
  have d: "n div 65536 = n div 256 div 256" "n div 16777216 = n div 256 div 256 div 256"
    by (simp_all add: div_mult2_eq [symmetric])
  have "n div 256 div 256 div 256 < 256" using assms by (simp add: div_mult2_eq [symmetric] less_mult_imp_div_less)
  then have "ntohl (be32 n) = ((n div 256 div 256 div 256 * 256 + n div 256 div 256 mod 256) * 256 + n div 256 mod 256) * 256 + n mod 256"
    by (simp add: ntohl_def be32_def unat_of_nat take_bit_eq_mod d)
  then show ?thesis by simp
qed

text \<open>
  C17. A data frame whose payload is longer than 4092 bytes is written beyond the end of an array (\<open>None\<close>) as soon
  as it is complete in the buffer of its connection: the frame and its length field do not fit into the
  4096 bytes into which they are copied. Any client can send such a frame.
\<close>

theorem oversized_frame_aborts:
  assumes "bytes_skip conn = 0" "ev_input conn = be32 (length payload) @ payload @ rest"
    and "4092 < length payload" "length payload < 2 ^ 32"
  shows "cb_read fs env conn g = None"
proof -
  have "ntohl (take 4 (ev_input conn)) = length payload" using assms(2) ntohl_be32_any [OF assms(4)] by simp
  from read_large_frame [OF _ this assms(3) _ assms(1)] assms(2) show ?thesis by simp
qed

theorem oversized_frame_aborts_witness:
  "\<forall>g. cb_read ex_fstrm ex_env (feed (be32 5000 @ replicate 5000 0) (conn_init ex_fstrm)) g = None"
  using oversized_frame_aborts [of "feed (be32 5000 @ replicate 5000 0) (conn_init ex_fstrm)" "replicate 5000 0" "[]"]
  by (simp add: conn_init_def)

section \<open>The program\<close>

lemma load_subnets_net: "load_subnets env g = Some g' \<Longrightarrow> g_listener_enabled g' = g_listener_enabled g"
  by (auto simp: load_subnets_def bind_eq_Some_conv)

lemma init_instrumentation_net: "init_instrumentation env g = Some g' \<Longrightarrow> g_listener_enabled g' = g_listener_enabled g"
  by (auto simp: init_instrumentation_def split: prod.splits bool.splits if_splits)

lemma init_dry_run_dumps_net: "init_dry_run_dumps env g = Some g' \<Longrightarrow> g_listener_enabled g' = g_listener_enabled g"
  by (auto simp: init_dry_run_dumps_def bind_eq_Some_conv split: if_splits)

lemma prepare_net:
  assumes "collector_prepare env co = Some co'" "g_listener_enabled (co_gather co)"
  shows "net_ok (co', Map.empty)"
  using assms
  by (auto simp: collector_prepare_def bind_eq_Some_conv net_ok_def split: if_splits
      dest!: load_subnets_net init_instrumentation_net init_dry_run_dumps_net)

lemma open_net:
  assumes "collector_open env aggregate dry_run now dir = Some co"
  shows "g_listener_enabled (co_gather co)"
  using assms by (auto simp: collector_open_def bind_eq_Some_conv Let_def same_net_def dest!: recheck_net split: prod.splits)

lemma start_net:
  assumes "collector_start env aggregate dry_run now dir = Some co"
  shows "net_ok (co, Map.empty)"
  using assms by (auto simp: collector_start_def bind_eq_Some_conv intro: prepare_net dest: open_net)

lemma ex_layout_config: "layout_fits (cfg_number_of_filters ex_config) (cfg_number_of_bits_per_filter ex_config)"
  "0 < cfg_number_of_hashes ex_config" "0 < cfg_number_of_filters_per_user ex_config" "0 < period_length ex_config"
  "unat (period_length ex_config) = 3600" "bloomfilter_path ex_config = Some [47, 98]"
  using ex_layout by (simp_all add: ex_config_def)

lemma ex_load: "load_gather_config ex_collector_env old = Some ex_config"
  using ex_config_read ex_layout_config(6) by (simp add: load_gather_config_def ex_collector_env_def)

lemma ex_sizes: "cfg_number_of_filters ex_config = 3" "cfg_number_of_bits_per_filter ex_config = 64"
  by (simp_all add: ex_config_def)

lemma ex_created:
  "\<exists>st. create_state ex_collector_env ex_config 1000 = Some st \<and> 0 < sint (period_end (header st) - 1000)"
proof -
  obtain st where st: "create_state ex_collector_env ex_config 1000 = Some st" "1000 < period_end (header st)"
    "unat (period_end (header st)) \<le> unat (1000 :: u64) + unat (period_length ex_config)"
    using create_state_ok [OF ex_layout_config(1-4), of ex_collector_env 1000] ex_layout_config(5)
    by (auto simp: ex_collector_env_def)
  let ?e = "period_end (header st)"
  have e: "1000 < unat ?e" "unat ?e \<le> 4600"
    using st(2,3) ex_layout_config(5) by (simp_all add: word_less_nat_alt)
  have "unat (?e - 1000) = unat ?e - 1000" using e(1) by (subst unat_sub) (simp_all add: word_le_nat_alt)
  then have u: "0 < unat (?e - 1000)" "unat (?e - 1000) < 2 ^ 63" using e by simp_all
  have "sint (?e - 1000) = signed_take_bit 63 (int (unat (?e - 1000)))" by (simp add: sint_uint)
  also have "\<dots> = int (unat (?e - 1000))" 
  proof (rule signed_take_bit_int_eq_self)
    have "int (unat (?e - 1000)) < int (2 ^ 63)" using u(2) by (simp only: of_nat_less_iff)
    then show "int (unat (?e - 1000)) < 2 ^ 63" by simp
    show "- (2 ^ 63) \<le> int (unat (?e - 1000))"
      by (rule order_trans [OF _ of_nat_0_le_iff [of "unat (?e - 1000)"]]) simp
  qed
  finally have s: "sint (?e - 1000) = int (unat (?e - 1000))" .
  have "0 < sint (?e - 1000)" unfolding s using u(1) by (simp only: of_nat_0_less_iff)
  with st(1) show ?thesis by blast
qed

lemma ex_start: "\<exists>co. collector_start ex_collector_env False False 1000 Map.empty = Some co"
proof -
  obtain st where st: "create_state ex_collector_env ex_config 1000 = Some st" "0 < sint (period_end (header st) - 1000)"
    using ex_created by blast
  have l: "load_gather_config ex_collector_env honas_gather_config_init = Some ex_config" by (rule ex_load)
  show ?thesis
    using st l config_valid_finalize [OF ex_config_valid]
    by (simp add: recheck_early collector_start_def collector_open_def collector_prepare_def try_open_active_state_def Let_def init_instrumentation_def instrumentation_initialize_def)
qed

text \<open>
  C18. From the start of the program on, whatever its clients and its timers do, the number of remaining
  connections is minus one less the connections that are open: a connection is given back exactly
  once, and the listener is never switched off. There is no limit to the connections.
\<close>

theorem connections_are_counted:
  assumes "collector_start env aggregate dry_run now dir = Some co"
    and "collector_reachable env (co, Map.empty) (co', conns)"
  shows "finite (dom conns) \<and> g_listener_enabled (co_gather co') \<and>
    g_remaining_connections (co_gather co') = -1 - int (card (dom conns))"
  using collector_reachable_net [OF assms(2) start_net [OF assms(1)]] by (simp add: net_ok_def)

theorem connections_are_counted_witness:
  "\<exists>co co' conns. collector_start ex_collector_env False False 1000 Map.empty = Some co \<and>
    collector_reachable ex_collector_env (co, Map.empty) (co', conns) \<and> conns 7 \<noteq> None \<and>
    g_remaining_connections (co_gather co') = -2"
proof -
  obtain co where co: "collector_start ex_collector_env False False 1000 Map.empty = Some co" using ex_start by blast
  have "g_listener_enabled (co_gather co)"
    using connections_are_counted [OF co collector_reachable.start] by simp
  obtain r g where a: "cb_accept_conn ex_fstrm True (co_gather co) = (r, g)" by fastforce
  obtain c where r: "r = Some c" using a by (auto simp: cb_accept_conn_def Let_def)
  let ?conns = "Map.empty(7 := r)"
  have "client_step ex_collector_env (co, Map.empty) (set_gather g co, ?conns)"
    using a \<open>g_listener_enabled (co_gather co)\<close> by (intro client_step.accept) simp_all
  then have "collector_reachable ex_collector_env (co, Map.empty) (set_gather g co, ?conns)"
    by (blast intro: collector_reachable.intros collector_step.client)
  with connections_are_counted [OF co this] co r show ?thesis
    by (intro exI [of _ co] exI [of _ "set_gather g co"] exI [of _ ?conns]) simp
qed

lemma persist_load_checks:
  assumes "created_state n bits st" "hlls_usable st"
  shows "\<exists>st' content loaded. honas_state_persist 8 builtin_popcountll st = Some (st', content) \<and>
    honas_state_load True (Some content) = Some (0, Some loaded) \<and> created_state n bits loaded \<and> hlls_usable loaded \<and>
    (\<forall>hash cnt. sha_hash hash \<longrightarrow> honas_state_check_host_name_lookups st hash None = Some (cnt, None) \<longrightarrow>
      (\<exists>cnt' \<ge> cnt. honas_state_check_host_name_lookups loaded hash None = Some (cnt', None)))"
proof -
  obtain st' content loaded where p: "honas_state_persist 8 builtin_popcountll st = Some (st', content)"
    "honas_state_load True (Some content) = Some (0, Some loaded)" "created_state n bits loaded" "hlls_usable loaded"
    "\<forall>hash. hit_filters st hash \<subseteq> hit_filters loaded hash"
    using persist_load [OF _ popcountll_correct assms] by auto
  have "\<exists>cnt' \<ge> cnt. honas_state_check_host_name_lookups loaded hash None = Some (cnt', None)"
    if "sha_hash hash" "honas_state_check_host_name_lookups st hash None = Some (cnt, None)" for hash cnt
    using that p(5) by (intro check_mono [OF created_filters_ok [OF assms(1)] created_filters_ok [OF p(3)]]) auto
  with p show ?thesis by blast
qed

text \<open>
  C19. When a period is over, its state is stored under the name of the period's end (not of its begin, as the
  README says), in which every hash is found in at least as many filters as before; the configuration is
  read again, and a new, usable state begins now and ends at the next multiple of the length of a
  period. If a file of that name exists, no file is written and the old period is lost. When subnets are
  aggregated, and loading them returns, the table is the one that is loaded from the new configuration.
\<close>

theorem rotation_stores_and_renews:
  assumes "sint (period_end (header (g_state (co_gather co))) - now) \<le> 0"
    and "period_file_name (period_end (header (g_state (co_gather co)))) = Some name"
    and "created_state n bits (g_state (co_gather co))" "hlls_usable (g_state (co_gather co))"
    and "ce_mmap_ok env" "ce_alloc_ok env" "ce_fork_ok env" "ce_max_threads env = 8" "ce_popcount env = builtin_popcountll"
    and "load_gather_config env (g_config (co_gather co)) = Some config"
    and "layout_fits (cfg_number_of_filters config) (cfg_number_of_bits_per_filter config)" "0 < cfg_number_of_hashes config"
      "0 < cfg_number_of_filters_per_user config" "0 < period_length config"
    and "unat now + unat (period_length config) < 2 ^ 64"
    and "g_aggregate_subnets (co_gather co) \<longrightarrow>
      subnet_activity_initialize (ce_yajl env) (ce_malloc env) (ce_pton4 env) (ce_pton6 env) (ce_fopen env)
        (subnet_activity_path config) = Some (code, sa)"
  shows "\<exists>co' content loaded. recheck_handler env now co = Some co' \<and>
    co_dir co' = (if co_dir co name = None then (co_dir co)(name \<mapsto> content) else co_dir co) \<and>
    honas_state_load True (Some content) = Some (0, Some loaded) \<and>
    (\<forall>hash cnt. sha_hash hash \<longrightarrow>
      honas_state_check_host_name_lookups (g_state (co_gather co)) hash None = Some (cnt, None) \<longrightarrow>
      (\<exists>cnt' \<ge> cnt. honas_state_check_host_name_lookups loaded hash None = Some (cnt', None))) \<and>
    state_ok (g_state (co_gather co')) \<and>
    period_begin (header (g_state (co_gather co'))) = now \<and> now < period_end (header (g_state (co_gather co'))) \<and>
    unat (period_end (header (g_state (co_gather co')))) mod unat (period_length config) = 0 \<and>
    g_config (co_gather co') = config \<and>
    g_subnet_metadata (co_gather co') = (if g_aggregate_subnets (co_gather co) then sa else g_subnet_metadata (co_gather co))"
proof -
  obtain st' content loaded where p: "honas_state_persist 8 builtin_popcountll (g_state (co_gather co)) = Some (st', content)"
    "honas_state_load True (Some content) = Some (0, Some loaded)"
    "\<forall>hash cnt. sha_hash hash \<longrightarrow>
      honas_state_check_host_name_lookups (g_state (co_gather co)) hash None = Some (cnt, None) \<longrightarrow>
      (\<exists>cnt' \<ge> cnt. honas_state_check_host_name_lookups loaded hash None = Some (cnt', None))"
    using persist_load_checks [OF assms(3,4)] by (elim exE conjE)
  obtain st where st: "create_state env config now = Some st" "state_ok st" "period_begin (header st) = now"
    "now < period_end (header st)" "unat (period_end (header st)) mod unat (period_length config) = 0"
    using create_state_ok [OF assms(11-14) assms(5,6) assms(15)] by (elim exE conjE) (erule (4) that)
  let ?dir = "if co_dir co name = None then (co_dir co)(name \<mapsto> content) else co_dir co"
  let ?sa = "if g_aggregate_subnets (co_gather co) then sa else g_subnet_metadata (co_gather co)"
  let ?g = "(co_gather co)\<lparr>g_state := st, g_config := config, g_fpr_warning_passed := False, g_subnet_metadata := ?sa\<rparr>"
  have "finalize_state env (g_state (co_gather co)) (co_dir co) = Some (honas_state_destroy (g_state (co_gather co)), ?dir)"
    using p(1) assms(2,7,8,9) by (simp add: finalize_state_def persist_to_def link_file_def)
  then have "recheck_handler env now co = Some (co\<lparr>co_gather := ?g, co_dir := ?dir\<rparr>)"
    using assms(1,10,16) st(1) by (auto simp: recheck_handler_def Let_def load_subnets_def subnet_activity_destroy_def)
  moreover define co' where "co' = co\<lparr>co_gather := ?g, co_dir := ?dir\<rparr>"
  ultimately have r: "recheck_handler env now co = Some co'" by simp
  have co': "co_dir co' = ?dir" "g_state (co_gather co') = st" "g_config (co_gather co') = config"
    "g_subnet_metadata (co_gather co') = ?sa" by (simp_all add: co'_def)
  show ?thesis
    by (rule exI [of _ co'], rule exI [of _ content], rule exI [of _ loaded], unfold co') (intro conjI r p st refl)
qed

lemma ex_period_name: "period_file_name 3600 = Some (to_bytes ''1970-01-01T01:00:00.hs'')"
  by (simp add: period_file_name_def civil_year.simps year_days_def leap_year_def month_days_def digits4_def digits2_def
      to_bytes_def)

theorem rotation_stores_and_renews_witness:
  "\<exists>st co' content. create_state ex_collector_env ex_config 1000 = Some st \<and>
    recheck_handler ex_collector_env 3600 (ex_collector st) = Some co' \<and>
    co_dir co' (to_bytes ''1970-01-01T01:00:00.hs'') = Some content \<and>
    period_begin (header (g_state (co_gather co'))) = 3600"
proof -
  have f: "unat (1000 :: u64) + unat (period_length ex_config) < 2 ^ 64" using ex_layout_config(5) by simp
  obtain st where st: "create_state ex_collector_env ex_config 1000 = Some st" "created_state 3 64 st" "state_ok st"
    "1000 < period_end (header st)" "unat (period_end (header st)) \<le> unat (1000 :: u64) + unat (period_length ex_config)"
    "unat (period_end (header st)) mod unat (period_length ex_config) = 0"
    using create_state_ok [OF ex_layout_config(1-4) ex_collector_env_simps(5,3) f, unfolded ex_sizes]
    by (elim exE conjE) (erule (5) that)
  have b: "1000 < unat (period_end (header st))" "unat (period_end (header st)) \<le> 4600"
    "unat (period_end (header st)) mod 3600 = 0"
    using st(4-6) ex_layout_config(5) by (simp_all add: word_less_nat_alt)
  obtain k where k: "unat (period_end (header st)) = 3600 * k" using mod_0_imp_dvd [OF b(3)] by (rule dvdE)
  have "k = 1" using b(1,2) unfolding k by linarith
  then have "unat (period_end (header st)) = 3600" using k by simp
  then have e: "period_end (header st) = 3600" by (simp add: word_unat_eq_iff)
  have u: "hlls_usable st" using st(2,3) by (intro state_ok_usable) (simp_all add: state_ok_def)
  have late: "sint (period_end (header (g_state (co_gather (ex_collector st)))) - 3600) \<le> 0" using e by simp
  have name: "period_file_name (period_end (header (g_state (co_gather (ex_collector st))))) =
      Some (to_bytes ''1970-01-01T01:00:00.hs'')" using e ex_period_name by simp
  have c: "created_state 3 64 (g_state (co_gather (ex_collector st)))" "hlls_usable (g_state (co_gather (ex_collector st)))"
    using st(2) u by simp_all
  have f': "unat (3600 :: u64) + unat (period_length ex_config) < 2 ^ 64" using ex_layout_config(5) by simp
  have agg: "g_aggregate_subnets (co_gather (ex_collector st)) \<longrightarrow>
      subnet_activity_initialize (ce_yajl ex_collector_env) (ce_malloc ex_collector_env) (ce_pton4 ex_collector_env)
        (ce_pton6 ex_collector_env) (ce_fopen ex_collector_env) (subnet_activity_path ex_config) = Some (SA_OK, sa_zero)" by simp
  obtain co' content where r: "recheck_handler ex_collector_env 3600 (ex_collector st) = Some co'"
    "co_dir co' = (if co_dir (ex_collector st) (to_bytes ''1970-01-01T01:00:00.hs'') = None
       then (co_dir (ex_collector st))(to_bytes ''1970-01-01T01:00:00.hs'' \<mapsto> content) else co_dir (ex_collector st))"
    "period_begin (header (g_state (co_gather co'))) = 3600"
    using rotation_stores_and_renews [where co = "ex_collector st", OF late name c ex_collector_env_simps(5,3,6-8)
      ex_load ex_layout_config(1-4) f' agg] by (elim exE conjE)
  then have "co_dir co' (to_bytes ''1970-01-01T01:00:00.hs'') = Some content" by simp
  with st(1) r(1,3) show ?thesis by blast
qed

text \<open>
  C20. What is registered survives a restart: the state that the program stores at its end is loaded and
  removed at the next start, and finds every hash in at least as many filters as before.
\<close>

theorem restart_keeps_names:
  assumes "ce_max_threads env = 8" "ce_popcount env = builtin_popcountll" "ce_alloc_ok env"
    and "created_state n bits st" "hlls_usable st" "dir active_state_file_name = None"
  shows "\<exists>st' dir' st''. close_state env st dir = Some (st', dir') \<and>
    try_open_active_state env dir' = Some (Some st'', dir) \<and> created_state n bits st'' \<and> hlls_usable st'' \<and>
    (\<forall>hash cnt. sha_hash hash \<longrightarrow> honas_state_check_host_name_lookups st hash None = Some (cnt, None) \<longrightarrow>
      (\<exists>cnt' \<ge> cnt. honas_state_check_host_name_lookups st'' hash None = Some (cnt', None)))"
proof -
  obtain st' dir' st'' where r: "close_state env st dir = Some (st', dir')"
    "try_open_active_state env dir' = Some (Some st'', dir)" "created_state n bits st''" "hlls_usable st''"
    "\<forall>hash. hit_filters st hash \<subseteq> hit_filters st'' hash"
    using restart_keeps [where dir = dir, OF assms] by blast
  have "\<exists>cnt' \<ge> cnt. honas_state_check_host_name_lookups st'' hash None = Some (cnt', None)"
    if "sha_hash hash" "honas_state_check_host_name_lookups st hash None = Some (cnt, None)" for hash cnt
    using that r(5) by (intro check_mono [OF created_filters_ok [OF assms(4)] created_filters_ok [OF r(3)]]) auto
  with r(1-4) show ?thesis by blast
qed

theorem restart_keeps_names_witness:
  "\<exists>st st' dir st''. created_state 3 64 st \<and> close_state ex_collector_env st Map.empty = Some (st', dir) \<and>
    try_open_active_state ex_collector_env dir = Some (Some st'', Map.empty)"
proof -
  obtain st where st: "created_state 3 64 st" "hlls_usable st" using ex_state [of 2] by auto
  from restart_keeps_names [of ex_collector_env, OF _ _ _ st, of Map.empty] st(1) show ?thesis by fastforce
qed

section \<open>The start\<close>

definition ex_start_env :: start_env where
  "ex_start_env = \<lparr>default_config = ''/c'', fork_result = 0, sigemptyset_ok = True, sigaction_ok = (\<lambda>_. True),
     initial_dir_ok = True, event_base_ok = True, listener_ok = False, dispatch_result = 0\<rparr>"

definition ex_cli_env :: cli_env where
  "ex_cli_env = \<lparr>log_level_env = None, prog_version = ''1'', errno_text = ''Error''\<rparr>"

text \<open>
  C40. When the program comes to set up its socket, the state that was kept from the last run is loaded and its
  file removed; what was registered there is in no file any more. Without the socket the program
  ends with the code one. With it, it can still die before its loop, when a part of it cannot be set up (\<open>None\<close>, as for a
  list of subnets that overflows its arrays). In both cases the state is lost. This is so for all
  command lines that are accepted, when the period of the state is not over. Every other start that ends
  with an exit code before the loop leaves the files as they are.
\<close>

theorem failed_start_loses_state:
  assumes "gather_begin start env args = Some (Continue s)" "log_level_env env = None"
    and "setup_signal_handlers start" "initial_dir_ok start"
    and "cenv' = cenv\<lparr>ce_config_file := to_bytes (config_file s)\<rparr>"
    and "load_gather_config cenv' honas_gather_config_init = Some config" "honas_gather_config_finalize config = Some config'"
    and "dir active_state_file_name = Some content"
      "honas_state_load (ce_alloc_ok cenv) (Some content) = Some (0, Some st)" "0 < sint (period_end (header st) - now)"
  shows "\<exists>co. collector_open cenv' (aggregate_mode s) (dry_run_mode s) now dir = Some co \<and>
      co_dir co = dir(active_state_file_name := None) \<and> g_state (co_gather co) = st \<and>
      (\<not> init_dnstap_input start \<longrightarrow>
        (\<exists>s'. gather_main cenv start env args now dir = Some (s', Ended 1 (dir(active_state_file_name := None))))) \<and>
      (init_dnstap_input start \<and> collector_prepare cenv' co = None \<longrightarrow> gather_main cenv start env args now dir = None) \<and>
      (\<forall>start' args' s' code dir'. init_dnstap_input start' \<longrightarrow>
        gather_main cenv start' env args' now dir = Some (s', Ended code dir') \<longrightarrow> dir' = dir)"
proof -
  have "try_open_active_state cenv' dir = Some (Some st, dir(active_state_file_name := None))"
    using assms(5,8,9) by (simp add: try_open_active_state_def)
  then obtain co where co: "collector_open cenv' (aggregate_mode s) (dry_run_mode s) now dir = Some co"
      "co_dir co = dir(active_state_file_name := None)" "g_state (co_gather co) = st"
    using assms(6,7,10) by (simp add: collector_open_def recheck_early Let_def)
  note failed = failed_socket [OF assms(1-4) _ co(1) [unfolded assms(5)]] failed_prepare [OF assms(1) assms(3,4) _ co(1) [unfolded assms(5)]]
  show ?thesis
    by (rule exI [of _ co]) (use co failed ended_keeps_files assms(5) in metis)
qed

lemma ex_begin: "gather_begin ex_start_env ex_cli_env [] = Some (Continue (gather_initial ex_start_env))"
  by (simp add: gather_begin_def gather_initial_def)

theorem failed_start_loses_state_witness:
  "\<exists>st st' dir s' now. create_state ex_collector_env ex_config 1000 = Some st \<and>
    close_state ex_collector_env st Map.empty = Some (st', dir) \<and> dir active_state_file_name \<noteq> None \<and>
    gather_main ex_collector_env ex_start_env ex_cli_env [] now dir = Some (s', Ended 1 Map.empty)"
proof -
  obtain st where st: "create_state ex_collector_env ex_config 1000 = Some st" "created_state 3 64 st" "state_ok st"
    using create_state_ok [OF ex_layout_config(1-4), of ex_collector_env 1000] ex_layout_config(5) ex_sizes by auto
  have u: "hlls_usable st" using st(2,3) by (intro state_ok_usable) (simp_all add: state_ok_def)
  obtain st' dir st'' where c: "close_state ex_collector_env st Map.empty = Some (st', dir)"
    "try_open_active_state ex_collector_env dir = Some (Some st'', Map.empty)"
    using restart_keeps [where dir = Map.empty and env = ex_collector_env, OF _ _ _ st(2) u] by auto
  then obtain content where l: "dir active_state_file_name = Some content" "honas_state_load True (Some content) = Some (0, Some st'')"
    "dir(active_state_file_name := None) = Map.empty"
    by (auto simp: try_open_active_state_def bind_eq_Some_conv split: option.splits if_splits)
  let ?s = "gather_initial ex_start_env"
  have "to_bytes (config_file ?s) = [47, 99]" by (simp add: gather_initial_def ex_start_env_def to_bytes_def)
  then have e: "ex_collector_env\<lparr>ce_config_file := to_bytes (config_file ?s)\<rparr> = ex_collector_env" by (simp add: ex_collector_env_def)
  have t: "0 < sint (period_end (header st'') - (period_end (header st'') - 1))" by simp
  have "\<exists>s'. gather_main ex_collector_env ex_start_env ex_cli_env [] (period_end (header st'') - 1) dir = Some (s', Ended 1 Map.empty)"
  proof -
    have "setup_signal_handlers ex_start_env" "initial_dir_ok ex_start_env" "\<not> init_dnstap_input ex_start_env" "log_level_env ex_cli_env = None"
      by (simp_all add: ex_cli_env_def ex_start_env_def setup_signal_handlers_def init_dnstap_input_def)
    moreover have "honas_state_load (ce_alloc_ok ex_collector_env) (Some content) = Some (0, Some st'')" using l(2) by simp
    ultimately show ?thesis
      using failed_start_loses_state [where cenv = ex_collector_env and now = "period_end (header st'') - 1" and dir = dir
          and content = content and st = st'' and config = ex_config and config' = ex_config, OF ex_begin _ _ _ e [symmetric] ex_load]
        config_valid_finalize [OF ex_config_valid] l(1,3) t by metis
  qed
  with st(1) c(1) l(1) show ?thesis by blast
qed

end
