(* ===== verification/Tool_Properties.thy ===== *)
theory Tool_Properties
  imports Examples Tools
begin

text \<open>The properties of the programs that read the stored states: searching, combining, printing.\<close>

section \<open>Searching\<close>

text \<open>
  C21. Let a job be a list of groups, each with its id first and then its host names, which the printer accepts, each with a
  text of at most 1024 bytes that is no hexadecimal number (such a name is skipped) or one of 32 bytes. A search in a stored
  state writes exactly the document \<open>result_json\<close>: the general members, and one object for each group in which
  a host name has a hit, with the hits of its names and of all of them together. These are the rules of the
  code, not all those of the README: the results are flattened by the estimated number of host names, and
  without flattening a name with fewer hits than filters per user is printed too. The text is JSON by RFC 8259 if no
  name holds a quote, a backslash or a slash. A name whose hash is in as many filters as there are filters per
  user, as each registered one is, is always among the names, also when the results are flattened.
\<close>

theorem search_prints_result:
  assumes "honas_state_load True content = Some (0, Some st)" "env_ok (env\<lparr>env_state := st\<rparr>)" "job_valid gs"
    and "length stack = 32" "y_alloc y = Some h"
    and "block_events y h (blocks 65536 job) = Some (job_events gs, h')" "y_complete y h' = ([], h'', True)"
    and "flat = (estimated_number_of_host_names (header st) < threshold)"
  shows "honas_search y env True threshold content job stack =
      Some (json_text (result_json (env\<lparr>env_state := st\<rparr>) flat gs)) \<and>
    (job_clean (env\<lparr>env_state := st\<rparr>) gs \<longrightarrow>
      honas_search y env True threshold content job stack = Some (rfc_text (result_json (env\<lparr>env_state := st\<rparr>) flat gs))) \<and>
    (\<forall>g \<in> set gs. \<forall>d \<in> set (looked_up (snd g)).
       0 < number_of_filters_per_user (header st) \<longrightarrow>
       unat (number_of_filters_per_user (header st)) \<le> card (hit_filters st (snd d)) \<longrightarrow>
       d \<in> set (found (env\<lparr>env_state := st\<rparr>) flat (looked_up (snd g))))"
proof -
  have eq: "honas_search y env True threshold content job stack =
      Some (json_text (result_json (env\<lparr>env_state := st\<rparr>) flat gs))"
    using perform_search_job_eq [OF assms(2-7), of threshold "[]"] assms(1,8) by (simp add: honas_search_def)
  have "\<forall>g \<in> set gs. \<forall>d \<in> set (looked_up (snd g)).
       0 < number_of_filters_per_user (header st) \<longrightarrow>
       unat (number_of_filters_per_user (header st)) \<le> card (hit_filters st (snd d)) \<longrightarrow>
       d \<in> set (found (env\<lparr>env_state := st\<rparr>) flat (looked_up (snd g)))"
    by (auto simp: found_def hits_of_def flatten_hits_def word_less_nat_alt)
  then show ?thesis using eq result_text_standard [OF assms(2,3), of flat] by simp
qed

lemma created_env_ok:
  assumes "created_state n bits st"
  shows "env_ok \<lparr>env_state = st, env_version = [49], env_fixed10 = (\<lambda>_. [48]), env_group_addr = 0, env_host_addr = 0,
    env_popcount_size = 8, env_popcount = builtin_popcountll\<rparr>"
proof -
  note f = created_filters_ok [OF assms] and r = header_room [OF assms]
  have "view_ok st (HEADER_SIZE + 4 * i, 4)" if "i < length (filters st)" for i
  proof -
    have m: "filters st ! i \<in> set (filters st)" using that by simp
    have "HEADER_SIZE + 4 * length (filters st) \<le> fst (filters st ! i)" using r(2) m by blast
    moreover have "fst (filters st ! i) + snd (filters st ! i) \<le> length (mmap st)"
      using f m by (auto simp: filters_ok_def view_ok_def)
    ultimately show ?thesis using that by (simp add: view_ok_def)
  qed
  then show ?thesis
    using f popcountll_correct by (simp add: env_ok_def printable_plain plain_def)
qed

definition ex_search_env :: "honas_state \<Rightarrow> search_env" where
  "ex_search_env st = \<lparr>env_state = st, env_version = [49], env_fixed10 = (\<lambda>_. [48]), env_group_addr = 0, env_host_addr = 0,
    env_popcount_size = 8, env_popcount = builtin_popcountll\<rparr>"

lemma ex_search_env_simps [simp]: "env_state (ex_search_env st) = st" "(ex_search_env s)\<lparr>env_state := st\<rparr> = ex_search_env st"
  by (simp_all add: ex_search_env_def)

lemma ex_persisted:
  "\<exists>st st' content loaded. honas_state_create True True 3 64 2 2 1 = Some (0, Some st) \<and> created_state 3 64 st \<and> hlls_usable st \<and>
    honas_state_persist 8 builtin_popcountll st = Some (st', content) \<and>
    honas_state_load True (Some content) = Some (0, Some loaded) \<and> created_state 3 64 loaded"
proof -
  obtain st where "honas_state_create True True 3 64 2 2 1 = Some (0, Some st)" "created_state 3 64 st" "hlls_usable st"
    using ex_state [of 2] by auto
  with persist_load [OF _ popcountll_correct this(2,3)] show ?thesis by fastforce
qed

lemma decode_zeros: "decode_string_hex (replicate (2 * n) 48) n = Some (replicate n 0)"
proof -
  have "decode_pairs (replicate (2 * n) 48) = Some (replicate n 0)"
    by (induction n) (simp_all add: decode_nibble_def)
  then show ?thesis by (simp add: decode_string_hex_def)
qed

theorem search_prints_result_witness:
  "\<exists>st st' content loaded. honas_state_create True True 3 64 2 2 1 = Some (0, Some st) \<and>
    honas_state_persist 8 builtin_popcountll st = Some (st', content) \<and>
    honas_state_load True (Some content) = Some (0, Some loaded) \<and>
    honas_search (ex_yajl (job_events [(7, [([97], replicate 64 48)])])) (ex_search_env st) True 5 (Some content) [32] (replicate 32 0) =
      Some (json_text (result_json (ex_search_env loaded) (estimated_number_of_host_names (header loaded) < 5)
        [(7, [([97], replicate 64 48)])]))"
proof -
  let ?gs = "[(7, [([97], replicate 64 48)])] :: search_group list"
  obtain st st' content loaded where s: "honas_state_create True True 3 64 2 2 1 = Some (0, Some st)"
    "honas_state_persist 8 builtin_popcountll st = Some (st', content)"
    "honas_state_load True (Some content) = Some (0, Some loaded)" "created_state 3 64 loaded"
    using ex_persisted by blast
  have env: "env_ok ((ex_search_env st)\<lparr>env_state := loaded\<rparr>)"
    using created_env_ok [OF s(4)] by (simp add: ex_search_env_def)
  have v: "job_valid ?gs"
    using decode_zeros [of 32] by (simp add: job_valid_def name_valid_def hash_of_def sha_hash_def printable_plain plain_def)
  have "honas_search (ex_yajl (job_events ?gs)) (ex_search_env st) True 5 (Some content) [32] (replicate 32 0) =
      Some (json_text (result_json ((ex_search_env st)\<lparr>env_state := loaded\<rparr>) (estimated_number_of_host_names (header loaded) < 5) ?gs))"
    using search_prints_result [OF s(3) env v length_replicate ex_yajl_simps(1) ex_yajl_events ex_yajl_simps(2) refl] by blast
  with s(1-3) show ?thesis by auto
qed

section \<open>Combining and printing\<close>

text \<open>
  C22. Combining two stored states of the same shape succeeds: the first file then holds a state in which
  every hash is found in at least as many filters as in either of the two, and no other file changes.
\<close>

theorem combine_files_keeps_names:
  assumes "created_state n bits t" "hlls_usable t" "created_state n bits s" "hlls_usable s"
    and "number_of_hashes (header t) = number_of_hashes (header s)"
    and "honas_state_persist 8 builtin_popcountll t = Some (t', ct)" "files dst = Some ct"
    and "honas_state_persist 8 builtin_popcountll s = Some (s', cs)" "files src = Some cs"
  shows "\<exists>content r. honas_combine 8 builtin_popcountll True dst src files = Some (0, files(dst \<mapsto> content)) \<and>
    honas_state_load True (Some content) = Some (0, Some r) \<and> created_state n bits r \<and>
    (\<forall>hash c d. sha_hash hash \<longrightarrow> honas_state_check_host_name_lookups t hash None = Some (c, None) \<longrightarrow>
      honas_state_check_host_name_lookups s hash None = Some (d, None) \<longrightarrow>
      (\<exists>e. honas_state_check_host_name_lookups r hash None = Some (e, None) \<and> max c d \<le> e))"
proof -
  obtain content r where r: "honas_combine 8 builtin_popcountll True dst src files = Some (0, files(dst \<mapsto> content))"
    "honas_state_load True (Some content) = Some (0, Some r)" "created_state n bits r"
    "\<forall>hash. hit_filters t hash \<union> hit_filters s hash \<subseteq> hit_filters r hash"
    using combine_files [OF assms] by (elim exE conjE)
  note f = created_filters_ok [OF assms(1)] created_filters_ok [OF assms(3)] created_filters_ok [OF r(3)]
  have "\<exists>e. honas_state_check_host_name_lookups r hash None = Some (e, None) \<and> max c d \<le> e"
    if h: "sha_hash hash" "honas_state_check_host_name_lookups t hash None = Some (c, None)"
      "honas_state_check_host_name_lookups s hash None = Some (d, None)" for hash c d
  proof -
    have sub: "hit_filters t hash \<subseteq> hit_filters r hash" "hit_filters s hash \<subseteq> hit_filters r hash" using r(4) by auto
    show ?thesis
      using check_mono [OF f(1,3) h(1) sub(1) h(2)] check_mono [OF f(2,3) h(1) sub(2) h(3)] by fastforce
  qed
  with r(1-3) show ?thesis by blast
qed

theorem combine_files_keeps_names_witness:
  "\<exists>files content. files [97] \<noteq> None \<and> honas_combine 8 builtin_popcountll True [97] [98] files = Some (0, files([97] \<mapsto> content))"
proof -
  obtain st st' c where s: "created_state 3 64 st" "hlls_usable st" "honas_state_persist 8 builtin_popcountll st = Some (st', c)"
    using ex_persisted by blast
  define files where "files = [[97] \<mapsto> c, [98 :: u8] \<mapsto> c]"
  have f: "files [97] = Some c" "files [98] = Some c" by (simp_all add: files_def)
  then have "files [97] \<noteq> None" by simp
  with combine_files_keeps_names [OF s(1,2) s(1,2) refl s(3) f(1) s(3) f(2)] show ?thesis by blast
qed

text \<open>
  C23. For a stored state \<open>honas-info\<close> prints for every filter the number of bits that are set in the
  filter's part of the file.
\<close>

theorem info_prints_true_counts:
  assumes "created_state n bits st" "hlls_usable st"
    and "honas_state_persist 8 builtin_popcountll st = Some (st', content)" "i < unat n"
  shows "\<exists>r est rate fpr. honas_info True version False (Some content) = Some (0, General (show_general_information version r)) \<and>
    (dec_digits (i + 1), Info_Filter (of_nat (card (bits_of (view_bytes content (filters st ! i))))) est rate fpr) \<in>
      set (show_general_information version r)"
proof -
  obtain r est rate fpr where r: "honas_state_load True (Some content) = Some (0, Some r)"
    "filter_information r i = (dec_digits (i + 1),
      Info_Filter (of_nat (card (bits_of (view_bytes content (filters r ! i))))) est rate fpr)"
    using info_counts_bits [OF assms] by blast
  obtain a fl l where p: "honas_state_persist 8 builtin_popcountll st = Some (a, fl)"
    "honas_state_load True (Some fl) = Some (0, Some l)" "created_state n bits l"
    using persist_load [OF _ popcountll_correct assms(1,2)] by auto
  then have c: "created_state n bits r" using assms(3) r(1) by auto
  have "filters r = filters st" "number_of_filters (header r) = n"
    using c assms(1) created_header [OF c] by (simp_all add: created_state_def)
  then have "(dec_digits (i + 1), Info_Filter (of_nat (card (bits_of (view_bytes content (filters st ! i))))) est rate fpr) \<in>
      set (show_general_information version r)"
    using r(2) assms(4) unfolding show_general_information_def Let_def by (auto intro!: image_eqI [where x = i])
  moreover have "honas_info True version False (Some content) = Some (0, General (show_general_information version r))"
    using r(1) by (simp add: honas_info_def)
  ultimately show ?thesis by blast
qed

theorem info_prints_true_counts_witness:
  "\<exists>content r. honas_info True [49] False (Some content) = Some (0, General (show_general_information [49] r))"
proof -
  obtain st st' c where s: "created_state 3 64 st" "hlls_usable st" "honas_state_persist 8 builtin_popcountll st = Some (st', c)"
    using ex_persisted by blast
  have "1 < unat (3 :: u32)" by simp
  from info_prints_true_counts [OF s this, of "[49]"] show ?thesis by blast
qed

end
