(* ===== verification/Inet.thy ===== *)
theory Inet
  imports Net_Prefix Utils Honas_State
begin

text \<open>
  Addresses as text (\<open>src/src/inet.c\<close>). \<open>inet_pton\<close> and \<open>inet_ntop\<close> are parameters: \<open>pton4\<close> and
  \<open>pton6\<close> give the bytes of an address if the text is one, \<open>ntop4\<close> and \<open>ntop6\<close> the text of an address.
  The text that a C string holds is the list of its bytes before the terminating zero. Text that the code
  cuts with a temporary zero byte is the part before it.
\<close>

section \<open>Addresses\<close>

datatype sa_family = AF_UNSPEC | AF_INET | AF_INET6 | AF_other nat

text \<open>The fields of the union do not overlap, apart from the family and the port that all share.\<close>

record sa_in46 =
  sa_af :: sa_family
  sa_port :: u16
  sin_addr :: bytes
  sin6_addr :: bytes

definition htons :: "u16 \<Rightarrow> u16" where
  "htons w = push_bit 8 w OR drop_bit 8 w"

abbreviation (input) ntohs :: "u16 \<Rightarrow> u16" where "ntohs \<equiv> htons"

abbreviation (input) INET6_ADDRSTRLEN :: nat where "INET6_ADDRSTRLEN \<equiv> 46"

text \<open>\<open>[unknown address family]\<close>\<close>

definition unknown_family :: bytes where
  "unknown_family = [91, 117, 110, 107, 110, 111, 119, 110, 32, 97, 100, 100, 114, 101, 115, 115, 32,
     102, 97, 109, 105, 108, 121, 93]"

definition str_addr :: "(bytes \<Rightarrow> bytes) \<Rightarrow> (bytes \<Rightarrow> bytes) \<Rightarrow> sa_in46 \<Rightarrow> bytes" where
  "str_addr ntop4 ntop6 sa = (case sa_af sa of
      AF_INET \<Rightarrow> ntop4 (sin_addr sa)
    | AF_INET6 \<Rightarrow> ntop6 (sin6_addr sa)
    | _ \<Rightarrow> unknown_family)"

text \<open>\<open>snprintf\<close> keeps what fits in the buffer.\<close>

definition str_addr_port :: "(bytes \<Rightarrow> bytes) \<Rightarrow> (bytes \<Rightarrow> bytes) \<Rightarrow> sa_in46 \<Rightarrow> bytes" where
  "str_addr_port ntop4 ntop6 sa =
     (let port = dec_digits (unat (ntohs (sa_port sa))) in
      case sa_af sa of
        AF_INET \<Rightarrow> take (INET6_ADDRSTRLEN + 7) (str_addr ntop4 ntop6 sa @ [58] @ port)
      | AF_INET6 \<Rightarrow> take (INET6_ADDRSTRLEN + 7) ([91] @ str_addr ntop4 ntop6 sa @ [93, 58] @ port)
      | _ \<Rightarrow> unknown_family)"

definition str_in_addr :: "(bytes \<Rightarrow> bytes) \<Rightarrow> (bytes \<Rightarrow> bytes) \<Rightarrow> in_addr46 \<Rightarrow> bytes" where
  "str_in_addr ntop4 ntop6 addr = (case addr of
      Addr4 a \<Rightarrow> ntop4 a
    | Addr6 a \<Rightarrow> ntop6 a
    | Other_Family _ \<Rightarrow> unknown_family)"

section \<open>Parsing addresses\<close>

abbreviation (input) star :: bytes where "star \<equiv> [42]"

definition parse_ip ::
  "(bytes \<Rightarrow> bytes option) \<Rightarrow> (bytes \<Rightarrow> bytes option) \<Rightarrow> bytes \<Rightarrow> sa_in46 \<Rightarrow> bool \<Rightarrow> int \<times> sa_in46" where
  "parse_ip pton4 pton6 txt sa allow_any =
     (if allow_any \<and> txt = star then
        let sa = (if sa_af sa = AF_UNSPEC then sa\<lparr>sa_af := AF_INET6\<rparr> else sa);
            sa = (if sa_af sa = AF_INET then sa\<lparr>sin_addr := replicate 4 0\<rparr>
                  else if sa_af sa = AF_INET6 then sa\<lparr>sin6_addr := replicate 16 0\<rparr> else sa)
        in (0, sa)
      else
        let sa = (if sa_af sa = AF_UNSPEC
                  then sa\<lparr>sa_af := if first_index 58 txt = None then AF_INET else AF_INET6\<rparr> else sa)
        in if sa_af sa = AF_INET then
             (case pton4 txt of Some a \<Rightarrow> (0, sa\<lparr>sin_addr := a\<rparr>) | None \<Rightarrow> (-1, sa))
           else if sa_af sa = AF_INET6 then
             (case pton6 txt of Some a \<Rightarrow> (0, sa\<lparr>sin6_addr := a\<rparr>) | None \<Rightarrow> (-1, sa))
           else (-1, sa))"

text \<open>A local \<open>sa_in46\<close> of which only the family is initialised.\<close>

definition fresh_sa :: "sa_family \<Rightarrow> sa_in46" where
  "fresh_sa af = \<lparr>sa_af = af, sa_port = 0, sin_addr = replicate 4 0, sin6_addr = replicate 16 0\<rparr>"

definition parse_ipv4 ::
  "(bytes \<Rightarrow> bytes option) \<Rightarrow> (bytes \<Rightarrow> bytes option) \<Rightarrow> bytes \<Rightarrow> bytes \<Rightarrow> bool \<Rightarrow> int \<times> bytes" where
  "parse_ipv4 pton4 pton6 txt ia allow_any =
     (let (i, sa) = parse_ip pton4 pton6 txt (fresh_sa AF_INET) allow_any in
      if i = -1 then (-1, ia) else (0, sin_addr sa))"

definition parse_ipv6 ::
  "(bytes \<Rightarrow> bytes option) \<Rightarrow> (bytes \<Rightarrow> bytes option) \<Rightarrow> bytes \<Rightarrow> bytes \<Rightarrow> bool \<Rightarrow> int \<times> bytes" where
  "parse_ipv6 pton4 pton6 txt ia allow_any =
     (let (i, sa) = parse_ip pton4 pton6 txt (fresh_sa AF_INET6) allow_any in
      if i = -1 then (-1, ia) else (0, sin6_addr sa))"

text \<open>
  The value of a mask in host order, and \<open>htonl\<close>: the bytes in network order. The mask is computed in a signed int in the source. For the length one, \<open>1 << 31\<close> and the subtraction overflow
  there, which C leaves undefined; here they wrap around, as on the machines the program is built for.
\<close>

definition ipv4_netmask :: "nat \<Rightarrow> u32" where
  "ipv4_netmask i = (if i = 0 then 0 else NOT (push_bit (32 - i) 1 - 1))"

definition htonl_bytes :: "u32 \<Rightarrow> bytes" where "htonl_bytes w = rev (bytes32 w)"

definition parse_ipv4_cidr ::
  "(bytes \<Rightarrow> bytes option) \<Rightarrow> (bytes \<Rightarrow> bytes option) \<Rightarrow> bytes \<Rightarrow> bytes \<Rightarrow> bytes \<Rightarrow> bool \<Rightarrow> int \<times> bytes \<times> bytes" where
  "parse_ipv4_cidr pton4 pton6 txt ia netmask allow_any =
     (case first_index 47 txt of
        None \<Rightarrow>
          if allow_any \<and> txt = star then (0, replicate 4 0, replicate 4 0)
          else let (i, ia) = parse_ipv4 pton4 pton6 txt ia False in (i, ia, replicate 4 0xFF)
      | Some idx \<Rightarrow>
          (case my_strtol (drop (idx + 1) txt) of
             None \<Rightarrow> (-1, ia, netmask)
           | Some i \<Rightarrow>
             if i < 0 \<or> 32 < i then (-1, ia, netmask)
             else let (r, ia) = parse_ipv4 pton4 pton6 (take idx txt) ia False
                  in (r, ia, htonl_bytes (ipv4_netmask (nat i)))))"

text \<open>The loop over the whole bytes of an IPv6 mask and the byte after them.\<close>

fun ipv6_netmask_loop :: "nat \<Rightarrow> nat \<Rightarrow> bytes \<Rightarrow> bytes" where
  "ipv6_netmask_loop i nm_pos m =
     (if 8 \<le> i then ipv6_netmask_loop (i - 8) (nm_pos + 1) (m[nm_pos := 0xFF])
      else if 0 < i then m[nm_pos := ucast (drop_bit i (0xFF00 :: u32) AND 0xFF)]
      else m)"

declare ipv6_netmask_loop.simps [simp del]

definition parse_ipv6_cidr ::
  "(bytes \<Rightarrow> bytes option) \<Rightarrow> (bytes \<Rightarrow> bytes option) \<Rightarrow> bytes \<Rightarrow> bytes \<Rightarrow> bytes \<Rightarrow> bool \<Rightarrow> int \<times> bytes \<times> bytes" where
  "parse_ipv6_cidr pton4 pton6 txt ia netmask allow_any =
     (case first_index 47 txt of
        None \<Rightarrow>
          if allow_any \<and> txt = star then (0, replicate 16 0, replicate 16 0)
          else let (i, ia) = parse_ipv6 pton4 pton6 txt ia False in (i, ia, replicate 16 0xFF)
      | Some idx \<Rightarrow>
          (case my_strtol (drop (idx + 1) txt) of
             None \<Rightarrow> (-1, ia, netmask)
           | Some i \<Rightarrow>
             if i < 0 \<or> 128 < i then (-1, ia, netmask)
             else let (r, ia) = parse_ipv6 pton4 pton6 (take idx txt) ia False
                  in (0, ia, ipv6_netmask_loop (nat i) 0 (replicate 16 0))))"

text \<open>The port after an address: a number from 1 to 65535.\<close>

definition parse_port :: "bytes \<Rightarrow> sa_in46 \<Rightarrow> int \<times> sa_in46" where
  "parse_port txt sa = (case my_strtol txt of
      None \<Rightarrow> (-1, sa)
    | Some i \<Rightarrow> if i \<le> 0 \<or> 65536 \<le> i then (-1, sa) else (0, sa\<lparr>sa_port := htons (of_int i)\<rparr>))"

definition parse_ip_port ::
  "(bytes \<Rightarrow> bytes option) \<Rightarrow> (bytes \<Rightarrow> bytes option) \<Rightarrow> bytes \<Rightarrow> sa_in46 \<Rightarrow> bool \<Rightarrow> int \<times> sa_in46" where
  "parse_ip_port pton4 pton6 txt sa allow_any =
     (let sa = sa\<lparr>sa_af := AF_UNSPEC\<rparr> in
      if txt \<noteq> [] \<and> hd txt = 91 then
        (case first_index 93 txt of
           None \<Rightarrow> (-1, sa)
         | Some idx \<Rightarrow>
           let (i, sa) = parse_ip pton4 pton6 (drop 1 (take idx txt)) sa allow_any; rest = drop (idx + 1) txt in
           if i = -1 then (-1, sa)
           else if rest = [] then (0, sa)
           else if hd rest = 58 then parse_port (drop 1 rest) sa
           else (-1, sa))
      else
        (case first_index 58 txt of
           None \<Rightarrow> parse_ip pton4 pton6 txt (sa\<lparr>sa_af := AF_INET\<rparr>) allow_any
         | Some idx \<Rightarrow>
           if first_index 58 (drop (idx + 1) txt) \<noteq> None
           then parse_ip pton4 pton6 txt (sa\<lparr>sa_af := AF_INET6\<rparr>) allow_any
           else let (i, sa) = parse_ip pton4 pton6 (take idx txt) (sa\<lparr>sa_af := AF_INET\<rparr>) allow_any in
             if i = -1 then (-1, sa) else parse_port (drop (idx + 1) txt) sa))"

section \<open>Masks\<close>

lemma unat_minus_one_u32: "unat (- 1 :: u32) = 4294967295"
  by (simp add: unsigned_minus_1_eq_mask mask_eq_exp_minus_1)

lemma ipv4_netmasks: "map (\<lambda>i. htonl_bytes (ipv4_netmask i)) [0..<33] = ipv4_masks"
  by (simp add: ipv4_masks_def upt_33 htonl_bytes_def ipv4_netmask_def bytes32_bytes mask_byte_def Let_def
      unat_minus_one_u32)

lemma ipv4_netmask_is_mask: "i \<le> 32 \<Longrightarrow> is_mask 4 (htonl_bytes (ipv4_netmask i)) i"
  using is_mask_ipv4_masks [of i] by (simp flip: ipv4_netmasks del: upt_Suc)

lemma partial_byte: "i < 8 \<Longrightarrow> 0 < i \<Longrightarrow> (ucast (drop_bit i (0xFF00 :: u32) AND 0xFF) :: u8) = mask_byte i"
proof -
  assume "i < 8" "0 < i"
  then have "i = 1 \<or> i = 2 \<or> i = 3 \<or> i = 4 \<or> i = 5 \<or> i = 6 \<or> i = 7" by presburger
  then show ?thesis by (elim disjE) (simp_all add: mask_byte_def drop_bit_eq_div)
qed

lemma ipv6_netmask_loop_nth:
  assumes "pos + (i + 7) div 8 \<le> length m"
  shows "length (ipv6_netmask_loop i pos m) = length m \<and>
    (\<forall>j < length m. ipv6_netmask_loop i pos m ! j =
       (if pos \<le> j \<and> j < pos + (i + 7) div 8 then mask_byte (min 8 (i - 8 * (j - pos))) else m ! j))"
  using assms
proof (induction i pos m rule: ipv6_netmask_loop.induct)
  case (1 i pos m)
  show ?case
  proof (cases "8 \<le> i")
    case True
    then have b: "pos + 1 + (i - 8 + 7) div 8 \<le> length (m[pos := 0xFF])" and e: "(i + 7) div 8 = Suc ((i - 8 + 7) div 8)"
      using 1(2) by auto
    note IH = 1(1) [OF True b]
    have "ipv6_netmask_loop i pos m ! j =
       (if pos \<le> j \<and> j < pos + (i + 7) div 8 then mask_byte (min 8 (i - 8 * (j - pos))) else m ! j)"
      if j: "j < length m" for j
    proof (cases "j = pos")
      case same: True
      have "min 8 (i - 8 * (j - pos)) = 8" using same True by simp
      then show ?thesis using IH j True same e by (subst ipv6_netmask_loop.simps) (simp add: mask_byte_def)
    next
      case False
      then have "pos \<le> j \<longleftrightarrow> pos + 1 \<le> j" by linarith
      moreover have "i - 8 - 8 * (j - (pos + 1)) = i - 8 * (j - pos)" if "pos + 1 \<le> j" using that by simp
      ultimately show ?thesis using IH j True e False by (subst ipv6_netmask_loop.simps) (auto simp: nth_list_update)
    qed
    then show ?thesis using IH True by (subst ipv6_netmask_loop.simps) simp
  next
    case False
    then show ?thesis using 1(2) partial_byte [of i]
      by (subst (1 2) ipv6_netmask_loop.simps) (auto simp: nth_list_update)
  qed
qed

lemma ipv6_netmask_is_mask:
  assumes "i \<le> 128"
  shows "is_mask 16 (ipv6_netmask_loop i 0 (replicate 16 0)) i"
proof -
  have n: "0 + (i + 7) div 8 \<le> length (replicate 16 (0 :: u8))" using assms by simp
  note l = ipv6_netmask_loop_nth [OF n]
  show ?thesis
  proof (rule is_mask_bytes)
    show "length (ipv6_netmask_loop i 0 (replicate 16 0)) = 16" "i \<le> 8 * 16" using l assms by simp_all
    fix j :: nat assume j: "j < 16"
    show "ipv6_netmask_loop i 0 (replicate 16 0) ! j = mask_byte (min 8 (i - 8 * j))"
    proof (cases "j < (i + 7) div 8")
      case False
      then have "min 8 (i - 8 * j) = 0" by simp
      then show ?thesis using l j False by (simp add: mask_byte_def)
    qed (use l j in simp)
  qed
qed

section \<open>Round trip of an address with its port\<close>

text \<open>The characters that \<open>inet_ntop\<close> uses.\<close>

definition ipv4_text :: "bytes \<Rightarrow> bool" where
  "ipv4_text t \<longleftrightarrow> t \<noteq> [] \<and> length t \<le> 15 \<and> (\<forall>c \<in> set t. c = 46 \<or> is_digit 10 c)"

definition ipv6_text :: "bytes \<Rightarrow> bool" where
  "ipv6_text t \<longleftrightarrow> length t \<le> 45 \<and> 58 \<in> set t \<and> (\<forall>c \<in> set t. c = 46 \<or> c = 58 \<or> is_digit 16 c)"

lemma htons_htons [simp]: "htons (htons w) = w"
proof (rule bit_word_eqI)
  fix n assume "n < LENGTH(16)"
  then show "bit (htons (htons w)) n = bit w n" by (auto simp: htons_def bit_simps)
qed

lemma first_index_append: "c \<notin> set xs \<Longrightarrow> first_index c (xs @ c # ys) = Some (length xs)"
proof -
  assume "c \<notin> set xs"
  then have "takeWhile (\<lambda>b. b \<noteq> c) (xs @ c # ys) = xs" by (subst takeWhile_append2) auto
  then show ?thesis by (simp add: first_index_def)
qed

lemma first_index_absent: "c \<notin> set xs \<Longrightarrow> first_index c xs = None"
  by (simp add: first_index_def)

lemma my_strtol_small: "n < 2147483648 \<Longrightarrow> my_strtol (dec_digits n) = Some (int n)"
  by (simp add: my_strtol_dec_digits signed_of_nat signed_take_bit_int_eq_self)

lemma port_digits:
  assumes "0 < unat (htons p)"
  shows "parse_port (dec_digits (unat (htons p))) sa = (0, sa\<lparr>sa_port := p\<rparr>)"
proof -
  define n where "n = unat (htons p)"
  have n: "n < 65536" "0 < n" using unsigned_less [of "htons p", where ?'a = nat] assms by (simp_all add: n_def)
  have w: "of_int (int n) = htons p" by (simp add: n_def)
  have "my_strtol (dec_digits n) = Some (int n)" using n by (intro my_strtol_small) simp
  then show ?thesis using n w unfolding n_def [symmetric] by (simp add: parse_port_def del: of_int_of_nat_eq)
qed

lemma port_length: "length (dec_digits (unat (p :: u16))) \<le> 5"
proof -
  have "unat p < 65536" using unsigned_less [of p, where ?'a = nat] by simp
  moreover have "(10 :: nat) ^ Suc 4 = 100000" by simp
  ultimately have "unat p < 10 ^ Suc 4" by linarith
  from length_dec_digits [OF this] show ?thesis by simp
qed

lemma port_no_colon: "58 \<notin> set (dec_digits n)"
  using dec_digits_digits [of n] by (auto simp: is_digit_def digit_value_def)

lemma parse_str_addr_port_ipv4:
  assumes t: "ipv4_text (ntop4 (sin_addr sa))" and p: "pton4 (ntop4 (sin_addr sa)) = Some (sin_addr sa)"
    and f: "sa_af sa = AF_INET" and port: "0 < unat (ntohs (sa_port sa))"
  shows "parse_ip_port pton4 pton6 (str_addr_port ntop4 ntop6 sa) sb allow_any =
    (0, sb\<lparr>sa_af := AF_INET, sin_addr := sin_addr sa, sa_port := sa_port sa\<rparr>)"
proof -
  let ?t = "ntop4 (sin_addr sa)" let ?d = "dec_digits (unat (ntohs (sa_port sa)))"
  have c: "58 \<notin> set ?t" "91 \<notin> set ?t" "42 \<notin> set ?t" "?t \<noteq> []" "length ?t \<le> 15"
    using t by (auto simp: ipv4_text_def is_digit_def digit_value_def)
  have s: "str_addr_port ntop4 ntop6 sa = ?t @ 58 # ?d"
    using c(5) port_length [of "ntohs (sa_port sa)"] f by (simp add: str_addr_port_def str_addr_def)
  have h: "hd (?t @ 58 # ?d) \<noteq> 91" using c(2,4) by (cases ?t) auto
  have star: "?t \<noteq> star" using c(3) by (metis list.set_intros(1))
  have i: "first_index 58 (?t @ 58 # ?d) = Some (length ?t)" using c(1) by (rule first_index_append)
  have j: "first_index 58 ?d = None" using port_no_colon by (rule first_index_absent)
  show ?thesis
    unfolding s parse_ip_port_def Let_def using h i j star p port
    by (simp add: parse_ip_def port_digits)
qed

lemma parse_str_addr_port_ipv6:
  assumes t: "ipv6_text (ntop6 (sin6_addr sa))" and p: "pton6 (ntop6 (sin6_addr sa)) = Some (sin6_addr sa)"
    and f: "sa_af sa = AF_INET6" and port: "0 < unat (ntohs (sa_port sa))"
  shows "parse_ip_port pton4 pton6 (str_addr_port ntop4 ntop6 sa) sb allow_any =
    (0, sb\<lparr>sa_af := AF_INET6, sin6_addr := sin6_addr sa, sa_port := sa_port sa\<rparr>)"
proof -
  let ?t = "ntop6 (sin6_addr sa)" let ?d = "dec_digits (unat (ntohs (sa_port sa)))"
  have c: "58 \<in> set ?t" "93 \<notin> set ?t" "42 \<notin> set ?t" "length ?t \<le> 45"
    using t by (auto simp: ipv6_text_def is_digit_def digit_value_def)
  have s: "str_addr_port ntop4 ntop6 sa = 91 # ?t @ 93 # 58 # ?d"
    using c(4) port_length [of "ntohs (sa_port sa)"] f by (simp add: str_addr_port_def str_addr_def)
  have star: "?t \<noteq> star" using c(3) by (metis list.set_intros(1))
  have "first_index 93 ((91 # ?t) @ 93 # 58 # ?d) = Some (length (91 # ?t))"
    using c(2) by (intro first_index_append) simp
  then have i: "first_index 93 (91 # ?t @ 93 # 58 # ?d) = Some (Suc (length ?t))" by simp
  obtain k where j: "first_index 58 ?t = Some k" using c(1) by (simp add: first_index_def)
  show ?thesis
    unfolding s parse_ip_port_def Let_def using i j star p port
    by (simp add: parse_ip_def port_digits)
qed

section \<open>Networks as text\<close>

text \<open>An address, a slash and a length: the address and its mask.\<close>

lemma parse_ipv4_cidr_text:
  assumes t: "ipv4_text t" and p: "pton4 t = Some a" and n: "n \<le> 32"
  shows "\<exists>m. parse_ipv4_cidr pton4 pton6 (t @ 47 # dec_digits n) ia netmask allow_any = (0, a, m) \<and> is_mask 4 m n"
proof -
  have c: "47 \<notin> set t" using t by (auto simp: ipv4_text_def is_digit_def digit_value_def)
  have v: "my_strtol (dec_digits n) = Some (int n)"
    using n by (intro my_strtol_small) simp
  show ?thesis
    using first_index_append [OF c, of "dec_digits n"] v n p ipv4_netmask_is_mask [OF n]
    by (simp add: parse_ipv4_cidr_def parse_ipv4_def parse_ip_def fresh_sa_def)
qed

lemma parse_ipv6_cidr_text:
  assumes t: "ipv6_text t" and p: "pton6 t = Some a" and n: "n \<le> 128"
  shows "\<exists>m. parse_ipv6_cidr pton4 pton6 (t @ 47 # dec_digits n) ia netmask allow_any = (0, a, m) \<and> is_mask 16 m n"
proof -
  have c: "47 \<notin> set t" using t by (auto simp: ipv6_text_def is_digit_def digit_value_def)
  have v: "my_strtol (dec_digits n) = Some (int n)"
    using n by (intro my_strtol_small) simp
  show ?thesis
    using first_index_append [OF c, of "dec_digits n"] v n p ipv6_netmask_is_mask [OF n]
    by (simp add: parse_ipv6_cidr_def parse_ipv6_def parse_ip_def fresh_sa_def)
qed

text \<open>A text that is no address: success all the same, and the address is left as it was.\<close>

lemma parse_ipv6_cidr_no_address:
  assumes c: "47 \<notin> set t" and p: "pton6 t = None" and n: "n \<le> 128"
  shows "fst (parse_ipv6_cidr pton4 pton6 (t @ 47 # dec_digits n) ia netmask allow_any) = 0"
    and "fst (snd (parse_ipv6_cidr pton4 pton6 (t @ 47 # dec_digits n) ia netmask allow_any)) = ia"
proof -
  have v: "my_strtol (dec_digits n) = Some (int n)"
    using n by (intro my_strtol_small) simp
  show "fst (parse_ipv6_cidr pton4 pton6 (t @ 47 # dec_digits n) ia netmask allow_any) = 0"
    "fst (snd (parse_ipv6_cidr pton4 pton6 (t @ 47 # dec_digits n) ia netmask allow_any)) = ia"
    using first_index_append [OF c, of "dec_digits n"] v n p
    by (simp_all add: parse_ipv6_cidr_def parse_ipv6_def parse_ip_def fresh_sa_def)
qed

end
