(* ===== verification/Format_Properties.thy ===== *)
theory Format_Properties
  imports Examples Json_Printer Subnet_Load Gather_Config Logging Inet
begin

text \<open>
  The properties of what the programs read and write as text: JSON documents, the subnets, configuration
  files, addresses, and of the two loops that may not end.
\<close>

section \<open>JSON\<close>

text \<open>
  C24. The calls for a document write it without a failed assertion, when it has at most 30 levels and
  its strings hold no byte that the printer refuses. If moreover its strings and keys hold no quote, backslash or
  slash, what is written is the JSON text of the document by RFC 8259 (with bytes from 128 on as they are).
  The printer's escapes for these three characters are not those of JSON: a string is written as the
  standard has it just when it holds none of them.
\<close>

theorem printer_prints_json:
  assumes "length stack = 32" "json_printable j" "json_levels j \<le> 30"
  shows "(\<exists>text. print_document stack j out = Some (out @ text)) \<and>
    (json_clean j \<longrightarrow> print_document stack j out = Some (out @ rfc_text j)) \<and>
    (\<forall>s. j = Json_String s \<longrightarrow> 0 \<notin> set s \<longrightarrow>
      (print_document stack j out = Some (out @ rfc_text j) \<longleftrightarrow> clean s))"
proof -
  note p = print_document_text [OF assms, of out]
  have "(print_document stack j out = Some (out @ rfc_text j)) = clean s" if "j = Json_String s" "0 \<notin> set s" for s
    using quoted_clean [of s] assms(2) p that by simp
  then show ?thesis using p json_text_clean(1) [OF assms(2)] by simp
qed

theorem printer_prints_json_witness:
  "print_document (replicate 32 0) (Json_Object [([97], Json_Array [Json_Uint32 7, Json_Boolean True])]) [] =
    Some (map of_char (''{'' @ [CHR 0x22, CHR ''a'', CHR 0x22] @ '':[7,true]}'')) \<and>
   print_document (replicate 32 0) (Json_String [47]) [] \<noteq> Some (map of_char [CHR 0x22, CHR ''/'', CHR 0x22])"
  using printer_prints_json [of "replicate 32 0" "Json_Object [([97], Json_Array [Json_Uint32 7, Json_Boolean True])]" "[]"]
    printer_prints_json [of "replicate 32 0" "Json_String [47]" "[]"]
  by (simp add: printable_def clean_def rfc_string_def rfc_char_def separated_def dec_digits.simps)

section \<open>Subnets\<close>

text \<open>
  C25. Loading a file that describes a valid list of entities with their prefixes gives exactly this
  list: every entity has its name, and each prefix belongs to the first entity that lists it.
\<close>

theorem subnets_hold_the_file:
  assumes "spec_valid p4 p6 spec" "fopen path = Some content" "y_alloc y = Some h"
    and "block_events y h (blocks 65536 content) = Some (spec_events spec, h')"
  shows "\<exists>sa. subnet_activity_initialize y (\<lambda>_. True) p4 p6 fopen (Some path) = Some (SA_OK, sa) \<and>
    registered_entities sa = length spec \<and>
    (\<forall>i < length spec. sa_entities sa ! i = Some (stored_name (fst (spec ! i)))) \<and>
    (\<forall>k. sa_prefixes sa k = map_option Some (owner p4 p6 0 spec k))"
  using initialize_holds_spec [where fopen = fopen and path = path and content = content, OF assms] by (auto simp: holds_spec_def)

definition ex_pton4 :: "bytes \<Rightarrow> bytes option" where
  "ex_pton4 t = (if length t = 9 then Some [192, 0, 2, 0] else if length t = 8 then Some [10, 0, 0, 0] else None)"

definition ex_spec :: subnet_spec where
  "ex_spec = [([97], [(replicate 9 49, 24)])]"

definition ex_any_spec :: subnet_spec where
  "ex_any_spec = [([97], [(replicate 8 49, 0)])]"

lemma ex_spec_valid: "spec_valid ex_pton4 (\<lambda>_. None) ex_spec" "spec_valid ex_pton4 (\<lambda>_. None) ex_any_spec"
  by (simp_all add: spec_valid_def ex_spec_def ex_any_spec_def prefix_valid_def parse_prefix_address_def ex_pton4_def
      valid_length_def)

theorem subnets_hold_the_file_witness:
  "\<exists>sa. subnet_activity_initialize (ex_yajl (spec_events ex_spec)) (\<lambda>_. True) ex_pton4 (\<lambda>_. None) (\<lambda>_. Some [32]) (Some [47]) =
      Some (SA_OK, sa) \<and> registered_entities sa = 1 \<and> sa_prefixes sa (Addr4 [192, 0, 2, 0], 24) = Some (Some 0)"
proof -
  have "owner ex_pton4 (\<lambda>_. None) 0 ex_spec (Addr4 [192, 0, 2, 0], 24) = Some 0"
    by (simp add: ex_spec_def prefix_key_def parse_prefix_address_def ex_pton4_def)
  moreover have "length ex_spec = 1" by (simp add: ex_spec_def)
  ultimately show ?thesis
    using subnets_hold_the_file [OF ex_spec_valid(1) _ ex_yajl_simps(1) ex_yajl_events, of "\<lambda>_. Some [32]" "[47]"] by auto
qed

text \<open>
  C26. Whatever is in the file, and whatever the parser makes of it, if loading returns (that is, if nothing
  was written outside of an array) what is loaded is well formed: the entities fit in their array, each
  registered prefix belongs to one of them, and its length is between the bounds that the search uses.
  Loading does not return for a list of more than 1024 valid entities: the code does not test for the
  end of the array.
\<close>

theorem subnets_always_well_formed:
  "(subnet_activity_initialize y malloc p4 p6 fopen subnetfile = Some (code, sa) \<longrightarrow>
      length (sa_entities sa) = 1024 \<and> registered_entities sa \<le> 1024 \<and>
      (\<forall>i < registered_entities sa. \<exists>name. sa_entities sa ! i = Some name \<and> length name = 128) \<and>
      (\<forall>p e. sa_prefixes sa p = Some e \<longrightarrow> prefix_ok sa p \<and> (\<exists>i < registered_entities sa. e = Some i)) \<and>
      longest_ipv4_prefix sa \<le> 32 \<and> longest_ipv6_prefix sa \<le> 128) \<and>
   (\<forall>spec path content h h'. fopen path = Some content \<longrightarrow> y_alloc y = Some h \<longrightarrow>
      block_events y h (blocks 65536 content) = Some (spec_events spec, h') \<longrightarrow>
      (\<forall>e \<in> set spec. length (fst e) \<le> 128 \<and> (\<forall>p \<in> set (snd e). prefix_valid p4 p6 p)) \<longrightarrow> 1024 < length spec \<longrightarrow>
      subnet_activity_initialize y (\<lambda>_. True) p4 p6 fopen (Some path) = None)"
proof (rule conjI, rule impI)
  assume "subnet_activity_initialize y malloc p4 p6 fopen subnetfile = Some (code, sa)"
  then have e: "entities_ok sa" and p: "prefixes_ok sa" using initialize_ok by blast+
  have "\<exists>name. sa_entities sa ! i = Some name \<and> length name = 128" if "i < registered_entities sa" for i
  proof -
    have "i < 1024" using e that by (simp add: entities_ok_def)
    with e that show ?thesis by (auto simp: entities_ok_def)
  qed
  with e p show "length (sa_entities sa) = 1024 \<and> registered_entities sa \<le> 1024 \<and>
      (\<forall>i < registered_entities sa. \<exists>name. sa_entities sa ! i = Some name \<and> length name = 128) \<and>
      (\<forall>p e. sa_prefixes sa p = Some e \<longrightarrow> prefix_ok sa p \<and> (\<exists>i < registered_entities sa. e = Some i)) \<and>
      longest_ipv4_prefix sa \<le> 32 \<and> longest_ipv6_prefix sa \<le> 128" by (simp add: entities_ok_def prefixes_ok_def)
next
  show "\<forall>spec path content h h'. fopen path = Some content \<longrightarrow> y_alloc y = Some h \<longrightarrow>
      block_events y h (blocks 65536 content) = Some (spec_events spec, h') \<longrightarrow>
      (\<forall>e \<in> set spec. length (fst e) \<le> 128 \<and> (\<forall>p \<in> set (snd e). prefix_valid p4 p6 p)) \<longrightarrow> 1024 < length spec \<longrightarrow>
      subnet_activity_initialize y (\<lambda>_. True) p4 p6 fopen (Some path) = None"
    by (intro allI impI, rule initialize_too_many)
qed

theorem subnets_always_well_formed_witness:
  "(\<exists>sa. subnet_activity_initialize (ex_yajl (spec_events ex_spec)) (\<lambda>_. True) ex_pton4 (\<lambda>_. None) (\<lambda>_. Some [32]) (Some [47]) =
      Some (SA_OK, sa) \<and> longest_ipv4_prefix sa \<le> 32) \<and>
   subnet_activity_initialize (ex_yajl (spec_events (replicate 1025 ([97], [])))) (\<lambda>_. True) ex_pton4 (\<lambda>_. None)
      (\<lambda>_. Some [32]) (Some [47]) = None"
proof -
  obtain sa where "subnet_activity_initialize (ex_yajl (spec_events ex_spec)) (\<lambda>_. True) ex_pton4 (\<lambda>_. None) (\<lambda>_. Some [32]) (Some [47]) =
      Some (SA_OK, sa)"
    using initialize_holds_spec [OF ex_spec_valid(1) _ ex_yajl_simps(1) ex_yajl_events, of "\<lambda>_. Some [32]" "[47]"] by auto
  moreover let ?spec = "replicate 1025 ([97], []) :: subnet_spec"
  have "\<forall>e \<in> set ?spec. length (fst e) \<le> 128 \<and> (\<forall>p \<in> set (snd e). prefix_valid ex_pton4 (\<lambda>_. None) p)" by simp
  moreover have "1024 < length ?spec" unfolding length_replicate by simp
  moreover note many = subnets_always_well_formed [THEN conjunct2, rule_format, where y = "ex_yajl (spec_events ?spec)" and ?p4.0 = ex_pton4 and
      ?p6.0 = "\<lambda>_. None" and fopen = "\<lambda>_. Some [32]" and spec = ?spec and path = "[47]", OF refl ex_yajl_simps(1) ex_yajl_events]
  moreover note one = subnets_always_well_formed [THEN conjunct1, rule_format, where y = "ex_yajl (spec_events ex_spec)" and malloc = "\<lambda>_. True" and
      ?p4.0 = ex_pton4 and ?p6.0 = "\<lambda>_. None" and fopen = "\<lambda>_. Some [32]" and subnetfile = "Some [47]"]
  ultimately show ?thesis by blast
qed

text \<open>
  C27. In loaded subnets whose shortest registered length for the family of the address is at least one, the search for an
  address gives a longest registered prefix that contains it, or none when none contains it; for IPv6
  only if the lengths of all registered IPv6 prefixes are whole bytes. (C28 is what happens with a length of zero.)
\<close>

theorem longest_prefix_is_found:
  assumes "subnet_activity_initialize y malloc p4 p6 fopen subnetfile = Some (code, sa)"
    and "(case addr of Addr4 a \<Rightarrow> length a = 4 \<and> 1 \<le> shortest_ipv4_prefix sa
      | Addr6 a \<Rightarrow> length a = 16 \<and> 1 \<le> shortest_ipv6_prefix sa \<and>
          (\<forall>b l. (Addr6 b, l) \<in> dom (sa_prefixes sa) \<longrightarrow> l mod 8 = 0)
      | Other_Family _ \<Rightarrow> False)"
  shows "\<exists>r. subnet_activity_match_prefix (Some addr) (Some sa) (Some old) = Some (SA_OK, Some r) \<and> longest_match sa addr r"
proof -
  have ok: "prefixes_ok sa" using initialize_ok [OF assms(1)] by blast
  show ?thesis
  proof (cases addr)
    case (Addr4 a)
    with match_ipv4 [OF ok, of a old] assms(2) show ?thesis by simp
  next
    case (Addr6 a)
    with match_ipv6 [OF ok, of a old] assms(2) show ?thesis by simp
  qed (use assms(2) in simp)
qed

lemma ex_loaded:
  assumes "spec_valid ex_pton4 (\<lambda>_. None) spec"
  shows "\<exists>sa. subnet_activity_initialize (ex_yajl (spec_events spec)) (\<lambda>_. True) ex_pton4 (\<lambda>_. None) (\<lambda>_. Some [32]) (Some [47]) =
      Some (SA_OK, sa) \<and> (\<forall>k. sa_prefixes sa k = map_option Some (owner ex_pton4 (\<lambda>_. None) 0 spec k)) \<and> prefixes_ok sa"
  using initialize_holds_spec [OF assms _ ex_yajl_simps(1) ex_yajl_events, of "\<lambda>_. Some [32]" "[47]"]
  by (auto simp: holds_spec_def)

lemma ex_shortest:
  "\<exists>sa. subnet_activity_initialize (ex_yajl (spec_events ex_spec)) (\<lambda>_. True) ex_pton4 (\<lambda>_. None) (\<lambda>_. Some [32]) (Some [47]) =
      Some (SA_OK, sa) \<and> 1 \<le> shortest_ipv4_prefix sa"
proof -
  have t: "Option.bind (strncpy (replicate 128 0) (replicate 9 49)) c_string = Some (replicate 9 49)"
    by (rule prefix_text_read) simp_all
  have p: "parse_prefix_address ex_pton4 (\<lambda>_. None) (replicate 9 49) = Some (Addr4 [192, 0, 2, 0])"
    by (simp add: parse_prefix_address_def ex_pton4_def)
  note d = subnet_activity_json_callbacks_def subnet_activity_spec_start_map_def subnet_activity_spec_map_key_def
    subnet_activity_spec_string_def subnet_activity_spec_integer_def subnet_activity_spec_end_map_def
    subnet_activity_spec_start_array_def subnet_activity_spec_end_array_def
  show ?thesis
    using t p by (simp add: subnet_activity_initialize_def blocks_single ex_yajl_def yajl_parse_def spec_events_def ex_spec_def
      entity_events_def prefix_events_def ctx_zero_def sa_zero_def d Let_def key_subnet_activity_def key_entity_def key_prefixes_def
      strncpy_zeros valid_length_def add_prefix_hh_def note_prefix_def bind_eq_Some_conv)
qed

theorem longest_prefix_is_found_witness:
  "\<exists>sa r. subnet_activity_initialize (ex_yajl (spec_events ex_spec)) (\<lambda>_. True) ex_pton4 (\<lambda>_. None) (\<lambda>_. Some [32]) (Some [47]) =
      Some (SA_OK, sa) \<and>
    subnet_activity_match_prefix (Some (Addr4 [192, 0, 2, 77])) (Some sa) (Some None) = Some (SA_OK, Some r) \<and>
    longest_match sa (Addr4 [192, 0, 2, 77]) r"
proof -
  obtain sa where sa: "subnet_activity_initialize (ex_yajl (spec_events ex_spec)) (\<lambda>_. True) ex_pton4 (\<lambda>_. None)
      (\<lambda>_. Some [32]) (Some [47]) = Some (SA_OK, sa)" "1 \<le> shortest_ipv4_prefix sa"
    using ex_shortest by blast
  have c: "case Addr4 [192, 0, 2, 77] of Addr4 a \<Rightarrow> length a = 4 \<and> 1 \<le> shortest_ipv4_prefix sa
      | Addr6 a \<Rightarrow> length a = 16 \<and> 1 \<le> shortest_ipv6_prefix sa \<and>
          (\<forall>b l. (Addr6 b, l) \<in> dom (sa_prefixes sa) \<longrightarrow> l mod 8 = 0)
      | Other_Family _ \<Rightarrow> False" using sa(2) by simp
  from longest_prefix_is_found [OF sa(1) c, of None] sa(1) show ?thesis by blast
qed

text \<open>
  C28. When a prefix of length zero is registered for IPv4 and an IPv4 address is in no registered prefix, the
  search does not end with nothing found: its unsigned counter wraps around and it reads outside of the
  table of the masks.
\<close>

theorem match_reads_out_of_table:
  assumes "subnet_activity_initialize y malloc p4 p6 fopen subnetfile = Some (code, sa)"
    and "sa_prefixes sa (Addr4 b, 0) \<noteq> None" "length a = 4"
    and "\<forall>p \<in> dom (sa_prefixes sa). \<not> in_prefix p (Addr4 a)"
  shows "subnet_activity_match_prefix (Some (Addr4 a)) (Some sa) (Some old) = None"
proof -
  have ok: "prefixes_ok sa" using initialize_ok [OF assms(1)] by blast
  have "prefix_ok sa (Addr4 b, 0)" using ok assms(2) by (auto simp: prefixes_ok_def)
  then have "shortest_ipv4_prefix sa = 0" by (simp add: prefix_ok_def)
  from match_ipv4_out_of_bounds [OF ok this assms(3,4)] show ?thesis .
qed

theorem match_reads_out_of_table_witness:
  "\<exists>sa. subnet_activity_initialize (ex_yajl (spec_events ex_any_spec)) (\<lambda>_. True) ex_pton4 (\<lambda>_. None) (\<lambda>_. Some [32]) (Some [47]) =
      Some (SA_OK, sa) \<and>
    subnet_activity_match_prefix (Some (Addr4 [192, 0, 2, 77])) (Some sa) (Some None) = None"
proof -
  obtain sa where sa: "subnet_activity_initialize (ex_yajl (spec_events ex_any_spec)) (\<lambda>_. True) ex_pton4 (\<lambda>_. None)
      (\<lambda>_. Some [32]) (Some [47]) = Some (SA_OK, sa)"
    "\<forall>k. sa_prefixes sa k = map_option Some (owner ex_pton4 (\<lambda>_. None) 0 ex_any_spec k)"
    using ex_loaded [OF ex_spec_valid(2)] by blast
  have o: "owner ex_pton4 (\<lambda>_. None) 0 ex_any_spec k = (if k = (Addr4 [10, 0, 0, 0], 0) then Some 0 else None)" for k
    by (simp add: ex_any_spec_def prefix_key_def parse_prefix_address_def ex_pton4_def)
  have m: "sa_prefixes sa = (\<lambda>k. map_option Some (owner ex_pton4 (\<lambda>_. None) 0 ex_any_spec k))" using sa(2) by blast
  have d: "dom (sa_prefixes sa) = {(Addr4 [10, 0, 0, 0], 0)}" unfolding m o by (auto split: if_split_asm)
  have n: "\<forall>p \<in> dom (sa_prefixes sa). \<not> in_prefix p (Addr4 [192, 0, 2, 77])"
    unfolding d by (auto simp: in_prefix_def is_network_def net_bit_def intro!: exI [of _ 4])
  have "sa_prefixes sa (Addr4 [10, 0, 0, 0], 0) \<noteq> None" using sa(2) o by simp
  from match_reads_out_of_table [OF sa(1) this _ n, of None] sa(1) show ?thesis by auto
qed

section \<open>Configuration files\<close>

text \<open>
  C29. A configuration that is written as a file of its items is read back as it was, by the first
  start and whatever the configuration was before, and passes the final check.
\<close>

theorem config_roundtrip:
  assumes "config_valid c" "re_open (fs_read fs) filename = Some (file_of (map item_line (config_items c)))"
    and "decompressor_of filename = None" "\<forall>k. re_reads (fs_read fs) k \<noteq> None"
  shows "config_read fs honas_gather_config_parse_item filename old = Some c \<and> honas_gather_config_finalize c = Some c"
proof -
  have "config_read fs honas_gather_config_parse_item filename old =
      handle_items honas_gather_config_parse_item filename 0 (config_items c) old"
    by (rule config_read_items) (use assms config_items_ok [OF assms(1)] in auto)
  then show ?thesis using handle_config_items [OF assms(1)] config_valid_finalize [OF assms(1)] by simp
qed

theorem config_roundtrip_witness:
  "config_read ex_fs honas_gather_config_parse_item [47, 99] honas_gather_config_init = Some ex_config"
proof -
  have "decompressor_of [47, 99] = None" by (simp add: decompressor_of_def ends_with_def)
  moreover have "re_open (fs_read ex_fs) [47, 99] = Some (file_of (map item_line (config_items ex_config)))"
    "\<forall>k. re_reads (fs_read ex_fs) k \<noteq> None" by (simp_all add: ex_fs_def)
  ultimately show ?thesis using config_roundtrip [OF ex_config_valid, of ex_fs "[47, 99]"] by blast
qed

text \<open>
  C30. Includes can be nested eleven deep. Of files that include one another in a row, the items of the last are
  read if there are at most twelve files; with more, the process ends at the twelfth include. So
  it does for a file that includes itself, whatever else the file holds behind the directive.
\<close>

theorem include_depth:
  assumes "\<forall>k. re_reads (fs_read fs) k \<noteq> None"
  shows "(include_chain fs files kvs \<longrightarrow>
      config_read fs item (hd files) s = (if length files \<le> 12 then handle_items item (last files) 0 kvs s else None)) \<and>
    (\<forall>f rest. includable fs f \<longrightarrow> re_open (fs_read fs) f = Some ((include_line f @ [10]) @ rest) \<longrightarrow>
      config_read fs item f s = None)"
proof (intro conjI impI allI)
  assume "include_chain fs files kvs"
  from config_read_at_chain [OF this, of item 11 s] assms
  show "config_read fs item (hd files) s = (if length files \<le> 12 then handle_items item (last files) 0 kvs s else None)"
    by (simp add: config_read_def)
next
  fix f rest
  assume "includable fs f" "re_open (fs_read fs) f = Some ((include_line f @ [10]) @ rest)"
  then show "config_read fs item f s = None"
    unfolding config_read_def by (intro self_include_dies [where rest = rest]) (use assms in \<open>auto simp: includable_def include_line_def\<close>)
qed

text \<open>Files \<open>/a\<close>, \<open>/b\<close> and so on, each of which includes the next; the last one is empty.\<close>

definition ex_includes :: "u8 \<Rightarrow> config_fs" where
  "ex_includes end = ex_fs\<lparr>fs_read := (fs_read ex_fs)\<lparr>re_open :=
     (\<lambda>f. if f = [47, end] then Some (file_of []) else Some (file_of [include_line [47, f ! 1 + 1]]))\<rparr>\<rparr>"

theorem include_depth_witness:
  "config_read (ex_includes 108) honas_gather_config_parse_item [47, 97] honas_gather_config_init =
     Some honas_gather_config_init \<and>
   config_read (ex_includes 109) honas_gather_config_parse_item [47, 97] honas_gather_config_init = None"
proof -
  let ?files = "map (\<lambda>c. [47, c]) [97, 98, 99, 100, 101, 102, 103, 104, 105, 106, 107, 108 :: u8]"
  have c: "include_chain (ex_includes 108) ?files []" "include_chain (ex_includes 109) (?files @ [[47, 109]]) []"
    by (simp_all add: ex_includes_def ex_fs_def includable_def is_blank_def decompressor_of_def ends_with_def)
  have r: "\<forall>k. re_reads (fs_read (ex_includes e)) k \<noteq> None" for e by (simp add: ex_includes_def ex_fs_def)
  show ?thesis
    using include_depth [OF r, of 108 ?files "[]" honas_gather_config_parse_item honas_gather_config_init]
      include_depth [OF r, of 109 "?files @ [[47, 109]]" "[]" honas_gather_config_parse_item honas_gather_config_init] c
    by simp
qed

section \<open>Reading files\<close>

text \<open>
  C31. How many bytes the single reads of a file give does not matter: the handler gets the lines of the
  file in order with their numbers; the code is -3 when the last line is not complete and -4 for a line that
  is too long. A file of lines that fit is handled completely.
\<close>

theorem reads_do_not_matter:
  assumes "re_open re filename = Some content" "decompressor_of filename = None" "\<forall>k. re_reads re k \<noteq> None"
  shows "read_file re parse_line filename s = read_spec parse_line 0 content s \<and>
    (\<forall>ls. content = file_of ls \<longrightarrow> (\<forall>l \<in> set ls. line_fits l) \<longrightarrow>
      read_file re parse_line filename s = map_option (\<lambda>s'. (0, s')) (handle_lines parse_line 0 ls s))"
proof -
  have "read_file re parse_line filename s = read_spec parse_line 0 content s"
    by (rule read_file_plain) (use assms in auto)
  then show ?thesis using read_spec_lines [of _ parse_line 0 s] by simp
qed

theorem reads_do_not_matter_witness:
  "read_file (fs_read ex_fs\<lparr>re_open := (\<lambda>_. Some [97, 10, 98, 10])\<rparr>) (\<lambda>n l s. Some (s @ [(n, l)])) [47, 97] [] =
     Some (0, [(1, [97]), (2, [98])])"
proof -
  let ?re = "fs_read ex_fs\<lparr>re_open := (\<lambda>_. Some [97, 10, 98, 10])\<rparr>"
  have f: "[97, 10, 98, 10] = file_of [[97], [98 :: u8]]" "\<forall>l \<in> set [[97], [98 :: u8]]. line_fits l"
    by (simp_all add: file_of_def line_fits_def)
  have r: "re_open ?re [47, 97] = Some [97, 10, 98, 10]" "decompressor_of [47, 97] = None" "\<forall>k. re_reads ?re k \<noteq> None"
    by (simp_all add: decompressor_of_def ends_with_def ex_fs_def)
  have "read_file ?re (\<lambda>n l s. Some (s @ [(n, l)])) [47, 97] [] =
      map_option (\<lambda>s'. (0, s')) (handle_lines (\<lambda>n l s. Some (s @ [(n, l)])) 0 [[97], [98]] [])"
    by (rule reads_do_not_matter [OF r, THEN conjunct2, rule_format, OF f(1)]) (use f(2) in blast)
  then show ?thesis by simp
qed

text \<open>
  C32. Closing a file that was decompressed returns if and only if the decompressor ends by itself: the
  counter that should limit the wait to 2.5 seconds is never counted down.
\<close>

theorem wait_ends_only_with_child:
  "(read_file_close poll killed True = None) = (\<forall>k. poll k = Running)"
proof
  show "\<forall>k. poll k = Running \<Longrightarrow> read_file_close poll killed True = None"
    using wait_loop_Running [of poll 250 0] by (simp add: read_file_close_def)
next
  show "\<forall>k. poll k = Running" if n: "read_file_close poll killed True = None"
  proof (rule ccontr)
    assume "\<not> (\<forall>k. poll k = Running)"
    then obtain k where k: "poll k \<noteq> Running" "\<forall>j < k. poll j = Running"
      using exists_least_iff [of "\<lambda>k. poll k \<noteq> Running"] by blast
    have "wait_loop poll 250 0 = Some (poll (0 + k))" by (rule wait_loop_done) (use k in auto)
    then show False using n by (simp add: read_file_close_def)
  qed
qed

section \<open>Logging\<close>

text \<open>
  C33. The two searches for a level compare with the same entry again and again: with the environment
  variable set to anything but \<open>emerg\<close>, or with a log file and any level but \<open>emerg\<close> that is to be
  written, logging a message does not return.
\<close>

theorem log_level_hangs:
  "(min_log_level ctx = UNSET \<longrightarrow> val \<noteq> ''emerg'' \<longrightarrow> log_msg (Some val) level text ctx = None) \<and>
   (log_target ctx = target_file \<longrightarrow> min_log_level ctx \<noteq> UNSET \<longrightarrow> 0 < level \<longrightarrow> level \<le> min_log_level ctx \<longrightarrow>
     log_msg env level text ctx = None)"
  using log_msg_env_hangs log_msg_file_hangs by blast

theorem log_level_hangs_witness:
  "log_msg (Some ''debug'') 3 ''x'' log_initial = None"
  using log_level_hangs [of log_initial "''debug''" 3 "''x''"] by (simp add: log_initial_def)

section \<open>Addresses\<close>

text \<open>
  C34. The text of an address with its port is parsed as this address and port, for both families,
  when \<open>inet_pton\<close> reads what \<open>inet_ntop\<close> writes; only the port zero is refused.
\<close>

theorem address_roundtrip:
  assumes "case sa_af sa of
      AF_INET \<Rightarrow> ipv4_text (ntop4 (sin_addr sa)) \<and> pton4 (ntop4 (sin_addr sa)) = Some (sin_addr sa)
    | AF_INET6 \<Rightarrow> ipv6_text (ntop6 (sin6_addr sa)) \<and> pton6 (ntop6 (sin6_addr sa)) = Some (sin6_addr sa)
    | _ \<Rightarrow> False"
    and "sa_port sa \<noteq> 0"
  shows "\<exists>sb'. parse_ip_port pton4 pton6 (str_addr_port ntop4 ntop6 sa) sb allow_any = (0, sb') \<and>
    sa_af sb' = sa_af sa \<and> sa_port sb' = sa_port sa \<and>
    (if sa_af sa = AF_INET then sin_addr sb' = sin_addr sa else sin6_addr sb' = sin6_addr sa)"
proof -
  have "htons (sa_port sa) \<noteq> 0"
  proof
    assume "htons (sa_port sa) = 0"
    then have "htons (htons (sa_port sa)) = 0" by (simp add: htons_def)
    then show False using assms(2) by simp
  qed
  then have p: "0 < unat (htons (sa_port sa))" by (simp add: unat_gt_0)
  show ?thesis
  proof (cases "sa_af sa")
    case AF_INET
    then show ?thesis using parse_str_addr_port_ipv4 [of ntop4 sa pton4 pton6 ntop6 sb allow_any] assms(1) p by simp
  next
    case AF_INET6
    then show ?thesis using parse_str_addr_port_ipv6 [of ntop6 sa pton6 pton4 ntop4 sb allow_any] assms(1) p by simp
  qed (use assms(1) in simp_all)
qed

theorem address_roundtrip_witness:
  "\<exists>sb. parse_ip_port (\<lambda>_. Some [192, 0, 2, 1]) (\<lambda>_. None)
      (str_addr_port (\<lambda>_. [49, 46, 50, 46, 51, 46, 52]) (\<lambda>_. []) \<lparr>sa_af = AF_INET, sa_port = 53, sin_addr = [192, 0, 2, 1], sin6_addr = []\<rparr>)
      (fresh_sa AF_UNSPEC) False = (0, sb) \<and> sa_port sb = 53 \<and> sin_addr sb = [192, 0, 2, 1]"
  using address_roundtrip [of "\<lambda>_. [49, 46, 50, 46, 51, 46, 52]"
      "\<lparr>sa_af = AF_INET, sa_port = 53, sin_addr = [192, 0, 2, 1], sin6_addr = []\<rparr>" "\<lambda>_. Some [192, 0, 2, 1]" "\<lambda>_. []" "\<lambda>_. None"
      "fresh_sa AF_UNSPEC" False]
  by (auto simp: ipv4_text_def is_digit_def digit_value_def)

text \<open>
  C35. A network in CIDR notation gives its address and the mask of as many leading one bits as the number
  behind the slash says, for IPv4 up to 32 and for IPv6 up to 128. The result is zero, not the number of
  bits that \<open>inet.h\<close> promises. (For IPv4 and the number one this is by the wrap-around of a signed shift.)
\<close>

theorem cidr_masks:
  "(ipv4_text t \<longrightarrow> pton4 t = Some a \<longrightarrow> n \<le> 32 \<longrightarrow>
     (\<exists>m. parse_ipv4_cidr pton4 pton6 (t @ 47 # dec_digits n) ia netmask allow_any = (0, a, m) \<and> is_mask 4 m n)) \<and>
   (ipv6_text t \<longrightarrow> pton6 t = Some a \<longrightarrow> n \<le> 128 \<longrightarrow>
     (\<exists>m. parse_ipv6_cidr pton4 pton6 (t @ 47 # dec_digits n) ia netmask allow_any = (0, a, m) \<and> is_mask 16 m n))"
  using parse_ipv4_cidr_text parse_ipv6_cidr_text by blast

theorem cidr_masks_witness:
  "\<exists>m. parse_ipv4_cidr (\<lambda>_. Some [192, 0, 2, 0]) (\<lambda>_. None) ([49, 46, 50, 46, 51, 46, 52] @ 47 # dec_digits 22) [] [] False =
      (0, [192, 0, 2, 0], m) \<and> is_mask 4 m 22"
  using cidr_masks [of "[49, 46, 50, 46, 51, 46, 52]" "\<lambda>_. Some [192, 0, 2, 0]" "[192, 0, 2, 0]" 22]
  by (simp add: ipv4_text_def is_digit_def digit_value_def)

end
