(* ===== verification/Data_Properties.thy ===== *)
theory Data_Properties
  imports Bloom Combinations Hyperloglog Popcount
begin

text \<open>
  The properties of the data structures: Bloom filters, combinations, long multiplication, HyperLogLog and
  counting bits.
\<close>

text \<open>
  C36. Insert any hashes into a Bloom filter: all insertions succeed, the filter keeps its size, and a
  query answers yes exactly for the hashes whose bits were set before or by the inserted ones; so for
  every inserted hash it answers yes.
\<close>

theorem bloom_has_no_false_negatives:
  assumes "bloom_wf k flt" "\<forall>h \<in> set hs. hash_ok h"
  shows "\<exists>f'. bloom_set_all k flt hs = Some f' \<and> length f' = length flt \<and>
    (\<forall>h \<in> set hs. bloom_is_set f' h k = Some True) \<and>
    (\<forall>h. hash_ok h \<longrightarrow> bloom_is_set f' h k =
       Some (bloom_bits k (length flt) h \<subseteq> bits_of flt \<union> (\<Union>g \<in> set hs. bloom_bits k (length flt) g)))"
proof -
  obtain f' where f: "bloom_set_all k flt hs = Some f'" "bloom_wf k f'" "length f' = length flt"
    "bits_of f' = bits_of flt \<union> (\<Union>h \<in> set hs. bloom_bits k (length flt) h)"
    using bloom_set_all_eq [OF assms] by blast
  have q: "bloom_is_set f' h k = Some (bloom_bits k (length flt) h \<subseteq> bits_of f')" if "hash_ok h" for h
    using bloom_is_set_eq [OF f(2) that] f(3) by simp
  show ?thesis
  proof (intro exI conjI ballI allI impI)
    fix h assume h: "h \<in> set hs"
    then have "hash_ok h" using assms(2) by blast
    from q [OF this] show "bloom_is_set f' h k = Some True" using f(4) h by auto
  next
    fix h assume "hash_ok h"
    from q [OF this] show "bloom_is_set f' h k =
       Some (bloom_bits k (length flt) h \<subseteq> bits_of flt \<union> (\<Union>g \<in> set hs. bloom_bits k (length flt) g))"
      unfolding f(4) .
  qed (use f in simp_all)
qed

theorem bloom_has_no_false_negatives_witness:
  "\<exists>f'. bloom_set_all 3 (replicate 16 0) [[1, 2, 3, 4], [5, 6, 7, 8]] = Some f' \<and>
    bloom_is_set f' [5, 6, 7, 8] 3 = Some True"
  using bloom_has_no_false_negatives [of 3 "replicate 16 0" "[[1, 2, 3, 4], [5, 6, 7, 8]]"]
  by (simp add: bloom_wf_def hash_ok_def) blast

text \<open>
  C37. The combinations that the numbers below the binomial coefficient select are all combinations, and
  each of them once: \<open>lookup_combination\<close> is a bijection and never fails for
  these numbers.
\<close>

theorem combinations_are_enumerated:
  assumes "0 < k" "k \<le> n" "unat n choose unat k < 2 ^ 32"
  shows "unat (number_of_combinations n k) = unat n choose unat k \<and>
    (\<forall>c < number_of_combinations n k. \<exists>xs. lookup_combination n k c = Some xs \<and>
       length xs = unat k \<and> sorted_wrt (<) xs \<and> set xs \<subseteq> {..<unat n}) \<and>
    (\<forall>xs. length xs = unat k \<longrightarrow> sorted_wrt (<) xs \<longrightarrow> set xs \<subseteq> {..<unat n} \<longrightarrow>
       (\<exists>!c. c < number_of_combinations n k \<and> lookup_combination n k c = Some xs))"
proof -
  let ?n = "unat n" and ?k = "unat k" let ?cs = "combs ?n ?n ?k"
  have le: "?k \<le> ?n" using assms(2) by (simp add: word_le_nat_alt)
  have num: "unat (number_of_combinations n k) = ?n choose ?k"
    using assms(3) le by (simp add: number_of_combinations_eq unat_of_nat)
  have l: "lookup_combination n k c = Some (?cs ! unat c) \<and> unat c < length ?cs"
    if "c < number_of_combinations n k" for c
    using lookup_combination_eq [OF assms, of c] that num by (simp add: word_less_nat_alt length_combs)
  have s: "set ?cs = {xs. length xs = ?k \<and> sorted_wrt (<) xs \<and> set xs \<subseteq> {..<?n}}"
    by (simp add: set_combs atLeast0LessThan)
  have a: "\<forall>c < number_of_combinations n k. \<exists>xs. lookup_combination n k c = Some xs \<and>
      length xs = ?k \<and> sorted_wrt (<) xs \<and> set xs \<subseteq> {..<?n}"
  proof (intro allI impI)
    fix c assume "c < number_of_combinations n k"
    note lc = l [OF this]
    then have "?cs ! unat c \<in> set ?cs" by simp
    then show "\<exists>xs. lookup_combination n k c = Some xs \<and> length xs = ?k \<and> sorted_wrt (<) xs \<and> set xs \<subseteq> {..<?n}"
      using lc s by blast
  qed
  have "\<exists>!c. c < number_of_combinations n k \<and> lookup_combination n k c = Some xs"
    if xs: "length xs = ?k" "sorted_wrt (<) xs" "set xs \<subseteq> {..<?n}" for xs
  proof -
    have "xs \<in> set ?cs" using xs s by blast
    then obtain i where i: "i < length ?cs" "?cs ! i = xs" by (auto simp: in_set_conv_nth)
    let ?c = "of_nat i :: u32"
    have ui: "unat ?c = i" using i(1) assms(3) by (simp add: unat_of_nat length_combs)
    have c: "?c < number_of_combinations n k" using i(1) ui num by (simp add: word_less_nat_alt length_combs)
    show ?thesis
    proof (rule ex1I [of _ ?c])
      show "?c < number_of_combinations n k \<and> lookup_combination n k ?c = Some xs" using c l [OF c] ui i(2) by simp
      fix d assume d: "d < number_of_combinations n k \<and> lookup_combination n k d = Some xs"
      then have "?cs ! unat d = ?cs ! i" "unat d < length ?cs" using l [of d] i(2) by auto
      then have "unat d = i" using i(1) distinct_combs [of ?n ?n ?k] by (simp add: nth_eq_iff_index_eq)
      then show "d = ?c" using ui by (simp add: word_unat_eq_iff)
    qed
  qed
  with num a show ?thesis by blast
qed

theorem combinations_are_enumerated_witness:
  "\<exists>!c. c < number_of_combinations 5 2 \<and> lookup_combination 5 2 c = Some [1, 4]"
proof -
  have c: "unat (5 :: u32) choose unat (2 :: u32) < 2 ^ 32" by (simp add: choose_two)
  have k: "length [1, 4 :: nat] = unat (2 :: u32)" "sorted_wrt (<) [1, 4 :: nat]" "set [1, 4 :: nat] \<subseteq> {..<unat (5 :: u32)}"
    by simp_all
  have a: "(0 :: u32) < 2" "(2 :: u32) \<le> 5" by simp_all
  show ?thesis using combinations_are_enumerated [OF a c] k by blast
qed

text \<open>
  C38. The two versions of the multiplication of a byte slice by a word, in C and in assembly, give the
  same, and what they give is exact: the slice and the overflow are the product.
\<close>

theorem multiplications_are_exact:
  assumes "length s mod 8 = 0"
  shows "byte_slice_mul64_asm s m = byte_slice_mul64_noasm s m \<and>
    byte_slice_mul32_asm s m' = byte_slice_mul32_noasm s m' \<and>
    (\<exists>s' ov. byte_slice_mul64_noasm s m = Some (s', ov) \<and> length s' = length s \<and>
      bytes_val s' + 256 ^ length s * unat ov = bytes_val s * unat m) \<and>
    (\<exists>s' ov. byte_slice_mul32_noasm s m' = Some (s', ov) \<and> length s' = length s \<and>
      bytes_val s' + 256 ^ length s * unat ov = bytes_val s * unat m')"
proof -
  have "length s mod 4 = 0" using assms by presburger
  from byte_slice_mul64_eq [OF assms, of m] byte_slice_mul32_eq [OF this, of m'] show ?thesis
    by (simp add: byte_slice_mul64_asm_eq byte_slice_mul32_asm_eq) blast
qed

theorem multiplications_are_exact_witness:
  "\<exists>s' ov. byte_slice_mul64_asm [255, 0, 0, 0, 0, 0, 0, 255] 256 = Some (s', ov) \<and> length s' = 8"
  using multiplications_are_exact [of "[255, 0, 0, 0, 0, 0, 0, 255]" 256 1] by auto

text \<open>
  C39. A HyperLogLog depends neither on the order nor on the repetition of the elements, nor on its form:
  what two sequences of the same elements leave in a new one, also after it is made dense, has the same
  registers and gives the same estimate.
\<close>

theorem sketch_depends_on_elements:
  assumes "set xs = set ys"
  shows "\<exists>new a b d. hllInit True = Some new \<and> hll_add_all new xs = Some a \<and> hll_add_all new ys = Some b \<and>
    hllSparseToDense b = Some (d, C_OK) \<and> hll_encoding d = HLL_DENSE \<and> hll_regs a = hll_regs d \<and>
    (\<not> hll_valid_cache a \<longrightarrow> \<not> hll_valid_cache d \<longrightarrow>
      (\<exists>a' d' n. hllCount a = Some (a', n, False) \<and> hllCount d = Some (d', n, False)))"
proof -
  obtain new where new: "hllInit True = Some new" "hll_wf new" using hllInit_eq by blast
  obtain a where a: "hll.add_all new xs = Some a" "hll_wf a" using hll.add_all [OF new(2)] by blast
  obtain b where b: "hll.add_all new ys = Some b" "hll_wf b" using hll.add_all [OF new(2)] by blast
  have r: "hll_regs a = hll_regs b" by (rule hll.order_irrelevant [OF new(2) assms a(1) b(1)])
  obtain d where d: "hllSparseToDense b = Some (d, C_OK)" "hll_encoding d = HLL_DENSE" "hll_wf d" "hll_regs d = hll_regs b"
    using hllSparseToDense_eq [OF b(2)] by blast
  have "\<exists>a' d' n. hllCount a = Some (a', n, False) \<and> hllCount d = Some (d', n, False)"
    if "\<not> hll_valid_cache a" "\<not> hll_valid_cache d"
    using hllCount_eq [OF a(2) that(1)] hllCount_eq [OF d(3) that(2)] r d(4) by (auto simp: Let_def)
  then show ?thesis using new(1) a(1) b(1) d r by (auto simp: hll_add_all_eq)
qed

theorem sketch_depends_on_elements_witness:
  "\<exists>new a b. hllInit True = Some new \<and> hll_add_all new [1, 2, 1] = Some a \<and> hll_add_all new [2, 1] = Some b \<and>
    hll_regs a = hll_regs b"
proof -
  obtain new a b d where n: "hllInit True = Some new" "hll_add_all new [1, 2, 1] = Some a"
    "hll_add_all new [2, 1] = Some b" "hllSparseToDense b = Some (d, C_OK)" "hll_regs a = hll_regs d"
    using sketch_depends_on_elements [of "[1, 2, 1]" "[2, 1]"] by auto
  obtain new' where new: "hllInit True = Some new'" "hll_wf new'" using hllInit_eq by blast
  have "hll_wf b" using n(1,3) new hll.add_all [of new "[2, 1]"] by (auto simp: hll_add_all_eq)
  then have "hll_regs d = hll_regs b" using hllSparseToDense_eq [of b] n(4) by auto
  with n show ?thesis by auto
qed

end
