(* ===== verification/Uthash.thy ===== *)
theory Uthash
  imports Honas_Base
begin

text \<open>
  The hash table \<open>uthash\<close> (\<open>src/include/uthash.h\<close>), as the program uses it: an element contains its handle, and
  the handles form two kinds of doubly linked lists, one through all elements in the order in which
  they were added, and one for every bucket. The operations are macros on pointers; here they are
  functions on a heap of elements. An element and its handle have the same address, since the offset
  between them is fixed. An access to an element that is not there, a failed allocation and a chain that
  does not end are \<open>None\<close>. The options for debugging, the Bloom filter and other hash functions are not
  compiled in.
\<close>

section \<open>Elements and the table\<close>

type_synonym addr = nat

text \<open>An element: its key and value, and the handle. All handles refer to the one table.\<close>

record 'v element =
  el_key :: bytes
  el_val :: 'v
  app_prev :: "addr option"
  app_next :: "addr option"
  hh_prev :: "addr option"
  hh_next :: "addr option"
  keylen :: u32
  hashv :: u32

record hash_bucket =
  hh_head :: "addr option"
  bkt_count :: u32
  expand_mult :: u32

record hash_table =
  buckets :: "hash_bucket list"
  num_buckets :: u32
  log2_num_buckets :: u32
  num_items :: u32
  tail :: addr
  ideal_chain_maxlen :: u32
  nonideal_items :: u32
  ineff_expands :: u32
  noexpand :: u32

type_synonym 'v heap = "addr \<rightharpoonup> 'v element"

record 'v uthash =
  ut_heap :: "'v heap"
  ut_head :: "addr option"
  ut_tbl :: "hash_table option"

abbreviation (input) HASH_INITIAL_NUM_BUCKETS :: nat where "HASH_INITIAL_NUM_BUCKETS \<equiv> 32"
abbreviation (input) HASH_BKT_CAPACITY_THRESH :: u32 where "HASH_BKT_CAPACITY_THRESH \<equiv> 10"
abbreviation (input) SIZEOF_TABLE :: nat where "SIZEOF_TABLE \<equiv> 64"
abbreviation (input) SIZEOF_BUCKET :: nat where "SIZEOF_BUCKET \<equiv> 16"

definition empty_bucket :: hash_bucket where
  "empty_bucket = \<lparr>hh_head = None, bkt_count = 0, expand_mult = 0\<rparr>"

definition modify :: "('v element \<Rightarrow> 'v element) \<Rightarrow> addr \<Rightarrow> 'v heap \<Rightarrow> 'v heap option" where
  "modify f a h = (case h a of None \<Rightarrow> None | Some e \<Rightarrow> Some (h(a \<mapsto> f e)))"

text \<open>An assignment through a pointer that may be NULL, then nothing happens.\<close>

definition modify_opt :: "('v element \<Rightarrow> 'v element) \<Rightarrow> addr option \<Rightarrow> 'v heap \<Rightarrow> 'v heap option" where
  "modify_opt f p h = (case p of None \<Rightarrow> Some h | Some a \<Rightarrow> modify f a h)"

section \<open>The hash function\<close>

text \<open>
  The key is an array of signed characters, which are extended before they are shifted. It has fewer than
  \<open>2 ^ 32\<close> bytes.
\<close>

definition schar :: "u8 \<Rightarrow> u32" where "schar b = scast b"

definition jen_mix :: "u32 \<times> u32 \<times> u32 \<Rightarrow> u32 \<times> u32 \<times> u32" where
  "jen_mix = (\<lambda>(a, b, c).
     let a = (a - b - c) XOR drop_bit 13 c;
         b = (b - c - a) XOR push_bit 8 a;
         c = (c - a - b) XOR drop_bit 13 b;
         a = (a - b - c) XOR drop_bit 12 c;
         b = (b - c - a) XOR push_bit 16 a;
         c = (c - a - b) XOR drop_bit 5 b;
         a = (a - b - c) XOR drop_bit 3 c;
         b = (b - c - a) XOR push_bit 10 a;
         c = (c - a - b) XOR drop_bit 15 b
     in (a, b, c))"

definition jen_word :: "bytes \<Rightarrow> nat \<Rightarrow> u32" where
  "jen_word k n = schar (k ! n) + push_bit 8 (schar (k ! (n + 1))) + push_bit 16 (schar (k ! (n + 2))) +
     push_bit 24 (schar (k ! (n + 3)))"

fun jen_blocks :: "bytes \<Rightarrow> u32 \<times> u32 \<times> u32 \<Rightarrow> bytes \<times> u32 \<times> u32 \<times> u32" where
  "jen_blocks k (i, j, h) =
     (if 12 \<le> length k
      then jen_blocks (drop 12 k) (jen_mix (i + jen_word k 0, j + jen_word k 4, h + jen_word k 8))
      else (k, i, j, h))"

declare jen_blocks.simps [simp del]

text \<open>The cases of the \<open>switch\<close> fall through.\<close>

definition jen_add :: "bytes \<Rightarrow> nat \<Rightarrow> nat \<Rightarrow> u32" where
  "jen_add k n s = (if n < length k then push_bit s (schar (k ! n)) else 0)"

definition hash_jen :: "bytes \<Rightarrow> u32" where
  "hash_jen key =
     (let (k, i, j, h) = jen_blocks key (0x9e3779b9, 0x9e3779b9, 0xfeedbeef);
          h = h + of_nat (length key);
          h = h + jen_add k 10 24 + jen_add k 9 16 + jen_add k 8 8;
          j = j + jen_add k 7 24 + jen_add k 6 16 + jen_add k 5 8 + jen_add k 4 0;
          i = i + jen_add k 3 24 + jen_add k 2 16 + jen_add k 1 8 + jen_add k 0 0
      in snd (snd (jen_mix (i, j, h))))"

definition hash_to_bkt :: "u32 \<Rightarrow> u32 \<Rightarrow> nat" where
  "hash_to_bkt hv num_bkts = unat (hv AND (num_bkts - 1))"

section \<open>Finding\<close>

partial_function (option) find_in_bkt :: "'v heap \<Rightarrow> bytes \<Rightarrow> addr option \<Rightarrow> addr option option" where
  "find_in_bkt h key out =
     (case out of
        None \<Rightarrow> Some None
      | Some a \<Rightarrow> do {
          e \<leftarrow> h a;
          if unat (keylen e) = length key \<and> take (length key) (el_key e) = key then Some (Some a)
          else find_in_bkt h key (hh_next e)
        })"

definition hash_find :: "bytes \<Rightarrow> 'v uthash \<Rightarrow> addr option option" where
  "hash_find key s =
     (case ut_head s of
        None \<Rightarrow> Some None
      | Some first \<Rightarrow> do {
          _ \<leftarrow> ut_heap s first;
          t \<leftarrow> ut_tbl s;
          let b = hash_to_bkt (hash_jen key) (num_buckets t);
          c_assert (b < length (buckets t));
          find_in_bkt (ut_heap s) key (hh_head (buckets t ! b))
        })"

section \<open>Adding\<close>

text \<open>Moving a chain into the new buckets, element by element.\<close>

definition count_item :: "u32 \<Rightarrow> hash_bucket \<Rightarrow> u32 \<Rightarrow> (hash_bucket \<times> u32) option" where
  "count_item ideal bk nonideal =
     (let bk = bk\<lparr>bkt_count := bkt_count bk + 1\<rparr>
      in if bkt_count bk > ideal then do {
           c_assert (ideal \<noteq> 0);
           Some (bk\<lparr>expand_mult := bkt_count bk div ideal\<rparr>, nonideal + 1)
         }
         else Some (bk, nonideal))"

partial_function (option) move_chain ::
  "u32 \<Rightarrow> u32 \<Rightarrow> addr option \<Rightarrow> 'v heap \<Rightarrow> hash_bucket list \<Rightarrow> u32 \<Rightarrow> ('v heap \<times> hash_bucket list \<times> u32) option" where
  "move_chain ideal num thh h bs nonideal =
     (case thh of
        None \<Rightarrow> Some (h, bs, nonideal)
      | Some a \<Rightarrow> do {
          e \<leftarrow> h a;
          let nxt = hh_next e;
          let b = hash_to_bkt (hashv e) num;
          c_assert (b < length bs);
          (bk, nonideal) \<leftarrow> count_item ideal (bs ! b) nonideal;
          h \<leftarrow> modify (\<lambda>e. e\<lparr>hh_prev := None, hh_next := hh_head bk\<rparr>) a h;
          h \<leftarrow> modify_opt (\<lambda>e. e\<lparr>hh_prev := Some a\<rparr>) (hh_head bk) h;
          move_chain ideal num nxt h (bs[b := bk\<lparr>hh_head := Some a\<rparr>]) nonideal
        })"

fun move_chains ::
  "u32 \<Rightarrow> u32 \<Rightarrow> hash_bucket list \<Rightarrow> 'v heap \<Rightarrow> hash_bucket list \<Rightarrow> u32 \<Rightarrow> ('v heap \<times> hash_bucket list \<times> u32) option" where
  "move_chains ideal num [] h bs nonideal = Some (h, bs, nonideal)"
| "move_chains ideal num (old # olds) h bs nonideal = do {
     (h, bs, nonideal) \<leftarrow> move_chain ideal num (hh_head old) h bs nonideal;
     move_chains ideal num olds h bs nonideal
   }"

definition hash_expand_buckets :: "(nat \<Rightarrow> bool) \<Rightarrow> 'v heap \<Rightarrow> hash_table \<Rightarrow> ('v heap \<times> hash_table) option" where
  "hash_expand_buckets malloc h t = do {
     let num = 2 * num_buckets t;
     c_assert (malloc (unat num * SIZEOF_BUCKET));
     let ideal = drop_bit (unat (log2_num_buckets t + 1)) (num_items t) + (if num_items t AND (num - 1) \<noteq> 0 then 1 else 0);
     c_assert (unat (num_buckets t) \<le> length (buckets t));
     (h, bs, nonideal) \<leftarrow> move_chains ideal num (take (unat (num_buckets t)) (buckets t)) h
       (replicate (unat num) empty_bucket) 0;
     let ineff = (if nonideal > drop_bit 1 (num_items t) then ineff_expands t + 1 else 0);
     Some (h, t\<lparr>buckets := bs, num_buckets := num, log2_num_buckets := log2_num_buckets t + 1,
       ideal_chain_maxlen := ideal, nonideal_items := nonideal, ineff_expands := ineff,
       noexpand := (if ineff > 1 then 1 else noexpand t)\<rparr>)
   }"

definition hash_add_to_bkt ::
  "(nat \<Rightarrow> bool) \<Rightarrow> nat \<Rightarrow> addr \<Rightarrow> 'v heap \<Rightarrow> hash_table \<Rightarrow> ('v heap \<times> hash_table) option" where
  "hash_add_to_bkt malloc b a h t = do {
     c_assert (b < length (buckets t));
     let bk = buckets t ! b;
     h \<leftarrow> modify (\<lambda>e. e\<lparr>hh_next := hh_head bk, hh_prev := None\<rparr>) a h;
     h \<leftarrow> modify_opt (\<lambda>e. e\<lparr>hh_prev := Some a\<rparr>) (hh_head bk) h;
     let bk = bk\<lparr>bkt_count := bkt_count bk + 1, hh_head := Some a\<rparr>;
     let t = t\<lparr>buckets := (buckets t)[b := bk]\<rparr>;
     if bkt_count bk \<ge> (expand_mult bk + 1) * HASH_BKT_CAPACITY_THRESH \<and> noexpand t \<noteq> 1
     then hash_expand_buckets malloc h t
     else Some (h, t)
   }"

definition hash_make_table :: "(nat \<Rightarrow> bool) \<Rightarrow> addr \<Rightarrow> hash_table option" where
  "hash_make_table malloc a = do {
     c_assert (malloc SIZEOF_TABLE);
     c_assert (malloc (HASH_INITIAL_NUM_BUCKETS * SIZEOF_BUCKET));
     Some \<lparr>buckets = replicate HASH_INITIAL_NUM_BUCKETS empty_bucket, num_buckets = of_nat HASH_INITIAL_NUM_BUCKETS,
       log2_num_buckets = 5, num_items = 0, tail = a, ideal_chain_maxlen = 0, nonideal_items = 0,
       ineff_expands = 0, noexpand = 0\<rparr>
   }"

text \<open>The element is there already, with its key and value; the links of its handle are not set yet.\<close>

definition hash_add :: "(nat \<Rightarrow> bool) \<Rightarrow> addr \<Rightarrow> 'v uthash \<Rightarrow> 'v uthash option" where
  "hash_add malloc a s = do {
     e \<leftarrow> ut_heap s a;
     let key = el_key e;
     h \<leftarrow> modify (\<lambda>e. e\<lparr>app_next := None, keylen := of_nat (length key)\<rparr>) a (ut_heap s);
     (h, first, t) \<leftarrow> (case ut_head s of
         None \<Rightarrow> do {
           h \<leftarrow> modify (\<lambda>e. e\<lparr>app_prev := None\<rparr>) a h;
           t \<leftarrow> hash_make_table malloc a;
           Some (h, a, t)
         }
       | Some first \<Rightarrow> do {
           _ \<leftarrow> h first;
           t \<leftarrow> ut_tbl s;
           h \<leftarrow> modify (\<lambda>e. e\<lparr>app_next := Some a\<rparr>) (tail t) h;
           h \<leftarrow> modify (\<lambda>e. e\<lparr>app_prev := Some (tail t)\<rparr>) a h;
           Some (h, first, t\<lparr>tail := a\<rparr>)
         });
     let t = t\<lparr>num_items := num_items t + 1\<rparr>;
     let hv = hash_jen key;
     h \<leftarrow> modify (\<lambda>e. e\<lparr>hashv := hv\<rparr>) a h;
     (h, t) \<leftarrow> hash_add_to_bkt malloc (hash_to_bkt hv (num_buckets t)) a h t;
     Some \<lparr>ut_heap = h, ut_head = Some first, ut_tbl = Some t\<rparr>
   }"

section \<open>Deleting\<close>

definition hash_del_in_bkt :: "nat \<Rightarrow> addr \<Rightarrow> 'v heap \<Rightarrow> hash_bucket list \<Rightarrow> ('v heap \<times> hash_bucket list) option" where
  "hash_del_in_bkt b a h bs = do {
     c_assert (b < length bs);
     e \<leftarrow> h a;
     let bk = (bs ! b)\<lparr>bkt_count := bkt_count (bs ! b) - 1\<rparr>;
     let bk = (if hh_head bk = Some a then bk\<lparr>hh_head := hh_next e\<rparr> else bk);
     h \<leftarrow> modify_opt (\<lambda>p. p\<lparr>hh_next := hh_next e\<rparr>) (hh_prev e) h;
     h \<leftarrow> modify_opt (\<lambda>n. n\<lparr>hh_prev := hh_prev e\<rparr>) (hh_next e) h;
     Some (h, bs[b := bk])
   }"

text \<open>The last element takes the table with it.\<close>

definition hash_delete :: "addr \<Rightarrow> 'v uthash \<Rightarrow> 'v uthash option" where
  "hash_delete a s = do {
     e \<leftarrow> ut_heap s a;
     t \<leftarrow> ut_tbl s;
     first \<leftarrow> ut_head s;
     _ \<leftarrow> ut_heap s first;
     if app_prev e = None \<and> app_next e = None then Some (s\<lparr>ut_head := None, ut_tbl := None\<rparr>)
     else do {
       tl \<leftarrow> (if a = tail t then app_prev e else Some (tail t));
       h \<leftarrow> modify_opt (\<lambda>p. p\<lparr>app_next := app_next e\<rparr>) (app_prev e) (ut_heap s);
       let first = (if app_prev e = None then app_next e else ut_head s);
       h \<leftarrow> modify_opt (\<lambda>n. n\<lparr>app_prev := app_prev e\<rparr>) (app_next e) h;
       (h, bs) \<leftarrow> hash_del_in_bkt (hash_to_bkt (hashv e) (num_buckets t)) a h (buckets t);
       Some \<lparr>ut_heap = h, ut_head = first, ut_tbl = Some (t\<lparr>tail := tl, buckets := bs, num_items := num_items t - 1\<rparr>)\<rparr>
     }
   }"

section \<open>Deleting all elements\<close>

text \<open>\<open>HASH_ITER\<close> with a body that deletes and frees the element; the next one is read before.\<close>

definition free_element :: "addr \<Rightarrow> 'v uthash \<Rightarrow> 'v uthash option" where
  "free_element a s = (case ut_heap s a of None \<Rightarrow> None | Some _ \<Rightarrow> Some (s\<lparr>ut_heap := (ut_heap s)(a := None)\<rparr>))"

definition next_of :: "addr option \<Rightarrow> 'v uthash \<Rightarrow> addr option option" where
  "next_of p s = (case p of None \<Rightarrow> Some None | Some a \<Rightarrow> map_option app_next (ut_heap s a))"

partial_function (option) delete_loop :: "addr option \<Rightarrow> addr option \<Rightarrow> 'v uthash \<Rightarrow> 'v uthash option" where
  "delete_loop el tmp s =
     (case el of
        None \<Rightarrow> Some s
      | Some a \<Rightarrow> do {
          s \<leftarrow> hash_delete a s;
          s \<leftarrow> free_element a s;
          nxt \<leftarrow> next_of tmp s;
          delete_loop tmp nxt s
        })"

definition hash_delete_all :: "'v uthash \<Rightarrow> 'v uthash option" where
  "hash_delete_all s = do {
     nxt \<leftarrow> next_of (ut_head s) s;
     delete_loop (ut_head s) nxt s
   }"

end
