(* ===== verification/Uthash_Links.thy ===== *)
theory Uthash_Links
  imports Uthash "HOL-Library.Multiset"
begin

text \<open>
  The linked lists of the hash table. What an operation does to the heap is seen through three views,
  the links of one kind, those of the other, and the data; a doubly linked list is then a predicate on
  a view, and its lemmas serve the order of the elements and the chains of the buckets alike.
\<close>

section \<open>Views of the heap\<close>

type_synonym links = "addr \<rightharpoonup> addr option \<times> addr option"

definition app_view :: "'v heap \<Rightarrow> links" where
  "app_view h a = map_option (\<lambda>e. (app_prev e, app_next e)) (h a)"

definition chn_view :: "'v heap \<Rightarrow> links" where
  "chn_view h a = map_option (\<lambda>e. (hh_prev e, hh_next e)) (h a)"

definition dat_view :: "'v heap \<Rightarrow> addr \<rightharpoonup> bytes \<times> 'v \<times> u32 \<times> u32" where
  "dat_view h a = map_option (\<lambda>e. (el_key e, el_val e, keylen e, hashv e)) (h a)"

lemmas views = app_view_def chn_view_def dat_view_def

definition set_next :: "addr option \<Rightarrow> addr option \<Rightarrow> links \<Rightarrow> links" where
  "set_next p q v = (case p of None \<Rightarrow> v | Some a \<Rightarrow> v(a := map_option (\<lambda>(x, _). (x, q)) (v a)))"

definition set_prev :: "addr option \<Rightarrow> addr option \<Rightarrow> links \<Rightarrow> links" where
  "set_prev p q v = (case p of None \<Rightarrow> v | Some a \<Rightarrow> v(a := map_option (\<lambda>(_, y). (q, y)) (v a)))"

lemma modify_eq [simp]: "h a = Some e \<Longrightarrow> modify f a h = Some (h(a \<mapsto> f e))"
  by (simp add: modify_def)

lemma modify_opt_simps [simp]: "modify_opt f None h = Some h" "modify_opt f (Some a) h = modify f a h"
  by (simp_all add: modify_opt_def)

lemma view_upd:
  "app_view (h(a \<mapsto> e)) = (app_view h)(a \<mapsto> (app_prev e, app_next e))"
  "chn_view (h(a \<mapsto> e)) = (chn_view h)(a \<mapsto> (hh_prev e, hh_next e))"
  "dat_view (h(a \<mapsto> e)) = (dat_view h)(a \<mapsto> (el_key e, el_val e, keylen e, hashv e))"
  by (auto simp: views fun_eq_iff)

lemma view_same:
  assumes "h a = Some e"
  shows "(app_view h)(a \<mapsto> (app_prev e, app_next e)) = app_view h" "(chn_view h)(a \<mapsto> (hh_prev e, hh_next e)) = chn_view h"
    "(dat_view h)(a \<mapsto> (el_key e, el_val e, keylen e, hashv e)) = dat_view h"
  using assms by (auto simp: views fun_eq_iff)

text \<open>The assignments that occur, on the views.\<close>

definition there :: "addr option \<Rightarrow> 'v heap \<Rightarrow> bool" where
  "there p h \<longleftrightarrow> (\<forall>a. p = Some a \<longrightarrow> h a \<noteq> None)"

lemma there_simps [simp]: "there None h" "there (Some a) h = (h a \<noteq> None)"
  by (simp_all add: there_def)

lemma assign_app_next:
  assumes "there p h"
  shows "\<exists>h'. modify_opt (\<lambda>e. e\<lparr>app_next := q\<rparr>) p h = Some h' \<and> dom h' = dom h \<and>
    app_view h' = set_next p q (app_view h) \<and> chn_view h' = chn_view h \<and> dat_view h' = dat_view h"
proof (cases p)
  case (Some a)
  then obtain e where e: "h a = Some e" using assms by auto
  then have "dom (h(a \<mapsto> e')) = dom h" for e' by auto
  with Some e show ?thesis by (auto simp: view_upd view_same [where e = e] e set_next_def) (simp add: views e)
qed (simp add: set_next_def)

lemma assign_app_prev:
  assumes "there p h"
  shows "\<exists>h'. modify_opt (\<lambda>e. e\<lparr>app_prev := q\<rparr>) p h = Some h' \<and> dom h' = dom h \<and>
    app_view h' = set_prev p q (app_view h) \<and> chn_view h' = chn_view h \<and> dat_view h' = dat_view h"
proof (cases p)
  case (Some a)
  then obtain e where e: "h a = Some e" using assms by auto
  then have "dom (h(a \<mapsto> e')) = dom h" for e' by auto
  with Some e show ?thesis by (auto simp: view_upd view_same [where e = e] e set_prev_def) (simp add: views e)
qed (simp add: set_prev_def)

lemma assign_hh_next:
  assumes "there p h"
  shows "\<exists>h'. modify_opt (\<lambda>e. e\<lparr>hh_next := q\<rparr>) p h = Some h' \<and> dom h' = dom h \<and>
    chn_view h' = set_next p q (chn_view h) \<and> app_view h' = app_view h \<and> dat_view h' = dat_view h"
proof (cases p)
  case (Some a)
  then obtain e where e: "h a = Some e" using assms by auto
  then have "dom (h(a \<mapsto> e')) = dom h" for e' by auto
  with Some e show ?thesis by (auto simp: view_upd view_same [where e = e] e set_next_def) (simp add: views e)
qed (simp add: set_next_def)

lemma assign_hh_prev:
  assumes "there p h"
  shows "\<exists>h'. modify_opt (\<lambda>e. e\<lparr>hh_prev := q\<rparr>) p h = Some h' \<and> dom h' = dom h \<and>
    chn_view h' = set_prev p q (chn_view h) \<and> app_view h' = app_view h \<and> dat_view h' = dat_view h"
proof (cases p)
  case (Some a)
  then obtain e where e: "h a = Some e" using assms by auto
  then have "dom (h(a \<mapsto> e')) = dom h" for e' by auto
  with Some e show ?thesis by (auto simp: view_upd view_same [where e = e] e set_prev_def) (simp add: views e)
qed (simp add: set_prev_def)

section \<open>Segments\<close>

definition first_of :: "addr list \<Rightarrow> addr option \<Rightarrow> addr option" where
  "first_of xs q = (case xs of [] \<Rightarrow> q | a # _ \<Rightarrow> Some a)"

definition last_of :: "addr list \<Rightarrow> addr option \<Rightarrow> addr option" where
  "last_of xs p = (if xs = [] then p else Some (last xs))"

lemma first_of_simps [simp]:
  "first_of [] q = q" "first_of (a # xs) q = Some a" "first_of (xs @ ys) q = first_of xs (first_of ys q)"
  by (auto simp: first_of_def split: list.splits)

lemma last_of_simps [simp]: "last_of [] p = p" "last_of (a # xs) p = last_of xs (Some a)" "last_of (xs @ [a]) p = Some a"
  by (simp_all add: last_of_def)

lemma last_of_append [simp]: "last_of (xs @ ys) p = last_of ys (last_of xs p)"
  by (auto simp: last_of_def)

lemma first_of_mem: "first_of xs None = Some a \<Longrightarrow> a \<in> set xs"
  by (auto simp: first_of_def split: list.splits)

lemma last_of_mem: "last_of xs None = Some a \<Longrightarrow> a \<in> set xs"
  by (auto simp: last_of_def split: if_splits)

fun seg :: "links \<Rightarrow> addr option \<Rightarrow> addr list \<Rightarrow> addr option \<Rightarrow> bool" where
  "seg v p [] q = True"
| "seg v p (a # xs) q = (v a = Some (p, first_of xs q) \<and> seg v (Some a) xs q)"

lemma seg_append [simp]:
  "seg v p (xs @ ys) q = (seg v p xs (first_of ys q) \<and> seg v (last_of xs p) ys q)"
  by (induction xs arbitrary: p) auto

lemma seg_dom: "seg v p xs q \<Longrightarrow> a \<in> set xs \<Longrightarrow> v a \<noteq> None"
  by (induction xs arbitrary: p) auto

lemma seg_unique: "seg v p xs None \<Longrightarrow> seg v p ys None \<Longrightarrow> first_of xs None = first_of ys None \<Longrightarrow> xs = ys"
proof (induction xs arbitrary: p ys)
  case Nil
  then show ?case by (cases ys) auto
next
  case (Cons a xs)
  then obtain zs where ys: "ys = a # zs" by (cases ys) auto
  then have "xs = zs" using Cons.IH [of "Some a" zs] Cons.prems by auto
  then show ?case using ys by simp
qed

lemma seg_cong: "\<forall>a \<in> set xs. v' a = v a \<Longrightarrow> seg v' p xs q = seg v p xs q"
  by (induction xs arbitrary: p) auto

lemma seg_upd [simp]: "a \<notin> set xs \<Longrightarrow> seg (v(a := y)) p xs q = seg v p xs q"
  by (rule seg_cong) auto

lemma set_next_other: "p \<noteq> Some a \<Longrightarrow> set_next p q v a = v a" "p \<noteq> Some a \<Longrightarrow> set_prev p q v a = v a"
  by (auto simp: set_next_def set_prev_def split: option.splits)

lemma seg_set_next_other: "\<forall>a. p = Some a \<longrightarrow> a \<notin> set xs \<Longrightarrow> seg (set_next p q v) x xs y = seg v x xs y"
  by (rule seg_cong) (auto intro!: set_next_other)

lemma seg_set_prev_other: "\<forall>a. p = Some a \<longrightarrow> a \<notin> set xs \<Longrightarrow> seg (set_prev p q v) x xs y = seg v x xs y"
  by (rule seg_cong) (auto intro!: set_next_other)

text \<open>A new end and a new beginning.\<close>

lemma seg_new_end:
  assumes "seg v p xs q" "distinct xs"
  shows "seg (set_next (last_of xs None) q' v) p xs q'"
proof (cases xs rule: rev_cases)
  case (snoc ys z)
  then have "seg (set_next (Some z) q' v) p ys (Some z)" using assms by (subst seg_set_next_other) auto
  then show ?thesis using snoc assms by (auto simp: set_next_def)
qed simp

lemma seg_new_start:
  assumes "seg v p xs q" "distinct xs"
  shows "seg (set_prev (first_of xs None) p' v) p' xs q"
proof (cases xs)
  case (Cons a ys)
  then have "seg (set_prev (Some a) p' v) (Some a) ys q" using assms by (subst seg_set_prev_other) auto
  then show ?thesis using Cons assms by (auto simp: set_prev_def)
qed simp

lemma seg_push:
  assumes "seg v None xs None" "distinct xs" "a \<notin> set xs"
  shows "seg (set_prev (first_of xs None) (Some a) (v(a \<mapsto> (None, first_of xs None)))) None (a # xs) None"
proof -
  have "seg (set_prev (first_of xs None) (Some a) (v(a \<mapsto> (None, first_of xs None)))) (Some a) xs None"
    using assms by (intro seg_new_start [of _ None]) auto
  moreover have "first_of xs None \<noteq> Some a" using assms(3) first_of_mem by fastforce
  ultimately show ?thesis by (simp add: set_next_other)
qed

lemma seg_snoc:
  assumes "seg v p xs None" "distinct xs" "a \<notin> set xs"
  shows "seg ((set_next (last_of xs None) (Some a) v)(a \<mapsto> (last_of xs p, None))) p (xs @ [a]) None"
  using assms seg_new_end [OF assms(1,2), of "Some a"] by simp

lemma seg_remove:
  assumes "seg v None (xs @ a # ys) None" "distinct (xs @ a # ys)"
  shows "v a = Some (last_of xs None, first_of ys None) \<and>
    seg (set_prev (first_of ys None) (last_of xs None) (set_next (last_of xs None) (first_of ys None) v)) None (xs @ ys) None"
proof -
  let ?v = "set_next (last_of xs None) (first_of ys None) v"
  have x: "seg ?v None xs (first_of ys None)" using assms by (intro seg_new_end) auto
  have y: "seg ?v (Some a) ys None" using assms by (subst seg_set_next_other) (auto dest: last_of_mem)
  have "seg (set_prev (first_of ys None) (last_of xs None) ?v) None xs (first_of ys None)"
    using x assms(2) by (subst seg_set_prev_other) (auto dest: first_of_mem)
  moreover have "seg (set_prev (first_of ys None) (last_of xs None) ?v) (last_of xs None) ys None"
    using y assms(2) by (intro seg_new_start) auto
  ultimately show ?thesis using assms by simp
qed

text \<open>Chains that are only followed forwards.\<close>

fun chain_from :: "links \<Rightarrow> addr list \<Rightarrow> bool" where
  "chain_from v [] = True"
| "chain_from v (a # xs) = (map_option snd (v a) = Some (first_of xs None) \<and> chain_from v xs)"

lemma seg_chain_from: "seg v p xs None \<Longrightarrow> chain_from v xs"
  by (induction xs arbitrary: p) auto

lemma chain_from_cong: "\<forall>a \<in> set xs. v' a = v a \<Longrightarrow> chain_from v' xs = chain_from v xs"
  by (induction xs) auto

section \<open>Buckets\<close>

text \<open>The chains \<open>cs\<close> hang on the buckets \<open>bs\<close>.\<close>

definition chains_on :: "links \<Rightarrow> hash_bucket list \<Rightarrow> addr list list \<Rightarrow> bool" where
  "chains_on v bs cs \<longleftrightarrow> length bs = length cs \<and>
     (\<forall>i < length cs. hh_head (bs ! i) = first_of (cs ! i) None \<and> seg v None (cs ! i) None \<and>
        bkt_count (bs ! i) = of_nat (length (cs ! i)))"

lemma chains_cong: "\<forall>a \<in> set (concat cs). v' a = v a \<Longrightarrow> chains_on v' bs cs = chains_on v bs cs"
proof -
  assume "\<forall>a \<in> set (concat cs). v' a = v a"
  then have "seg v' None (cs ! i) None = seg v None (cs ! i) None" if "i < length cs" for i
    using that by (intro seg_cong) (auto dest: nth_mem)
  then show ?thesis by (auto simp: chains_on_def)
qed

lemma chains_replicate: "chains_on v (replicate n empty_bucket) (replicate n [])"
  by (simp add: chains_on_def empty_bucket_def)

lemma mset_concat_update: "i < length cs \<Longrightarrow> mset (concat (cs[i := c])) + mset (cs ! i) = mset (concat cs) + mset c"
proof (induction cs arbitrary: i)
  case (Cons d cs)
  then show ?case by (cases i) (auto simp: ac_simps)
qed simp

lemma nth_chain_subset: "i < length cs \<Longrightarrow> set (cs ! i) \<subseteq> set (concat cs)"
  using nth_mem by fastforce

lemma distinct_chain: "distinct (concat cs) \<Longrightarrow> i < length cs \<Longrightarrow> distinct (cs ! i)"
  by (metis distinct_concat_iff nth_mem distinct.simps(1))

lemma chains_disjoint:
  assumes "distinct (concat cs)" "i < length cs" "j < length cs" "i < j"
  shows "set (cs ! i) \<inter> set (cs ! j) = {}"
proof -
  have "cs = take j cs @ cs ! j # drop (Suc j) cs" using assms(3) by (rule id_take_nth_drop)
  then have "distinct (concat (take j cs @ cs ! j # drop (Suc j) cs))" using assms(1) by argo
  then have "set (concat (take j cs)) \<inter> set (cs ! j) = {}" by auto
  moreover have "set (cs ! i) \<subseteq> set (concat (take j cs))"
    using nth_chain_subset [of i "take j cs"] assms(3,4) by simp
  ultimately show ?thesis by blast
qed

lemma chains_apart:
  assumes "distinct (concat cs)" "i < length cs" "j < length cs" "i \<noteq> j" "a \<in> set (cs ! i)"
  shows "a \<notin> set (cs ! j)"
  using chains_disjoint [OF assms(1), of i j] chains_disjoint [OF assms(1), of j i] assms(2-5)
  by (cases "i < j") auto

text \<open>Replacing one chain, when the view changes only there and at addresses outside of all chains.\<close>

lemma chains_update:
  assumes c: "chains_on v bs cs" and i: "i < length cs"
    and new: "hh_head bk = first_of c None" "seg v' None c None" "bkt_count bk = of_nat (length c)"
    and same: "\<And>j a. j < length cs \<Longrightarrow> j \<noteq> i \<Longrightarrow> a \<in> set (cs ! j) \<Longrightarrow> v' a = v a"
  shows "chains_on v' (bs[i := bk]) (cs[i := c])"
proof -
  have "seg v' None (cs ! j) None" if "j < length cs" "j \<noteq> i" for j
    using c that seg_cong [of "cs ! j" v' v None None] same [OF that] by (auto simp: chains_on_def)
  then show ?thesis using c i new by (auto simp: chains_on_def nth_list_update)
qed

end
