(* ===== verification/Uthash_Table.thy ===== *)
theory Uthash_Table
  imports Uthash_Links
begin

text \<open>
  The hash table represents a finite map from keys to elements: its invariant, and what finding, adding
  with the growth of the buckets, and deleting do to the map. All operations return; they never
  touch an element that is not there.
\<close>

section \<open>The invariant\<close>

definition key_at :: "'v heap \<Rightarrow> addr \<Rightarrow> bytes option" where
  "key_at h a = map_option fst (dat_view h a)"

definition val_at :: "'v heap \<Rightarrow> addr \<Rightarrow> 'v option" where
  "val_at h a = map_option (\<lambda>(_, v, _). v) (dat_view h a)"

definition hash_at :: "'v heap \<Rightarrow> addr \<Rightarrow> u32" where
  "hash_at h a = (case dat_view h a of Some (_, _, _, hv) \<Rightarrow> hv | None \<Rightarrow> 0)"

text \<open>The handle of an element has the length and the hash of its key.\<close>

definition items_ok :: "'v heap \<Rightarrow> addr list \<Rightarrow> bool" where
  "items_ok h xs \<longleftrightarrow>
     (\<forall>a \<in> set xs. \<exists>k v. dat_view h a = Some (k, v, of_nat (length k), hash_jen k) \<and> length k < 2 ^ 32)"

definition homes :: "(addr \<Rightarrow> nat) \<Rightarrow> addr list list \<Rightarrow> bool" where
  "homes f cs \<longleftrightarrow> (\<forall>i < length cs. \<forall>a \<in> set (cs ! i). f a = i)"

definition bucket_of :: "'v heap \<Rightarrow> u32 \<Rightarrow> addr \<Rightarrow> nat" where
  "bucket_of h num a = hash_to_bkt (hash_at h a) num"

definition table_rep :: "'v heap \<Rightarrow> hash_table \<Rightarrow> addr list \<Rightarrow> addr list list \<Rightarrow> bool" where
  "table_rep h t xs cs \<longleftrightarrow>
     (\<exists>k. 5 \<le> k \<and> k < 32 \<and> num_buckets t = 2 ^ k \<and> log2_num_buckets t = of_nat k) \<and>
     length cs = unat (num_buckets t) \<and> chains_on (chn_view h) (buckets t) cs \<and> mset (concat cs) = mset xs \<and>
     homes (bucket_of h (num_buckets t)) cs \<and> num_items t = of_nat (length xs)"

text \<open>The elements \<open>xs\<close> are in the table, in this order.\<close>

definition ut_rep :: "'v uthash \<Rightarrow> addr list \<Rightarrow> bool" where
  "ut_rep s xs \<longleftrightarrow> ut_head s = first_of xs None \<and> distinct xs \<and> length xs < 2 ^ 32 \<and>
     seg (app_view (ut_heap s)) None xs None \<and> items_ok (ut_heap s) xs \<and> inj_on (key_at (ut_heap s)) (set xs) \<and>
     (if xs = [] then ut_tbl s = None
      else \<exists>t cs. ut_tbl s = Some t \<and> tail t = last xs \<and> table_rep (ut_heap s) t xs cs)"

text \<open>The map that is represented: the element of a key.\<close>

definition entry_of :: "'v heap \<Rightarrow> addr list \<Rightarrow> bytes \<rightharpoonup> addr" where
  "entry_of h xs k = find (\<lambda>a. key_at h a = Some k) xs"

lemma find_unique:
  assumes "\<And>a b. a \<in> set xs \<Longrightarrow> b \<in> set xs \<Longrightarrow> P a \<Longrightarrow> P b \<Longrightarrow> a = b"
  shows "find P xs = Some a \<longleftrightarrow> a \<in> set xs \<and> P a"
  using assms by (induction xs) (auto split: if_splits)

lemma entry_of_iff:
  assumes "inj_on (key_at h) (set xs)"
  shows "entry_of h xs k = Some a \<longleftrightarrow> a \<in> set xs \<and> key_at h a = Some k"
  unfolding entry_of_def using assms by (intro find_unique) (metis inj_onD)

lemma items_key: "items_ok h xs \<Longrightarrow> a \<in> set xs \<Longrightarrow> \<exists>k. key_at h a = Some k \<and> hash_at h a = hash_jen k"
  by (fastforce simp: items_ok_def key_at_def hash_at_def)

lemma unat_nat_u32: "n < 2 ^ 32 \<Longrightarrow> unat (of_nat n :: u32) = n"
  by (simp add: unat_of_nat take_bit_nat_eq_self)

lemma of_nat_u32_eq: "m < 2 ^ 32 \<Longrightarrow> n < 2 ^ 32 \<Longrightarrow> (of_nat m :: u32) = of_nat n \<longleftrightarrow> m = n"
  by (metis unat_nat_u32)

lemma unat_pow_u32:
  assumes "k < 32"
  shows "unat (2 ^ k :: u32) = 2 ^ k"
proof -
  have "(2 :: nat) ^ k < 2 ^ 32" using assms by (rule power_strict_increasing) simp
  from unat_nat_u32 [OF this] show ?thesis by simp
qed

lemma hash_to_bkt_less:
  assumes "k < 32" "num = 2 ^ k"
  shows "hash_to_bkt hv num < unat num"
proof -
  have "hv AND (num - 1) = take_bit k hv" using assms(2) by (simp add: take_bit_eq_mask mask_eq_exp_minus_1)
  moreover have "unat (take_bit k hv) < 2 ^ k" by (simp add: unsigned_take_bit_eq)
  moreover have "unat (2 ^ k :: u32) = 2 ^ k" using assms(1) by (rule unat_pow_u32)
  ultimately show ?thesis using assms(2) by (simp add: hash_to_bkt_def)
qed

section \<open>Finding\<close>

lemma find_in_chain:
  assumes "chain_from (chn_view h) c" "items_ok h c" "length key < 2 ^ 32"
  shows "find_in_bkt h key (first_of c None) = Some (find (\<lambda>a. key_at h a = Some key) c)"
  using assms
proof (induction c)
  case Nil
  then show ?case by (simp add: find_in_bkt.simps)
next
  case (Cons a c)
  obtain e where e: "h a = Some e" "hh_next e = first_of c None"
    using Cons.prems(1) by (auto simp: chn_view_def)
  obtain k where k: "el_key e = k" "keylen e = of_nat (length k)" "length k < 2 ^ 32"
    using Cons.prems(2) e(1) by (auto simp: items_ok_def dat_view_def)
  have "unat (keylen e) = length key \<longleftrightarrow> length k = length key" using k(2) unat_nat_u32 [OF k(3)] by simp
  then have "unat (keylen e) = length key \<and> take (length key) (el_key e) = key \<longleftrightarrow> k = key" using k(1) by auto
  moreover have "key_at h a = Some k" using e(1) k(1) by (simp add: key_at_def dat_view_def)
  ultimately show ?case
    using Cons e by (simp add: find_in_bkt.simps [of h key "Some a"] items_ok_def)
qed

lemma table_chain:
  assumes "table_rep h t xs cs" "distinct xs" "i < unat (num_buckets t)"
  shows "i < length (buckets t)" "hh_head (buckets t ! i) = first_of (cs ! i) None" "seg (chn_view h) None (cs ! i) None"
    "set (cs ! i) \<subseteq> set xs" "distinct (cs ! i)" "distinct (concat cs)"
proof -
  show d: "distinct (concat cs)" using assms(1,2) mset_eq_imp_distinct_iff by (auto simp: table_rep_def)
  have "mset (concat cs) = mset xs" using assms(1) by (simp add: table_rep_def)
  from mset_eq_setD [OF this] have "set (concat cs) = set xs" .
  then show "i < length (buckets t)" "hh_head (buckets t ! i) = first_of (cs ! i) None" "seg (chn_view h) None (cs ! i) None"
    "set (cs ! i) \<subseteq> set xs" "distinct (cs ! i)"
    using assms(1,3) nth_chain_subset [of i cs] distinct_chain [OF d, of i] by (auto simp: table_rep_def chains_on_def)
qed

theorem hash_find_rep:
  assumes "ut_rep s xs" "length key < 2 ^ 32"
  shows "hash_find key s = Some (entry_of (ut_heap s) xs key)"
proof (cases xs)
  case Nil
  then show ?thesis using assms by (simp add: ut_rep_def hash_find_def entry_of_def)
next
  case (Cons a ys)
  let ?h = "ut_heap s"
  obtain t cs where t: "ut_tbl s = Some t" "table_rep ?h t xs cs" using assms Cons by (auto simp: ut_rep_def)
  have u: "distinct xs" "items_ok ?h xs" "inj_on (key_at ?h) (set xs)" "ut_head s = Some a" "?h a \<noteq> None"
    using assms(1) Cons by (auto simp: ut_rep_def app_view_def)
  define i where "i = hash_to_bkt (hash_jen key) (num_buckets t)"
  have i: "i < unat (num_buckets t)" using t(2) hash_to_bkt_less by (auto simp: i_def table_rep_def)
  note c = table_chain [OF t(2) u(1) i]
  have ok: "items_ok ?h (cs ! i)" using u(2) c(4) by (auto simp: items_ok_def)
  have "find_in_bkt ?h key (hh_head (buckets t ! i)) = Some (entry_of ?h (cs ! i) key)"
    using find_in_chain [OF seg_chain_from [OF c(3)] ok assms(2)] c(2) by (simp add: entry_of_def)
  moreover have "entry_of ?h (cs ! i) key = entry_of ?h xs key"
  proof -
    have inj: "inj_on (key_at ?h) (set (cs ! i))" using u(3) c(4) by (rule inj_on_subset)
    have "a \<in> set (cs ! i)" if a: "a \<in> set xs" "key_at ?h a = Some key" for a
    proof -
      have "mset (concat cs) = mset xs" using t(2) by (simp add: table_rep_def)
      from mset_eq_setD [OF this] a(1) obtain c where "c \<in> set cs" "a \<in> set c" by auto
      then obtain j where j: "j < length cs" "a \<in> set (cs ! j)" by (metis in_set_conv_nth)
      have "bucket_of ?h (num_buckets t) a = j" using t(2) j by (auto simp: table_rep_def homes_def)
      moreover have "bucket_of ?h (num_buckets t) a = i"
        using items_key [OF u(2) a(1)] a(2) by (auto simp: bucket_of_def i_def)
      ultimately show ?thesis using j by simp
    qed
    then have "entry_of ?h (cs ! i) key = Some b \<longleftrightarrow> entry_of ?h xs key = Some b" for b
      using entry_of_iff [OF inj] entry_of_iff [OF u(3)] c(4) by blast
    then show ?thesis by (metis not_Some_eq)
  qed
  ultimately show ?thesis using u(4,5) t(1) c(1) by (auto simp: hash_find_def i_def Let_def)
qed

section \<open>Adding to a bucket and moving chains\<close>

lemma chain_push:
  assumes c: "chains_on (chn_view h) bs cs" "distinct (concat cs)" "i < length cs" and a: "a \<notin> set (concat cs)" "h a \<noteq> None"
  shows "\<exists>h1 h2. modify (\<lambda>e. e\<lparr>hh_next := first_of (cs ! i) None, hh_prev := None\<rparr>) a h = Some h1 \<and>
    modify_opt (\<lambda>e. e\<lparr>hh_prev := Some a\<rparr>) (first_of (cs ! i) None) h1 = Some h2 \<and>
    dom h2 = dom h \<and> app_view h2 = app_view h \<and> dat_view h2 = dat_view h \<and>
    (\<forall>b. b \<noteq> a \<longrightarrow> b \<notin> set (cs ! i) \<longrightarrow> chn_view h2 b = chn_view h b) \<and>
    (\<forall>bk. hh_head bk = Some a \<longrightarrow> bkt_count bk = of_nat (Suc (length (cs ! i))) \<longrightarrow>
      chains_on (chn_view h2) (bs[i := bk]) (cs[i := a # cs ! i]))"
proof -
  let ?c = "cs ! i"
  obtain e where e: "h a = Some e" using a(2) by auto
  let ?h1 = "h(a \<mapsto> e\<lparr>hh_next := first_of ?c None, hh_prev := None\<rparr>)"
  have s: "seg (chn_view h) None ?c None" "distinct ?c" "a \<notin> set ?c"
    using c a(1) nth_chain_subset [of i cs] distinct_chain by (auto simp: chains_on_def)
  have there: "there (first_of ?c None) ?h1"
    using seg_dom [OF s(1)] by (auto simp: there_def chn_view_def dest!: first_of_mem)
  obtain h2 where h2: "modify_opt (\<lambda>e. e\<lparr>hh_prev := Some a\<rparr>) (first_of ?c None) ?h1 = Some h2" "dom h2 = dom ?h1"
    "chn_view h2 = set_prev (first_of ?c None) (Some a) (chn_view ?h1)" "app_view h2 = app_view ?h1" "dat_view h2 = dat_view ?h1"
    using assign_hh_prev [OF there] by blast
  have v: "chn_view ?h1 = (chn_view h)(a \<mapsto> (None, first_of ?c None))" "app_view ?h1 = app_view h" "dat_view ?h1 = dat_view h" "dom ?h1 = dom h"
    using e by (auto simp: view_upd view_same)
  have other: "chn_view h2 b = chn_view h b" if "b \<noteq> a" "b \<notin> set ?c" for b
    using that h2(3) v(1) by (cases "first_of ?c None = Some b") (auto simp: set_next_other dest: first_of_mem)
  have "chains_on (chn_view h2) (bs[i := bk]) (cs[i := a # ?c])"
    if bk: "hh_head bk = Some a" "bkt_count bk = of_nat (Suc (length ?c))" for bk
  proof (rule chains_update [OF c(1,3)])
    show "seg (chn_view h2) None (a # ?c) None" using seg_push [OF s] h2(3) v(1) by simp
    fix j b assume j: "j < length cs" "j \<noteq> i" "b \<in> set (cs ! j)"
    then have "b \<noteq> a" "b \<notin> set ?c" using a(1) nth_chain_subset [of j cs] chains_apart [OF c(2), of j i] c(3) by auto
    then show "chn_view h2 b = chn_view h b" by (rule other)
  qed (use bk in simp_all)
  then show ?thesis using e h2(1,2,4,5) v other by auto
qed

definition put_chain :: "(addr \<Rightarrow> nat) \<Rightarrow> addr \<Rightarrow> addr list list \<Rightarrow> addr list list" where
  "put_chain f a cs = cs[f a := a # cs ! f a]"

lemma put_chain_props:
  assumes "f a < length cs"
  shows "length (put_chain f a cs) = length cs" "mset (concat (put_chain f a cs)) = add_mset a (mset (concat cs))"
    "homes f cs \<Longrightarrow> homes f (put_chain f a cs)"
proof -
  show "length (put_chain f a cs) = length cs" by (simp add: put_chain_def)
  have "mset (concat (put_chain f a cs)) + mset (cs ! f a) = mset (concat cs) + mset (a # cs ! f a)"
    unfolding put_chain_def by (rule mset_concat_update [OF assms])
  then show "mset (concat (put_chain f a cs)) = add_mset a (mset (concat cs))" by simp
  show "homes f cs \<Longrightarrow> homes f (put_chain f a cs)" using assms by (auto simp: homes_def put_chain_def nth_list_update)
qed

lemma count_item_ok:
  assumes "ideal \<noteq> 0"
  shows "\<exists>bk' n'. count_item ideal bk n = Some (bk', n') \<and> hh_head bk' = hh_head bk \<and> bkt_count bk' = bkt_count bk + 1"
  using assms by (simp add: count_item_def Let_def)

text \<open>Moving one chain, element by element.\<close>

definition moved :: "'v heap \<Rightarrow> 'v heap \<Rightarrow> addr set \<Rightarrow> bool" where
  "moved h h' A \<longleftrightarrow> dom h' = dom h \<and> app_view h' = app_view h \<and> dat_view h' = dat_view h \<and>
     (\<forall>b. b \<notin> A \<longrightarrow> chn_view h' b = chn_view h b)"

lemma moved_refl [simp]: "moved h h A" by (simp add: moved_def)

lemma moved_trans: "moved h h' A \<Longrightarrow> moved h' h'' B \<Longrightarrow> A \<subseteq> B \<Longrightarrow> moved h h'' B"
proof -
  assume a: "moved h h' A" "moved h' h'' B" "A \<subseteq> B"
  have "chn_view h'' b = chn_view h b" if "b \<notin> B" for b
    using that a by (metis moved_def subsetD)
  then show ?thesis using a(1,2) unfolding moved_def by argo
qed

lemma push_order: "(\<lambda>e. e\<lparr>hh_prev := p, hh_next := q\<rparr>) = (\<lambda>e :: 'v element. e\<lparr>hh_next := q, hh_prev := p\<rparr>)"
proof
  fix e :: "'v element"
  show "e\<lparr>hh_prev := p, hh_next := q\<rparr> = e\<lparr>hh_next := q, hh_prev := p\<rparr>" by (cases e) simp
qed

lemma move_chain_ok:
  assumes "chain_from (chn_view h) ys" "distinct (ys @ concat cs)" "chains_on (chn_view h) bs cs" "ideal \<noteq> 0"
    and "\<forall>a \<in> set ys. bucket_of h num a < length cs"
  shows "\<exists>h' bs' n'. move_chain ideal num (first_of ys None) h bs n = Some (h', bs', n') \<and>
    moved h h' (set ys \<union> set (concat cs)) \<and> chains_on (chn_view h') bs' (fold (put_chain (bucket_of h num)) ys cs)"
  using assms
proof (induction ys arbitrary: h bs cs n)
  case Nil
  then show ?case by (simp add: move_chain.simps)
next
  case (Cons a ys)
  obtain e where e: "h a = Some e" "hh_next e = first_of ys None" using Cons.prems(1) by (auto simp: chn_view_def)
  define i where "i = hash_to_bkt (hashv e) num"
  have i: "i = bucket_of h num a" "i < length cs" "i < length bs"
    using e Cons.prems(3,5) by (auto simp: i_def bucket_of_def hash_at_def dat_view_def chains_on_def)
  obtain bk n1 where bk: "count_item ideal (bs ! i) n = Some (bk, n1)" "hh_head bk = hh_head (bs ! i)"
    "bkt_count bk = bkt_count (bs ! i) + 1" using count_item_ok [OF Cons.prems(4)] by blast
  have b: "hh_head (bs ! i) = first_of (cs ! i) None" "bkt_count (bs ! i) = of_nat (length (cs ! i))"
    using Cons.prems(3) i(2) by (auto simp: chains_on_def)
  have d: "distinct (concat cs)" "a \<notin> set (concat cs)" "a \<notin> set ys" using Cons.prems(2) by auto
  obtain h1 h2 where h: "modify (\<lambda>e. e\<lparr>hh_next := first_of (cs ! i) None, hh_prev := None\<rparr>) a h = Some h1"
    "modify_opt (\<lambda>e. e\<lparr>hh_prev := Some a\<rparr>) (first_of (cs ! i) None) h1 = Some h2"
    "dom h2 = dom h" "app_view h2 = app_view h" "dat_view h2 = dat_view h"
    "\<forall>b. b \<noteq> a \<longrightarrow> b \<notin> set (cs ! i) \<longrightarrow> chn_view h2 b = chn_view h b"
    "\<forall>bk. hh_head bk = Some a \<longrightarrow> bkt_count bk = of_nat (Suc (length (cs ! i))) \<longrightarrow>
      chains_on (chn_view h2) (bs[i := bk]) (cs[i := a # cs ! i])"
    using chain_push [OF Cons.prems(3) d(1) i(2) d(2)] e(1) by blast
  have f: "bucket_of h2 num = bucket_of h num" using h(5) by (simp add: fun_eq_iff bucket_of_def hash_at_def)
  let ?cs = "put_chain (bucket_of h num) a cs"
  have p: "?cs = cs[i := a # cs ! i]" using i(1) by (simp add: put_chain_def)
  note pp = put_chain_props [of "bucket_of h num" a cs, folded i(1), OF i(2)]
  have c2: "chains_on (chn_view h2) (bs[i := bk\<lparr>hh_head := Some a\<rparr>]) ?cs" using h(7) bk(3) b(2) p by simp
  have m: "moved h h2 (set (a # ys) \<union> set (concat cs))"
    using h(3-6) nth_chain_subset [OF i(2)] by (auto simp: moved_def)
  have ys: "\<forall>b \<in> set ys. chn_view h2 b = chn_view h b"
  proof
    fix b assume "b \<in> set ys"
    then have "b \<noteq> a" "b \<notin> set (concat cs)" using Cons.prems(2) by auto
    then show "chn_view h2 b = chn_view h b" using h(6) nth_chain_subset [OF i(2)] by blast
  qed
  have "set (concat ?cs) = insert a (set (concat cs))" using mset_eq_setD [of "concat ?cs" "a # concat cs"] pp(2) by simp
  moreover have "distinct (ys @ concat ?cs)"
    using Cons.prems(2) mset_eq_imp_distinct_iff [of "ys @ concat ?cs" "a # ys @ concat cs"] pp(2) by simp
  ultimately obtain h' bs' n' where r: "move_chain ideal num (first_of ys None) h2 (bs[i := bk\<lparr>hh_head := Some a\<rparr>]) n1 = Some (h', bs', n')"
    "moved h2 h' (set (a # ys) \<union> set (concat cs))" "chains_on (chn_view h') bs' (fold (put_chain (bucket_of h num)) ys ?cs)"
    using Cons.IH [of h2 ?cs "bs[i := bk\<lparr>hh_head := Some a\<rparr>]" n1] chain_from_cong [OF ys] Cons.prems(1,4,5) c2 f pp(1) by auto
  have "move_chain ideal num (first_of (a # ys) None) h bs n = Some (h', bs', n')"
    using e bk h(1,2) b(1) i(3) r(1) by (subst move_chain.simps) (simp add: i_def push_order Let_def)
  then show ?case using moved_trans [OF m r(2)] r(3) by auto
qed

section \<open>More buckets\<close>

lemma fold_put_chain_props:
  assumes "\<forall>a \<in> set ys. f a < length cs"
  shows "length (fold (put_chain f) ys cs) = length cs" "mset (concat (fold (put_chain f) ys cs)) = mset ys + mset (concat cs)"
    "homes f cs \<Longrightarrow> homes f (fold (put_chain f) ys cs)"
  using assms by (induction ys arbitrary: cs) (simp_all add: put_chain_props)

lemma moved_bucket_of: "moved h h' A \<Longrightarrow> bucket_of h' num = bucket_of h num"
  by (simp add: moved_def fun_eq_iff bucket_of_def hash_at_def)

lemma move_chains_ok:
  assumes "list_all2 (\<lambda>b c. hh_head b = first_of c None \<and> chain_from (chn_view h) c) olds ocs"
    and "distinct (concat ocs @ concat cs)" "chains_on (chn_view h) bs cs" "ideal \<noteq> 0"
    and "\<forall>a \<in> set (concat ocs). bucket_of h num a < length cs"
  shows "\<exists>h' bs' n'. move_chains ideal num olds h bs n = Some (h', bs', n') \<and>
    moved h h' (set (concat ocs) \<union> set (concat cs)) \<and> chains_on (chn_view h') bs' (fold (put_chain (bucket_of h num)) (concat ocs) cs)"
  using assms
proof (induction olds arbitrary: ocs h bs cs n)
  case Nil
  then show ?case by simp
next
  case (Cons b olds)
  then obtain ys os where o: "ocs = ys # os" "hh_head b = first_of ys None" "chain_from (chn_view h) ys"
    "list_all2 (\<lambda>b c. hh_head b = first_of c None \<and> chain_from (chn_view h) c) olds os"
    by (auto simp: list_all2_Cons1)
  let ?f = "bucket_of h num"
  obtain h1 bs1 n1 where 1: "move_chain ideal num (first_of ys None) h bs n = Some (h1, bs1, n1)"
    "moved h h1 (set ys \<union> set (concat cs))" "chains_on (chn_view h1) bs1 (fold (put_chain ?f) ys cs)"
  proof -
    have "distinct (ys @ concat cs)" "\<forall>a \<in> set ys. ?f a < length cs" using Cons.prems(2,5) o(1) by auto
    from move_chain_ok [OF o(3) this(1) Cons.prems(3,4) this(2), of n] show thesis using that by blast
  qed
  let ?cs = "fold (put_chain ?f) ys cs"
  have pp: "length ?cs = length cs" "mset (concat ?cs) = mset ys + mset (concat cs)"
    using fold_put_chain_props [of ys ?f cs] Cons.prems(5) o(1) by auto
  have "chn_view h1 a = chn_view h a" if "a \<in> set (concat os)" for a
    using 1(2) that Cons.prems(2) o(1) unfolding moved_def by fastforce
  then have "chain_from (chn_view h1) c = chain_from (chn_view h) c" if "c \<in> set os" for c
    using that by (intro chain_from_cong) auto
  then have l: "list_all2 (\<lambda>b c. hh_head b = first_of c None \<and> chain_from (chn_view h1) c) olds os"
    using o(4) by (auto simp: list_all2_conv_all_nth)
  have s: "set (concat ?cs) = set ys \<union> set (concat cs)" using mset_eq_setD [of "concat ?cs" "ys @ concat cs"] pp(2) by simp
  have d: "distinct (concat os @ concat ?cs)"
    using Cons.prems(2) o(1) mset_eq_imp_distinct_iff [of "concat os @ concat ?cs" "ys @ concat os @ concat cs"] pp(2)
    by (simp add: ac_simps)
  have f: "bucket_of h1 num = ?f" by (rule moved_bucket_of [OF 1(2)])
  obtain h' bs' n' where 2: "move_chains ideal num olds h1 bs1 n1 = Some (h', bs', n')"
    "moved h1 h' (set (concat os) \<union> set (concat ?cs))" "chains_on (chn_view h') bs' (fold (put_chain ?f) (concat os) ?cs)"
    using Cons.IH [OF l d 1(3) Cons.prems(4), of n1] Cons.prems(5) o(1) pp(1) f by auto
  have "moved h h' (set (concat ocs) \<union> set (concat cs))"
  proof (rule moved_trans [OF 1(2)])
    show "moved h1 h' (set (concat ocs) \<union> set (concat cs))" using 2(2) s o(1) by (simp add: Un_ac)
    show "set ys \<union> set (concat cs) \<subseteq> set (concat ocs) \<union> set (concat cs)" using o(1) by auto
  qed
  then show ?case using 1(1) 2(1,3) o(1,2) by auto
qed

lemma ideal_nonzero:
  fixes n :: u32
  assumes "n \<noteq> 0" "0 < m"
  shows "drop_bit m n + (if n AND (2 ^ m - 1) \<noteq> 0 then 1 else 0) \<noteq> 0"
proof -
  have t: "n AND (2 ^ m - 1) = take_bit m n" by (simp add: take_bit_eq_mask mask_eq_exp_minus_1)
  have "drop_bit m n + 1 \<noteq> 0"
  proof
    assume "drop_bit m n + 1 = 0"
    then have "drop_bit m n = - 1" by (simp add: add_eq_0_iff2)
    then have "bit (drop_bit m n) 31" by simp
    then have "bit n (m + 31)" by (simp add: bit_drop_bit_eq)
    from bit_imp_le_length [OF this] show False using assms(2) by simp
  qed
  moreover have "drop_bit m n \<noteq> 0" if "take_bit m n = 0"
    using bits_ident [of m n] that assms(1) by auto
  ultimately show ?thesis by (simp add: t)
qed

lemma expand_ok:
  assumes rep: "table_rep h t xs cs" and xs: "distinct xs" "length xs < 2 ^ 32" "xs \<noteq> []"
    and m: "\<forall>sz. malloc sz" "unat (log2_num_buckets t) < 31"
  shows "\<exists>h' t' cs'. hash_expand_buckets malloc h t = Some (h', t') \<and> table_rep h' t' xs cs' \<and> moved h h' (set xs) \<and>
    tail t' = tail t"
proof -
  obtain k where k: "5 \<le> k" "k < 32" "num_buckets t = 2 ^ k" "log2_num_buckets t = of_nat k"
    and r: "length cs = unat (num_buckets t)" "chains_on (chn_view h) (buckets t) cs" "mset (concat cs) = mset xs"
      "num_items t = of_nat (length xs)"
    using rep by (auto simp: table_rep_def)
  have k31: "k < 31" using m(2) k(2,4) unat_nat_u32 [of k] by simp
  define num where "num = 2 * num_buckets t"
  have num: "num = 2 ^ (k + 1)" by (simp add: num_def k(3))
  have len: "unat num = 2 ^ (k + 1)" using num k31 unat_pow_u32 [of "k + 1"] by simp
  have lg: "log2_num_buckets t + 1 = of_nat (k + 1)" using k(4) by simp
  have ulg: "unat (log2_num_buckets t + 1) = k + 1" unfolding lg using k31 by (intro unat_nat_u32) simp
  have n0: "num_items t \<noteq> 0" using r(4) xs(2,3) of_nat_u32_eq [of "length xs" 0] by simp
  define ideal where "ideal = drop_bit (unat (log2_num_buckets t + 1)) (num_items t) + (if num_items t AND (num - 1) \<noteq> 0 then 1 else 0)"
  have ideal: "ideal \<noteq> 0" unfolding ideal_def ulg num by (rule ideal_nonzero [OF n0]) simp
  have take: "take (unat (num_buckets t)) (buckets t) = buckets t" "unat (num_buckets t) \<le> length (buckets t)"
    using r(1,2) by (simp_all add: chains_on_def)
  let ?new = "replicate (unat num) empty_bucket" and ?cs = "replicate (unat num) []" and ?f = "bucket_of h num"
  have l: "list_all2 (\<lambda>b c. hh_head b = first_of c None \<and> chain_from (chn_view h) c) (buckets t) cs"
    using r(2) by (auto simp: chains_on_def list_all2_conv_all_nth intro: seg_chain_from)
  have d: "distinct (concat cs @ concat ?cs)" using r(3) xs(1) mset_eq_imp_distinct_iff [of "concat cs" xs] by simp
  have f: "\<forall>a. ?f a < unat num" using hash_to_bkt_less [of "k + 1" num] num k31 by (simp add: bucket_of_def)
  then have "\<forall>a \<in> set (concat cs). ?f a < length ?cs" by simp
  from move_chains_ok [OF l d chains_replicate ideal this, of 0]
  obtain h' bs' n' where e: "move_chains ideal num (buckets t) h ?new 0 = Some (h', bs', n')"
    "moved h h' (set (concat cs))" "chains_on (chn_view h') bs' (fold (put_chain ?f) (concat cs) ?cs)" by auto
  let ?cs' = "fold (put_chain ?f) (concat cs) ?cs"
  note pp = fold_put_chain_props [of "concat cs" ?f ?cs]
  have h0: "homes ?f ?cs" by (simp add: homes_def)
  let ?ineff = "if n' > drop_bit 1 (num_items t) then ineff_expands t + 1 else 0"
  let ?t = "t\<lparr>buckets := bs', num_buckets := num, log2_num_buckets := log2_num_buckets t + 1,
       ideal_chain_maxlen := ideal, nonideal_items := n', ineff_expands := ?ineff,
       noexpand := (if ?ineff > 1 then 1 else noexpand t)\<rparr>"
  have x: "hash_expand_buckets malloc h t = Some (h', ?t)"
    using m(1) take e(1) unfolding hash_expand_buckets_def Let_def num_def [symmetric] ideal_def [symmetric] by simp
  have "table_rep h' ?t xs ?cs'"
    unfolding table_rep_def
  proof (intro conjI)
    show "\<exists>j. 5 \<le> j \<and> j < 32 \<and> num_buckets ?t = 2 ^ j \<and> log2_num_buckets ?t = of_nat j"
      using k(1) k31 num lg by (intro exI [of _ "k + 1"]) simp
    show "length ?cs' = unat (num_buckets ?t)" using pp(1) f by simp
    show "mset (concat ?cs') = mset xs" using pp(2) f r(3) by simp
    show "homes (bucket_of h' (num_buckets ?t)) ?cs'" using pp(3) [OF _ h0] f moved_bucket_of [OF e(2)] by simp
  qed (use e(3) r(4) in simp_all)
  moreover have "set (concat cs) = set xs" by (rule mset_eq_setD [OF r(3)])
  ultimately show ?thesis using x e(2) by (intro exI [of _ h'] exI [of _ ?t] exI [of _ ?cs']) simp
qed

section \<open>Adding\<close>

lemma table_rep_cong:
  assumes "\<forall>a \<in> set xs. chn_view h' a = chn_view h a \<and> hash_at h' a = hash_at h a"
    and "buckets t' = buckets t" "num_buckets t' = num_buckets t" "log2_num_buckets t' = log2_num_buckets t" "num_items t' = num_items t"
  shows "table_rep h t xs cs \<Longrightarrow> table_rep h' t' xs cs"
proof -
  assume r: "table_rep h t xs cs"
  then have "mset (concat cs) = mset xs" by (simp add: table_rep_def)
  from mset_eq_setD [OF this] have m: "set (concat cs) = set xs" .
  then have c: "\<forall>a \<in> set (concat cs). chn_view h' a = chn_view h a" using assms(1) by blast
  have "hash_at h' a = hash_at h a" if "i < length cs" "a \<in> set (cs ! i)" for i a
    using that assms(1) m nth_chain_subset [of i cs] by blast
  then show ?thesis using r chains_cong [OF c, of "buckets t"] assms(2-5)
    by (auto simp: table_rep_def homes_def bucket_of_def)
qed

lemma hash_at_moved: "moved h h' A \<Longrightarrow> hash_at h' = hash_at h"
  by (simp add: moved_def fun_eq_iff hash_at_def)

lemma add_to_bkt_ok:
  assumes rep: "table_rep h t0 xs cs" and t: "t = t0\<lparr>tail := z, num_items := num_items t0 + 1\<rparr>"
    and a: "a \<notin> set xs" "h a \<noteq> None" "bucket_of h (num_buckets t) a = b" and xs: "distinct xs" "length xs + 1 < 2 ^ 32"
    and m: "\<forall>sz. malloc sz" "unat (log2_num_buckets t) < 31"
  shows "\<exists>h' t' cs'. hash_add_to_bkt malloc b a h t = Some (h', t') \<and> table_rep h' t' (xs @ [a]) cs' \<and>
    moved h h' (set (xs @ [a])) \<and> tail t' = z"
proof -
  have ms: "mset (concat cs) = mset xs" using rep by (simp add: table_rep_def)
  from mset_eq_setD [OF ms] have sets: "set (concat cs) = set xs" .
  have d: "distinct (concat cs)" "a \<notin> set (concat cs)" using ms xs(1) mset_eq_imp_distinct_iff a(1) sets by auto
  have c: "chains_on (chn_view h) (buckets t) cs" "length cs = unat (num_buckets t)" "homes (bucket_of h (num_buckets t)) cs"
    using rep t by (simp_all add: table_rep_def)
  have b: "b < length cs" using rep t a(3) hash_to_bkt_less by (auto simp: table_rep_def bucket_of_def)
  then have b': "b < length (buckets t)" using c(1) by (simp add: chains_on_def)
  let ?bk = "buckets t ! b"
  have bk: "hh_head ?bk = first_of (cs ! b) None" "bkt_count ?bk = of_nat (length (cs ! b))"
    using c(1) b by (auto simp: chains_on_def)
  obtain h1 h2 where h: "modify (\<lambda>e. e\<lparr>hh_next := first_of (cs ! b) None, hh_prev := None\<rparr>) a h = Some h1"
    "modify_opt (\<lambda>e. e\<lparr>hh_prev := Some a\<rparr>) (first_of (cs ! b) None) h1 = Some h2"
    "dom h2 = dom h" "app_view h2 = app_view h" "dat_view h2 = dat_view h"
    "\<forall>x. x \<noteq> a \<longrightarrow> x \<notin> set (cs ! b) \<longrightarrow> chn_view h2 x = chn_view h x"
    "\<forall>bk. hh_head bk = Some a \<longrightarrow> bkt_count bk = of_nat (Suc (length (cs ! b))) \<longrightarrow>
      chains_on (chn_view h2) ((buckets t)[b := bk]) (cs[b := a # cs ! b])"
    using chain_push [OF c(1) d(1) b d(2) a(2)] by blast
  let ?bk' = "?bk\<lparr>bkt_count := bkt_count ?bk + 1, hh_head := Some a\<rparr>"
  let ?t = "t\<lparr>buckets := (buckets t)[b := ?bk']\<rparr>" and ?cs = "put_chain (bucket_of h (num_buckets t)) a cs"
  have mv: "moved h h2 (set (xs @ [a]))" using h(3-6) nth_chain_subset [OF b] sets by (auto simp: moved_def)
  note pp = put_chain_props [of "bucket_of h (num_buckets t)" a cs, unfolded a(3), OF b]
  have "chains_on (chn_view h2) ((buckets t)[b := ?bk']) ?cs" using h(7) bk(2) a(3) by (simp add: put_chain_def)
  then have r: "table_rep h2 ?t (xs @ [a]) ?cs"
    using rep t pp c(3) moved_bucket_of [OF mv] ms by (auto simp: table_rep_def)
  have eq: "hash_add_to_bkt malloc b a h t =
      (if bkt_count ?bk' \<ge> (expand_mult ?bk' + 1) * 10 \<and> noexpand ?t \<noteq> 1 then hash_expand_buckets malloc h2 ?t else Some (h2, ?t))"
    using b' h(1,2) bk(1) by (simp add: hash_add_to_bkt_def Let_def)
  show ?thesis
  proof (cases "bkt_count ?bk' \<ge> (expand_mult ?bk' + 1) * 10 \<and> noexpand ?t \<noteq> 1")
    case True
    obtain h' t' cs' where e: "hash_expand_buckets malloc h2 ?t = Some (h', t')" "table_rep h' t' (xs @ [a]) cs'"
      "moved h2 h' (set (xs @ [a]))" "tail t' = tail ?t"
      using expand_ok [OF r, of malloc] xs a(1) m by auto
    have "hash_add_to_bkt malloc b a h t = Some (h', t')" unfolding eq using True e(1) by simp
    moreover have "tail t' = z" using e(4) t by simp
    ultimately show ?thesis using e(2) moved_trans [OF mv e(3) subset_refl] by blast
  next
    case False
    then have "hash_add_to_bkt malloc b a h t = Some (h2, ?t)" unfolding eq by (rule if_not_P)
    moreover have "tail ?t = z" using t by simp
    ultimately show ?thesis using r mv by blast
  qed
qed

lemma make_table_rep:
  assumes "\<forall>sz. malloc sz"
  shows "\<exists>t. hash_make_table malloc a = Some t \<and> table_rep h t [] (replicate 32 []) \<and> tail t = a \<and> log2_num_buckets t = 5"
proof -
  let ?t = "\<lparr>buckets = replicate 32 empty_bucket, num_buckets = of_nat 32, log2_num_buckets = 5, num_items = 0, tail = a,
       ideal_chain_maxlen = 0, nonideal_items = 0, ineff_expands = 0, noexpand = 0\<rparr>"
  have "\<exists>k. 5 \<le> k \<and> k < 32 \<and> num_buckets ?t = 2 ^ k \<and> log2_num_buckets ?t = of_nat k" by (rule exI [of _ 5]) simp
  then have "table_rep h ?t [] (replicate 32 [])"
    unfolding table_rep_def using chains_replicate [of "chn_view h" 32] by (simp add: homes_def)
  moreover have "hash_make_table malloc a = Some ?t" using assms by (simp add: hash_make_table_def)
  ultimately show ?thesis by force
qed

text \<open>What the assignments before the bucket do to the views.\<close>

lemma link_new_ok:
  assumes rep: "ut_rep s xs" and e: "ut_heap s a = Some e" "a \<notin> set xs" and m: "\<forall>sz. malloc sz"
  defines "k \<equiv> el_key e"
  defines "h1 \<equiv> (ut_heap s)(a \<mapsto> e\<lparr>app_next := None, keylen := of_nat (length k)\<rparr>)"
  shows "\<exists>h2 t0 cs. (case ut_head s of
         None \<Rightarrow> do {
           h \<leftarrow> modify (\<lambda>e. e\<lparr>app_prev := None\<rparr>) a h1;
           t \<leftarrow> hash_make_table malloc a;
           Some (h, a, t)
         }
       | Some first \<Rightarrow> do {
           _ \<leftarrow> h1 first;
           t \<leftarrow> ut_tbl s;
           h \<leftarrow> modify (\<lambda>e. e\<lparr>app_next := Some a\<rparr>) (tail t) h1;
           h \<leftarrow> modify (\<lambda>e. e\<lparr>app_prev := Some (tail t)\<rparr>) a h;
           Some (h, first, t\<lparr>tail := a\<rparr>)
         }) = Some (h2, the (first_of (xs @ [a]) None), t0\<lparr>tail := a\<rparr>) \<and>
     dom h2 = dom (ut_heap s) \<and> table_rep (ut_heap s) t0 xs cs \<and> seg (app_view h2) None (xs @ [a]) None \<and>
     chn_view h2 = chn_view (ut_heap s) \<and> dat_view h2 = (dat_view (ut_heap s))(a \<mapsto> (k, el_val e, of_nat (length k), hashv e)) \<and>
     (xs \<noteq> [] \<longrightarrow> ut_tbl s = Some t0) \<and> (xs = [] \<longrightarrow> log2_num_buckets t0 = 5)"
proof (cases "xs = []")
  case True
  obtain t where t: "hash_make_table malloc a = Some t" "table_rep (ut_heap s) t [] (replicate 32 [])" "tail t = a" "log2_num_buckets t = 5"
    using make_table_rep [OF m] by blast
  have "t\<lparr>tail := a\<rparr> = t" using t(3) by simp
  with True t rep e show ?thesis
    by (intro exI [of _ "(ut_heap s)(a \<mapsto> e\<lparr>app_next := None, keylen := of_nat (length k), app_prev := None\<rparr>)"] exI [of _ t]
        exI [of _ "replicate 32 []"])
      (auto simp: h1_def k_def ut_rep_def view_upd view_same)
next
  case False
  then obtain t cs where t: "ut_tbl s = Some t" "tail t = last xs" "table_rep (ut_heap s) t xs cs"
    using rep by (auto simp: ut_rep_def)
  have u: "distinct xs" "seg (app_view (ut_heap s)) None xs None" "ut_head s = first_of xs None" using rep by (auto simp: ut_rep_def)
  obtain e2 where e2: "ut_heap s (last xs) = Some e2" using seg_dom [OF u(2), of "last xs"] False by (auto simp: app_view_def)
  have ne: "last xs \<noteq> a" using e(2) False by auto
  obtain f ys where f: "xs = f # ys" using False by (cases xs) auto
  obtain e1 where "ut_heap s f = Some e1" using seg_dom [OF u(2), of f] f by (auto simp: app_view_def)
  then have f1: "h1 f = Some e1" using e(2) f by (auto simp: h1_def)
  let ?e = "e\<lparr>app_next := None, keylen := of_nat (length k), app_prev := Some (last xs)\<rparr>"
  let ?h = "h1(last xs \<mapsto> e2\<lparr>app_next := Some a\<rparr>, a \<mapsto> ?e)"
  have a: "app_view ?h = (set_next (Some (last xs)) (Some a) (app_view (ut_heap s)))(a \<mapsto> (Some (last xs), None))"
    using e2 ne by (auto simp: h1_def view_upd set_next_def fun_eq_iff views)
  have "chn_view ?h = chn_view (ut_heap s)" using e2 e(1) ne by (auto simp: h1_def fun_eq_iff views)
  moreover have "dat_view ?h = (dat_view (ut_heap s))(a \<mapsto> (k, el_val e, of_nat (length k), hashv e))"
    using e2 ne by (auto simp: h1_def k_def fun_eq_iff views)
  moreover have "seg (app_view ?h) None (xs @ [a]) None"
    unfolding a using seg_snoc [OF u(2,1) e(2)] False by (simp add: last_of_def)
  moreover have "dom ?h = dom (ut_heap s)" using e(1) e2 by (auto simp: h1_def)
  moreover have "modify (\<lambda>e. e\<lparr>app_next := Some a\<rparr>) (last xs) h1 = Some (h1(last xs \<mapsto> e2\<lparr>app_next := Some a\<rparr>))"
    using e2 ne by (simp add: h1_def)
  moreover have "modify (\<lambda>e. e\<lparr>app_prev := Some (last xs)\<rparr>) a (h1(last xs \<mapsto> e2\<lparr>app_next := Some a\<rparr>)) = Some ?h"
    using ne by (simp add: h1_def)
  ultimately show ?thesis
    using t u(3) f f1 False by (intro exI [of _ ?h] exI [of _ t] exI [of _ cs]) simp
qed

text \<open>
  There is room when the number of buckets and of elements can still grow within their 32 bits.
\<close>

definition has_room :: "'v uthash \<Rightarrow> addr list \<Rightarrow> bool" where
  "has_room s xs \<longleftrightarrow> length xs + 1 < 2 ^ 32 \<and> (\<forall>t. ut_tbl s = Some t \<longrightarrow> unat (log2_num_buckets t) < 31)"

theorem hash_add_rep:
  assumes rep: "ut_rep s xs" and e: "ut_heap s a = Some e" "a \<notin> set xs" and k: "length (el_key e) < 2 ^ 32"
    and new: "entry_of (ut_heap s) xs (el_key e) = None" and room: "has_room s xs" and m: "\<forall>sz. malloc sz"
  shows "\<exists>s'. hash_add malloc a s = Some s' \<and> ut_rep s' (xs @ [a]) \<and> dom (ut_heap s') = dom (ut_heap s) \<and>
    key_at (ut_heap s') = key_at (ut_heap s) \<and> val_at (ut_heap s') = val_at (ut_heap s)"
proof -
  let ?k = "el_key e" and ?h0 = "ut_heap s"
  let ?h1 = "?h0(a \<mapsto> e\<lparr>app_next := None, keylen := of_nat (length ?k)\<rparr>)"
  obtain h2 t0 cs where l: "(case ut_head s of
         None \<Rightarrow> do {
           h \<leftarrow> modify (\<lambda>e. e\<lparr>app_prev := None\<rparr>) a ?h1;
           t \<leftarrow> hash_make_table malloc a;
           Some (h, a, t)
         }
       | Some first \<Rightarrow> do {
           _ \<leftarrow> ?h1 first;
           t \<leftarrow> ut_tbl s;
           h \<leftarrow> modify (\<lambda>e. e\<lparr>app_next := Some a\<rparr>) (tail t) ?h1;
           h \<leftarrow> modify (\<lambda>e. e\<lparr>app_prev := Some (tail t)\<rparr>) a h;
           Some (h, first, t\<lparr>tail := a\<rparr>)
         }) = Some (h2, the (first_of (xs @ [a]) None), t0\<lparr>tail := a\<rparr>)"
    and d2: "dom h2 = dom ?h0" "table_rep ?h0 t0 xs cs" "seg (app_view h2) None (xs @ [a]) None"
     "chn_view h2 = chn_view ?h0" "dat_view h2 = (dat_view ?h0)(a \<mapsto> (?k, el_val e, of_nat (length ?k), hashv e))"
     "xs \<noteq> [] \<longrightarrow> ut_tbl s = Some t0" "xs = [] \<longrightarrow> log2_num_buckets t0 = 5"
    using link_new_ok [OF rep e m] by blast
  obtain e2 where e2: "h2 a = Some e2" using d2(1) e(1) by (metis domD domI)
  let ?hv = "hash_jen ?k"
  let ?h3 = "h2(a \<mapsto> e2\<lparr>hashv := ?hv\<rparr>)" and ?t = "t0\<lparr>tail := a, num_items := num_items t0 + 1\<rparr>"
  have v: "app_view ?h3 = app_view h2" "chn_view ?h3 = chn_view ?h0" "dom ?h3 = dom ?h0"
    "dat_view ?h3 = (dat_view ?h0)(a \<mapsto> (?k, el_val e, of_nat (length ?k), ?hv))"
  proof -
    have "dat_view h2 a = Some (?k, el_val e, of_nat (length ?k), hashv e)" using d2(5) by simp
    then have "el_key e2 = ?k" "el_val e2 = el_val e" "keylen e2 = of_nat (length ?k)" using e2 by (simp_all add: dat_view_def)
    then show "dat_view ?h3 = (dat_view ?h0)(a \<mapsto> (?k, el_val e, of_nat (length ?k), ?hv))"
      using d2(5) by (simp add: view_upd)
    show "app_view ?h3 = app_view h2" using e2 by (simp add: view_upd view_same)
    have "chn_view ?h3 = chn_view h2" using e2 by (simp add: view_upd view_same)
    then show "chn_view ?h3 = chn_view ?h0" using d2(4) by simp
    show "dom ?h3 = dom ?h0" using e2 d2(1) by auto
  qed
  have r3: "table_rep ?h3 t0 xs cs"
  proof (rule table_rep_cong [OF _ refl refl refl refl d2(2)], intro ballI conjI)
    fix c assume "c \<in> set xs"
    then have "c \<noteq> a" using e(2) by blast
    then show "hash_at ?h3 c = hash_at ?h0 c" unfolding hash_at_def v(4) by simp
  qed (simp only: v(2))
  have b: "bucket_of ?h3 (num_buckets ?t) a = hash_to_bkt ?hv (num_buckets ?t)" using v(4) by (simp add: bucket_of_def hash_at_def)
  have u: "distinct xs" "items_ok ?h0 xs" "inj_on (key_at ?h0) (set xs)" "length xs < 2 ^ 32" using rep by (auto simp: ut_rep_def)
  have lg: "unat (log2_num_buckets ?t) < 31" "length xs + 1 < 2 ^ 32"
    using room d2(6,7) by (cases "xs = []"; simp add: has_room_def)+
  obtain h' t' cs' where x: "hash_add_to_bkt malloc (hash_to_bkt ?hv (num_buckets ?t)) a ?h3 ?t = Some (h', t')"
    "table_rep h' t' (xs @ [a]) cs'" "moved ?h3 h' (set (xs @ [a]))" "tail t' = a"
  proof -
    have "?h3 a \<noteq> None" by simp
    from add_to_bkt_ok [OF r3 refl e(2) this b u(1) lg(2) m lg(1)] show thesis using that by blast
  qed
  let ?s = "\<lparr>ut_heap = h', ut_head = Some (the (first_of (xs @ [a]) None)), ut_tbl = Some t'\<rparr>"
  have run: "hash_add malloc a s = Some ?s"
    using x(1) e2 unfolding hash_add_def e(1) bind.bind_lunit Let_def modify_eq [where h = "ut_heap s" and a = a, OF e(1)] l prod.case by simp
  have dv: "dat_view h' = (dat_view ?h0)(a \<mapsto> (?k, el_val e, of_nat (length ?k), ?hv))" using x(3) v(4) by (simp add: moved_def)
  have d0: "dat_view ?h0 a = Some (?k, el_val e, keylen e, hashv e)" using e(1) by (simp add: dat_view_def)
  have keys: "key_at h' = key_at ?h0" "val_at h' = val_at ?h0"
    using dv d0 by (auto simp: key_at_def val_at_def fun_eq_iff)
  have av: "app_view h' = app_view h2" using x(3) v(1) by (simp add: moved_def)
  have "\<forall>c \<in> set xs. key_at ?h0 c \<noteq> Some ?k" using new entry_of_iff [OF u(3)] by (auto simp: entry_of_def find_None_iff)
  then have inj: "inj_on (key_at h') (set (xs @ [a]))"
  proof -
    have "key_at ?h0 a = Some ?k" using d0 by (simp add: key_at_def)
    moreover from this have "key_at ?h0 a \<notin> key_at ?h0 ` (set xs - {a})"
      using \<open>\<forall>c \<in> set xs. key_at ?h0 c \<noteq> Some ?k\<close> by auto
    ultimately show ?thesis using u(3) keys(1) by simp
  qed
  have "items_ok h' (xs @ [a])" using u(2) dv k e(2) by (auto simp: items_ok_def)
  then have "ut_rep ?s (xs @ [a])"
    using u(1) e(2) lg(2) av d2(3) inj x(2,4) by (auto simp: ut_rep_def first_of_def split: list.splits)
  then show ?thesis using run keys v(3) x(3) by (auto simp: moved_def)
qed

section \<open>Deleting\<close>

lemma del_in_bkt_ok:
  assumes c: "chains_on (chn_view h) bs cs" "distinct (concat cs)" "i < length cs" and a: "a \<in> set (cs ! i)"
  shows "\<exists>h' bs' ys zs. cs ! i = ys @ a # zs \<and> hash_del_in_bkt i a h bs = Some (h', bs') \<and>
    chains_on (chn_view h') bs' (cs[i := ys @ zs]) \<and> moved h h' (set (cs ! i))"
proof -
  obtain ys zs where yz: "cs ! i = ys @ a # zs" using a by (meson split_list)
  have s: "seg (chn_view h) None (ys @ a # zs) None" "distinct (ys @ a # zs)" "hh_head (bs ! i) = first_of (ys @ a # zs) None"
    "bkt_count (bs ! i) = of_nat (length (ys @ a # zs))" "i < length bs"
    using c distinct_chain [OF c(2,3)] yz by (auto simp: chains_on_def)
  obtain e where e: "h a = Some e" "hh_prev e = last_of ys None" "hh_next e = first_of zs None"
    using s(1) by (auto simp: chn_view_def)
  have "there (last_of ys None) h"
    using seg_dom [OF s(1)] by (auto simp: there_def chn_view_def dest!: last_of_mem)
  from assign_hh_next [OF this, of "first_of zs None"] obtain h1 where h1:
    "modify_opt (\<lambda>p. p\<lparr>hh_next := first_of zs None\<rparr>) (last_of ys None) h = Some h1" "dom h1 = dom h" "app_view h1 = app_view h"
    "chn_view h1 = set_next (last_of ys None) (first_of zs None) (chn_view h)" "dat_view h1 = dat_view h" by blast
  have "there (first_of zs None) h1"
    using seg_dom [OF s(1)] h1(2) by (fastforce simp: there_def chn_view_def dest!: first_of_mem)
  from assign_hh_prev [OF this, of "last_of ys None"] obtain h2 where h2:
    "modify_opt (\<lambda>n. n\<lparr>hh_prev := last_of ys None\<rparr>) (first_of zs None) h1 = Some h2" "dom h2 = dom h1" "app_view h2 = app_view h1"
    "chn_view h2 = set_prev (first_of zs None) (last_of ys None) (chn_view h1)" "dat_view h2 = dat_view h1" by blast
  have new: "seg (chn_view h2) None (ys @ zs) None" using seg_remove [OF s(1,2)] h1(4) h2(4) by simp
  have other: "chn_view h2 b = chn_view h b" if "b \<notin> set (cs ! i)" for b
  proof -
    have "last_of ys None \<noteq> Some b" "first_of zs None \<noteq> Some b"
      using that yz by (auto dest: first_of_mem last_of_mem)
    then show ?thesis using h1(4) h2(4) by (simp add: set_next_other)
  qed
  define bk where "bk = (if hh_head (bs ! i) = Some a then (bs ! i)\<lparr>bkt_count := bkt_count (bs ! i) - 1, hh_head := first_of zs None\<rparr>
      else (bs ! i)\<lparr>bkt_count := bkt_count (bs ! i) - 1\<rparr>)"
  have "a \<notin> set ys" using s(2) by auto
  then have "hh_head bk = first_of (ys @ zs) None" "bkt_count bk = of_nat (length (ys @ zs))"
    using s(3,4) by (cases ys; simp add: bk_def)+
  then have "chains_on (chn_view h2) (bs[i := bk]) (cs[i := ys @ zs])"
    using new other chains_apart [OF c(2)] c(3) by (intro chains_update [OF c(1,3)]) auto
  moreover have "hash_del_in_bkt i a h bs = Some (h2, bs[i := bk])"
    using s(5) e h1(1) h2(1) by (simp add: hash_del_in_bkt_def bk_def Let_def)
  ultimately show ?thesis using yz other h1 h2 by (auto simp: moved_def)
qed

lemma table_del_ok:
  assumes rep: "table_rep h t xs cs" and xs: "distinct xs" "a \<in> set xs" and e: "h a \<noteq> None"
  shows "\<exists>h' bs' cs'. hash_del_in_bkt (hash_to_bkt (hash_at h a) (num_buckets t)) a h (buckets t) = Some (h', bs') \<and>
    table_rep h' (t\<lparr>tail := z, buckets := bs', num_items := num_items t - 1\<rparr>) (remove1 a xs) cs' \<and> moved h h' (set xs)"
proof -
  have ms: "mset (concat cs) = mset xs" using rep by (simp add: table_rep_def)
  from mset_eq_setD [OF ms] have sets: "set (concat cs) = set xs" .
  have d: "distinct (concat cs)" using ms xs(1) mset_eq_imp_distinct_iff by blast
  have c: "chains_on (chn_view h) (buckets t) cs" "length cs = unat (num_buckets t)" "homes (bucket_of h (num_buckets t)) cs"
    using rep by (simp_all add: table_rep_def)
  obtain i where i: "i < length cs" "a \<in> set (cs ! i)"
    using xs(2) sets by (metis (no_types, lifting) UN_E in_set_conv_nth set_concat)
  have b: "hash_to_bkt (hash_at h a) (num_buckets t) = i" using c(3) i by (simp add: homes_def bucket_of_def)
  obtain h' bs' us vs where r: "cs ! i = us @ a # vs" "hash_del_in_bkt i a h (buckets t) = Some (h', bs')"
    "chains_on (chn_view h') bs' (cs[i := us @ vs])" "moved h h' (set (cs ! i))"
    using del_in_bkt_ok [OF c(1) d i] by blast
  have mv: "moved h h' (set xs)" using moved_trans [OF r(4), of h' "set xs"] nth_chain_subset [OF i(1)] sets by auto
  have "mset (concat (cs[i := us @ vs])) + mset (cs ! i) = mset (concat cs) + mset (us @ vs)"
    by (rule mset_concat_update [OF i(1)])
  then have "mset (concat (cs[i := us @ vs])) + {#a#} = mset xs" using r(1) ms by simp
  then have m: "mset (concat (cs[i := us @ vs])) = mset (remove1 a xs)"
    using xs(2) by (metis add_diff_cancel_right' mset_remove1)
  obtain n where "length xs = Suc n" using xs(2) by (cases xs) auto
  then have "num_items t - 1 = of_nat (length (remove1 a xs))"
    using rep xs(2) by (simp add: table_rep_def length_remove1)
  moreover have "homes (bucket_of h' (num_buckets t)) (cs[i := us @ vs])"
    using c(3) moved_bucket_of [OF mv] r(1) i(1) by (auto simp: homes_def nth_list_update)
  ultimately show ?thesis
    using rep r(2,3) m mv b by (intro exI [of _ h'] exI [of _ bs'] exI [of _ "cs[i := us @ vs]"]) (simp add: table_rep_def)
qed

theorem hash_delete_rep:
  assumes rep: "ut_rep s (xs @ a # ys)"
  shows "\<exists>s'. hash_delete a s = Some s' \<and> ut_rep s' (xs @ ys) \<and> dom (ut_heap s') = dom (ut_heap s) \<and>
    key_at (ut_heap s') = key_at (ut_heap s) \<and> val_at (ut_heap s') = val_at (ut_heap s)"
proof -
  let ?h = "ut_heap s" and ?xs = "xs @ a # ys"
  obtain t cs where t: "ut_tbl s = Some t" "tail t = last ?xs" "table_rep ?h t ?xs cs" using rep by (auto simp: ut_rep_def)
  have u: "distinct ?xs" "seg (app_view ?h) None ?xs None" "items_ok ?h ?xs" "inj_on (key_at ?h) (set ?xs)"
    "ut_head s = first_of ?xs None" "length ?xs < 2 ^ 32" using rep by (auto simp: ut_rep_def)
  obtain e where e: "?h a = Some e" "app_prev e = last_of xs None" "app_next e = first_of ys None"
    using u(2) by (auto simp: app_view_def)
  obtain f where f1: "first_of ?xs None = Some f" "f \<in> set ?xs" by (cases xs) auto
  obtain ef where f: "first_of ?xs None = Some f" "?h f = Some ef"
    using f1 seg_dom [OF u(2) f1(2)] by (auto simp: app_view_def)
  have hv: "hash_at ?h a = hashv e" using e(1) by (simp add: hash_at_def dat_view_def)
  show ?thesis
  proof (cases "xs = [] \<and> ys = []")
    case True
    then have "hash_delete a s = Some (s\<lparr>ut_head := None, ut_tbl := None\<rparr>)"
      using e t(1) u(5) f by (simp add: hash_delete_def)
    then show ?thesis using True by (auto simp: ut_rep_def items_ok_def)
  next
    case False
    have "there (last_of xs None) ?h" using seg_dom [OF u(2)] by (auto simp: there_def app_view_def dest!: last_of_mem)
    from assign_app_next [OF this, of "first_of ys None"] obtain h1 where h1:
      "modify_opt (\<lambda>p. p\<lparr>app_next := first_of ys None\<rparr>) (last_of xs None) ?h = Some h1" "dom h1 = dom ?h"
      "app_view h1 = set_next (last_of xs None) (first_of ys None) (app_view ?h)" "chn_view h1 = chn_view ?h" "dat_view h1 = dat_view ?h" by blast
    have "there (first_of ys None) h1"
      using seg_dom [OF u(2)] h1(2) by (fastforce simp: there_def app_view_def dest!: first_of_mem)
    from assign_app_prev [OF this, of "last_of xs None"] obtain h2 where h2:
      "modify_opt (\<lambda>n. n\<lparr>app_prev := last_of xs None\<rparr>) (first_of ys None) h1 = Some h2" "dom h2 = dom h1"
      "app_view h2 = set_prev (first_of ys None) (last_of xs None) (app_view h1)" "chn_view h2 = chn_view h1" "dat_view h2 = dat_view h1" by blast
    have new: "seg (app_view h2) None (xs @ ys) None" using seg_remove [OF u(2,1)] h1(3) h2(3) by simp
    have dv: "dat_view h2 = dat_view ?h" "hash_at h2 = hash_at ?h" using h1(5) h2(5) by (simp_all add: fun_eq_iff hash_at_def)
    have t2: "table_rep h2 t ?xs cs"
      by (rule table_rep_cong [OF _ refl refl refl refl t(3)]) (simp add: h1(4) h2(4) dv(2))
    have a2: "h2 a \<noteq> None" using h1(2) h2(2) e(1) by blast
    let ?z = "last (xs @ ys)"
    obtain h' bs' cs' where d: "hash_del_in_bkt (hash_to_bkt (hashv e) (num_buckets t)) a h2 (buckets t) = Some (h', bs')"
      "table_rep h' (t\<lparr>tail := ?z, buckets := bs', num_items := num_items t - 1\<rparr>) (xs @ ys) cs'" "moved h2 h' (set ?xs)"
      using table_del_ok [OF t2 u(1) _ a2, of ?z] u(1) hv dv(2) by (auto simp: remove1_append)
    let ?t = "t\<lparr>tail := ?z, buckets := bs', num_items := num_items t - 1\<rparr>"
    let ?s = "\<lparr>ut_heap = h', ut_head = first_of (xs @ ys) None, ut_tbl = Some ?t\<rparr>"
    have tail: "(if a = tail t then app_prev e else Some (tail t)) = Some ?z"
      using t(2) u(1) e(2) False by (cases ys rule: rev_cases) (auto simp: last_of_def)
    have head: "(if app_prev e = None then app_next e else ut_head s) = first_of (xs @ ys) None"
      using e(2,3) u(5) by (cases xs) (auto simp: last_of_def)
    have "\<not> (app_prev e = None \<and> app_next e = None)" using False e(2,3) by (auto simp: last_of_def first_of_def split: list.splits if_splits)
    then have run: "hash_delete a s = Some ?s"
      using e f u(5) t(1) tail head h1(1) h2(1) d(1) unfolding hash_delete_def by (auto simp: Let_def)
    have keys: "key_at h' = key_at ?h" "val_at h' = val_at ?h" "dat_view h' = dat_view ?h" "dom h' = dom ?h" "app_view h' = app_view h2"
      using d(3) dv h1(2) h2(2) by (auto simp: moved_def key_at_def val_at_def fun_eq_iff)
    have "ut_rep ?s (xs @ ys)"
      using u False keys d(2) new by (auto simp: ut_rep_def items_ok_def inj_on_def)
    then show ?thesis using run keys by auto
  qed
qed


section \<open>Deleting all elements\<close>

text \<open>The memory outside of the table does not matter.\<close>

lemma ut_rep_outside:
  assumes "ut_rep s xs" "a \<notin> set xs"
  shows "ut_rep (s\<lparr>ut_heap := (ut_heap s)(a := x)\<rparr>) xs"
proof -
  let ?h = "ut_heap s" and ?h' = "(ut_heap s)(a := x)"
  have v: "\<forall>b \<in> set xs. app_view ?h' b = app_view ?h b" "\<forall>b \<in> set xs. chn_view ?h' b = chn_view ?h b"
    "\<forall>b \<in> set xs. dat_view ?h' b = dat_view ?h b" using assms(2) by (auto simp: views)
  then have "\<forall>b \<in> set xs. key_at ?h' b = key_at ?h b" "\<forall>b \<in> set xs. chn_view ?h' b = chn_view ?h b \<and> hash_at ?h' b = hash_at ?h b"
    by (simp_all add: key_at_def hash_at_def)
  moreover from this(1) have "inj_on (key_at ?h') (set xs) = inj_on (key_at ?h) (set xs)" by (auto simp: inj_on_def)
  ultimately show ?thesis
    using assms(1) v(3) seg_cong [OF v(1)] table_rep_cong [where h = ?h and h' = ?h' and xs = xs]
    by (fastforce simp: ut_rep_def items_ok_def)
qed

lemma next_of_rep: "ut_rep s xs \<Longrightarrow> next_of (first_of xs None) s = Some (first_of (tl xs) None)"
  by (cases xs) (auto simp: ut_rep_def next_of_def app_view_def)

lemma delete_loop_rep:
  assumes "ut_rep s xs"
  shows "\<exists>s'. delete_loop (first_of xs None) (first_of (tl xs) None) s = Some s' \<and>
    ut_rep s' [] \<and> dom (ut_heap s') = dom (ut_heap s) - set xs"
  using assms
proof (induction xs arbitrary: s)
  case Nil
  then show ?case by (simp add: delete_loop.simps)
next
  case (Cons a xs)
  obtain s1 where d: "hash_delete a s = Some s1" "ut_rep s1 xs" "dom (ut_heap s1) = dom (ut_heap s)"
    using hash_delete_rep [of s "[]" a xs] Cons.prems by auto
  have a: "a \<notin> set xs" "ut_heap s a \<noteq> None" using Cons.prems by (auto simp: ut_rep_def app_view_def)
  then have "ut_heap s1 a \<noteq> None" using d(3) by blast
  let ?s2 = "s1\<lparr>ut_heap := (ut_heap s1)(a := None)\<rparr>"
  have f: "free_element a s1 = Some ?s2" using \<open>ut_heap s1 a \<noteq> None\<close> by (auto simp: free_element_def)
  have r: "ut_rep ?s2 xs" by (rule ut_rep_outside [OF d(2) a(1)])
  from Cons.IH [OF r] obtain s' where "delete_loop (first_of xs None) (first_of (tl xs) None) ?s2 = Some s'"
    "ut_rep s' []" "dom (ut_heap s') = dom (ut_heap ?s2) - set xs" by blast
  then show ?case
    using d f next_of_rep [OF r] by (auto simp: delete_loop.simps [of "Some a"])
qed

text \<open>Every element is freed, once, and nothing else; the table is gone.\<close>

theorem hash_delete_all_rep:
  assumes "ut_rep s xs"
  shows "\<exists>s'. hash_delete_all s = Some s' \<and> ut_rep s' [] \<and> dom (ut_heap s') = dom (ut_heap s) - set xs"
proof -
  have "ut_head s = first_of xs None" using assms by (simp add: ut_rep_def)
  then show ?thesis using delete_loop_rep [OF assms] next_of_rep [OF assms] by (simp add: hash_delete_all_def)
qed


section \<open>The interface\<close>

text \<open>
  What the users of the table rely on: it holds a map from keys to elements, finding gives the element
  of a key, adding an element with a new key extends the map, and clearing the table frees the elements
  of the table and no other memory. An element is \<open>ready\<close> when it can be added; \<open>val\<close> is the value of an
  element and \<open>mem\<close> the memory that is allocated.
\<close>

locale key_table =
  fixes holds :: "'s \<Rightarrow> (bytes \<rightharpoonup> addr) \<Rightarrow> bool" and ready :: "'s \<Rightarrow> addr \<Rightarrow> bytes \<Rightarrow> bool"
    and val :: "'s \<Rightarrow> addr \<Rightarrow> 'v option" and mem :: "'s \<Rightarrow> addr set"
    and find_key :: "bytes \<Rightarrow> 's \<Rightarrow> addr option option" and add :: "addr \<Rightarrow> 's \<Rightarrow> 's option" and clear :: "'s \<Rightarrow> 's option"
  assumes find_law: "holds s m \<Longrightarrow> length k < 2 ^ 32 \<Longrightarrow> find_key k s = Some (m k)"
    and val_law: "holds s m \<Longrightarrow> m k = Some a \<Longrightarrow> a \<in> mem s \<and> val s a \<noteq> None"
    and add_law: "holds s m \<Longrightarrow> ready s a k \<Longrightarrow> m k = None \<Longrightarrow>
      \<exists>s'. add a s = Some s' \<and> holds s' (m(k \<mapsto> a)) \<and> val s' = val s \<and> mem s' = mem s"
    and clear_law: "holds s m \<Longrightarrow> \<exists>s'. clear s = Some s' \<and> holds s' Map.empty \<and> mem s' = mem s - ran m"
begin

text \<open>The map from keys to values.\<close>

definition lookup :: "'s \<Rightarrow> bytes \<Rightarrow> 'v option" where
  "lookup s k = (case find_key k s of Some (Some a) \<Rightarrow> val s a | _ \<Rightarrow> None)"

lemma lookup_eq: "holds s m \<Longrightarrow> length k < 2 ^ 32 \<Longrightarrow> lookup s k = Option.bind (m k) (val s)"
  using find_law [of s m k] by (cases "m k") (simp_all add: lookup_def)

lemma lookup_None: "holds s m \<Longrightarrow> length k < 2 ^ 32 \<Longrightarrow> lookup s k = None \<longleftrightarrow> m k = None"
  using lookup_eq [of s m k] val_law [of s m k] by (cases "m k") auto

lemma find_iff_lookup: "holds s m \<Longrightarrow> length k < 2 ^ 32 \<Longrightarrow> find_key k s = Some None \<longleftrightarrow> lookup s k = None"
  using lookup_None find_law by fastforce

lemma lookup_after_add:
  assumes "holds s m" "ready s a k" "lookup s k = None" "length k < 2 ^ 32"
  shows "\<exists>s'. add a s = Some s' \<and> holds s' (m(k \<mapsto> a)) \<and> mem s' = mem s \<and>
    (\<forall>k'. length k' < 2 ^ 32 \<longrightarrow> lookup s' k' = (if k' = k then val s a else lookup s k'))"
proof -
  have "m k = None" using lookup_None assms by blast
  from add_law [OF assms(1,2) this] obtain s' where s': "add a s = Some s'" "holds s' (m(k \<mapsto> a))" "val s' = val s" "mem s' = mem s"
    by blast
  then show ?thesis using lookup_eq [OF s'(2)] lookup_eq [OF assms(1)] by auto
qed

end

definition ut_holds :: "'v uthash \<Rightarrow> (bytes \<rightharpoonup> addr) \<Rightarrow> bool" where
  "ut_holds s m \<longleftrightarrow> (\<exists>xs. ut_rep s xs \<and> m = entry_of (ut_heap s) xs)"

definition ut_roomy :: "'v uthash \<Rightarrow> bool" where
  "ut_roomy s \<longleftrightarrow> (\<forall>xs. ut_rep s xs \<longrightarrow> has_room s xs)"

definition ut_ready :: "'v uthash \<Rightarrow> addr \<Rightarrow> bytes \<Rightarrow> bool" where
  "ut_ready s a k \<longleftrightarrow> key_at (ut_heap s) a = Some k \<and> length k < 2 ^ 32 \<and> ut_roomy s \<and> (\<forall>xs. ut_rep s xs \<longrightarrow> a \<notin> set xs)"

definition ut_val :: "'v uthash \<Rightarrow> addr \<Rightarrow> 'v option" where "ut_val s = val_at (ut_heap s)"

definition ut_mem :: "'v uthash \<Rightarrow> addr set" where "ut_mem s = dom (ut_heap s)"

lemma entry_of_snoc:
  assumes "key_at h a = Some k" "entry_of h xs k = None"
  shows "entry_of h (xs @ [a]) = (entry_of h xs)(k \<mapsto> a)"
proof
  have "find P (xs @ [a]) = (case find P xs of None \<Rightarrow> if P a then Some a else None | Some b \<Rightarrow> Some b)" for P
    by (induction xs) auto
  then show "entry_of h (xs @ [a]) k' = ((entry_of h xs)(k \<mapsto> a)) k'" for k'
    using assms by (auto simp: entry_of_def split: option.splits)
qed

lemma rep_entries:
  assumes "ut_rep s xs"
  shows "ran (entry_of (ut_heap s) xs) = set xs" "a \<in> set xs \<Longrightarrow> a \<in> ut_mem s \<and> ut_val s a \<noteq> None"
proof -
  have u: "inj_on (key_at (ut_heap s)) (set xs)" "items_ok (ut_heap s) xs" using assms by (auto simp: ut_rep_def)
  show "ran (entry_of (ut_heap s) xs) = set xs"
    using entry_of_iff [OF u(1)] items_key [OF u(2)] by (fastforce simp: ran_def)
  show "a \<in> ut_mem s \<and> ut_val s a \<noteq> None" if "a \<in> set xs"
    using u(2) that by (fastforce simp: items_ok_def ut_mem_def ut_val_def val_at_def dat_view_def)
qed

interpretation ut: key_table ut_holds ut_ready ut_val ut_mem hash_find "hash_add (\<lambda>_. True)" hash_delete_all
proof
  fix s :: "'a uthash" and m and k :: bytes
  assume "ut_holds s m" "length k < 2 ^ 32"
  then show "hash_find k s = Some (m k)" using hash_find_rep by (auto simp: ut_holds_def)
next
  fix s :: "'a uthash" and m a and k :: bytes
  assume h: "ut_holds s m" "m k = Some a"
  then obtain xs where xs: "ut_rep s xs" "m = entry_of (ut_heap s) xs" by (auto simp: ut_holds_def)
  then have "a \<in> set xs" using rep_entries(1) h(2) by (blast intro: ranI)
  then show "a \<in> ut_mem s \<and> ut_val s a \<noteq> None" by (rule rep_entries(2) [OF xs(1)])
next
  fix s :: "'a uthash" and m a and k :: bytes
  assume h: "ut_holds s m" "ut_ready s a k" "m k = None"
  then obtain xs where xs: "ut_rep s xs" "m = entry_of (ut_heap s) xs" by (auto simp: ut_holds_def)
  obtain e where e: "ut_heap s a = Some e" "el_key e = k" using h(2) by (auto simp: ut_ready_def key_at_def dat_view_def)
  have r: "a \<notin> set xs" "has_room s xs" "length (el_key e) < 2 ^ 32" using h(2) xs(1) e(2) by (auto simp: ut_ready_def ut_roomy_def)
  obtain s' where s': "hash_add (\<lambda>_. True) a s = Some s'" "ut_rep s' (xs @ [a])" "dom (ut_heap s') = dom (ut_heap s)"
    "key_at (ut_heap s') = key_at (ut_heap s)" "val_at (ut_heap s') = val_at (ut_heap s)"
    using hash_add_rep [OF xs(1) e(1) r(1,3) _ r(2), of "\<lambda>_. True"] h(3) xs(2) e(2) by auto
  have "entry_of (ut_heap s') (xs @ [a]) = m(k \<mapsto> a)"
    using entry_of_snoc [of "ut_heap s" a k xs] h(2,3) xs(2) s'(4) by (simp add: ut_ready_def entry_of_def fun_eq_iff)
  then show "\<exists>s'. hash_add (\<lambda>_. True) a s = Some s' \<and> ut_holds s' (m(k \<mapsto> a)) \<and> ut_val s' = ut_val s \<and> ut_mem s' = ut_mem s"
    using s' by (auto simp: ut_holds_def ut_val_def ut_mem_def intro!: exI [of _ "xs @ [a]"])
next
  fix s :: "'a uthash" and m
  assume "ut_holds s m"
  then obtain xs where xs: "ut_rep s xs" "m = entry_of (ut_heap s) xs" by (auto simp: ut_holds_def)
  from hash_delete_all_rep [OF xs(1)] obtain s' where d:
    "hash_delete_all s = Some s'" "ut_rep s' []" "dom (ut_heap s') = dom (ut_heap s) - set xs" by blast
  show "\<exists>s'. hash_delete_all s = Some s' \<and> ut_holds s' Map.empty \<and> ut_mem s' = ut_mem s - ran m"
  proof (intro exI conjI)
    have "Map.empty = entry_of (ut_heap s') []" by (simp add: entry_of_def fun_eq_iff)
    then show "ut_holds s' Map.empty" using d(2) unfolding ut_holds_def by blast
    show "ut_mem s' = ut_mem s - ran m" unfolding ut_mem_def xs(2) rep_entries(1) [OF xs(1)] by (rule d(3))
  qed (rule d(1))
qed

text \<open>A new element next to a table.\<close>

lemma new_element:
  assumes "ut_holds s m" "ut_roomy s" "ut_heap s a = None" "length (el_key e) < 2 ^ 32"
  defines "s' \<equiv> s\<lparr>ut_heap := (ut_heap s)(a \<mapsto> e)\<rparr>"
  shows "ut_holds s' m" "ut_ready s' a (el_key e)" "ut_val s' = (ut_val s)(a \<mapsto> el_val e)" "ut_mem s' = insert a (ut_mem s)"
proof -
  have out: "a \<notin> set xs" if "ut_rep s xs" for xs using rep_entries(2) [OF that] assms(3) by (auto simp: ut_mem_def)
  have to: "ut_rep s xs \<Longrightarrow> ut_rep s' xs" for xs unfolding s'_def using out by (intro ut_rep_outside)
  have h: "hash_find k s = Some (m k)" if "length k < 2 ^ 32" for k using ut.find_law [OF assms(1) that] .
  obtain xs where xs: "ut_rep s xs" "m = entry_of (ut_heap s) xs" using assms(1) by (auto simp: ut_holds_def)
  have "\<forall>b \<in> set xs. key_at (ut_heap s') b = key_at (ut_heap s) b"
    using out [OF xs(1)] by (auto simp: s'_def key_at_def dat_view_def)
  then have "entry_of (ut_heap s') xs = m" unfolding xs(2) entry_of_def by (intro ext find_cong) auto
  then show "ut_holds s' m" using to [OF xs(1)] by (auto simp: ut_holds_def)
  have same: "ys = xs" if "ut_rep s' ys" for ys
    using seg_unique that to [OF xs(1)] by (fastforce simp: ut_rep_def)
  then show "ut_ready s' a (el_key e)"
    using assms(2,4) out [OF xs(1)] xs(1) to by (auto simp: ut_ready_def ut_roomy_def has_room_def s'_def key_at_def dat_view_def)
  show "ut_val s' = (ut_val s)(a \<mapsto> el_val e)" by (auto simp: ut_val_def val_at_def dat_view_def s'_def fun_eq_iff)
  show "ut_mem s' = insert a (ut_mem s)" by (simp add: ut_mem_def s'_def)
qed

end
