(* ===== verification/Subnet_Table.thy ===== *)
theory Subnet_Table
  imports Subnet_Lemmas Uthash_Table
begin

text \<open>
  The table of prefixes (\<open>src/src/subnet_activity.c\<close>) as it is in memory: a hash table whose keys are
  the bytes of \<open>struct prefix\<close>. Adding a prefix, the search and the freeing are written on the hash table, and
  refine those on the map of prefixes in \<open>Subnet_Activity\<close>.
\<close>

section \<open>The code on the hash table\<close>

text \<open>
  The family, two bytes of padding, the union of the two kinds of addresses, and the length; all bytes
  that an address does not use are zero, since the structure is cleared first.
\<close>

definition prefix_bytes :: "prefix \<Rightarrow> bytes" where
  "prefix_bytes p =
     (let (addr, n) = p;
          (family, bs) = (case addr of Addr4 a \<Rightarrow> (2, a) | Addr6 a \<Rightarrow> (10, a) | Other_Family f \<Rightarrow> (f, []))
      in [of_nat family, of_nat (family div 256), 0, 0] @ take 16 (bs @ replicate 16 0) @ bytes32 (of_nat n))"

type_synonym prefix_table = "nat option uthash"

text \<open>
  Adding a prefix for the entity \<open>ent\<close>. \<open>new\<close> is what \<open>malloc\<close> returns for the element, \<open>fresh\<close> what is in that
  memory. The element that was added is the second result.
\<close>

definition table_add_prefix ::
  "(nat \<Rightarrow> bool) \<Rightarrow> addr option \<Rightarrow> nat option element \<Rightarrow> prefix \<Rightarrow> nat option \<Rightarrow> prefix_table \<Rightarrow>
   (subnet_activity_error \<times> addr option \<times> prefix_table) option" where
  "table_add_prefix malloc new fresh p ent ht = do {
     entry \<leftarrow> hash_find (prefix_bytes p) ht;
     case entry of
       Some _ \<Rightarrow> Some (SA_OK, None, ht)
     | None \<Rightarrow> (case new of
         None \<Rightarrow> Some (SA_ALLOC_FAILED, None, ht)
       | Some a \<Rightarrow> do {
           let ht = ht\<lparr>ut_heap := (ut_heap ht)(a \<mapsto> fresh\<lparr>el_key := prefix_bytes p, el_val := ent\<rparr>)\<rparr>;
           ht \<leftarrow> hash_add malloc a ht;
           Some (SA_OK, Some a, ht)
         })
   }"

text \<open>The loop of the search; \<open>find_key\<close> is the operation of the table. The result is the element.\<close>

function table_match_from ::
  "(bytes \<Rightarrow> 's \<Rightarrow> addr option option) \<Rightarrow> (nat \<Rightarrow> prefix option) \<Rightarrow> 's \<Rightarrow> nat \<Rightarrow> nat \<Rightarrow> addr option option" where
  "table_match_from find_key probe ht shortest i =
     (if i < shortest then Some None
      else if 128 < i then None
      else do {
        p \<leftarrow> probe i;
        entry \<leftarrow> find_key (prefix_bytes p) ht;
        case entry of Some a \<Rightarrow> Some (Some a)
        | None \<Rightarrow> table_match_from find_key probe ht shortest (if i = 0 then 2 ^ 32 - 1 else i - 1)
      })"
  by pat_completeness auto
termination
  by (relation "measure (\<lambda>(_, _, _, _, i). if i \<le> 128 then i + 1 else 0)") auto

declare table_match_from.simps [simp del]

definition table_match_prefix ::
  "in_addr46 option \<Rightarrow> (subnet_activity \<times> prefix_table) option \<Rightarrow> addr option option \<Rightarrow>
   (subnet_activity_error \<times> addr option option) option" where
  "table_match_prefix addr subact pp_result =
     (case (subact, addr, pp_result) of
        (Some (sa, ht), Some (Addr4 a), Some _) \<Rightarrow>
          map_option (\<lambda>r. (SA_OK, Some r))
            (table_match_from hash_find (probe_ipv4 a) ht (shortest_ipv4_prefix sa) (longest_ipv4_prefix sa))
      | (Some (sa, ht), Some (Addr6 a), Some _) \<Rightarrow>
          map_option (\<lambda>r. (SA_OK, Some r))
            (table_match_from hash_find (probe_ipv6 a) ht (shortest_ipv6_prefix sa) (longest_ipv6_prefix sa))
      | _ \<Rightarrow> Some (SA_INVALID_ARGUMENT, pp_result))"

text \<open>The prefixes are only freed when there are entities.\<close>

definition table_destroy :: "subnet_activity \<Rightarrow> prefix_table \<Rightarrow> prefix_table option" where
  "table_destroy sa ht = (if 0 < registered_entities sa then hash_delete_all ht else Some ht)"

section \<open>Keys\<close>

definition key_valid :: "prefix \<Rightarrow> bool" where
  "key_valid p = (case p of (addr, n) \<Rightarrow> n < 2 ^ 32 \<and>
     (case addr of Addr4 a \<Rightarrow> length a = 4 | Addr6 a \<Rightarrow> length a = 16 | Other_Family _ \<Rightarrow> False))"

lemma length_prefix_bytes: "length (prefix_bytes p) = 24"
  by (auto simp: prefix_bytes_def min_def split: prod.splits)

lemma prefix_bytes_short: "length (prefix_bytes p) < 2 ^ 32"
  by (simp add: length_prefix_bytes)

lemma bytes32_nat_inj:
  assumes "bytes32 (of_nat m) = bytes32 (of_nat n)" "m < 2 ^ 32" "n < 2 ^ 32"
  shows "m = n"
proof -
  have "(of_nat m :: u32) = of_nat n" by (metis assms(1) of_nat_bytes_val_bytes32)
  then show ?thesis using of_nat_u32_eq [OF assms(2,3)] by simp
qed

lemma prefix_bytes_inj:
  assumes "key_valid p" "key_valid q"
  shows "prefix_bytes p = prefix_bytes q \<longleftrightarrow> p = q"
  using assms bytes32_nat_inj
  by (cases p; cases q) (auto simp: prefix_bytes_def key_valid_def split: in_addr46.splits)

lemma length_ipv6_prefix_mask: "length (ipv6_prefix_mask i) = 16"
proof -
  have "length (fold (\<lambda>j a. a[j := x]) js as) = length as" for x :: u8 and js as
    by (induction js arbitrary: as) auto
  then show ?thesis by (simp add: ipv6_prefix_mask_def Let_def)
qed

lemma probe_valid:
  "length a = 4 \<Longrightarrow> probe_ipv4 a i = Some p \<Longrightarrow> key_valid p"
  "length a = 16 \<Longrightarrow> probe_ipv6 a i = Some p \<Longrightarrow> key_valid p"
  using nth_ipv6_masks [of i]
  by (auto simp: probe_ipv4_def probe_ipv6_def key_valid_def length_ipv6_prefix_mask split: if_splits)

section \<open>Refinement\<close>

text \<open>The hash table holds the map of prefixes, and nothing else.\<close>

definition table_holds :: "prefix_table \<Rightarrow> (prefix \<rightharpoonup> nat option) \<Rightarrow> bool" where
  "table_holds ht m \<longleftrightarrow> dom m \<subseteq> Collect key_valid \<and>
     (\<exists>t. ut_holds ht t \<and> dom t \<subseteq> prefix_bytes ` Collect key_valid \<and>
       (\<forall>p. key_valid p \<longrightarrow> m p = ut.lookup ht (prefix_bytes p)))"

context key_table
begin

lemma match_refines:
  assumes "holds ht t" and "\<And>i p. probe i = Some p \<Longrightarrow> m p = None \<longleftrightarrow> lookup ht (prefix_bytes p) = None"
  shows "table_match_from find_key probe ht shortest i =
    map_option (\<lambda>r. Option.bind r (\<lambda>p. t (prefix_bytes p))) (match_from probe m shortest i)"
  using assms(2)
proof (induction probe m shortest i rule: match_from.induct)
  case (1 probe m shortest i)
  show ?case
  proof (cases "i < shortest \<or> 128 < i \<or> probe i = None")
    case True
    then show ?thesis by (subst table_match_from.simps, subst match_from.simps) auto
  next
    case False
    then obtain p where p: "probe i = Some p" by auto
    have f: "find_key (prefix_bytes p) ht = Some (t (prefix_bytes p))" by (rule find_law [OF assms(1) prefix_bytes_short])
    have mp: "m p = None \<longleftrightarrow> t (prefix_bytes p) = None"
      using 1(2) [OF p] lookup_None [OF assms(1) prefix_bytes_short] by simp
    show ?thesis
    proof (cases "m p = None")
      case True
      then show ?thesis
        using False p f mp 1(1) [OF _ _ p] 1(2) by (subst table_match_from.simps, subst match_from.simps) auto
    next
      case found: False
      then show ?thesis
        using False p f mp by (subst table_match_from.simps, subst match_from.simps) auto
    qed
  qed
qed

end

lemma table_match_ok:
  assumes "table_holds ht m" and "\<And>i p. probe i = Some p \<Longrightarrow> key_valid p"
  shows "table_match_from hash_find probe ht shortest i =
    map_option (\<lambda>r. Option.bind r (\<lambda>p. the (hash_find (prefix_bytes p) ht))) (match_from probe m shortest i)"
proof -
  obtain t where t: "ut_holds ht t" "\<forall>p. key_valid p \<longrightarrow> m p = ut.lookup ht (prefix_bytes p)"
    using assms(1) by (auto simp: table_holds_def)
  have "hash_find (prefix_bytes p) ht = Some (t (prefix_bytes p))" for p
    by (rule ut.find_law [OF t(1) prefix_bytes_short])
  then show ?thesis using ut.match_refines [OF t(1), of probe m] t(2) assms(2) by simp
qed


text \<open>The search, from an address of the right length.\<close>

definition address_valid :: "in_addr46 \<Rightarrow> bool" where
  "address_valid addr = (case addr of Addr4 a \<Rightarrow> length a = 4 | Addr6 a \<Rightarrow> length a = 16 | Other_Family _ \<Rightarrow> True)"

lemma table_match_prefix_ok:
  assumes "table_holds ht (sa_prefixes sa)" "address_valid addr"
  shows "table_match_prefix (Some addr) (Some (sa, ht)) (Some old) =
    map_option (\<lambda>(code, r). (code, if code = SA_OK
        then map_option (\<lambda>q. Option.bind q (\<lambda>p. the (hash_find (prefix_bytes p) ht))) r else Some old))
      (subnet_activity_match_prefix (Some addr) (Some sa) (Some old'))"
  using assms(2) table_match_ok [OF assms(1)] probe_valid
  by (cases addr)
     (simp_all add: table_match_prefix_def subnet_activity_match_prefix_def address_valid_def option.map_comp comp_def)

lemma table_add_ok:
  assumes h: "table_holds ht m" and p: "key_valid p"
    and new: "\<And>a. new = Some a \<Longrightarrow> ut_heap ht a = None \<and> ut_roomy ht"
  shows "\<exists>cur ht'. table_add_prefix (\<lambda>_. True) new fresh p ent ht =
      Some (if m p = None \<and> new = None then SA_ALLOC_FAILED else SA_OK, cur, ht') \<and>
    table_holds ht' (if m p = None \<and> new \<noteq> None then m(p \<mapsto> ent) else m) \<and> cur = (if m p = None then new else None) \<and>
    (\<forall>a. cur = Some a \<longrightarrow> hash_find (prefix_bytes p) ht' = Some (Some a) \<and> ut_val ht' a = Some ent)"
proof -
  let ?k = "prefix_bytes p"
  obtain t where t: "ut_holds ht t" "dom t \<subseteq> prefix_bytes ` Collect key_valid" "dom m \<subseteq> Collect key_valid"
    "\<forall>p. key_valid p \<longrightarrow> m p = ut.lookup ht (prefix_bytes p)"
    using h by (auto simp: table_holds_def)
  have look: "m q = ut.lookup ht (prefix_bytes q)" if "key_valid q" for q using t(4) that by blast
  have f: "hash_find ?k ht = Some (t ?k)" by (rule ut.find_law [OF t(1) prefix_bytes_short])
  have none: "m p = None \<longleftrightarrow> t ?k = None"
    using look [OF p] ut.lookup_None [OF t(1) prefix_bytes_short] by simp
  show ?thesis
  proof (cases "m p = None \<and> new \<noteq> None")
    case False
    then show ?thesis using f none h by (auto simp: table_add_prefix_def split: option.splits)
  next
    case True
    then obtain a where a: "new = Some a" "m p = None" "ut_heap ht a = None" "ut_roomy ht" using new by blast
    let ?e = "fresh\<lparr>el_key := ?k, el_val := ent\<rparr>" and ?s = "ht\<lparr>ut_heap := (ut_heap ht)(a \<mapsto> fresh\<lparr>el_key := ?k, el_val := ent\<rparr>)\<rparr>"
    have "length (el_key ?e) < 2 ^ 32" using prefix_bytes_short by simp
    note n = new_element [OF t(1) a(4,3) this]
    have e: "el_key ?e = ?k" "el_val ?e = ent" by simp_all
    have "a \<notin> ut_mem ht" using a(3) by (auto simp: ut_mem_def)
    then have old: "ut.lookup ?s k = ut.lookup ht k" if "length k < 2 ^ 32" for k
      using ut.lookup_eq [OF t(1) that] ut.lookup_eq [OF n(1) that] n(3) ut.val_law [OF t(1), of k]
      by (cases "t k") auto
    have "ut.lookup ?s ?k = None" using old [OF prefix_bytes_short] look [OF p] a(2) by simp
    from ut.lookup_after_add [OF n(1) n(2) [unfolded e] this prefix_bytes_short]
    obtain s' where s': "hash_add (\<lambda>_. True) a ?s = Some s'" "ut_holds s' (t(?k \<mapsto> a))"
      "\<forall>k'. length k' < 2 ^ 32 \<longrightarrow> ut.lookup s' k' = (if k' = ?k then ut_val ?s a else ut.lookup ?s k')" by blast
    have "ut.lookup s' (prefix_bytes q) = (m(p \<mapsto> ent)) q" if "key_valid q" for q
      using s'(3) old prefix_bytes_short look [OF that] prefix_bytes_inj [OF that p] n(3) by simp
    moreover have "dom (t(?k \<mapsto> a)) \<subseteq> prefix_bytes ` Collect key_valid" using t(2) p by auto
    ultimately have "table_holds s' (m(p \<mapsto> ent))" 
      using s'(2) t(3) p unfolding table_holds_def by (intro conjI exI [of _ "t(?k \<mapsto> a)"]) auto
    moreover have "table_add_prefix (\<lambda>_. True) new fresh p ent ht = Some (SA_OK, Some a, s')"
      using f none a(1,2) s'(1) by (simp add: table_add_prefix_def)
    moreover have found: "hash_find ?k s' = Some (Some a)" using ut.find_law [OF s'(2) prefix_bytes_short] by simp
    moreover have "ut.lookup s' ?k = ut_val s' a" unfolding ut.lookup_def found by simp
    then have "ut_val s' a = Some ent" using s'(3) prefix_bytes_short n(3) by simp
    ultimately show ?thesis using a(1,2) by auto
  qed
qed

text \<open>Freeing: exactly the elements of the table leave the memory.\<close>

lemma table_destroy_ok:
  assumes "table_holds ht (sa_prefixes sa)" "subnet_activity_destroy (Some sa) = (code, Some sb)"
  shows "\<exists>ht'. table_destroy sa ht = Some ht' \<and> table_holds ht' (sa_prefixes sb) \<and>
    (0 < registered_entities sa \<longrightarrow>
      dom (ut_heap ht') = dom (ut_heap ht) - {a. \<exists>p. key_valid p \<and> hash_find (prefix_bytes p) ht = Some (Some a)})"
proof (cases "0 < registered_entities sa")
  case True
  obtain t where t: "ut_holds ht t" "dom t \<subseteq> prefix_bytes ` Collect key_valid" using assms(1) by (auto simp: table_holds_def)
  obtain ht' where c: "hash_delete_all ht = Some ht'" "ut_holds ht' Map.empty" "ut_mem ht' = ut_mem ht - ran t"
    using ut.clear_law [OF t(1)] by blast
  have "hash_find (prefix_bytes p) ht = Some (t (prefix_bytes p))" for p
    by (rule ut.find_law [OF t(1) prefix_bytes_short])
  then have "{a. \<exists>p. key_valid p \<and> hash_find (prefix_bytes p) ht = Some (Some a)} = ran t"
    using t(2) by (fastforce simp: ran_def)
  moreover have "table_holds ht' Map.empty"
    unfolding table_holds_def using c(2) ut.lookup_eq [OF c(2) prefix_bytes_short] by (intro conjI exI [of _ Map.empty]) auto
  moreover have "sa_prefixes sb = Map.empty" using True assms(2) by (auto simp: subnet_activity_destroy_def)
  ultimately show ?thesis using True c by (simp add: table_destroy_def ut_mem_def)
next
  case False
  then have "sb = sa" using assms(2) by (auto simp: subnet_activity_destroy_def)
  then show ?thesis using False assms(1) by (simp add: table_destroy_def)
qed

text \<open>The table before the first prefix.\<close>

lemma empty_table_holds:
  assumes "ut_head s = None" "ut_tbl s = None"
  shows "table_holds s Map.empty" "ut_roomy s"
proof -
  have r: "ut_rep s []" using assms by (simp add: ut_rep_def items_ok_def)
  then have h: "ut_holds s Map.empty" by (auto simp: ut_holds_def entry_of_def fun_eq_iff intro!: exI [of _ "[]"])
  then show "table_holds s Map.empty"
    unfolding table_holds_def using ut.lookup_eq [OF h prefix_bytes_short] by (intro conjI exI [of _ Map.empty]) auto
  have "xs = []" if "ut_rep s xs" for xs using that assms by (cases xs) (auto simp: ut_rep_def)
  then show "ut_roomy s" using assms(2) by (fastforce simp: ut_roomy_def has_room_def)
qed

end
