(* ===== verification/Gather_Resources.thy ===== *)
theory Gather_Resources
  imports Honas_Base
begin

text \<open>
  What the collector holds besides its data (\<open>src/src/bin/honas_gather.c\<close>): the structure of the counters, the
  timers, the files of its reports, the listener and the base of the events, the descriptor of the
  directory in which it was started, and the connections of its clients. Each is a pointer that is
  NULL, points to something, or points to something that was released. Releasing twice, an event whose
  base is gone, and writing to a file that is NULL are \<open>None\<close>.
\<close>

section \<open>Pointers\<close>

datatype pointer = P_Null | P_Live | P_Freed

text \<open>Releasing what is there; all releases of the collector allow NULL or test for it.\<close>

definition release :: "pointer \<Rightarrow> pointer option" where
  "release p = (case p of P_Null \<Rightarrow> Some P_Null | P_Live \<Rightarrow> Some P_Freed | P_Freed \<Rightarrow> None)"

record handles =
  init_dirfd :: pointer
  ev_base :: pointer
  ev_connlistener :: pointer
  ev_state_rotation :: pointer
  inst_data :: pointer
  inst_fd :: pointer
  ev_inst_timer :: pointer
  dryrun_fd :: pointer
  ev_dry_run_hourly :: pointer
  ev_dry_run_daily :: pointer
  hourly_registers :: pointer
  daily_registers :: pointer
  open_connections :: "pointer list"

text \<open>What the system gives: memory for the counters, the two files and the timers.\<close>

record resources =
  calloc_ok :: bool
  inst_file_ok :: bool
  dry_file_ok :: bool
  event_ok :: bool

section \<open>The start\<close>

text \<open>A timer that was not allocated is added all the same.\<close>

definition new_timer :: "resources \<Rightarrow> pointer option" where
  "new_timer r = (if event_ok r then Some P_Live else None)"

definition open_instrumentation :: "resources \<Rightarrow> handles \<Rightarrow> handles option" where
  "open_instrumentation r s =
     (if \<not> calloc_ok r then Some (s\<lparr>inst_data := P_Null\<rparr>)
      else do {
        let s = s\<lparr>inst_data := P_Live\<rparr>;
        if inst_file_ok r then do {
          timer \<leftarrow> new_timer r;
          Some (s\<lparr>inst_fd := P_Live, ev_inst_timer := timer\<rparr>)
        }
        else do {
          inst \<leftarrow> release (inst_data s);
          Some (s\<lparr>inst_fd := P_Null, inst_data := inst\<rparr>)
        }
      })"

definition open_dry_run :: "resources \<Rightarrow> handles \<Rightarrow> handles option" where
  "open_dry_run r s =
     (if \<not> dry_file_ok r then Some (s\<lparr>dryrun_fd := P_Null\<rparr>)
      else do {
        hourly \<leftarrow> new_timer r;
        daily \<leftarrow> new_timer r;
        Some (s\<lparr>dryrun_fd := P_Live, ev_dry_run_hourly := hourly, ev_dry_run_daily := daily,
          hourly_registers := P_Live, daily_registers := P_Live\<rparr>)
      })"

text \<open>
  \<open>main\<close> from the socket, which is there, to the loop over the events. The directory was opened before.
\<close>

definition acquire_handles :: "resources \<Rightarrow> bool \<Rightarrow> handles option" where
  "acquire_handles r dry_run = do {
     rotation \<leftarrow> new_timer r;
     s \<leftarrow> open_instrumentation r \<lparr>init_dirfd = P_Live, ev_base = P_Live, ev_connlistener = P_Live, ev_state_rotation = rotation,
       inst_data = P_Null, inst_fd = P_Null, ev_inst_timer = P_Null, dryrun_fd = P_Null,
       ev_dry_run_hourly = P_Null, ev_dry_run_daily = P_Null, hourly_registers = P_Null, daily_registers = P_Null,
       open_connections = []\<rparr>;
     if dry_run then open_dry_run r s else Some s
   }"

text \<open>Every counter is changed through the pointer unless that is NULL.\<close>

definition counters_usable :: "handles \<Rightarrow> bool" where
  "counters_usable s \<longleftrightarrow> inst_data s \<noteq> P_Freed"

text \<open>A connection that is closed: its control structure and then itself; the caller keeps the pointer.\<close>

definition conn_destroy :: "pointer \<Rightarrow> pointer \<Rightarrow> (pointer \<times> pointer) option" where
  "conn_destroy control conn =
     (if conn = P_Null then Some (control, conn)
      else do {
        c_assert (conn = P_Live);
        _ \<leftarrow> release control;
        conn \<leftarrow> release conn;
        Some (P_Null, conn)
      })"

text \<open>
  Clients that connect and go during the loop. A connection is numbered in the order of its start, and its
  pointer is used by the callbacks as long as it is open.
\<close>

datatype conn_event = Accepted | Gone nat

definition conn_event_handles :: "conn_event \<Rightarrow> handles \<Rightarrow> handles option" where
  "conn_event_handles e s =
     (case e of
        Accepted \<Rightarrow> Some (s\<lparr>open_connections := open_connections s @ [P_Live]\<rparr>)
      | Gone i \<Rightarrow> do {
          c_assert (i < length (open_connections s));
          (_, conn) \<leftarrow> conn_destroy P_Live (open_connections s ! i);
          Some (s\<lparr>open_connections := (open_connections s)[i := conn]\<rparr>)
        })"

fun loop_handles :: "conn_event list \<Rightarrow> handles \<Rightarrow> handles option" where
  "loop_handles [] s = Some s"
| "loop_handles (e # es) s = Option.bind (conn_event_handles e s) (loop_handles es)"

section \<open>The end\<close>

definition event_free :: "pointer \<Rightarrow> pointer \<Rightarrow> pointer option" where
  "event_free base ev = do {
     c_assert (ev = P_Null \<or> base = P_Live);
     release ev
   }"

definition finalize_instrumentation :: "handles \<Rightarrow> handles option" where
  "finalize_instrumentation s = do {
     inst \<leftarrow> release (inst_data s);
     timer \<leftarrow> event_free (ev_base s) (ev_inst_timer s);
     fd \<leftarrow> release (inst_fd s);
     Some (s\<lparr>inst_data := inst, ev_inst_timer := timer, inst_fd := fd\<rparr>)
   }"

text \<open>Destroying a HyperLogLog sets the pointer to its registers to NULL.\<close>

definition dry_run_destroy :: "handles \<Rightarrow> handles option" where
  "dry_run_destroy s = do {
     _ \<leftarrow> release (hourly_registers s);
     _ \<leftarrow> release (daily_registers s);
     hourly \<leftarrow> event_free (ev_base s) (ev_dry_run_hourly s);
     daily \<leftarrow> event_free (ev_base s) (ev_dry_run_daily s);
     fd \<leftarrow> release (dryrun_fd s);
     Some (s\<lparr>hourly_registers := P_Null, daily_registers := P_Null, ev_dry_run_hourly := hourly,
       ev_dry_run_daily := daily, dryrun_fd := fd\<rparr>)
   }"

text \<open>\<open>main\<close> after the loop; the advice is written to the file of the dry run.\<close>

definition release_handles :: "bool \<Rightarrow> handles \<Rightarrow> handles option" where
  "release_handles dry_run s = do {
     rotation \<leftarrow> event_free (ev_base s) (ev_state_rotation s);
     s \<leftarrow> finalize_instrumentation (s\<lparr>ev_state_rotation := rotation\<rparr>);
     s \<leftarrow> (if dry_run then do {
         c_assert (dryrun_fd s = P_Live);
         dry_run_destroy s
       } else Some s);
     listener \<leftarrow> event_free (ev_base s) (ev_connlistener s);
     base \<leftarrow> release (ev_base s);
     Some (s\<lparr>ev_connlistener := listener, ev_base := base\<rparr>)
   }"

text \<open>What \<open>main\<close> releases at its end; the directory and the connections are not among it.\<close>

definition ended_handles :: "handles \<Rightarrow> pointer set" where
  "ended_handles s = {ev_base s, ev_connlistener s, ev_state_rotation s, inst_data s, inst_fd s, ev_inst_timer s, dryrun_fd s,
     ev_dry_run_hourly s, ev_dry_run_daily s, hourly_registers s, daily_registers s}"

lemmas handle_defs = acquire_handles_def open_instrumentation_def open_dry_run_def release_handles_def
  finalize_instrumentation_def dry_run_destroy_def event_free_def release_def new_timer_def

lemma acquire_iff: "acquire_handles r dry_run \<noteq> None \<longleftrightarrow> event_ok r"
  by (auto simp: handle_defs Let_def)

text \<open>The loop changes nothing but the connections.\<close>

lemma loop_handles_rest:
  "loop_handles es s = Some s' \<Longrightarrow> s' = s\<lparr>open_connections := open_connections s'\<rparr>"
proof (induction es arbitrary: s)
  case (Cons e es)
  then obtain t where t: "conn_event_handles e s = Some t" "loop_handles es t = Some s'"
    by (auto simp: bind_eq_Some_conv)
  have "s' = t\<lparr>open_connections := open_connections s'\<rparr>" by (rule Cons.IH [OF t(2)])
  moreover have "t = s\<lparr>open_connections := open_connections t\<rparr>"
    using t(1) by (auto simp: conn_event_handles_def bind_eq_Some_conv split: conn_event.splits if_splits)
  ultimately show ?case by (metis handles.update_convs(13) handles.surjective)
qed simp

lemma map_option_bind_if:
  "map_option f (Option.bind x h) = Option.bind x (\<lambda>y. map_option f (h y))"
  "map_option f (if b then p else q) = (if b then map_option f p else map_option f q)"
  by (cases x) simp_all

lemma connection_updates:
  "s\<lparr>open_connections := c, ev_base := x\<rparr> = s\<lparr>ev_base := x, open_connections := c\<rparr>"
  "s\<lparr>open_connections := c, ev_connlistener := x\<rparr> = s\<lparr>ev_connlistener := x, open_connections := c\<rparr>"
  "s\<lparr>open_connections := c, ev_state_rotation := x\<rparr> = s\<lparr>ev_state_rotation := x, open_connections := c\<rparr>"
  "s\<lparr>open_connections := c, inst_data := x\<rparr> = s\<lparr>inst_data := x, open_connections := c\<rparr>"
  "s\<lparr>open_connections := c, inst_fd := x\<rparr> = s\<lparr>inst_fd := x, open_connections := c\<rparr>"
  "s\<lparr>open_connections := c, ev_inst_timer := x\<rparr> = s\<lparr>ev_inst_timer := x, open_connections := c\<rparr>"
  "s\<lparr>open_connections := c, dryrun_fd := x\<rparr> = s\<lparr>dryrun_fd := x, open_connections := c\<rparr>"
  "s\<lparr>open_connections := c, ev_dry_run_hourly := x\<rparr> = s\<lparr>ev_dry_run_hourly := x, open_connections := c\<rparr>"
  "s\<lparr>open_connections := c, ev_dry_run_daily := x\<rparr> = s\<lparr>ev_dry_run_daily := x, open_connections := c\<rparr>"
  "s\<lparr>open_connections := c, hourly_registers := x\<rparr> = s\<lparr>hourly_registers := x, open_connections := c\<rparr>"
  "s\<lparr>open_connections := c, daily_registers := x\<rparr> = s\<lparr>daily_registers := x, open_connections := c\<rparr>"
  by simp_all

lemma finalize_connections:
  "finalize_instrumentation (s\<lparr>open_connections := conns\<rparr>) =
     map_option (\<lambda>s. s\<lparr>open_connections := conns\<rparr>) (finalize_instrumentation s)"
  by (simp add: finalize_instrumentation_def map_option_bind_if connection_updates)

lemma dry_run_destroy_connections:
  "dry_run_destroy (s\<lparr>open_connections := conns\<rparr>) = map_option (\<lambda>s. s\<lparr>open_connections := conns\<rparr>) (dry_run_destroy s)"
  by (simp add: dry_run_destroy_def map_option_bind_if connection_updates)

lemma bind_map:
  "Option.bind (map_option f x) h = Option.bind x (\<lambda>y. h (f y))"
  "Option.bind (if b then map_option f x else None) h = Option.bind (if b then x else None) (\<lambda>y. h (f y))"
  by (cases x; simp)+

lemma release_handles_connections:
  "release_handles dry_run (s\<lparr>open_connections := conns\<rparr>) =
     map_option (\<lambda>s. s\<lparr>open_connections := conns\<rparr>) (release_handles dry_run s)"
  by (cases dry_run)
    (simp_all add: release_handles_def map_option_bind_if finalize_connections dry_run_destroy_connections bind_map
      connection_updates cong: if_cong)

text \<open>With its files the collector releases all that it is to release once; without them it does not come to its end.\<close>

lemma release_ok:
  assumes "acquire_handles r dry_run = Some s" "calloc_ok r \<longrightarrow> inst_file_ok r" "dry_run \<longrightarrow> dry_file_ok r"
  shows "counters_usable s \<and> (\<exists>s'. release_handles dry_run s = Some s' \<and> P_Live \<notin> ended_handles s' \<and> init_dirfd s' = P_Live)"
  using assms
  by (cases "calloc_ok r"; cases dry_run)
     (auto simp: handle_defs Let_def counters_usable_def ended_handles_def split: if_splits)

lemma release_twice:
  assumes "acquire_handles r dry_run = Some s" "calloc_ok r" "\<not> inst_file_ok r"
  shows "\<not> counters_usable s \<and> release_handles dry_run s = None"
  using assms by (cases dry_run) (auto simp: handle_defs Let_def counters_usable_def split: if_splits)

lemma release_no_file:
  assumes "acquire_handles r True = Some s" "\<not> dry_file_ok r"
  shows "release_handles True s = None"
  using assms
  by (cases "calloc_ok r"; cases "inst_file_ok r") (auto simp: handle_defs Let_def split: if_splits)


lemma counters_usable_connections [simp]:
  "counters_usable (s\<lparr>open_connections := conns\<rparr>) = counters_usable s"
  by (simp add: counters_usable_def)

lemma counters_usable_iff:
  assumes "acquire_handles r dry_run = Some s"
  shows "counters_usable s \<longleftrightarrow> (calloc_ok r \<longrightarrow> inst_file_ok r)"
  using assms by (cases dry_run) (auto simp: handle_defs Let_def counters_usable_def split: if_splits)

end
