(* ===== verification/Memory_Properties.thy ===== *)
theory Memory_Properties
  imports Subnet_Table Gather_Resources
begin

text \<open>
  Properties of the memory and the other resources of the programs: the hash table of prefixes with its
  linked lists does what the map of prefixes does (C8), and what the collector releases (C10).
\<close>

text \<open>
  C8. Let a hash table in memory hold the map of the prefixes, and add a prefix to both. The code on the
  hash table returns, with the same result as the one on the map; the table then holds the new map, in which
  the new element is found with its entity. A search in the table gives the element of the prefix that the search in
  the map gives, and reads outside of the tables of masks exactly when that one does. Destroying the table
  returns, frees each of its elements once and no other memory, and leaves an empty table. None of these
  follows a pointer to memory that is not there.
\<close>

theorem hash_table_refines_map:
  assumes "table_holds ht (sa_prefixes (subnet_metadata ctx))" and "key_valid (addr, n)" "address_valid query"
    and "\<forall>a. new = Some a \<longrightarrow> ut_heap ht a = None \<and> ut_roomy ht"
    and "add_prefix_hh (\<lambda>_. new \<noteq> None) addr n ctx = (code, ctx')"
    and "subnet_activity_destroy (Some (subnet_metadata ctx')) = (SA_OK, Some sb)"
  shows "\<exists>cur ht'. table_add_prefix (\<lambda>_. True) new fresh (addr, n) (current_entity ctx) ht = Some (code, cur, ht') \<and>
    table_holds ht' (sa_prefixes (subnet_metadata ctx')) \<and>
    cur = (if sa_prefixes (subnet_metadata ctx) (addr, n) = None then new else None) \<and>
    (\<forall>a. cur = Some a \<longrightarrow> hash_find (prefix_bytes (addr, n)) ht' = Some (Some a) \<and> ut_val ht' a = Some (current_entity ctx)) \<and>
    table_match_prefix (Some query) (Some (subnet_metadata ctx', ht')) (Some old) =
      map_option (\<lambda>(code, r). (code, if code = SA_OK
          then map_option (\<lambda>q. Option.bind q (\<lambda>p. the (hash_find (prefix_bytes p) ht'))) r else Some old))
        (subnet_activity_match_prefix (Some query) (Some (subnet_metadata ctx')) (Some old')) \<and>
    (\<exists>empty. table_destroy (subnet_metadata ctx') ht' = Some empty \<and> table_holds empty (sa_prefixes sb) \<and>
      (0 < registered_entities (subnet_metadata ctx') \<longrightarrow> dom (ut_heap empty) =
        dom (ut_heap ht') - {a. \<exists>p. key_valid p \<and> hash_find (prefix_bytes p) ht' = Some (Some a)}))"
proof -
  obtain cur ht' where a: "table_add_prefix (\<lambda>_. True) new fresh (addr, n) (current_entity ctx) ht = Some (code, cur, ht')"
    "table_holds ht' (sa_prefixes (subnet_metadata ctx'))"
    "cur = (if sa_prefixes (subnet_metadata ctx) (addr, n) = None then new else None)"
    "\<forall>a. cur = Some a \<longrightarrow> hash_find (prefix_bytes (addr, n)) ht' = Some (Some a) \<and> ut_val ht' a = Some (current_entity ctx)"
    using table_add_ok [OF assms(1,2), of new fresh "current_entity ctx"] assms(4,5)
    by (auto simp: add_prefix_hh_def Let_def split: if_splits)
  note m = table_match_prefix_ok [OF a(2) assms(3)] and d = table_destroy_ok [OF a(2) assms(6)]
  show ?thesis by (rule exI [of _ cur], rule exI [of _ ht'], intro conjI a m d)
qed

text \<open>One entity, one prefix, and an empty table.\<close>

definition ex_context :: subnet_activity_spec_context where
  "ex_context = ctx_zero\<lparr>current_entity := Some 0,
     subnet_metadata := sa_zero\<lparr>registered_entities := 1, shortest_ipv4_prefix := 24, longest_ipv4_prefix := 24\<rparr>\<rparr>"

definition ex_empty :: prefix_table where "ex_empty = \<lparr>ut_heap = Map.empty, ut_head = None, ut_tbl = None\<rparr>"

definition ex_element :: "nat option element" where
  "ex_element = \<lparr>el_key = [], el_val = None, app_prev = None, app_next = None, hh_prev = None, hh_next = None, keylen = 0, hashv = 0\<rparr>"

theorem hash_table_refines_map_witness:
  "\<exists>code cur ht' sa. table_add_prefix (\<lambda>_. True) (Some 7) ex_element (Addr4 [192, 0, 2, 0], 24) (Some 0) ex_empty = Some (code, cur, ht') \<and>
    code = SA_OK \<and> cur = Some 7 \<and>
    table_match_prefix (Some (Addr4 [192, 0, 2, 77])) (Some (sa, ht')) (Some None) = Some (SA_OK, Some (Some 7))"
proof -
  let ?a = "Addr4 [192, 0, 2, 0]" and ?q = "Addr4 [192, 0, 2, 77]" and ?new = "Some 7 :: addr option"
  define sa where "sa = (subnet_metadata ex_context)\<lparr>sa_prefixes := [(?a, 24) \<mapsto> Some 0]\<rparr>"
  define ctx where "ctx = ex_context\<lparr>allocations := 1, subnet_metadata := sa, current_prefix := Some (?a, 24)\<rparr>"
  have e: "ut_head ex_empty = None" "ut_tbl ex_empty = None" "ut_heap ex_empty 7 = None" by (simp_all add: ex_empty_def)
  have h: "table_holds ex_empty (sa_prefixes (subnet_metadata ex_context))"
    using empty_table_holds(1) [OF e(1,2)] by (simp add: ex_context_def sa_zero_def)
  have v: "key_valid (?a, 24)" "address_valid ?q" by (simp_all add: key_valid_def address_valid_def)
  have n: "\<forall>a. ?new = Some a \<longrightarrow> ut_heap ex_empty a = None \<and> ut_roomy ex_empty" using e(3) empty_table_holds(2) [OF e(1,2)] by simp
  have c: "add_prefix_hh (\<lambda>_. ?new \<noteq> None) ?a 24 ex_context = (SA_OK, ctx)"
    by (simp add: add_prefix_hh_def ctx_def sa_def ex_context_def sa_zero_def ctx_zero_def Let_def)
  obtain sb where d: "subnet_activity_destroy (Some (subnet_metadata ctx)) = (SA_OK, Some sb)"
    by (simp add: subnet_activity_destroy_def)
  have b: "bytes32 (all_ipv4_subnet_masks ! 24) = [255, 255, 255, 0]"
    using nth_map [of 24 all_ipv4_subnet_masks bytes32] by (simp add: ipv4_mask_bytes ipv4_masks_def mask_byte_def Let_def)
  have m: "subnet_activity_match_prefix (Some ?q) (Some sa) (Some None) = Some (SA_OK, Some (Some (?a, 24)))"
    by (simp add: subnet_activity_match_prefix_def sa_def ex_context_def match_from.simps [where i = 24] probe_ipv4_def and_bytes_def b)
  have k: "subnet_metadata ctx = sa" "current_entity ex_context = Some 0" "sa_prefixes (subnet_metadata ex_context) = Map.empty"
    by (simp_all add: ctx_def ex_context_def sa_zero_def)
  from hash_table_refines_map [OF h v n c d, of ex_element None None, unfolded k m]
  obtain cur ht' where t: "table_add_prefix (\<lambda>_. True) ?new ex_element (?a, 24) (Some 0) ex_empty = Some (SA_OK, cur, ht')"
    "cur = ?new" "\<forall>a. cur = Some a \<longrightarrow> hash_find (prefix_bytes (?a, 24)) ht' = Some (Some a)"
    "table_match_prefix (Some ?q) (Some (sa, ht')) (Some None) = Some (SA_OK, Some (the (hash_find (prefix_bytes (?a, 24)) ht')))"
    by auto
  then show ?thesis by auto
qed


text \<open>
  C10. Let the collector have come to its loop over the events, and let clients connect and go, each connection
  being closed at most once. \<open>main\<close> ends in
  order, having released the structure of the counters, the timers, the files of its reports, the registers
  of the dry run, the listener and the base of the events, each once and no timer after its base, if and only if the
  log of the counters could be opened, where there was memory for them, and the file of the dry run, if
  there is one. Not released are the descriptor of the initial directory and exactly the connections that
  are open when the loop ends. If the log could not be opened, the counters are freed at the start: each
  message is then counted through a dangling pointer, and the end frees the counters again.
\<close>

theorem handles_released_once:
  assumes "acquire_handles r dry_run = Some s" "loop_handles events s = Some t"
  shows "(release_handles dry_run t \<noteq> None \<longleftrightarrow> (calloc_ok r \<longrightarrow> inst_file_ok r) \<and> (dry_run \<longrightarrow> dry_file_ok r)) \<and>
    (\<forall>t'. release_handles dry_run t = Some t' \<longrightarrow> P_Live \<notin> ended_handles t' \<and>
      init_dirfd t' = P_Live \<and> open_connections t' = open_connections t) \<and>
    (counters_usable t \<longleftrightarrow> (calloc_ok r \<longrightarrow> inst_file_ok r))"
proof -
  have t: "t = s\<lparr>open_connections := open_connections t\<rparr>" by (rule loop_handles_rest [OF assms(2)])
  have r: "release_handles dry_run t =
      map_option (\<lambda>s. s\<lparr>open_connections := open_connections t\<rparr>) (release_handles dry_run s)"
    using release_handles_connections [where s = s and dry_run = dry_run and conns = "open_connections t"] t by metis
  have u: "counters_usable t \<longleftrightarrow> counters_usable s" using t by (metis counters_usable_connections)
  show ?thesis
  proof (cases "calloc_ok r \<longrightarrow> inst_file_ok r")
    case True
    show ?thesis
    proof (cases "dry_run \<longrightarrow> dry_file_ok r")
      case dry: True
      from release_ok [OF assms(1) True this] show ?thesis using True dry u r by (auto simp: ended_handles_def)
    next
      case False
      then have "dry_run" "\<not> dry_file_ok r" by auto
      then show ?thesis using True release_no_file [of r s] assms(1) counters_usable_iff [OF assms(1)] u r by simp
    qed
  next
    case False
    then show ?thesis using release_twice [OF assms(1)] u r by auto
  qed
qed

theorem handles_released_once_witness:
  "\<exists>s t t'. acquire_handles \<lparr>calloc_ok = True, inst_file_ok = True, dry_file_ok = True, event_ok = True\<rparr> True = Some s \<and>
    loop_handles [Accepted, Accepted, Gone 0] s = Some t \<and> release_handles True t = Some t' \<and>
    P_Live \<notin> ended_handles t' \<and> init_dirfd t' = P_Live \<and> open_connections t' = [P_Freed, P_Live]"
proof -
  let ?r = "\<lparr>calloc_ok = True, inst_file_ok = True, dry_file_ok = True, event_ok = True\<rparr>"
  obtain s where s: "acquire_handles ?r True = Some s" "open_connections s = []"
    by (auto simp: acquire_handles_def open_instrumentation_def open_dry_run_def new_timer_def)
  obtain t where t: "loop_handles [Accepted, Accepted, Gone 0] s = Some t" "open_connections t = [P_Freed, P_Live]"
    using s(2) by (simp add: conn_event_handles_def conn_destroy_def release_def)
  from handles_released_once [OF s(1) t(1)] s(1) t show ?thesis by auto
qed

end
