(* ===== verification/Json_Release.thy ===== *)
theory Json_Release
  imports Json_Printer
begin

text \<open>
  The JSON printer as it is built without \<open>JSON_PRINTER_DEBUG\<close> (\<open>src/src/json_printer.c\<close>): no stack of open
  elements and no checks of the calls. Whatever calls the checked printer accepts, this one
  accepts and writes the same, as long as the nesting is within its own bound.
\<close>

section \<open>The macros without checks\<close>

text \<open>The context has no stack; the field \<open>jp_stack\<close> is not used.\<close>

definition release_stack_push :: "nat \<Rightarrow> json_printer \<Rightarrow> json_printer option" where
  "release_stack_push max_depth ctx = do {
     c_assert (jp_depth ctx < max_depth);
     Some (ctx\<lparr>jp_depth := jp_depth ctx + 1, jp_first := True\<rparr>)
   }"

definition release_stack_push_opt :: "json_printer \<Rightarrow> json_printer" where
  "release_stack_push_opt ctx = ctx\<lparr>jp_first := True\<rparr>"

definition release_stack_pop :: "json_printer \<Rightarrow> json_printer option" where
  "release_stack_pop ctx = do {
     c_assert (jp_depth ctx > 0);
     Some (ctx\<lparr>jp_depth := jp_depth ctx - 1, jp_first := (jp_depth ctx - 1 = 1)\<rparr>)
   }"

section \<open>The calls of both printers\<close>

datatype json_call =
    Call_Uint32 u32 | Call_Uint64 u64 | Call_Boolean bool | Call_String bytes
  | Call_Array_Begin | Call_Array_End | Call_Object_Begin | Call_Object_End | Call_Key bytes
  | Call_Pair_Uint32 bytes u32 | Call_Pair_Uint64 bytes u64 | Call_Pair_Boolean bytes bool | Call_Pair_String bytes bytes

fun checked_call :: "json_call \<Rightarrow> json_printer \<Rightarrow> json_printer option" where
  "checked_call (Call_Uint32 w) ctx = json_printer_uint32 w ctx"
| "checked_call (Call_Uint64 w) ctx = json_printer_uint64 w ctx"
| "checked_call (Call_Boolean b) ctx = json_printer_boolean b ctx"
| "checked_call (Call_String s) ctx = json_printer_string s ctx"
| "checked_call Call_Array_Begin ctx = json_printer_array_begin ctx"
| "checked_call Call_Array_End ctx = json_printer_array_end ctx"
| "checked_call Call_Object_Begin ctx = json_printer_object_begin ctx"
| "checked_call Call_Object_End ctx = json_printer_object_end ctx"
| "checked_call (Call_Key k) ctx = json_printer_object_key k ctx"
| "checked_call (Call_Pair_Uint32 k w) ctx = json_printer_object_pair_uint32 k w ctx"
| "checked_call (Call_Pair_Uint64 k w) ctx = json_printer_object_pair_uint64 k w ctx"
| "checked_call (Call_Pair_Boolean k b) ctx = json_printer_object_pair_boolean k b ctx"
| "checked_call (Call_Pair_String k s) ctx = json_printer_object_pair_string k s ctx"

text \<open>The same functions with the macros without checks.\<close>

definition release_pair :: "bytes \<Rightarrow> json_printer \<Rightarrow> json_printer option" where
  "release_pair key ctx = do {
     ctx \<leftarrow> json_printer_write_string key (json_printer_optional_separator ctx);
     Some (put [58] ctx)
   }"

fun release_call :: "nat \<Rightarrow> json_call \<Rightarrow> json_printer \<Rightarrow> json_printer option" where
  "release_call m (Call_Uint32 w) ctx = json_printer_write_uint32 w (json_printer_optional_separator ctx)"
| "release_call m (Call_Uint64 w) ctx = json_printer_write_uint64 w (json_printer_optional_separator ctx)"
| "release_call m (Call_Boolean b) ctx = Some (json_printer_write_boolean b (json_printer_optional_separator ctx))"
| "release_call m (Call_String s) ctx = json_printer_write_string s (json_printer_optional_separator ctx)"
| "release_call m Call_Array_Begin ctx = release_stack_push m (put [91] (json_printer_optional_separator ctx))"
| "release_call m Call_Array_End ctx = release_stack_pop (put [93] ctx)"
| "release_call m Call_Object_Begin ctx = release_stack_push m (put [123] (json_printer_optional_separator ctx))"
| "release_call m Call_Object_End ctx = release_stack_pop (put [125] ctx)"
| "release_call m (Call_Key k) ctx = do {
     ctx \<leftarrow> json_printer_write_string k (release_stack_push_opt (json_printer_optional_separator ctx));
     Some (put [58] ctx)
   }"
| "release_call m (Call_Pair_Uint32 k w) ctx = do { ctx \<leftarrow> release_pair k ctx; json_printer_write_uint32 w ctx }"
| "release_call m (Call_Pair_Uint64 k w) ctx = do { ctx \<leftarrow> release_pair k ctx; json_printer_write_uint64 w ctx }"
| "release_call m (Call_Pair_Boolean k b) ctx = do { ctx \<leftarrow> release_pair k ctx; Some (json_printer_write_boolean b ctx) }"
| "release_call m (Call_Pair_String k s) ctx = do { ctx \<leftarrow> release_pair k ctx; json_printer_write_string s ctx }"

definition release_begin :: "nat \<Rightarrow> bytes \<Rightarrow> json_printer option" where
  "release_begin m out = release_stack_push m \<lparr>jp_out = out, jp_depth = 0, jp_first = True, jp_stack = []\<rparr>"

fun run_calls :: "(json_call \<Rightarrow> json_printer \<Rightarrow> json_printer option) \<Rightarrow> json_call list \<Rightarrow> json_printer \<Rightarrow> json_printer option" where
  "run_calls f [] ctx = Some ctx"
| "run_calls f (c # cs) ctx = do { ctx \<leftarrow> f c ctx; run_calls f cs ctx }"

lemma run_calls_append: "run_calls f (cs @ ds) ctx = do { ctx \<leftarrow> run_calls f cs ctx; run_calls f ds ctx }"
  by (induction cs arbitrary: ctx) (auto split: bind_splits if_splits)

section \<open>The simulation\<close>

fun begins :: "json_call \<Rightarrow> nat" where
  "begins Call_Array_Begin = 1" | "begins Call_Object_Begin = 1" | "begins _ = 0"

fun ends :: "json_call \<Rightarrow> nat" where
  "ends Call_Array_End = 1" | "ends Call_Object_End = 1" | "ends _ = 0"

text \<open>The checked printer counts a pending key as a level; at most the innermost one is a key.\<close>

definition same_state :: "json_printer \<Rightarrow> json_printer \<Rightarrow> bytes \<Rightarrow> bool" where
  "same_state ctx rel opens \<longleftrightarrow> jp ctx (jp_out rel) (jp_first rel) opens \<and>
     jp_depth rel = length (filter (\<lambda>v. v \<noteq> 58) opens) \<and> 58 \<notin> set (tl opens) \<and> last opens = 0"

lemma same_state_depth:
  assumes "same_state ctx rel (v # opens)" "v \<noteq> 58"
  shows "jp_depth rel = Suc (length opens)"
proof -
  have "filter (\<lambda>v. v \<noteq> 58) opens = opens" using assms(1) by (auto simp: same_state_def filter_id_conv)
  then show ?thesis using assms by (simp add: same_state_def)
qed


lemma same_put: "same_state ctx rel opens \<Longrightarrow> same_state (put s ctx) (put s rel) opens"
  by (auto simp: same_state_def jp_def put_def)

lemma same_sep: "same_state ctx rel opens \<Longrightarrow> same_state (json_printer_optional_separator ctx) (json_printer_optional_separator rel) opens"
  by (auto simp: same_state_def jp_def put_def json_printer_optional_separator_def)

lemma sep_simps [simp]: "jp_depth (json_printer_optional_separator rel) = jp_depth rel" "jp_depth (put s rel) = jp_depth rel"
  by (simp_all add: json_printer_optional_separator_def put_def)

lemma same_opens:
  assumes "same_state ctx rel opens"
  obtains v os where "opens = v # os" "jp_stack ctx ! jp_depth ctx = v" "v = 58 \<longrightarrow> os \<noteq> []" "v \<noteq> 0 \<longrightarrow> os \<noteq> []"
proof -
  obtain v os where o: "opens = v # os" using assms by (cases opens) (auto simp: same_state_def jp_def)
  then have "jp_stack ctx ! jp_depth ctx = v" using assms jp_top by (auto simp: same_state_def)
  moreover have "v \<noteq> 0 \<longrightarrow> os \<noteq> []" using assms o by (auto simp: same_state_def)
  moreover from this have "v = 58 \<longrightarrow> os \<noteq> []" by auto
  ultimately show thesis using that o by blast
qed

lemma value_sim:
  assumes "same_state ctx rel opens" "value_prefix ctx = Some c"
  shows "\<exists>opens'. same_state c (json_printer_optional_separator rel) opens' \<and> opens' \<noteq> [] \<and> hd opens' \<noteq> 58"
proof -
  obtain v os where o: "opens = v # os" "jp_stack ctx ! jp_depth ctx = v" "v = 58 \<longrightarrow> os \<noteq> []"
    using same_opens [OF assms(1)] by metis
  have "v = 93 \<or> v = 58 \<or> v = 0"
    using assms(2) o(2) by (auto simp: value_prefix_def json_printer_stack_assert_expect_value_def Let_def split: bind_splits if_splits)
  then have e: "expects_value opens" using o by (auto simp: expects_value_def)
  have j: "jp ctx (jp_out rel) (jp_first rel) opens" using assms(1) by (simp add: same_state_def)
  from jp_value_prefix [OF j e] assms(2) have p: "jp c (jp_out rel @ sep (jp_first rel)) False (after_value opens)" by auto
  have r: "jp_out (json_printer_optional_separator rel) = jp_out rel @ sep (jp_first rel)"
    "jp_first (json_printer_optional_separator rel) = False"
    by (simp_all add: json_printer_optional_separator_def sep_def put_def)
  have a: "after_value opens \<noteq> []" "hd (after_value opens) \<noteq> 58" "58 \<notin> set (tl (after_value opens))"
    "last (after_value opens) = 0" "filter (\<lambda>v. v \<noteq> 58) (after_value opens) = filter (\<lambda>v. v \<noteq> 58) opens"
    using assms(1) o(1,3) by (cases os; auto simp: same_state_def after_value_def)+
  then have "same_state c (json_printer_optional_separator rel) (after_value opens)"
    using p r assms(1) by (simp add: same_state_def)
  then show ?thesis using a(1,2) by blast
qed

lemma push_sim:
  assumes "same_state ctx rel opens" "opens \<noteq> []" "hd opens \<noteq> 58" "v \<noteq> 58" "json_printer_stack_push v ctx = Some c" "jp_depth rel < m"
  shows "\<exists>rel'. release_stack_push m rel = Some rel' \<and> same_state c rel' (v # opens) \<and> jp_depth rel' = Suc (jp_depth rel)"
proof -
  have j: "jp ctx (jp_out rel) (jp_first rel) opens" using assms(1) by (simp add: same_state_def)
  then have "length opens < 31" using assms(5) by (auto simp: json_printer_stack_push_def jp_def split: bind_splits if_splits)
  from jp_push [OF j this, of v] assms(5) have "jp c (jp_out rel) True (v # opens)" by simp
  moreover have "58 \<notin> set opens" using assms(1-3) by (cases opens) (auto simp: same_state_def)
  ultimately show ?thesis using assms by (auto simp: release_stack_push_def same_state_def)
qed

lemma pop_sim:
  assumes "same_state ctx rel opens" "v \<noteq> 58" "v \<noteq> 0" "json_printer_stack_pop v ctx = Some c"
  shows "\<exists>rel' opens'. release_stack_pop rel = Some rel' \<and> same_state c rel' opens' \<and> Suc (jp_depth rel') = jp_depth rel"
proof -
  obtain w os where o: "opens = w # os" "jp_stack ctx ! jp_depth ctx = w" "w \<noteq> 0 \<longrightarrow> os \<noteq> []"
    using same_opens [OF assms(1)] by metis
  have "w = v" using assms(4) o(2) by (auto simp: json_printer_stack_pop_def split: bind_splits if_splits)
  then have os: "opens = v # os" "os \<noteq> []" using o assms(3) by auto
  have j: "jp ctx (jp_out rel) (jp_first rel) (v # os)" using assms(1) os(1) by (simp add: same_state_def)
  from jp_pop [OF j os(2)] assms(4) have p: "jp c (jp_out rel) (length os = 1) os" by simp
  have d: "jp_depth rel = Suc (length os)" using same_state_depth [of ctx rel v os] assms(1,2) os(1) by simp
  have n: "58 \<notin> set os" "last os = 0" using assms(1) os by (auto simp: same_state_def)
  then have "58 \<notin> set (tl os)" by (cases os) auto
  moreover have "filter (\<lambda>v. v \<noteq> 58) os = os" using n(1) by (auto simp: filter_id_conv)
  ultimately show ?thesis using p d n by (auto simp: release_stack_pop_def same_state_def)
qed

lemma write_string_sim:
  assumes "json_printer_write_string s ctx = Some c"
  shows "c = put (quoted s) ctx" "json_printer_write_string s rel = Some (put (quoted s) rel)"
  using assms by (auto simp: json_printer_write_string_def quoted_def split: bind_splits if_splits)

lemma pair_sim:
  assumes "same_state ctx rel opens" "pair_prefix key ctx = Some c"
  shows "\<exists>rel'. release_pair key rel = Some rel' \<and> same_state c rel' opens \<and> jp_depth rel' = jp_depth rel"
proof -
  obtain c1 where c: "json_printer_write_string key (json_printer_optional_separator ctx) = Some c1" "c = put [58] c1"
    using assms(2) by (auto simp: pair_prefix_def split: bind_splits if_splits)
  show ?thesis
    using write_string_sim [OF c(1)] c(2) same_put [OF same_put [OF same_sep [OF assms(1)]]] by (auto simp: release_pair_def)
qed

lemma key_sim:
  assumes "same_state ctx rel opens" "json_printer_object_key key ctx = Some c"
  shows "\<exists>rel' opens'. release_call m (Call_Key key) rel = Some rel' \<and> same_state c rel' opens' \<and> jp_depth rel' = jp_depth rel"
proof -
  let ?sep = "json_printer_optional_separator"
  obtain w os where o: "opens = w # os" "jp_stack ctx ! jp_depth ctx = w" using same_opens [OF assms(1)] by metis
  obtain c1 c2 where c: "json_printer_stack_push 58 (?sep ctx) = Some c1"
    "json_printer_write_string key c1 = Some c2" "c = put [58] c2" "w = 125"
    using assms(2) o(2) by (auto simp: json_printer_object_key_def json_printer_stack_assert_def split: bind_splits if_splits)
  have s: "same_state (?sep ctx) (?sep rel) opens" by (rule same_sep [OF assms(1)])
  then have j: "jp (?sep ctx) (jp_out (?sep rel)) (jp_first (?sep rel)) opens" by (simp add: same_state_def)
  then have "length opens < 31" using c(1) by (auto simp: json_printer_stack_push_def jp_def split: bind_splits if_splits)
  from jp_push [OF j this, of 58] c(1) have "jp c1 (jp_out (?sep rel)) True (58 # opens)" by simp
  then have "same_state c1 (release_stack_push_opt (?sep rel)) (58 # opens)"
    using s o(1) c(4) by (auto simp: same_state_def release_stack_push_opt_def)
  from same_put [OF same_put [OF this]] show ?thesis
    using write_string_sim [OF c(2)] c(3) by (auto simp: release_stack_push_opt_def)
qed

text \<open>Every call.\<close>

lemma call_sim:
  assumes s: "same_state ctx rel opens" and c: "checked_call c ctx = Some ctx'" and m: "jp_depth rel + begins c \<le> m"
  shows "\<exists>rel' opens'. release_call m c rel = Some rel' \<and> same_state ctx' rel' opens' \<and>
    jp_depth rel' + ends c = jp_depth rel + begins c"
proof -
  note ops = json_printer_uint32_def json_printer_uint64_def json_printer_boolean_def json_printer_string_def
    json_printer_write_boolean_def
  have val: "\<exists>opens'. same_state (put t c1) (put t (json_printer_optional_separator rel)) opens'"
    if "value_prefix ctx = Some c1" for t c1
    using value_sim [OF s that] same_put by blast
  have opn: "\<exists>rel' opens'. release_stack_push m (put t (json_printer_optional_separator rel)) = Some rel' \<and>
      same_state ctx' rel' opens' \<and> jp_depth rel' = Suc (jp_depth rel)"
    if "value_prefix ctx = Some c1" "json_printer_stack_push v (put t c1) = Some ctx'" "v \<noteq> 58" "jp_depth rel < m" for t v c1
  proof -
    note given = that
    obtain opens' where o: "same_state c1 (json_printer_optional_separator rel) opens'" "opens' \<noteq> []" "hd opens' \<noteq> 58"
      using value_sim [OF s given(1)] by blast
    have "jp_depth (put t (json_printer_optional_separator rel)) < m" using given(4) by simp
    from push_sim [OF same_put [OF o(1)] o(2,3) given(3,2) this] show ?thesis by auto
  qed
  have pr: "\<exists>rel'. release_pair k rel = Some rel' \<and> (\<forall>t. same_state (put t c1) (put t rel') opens) \<and> jp_depth rel' = jp_depth rel"
    if "pair_prefix k ctx = Some c1" for k c1
    using pair_sim [OF s that] same_put by blast
  show ?thesis
  proof (cases c)
    case (Call_Array_End)
    then show ?thesis using c pop_sim [OF same_put [OF s], of 93 "[93]"] by (auto simp: json_printer_array_end_def)
  next
    case (Call_Object_End)
    then show ?thesis using c pop_sim [OF same_put [OF s], of 125 "[125]"] by (auto simp: json_printer_object_end_def)
  next
    case (Call_Key k)
    then show ?thesis using c key_sim [OF s, of k] by fastforce
  next
    case (Call_String x)
    then obtain c1 where p: "value_prefix ctx = Some c1" "json_printer_write_string x c1 = Some ctx'"
      using c by (auto simp: ops split: bind_splits)
    then show ?thesis using Call_String val [OF p(1), of "quoted x"] write_string_sim [OF p(2)] by auto
  next
    case (Call_Pair_String k x)
    then obtain c1 where p: "pair_prefix k ctx = Some c1" "json_printer_write_string x c1 = Some ctx'"
      using c by (auto simp: json_printer_object_pair_string_def split: bind_splits if_splits)
    then show ?thesis using Call_Pair_String pr [OF p(1)] write_string_sim [OF p(2)] by fastforce
  next
    case (Call_Array_Begin)
    then obtain c1 where p: "value_prefix ctx = Some c1" "json_printer_stack_push 93 (put [91] c1) = Some ctx'"
      using c by (auto simp: json_printer_array_begin_def split: bind_splits)
    have "jp_depth rel < m" using m Call_Array_Begin by simp
    from opn [OF p _ this] show ?thesis using Call_Array_Begin by auto
  next
    case (Call_Object_Begin)
    then obtain c1 where p: "value_prefix ctx = Some c1" "json_printer_stack_push 125 (put [123] c1) = Some ctx'"
      using c by (auto simp: json_printer_object_begin_def split: bind_splits)
    have "jp_depth rel < m" using m Call_Object_Begin by simp
    from opn [OF p _ this] show ?thesis using Call_Object_Begin by auto
  next
    case (Call_Pair_Uint32 k w)
    then obtain c1 where p: "pair_prefix k ctx = Some c1" "ctx' = put (dec_digits (unat w)) c1"
      using c by (auto simp: json_printer_object_pair_uint32_def split: bind_splits if_splits)
    then show ?thesis using Call_Pair_Uint32 pr [OF p(1)] by fastforce
  next
    case (Call_Pair_Uint64 k w)
    then obtain c1 where p: "pair_prefix k ctx = Some c1" "ctx' = put (dec_digits (unat w)) c1"
      using c by (auto simp: json_printer_object_pair_uint64_def split: bind_splits if_splits)
    then show ?thesis using Call_Pair_Uint64 pr [OF p(1)] by fastforce
  next
    case (Call_Pair_Boolean k b)
    then obtain c1 where p: "pair_prefix k ctx = Some c1" "ctx' = json_printer_write_boolean b c1"
      using c by (auto simp: json_printer_object_pair_boolean_def split: bind_splits if_splits)
    then show ?thesis using Call_Pair_Boolean pr [OF p(1)] by (fastforce simp: json_printer_write_boolean_def)
  qed (use c val in \<open>auto simp: ops split: bind_splits\<close>)
qed

definition nesting_ok :: "nat \<Rightarrow> json_call list \<Rightarrow> bool" where
  "nesting_ok m cs \<longleftrightarrow> (\<forall>k \<le> length cs. sum_list (map begins (take k cs)) < m + sum_list (map ends (take k cs)))"

lemma nesting_snoc: "nesting_ok m (cs @ [c]) \<Longrightarrow> nesting_ok m cs"
  unfolding nesting_ok_def by (metis (no_types, lifting) le_SucI length_append_singleton take_append diff_is_0_eq take0 append_Nil2)

theorem release_prints_the_same:
  assumes "json_printer_begin stack out = Some start" "run_calls checked_call cs start = Some ctx" "nesting_ok m cs"
  shows "\<exists>rel. (do { rel \<leftarrow> release_begin m out; run_calls (release_call m) cs rel }) = Some rel \<and> jp_out rel = jp_out ctx"
proof -
  have "0 < m" using assms(3) by (auto simp: nesting_ok_def dest!: spec [of _ 0])
  then obtain rel0 where r: "release_begin m out = Some rel0" "jp_out rel0 = out" "jp_first rel0" "jp_depth rel0 = 1"
    by (simp add: release_begin_def release_stack_push_def)
  have "length stack = 32" using assms(1) by (auto simp: json_printer_begin_def split: bind_splits if_splits)
  with jp_begin [of stack out] assms(1) have "jp start out True [0]" by auto
  then have s0: "same_state start rel0 [0]" using r by (simp add: same_state_def)
  have "\<exists>rel opens. run_calls (release_call m) cs rel0 = Some rel \<and> same_state ctx rel opens \<and>
      jp_depth rel + sum_list (map ends cs) = 1 + sum_list (map begins cs)"
    using assms(2,3)
  proof (induction cs arbitrary: ctx rule: rev_induct)
    case Nil
    then show ?case using s0 r by auto
  next
    case (snoc c cs)
    obtain c1 where c1: "run_calls checked_call cs start = Some c1" "checked_call c c1 = Some ctx"
      using snoc.prems(1) by (auto simp: run_calls_append split: bind_splits if_splits)
    obtain rel opens where i: "run_calls (release_call m) cs rel0 = Some rel" "same_state c1 rel opens"
      "jp_depth rel + sum_list (map ends cs) = 1 + sum_list (map begins cs)"
      using snoc.IH [OF c1(1) nesting_snoc [OF snoc.prems(2)]] by blast
    have "sum_list (map begins (cs @ [c])) < m + sum_list (map ends (cs @ [c]))"
      using snoc.prems(2) unfolding nesting_ok_def by (metis le_refl take_all)
    moreover have "begins c = 0 \<or> ends c = 0" by (cases c) auto
    moreover have "1 \<le> m" using \<open>0 < m\<close> by simp
    moreover have "sum_list (map begins cs) < m + sum_list (map ends cs)"
      using nesting_snoc [OF snoc.prems(2)] unfolding nesting_ok_def by (metis le_refl take_all)
    ultimately have "jp_depth rel + begins c \<le> m" using i(3) by auto
    from call_sim [OF i(2) c1(2) this] obtain rel' opens' where "release_call m c rel = Some rel'"
      "same_state ctx rel' opens'" "jp_depth rel' + ends c = jp_depth rel + begins c" by blast
    then show ?case using i(1,3) by (auto simp: run_calls_append)
  qed
  then show ?thesis using r(1) by (auto simp: same_state_def jp_def)
qed

end
