(* ===== verification/Decompressor.thy ===== *)
theory Decompressor
  imports Read_File
begin

text \<open>
  The child process that decompresses a file (\<open>src/src/read_file.c\<close>, \<open>read_file\<close>): its descriptors are a map
  from numbers to what is open, and the results of the system calls are parameters. The lemmas say what
  the program that it runs finds open.
\<close>

section \<open>The child\<close>

text \<open>\<open>fails\<close> are the numbers on which \<open>dup2\<close> fails for another reason than a descriptor that is not open.\<close>

record child_calls =
  dup2_fails :: "nat set"
  nofile_limit :: "nat option"
  setrlimit_ok :: bool
  execve_ok :: "bytes \<Rightarrow> bool"

text \<open>The child ends with a message, or another program runs with these descriptors and this limit.\<close>

datatype 'f child_end = Child_Exit int string | Child_Runs bytes "nat \<rightharpoonup> 'f" nat

definition dup2 :: "child_calls \<Rightarrow> nat \<Rightarrow> nat \<Rightarrow> (nat \<rightharpoonup> 'f) \<Rightarrow> (nat \<rightharpoonup> 'f) option" where
  "dup2 calls old new fds =
     (if new \<in> dup2_fails calls then None else case fds old of None \<Rightarrow> None | Some f \<Rightarrow> Some (fds(new \<mapsto> f)))"

definition close_from :: "nat \<Rightarrow> nat \<Rightarrow> (nat \<rightharpoonup> 'f) \<Rightarrow> (nat \<rightharpoonup> 'f)" where
  "close_from i limit fds = fold (\<lambda>i fds. fds(i := None)) [i..<limit] fds"

text \<open>\<open>sizeof(fd_set) * 8\<close>\<close>

abbreviation (input) FD_SET_BITS :: nat where "FD_SET_BITS \<equiv> 1024"

definition read_file_child :: "child_calls \<Rightarrow> bytes \<Rightarrow> nat \<Rightarrow> nat \<Rightarrow> (nat \<rightharpoonup> 'f) \<Rightarrow> 'f child_end" where
  "read_file_child calls cmd fd pipe_out fds =
     (case dup2 calls fd 0 fds of
        None \<Rightarrow> Child_Exit 1 ''dup2()''
      | Some fds \<Rightarrow>
        (case dup2 calls pipe_out 1 fds of
           None \<Rightarrow> Child_Exit 1 ''dup2()''
         | Some fds \<Rightarrow>
           (case nofile_limit calls of
              None \<Rightarrow> Child_Exit 1 ''getrlimit(RLIMIT_NOFILE)''
            | Some limit \<Rightarrow>
              (let fds = close_from 3 limit fds
               in if \<not> setrlimit_ok calls then Child_Exit 1 ''setrlimit(RLIMIT_NOFILE)''
                  else if execve_ok calls cmd then Child_Runs cmd fds FD_SET_BITS
                  else Child_Exit 1 ''execve()''))))"

section \<open>What is open in the decompressor\<close>

lemma close_from_eq: "close_from i limit fds n = (if i \<le> n \<and> n < limit then None else fds n)"
proof -
  have "fold (\<lambda>i fds. fds(i := None)) is fds n = (if n \<in> set is then None else fds n)" for "is" :: "nat list"
    by (induction "is" arbitrary: fds) auto
  then show ?thesis by (auto simp: close_from_def)
qed

text \<open>
  The decompressor reads the file, writes to the pipe, and has nothing else open but the errors, provided
  that the limit was not lowered below an open descriptor and the pipe is not on the standard input.
\<close>

lemma child_descriptors:
  assumes "read_file_child calls cmd fd pipe_out fds = Child_Runs prog open_fds limit"
    and "pipe_out \<noteq> 0" "\<forall>n lim. nofile_limit calls = Some lim \<longrightarrow> lim \<le> n \<longrightarrow> fds n = None"
  shows "prog = cmd \<and> open_fds 0 = fds fd \<and> fds fd \<noteq> None \<and> open_fds 1 = fds pipe_out \<and> fds pipe_out \<noteq> None \<and>
    (\<forall>n > 2. open_fds n = None)"
  using assms
  by (auto simp: read_file_child_def dup2_def close_from_eq Let_def split: option.splits if_splits)

text \<open>The child never goes on as a second copy of the program: it runs the command or ends with 1.\<close>

lemma child_ends:
  "(\<exists>msg. read_file_child calls cmd fd pipe_out fds = Child_Exit 1 msg) \<or>
   (\<exists>open_fds. read_file_child calls cmd fd pipe_out fds = Child_Runs cmd open_fds FD_SET_BITS)"
  by (auto simp: read_file_child_def Let_def split: option.splits)

end
