(* ===== verification/Dnstap.thy ===== *)
theory Dnstap
  imports Honas_Base
begin

text \<open>
  The structures and tables that the protocol buffer compiler made from the schema of dnstap
  (\<open>src/src/dnstap.pb/dnstap.pb-c.h\<close>, \<open>dnstap.pb-c.c\<close>), and its functions, which check the type of a
  message and call the library protobuf-c; the library is a parameter. The lemmas say that the tables
  which the library searches, by the number and by the name of a field or a value, agree with the
  lists of fields and values, and those with the enumerations.
\<close>

section \<open>The structures\<close>

text \<open>
  A message refers to its descriptor, here by its name. An optional field has a flag; a pointer to bytes
  with their length is the bytes. Values of enumerations are their numbers.
\<close>

record pb_message =
  msg_descriptor :: string
  msg_type :: int
  has_socket_family :: bool
  socket_family :: int
  has_socket_protocol :: bool
  socket_protocol :: int
  has_query_address :: bool
  query_address :: bytes
  has_response_address :: bool
  response_address :: bytes
  has_query_port :: bool
  query_port :: u32
  has_response_port :: bool
  response_port :: u32
  has_query_time_sec :: bool
  query_time_sec :: u64
  has_query_time_nsec :: bool
  query_time_nsec :: u32
  has_query_message :: bool
  query_message :: bytes
  has_query_zone :: bool
  query_zone :: bytes
  has_response_time_sec :: bool
  response_time_sec :: u64
  has_response_time_nsec :: bool
  response_time_nsec :: u32
  has_response_message :: bool
  response_message :: bytes

record pb_dnstap =
  dnstap_descriptor :: string
  has_identity :: bool
  identity :: bytes
  has_version :: bool
  version :: bytes
  has_extra :: bool
  extra :: bytes
  dnstap_type :: int
  dnstap_message_ptr :: "pb_message option"

text \<open>The enumerations: their constants and numbers.\<close>

definition Dnstap__Dnstap__Type :: "(string \<times> int) list" where
  "Dnstap__Dnstap__Type = [
     (''DNSTAP__DNSTAP__TYPE__MESSAGE'', 1)]"

definition Dnstap__Message__Type :: "(string \<times> int) list" where
  "Dnstap__Message__Type = [
     (''DNSTAP__MESSAGE__TYPE__AUTH_QUERY'', 1),
     (''DNSTAP__MESSAGE__TYPE__AUTH_RESPONSE'', 2),
     (''DNSTAP__MESSAGE__TYPE__RESOLVER_QUERY'', 3),
     (''DNSTAP__MESSAGE__TYPE__RESOLVER_RESPONSE'', 4),
     (''DNSTAP__MESSAGE__TYPE__CLIENT_QUERY'', 5),
     (''DNSTAP__MESSAGE__TYPE__CLIENT_RESPONSE'', 6),
     (''DNSTAP__MESSAGE__TYPE__FORWARDER_QUERY'', 7),
     (''DNSTAP__MESSAGE__TYPE__FORWARDER_RESPONSE'', 8),
     (''DNSTAP__MESSAGE__TYPE__STUB_QUERY'', 9),
     (''DNSTAP__MESSAGE__TYPE__STUB_RESPONSE'', 10),
     (''DNSTAP__MESSAGE__TYPE__TOOL_QUERY'', 11),
     (''DNSTAP__MESSAGE__TYPE__TOOL_RESPONSE'', 12)]"

definition Dnstap__SocketFamily :: "(string \<times> int) list" where
  "Dnstap__SocketFamily = [
     (''DNSTAP__SOCKET_FAMILY__INET'', 1),
     (''DNSTAP__SOCKET_FAMILY__INET6'', 2)]"

definition Dnstap__SocketProtocol :: "(string \<times> int) list" where
  "Dnstap__SocketProtocol = [
     (''DNSTAP__SOCKET_PROTOCOL__UDP'', 1),
     (''DNSTAP__SOCKET_PROTOCOL__TCP'', 2)]"

section \<open>Descriptors\<close>

text \<open>The labels and types of the library that occur.\<close>

datatype pb_label = PROTOBUF_C_LABEL_REQUIRED | PROTOBUF_C_LABEL_OPTIONAL

datatype pb_type =
    PROTOBUF_C_TYPE_ENUM | PROTOBUF_C_TYPE_UINT32 | PROTOBUF_C_TYPE_FIXED32 | PROTOBUF_C_TYPE_UINT64
  | PROTOBUF_C_TYPE_BYTES | PROTOBUF_C_TYPE_MESSAGE

record enum_value =
  enum_name :: string
  enum_c_name :: string
  enum_number :: int

record int_range =
  start_value :: int
  orig_index :: nat

record enum_descriptor =
  ed_name :: string
  ed_short_name :: string
  ed_c_name :: string
  ed_package_name :: string
  ed_n_values :: nat
  ed_values :: "enum_value list"
  ed_n_value_names :: nat
  ed_values_by_name :: "(string \<times> nat) list"
  ed_n_value_ranges :: nat
  ed_value_ranges :: "int_range list"

text \<open>
  The offsets are the names of the members; a field without flag has none for it. A field refers to a
  descriptor by its name.
\<close>

record field_descriptor =
  fd_name :: string
  fd_id :: nat
  fd_label :: pb_label
  fd_type :: pb_type
  fd_quantifier :: "string option"
  fd_offset :: string
  fd_descriptor :: "string option"
  fd_flags :: nat

record message_descriptor =
  md_name :: string
  md_short_name :: string
  md_c_name :: string
  md_package_name :: string
  md_n_fields :: nat
  md_fields :: "field_descriptor list"
  md_fields_by_name :: "nat list"
  md_n_field_ranges :: nat
  md_field_ranges :: "int_range list"

section \<open>The tables\<close>

definition dnstap__dnstap__type__enum_values_by_number :: "enum_value list" where
  "dnstap__dnstap__type__enum_values_by_number = [
     \<lparr>enum_name = ''MESSAGE'', enum_c_name = ''DNSTAP__DNSTAP__TYPE__MESSAGE'', enum_number = 1\<rparr>]"

definition dnstap__dnstap__type__value_ranges :: "int_range list" where
  "dnstap__dnstap__type__value_ranges = [\<lparr>start_value = 1, orig_index = 0\<rparr>, \<lparr>start_value = 0, orig_index = 1\<rparr>]"

definition dnstap__dnstap__type__enum_values_by_name :: "(string \<times> nat) list" where
  "dnstap__dnstap__type__enum_values_by_name = [(''MESSAGE'', 0)]"

definition dnstap__dnstap__type__descriptor :: enum_descriptor where
  "dnstap__dnstap__type__descriptor = \<lparr>
     ed_name = ''dnstap.Dnstap.Type'', ed_short_name = ''Type'', ed_c_name = ''Dnstap__Dnstap__Type'', ed_package_name = ''dnstap'',
     ed_n_values = 1, ed_values = dnstap__dnstap__type__enum_values_by_number,
     ed_n_value_names = 1, ed_values_by_name = dnstap__dnstap__type__enum_values_by_name,
     ed_n_value_ranges = 1, ed_value_ranges = dnstap__dnstap__type__value_ranges\<rparr>"

definition dnstap__dnstap__field_descriptors :: "field_descriptor list" where
  "dnstap__dnstap__field_descriptors = [
     \<lparr>fd_name = ''identity'', fd_id = 1, fd_label = PROTOBUF_C_LABEL_OPTIONAL, fd_type = PROTOBUF_C_TYPE_BYTES,
      fd_quantifier = Some ''has_identity'', fd_offset = ''identity'', fd_descriptor = None, fd_flags = 0\<rparr>,
     \<lparr>fd_name = ''version'', fd_id = 2, fd_label = PROTOBUF_C_LABEL_OPTIONAL, fd_type = PROTOBUF_C_TYPE_BYTES,
      fd_quantifier = Some ''has_version'', fd_offset = ''version'', fd_descriptor = None, fd_flags = 0\<rparr>,
     \<lparr>fd_name = ''extra'', fd_id = 3, fd_label = PROTOBUF_C_LABEL_OPTIONAL, fd_type = PROTOBUF_C_TYPE_BYTES,
      fd_quantifier = Some ''has_extra'', fd_offset = ''extra'', fd_descriptor = None, fd_flags = 0\<rparr>,
     \<lparr>fd_name = ''message'', fd_id = 14, fd_label = PROTOBUF_C_LABEL_OPTIONAL, fd_type = PROTOBUF_C_TYPE_MESSAGE,
      fd_quantifier = None, fd_offset = ''message'', fd_descriptor = Some ''dnstap__message__descriptor'', fd_flags = 0\<rparr>,
     \<lparr>fd_name = ''type'', fd_id = 15, fd_label = PROTOBUF_C_LABEL_REQUIRED, fd_type = PROTOBUF_C_TYPE_ENUM,
      fd_quantifier = None, fd_offset = ''type'', fd_descriptor = Some ''dnstap__dnstap__type__descriptor'', fd_flags = 0\<rparr>]"

definition dnstap__dnstap__field_indices_by_name :: "nat list" where
  "dnstap__dnstap__field_indices_by_name = [2, 0, 3, 4, 1]"

definition dnstap__dnstap__number_ranges :: "int_range list" where
  "dnstap__dnstap__number_ranges = [\<lparr>start_value = 1, orig_index = 0\<rparr>, \<lparr>start_value = 14, orig_index = 3\<rparr>, \<lparr>start_value = 0, orig_index = 5\<rparr>]"

definition dnstap__dnstap__descriptor :: message_descriptor where
  "dnstap__dnstap__descriptor = \<lparr>
     md_name = ''dnstap.Dnstap'', md_short_name = ''Dnstap'', md_c_name = ''Dnstap__Dnstap'', md_package_name = ''dnstap'',
     md_n_fields = 5, md_fields = dnstap__dnstap__field_descriptors, md_fields_by_name = dnstap__dnstap__field_indices_by_name,
     md_n_field_ranges = 2, md_field_ranges = dnstap__dnstap__number_ranges\<rparr>"

definition dnstap__message__type__enum_values_by_number :: "enum_value list" where
  "dnstap__message__type__enum_values_by_number = [
     \<lparr>enum_name = ''AUTH_QUERY'', enum_c_name = ''DNSTAP__MESSAGE__TYPE__AUTH_QUERY'', enum_number = 1\<rparr>,
     \<lparr>enum_name = ''AUTH_RESPONSE'', enum_c_name = ''DNSTAP__MESSAGE__TYPE__AUTH_RESPONSE'', enum_number = 2\<rparr>,
     \<lparr>enum_name = ''RESOLVER_QUERY'', enum_c_name = ''DNSTAP__MESSAGE__TYPE__RESOLVER_QUERY'', enum_number = 3\<rparr>,
     \<lparr>enum_name = ''RESOLVER_RESPONSE'', enum_c_name = ''DNSTAP__MESSAGE__TYPE__RESOLVER_RESPONSE'', enum_number = 4\<rparr>,
     \<lparr>enum_name = ''CLIENT_QUERY'', enum_c_name = ''DNSTAP__MESSAGE__TYPE__CLIENT_QUERY'', enum_number = 5\<rparr>,
     \<lparr>enum_name = ''CLIENT_RESPONSE'', enum_c_name = ''DNSTAP__MESSAGE__TYPE__CLIENT_RESPONSE'', enum_number = 6\<rparr>,
     \<lparr>enum_name = ''FORWARDER_QUERY'', enum_c_name = ''DNSTAP__MESSAGE__TYPE__FORWARDER_QUERY'', enum_number = 7\<rparr>,
     \<lparr>enum_name = ''FORWARDER_RESPONSE'', enum_c_name = ''DNSTAP__MESSAGE__TYPE__FORWARDER_RESPONSE'', enum_number = 8\<rparr>,
     \<lparr>enum_name = ''STUB_QUERY'', enum_c_name = ''DNSTAP__MESSAGE__TYPE__STUB_QUERY'', enum_number = 9\<rparr>,
     \<lparr>enum_name = ''STUB_RESPONSE'', enum_c_name = ''DNSTAP__MESSAGE__TYPE__STUB_RESPONSE'', enum_number = 10\<rparr>,
     \<lparr>enum_name = ''TOOL_QUERY'', enum_c_name = ''DNSTAP__MESSAGE__TYPE__TOOL_QUERY'', enum_number = 11\<rparr>,
     \<lparr>enum_name = ''TOOL_RESPONSE'', enum_c_name = ''DNSTAP__MESSAGE__TYPE__TOOL_RESPONSE'', enum_number = 12\<rparr>]"

definition dnstap__message__type__value_ranges :: "int_range list" where
  "dnstap__message__type__value_ranges = [\<lparr>start_value = 1, orig_index = 0\<rparr>, \<lparr>start_value = 0, orig_index = 12\<rparr>]"

definition dnstap__message__type__enum_values_by_name :: "(string \<times> nat) list" where
  "dnstap__message__type__enum_values_by_name = [(''AUTH_QUERY'', 0), (''AUTH_RESPONSE'', 1), (''CLIENT_QUERY'', 4), (''CLIENT_RESPONSE'', 5), (''FORWARDER_QUERY'', 6), (''FORWARDER_RESPONSE'', 7), (''RESOLVER_QUERY'', 2), (''RESOLVER_RESPONSE'', 3), (''STUB_QUERY'', 8), (''STUB_RESPONSE'', 9), (''TOOL_QUERY'', 10), (''TOOL_RESPONSE'', 11)]"

definition dnstap__message__type__descriptor :: enum_descriptor where
  "dnstap__message__type__descriptor = \<lparr>
     ed_name = ''dnstap.Message.Type'', ed_short_name = ''Type'', ed_c_name = ''Dnstap__Message__Type'', ed_package_name = ''dnstap'',
     ed_n_values = 12, ed_values = dnstap__message__type__enum_values_by_number,
     ed_n_value_names = 12, ed_values_by_name = dnstap__message__type__enum_values_by_name,
     ed_n_value_ranges = 1, ed_value_ranges = dnstap__message__type__value_ranges\<rparr>"

definition dnstap__message__field_descriptors :: "field_descriptor list" where
  "dnstap__message__field_descriptors = [
     \<lparr>fd_name = ''type'', fd_id = 1, fd_label = PROTOBUF_C_LABEL_REQUIRED, fd_type = PROTOBUF_C_TYPE_ENUM,
      fd_quantifier = None, fd_offset = ''type'', fd_descriptor = Some ''dnstap__message__type__descriptor'', fd_flags = 0\<rparr>,
     \<lparr>fd_name = ''socket_family'', fd_id = 2, fd_label = PROTOBUF_C_LABEL_OPTIONAL, fd_type = PROTOBUF_C_TYPE_ENUM,
      fd_quantifier = Some ''has_socket_family'', fd_offset = ''socket_family'', fd_descriptor = Some ''dnstap__socket_family__descriptor'', fd_flags = 0\<rparr>,
     \<lparr>fd_name = ''socket_protocol'', fd_id = 3, fd_label = PROTOBUF_C_LABEL_OPTIONAL, fd_type = PROTOBUF_C_TYPE_ENUM,
      fd_quantifier = Some ''has_socket_protocol'', fd_offset = ''socket_protocol'', fd_descriptor = Some ''dnstap__socket_protocol__descriptor'', fd_flags = 0\<rparr>,
     \<lparr>fd_name = ''query_address'', fd_id = 4, fd_label = PROTOBUF_C_LABEL_OPTIONAL, fd_type = PROTOBUF_C_TYPE_BYTES,
      fd_quantifier = Some ''has_query_address'', fd_offset = ''query_address'', fd_descriptor = None, fd_flags = 0\<rparr>,
     \<lparr>fd_name = ''response_address'', fd_id = 5, fd_label = PROTOBUF_C_LABEL_OPTIONAL, fd_type = PROTOBUF_C_TYPE_BYTES,
      fd_quantifier = Some ''has_response_address'', fd_offset = ''response_address'', fd_descriptor = None, fd_flags = 0\<rparr>,
     \<lparr>fd_name = ''query_port'', fd_id = 6, fd_label = PROTOBUF_C_LABEL_OPTIONAL, fd_type = PROTOBUF_C_TYPE_UINT32,
      fd_quantifier = Some ''has_query_port'', fd_offset = ''query_port'', fd_descriptor = None, fd_flags = 0\<rparr>,
     \<lparr>fd_name = ''response_port'', fd_id = 7, fd_label = PROTOBUF_C_LABEL_OPTIONAL, fd_type = PROTOBUF_C_TYPE_UINT32,
      fd_quantifier = Some ''has_response_port'', fd_offset = ''response_port'', fd_descriptor = None, fd_flags = 0\<rparr>,
     \<lparr>fd_name = ''query_time_sec'', fd_id = 8, fd_label = PROTOBUF_C_LABEL_OPTIONAL, fd_type = PROTOBUF_C_TYPE_UINT64,
      fd_quantifier = Some ''has_query_time_sec'', fd_offset = ''query_time_sec'', fd_descriptor = None, fd_flags = 0\<rparr>,
     \<lparr>fd_name = ''query_time_nsec'', fd_id = 9, fd_label = PROTOBUF_C_LABEL_OPTIONAL, fd_type = PROTOBUF_C_TYPE_FIXED32,
      fd_quantifier = Some ''has_query_time_nsec'', fd_offset = ''query_time_nsec'', fd_descriptor = None, fd_flags = 0\<rparr>,
     \<lparr>fd_name = ''query_message'', fd_id = 10, fd_label = PROTOBUF_C_LABEL_OPTIONAL, fd_type = PROTOBUF_C_TYPE_BYTES,
      fd_quantifier = Some ''has_query_message'', fd_offset = ''query_message'', fd_descriptor = None, fd_flags = 0\<rparr>,
     \<lparr>fd_name = ''query_zone'', fd_id = 11, fd_label = PROTOBUF_C_LABEL_OPTIONAL, fd_type = PROTOBUF_C_TYPE_BYTES,
      fd_quantifier = Some ''has_query_zone'', fd_offset = ''query_zone'', fd_descriptor = None, fd_flags = 0\<rparr>,
     \<lparr>fd_name = ''response_time_sec'', fd_id = 12, fd_label = PROTOBUF_C_LABEL_OPTIONAL, fd_type = PROTOBUF_C_TYPE_UINT64,
      fd_quantifier = Some ''has_response_time_sec'', fd_offset = ''response_time_sec'', fd_descriptor = None, fd_flags = 0\<rparr>,
     \<lparr>fd_name = ''response_time_nsec'', fd_id = 13, fd_label = PROTOBUF_C_LABEL_OPTIONAL, fd_type = PROTOBUF_C_TYPE_FIXED32,
      fd_quantifier = Some ''has_response_time_nsec'', fd_offset = ''response_time_nsec'', fd_descriptor = None, fd_flags = 0\<rparr>,
     \<lparr>fd_name = ''response_message'', fd_id = 14, fd_label = PROTOBUF_C_LABEL_OPTIONAL, fd_type = PROTOBUF_C_TYPE_BYTES,
      fd_quantifier = Some ''has_response_message'', fd_offset = ''response_message'', fd_descriptor = None, fd_flags = 0\<rparr>]"

definition dnstap__message__field_indices_by_name :: "nat list" where
  "dnstap__message__field_indices_by_name = [3, 9, 5, 8, 7, 10, 4, 13, 6, 12, 11, 1, 2, 0]"

definition dnstap__message__number_ranges :: "int_range list" where
  "dnstap__message__number_ranges = [\<lparr>start_value = 1, orig_index = 0\<rparr>, \<lparr>start_value = 0, orig_index = 14\<rparr>]"

definition dnstap__message__descriptor :: message_descriptor where
  "dnstap__message__descriptor = \<lparr>
     md_name = ''dnstap.Message'', md_short_name = ''Message'', md_c_name = ''Dnstap__Message'', md_package_name = ''dnstap'',
     md_n_fields = 14, md_fields = dnstap__message__field_descriptors, md_fields_by_name = dnstap__message__field_indices_by_name,
     md_n_field_ranges = 1, md_field_ranges = dnstap__message__number_ranges\<rparr>"

definition dnstap__socket_family__enum_values_by_number :: "enum_value list" where
  "dnstap__socket_family__enum_values_by_number = [
     \<lparr>enum_name = ''INET'', enum_c_name = ''DNSTAP__SOCKET_FAMILY__INET'', enum_number = 1\<rparr>,
     \<lparr>enum_name = ''INET6'', enum_c_name = ''DNSTAP__SOCKET_FAMILY__INET6'', enum_number = 2\<rparr>]"

definition dnstap__socket_family__value_ranges :: "int_range list" where
  "dnstap__socket_family__value_ranges = [\<lparr>start_value = 1, orig_index = 0\<rparr>, \<lparr>start_value = 0, orig_index = 2\<rparr>]"

definition dnstap__socket_family__enum_values_by_name :: "(string \<times> nat) list" where
  "dnstap__socket_family__enum_values_by_name = [(''INET'', 0), (''INET6'', 1)]"

definition dnstap__socket_family__descriptor :: enum_descriptor where
  "dnstap__socket_family__descriptor = \<lparr>
     ed_name = ''dnstap.SocketFamily'', ed_short_name = ''SocketFamily'', ed_c_name = ''Dnstap__SocketFamily'', ed_package_name = ''dnstap'',
     ed_n_values = 2, ed_values = dnstap__socket_family__enum_values_by_number,
     ed_n_value_names = 2, ed_values_by_name = dnstap__socket_family__enum_values_by_name,
     ed_n_value_ranges = 1, ed_value_ranges = dnstap__socket_family__value_ranges\<rparr>"

definition dnstap__socket_protocol__enum_values_by_number :: "enum_value list" where
  "dnstap__socket_protocol__enum_values_by_number = [
     \<lparr>enum_name = ''UDP'', enum_c_name = ''DNSTAP__SOCKET_PROTOCOL__UDP'', enum_number = 1\<rparr>,
     \<lparr>enum_name = ''TCP'', enum_c_name = ''DNSTAP__SOCKET_PROTOCOL__TCP'', enum_number = 2\<rparr>]"

definition dnstap__socket_protocol__value_ranges :: "int_range list" where
  "dnstap__socket_protocol__value_ranges = [\<lparr>start_value = 1, orig_index = 0\<rparr>, \<lparr>start_value = 0, orig_index = 2\<rparr>]"

definition dnstap__socket_protocol__enum_values_by_name :: "(string \<times> nat) list" where
  "dnstap__socket_protocol__enum_values_by_name = [(''TCP'', 1), (''UDP'', 0)]"

definition dnstap__socket_protocol__descriptor :: enum_descriptor where
  "dnstap__socket_protocol__descriptor = \<lparr>
     ed_name = ''dnstap.SocketProtocol'', ed_short_name = ''SocketProtocol'', ed_c_name = ''Dnstap__SocketProtocol'', ed_package_name = ''dnstap'',
     ed_n_values = 2, ed_values = dnstap__socket_protocol__enum_values_by_number,
     ed_n_value_names = 2, ed_values_by_name = dnstap__socket_protocol__enum_values_by_name,
     ed_n_value_ranges = 1, ed_value_ranges = dnstap__socket_protocol__value_ranges\<rparr>"

section \<open>The functions\<close>

text \<open>The initial values: no flag is set, numbers are zero and pointers NULL.\<close>

definition DNSTAP__MESSAGE__INIT :: pb_message where
  "DNSTAP__MESSAGE__INIT = \<lparr>msg_descriptor = ''dnstap__message__descriptor'', msg_type = 0,
     has_socket_family = False, socket_family = 0, has_socket_protocol = False, socket_protocol = 0,
     has_query_address = False, query_address = [], has_response_address = False, response_address = [],
     has_query_port = False, query_port = 0, has_response_port = False, response_port = 0,
     has_query_time_sec = False, query_time_sec = 0, has_query_time_nsec = False, query_time_nsec = 0,
     has_query_message = False, query_message = [], has_query_zone = False, query_zone = [],
     has_response_time_sec = False, response_time_sec = 0, has_response_time_nsec = False, response_time_nsec = 0,
     has_response_message = False, response_message = []\<rparr>"

definition DNSTAP__DNSTAP__INIT :: pb_dnstap where
  "DNSTAP__DNSTAP__INIT = \<lparr>dnstap_descriptor = ''dnstap__dnstap__descriptor'', has_identity = False, identity = [],
     has_version = False, version = [], has_extra = False, extra = [], dnstap_type = 0, dnstap_message_ptr = None\<rparr>"

text \<open>The library works on messages of any type; what it does is a parameter.\<close>

datatype pb_any = Any_Dnstap pb_dnstap | Any_Message pb_message

record protobuf_c =
  lib_packed_size :: "pb_any \<Rightarrow> nat"
  lib_pack :: "pb_any \<Rightarrow> bytes"
  lib_pack_to_buffer :: "pb_any \<Rightarrow> bytes \<Rightarrow> nat \<times> bytes"
  lib_unpack :: "message_descriptor \<Rightarrow> bytes \<Rightarrow> pb_any option"

definition dnstap__dnstap__init :: "pb_dnstap \<Rightarrow> pb_dnstap" where
  "dnstap__dnstap__init _ = DNSTAP__DNSTAP__INIT"

definition dnstap__dnstap__get_packed_size :: "protobuf_c \<Rightarrow> pb_dnstap \<Rightarrow> nat option" where
  "dnstap__dnstap__get_packed_size lib m = do {
     c_assert (dnstap_descriptor m = ''dnstap__dnstap__descriptor'');
     Some (lib_packed_size lib (Any_Dnstap m))
   }"

definition dnstap__dnstap__pack :: "protobuf_c \<Rightarrow> pb_dnstap \<Rightarrow> bytes option" where
  "dnstap__dnstap__pack lib m = do {
     c_assert (dnstap_descriptor m = ''dnstap__dnstap__descriptor'');
     Some (lib_pack lib (Any_Dnstap m))
   }"

definition dnstap__dnstap__pack_to_buffer :: "protobuf_c \<Rightarrow> pb_dnstap \<Rightarrow> bytes \<Rightarrow> (nat \<times> bytes) option" where
  "dnstap__dnstap__pack_to_buffer lib m buffer = do {
     c_assert (dnstap_descriptor m = ''dnstap__dnstap__descriptor'');
     Some (lib_pack_to_buffer lib (Any_Dnstap m) buffer)
   }"

text \<open>The result is cast to the type of the message.\<close>

definition dnstap__dnstap__unpack :: "protobuf_c \<Rightarrow> bytes \<Rightarrow> pb_dnstap option" where
  "dnstap__dnstap__unpack lib bs =
     (case lib_unpack lib dnstap__dnstap__descriptor bs of Some (Any_Dnstap m) \<Rightarrow> Some m | _ \<Rightarrow> None)"

definition dnstap__dnstap__free_unpacked :: "pb_dnstap \<Rightarrow> unit option" where
  "dnstap__dnstap__free_unpacked m = c_assert (dnstap_descriptor m = ''dnstap__dnstap__descriptor'')"

definition dnstap__message__init :: "pb_message \<Rightarrow> pb_message" where
  "dnstap__message__init _ = DNSTAP__MESSAGE__INIT"

definition dnstap__message__get_packed_size :: "protobuf_c \<Rightarrow> pb_message \<Rightarrow> nat option" where
  "dnstap__message__get_packed_size lib m = do {
     c_assert (msg_descriptor m = ''dnstap__message__descriptor'');
     Some (lib_packed_size lib (Any_Message m))
   }"

definition dnstap__message__pack :: "protobuf_c \<Rightarrow> pb_message \<Rightarrow> bytes option" where
  "dnstap__message__pack lib m = do {
     c_assert (msg_descriptor m = ''dnstap__message__descriptor'');
     Some (lib_pack lib (Any_Message m))
   }"

definition dnstap__message__pack_to_buffer :: "protobuf_c \<Rightarrow> pb_message \<Rightarrow> bytes \<Rightarrow> (nat \<times> bytes) option" where
  "dnstap__message__pack_to_buffer lib m buffer = do {
     c_assert (msg_descriptor m = ''dnstap__message__descriptor'');
     Some (lib_pack_to_buffer lib (Any_Message m) buffer)
   }"

definition dnstap__message__unpack :: "protobuf_c \<Rightarrow> bytes \<Rightarrow> pb_message option" where
  "dnstap__message__unpack lib bs =
     (case lib_unpack lib dnstap__message__descriptor bs of Some (Any_Message m) \<Rightarrow> Some m | _ \<Rightarrow> None)"

definition dnstap__message__free_unpacked :: "pb_message \<Rightarrow> unit option" where
  "dnstap__message__free_unpacked m = c_assert (msg_descriptor m = ''dnstap__message__descriptor'')"

section \<open>The tables agree\<close>

text \<open>
  The library searches ranges of numbers: each entry is the first number of a range and its index; the
  next entry tells where the range ends.
\<close>

fun range_lookup :: "int_range list \<Rightarrow> int \<Rightarrow> nat option" where
  "range_lookup (r # r' # rs) n =
     (if start_value r \<le> n \<and> n < start_value r + int (orig_index r' - orig_index r)
      then Some (orig_index r + nat (n - start_value r)) else range_lookup (r' # rs) n)"
| "range_lookup _ n = None"

text \<open>Names are searched by bisection, so they have to be in the order of \<open>strcmp\<close>.\<close>

fun name_less :: "string \<Rightarrow> string \<Rightarrow> bool" where
  "name_less s [] = False"
| "name_less [] (d # t) = True"
| "name_less (c # s) (d # t) = (of_char c < (of_char d :: nat) \<or> c = d \<and> name_less s t)"

definition finds :: "int list \<Rightarrow> int_range list \<Rightarrow> bool" where
  "finds numbers rs \<longleftrightarrow> (\<forall>n i. range_lookup rs n = Some i \<longleftrightarrow> i < length numbers \<and> numbers ! i = n)"

definition enum_consistent :: "enum_descriptor \<Rightarrow> bool" where
  "enum_consistent d \<longleftrightarrow>
     ed_n_values d = length (ed_values d) \<and> ed_n_value_names d = length (ed_values_by_name d) \<and>
     Suc (ed_n_value_ranges d) = length (ed_value_ranges d) \<and>
     finds (map enum_number (ed_values d)) (ed_value_ranges d) \<and>
     sorted_wrt name_less (map fst (ed_values_by_name d)) \<and> ed_n_value_names d = ed_n_values d \<and>
     list_all (\<lambda>(name, i). i < ed_n_values d \<and> enum_name (ed_values d ! i) = name) (ed_values_by_name d)"

text \<open>An optional field has a flag, unless it is a pointer to a message.\<close>

definition field_consistent :: "field_descriptor \<Rightarrow> bool" where
  "field_consistent f \<longleftrightarrow> fd_offset f = fd_name f \<and>
     fd_quantifier f = (if fd_label f = PROTOBUF_C_LABEL_OPTIONAL \<and> fd_type f \<noteq> PROTOBUF_C_TYPE_MESSAGE
       then Some (''has_'' @ fd_name f) else None) \<and>
     (fd_descriptor f \<noteq> None \<longleftrightarrow> fd_type f \<in> {PROTOBUF_C_TYPE_ENUM, PROTOBUF_C_TYPE_MESSAGE})"

definition message_consistent :: "message_descriptor \<Rightarrow> bool" where
  "message_consistent d \<longleftrightarrow>
     md_n_fields d = length (md_fields d) \<and> Suc (md_n_field_ranges d) = length (md_field_ranges d) \<and>
     finds (map (\<lambda>f. int (fd_id f)) (md_fields d)) (md_field_ranges d) \<and>
     sorted_wrt name_less (map (\<lambda>i. fd_name (md_fields d ! i)) (md_fields_by_name d)) \<and>
     length (md_fields_by_name d) = md_n_fields d \<and> list_all (\<lambda>i. i < md_n_fields d) (md_fields_by_name d) \<and>
     list_all field_consistent (md_fields d)"

text \<open>A range from one is the numbering of the list; the numbers of a frame leave a gap.\<close>

lemma finds_from_one:
  assumes "numbers = map (\<lambda>i. int i + 1) [0..<n]"
  shows "finds numbers [\<lparr>start_value = 1, orig_index = 0\<rparr>, \<lparr>start_value = 0, orig_index = n\<rparr>]"
  unfolding finds_def assms by auto

lemma finds_upto:
  "finds [1] [\<lparr>start_value = 1, orig_index = 0\<rparr>, \<lparr>start_value = 0, orig_index = Suc 0\<rparr>]"
  "finds [1, 2] [\<lparr>start_value = 1, orig_index = 0\<rparr>, \<lparr>start_value = 0, orig_index = 2\<rparr>]"
  "finds [1, 2, 3, 4, 5, 6, 7, 8, 9, 10, 11, 12] [\<lparr>start_value = 1, orig_index = 0\<rparr>, \<lparr>start_value = 0, orig_index = 12\<rparr>]"
  "finds [1, 2, 3, 4, 5, 6, 7, 8, 9, 10, 11, 12, 13, 14]
     [\<lparr>start_value = 1, orig_index = 0\<rparr>, \<lparr>start_value = 0, orig_index = 14\<rparr>]"
  by (rule finds_from_one, simp add: upt_rec)+

lemma finds_two_ranges:
  assumes "a + int n \<le> b"
  shows "finds (map (\<lambda>i. a + int i) [0..<n] @ map (\<lambda>i. b + int i) [0..<m])
    [\<lparr>start_value = a, orig_index = 0\<rparr>, \<lparr>start_value = b, orig_index = n\<rparr>, \<lparr>start_value = c, orig_index = n + m\<rparr>]"
  using assms unfolding finds_def by (auto simp: nth_append)

lemma finds_gap:
  "finds [1, 2, 3, 14, 15] [\<lparr>start_value = 1, orig_index = 0\<rparr>, \<lparr>start_value = 14, orig_index = 3\<rparr>, \<lparr>start_value = 0, orig_index = 5\<rparr>]"
  using finds_two_ranges [of 1 3 14 2 0] by (simp add: upt_rec)

lemmas enum_tables = dnstap__dnstap__type__descriptor_def dnstap__dnstap__type__enum_values_by_number_def
  dnstap__dnstap__type__enum_values_by_name_def dnstap__dnstap__type__value_ranges_def
  dnstap__message__type__descriptor_def dnstap__message__type__enum_values_by_number_def
  dnstap__message__type__enum_values_by_name_def dnstap__message__type__value_ranges_def
  dnstap__socket_family__descriptor_def dnstap__socket_family__enum_values_by_number_def
  dnstap__socket_family__enum_values_by_name_def dnstap__socket_family__value_ranges_def
  dnstap__socket_protocol__descriptor_def dnstap__socket_protocol__enum_values_by_number_def
  dnstap__socket_protocol__enum_values_by_name_def dnstap__socket_protocol__value_ranges_def

lemmas message_tables = dnstap__dnstap__descriptor_def dnstap__dnstap__field_descriptors_def
  dnstap__dnstap__field_indices_by_name_def dnstap__dnstap__number_ranges_def
  dnstap__message__descriptor_def dnstap__message__field_descriptors_def
  dnstap__message__field_indices_by_name_def dnstap__message__number_ranges_def

lemma enums_consistent:
  "enum_consistent dnstap__dnstap__type__descriptor" "enum_consistent dnstap__message__type__descriptor"
  "enum_consistent dnstap__socket_family__descriptor" "enum_consistent dnstap__socket_protocol__descriptor"
  by (simp_all add: enum_consistent_def enum_tables finds_upto)

lemma messages_consistent:
  "message_consistent dnstap__dnstap__descriptor" "message_consistent dnstap__message__descriptor"
  by (simp_all add: message_consistent_def field_consistent_def message_tables finds_gap finds_upto)

text \<open>The tables have the constants of the enumerations.\<close>

definition enum_table :: "enum_descriptor \<Rightarrow> (string \<times> int) list" where
  "enum_table d = map (\<lambda>v. (enum_c_name v, enum_number v)) (ed_values d)"

lemma enum_constants:
  "enum_table dnstap__dnstap__type__descriptor = Dnstap__Dnstap__Type"
  "enum_table dnstap__message__type__descriptor = Dnstap__Message__Type"
  "enum_table dnstap__socket_family__descriptor = Dnstap__SocketFamily"
  "enum_table dnstap__socket_protocol__descriptor = Dnstap__SocketProtocol"
  by (simp_all add: enum_table_def enum_tables Dnstap__Dnstap__Type_def Dnstap__Message__Type_def
      Dnstap__SocketFamily_def Dnstap__SocketProtocol_def)

end
