(* ===== verification/Dnstap_Frame.thy ===== *)
theory Dnstap_Frame
  imports Dnstap Gather_Message
begin

text \<open>
  How the collector sees a message of the generated structures: the parameter \<open>ge_unpack\<close> of its model is the
  generated function on the library, and a query that a sender packs is what the collector reads.
\<close>

text \<open>The members that the collector reads.\<close>

definition collector_message :: "pb_message \<Rightarrow> dnstap_message" where
  "collector_message m = \<lparr>dm_type = nat (msg_type m),
     dm_query_message = (if has_query_message m then Some (query_message m) else None),
     dm_query_address = (if has_query_address m then Some (query_address m) else None)\<rparr>"

definition unpack_frame :: "protobuf_c \<Rightarrow> bytes \<Rightarrow> dnstap_message option option" where
  "unpack_frame lib bs =
     map_option (\<lambda>d. map_option collector_message (dnstap_message_ptr d)) (dnstap__dnstap__unpack lib bs)"

text \<open>The number of the only type that the collector takes is the one of the table.\<close>

lemma client_query_number:
  "(''CLIENT_QUERY'', 4) \<in> set (ed_values_by_name dnstap__message__type__descriptor)"
  "enum_number (ed_values dnstap__message__type__descriptor ! 4) = int DNSTAP__MESSAGE__TYPE__CLIENT_QUERY"
  by (simp_all add: enum_tables)

text \<open>A query as a sender builds it.\<close>

definition client_query :: "bytes \<Rightarrow> bytes \<Rightarrow> pb_dnstap" where
  "client_query address packet = DNSTAP__DNSTAP__INIT\<lparr>dnstap_type := 1, dnstap_message_ptr := Some
     (DNSTAP__MESSAGE__INIT\<lparr>msg_type := 5, has_query_address := True, query_address := address,
       has_query_message := True, query_message := packet\<rparr>)\<rparr>"

lemma packed_query_arrives:
  assumes "\<forall>d. dnstap_descriptor d = ''dnstap__dnstap__descriptor'' \<longrightarrow>
      lib_unpack lib dnstap__dnstap__descriptor (lib_pack lib (Any_Dnstap d)) = Some (Any_Dnstap d)"
  shows "\<exists>bs. dnstap__dnstap__pack lib (client_query address packet) = Some bs \<and>
    unpack_frame lib bs = Some (Some \<lparr>dm_type = 5, dm_query_message = Some packet, dm_query_address = Some address\<rparr>)"
  using assms
  by (simp add: dnstap__dnstap__pack_def client_query_def dnstap__dnstap__init_def dnstap__message__init_def
      DNSTAP__DNSTAP__INIT_def DNSTAP__MESSAGE__INIT_def unpack_frame_def dnstap__dnstap__unpack_def collector_message_def)

end
