(* ===== verification/Uthash_Check.thy ===== *)
theory Uthash_Check
  imports Uthash_Table
begin

text \<open>
  The library's own check of a hash table (\<open>HASH_FSCK\<close> in \<open>src/include/uthash.h\<close>, compiled with
  \<open>HASH_DEBUG\<close>), which ends the process when a link or a counter is wrong, and the macros that count and
  clear. A table with the invariant passes the check.
\<close>

section \<open>The macros\<close>

text \<open>The walks along a chain and along the order of the elements; they count.\<close>

partial_function (option) fsck_chain :: "'v heap \<Rightarrow> addr option \<Rightarrow> addr option \<Rightarrow> u32 \<Rightarrow> u32 option" where
  "fsck_chain h prev thh n =
     (case thh of
        None \<Rightarrow> Some n
      | Some a \<Rightarrow> do {
          e \<leftarrow> h a;
          c_assert (hh_prev e = prev);
          fsck_chain h (Some a) (hh_next e) (n + 1)
        })"

fun fsck_buckets :: "'v heap \<Rightarrow> hash_bucket list \<Rightarrow> u32 \<Rightarrow> u32 option" where
  "fsck_buckets h [] n = Some n"
| "fsck_buckets h (b # bs) n = do {
     k \<leftarrow> fsck_chain h None (hh_head b) 0;
     c_assert (bkt_count b = k);
     fsck_buckets h bs (n + k)
   }"

partial_function (option) fsck_order :: "'v heap \<Rightarrow> addr option \<Rightarrow> addr option \<Rightarrow> u32 \<Rightarrow> u32 option" where
  "fsck_order h prev thh n =
     (case thh of
        None \<Rightarrow> Some n
      | Some a \<Rightarrow> do {
          e \<leftarrow> h a;
          c_assert (app_prev e = prev);
          fsck_order h (Some a) (app_next e) (n + 1)
        })"

definition hash_fsck :: "'v uthash \<Rightarrow> unit option" where
  "hash_fsck s =
     (case ut_head s of
        None \<Rightarrow> Some ()
      | Some first \<Rightarrow> do {
          _ \<leftarrow> ut_heap s first;
          t \<leftarrow> ut_tbl s;
          c_assert (unat (num_buckets t) \<le> length (buckets t));
          n \<leftarrow> fsck_buckets (ut_heap s) (take (unat (num_buckets t)) (buckets t)) 0;
          c_assert (n = num_items t);
          m \<leftarrow> fsck_order (ut_heap s) None (Some first) 0;
          c_assert (m = num_items t)
        })"

definition hash_cnt :: "'v uthash \<Rightarrow> u32 option" where
  "hash_cnt s = (case ut_head s of
      None \<Rightarrow> Some 0
    | Some first \<Rightarrow> do { _ \<leftarrow> ut_heap s first; t \<leftarrow> ut_tbl s; Some (num_items t) })"

text \<open>Clearing frees the table; the elements stay allocated.\<close>

definition hash_clear :: "'v uthash \<Rightarrow> 'v uthash option" where
  "hash_clear s = (case ut_head s of
      None \<Rightarrow> Some s
    | Some first \<Rightarrow> do { _ \<leftarrow> ut_heap s first; _ \<leftarrow> ut_tbl s; Some (s\<lparr>ut_head := None, ut_tbl := None\<rparr>) })"

section \<open>A table with the invariant passes\<close>

lemma fsck_chain_seg:
  "seg (chn_view h) p c None \<Longrightarrow> fsck_chain h p (first_of c None) n = Some (n + of_nat (length c))"
proof (induction c arbitrary: p n)
  case Nil
  then show ?case by (simp add: fsck_chain.simps)
next
  case (Cons a c)
  then obtain e where "h a = Some e" "hh_prev e = p" "hh_next e = first_of c None" by (auto simp: chn_view_def)
  then show ?case using Cons by (simp add: fsck_chain.simps [of h p "Some a"] add.assoc)
qed

lemma fsck_order_seg:
  "seg (app_view h) p c None \<Longrightarrow> fsck_order h p (first_of c None) n = Some (n + of_nat (length c))"
proof (induction c arbitrary: p n)
  case Nil
  then show ?case by (simp add: fsck_order.simps)
next
  case (Cons a c)
  then obtain e where "h a = Some e" "app_prev e = p" "app_next e = first_of c None" by (auto simp: app_view_def)
  then show ?case using Cons by (simp add: fsck_order.simps [of h p "Some a"] add.assoc)
qed

lemma fsck_buckets_chains:
  assumes "length bs = length cs"
    and "\<And>i. i < length cs \<Longrightarrow> seg (chn_view h) None (cs ! i) None \<and> hh_head (bs ! i) = first_of (cs ! i) None \<and>
      bkt_count (bs ! i) = of_nat (length (cs ! i))"
  shows "fsck_buckets h bs n = Some (n + of_nat (length (concat cs)))"
  using assms
proof (induction bs cs arbitrary: n rule: list_induct2)
  case Nil
  then show ?case by simp
next
  case (Cons b bs c cs)
  have "seg (chn_view h) None c None" "hh_head b = first_of c None" "bkt_count b = of_nat (length c)"
    using Cons.prems [of 0] by simp_all
  moreover have "fsck_buckets h bs m = Some (m + of_nat (length (concat cs)))" for m
    using Cons.IH Cons.prems [of "Suc _"] by simp
  ultimately show ?case using fsck_chain_seg [of h None c 0] by (simp add: add.assoc)
qed

theorem hash_fsck_rep:
  assumes "ut_rep s xs"
  shows "hash_fsck s = Some ()" "hash_cnt s = Some (of_nat (length xs))"
    "\<exists>s'. hash_clear s = Some s' \<and> ut_rep s' [] \<and> ut_heap s' = ut_heap s"
proof -
  have "hash_fsck s = Some () \<and> hash_cnt s = Some (of_nat (length xs)) \<and>
    (\<exists>s'. hash_clear s = Some s' \<and> ut_rep s' [] \<and> ut_heap s' = ut_heap s)"
  proof (cases xs)
    case Nil
    then show ?thesis using assms by (auto simp: ut_rep_def hash_fsck_def hash_cnt_def hash_clear_def)
  next
    case (Cons a ys)
    let ?h = "ut_heap s"
    obtain t cs where t: "ut_tbl s = Some t" "table_rep ?h t xs cs" using assms Cons by (auto simp: ut_rep_def)
    have u: "ut_head s = Some a" "?h a \<noteq> None" "seg (app_view ?h) None xs None"
      using assms Cons by (auto simp: ut_rep_def app_view_def)
    have c: "length cs = unat (num_buckets t)" "chains_on (chn_view ?h) (buckets t) cs" "mset (concat cs) = mset xs"
      "num_items t = of_nat (length xs)" using t(2) by (simp_all add: table_rep_def)
    from mset_eq_length [OF c(3)] have l: "length (concat cs) = length xs" .
    have b: "length (buckets t) = length cs" using c(2) by (simp add: chains_on_def)
    then have "fsck_buckets ?h (buckets t) 0 = Some (0 + of_nat (length (concat cs)))"
      using c(2) by (intro fsck_buckets_chains) (auto simp: chains_on_def)
    moreover have "fsck_order ?h None (Some a) 0 = Some (of_nat (length xs))"
      using fsck_order_seg [OF u(3), of 0] Cons by simp
    ultimately have "hash_fsck s = Some ()" using t(1) u(1,2) b c(1,4) l by (auto simp: hash_fsck_def)
    moreover have "hash_cnt s = Some (of_nat (length xs))" using t(1) u(1,2) c(4) by (auto simp: hash_cnt_def)
    moreover have "hash_clear s = Some (s\<lparr>ut_head := None, ut_tbl := None\<rparr>)" using t(1) u(1,2) by (auto simp: hash_clear_def)
    ultimately show ?thesis by (auto simp: ut_rep_def items_ok_def)
  qed
  then show "hash_fsck s = Some ()" "hash_cnt s = Some (of_nat (length xs))"
    "\<exists>s'. hash_clear s = Some s' \<and> ut_rep s' [] \<and> ut_heap s' = ut_heap s" by blast+
qed

end
