(* ===== verification/Spec2Isabelle.thy ===== *)
theory Spec2Isabelle
  imports Collector_Properties Tool_Properties Format_Properties Data_Properties Memory_Properties
    Json_Release Decompressor Dnstap_Frame Uthash_Check
begin

text \<open>
  Honas collects the DNS queries of a network so that one can ask later whether some host name was looked
  up, and by roughly how many clients, without keeping who looked up what. The collector
  (\<open>src/src/bin/honas_gather.c\<close>) receives queries as dnstap messages over Frame Streams connections and registers
  each in the state of the current period: a file that is mapped into memory, with a header, a number of
  Bloom filters and two HyperLogLogs (\<open>src/src/honas_state.c\<close>). Every client has a fixed combination of the
  filters, chosen by the hash of its address; a name goes into all of them. \<open>honas-search\<close>, \<open>honas-info\<close>
  and \<open>honas-combine\<close> read the stored files.

  The development follows the C code from the bytes up. A function that can end the process (\<open>assert\<close>,
  \<open>log_die\<close>, an access outside of an array) is a function into \<open>option\<close>, and \<open>None\<close> is the abort; machine
  integers are words of their C width, or natural numbers where the code cannot overflow; structures are
  records and the mapped file is a list of bytes with views into it.

  Theories, the code they model, and what their lemmas show:

  \<^item> \<open>Honas_Base\<close>: the abort monad, bytes, bits and their numbers; lemmas that all others share.
  \<^item> \<open>Byte_Slice\<close>, \<open>Byte_Arith\<close>, \<open>Popcount\<close>, \<open>Murmur_Hash\<close> (\<open>byte_slice.h\<close>, \<open>byte_slice.c\<close>): operations on bits, word by
    word and byte by byte, as operations on the set of the bits; multiplication with a word, in C and in
    assembly, as that of numbers; counting bits; the hash function.
  \<^item> \<open>Bitset\<close> (\<open>bitset.h\<close>), \<open>Combinations\<close> (\<open>combinations.c\<close>), \<open>Bloom_Offsets\<close>, \<open>Bloom\<close> (\<open>bloom.c\<close>): the locale \<open>bit_store\<close>
    for slices and bit sets, the locale \<open>membership_filter\<close> for Bloom filters, and the enumeration of
    the combinations.
  \<^item> \<open>Hll_Dense\<close>, \<open>Hll_Opcodes\<close>, \<open>Hll_Sparse\<close>, \<open>Hyperloglog\<close> (\<open>hyperloglog.c\<close>): both forms represent the same list of
    registers; the locale \<open>cardinality_sketch\<close> has an interpretation on each.
  \<^item> \<open>State_File\<close>, \<open>Honas_State\<close> (\<open>honas_state.h\<close>, \<open>honas_state.c\<close>): the model of the state. \<open>State_Register\<close>,
    \<open>State_Check\<close>, \<open>State_Persist\<close>, \<open>State_Combine\<close> hold its lemmas: operations only add bits (\<open>grows\<close>), keep a
    state usable (\<open>state_ok\<close>), and every registered name is found, before and after storing and combining.
  \<^item> \<open>Utils\<close> (\<open>utils.c\<close>), \<open>Read_File\<close>, \<open>Decompressor\<close> (\<open>read_file.c\<close>), \<open>Config\<close> (\<open>config.c\<close>), \<open>Gather_Config\<close> (\<open>honas_gather_config.c\<close>): numbers,
    lines, configuration items and the configuration of the collector, with the round trip of a file.
  \<^item> \<open>Json_Printer\<close>, \<open>Json_Release\<close> (\<open>json_printer.c\<close>, with and without its checks; \<open>rfc_text\<close> is the text of
    a document by the standard, \<open>json_text\<close> what the printer writes), \<open>Json_Events\<close>
    (how yajl calls its clients, with the locale \<open>yajl_client\<close>),
    \<open>Search\<close>, \<open>Search_Output\<close> (\<open>honas_search.c\<close>), \<open>Tools\<close> (\<open>honas_info.c\<close>, \<open>honas_combine.c\<close>).
  \<^item> \<open>Net_Prefix\<close>, \<open>Inet\<close> (\<open>inet.c\<close>), \<open>Subnet_Activity\<close>, \<open>Subnet_Lemmas\<close>, \<open>Subnet_Load\<close> (\<open>subnet_activity.c\<close>): addresses
    as text, the table of prefixes as a map, its invariant, and the longest match.
  \<^item> \<open>Uthash\<close>, \<open>Uthash_Links\<close>, \<open>Uthash_Table\<close> (\<open>uthash.h\<close>): the hash table on a heap of elements with their two
    kinds of links, the linked lists as predicates on views of the heap, and the invariant of the table; the
    locale \<open>key_table\<close> is its interface; \<open>Uthash_Check\<close> is the library's own check,
    which such a table passes. \<open>Subnet_Table\<close> writes the table of prefixes on it and refines the map.
  \<^item> \<open>Instrumentation\<close> (\<open>instrumentation.c\<close>, \<open>advice.c\<close>), \<open>Logging\<close> (\<open>logging.c\<close>).
  \<^item> \<open>Gather_Message\<close>, \<open>Frame_Stream\<close>, \<open>Gather\<close> (\<open>honas_gather.c\<close>): a message, a connection, and the program with its
    start, end and timers. \<open>Gather_Resources\<close> follows the pointers to what the
    program acquires and releases, and to what it leaves.
    What its clients and timers do in any order are the relations \<open>client_step\<close> and \<open>collector_step\<close>; a read that
    does not return is \<open>client_crash\<close>. The invariants of all reachable states are by rule induction.
  \<^item> \<open>Dnstap\<close> (\<open>dnstap.pb-c.h\<close>, \<open>dnstap.pb-c.c\<close>): the generated structures, tables and functions, with the agreement of
    the tables; \<open>Dnstap_Frame\<close> is what the collector sees of them.
  \<^item> \<open>Getopt\<close> (\<open>getopt_long\<close> of the C library and the loop over its results, with the locale \<open>option_program\<close>), \<open>Command_Line\<close>
    (the functions \<open>main\<close> of \<open>honas_combine.c\<close>, \<open>honas_info.c\<close>, \<open>honas_search.c\<close>), \<open>Gather_Main\<close> (\<open>main\<close> of \<open>honas_gather.c\<close>
    around the loop over the events): from the arguments and files to the exit code, the log and the files.
  \<^item> \<open>Examples\<close> holds the small instances on which the properties are applied; the properties C1 to C7
    and C9 on the state are in this theory, C8 and C10 in \<open>Memory_Properties\<close>, C11 to C20 in
    \<open>Collector_Properties\<close>, C21 to C23 in \<open>Tool_Properties\<close>, C24 to C35
    in \<open>Format_Properties\<close>, C36 to C39 in \<open>Data_Properties\<close> and C40, on the start of the collector, in \<open>Collector_Properties\<close>.

  Loops: all are total functions with a measure, except the three that may run forever, waiting for a
  decompressor (\<open>wait_loop\<close>) and the two searches of the log levels (\<open>level_search\<close>, \<open>name_search\<close>), and the three
  that follow the links of the hash table (\<open>find_in_bkt\<close>, \<open>move_chain\<close>, \<open>delete_loop\<close>). These are partial functions, for
  which \<open>None\<close> means that they do not return; on a table with its invariant the last three do. No fuel is used; the depth of the includes
  of a configuration file is the code's own bound of eleven, which C30 pins.

  Parameters: SHA-256 (a function of which only the length of its result is used), yajl, fstrm, protobuf-c,
  the DNS parser (whose names are strings of C, without zero bytes), \<open>inet_pton\<close> and \<open>inet_ntop\<close>, the file system, the clock, \<open>malloc\<close>, \<open>mmap\<close> and
  \<open>fork\<close>. Real numbers stand for doubles in the estimates of the HyperLogLog and in the advice.

  Not modelled: the operations of \<open>uthash.h\<close> that no program uses (sorting, selecting,
  other hash functions, its Bloom filter), the delivery of
  signals and the socket itself, some log messages, times in local time, and the test programs and
  scripts. The copy of a file name into memory that is one byte too short, and rounding of doubles, have no
  effect in the model. The signed shift in the mask of an IPv4 network of length one, which C leaves
  undefined, wraps around.
\<close>

section \<open>The state of Honas\<close>

text \<open>
  C1. Register any lookups, of any clients and in any order, in a state that was created: all
  registrations succeed, and afterwards a check for any of the names that they registered succeeds
  and finds the name in at least as many filters as there are filters per user. These names are the
  host name, and, unless the query is for PTR, each of its labels but the last, and its second level
  domain; and with an entity also entity, \<open>@\<close> and the host name, and (unless PTR) entity, \<open>@\<close> and each of these
  labels. The second level domain of a longer name is not registered with the entity, though the README
  lists it (lemma \<open>entity_sld_not_registered\<close>).
\<close>

theorem registered_names_are_found:
  assumes "\<forall>d. sha_hash (sha d)" and "created_state n bits st" "state_ok st" "combinations_ok st"
    and "\<forall>r \<in> set rs. registration_ok r"
  shows "\<exists>st' dry'. register_all sha rs (st, None) = Some (st', dry') \<and>
    created_state n bits st' \<and> state_ok st' \<and>
    (\<forall>r \<in> set rs. \<forall>name nm. name_ok (reg_host r) name \<longrightarrow>
      nm \<in> set (registered_names (reg_entity r) (reg_qtype r) name) \<longrightarrow>
      (\<exists>cnt. honas_state_check_host_name_lookups st' (sha nm) None = Some (cnt, None) \<and>
        unat (number_of_filters_per_user (header st)) \<le> cnt))"
proof -
  have d: "dry_ok None" by (simp add: dry_ok_def)
  obtain st' dry' where r: "register_all sha rs (st, None) = Some (st', dry')" "state_ok st'" "grows st st'"
    "\<forall>r \<in> set rs. \<forall>ch name n. client_hash (reg_client r) = Some ch \<longrightarrow> name_ok (reg_host r) name \<longrightarrow>
        n \<in> set (registered_names (reg_entity r) (reg_qtype r) name) \<longrightarrow>
        set (client_filters st ch) \<subseteq> hit_filters st' (sha n)"
    using register_all_ok [OF assms(1,3,4) d assms(5)] by (elim exE conjE)
  have "\<exists>cnt. honas_state_check_host_name_lookups st' (sha nm) None = Some (cnt, None) \<and>
        unat (number_of_filters_per_user (header st)) \<le> cnt"
    if "r \<in> set rs" "name_ok (reg_host r) name" "nm \<in> set (registered_names (reg_entity r) (reg_qtype r) name)"
    for r name nm
  proof -
    have ok: "registration_ok r" using assms(5) that(1) by blast
    then obtain ch where ch: "client_hash (reg_client r) = Some ch"
      unfolding registration_ok_def by blast
    show ?thesis
    proof (rule check_at_least [of _ _ "client_filters st ch"])
      show "filters_ok st'" using r(2) by (simp add: state_ok_def)
      show "sha_hash (sha nm)" using assms(1) by blast
      show "set (client_filters st ch) \<subseteq> hit_filters st' (sha nm)"
        using bspec [OF r(4) that(1)] ch that(2,3) by blast
    qed (use client_filters_props [OF assms(4), of ch] in simp_all)
  qed
  moreover have "created_state n bits st'" by (rule created_state_grows [OF r(3) assms(2)])
  ultimately show ?thesis using r(1,2) by (intro exI [of _ st'] exI [of _ dry']) blast
qed

theorem registered_names_are_found_witness:
  "\<exists>st st' dry'. register_all ex_hash [ex_lookup 1, ex_lookup 12] (st, None) = Some (st', dry') \<and>
    (\<exists>cnt. honas_state_check_host_name_lookups st' (ex_hash [119, 119, 119, 46, 120, 46, 110, 108]) None =
      Some (cnt, None) \<and> 2 \<le> cnt)"
proof -
  obtain st where st: "created_state 3 64 st" "state_ok st" "combinations_ok st" "header st = new_header 3 64 2 2 1"
    using ex_state [of 2] by auto
  have ok: "\<forall>r \<in> set [ex_lookup 1, ex_lookup 12]. registration_ok r" using ex_lookup_ok(1) by simp
  let ?w = "[119, 119, 119, 46, 120, 46, 110, 108] :: bytes"
  obtain st' dry' where r: "register_all ex_hash [ex_lookup 1, ex_lookup 12] (st, None) = Some (st', dry')"
    "\<forall>r \<in> set [ex_lookup 1, ex_lookup 12]. \<forall>name nm. name_ok (reg_host r) name \<longrightarrow>
      nm \<in> set (registered_names (reg_entity r) (reg_qtype r) name) \<longrightarrow>
      (\<exists>cnt. honas_state_check_host_name_lookups st' (ex_hash nm) None = Some (cnt, None) \<and>
        unat (number_of_filters_per_user (header st)) \<le> cnt)"
    using registered_names_are_found [OF ex_hash_sha st(1-3) ok] by blast
  have "?w \<in> set (registered_names (reg_entity (ex_lookup 1)) (reg_qtype (ex_lookup 1)) ?w)"
    by (simp add: registered_names_def)
  with r(2) ex_lookup_ok(3) [of 1]
  have "\<exists>cnt. honas_state_check_host_name_lookups st' (ex_hash ?w) None = Some (cnt, None) \<and>
      unat (number_of_filters_per_user (header st)) \<le> cnt"
    by (meson list.set_intros(1))
  then show ?thesis using r(1) st(4) by auto
qed

text \<open>
  C2. Persisting a state and loading the file that was written succeeds; the loaded state has the
  same layout and finds every hash in at least the filters in which the state found it. Thus what a
  state holds survives the restart of the gatherer and is there for the search.
\<close>

theorem persist_then_load_keeps_names:
  assumes "created_state n bits st" "hlls_usable st"
  shows "\<exists>st' fl st''. honas_state_persist 8 builtin_popcountll st = Some (st', fl) \<and>
    honas_state_load True (Some fl) = Some (0, Some st'') \<and> header st'' = header st' \<and>
    created_state n bits st'' \<and> hlls_usable st'' \<and>
    (\<forall>hash cnt. sha_hash hash \<longrightarrow> honas_state_check_host_name_lookups st hash None = Some (cnt, None) \<longrightarrow>
      (\<exists>cnt' \<ge> cnt. honas_state_check_host_name_lookups st'' hash None = Some (cnt', None)))"
proof -
  obtain st' fl st'' where p: "honas_state_persist 8 builtin_popcountll st = Some (st', fl)"
    "honas_state_load True (Some fl) = Some (0, Some st'')" "header st'' = header st'"
    "created_state n bits st''" "hlls_usable st''" "\<forall>hash. hit_filters st hash \<subseteq> hit_filters st'' hash"
    using persist_load [OF _ popcountll_correct assms] by auto
  have "\<exists>cnt' \<ge> cnt. honas_state_check_host_name_lookups st'' hash None = Some (cnt', None)"
    if "sha_hash hash" "honas_state_check_host_name_lookups st hash None = Some (cnt, None)" for hash cnt
    using that p(6) by (intro check_mono [OF created_filters_ok [OF assms(1)] created_filters_ok [OF p(4)]]) auto
  with p show ?thesis by blast
qed

theorem persist_then_load_keeps_names_witness:
  "\<exists>st st' fl st''. honas_state_create True True 3 64 2 2 1 = Some (0, Some st) \<and>
    honas_state_persist 8 builtin_popcountll st = Some (st', fl) \<and>
    honas_state_load True (Some fl) = Some (0, Some st'')"
proof -
  obtain st where "honas_state_create True True 3 64 2 2 1 = Some (0, Some st)" "created_state 3 64 st" "hlls_usable st"
    using ex_state [of 2] by auto
  with persist_then_load_keeps_names [of 3 64 st] show ?thesis by blast
qed

text \<open>
  C3. Combining two states of the same shape succeeds: each hash is found in the result in at least
  as many filters as in either state, the requests are added up and the period is the hull of the
  two periods. The source keeps its filters.
\<close>

theorem combine_keeps_names:
  assumes "created_state n bits t" "hlls_usable t" "created_state n bits s" "hlls_usable s"
    and "number_of_hashes (header t) = number_of_hashes (header s)"
  shows "\<exists>t' s'. honas_state_aggregate_combine (Some t) (Some s) = Some (True, Some t', Some s') \<and>
    created_state n bits t' \<and> hlls_usable t' \<and> mmap s' = mmap s \<and> filters s' = filters s \<and>
    number_of_requests (header t') = number_of_requests (header t) + number_of_requests (header s) \<and>
    period_begin (header t') = min (period_begin (header t)) (period_begin (header s)) \<and>
    period_end (header t') = max (period_end (header t)) (period_end (header s)) \<and>
    (\<forall>hash ct cs. sha_hash hash \<longrightarrow> honas_state_check_host_name_lookups t hash None = Some (ct, None) \<longrightarrow>
      honas_state_check_host_name_lookups s hash None = Some (cs, None) \<longrightarrow>
      (\<exists>cnt. honas_state_check_host_name_lookups t' hash None = Some (cnt, None) \<and> max ct cs \<le> cnt))"
proof -
  obtain t' s' where c: "honas_state_aggregate_combine (Some t) (Some s) = Some (True, Some t', Some s')"
    "created_state n bits t'" "hlls_usable t'" "mmap s' = mmap s" "filters s' = filters s"
    "\<forall>hash. hit_filters t hash \<union> hit_filters s hash \<subseteq> hit_filters t' hash"
    "header t' = combine_headers (header t) (header s)"
    using combine_ok [OF assms] by blast
  have "\<exists>cnt. honas_state_check_host_name_lookups t' hash None = Some (cnt, None) \<and> max ct cs \<le> cnt"
    if h: "sha_hash hash" "honas_state_check_host_name_lookups t hash None = Some (ct, None)"
      "honas_state_check_host_name_lookups s hash None = Some (cs, None)" for hash ct cs
  proof -
    note fo = created_filters_ok [OF assms(1)] created_filters_ok [OF assms(3)] created_filters_ok [OF c(2)]
    have sub: "hit_filters t hash \<subseteq> hit_filters t' hash" "hit_filters s hash \<subseteq> hit_filters t' hash" using c(6) by auto
    show ?thesis
      using check_mono [OF fo(1,3) h(1) sub(1) h(2)] check_mono [OF fo(2,3) h(1) sub(2) h(3)] by fastforce
  qed
  then show ?thesis using c by (simp add: combine_headers_def)
qed

theorem combine_keeps_names_witness:
  "\<exists>t s t' s'. header t = new_header 3 64 2 2 1 \<and> header s = new_header 3 64 2 2 1 \<and>
    honas_state_aggregate_combine (Some t) (Some s) = Some (True, Some t', Some s') \<and>
    number_of_requests (header t') = 0"
proof -
  obtain st where st: "created_state 3 64 st" "hlls_usable st" "header st = new_header 3 64 2 2 1"
    using ex_state [of 2] by auto
  have "number_of_requests (new_header 3 64 2 2 1) = 0" by (simp add: new_header_def Let_def)
  with combine_keeps_names [OF st(1,2) st(1,2) refl] st(3) show ?thesis by auto
qed

text \<open>
  C4. Two states that differ in the number of filters, the size of the filters or the number of
  hashes, or one of which is missing, are not combined: the result is \<open>false\<close> and both are unchanged.
\<close>

theorem combine_rejects_mismatch:
  assumes "\<forall>t s. target = Some t \<longrightarrow> source = Some s \<longrightarrow>
    number_of_bits_per_filter (header t) \<noteq> number_of_bits_per_filter (header s) \<or>
    number_of_hashes (header t) \<noteq> number_of_hashes (header s) \<or>
    number_of_filters (header t) \<noteq> number_of_filters (header s)"
  shows "honas_state_aggregate_combine target source = Some (False, target, source)"
proof (cases "target = None \<or> source = None")
  case True
  then show ?thesis by (auto simp: honas_state_aggregate_combine_def split: option.splits)
next
  case False
  then obtain t s where "target = Some t" "source = Some s" by auto
  with combine_mismatch assms show ?thesis by blast
qed

theorem combine_rejects_mismatch_witness:
  "\<exists>t s. honas_state_aggregate_combine (Some t) (Some s) = Some (False, Some t, Some s)"
proof -
  obtain t :: honas_state where t: "header t = new_header 3 64 2 2 1" using ex_state [of 2, simplified] by blast
  obtain s :: honas_state where s: "header s = new_header 3 64 3 2 1" using ex_state [of 3, simplified] by blast
  have "honas_state_aggregate_combine (Some t) (Some s) = Some (False, Some t, Some s)"
    by (rule combine_rejects_mismatch) (use t s in simp)
  then show ?thesis by blast
qed

text \<open>
  C5. A check returns the number of filters that hold the hash and adds exactly these filters to
  the bit set of the caller, if there is one; it never fails on a usable state.
\<close>

theorem check_reports_filters:
  assumes "filters_ok st" "sha_hash hash" "hit_ok (length (filters st)) hit"
  shows "\<exists>hit'. honas_state_check_host_name_lookups st hash hit = Some (card (hit_filters st hash), hit') \<and>
    (case hit of None \<Rightarrow> hit' = None
     | Some b \<Rightarrow> \<exists>b'. hit' = Some b' \<and> bitset_wf b' \<and> bs_num_bits b' = bs_num_bits b \<and>
         bitset_ones b' = bitset_ones b \<union> hit_filters st hash)"
  using check_eq [OF assms] unfolding adds_def .

theorem check_reports_filters_witness:
  "\<exists>st b hit'. bitset_create True 3 = Some b \<and>
    honas_state_check_host_name_lookups st (ex_hash []) (Some b) = Some (card (hit_filters st (ex_hash [])), hit')"
proof -
  obtain st :: honas_state where st: "created_state 3 64 st" using ex_state [of 2, simplified] by blast
  have f: "filters_ok st" by (rule created_filters_ok [OF st])
  have l: "length (filters st) = 3" using header_room(1) [OF st] by simp
  obtain b where b: "bitset_create True 3 = Some b" "bitset_wf b" "bs_num_bits b = 3"
    using bitset_create_wf [of 3 True] by auto
  have "hit_ok (length (filters st)) (Some b)" using b l by (simp add: hit_ok_def)
  moreover have "sha_hash (ex_hash [])" using ex_hash_sha by blast
  ultimately show ?thesis using check_reports_filters [OF f] b(1) by blast
qed

text \<open>
  C6. Creating a state whose sizes fit succeeds; the file has the size of the header, the filters and
  the two HyperLogLogs, each rounded up to whole pages; every filter starts on a page behind the
  header, ends inside the file, and does not overlap another filter; no filter holds any hash.
\<close>

theorem create_lays_out_filters:
  assumes "layout_fits n bits" "hashes > 0" "per_user > 0"
  shows "\<exists>st. honas_state_create True True n bits hashes per_user flatten = Some (0, Some st) \<and> state_ok st \<and>
    st_size st = pages (108 + 4 * unat n) + unat n * pages (unat bits div 8) + 2 * 16384 \<and>
    length (filters st) = unat n \<and>
    (\<forall>i < unat n. 4096 dvd fst (filters st ! i) \<and> snd (filters st ! i) = unat bits div 8 \<and>
      108 + 4 * unat n \<le> fst (filters st ! i) \<and> fst (filters st ! i) + snd (filters st ! i) \<le> st_size st) \<and>
    (\<forall>i j. i < j \<longrightarrow> j < unat n \<longrightarrow> fst (filters st ! i) + snd (filters st ! i) \<le> fst (filters st ! j)) \<and>
    (\<forall>hash. sha_hash hash \<longrightarrow> honas_state_check_host_name_lookups st hash None = Some (0, None))"
proof -
  obtain st where st: "honas_state_create True True n bits hashes per_user flatten = Some (0, Some st)"
    "created_state n bits st" "state_ok st" "\<forall>hash i. i < unat n \<longrightarrow> \<not> (sha_hash hash \<and> in_filter st hash i)"
    using create_ok [OF assms] by blast
  have f: "filters st = created_filters (unat n) (unat bits div 8)"
    "st_size st = created_size (unat n) (unat bits div 8)"
    using st(2) by (simp_all add: created_state_def)
  note l = header_room(1) [OF st(2)]
  have "honas_state_check_host_name_lookups st hash None = Some (0, None)" if "sha_hash hash" for hash
  proof -
    have "hit_filters st hash = {}" using st(4) that l by (auto simp: hit_filters_def)
    with check_eq [OF created_filters_ok [OF st(2)] that, of None] show ?thesis
      by (auto simp: hit_ok_def adds_def)
  qed
  moreover have "4096 dvd fst (filters st ! i) \<and> snd (filters st ! i) = unat bits div 8 \<and>
      108 + 4 * unat n \<le> fst (filters st ! i) \<and> fst (filters st ! i) + snd (filters st ! i) \<le> st_size st"
    if "i < unat n" for i
  proof -
    have "filters st ! i \<in> set (created_filters (unat n) (unat bits div 8))" using that l f(1) by simp
    then show ?thesis
      using created_filters_page created_filters_bounds f(2) by (metis prod.collapse)
  qed
  moreover have "fst (filters st ! i) + snd (filters st ! i) \<le> fst (filters st ! j)" if "i < j" "j < unat n" for i j
    unfolding f(1) by (rule created_filters_disjoint [OF that])
  moreover have "st_size st = pages (108 + 4 * unat n) + unat n * pages (unat bits div 8) + 2 * 16384"
    using f(2) by (simp add: created_size_def)
  ultimately show ?thesis using st(1,3) l by blast
qed

theorem create_lays_out_filters_witness:
  "\<exists>st. honas_state_create True True 3 64 2 2 1 = Some (0, Some st) \<and> st_size st = 49152"
  using create_lays_out_filters [OF ex_layout, of 2 2 1] by (auto simp: pages_def)

text \<open>
  C7. The registers of the HyperLogLog of the clients lie inside the mapping but begin before the end
  of the last filter: their address lacks the offset of the first filter. As soon as a filter and the
  registers together are larger than the part of the file before the first filter, the two overlap.
\<close>

theorem client_registers_overlap_last_filter:
  assumes "layout_fits n bits" "hashes > 0" "per_user > 0"
  shows "\<exists>st. honas_state_create True True n bits hashes per_user flatten = Some (0, Some st) \<and>
    fst (client_count_registers st) < fst (last (filters st)) + snd (last (filters st)) \<and>
    (pages (108 + 4 * unat n) < pages (unat bits div 8) + 12289 \<longrightarrow>
      fst (last (filters st)) < fst (client_count_registers st) + snd (client_count_registers st))"
proof -
  obtain st where st: "honas_state_create True True n bits hashes per_user flatten = Some (0, Some st)"
    "created_state n bits st" using create_ok [OF assms] by blast
  have "0 < unat n" using assms(1) by (rule layout_fits_bytes)
  from client_registers_overlap [OF this, of "unat bits div 8"] st show ?thesis
    by (auto simp: created_state_def)
qed

theorem client_registers_overlap_last_filter_witness:
  "\<exists>st. honas_state_create True True 3 64 2 2 1 = Some (0, Some st) \<and>
    fst (client_count_registers st) < fst (last (filters st)) + snd (last (filters st)) \<and>
    fst (last (filters st)) < fst (client_count_registers st) + snd (client_count_registers st)"
  using client_registers_overlap_last_filter [OF ex_layout, of 2 2 1] by (auto simp: pages_def)



end
